(* ===== verification/Prelude.thy ===== *)
theory Prelude
  imports Main "HOL-Library.Word"
begin

unbundle bit_operations_syntax

text \<open>
  Shared vocabulary of the development: the C integer types the firmware uses, the error
  codes of RT-Thread (os_rtt/include/rtdef.h), the alignment macros, the configuration
  constants of os_rtt/bsp/rtconfig.h, and the generic lemmas on words, lists and wrapping
  arithmetic that the component theories use through the collections declared here.
\<close>

named_theorems rt_const "constants of rtdef.h and rtconfig.h, unfolded by the component proofs"
named_theorems wrap32 "32-bit wrapping arithmetic on naturals, resolved when the operands are in range"

section \<open>C types\<close>

type_synonym u8 = "8 word"
type_synonym u16 = "16 word"
type_synonym i16 = "16 word"
type_synonym u32 = "32 word"

section \<open>Error codes (rtdef.h)\<close>

text \<open>The kernel returns an \<open>rt_err_t\<close>: 0 on success, the negated code on failure.\<close>

type_synonym rt_err_t = int

definition RT_EOK :: rt_err_t where [rt_const]: "RT_EOK = 0"
definition RT_ERROR :: rt_err_t where [rt_const]: "RT_ERROR = 1"
definition RT_ETIMEOUT :: rt_err_t where [rt_const]: "RT_ETIMEOUT = 2"
definition RT_EFULL :: rt_err_t where [rt_const]: "RT_EFULL = 3"
definition RT_EEMPTY :: rt_err_t where [rt_const]: "RT_EEMPTY = 4"
definition RT_ENOMEM :: rt_err_t where [rt_const]: "RT_ENOMEM = 5"
definition RT_ENOSYS :: rt_err_t where [rt_const]: "RT_ENOSYS = 6"
definition RT_EBUSY :: rt_err_t where [rt_const]: "RT_EBUSY = 7"
definition RT_EIO :: rt_err_t where [rt_const]: "RT_EIO = 8"
definition RT_EINTR :: rt_err_t where [rt_const]: "RT_EINTR = 9"
definition RT_EINVAL :: rt_err_t where [rt_const]: "RT_EINVAL = 10"

section \<open>Configuration (bsp/rtconfig.h)\<close>

definition RT_ALIGN_SIZE :: u32 where [rt_const]: "RT_ALIGN_SIZE = 8"
definition RT_NAME_MAX :: nat where [rt_const]: "RT_NAME_MAX = 8"
definition RT_THREAD_PRIORITY_MAX :: nat where [rt_const]: "RT_THREAD_PRIORITY_MAX = 8"
definition RT_TICK_PER_SECOND :: nat where [rt_const]: "RT_TICK_PER_SECOND = 100"

section \<open>Alignment macros (rtdef.h)\<close>

definition RT_ALIGN :: "u32 \<Rightarrow> u32 \<Rightarrow> u32" where
  "RT_ALIGN sz align = (sz + align - 1) AND NOT (align - 1)"

definition RT_ALIGN_DOWN :: "u32 \<Rightarrow> u32 \<Rightarrow> u32" where
  "RT_ALIGN_DOWN sz align = sz AND NOT (align - 1)"

lemma minus_8_mask: "(-8 :: u32) = NOT (mask 3)"
  by (simp add: mask_eq_exp_minus_1 not_eq_complement)

lemma and_not_mask_eq: "x AND NOT (mask n) = push_bit n (drop_bit n x)" for x :: "'a::len word"
  by (rule bit_word_eqI) (auto simp: bit_simps not_less)

lemma unat_and_mask: "unat (x AND mask n) = unat x mod 2 ^ n" for x :: "'a::len word"
proof -
  have "unat (x AND mask n) = take_bit n (unat x)" by (simp only: take_bit_eq_mask [symmetric] unsigned_take_bit_eq)
  then show ?thesis by (simp only: take_bit_eq_mod)
qed

text \<open>Counting on within a page of \<open>p\<close> bytes.\<close>

lemma page_offset:
  fixes a i p :: nat
  assumes "a mod p + i < p"
  shows "a div p * p + (a + i) mod p = a + i"
proof -
  have "(a + i) mod p = a mod p + i" using assms by (metis mod_add_left_eq mod_less)
  then show ?thesis using div_mult_mod_eq [of a p] by linarith
qed

lemma unat_and_minus_8: "unat (x AND (-8 :: u32)) = unat x div 8 * 8"
proof -
  have eq: "x AND -8 = drop_bit 3 x * 8"
    by (simp add: minus_8_mask and_not_mask_eq push_bit_eq_mult)
  have d: "unat (drop_bit 3 x) = unat x div 8"
    by (subst unat_drop_bit_eq) (simp add: drop_bit_eq_div)
  have "unat x div 8 * 8 < 2 ^ 32"
    using unsigned_less [of x, where ?'a = nat] by simp
  then show ?thesis
    by (simp add: eq unat_word_ariths d)
qed

lemma unat_RT_ALIGN_DOWN: "unat (RT_ALIGN_DOWN s 8) = unat s div 8 * 8"
  by (simp add: RT_ALIGN_DOWN_def unat_and_minus_8)

lemma unat_RT_ALIGN: "unat (RT_ALIGN s 8) = ((unat s + 7) mod 2 ^ 32) div 8 * 8"
proof -
  have "RT_ALIGN s 8 = (s + 7) AND -8"
    by (simp add: RT_ALIGN_def add.commute)
  then show ?thesis
    by (simp add: unat_and_minus_8 unat_word_ariths)
qed

section \<open>Wrapping 32-bit arithmetic on naturals\<close>

text \<open>
  Offsets and sizes (\<open>rt_size_t\<close>, 32 bits on the LPC824) are modelled as naturals below
  \<open>2 ^ 32\<close>; C's unsigned wrap-around is written out in these two operations.
\<close>

definition add32 :: "nat \<Rightarrow> nat \<Rightarrow> nat" where
  "add32 a b = (a + b) mod 2 ^ 32"

definition sub32 :: "nat \<Rightarrow> nat \<Rightarrow> nat" where
  "sub32 a b = (a + (2 ^ 32 - b mod 2 ^ 32)) mod 2 ^ 32"

lemma add32_eq [wrap32]: "a + b < 2 ^ 32 \<Longrightarrow> add32 a b = a + b"
  by (simp add: add32_def)

lemma sub32_eq [wrap32]: "b \<le> a \<Longrightarrow> a < 2 ^ 32 \<Longrightarrow> sub32 a b = a - b"
proof -
  assume "b \<le> a" "a < 2 ^ 32"
  then have "a + (2 ^ 32 - b mod 2 ^ 32) = (a - b) + 2 ^ 32" by simp
  then have "sub32 a b = ((a - b) + 2 ^ 32) mod 2 ^ 32" by (simp add: sub32_def)
  also have "\<dots> = (a - b) mod 2 ^ 32" by (rule mod_add_self2)
  finally show ?thesis using \<open>a < 2 ^ 32\<close> by simp
qed

lemma add32_less: "add32 a b < 2 ^ 32"
  by (simp add: add32_def)

lemma sub32_less: "sub32 a b < 2 ^ 32"
  by (simp add: sub32_def)

section \<open>Lists\<close>

lemma distinct_remove1_removeAll_eq: "distinct xs \<Longrightarrow> remove1 x xs = removeAll x xs"
  by (simp add: distinct_remove1_removeAll)

lemma all_less_Suc0: "(\<forall>i<Suc n. P i) \<longleftrightarrow> P 0 \<and> (\<forall>i<n. P (Suc i))"
  by (auto simp: less_Suc_eq_0_disj)

lemma list_ex1_hd: "xs \<noteq> [] \<Longrightarrow> hd xs \<in> set xs"
  by simp

lemma take_drop_update_disjoint:
  "i < n \<Longrightarrow> take n (drop m (xs[i := x])) = (if m \<le> i then (take n (drop m xs))[i - m := x] else take n (drop m xs))"
  by (simp add: drop_update_swap take_update_swap)

end
