(* ===== verification/IrRecv.thy ===== *)
theory IrRecv
  imports Prelude
begin

text \<open>
  The infrared receiver of the bare-metal firmware: bare_metal/ir_recv.c (the NEC decoder
  driven by the pin interrupt and timed by MRT channel 0) and the reporting loop of
  bare_metal/main.c. The static variables of ir_recv.c and the three hardware registers
  the interrupt handler touches form one record; each C function is one definition on it.
\<close>

section \<open>State\<close>

datatype ir_state_t = IR_IDLE | IR_LEADER_LOW | IR_LEADER_HIGH | IR_DATA_LOW | IR_DATA_HIGH

record ir_dev =
  pinint_rise :: u32   \<comment> \<open>PININT RISE, write one to clear\<close>
  pinint_fall :: u32   \<comment> \<open>PININT FALL, write one to clear\<close>
  pinint_ist :: u32    \<comment> \<open>PININT IST, write one to clear\<close>
  mrt0_timer :: u32    \<comment> \<open>MRT channel 0 TIMER, counts down\<close>
  s_state :: ir_state_t
  s_raw_code :: u32
  s_bit_cnt :: u8
  s_code_rdy :: bool
  s_last_code :: u32

definition ir_reset :: ir_dev where
  "ir_reset = \<lparr>pinint_rise = 0, pinint_fall = 0, pinint_ist = 0, mrt0_timer = 0,
     s_state = IR_IDLE, s_raw_code = 0, s_bit_cnt = 0, s_code_rdy = False, s_last_code = 0\<rparr>"

section \<open>The microsecond timer\<close>

definition MRT_MAX_COUNT :: u32 where "MRT_MAX_COUNT = 0x7FFFFFFF"

definition mrt_reload :: "ir_dev \<Rightarrow> ir_dev" where
  "mrt_reload s = s\<lparr>mrt0_timer := MRT_MAX_COUNT\<rparr>"

text \<open>\<open>clk\<close> is \<open>SystemCoreClock\<close>; the quotient by a million is the macro MRT_COUNTS_PER_US.\<close>

definition mrt_elapsed_us :: "u32 \<Rightarrow> ir_dev \<Rightarrow> u32" where
  "mrt_elapsed_us clk s =
     (let remaining = mrt0_timer s; counts = MRT_MAX_COUNT - remaining
      in counts div (clk div 1000000))"

section \<open>The decoder\<close>

definition leader_mark_ok :: "u32 \<Rightarrow> bool" where
  "leader_mark_ok us \<longleftrightarrow> us \<ge> 8000 \<and> us \<le> 10000"
definition leader_spc_ok :: "u32 \<Rightarrow> bool" where
  "leader_spc_ok us \<longleftrightarrow> us \<ge> 4000 \<and> us \<le> 5000"
definition repeat_spc_ok :: "u32 \<Rightarrow> bool" where
  "repeat_spc_ok us \<longleftrightarrow> us \<ge> 1800 \<and> us \<le> 2800"
definition bit_mark_ok :: "u32 \<Rightarrow> bool" where
  "bit_mark_ok us \<longleftrightarrow> us \<ge> 350 \<and> us \<le> 800"
definition zero_spc_ok :: "u32 \<Rightarrow> bool" where
  "zero_spc_ok us \<longleftrightarrow> us \<ge> 350 \<and> us \<le> 800"
definition one_spc_ok :: "u32 \<Rightarrow> bool" where
  "one_spc_ok us \<longleftrightarrow> us \<ge> 1400 \<and> us \<le> 1900"

definition NEC_FRAME_TIMEOUT :: u32 where "NEC_FRAME_TIMEOUT = 15000"

text \<open>The body of the data-space case: append one bit, finish after the thirty-second.\<close>

definition ir_take_bit :: "u32 \<Rightarrow> ir_dev \<Rightarrow> ir_dev" where
  "ir_take_bit b s =
     (let s1 = s\<lparr>s_raw_code := s_raw_code s OR push_bit (unat (s_bit_cnt s)) b,
                s_bit_cnt := s_bit_cnt s + 1\<rparr>
      in if s_bit_cnt s1 = 32
         then s1\<lparr>s_last_code := s_raw_code s1, s_code_rdy := True, s_state := IR_IDLE\<rparr>
         else s1\<lparr>s_state := IR_DATA_LOW\<rparr>)"

definition ir_switch :: "bool \<Rightarrow> bool \<Rightarrow> u32 \<Rightarrow> ir_dev \<Rightarrow> ir_dev" where
  "ir_switch is_rise is_fall elapsed s =
     (case s_state s of
        IR_IDLE \<Rightarrow> if is_fall then s\<lparr>s_state := IR_LEADER_LOW\<rparr> else s
      | IR_LEADER_LOW \<Rightarrow>
          if is_rise then
            (if leader_mark_ok elapsed then s\<lparr>s_state := IR_LEADER_HIGH\<rparr>
             else s\<lparr>s_state := IR_IDLE\<rparr>)
          else s
      | IR_LEADER_HIGH \<Rightarrow>
          if is_fall then
            (if leader_spc_ok elapsed
             then s\<lparr>s_raw_code := 0, s_bit_cnt := 0, s_state := IR_DATA_LOW\<rparr>
             else if repeat_spc_ok elapsed
             then s\<lparr>s_code_rdy := True, s_state := IR_IDLE\<rparr>
             else s\<lparr>s_state := IR_IDLE\<rparr>)
          else s
      | IR_DATA_LOW \<Rightarrow>
          if is_rise then
            (if bit_mark_ok elapsed then s\<lparr>s_state := IR_DATA_HIGH\<rparr>
             else s\<lparr>s_state := IR_IDLE\<rparr>)
          else s
      | IR_DATA_HIGH \<Rightarrow>
          if is_fall then
            (if zero_spc_ok elapsed then ir_take_bit 0 s
             else if one_spc_ok elapsed then ir_take_bit 1 s
             else s\<lparr>s_state := IR_IDLE\<rparr>)
          else s)"

definition PININT0_IRQHandler :: "u32 \<Rightarrow> ir_dev \<Rightarrow> ir_dev" where
  "PININT0_IRQHandler clk s =
     (let is_rise = (pinint_rise s AND 1 \<noteq> 0);
          is_fall = (pinint_fall s AND 1 \<noteq> 0);
          s1 = s\<lparr>pinint_rise := pinint_rise s AND NOT 1,
                pinint_fall := pinint_fall s AND NOT 1,
                pinint_ist := pinint_ist s AND NOT 1\<rparr>;
          elapsed = mrt_elapsed_us clk s1;
          s2 = mrt_reload s1;
          s3 = (if elapsed > NEC_FRAME_TIMEOUT \<and> s_state s2 \<noteq> IR_IDLE
                then s2\<lparr>s_state := IR_IDLE\<rparr> else s2)
      in ir_switch is_rise is_fall elapsed s3)"

section \<open>The public interface\<close>

definition IR_CodeReady :: "ir_dev \<Rightarrow> bool" where
  "IR_CodeReady s = s_code_rdy s"

definition IR_GetCode :: "ir_dev \<Rightarrow> u32 \<times> ir_dev" where
  "IR_GetCode s = (let s1 = s\<lparr>s_code_rdy := False\<rparr> in (s_last_code s1, s1))"

record ir_nec_frame_t =
  addr :: u8
  addr_inv :: u8
  cmd :: u8
  cmd_inv :: u8

definition IR_Decode :: "u32 \<Rightarrow> ir_nec_frame_t" where
  "IR_Decode raw = \<lparr>addr = ucast raw, addr_inv = ucast (drop_bit 8 raw),
     cmd = ucast (drop_bit 16 raw), cmd_inv = ucast (drop_bit 24 raw)\<rparr>"

section \<open>The reporting loop of main.c\<close>

definition hex_digits :: string where "hex_digits = ''0123456789ABCDEF''"

definition hex_char :: "u32 \<Rightarrow> char" where
  "hex_char v = hex_digits ! unat (v AND 0xF)"

text \<open>The loop of print_hex32 fills the buffer from its last digit down.\<close>

fun print_hex32_loop :: "nat \<Rightarrow> u32 \<Rightarrow> string \<Rightarrow> string" where
  "print_hex32_loop 0 v buf = buf"
| "print_hex32_loop (Suc i) v buf = print_hex32_loop i (drop_bit 4 v) (hex_char v # buf)"

definition print_hex32 :: "u32 \<Rightarrow> string" where
  "print_hex32 v = print_hex32_loop 8 v []"

definition hex_u8 :: "u8 \<Rightarrow> string" where
  "hex_u8 b = [hex_digits ! unat (drop_bit 4 b), hex_digits ! unat (b AND 0xF)]"

definition CRLF :: string where "CRLF = [CHR 0x0D, CHR 0x0A]"

text \<open>One iteration of the loop after the processor wakes: what is printed, and the new state.\<close>

definition main_iter :: "ir_dev \<Rightarrow> string \<times> ir_dev" where
  "main_iter s =
     (if IR_CodeReady s then
        (let (raw, s1) = IR_GetCode s; frame = IR_Decode raw in
         (''IR code: 0x'' @ print_hex32 raw @ ''  addr=0x'' @ hex_u8 (addr frame)
            @ ''  cmd=0x'' @ hex_u8 (cmd frame)
            @ (if addr frame XOR addr_inv frame = 0xFF \<and> cmd frame XOR cmd_inv frame = 0xFF
               then ''  [OK]'' else ''  [EXT/ERR]'')
            @ CRLF, s1))
      else ([], s))"


section \<open>Edges and frames\<close>

text \<open>
  The environment: an edge of the demodulated signal, \<open>c\<close> timer counts after the last
  one, latches the pin interrupt and leaves the count-down timer at its maximum minus \<open>c\<close>;
  then the interrupt is taken.
\<close>

datatype edge = Rise | Fall

definition ir_latch :: "edge \<times> u32 \<Rightarrow> ir_dev \<Rightarrow> ir_dev" where
  "ir_latch ev s = s\<lparr>pinint_rise := (if fst ev = Rise then 1 else 0),
     pinint_fall := (if fst ev = Fall then 1 else 0), pinint_ist := 1,
     mrt0_timer := MRT_MAX_COUNT - snd ev\<rparr>"

definition ir_event :: "u32 \<Rightarrow> edge \<times> u32 \<Rightarrow> ir_dev \<Rightarrow> ir_dev" where
  "ir_event clk ev s = PININT0_IRQHandler clk (ir_latch ev s)"

definition ir_run :: "u32 \<Rightarrow> (edge \<times> u32) list \<Rightarrow> ir_dev \<Rightarrow> ir_dev" where
  "ir_run clk evs s = fold (ir_event clk) evs s"

definition us_of :: "u32 \<Rightarrow> u32 \<Rightarrow> u32" where
  "us_of clk c = c div (clk div 1000000)"

text \<open>What a NEC transmitter sends: a leader, then for each bit a mark and a space.\<close>

definition bit_spc_ok :: "bool \<Rightarrow> u32 \<Rightarrow> bool" where
  "bit_spc_ok b us \<longleftrightarrow> (if b then one_spc_ok us else zero_spc_ok us)"

fun nec_bits :: "u32 \<Rightarrow> u32 \<Rightarrow> nat \<Rightarrow> nat \<Rightarrow> (edge \<times> u32) list \<Rightarrow> bool" where
  "nec_bits clk code n k [] \<longleftrightarrow> n = k"
| "nec_bits clk code n k [ev] \<longleftrightarrow> False"
| "nec_bits clk code n k (m # s # evs) \<longleftrightarrow>
     fst m = Rise \<and> bit_mark_ok (us_of clk (snd m)) \<and>
     fst s = Fall \<and> bit_spc_ok (bit code n) (us_of clk (snd s)) \<and>
     nec_bits clk code (Suc n) k evs"

fun nec_leader :: "u32 \<Rightarrow> (edge \<times> u32) list \<Rightarrow> bool" where
  "nec_leader clk [f, r, s] \<longleftrightarrow> fst f = Fall \<and>
     fst r = Rise \<and> leader_mark_ok (us_of clk (snd r)) \<and>
     fst s = Fall \<and> leader_spc_ok (us_of clk (snd s))"
| "nec_leader clk evs \<longleftrightarrow> False"

definition nec_frame :: "u32 \<Rightarrow> u32 \<Rightarrow> (edge \<times> u32) list \<Rightarrow> bool" where
  "nec_frame clk code evs \<longleftrightarrow>
     nec_leader clk (take 3 evs) \<and> nec_bits clk code 0 32 (drop 3 evs)"

section \<open>One interrupt\<close>

lemma ok_disjoint:
  "zero_spc_ok us \<Longrightarrow> \<not> one_spc_ok us" "one_spc_ok us \<Longrightarrow> \<not> zero_spc_ok us"
  "leader_spc_ok us \<Longrightarrow> \<not> repeat_spc_ok us"
  by (auto simp: zero_spc_ok_def one_spc_ok_def leader_spc_ok_def repeat_spc_ok_def
        word_le_nat_alt)

lemma ok_in_time:
  "leader_mark_ok us \<Longrightarrow> \<not> us > NEC_FRAME_TIMEOUT"
  "leader_spc_ok us \<Longrightarrow> \<not> us > NEC_FRAME_TIMEOUT"
  "repeat_spc_ok us \<Longrightarrow> \<not> us > NEC_FRAME_TIMEOUT"
  "bit_mark_ok us \<Longrightarrow> \<not> us > NEC_FRAME_TIMEOUT"
  "zero_spc_ok us \<Longrightarrow> \<not> us > NEC_FRAME_TIMEOUT"
  "one_spc_ok us \<Longrightarrow> \<not> us > NEC_FRAME_TIMEOUT"
  by (auto simp: zero_spc_ok_def one_spc_ok_def leader_spc_ok_def leader_mark_ok_def
        repeat_spc_ok_def bit_mark_ok_def NEC_FRAME_TIMEOUT_def word_le_nat_alt word_less_nat_alt)

text \<open>The registers the handler leaves behind: flags cleared, timer reloaded.\<close>

definition ir_quiet :: "ir_dev \<Rightarrow> ir_dev" where
  "ir_quiet s = s\<lparr>pinint_rise := 0, pinint_fall := 0, pinint_ist := 0,
     mrt0_timer := MRT_MAX_COUNT\<rparr>"

lemma ir_quiet_sel [simp]:
  "s_state (ir_quiet s) = s_state s" "s_raw_code (ir_quiet s) = s_raw_code s"
  "s_bit_cnt (ir_quiet s) = s_bit_cnt s" "s_code_rdy (ir_quiet s) = s_code_rdy s"
  "s_last_code (ir_quiet s) = s_last_code s"
  by (simp_all add: ir_quiet_def)

lemma ir_event_eq:
  "ir_event clk (e, c) s =
     ir_switch (e = Rise) (e = Fall) (us_of clk c)
       (if us_of clk c > NEC_FRAME_TIMEOUT \<and> s_state s \<noteq> IR_IDLE
        then (ir_quiet s)\<lparr>s_state := IR_IDLE\<rparr> else ir_quiet s)"
  by (cases e) (simp_all add: ir_event_def ir_latch_def PININT0_IRQHandler_def Let_def
        mrt_elapsed_us_def mrt_reload_def us_of_def ir_quiet_def)

lemma ir_run_Nil [simp]: "ir_run clk [] s = s"
  and ir_run_Cons [simp]: "ir_run clk (ev # evs) s = ir_run clk evs (ir_event clk ev s)"
  and ir_run_append [simp]: "ir_run clk (evs @ evs') s = ir_run clk evs' (ir_run clk evs s)"
  by (simp_all add: ir_run_def)


section \<open>A transmitted frame is decoded\<close>

lemma take_bit_or_bit:
  "take_bit n code OR push_bit n (of_bool (bit code n)) = take_bit (Suc n) code" for code :: u32
  by (rule bit_word_eqI) (auto simp: bit_simps less_Suc_eq)

lemma ir_take_bit_state:
  assumes "s_bit_cnt s = of_nat n" "n < 32"
  shows "s_raw_code (ir_take_bit b s) = s_raw_code s OR push_bit n b"
    and "s_bit_cnt (ir_take_bit b s) = of_nat (Suc n)"
    and "s_state (ir_take_bit b s) = (if n = 31 then IR_IDLE else IR_DATA_LOW)"
    and "s_last_code (ir_take_bit b s) =
           (if n = 31 then s_raw_code s OR push_bit n b else s_last_code s)"
    and "s_code_rdy (ir_take_bit b s) = (n = 31 \<or> s_code_rdy s)"
proof -
  have u: "unat (of_nat n :: u8) = n"
    using assms(2) by (simp add: unat_of_nat)
  have u31: "unat (31 :: u8) = 31" by simp
  have c: "(of_nat n :: u8) = 31 \<longleftrightarrow> n = 31"
    unfolding word_unat_eq_iff u u31 ..
  show "s_raw_code (ir_take_bit b s) = s_raw_code s OR push_bit n b"
    "s_bit_cnt (ir_take_bit b s) = of_nat (Suc n)"
    "s_state (ir_take_bit b s) = (if n = 31 then IR_IDLE else IR_DATA_LOW)"
    "s_last_code (ir_take_bit b s) =
       (if n = 31 then s_raw_code s OR push_bit n b else s_last_code s)"
    "s_code_rdy (ir_take_bit b s) = (n = 31 \<or> s_code_rdy s)"
    by (simp_all add: ir_take_bit_def Let_def assms(1) u c add.commute)
qed

lemma ir_event_mark:
  assumes "s_state s = IR_DATA_LOW" "bit_mark_ok (us_of clk c)"
  shows "ir_event clk (Rise, c) s = (ir_quiet s)\<lparr>s_state := IR_DATA_HIGH\<rparr>"
  using assms ok_in_time(4) by (simp add: ir_event_eq ir_switch_def)

lemma ir_event_space:
  assumes "s_state s = IR_DATA_HIGH" "bit_spc_ok b (us_of clk c)"
  shows "ir_event clk (Fall, c) s = ir_take_bit (of_bool b) (ir_quiet s)"
  using assms ok_in_time(5,6) ok_disjoint
  by (cases b) (auto simp: ir_event_eq ir_switch_def bit_spc_ok_def)

lemma nec_bits_le: "nec_bits clk code n k evs \<Longrightarrow> n \<le> k"
  by (induction clk code n k evs rule: nec_bits.induct) auto

lemma ir_run_bits:
  assumes "nec_bits clk code n k evs" "k = 32" "n < 32"
    and "s_state s = IR_DATA_LOW" "s_bit_cnt s = of_nat n" "s_raw_code s = take_bit n code"
  shows "s_state (ir_run clk evs s) = IR_IDLE \<and> s_last_code (ir_run clk evs s) = code
    \<and> s_code_rdy (ir_run clk evs s)"
  using assms
proof (induction clk code n k evs arbitrary: s rule: nec_bits.induct)
  case (3 clk code n k m sp evs)
  obtain cm cs where ev: "m = (Rise, cm)" "sp = (Fall, cs)"
    and ok: "bit_mark_ok (us_of clk cm)" "bit_spc_ok (bit code n) (us_of clk cs)"
    and rest: "nec_bits clk code (Suc n) k evs"
    using "3.prems"(1) by (cases m; cases sp) auto
  let ?s1 = "ir_event clk m s" and ?s2 = "ir_event clk sp (ir_event clk m s)"
  have s1: "?s1 = (ir_quiet s)\<lparr>s_state := IR_DATA_HIGH\<rparr>"
    using ir_event_mark [OF "3.prems"(4) ok(1)] by (simp add: ev)
  then have s2: "?s2 = ir_take_bit (of_bool (bit code n)) (ir_quiet ?s1)"
    using ir_event_space [of ?s1, OF _ ok(2)] by (simp add: ev)
  have cnt: "s_bit_cnt (ir_quiet ?s1) = of_nat n"
    and raw: "s_raw_code (ir_quiet ?s1) = take_bit n code"
    using "3.prems"(5,6) by (simp_all add: s1)
  note t = ir_take_bit_state [OF cnt "3.prems"(3), of "of_bool (bit code n)", folded s2]
  show ?case
  proof (cases "n = 31")
    case True
    then have "evs = []"
      using rest "3.prems"(2)
      by (cases "(clk, code, Suc n, k, evs)" rule: nec_bits.cases) (auto dest: nec_bits_le)
    moreover have "take_bit 32 code = code"
      by (rule bit_word_eqI) (auto simp: bit_simps)
    ultimately show ?thesis
      using t True raw take_bit_or_bit [of n code] by simp
  next
    case False
    then have "Suc n < 32" using "3.prems"(3) by simp
    then show ?thesis
      using "3.IH" [OF rest "3.prems"(2), of ?s2] t False raw take_bit_or_bit [of n code] by simp
  qed
qed auto

text \<open>C12. A NEC frame whose every mark and space lies in the tolerance windows is decoded to the
  transmitted 32-bit code, from an idle decoder or from any decoder state after more than
  15 ms of silence: the code is stored, the ready flag is set and the decoder is idle again.
\<close>

theorem nec_frame_decoded:
  assumes "nec_frame clk code evs"
    and "s_state s = IR_IDLE \<or> us_of clk (snd (hd evs)) > NEC_FRAME_TIMEOUT"
  shows "s_state (ir_run clk evs s) = IR_IDLE \<and> IR_CodeReady (ir_run clk evs s)
    \<and> fst (IR_GetCode (ir_run clk evs s)) = code"
proof -
  have "nec_leader clk (take 3 evs)" and bits: "nec_bits clk code 0 32 (drop 3 evs)"
    using assms(1) by (auto simp: nec_frame_def)
  then obtain c0 c1 c2 where tk: "take 3 evs = [(Fall, c0), (Rise, c1), (Fall, c2)]"
    and ok: "leader_mark_ok (us_of clk c1)" "leader_spc_ok (us_of clk c2)"
    by (cases "(clk, take 3 evs)" rule: nec_leader.cases) auto
  have evs: "evs = [(Fall, c0), (Rise, c1), (Fall, c2)] @ drop 3 evs"
    using append_take_drop_id [of 3 evs] tk by simp
  then have hd: "hd evs = (Fall, c0)"
    by (metis append_Cons list.sel(1))
  have idle: "s_state s = IR_IDLE \<or> us_of clk c0 > NEC_FRAME_TIMEOUT"
    using assms(2) hd by simp
  let ?s1 = "ir_event clk (Fall, c0) s"
  have s1: "s_state ?s1 = IR_LEADER_LOW"
    using idle by (auto simp: ir_event_eq ir_switch_def)
  let ?s2 = "ir_event clk (Rise, c1) ?s1"
  have s2: "s_state ?s2 = IR_LEADER_HIGH"
    using s1 ok(1) ok_in_time(1) by (auto simp: ir_event_eq ir_switch_def)
  let ?s3 = "ir_event clk (Fall, c2) ?s2"
  have s3: "s_state ?s3 = IR_DATA_LOW" "s_bit_cnt ?s3 = 0" "s_raw_code ?s3 = 0"
    using s2 ok(2) ok_in_time(2) by (auto simp: ir_event_eq ir_switch_def)
  have "ir_run clk evs s = ir_run clk (drop 3 evs) ?s3"
    by (subst evs) simp
  then show ?thesis
    using ir_run_bits [OF bits refl, of ?s3] s3
    by (simp add: IR_CodeReady_def IR_GetCode_def Let_def)
qed


theorem nec_frame_decoded_witness:
  "let clk = 30000000; c = (\<lambda>us. us * 30) in
   \<exists>evs. nec_frame clk 0xE718FF00 evs
     \<and> s_state (ir_run clk evs ir_reset) = IR_IDLE \<and> IR_CodeReady (ir_run clk evs ir_reset)
     \<and> fst (IR_GetCode (ir_run clk evs ir_reset)) = 0xE718FF00"
proof -
  let ?bit = "\<lambda>i. [(Rise, 560 * 30), (Fall, (if bit (0xE718FF00 :: u32) i then 1690 else 560) * 30)]"
  let ?evs = "[(Fall, 0), (Rise, 9000 * 30), (Fall, 4500 * 30)] @ concat (map ?bit [0..<32])
     :: (edge \<times> u32) list"
  have f: "nec_frame 30000000 0xE718FF00 ?evs" by code_simp
  have i: "s_state ir_reset = IR_IDLE" by (simp add: ir_reset_def)
  show ?thesis
    unfolding Let_def using f nec_frame_decoded [OF f, of ir_reset] i by blast
qed

section \<open>Nothing else is decoded\<close>

lemma nec_bits_cong:
  "nec_bits clk code n k evs \<Longrightarrow> (\<And>i. n \<le> i \<Longrightarrow> i < k \<Longrightarrow> bit code' i = bit code i)
   \<Longrightarrow> nec_bits clk code' n k evs"
proof (induction clk code n k evs rule: nec_bits.induct)
  case (3 clk code n k m s evs)
  then have "n < k" by (auto dest: nec_bits_le)
  with 3 show ?case by auto
qed auto

lemma nec_bits_snoc:
  "nec_bits clk code n k evs \<Longrightarrow> bit_mark_ok (us_of clk cm) \<Longrightarrow> bit_spc_ok (bit code k) (us_of clk cs)
   \<Longrightarrow> nec_bits clk code n (Suc k) (evs @ [(Rise, cm), (Fall, cs)])"
  by (induction clk code n k evs rule: nec_bits.induct) auto

definition nec_repeat :: "u32 \<Rightarrow> (edge \<times> u32) list \<Rightarrow> bool" where
  "nec_repeat clk evs \<longleftrightarrow> (\<exists>c0 c1 c2. evs = [(Fall, c0), (Rise, c1), (Fall, c2)]
     \<and> leader_mark_ok (us_of clk c1) \<and> repeat_spc_ok (us_of clk c2))"

text \<open>The bits received so far: a leader followed by the marks and spaces of \<open>n\<close> bits.\<close>

definition nec_partial :: "u32 \<Rightarrow> ir_dev \<Rightarrow> (edge \<times> u32) list \<Rightarrow> bool" where
  "nec_partial clk s evs \<longleftrightarrow> (\<exists>n. n < 32 \<and> s_bit_cnt s = of_nat n
     \<and> take_bit n (s_raw_code s) = s_raw_code s
     \<and> nec_leader clk (take 3 evs) \<and> nec_bits clk (s_raw_code s) 0 n (drop 3 evs))"

text \<open>What the decoder state says of the edges seen so far.\<close>

definition ir_tracks :: "u32 \<Rightarrow> (edge \<times> u32) list \<Rightarrow> ir_dev \<Rightarrow> bool" where
  "ir_tracks clk h s =
     (case s_state s of
        IR_IDLE \<Rightarrow> True
      | IR_LEADER_LOW \<Rightarrow> \<exists>pre c0. h = pre @ [(Fall, c0)]
      | IR_LEADER_HIGH \<Rightarrow> \<exists>pre c0 c1. h = pre @ [(Fall, c0), (Rise, c1)]
          \<and> leader_mark_ok (us_of clk c1)
      | IR_DATA_LOW \<Rightarrow> \<exists>pre fr. h = pre @ fr \<and> nec_partial clk s fr \<and> fst (last fr) = Fall
      | IR_DATA_HIGH \<Rightarrow> \<exists>pre fr c. h = pre @ fr @ [(Rise, c)] \<and> nec_partial clk s fr
          \<and> bit_mark_ok (us_of clk c))"

lemma nec_partial_bit:
  assumes "nec_partial clk s fr" "bit_mark_ok (us_of clk cm)" "bit_spc_ok b (us_of clk cs)"
    and s': "s' = ir_take_bit (of_bool b) s" and fr': "fr' = fr @ [(Rise, cm), (Fall, cs)]"
  shows "s_state s' = IR_DATA_LOW \<Longrightarrow> nec_partial clk s' fr'"
    and "s_state s' \<noteq> IR_DATA_LOW \<Longrightarrow> s_state s' = IR_IDLE \<and> nec_frame clk (s_last_code s') fr'"
    and "s_last_code s' \<noteq> s_last_code s \<or> s_code_rdy s' \<noteq> s_code_rdy s \<Longrightarrow> s_state s' = IR_IDLE"
proof -
  obtain n where n: "n < 32" "s_bit_cnt s = of_nat n" "take_bit n (s_raw_code s) = s_raw_code s"
    and fr: "nec_leader clk (take 3 fr)" "nec_bits clk (s_raw_code s) 0 n (drop 3 fr)"
    using assms(1) by (auto simp: nec_partial_def)
  have len: "3 \<le> length fr"
    using fr(1) by (cases "(clk, take 3 fr)" rule: nec_leader.cases)
      (auto dest!: arg_cong [where f = length])
  note t = ir_take_bit_state [OF n(2,1), of "of_bool b", folded s']
  let ?r = "s_raw_code s OR push_bit n (of_bool b)"
  have nb: "\<not> bit (s_raw_code s) n"
    by (subst n(3) [symmetric]) (simp add: bit_take_bit_iff)
  then have bn: "bit ?r n = b"
    using n(1) by (auto simp: bit_simps)
  have "nec_bits clk ?r 0 n (drop 3 fr)"
    using fr(2) by (rule nec_bits_cong) (auto simp: bit_simps)
  then have bits: "nec_bits clk ?r 0 (Suc n) (drop 3 fr')"
    using nec_bits_snoc [OF _ assms(2), of ?r 0 n "drop 3 fr" cs] assms(3) bn len
    by (simp add: fr')
  have hi: "i < n" if "bit (s_raw_code s) i" for i
    using that by (subst (asm) n(3) [symmetric]) (simp add: bit_take_bit_iff)
  have tb: "take_bit (Suc n) ?r = ?r"
    by (rule bit_word_eqI) (auto simp: bit_simps dest: hi)
  have ld: "nec_leader clk (take 3 fr')"
    using fr(1) len by (simp add: fr')
  show "nec_partial clk s' fr'" if "s_state s' = IR_DATA_LOW"
    using that t n(1) bits tb ld
    by (auto simp: nec_partial_def intro!: exI [of _ "Suc n"] split: if_splits)
  show "s_state s' = IR_IDLE \<and> nec_frame clk (s_last_code s') fr'" if "s_state s' \<noteq> IR_DATA_LOW"
    using that t bits ld by (auto simp: nec_frame_def split: if_splits)
  show "s_state s' = IR_IDLE" if "s_last_code s' \<noteq> s_last_code s \<or> s_code_rdy s' \<noteq> s_code_rdy s"
    using that t by (auto split: if_splits)
qed


lemma ir_tracks_Fall:
  assumes "ir_tracks clk h s" "h = [] \<or> fst (last h) = Rise \<or> s_state s = IR_IDLE"
  shows "ir_tracks clk (h @ [(Fall, c)]) (ir_event clk (Fall, c) s)"
proof (cases "us_of clk c > NEC_FRAME_TIMEOUT \<or> s_state s = IR_IDLE")
  case True
  then have "s_state (ir_event clk (Fall, c) s) = IR_LEADER_LOW"
    by (auto simp: ir_event_eq ir_switch_def)
  then show ?thesis by (auto simp: ir_tracks_def)
next
  case False
  then have ev: "ir_event clk (Fall, c) s = ir_switch False True (us_of clk c) (ir_quiet s)"
    by (auto simp: ir_event_eq)
  consider (hi) "s_state s = IR_LEADER_HIGH" | (dh) "s_state s = IR_DATA_HIGH"
    | (low) "s_state s = IR_LEADER_LOW" | (dl) "s_state s = IR_DATA_LOW"
    using False by (cases "s_state s") auto
  then show ?thesis
  proof cases
    case hi
    then obtain pre c0 c1 where h: "h = pre @ [(Fall, c0), (Rise, c1)]"
      and ok: "leader_mark_ok (us_of clk c1)"
      using assms(1) by (auto simp: ir_tracks_def)
    let ?fr = "[(Fall, c0), (Rise, c1), (Fall, c)]"
    show ?thesis
    proof (cases "leader_spc_ok (us_of clk c)")
      case True
      then have s': "ir_event clk (Fall, c) s
          = (ir_quiet s)\<lparr>s_raw_code := 0, s_bit_cnt := 0, s_state := IR_DATA_LOW\<rparr>"
        using hi by (simp add: ev ir_switch_def)
      have "nec_partial clk (ir_event clk (Fall, c) s) ?fr"
        using ok True by (auto simp: s' nec_partial_def intro!: exI [of _ 0])
      then have "ir_tracks clk (pre @ ?fr) (ir_event clk (Fall, c) s)"
        unfolding ir_tracks_def
        by (simp add: s') (rule exI [of _ pre], rule exI [of _ ?fr], simp)
      then show ?thesis by (simp add: h)
    next
      case False
      then show ?thesis using hi by (simp add: ev ir_switch_def ir_tracks_def)
    qed
  next
    case dh
    then obtain pre fr cm where h: "h = pre @ fr @ [(Rise, cm)]"
      and part: "nec_partial clk s fr" and ok: "bit_mark_ok (us_of clk cm)"
      using assms(1) by (auto simp: ir_tracks_def)
    have part': "nec_partial clk (ir_quiet s) fr"
      using part by (simp add: nec_partial_def)
    consider (b) b where "bit_spc_ok b (us_of clk c)"
      | (bad) "\<not> zero_spc_ok (us_of clk c)" "\<not> one_spc_ok (us_of clk c)"
      by (metis bit_spc_ok_def)
    then show ?thesis
    proof cases
      case b
      let ?s' = "ir_event clk (Fall, c) s"
      have s': "?s' = ir_take_bit (of_bool b) (ir_quiet s)"
        by (rule ir_event_space [OF dh b])
      note p = nec_partial_bit [OF part' ok b s' refl]
      show ?thesis
      proof (cases "s_state ?s' = IR_DATA_LOW")
        case True
        then have "ir_tracks clk (pre @ (fr @ [(Rise, cm), (Fall, c)])) ?s'"
          unfolding ir_tracks_def using p(1)
          by (simp add: True) (rule exI [of _ pre], rule exI [of _ "fr @ [(Rise, cm), (Fall, c)]"], simp)
        then show ?thesis by (simp add: h)
      next
        case False
        then show ?thesis using p(2) by (auto simp: ir_tracks_def)
      qed
    next
      case bad
      then show ?thesis using dh by (simp add: ev ir_switch_def ir_tracks_def)
    qed
  next
    case low
    then show ?thesis using assms by (auto simp: ir_tracks_def)
  next
    case dl
    then obtain pre fr where "h = pre @ fr" "nec_leader clk (take 3 fr)" "fst (last fr) = Fall"
      using assms(1) by (auto simp: ir_tracks_def nec_partial_def)
    moreover from this have "fr \<noteq> []" by auto
    ultimately show ?thesis using assms(2) dl by auto
  qed
qed

lemma ir_tracks_Rise:
  assumes "ir_tracks clk h s" "h = [] \<or> fst (last h) = Fall \<or> s_state s = IR_IDLE"
  shows "ir_tracks clk (h @ [(Rise, c)]) (ir_event clk (Rise, c) s)"
    and "s_code_rdy (ir_event clk (Rise, c) s) = s_code_rdy s"
    and "s_last_code (ir_event clk (Rise, c) s) = s_last_code s"
proof -
  show "s_code_rdy (ir_event clk (Rise, c) s) = s_code_rdy s"
    "s_last_code (ir_event clk (Rise, c) s) = s_last_code s"
    by (auto simp: ir_event_eq ir_switch_def split: ir_state_t.split)
  show "ir_tracks clk (h @ [(Rise, c)]) (ir_event clk (Rise, c) s)"
  proof (cases "us_of clk c > NEC_FRAME_TIMEOUT \<or> s_state s = IR_IDLE")
    case True
    then have "s_state (ir_event clk (Rise, c) s) = IR_IDLE"
      by (auto simp: ir_event_eq ir_switch_def)
    then show ?thesis by (auto simp: ir_tracks_def)
  next
    case False
    then have ev: "ir_event clk (Rise, c) s = ir_switch True False (us_of clk c) (ir_quiet s)"
      by (auto simp: ir_event_eq)
    show ?thesis
    proof (cases "s_state s")
      case IR_LEADER_LOW
      then show ?thesis using assms(1) by (auto simp: ev ir_switch_def ir_tracks_def)
    next
      case IR_DATA_LOW
      then obtain pre fr where "h = pre @ fr" "nec_partial clk s fr"
        using assms(1) by (auto simp: ir_tracks_def)
      then show ?thesis
        using IR_DATA_LOW by (auto simp: ev ir_switch_def ir_tracks_def nec_partial_def)
    next
      case IR_LEADER_HIGH
      then show ?thesis using assms by (auto simp: ir_tracks_def)
    next
      case IR_DATA_HIGH
      then show ?thesis using assms by (auto simp: ir_tracks_def)
    qed (use False in auto)
  qed
qed

definition ir_alternating :: "(edge \<times> u32) list \<Rightarrow> bool" where
  "ir_alternating evs \<longleftrightarrow> successively (\<lambda>a b. fst a \<noteq> fst b) evs"

lemma ir_alternating_snoc:
  "ir_alternating (h @ [ev]) \<longleftrightarrow> ir_alternating h \<and> (h = [] \<or> fst (last h) \<noteq> fst ev)"
  by (auto simp: ir_alternating_def successively_append_iff)

lemma ir_tracks_run:
  assumes "s_state s = IR_IDLE"
  shows "ir_alternating evs \<Longrightarrow> ir_tracks clk evs (ir_run clk evs s)"
proof (induction evs rule: rev_induct)
  case Nil
  then show ?case using assms by (simp add: ir_tracks_def)
next
  case (snoc ev evs)
  then have IH: "ir_tracks clk evs (ir_run clk evs s)"
    and alt: "evs = [] \<or> fst (last evs) \<noteq> fst ev"
    by (auto simp: ir_alternating_snoc)
  obtain e c where ev: "ev = (e, c)" by (cases ev)
  show ?case
  proof (cases e)
    case Rise
    then show ?thesis
      using ir_tracks_Rise(1) [OF IH] alt by (cases "fst (last evs)") (auto simp: ev)
  next
    case Fall
    then show ?thesis
      using ir_tracks_Fall [OF IH] alt by (cases "fst (last evs)") (auto simp: ev)
  qed
qed

text \<open>The edge that makes a code ready ends a space, after a leader or within the data.\<close>

lemma ir_ready_event:
  assumes tr: "ir_tracks clk evs s" and alt: "evs = [] \<or> fst (last evs) \<noteq> e"
    and rdy: "\<not> s_code_rdy s" "s_code_rdy (ir_event clk (e, c) s)"
  shows "e = Fall" "ir_event clk (Fall, c) s = ir_switch False True (us_of clk c) (ir_quiet s)"
    "s_state s = IR_LEADER_HIGH \<or> s_state s = IR_DATA_HIGH"
proof -
  show e: "e = Fall"
  proof (rule ccontr)
    assume "e \<noteq> Fall"
    then have "e = Rise" by (cases e) auto
    then show False
      using rdy ir_tracks_Rise(2) [OF tr] alt by (cases "fst (last evs)") auto
  qed
  have "\<not> (us_of clk c > NEC_FRAME_TIMEOUT \<and> s_state s \<noteq> IR_IDLE)"
  proof
    assume "us_of clk c > NEC_FRAME_TIMEOUT \<and> s_state s \<noteq> IR_IDLE"
    then have "ir_event clk (e, c) s
        = ir_switch False True (us_of clk c) ((ir_quiet s)\<lparr>s_state := IR_IDLE\<rparr>)"
      by (simp add: ir_event_eq e)
    then show False using rdy by (simp add: ir_switch_def)
  qed
  then show ev: "ir_event clk (Fall, c) s = ir_switch False True (us_of clk c) (ir_quiet s)"
    by (simp only: ir_event_eq if_False) simp
  show "s_state s = IR_LEADER_HIGH \<or> s_state s = IR_DATA_HIGH"
    using rdy by (cases "s_state s") (auto simp: ev e ir_switch_def)
qed

text \<open>C37. Nothing else is decoded: after any alternating sequence of edges from an idle decoder,
  an edge that makes a code ready completes a whole NEC frame of exactly the stored code, or a
  repeat code, which leaves the stored code as it was.
\<close>

theorem ir_ready_only_by_frame:
  assumes "s_state s = IR_IDLE" "ir_alternating (evs @ [ev])"
    and "\<not> IR_CodeReady (ir_run clk evs s)" "IR_CodeReady (ir_run clk (evs @ [ev]) s)"
  shows "\<exists>pre fr. evs @ [ev] = pre @ fr
    \<and> (nec_frame clk (s_last_code (ir_run clk (evs @ [ev]) s)) fr
       \<or> nec_repeat clk fr \<and> s_last_code (ir_run clk (evs @ [ev]) s) = s_last_code (ir_run clk evs s))"
proof -
  let ?s = "ir_run clk evs s"
  obtain e c where ev: "ev = (e, c)" by (cases ev)
  have tr: "ir_tracks clk evs ?s" and alt: "evs = [] \<or> fst (last evs) \<noteq> e"
    using assms(1,2) by (auto simp: ev ir_alternating_snoc intro: ir_tracks_run)
  have rdy: "\<not> s_code_rdy ?s" "s_code_rdy (ir_event clk (e, c) ?s)"
    using assms(3,4) by (auto simp: IR_CodeReady_def ev)
  note r = ir_ready_event [OF tr alt rdy]
  note e = r(1) and ev' = r(2)
  from r(3) consider (hi) "s_state ?s = IR_LEADER_HIGH" | (dh) "s_state ?s = IR_DATA_HIGH" by blast
  then show ?thesis
  proof cases
    case hi
    then obtain pre c0 c1 where h: "evs = pre @ [(Fall, c0), (Rise, c1)]"
      "leader_mark_ok (us_of clk c1)"
      using tr by (auto simp: ir_tracks_def)
    moreover have "repeat_spc_ok (us_of clk c)
        \<and> s_last_code (ir_event clk (Fall, c) ?s) = s_last_code ?s"
      using rdy hi by (auto simp: ev' e ir_switch_def split: if_splits)
    ultimately show ?thesis
      by (intro exI [of _ pre] exI [of _ "[(Fall, c0), (Rise, c1), (Fall, c)]"])
        (auto simp: nec_repeat_def ev e)
  next
    case dh
    then obtain pre fr cm where h: "evs = pre @ fr @ [(Rise, cm)]"
      and part: "nec_partial clk ?s fr" and ok: "bit_mark_ok (us_of clk cm)"
      using tr by (auto simp: ir_tracks_def)
    have part': "nec_partial clk (ir_quiet ?s) fr"
      using part by (simp add: nec_partial_def)
    have "zero_spc_ok (us_of clk c) \<or> one_spc_ok (us_of clk c)"
      using rdy dh by (auto simp: ev' e ir_switch_def split: if_splits)
    then obtain b where b: "bit_spc_ok b (us_of clk c)"
      by (metis bit_spc_ok_def)
    note p = nec_partial_bit [OF part' ok b ir_event_space [OF dh b] refl]
    have "s_state (ir_event clk (Fall, c) ?s) = IR_IDLE"
      using p(3) rdy by (simp add: e)
    then show ?thesis
      using p(2) by (intro exI [of _ pre] exI [of _ "fr @ [(Rise, cm), (Fall, c)]"])
        (auto simp: h ev e)
  qed
qed

theorem ir_ready_only_by_frame_witness:
  "let evs = [(Fall, 0), (Rise, 9000 * 30)]; ev = (Fall, 2250 * 30); clk = 30000000 in
   \<exists>pre fr. evs @ [ev] = pre @ fr
    \<and> (nec_frame clk (s_last_code (ir_run clk (evs @ [ev]) ir_reset)) fr
       \<or> nec_repeat clk fr
         \<and> s_last_code (ir_run clk (evs @ [ev]) ir_reset) = s_last_code (ir_run clk evs ir_reset))"
proof -
  let ?evs = "[(Fall, 0), (Rise, 9000 * 30)] :: (edge \<times> u32) list"
  let ?ev = "(Fall, 2250 * 30) :: edge \<times> u32"
  have a: "s_state ir_reset = IR_IDLE" by (simp add: ir_reset_def)
  have b: "ir_alternating (?evs @ [?ev])" by (simp add: ir_alternating_def)
  have c: "\<not> IR_CodeReady (ir_run 30000000 ?evs ir_reset)" by code_simp
  have d: "IR_CodeReady (ir_run 30000000 (?evs @ [?ev]) ir_reset)" by code_simp
  show ?thesis
    unfolding Let_def by (rule ir_ready_only_by_frame [OF a b c d])
qed

lemma ir_event_repeat:
  assumes "s_state s = IR_LEADER_HIGH" "repeat_spc_ok (us_of clk c)"
  shows "ir_event clk (Fall, c) s = (ir_quiet s)\<lparr>s_code_rdy := True, s_state := IR_IDLE\<rparr>"
  using assms ok_in_time(3) ok_disjoint(3) by (auto simp: ir_event_eq ir_switch_def)

text \<open>A repeat code received by an idle decoder sets the ready flag and hands out the code
  stored last; right after reset, when nothing has been received yet, that is the code 0.
\<close>

theorem ir_repeat_reports_last_code:
  assumes "nec_repeat clk evs" "s_state s = IR_IDLE"
  shows "IR_CodeReady (ir_run clk evs s) \<and> fst (IR_GetCode (ir_run clk evs s)) = s_last_code s
    \<and> \<not> IR_CodeReady (snd (IR_GetCode (ir_run clk evs s)))"
proof -
  obtain c0 c1 c2 where evs: "evs = [(Fall, c0), (Rise, c1), (Fall, c2)]"
    and ok: "leader_mark_ok (us_of clk c1)" "repeat_spc_ok (us_of clk c2)"
    using assms(1) by (auto simp: nec_repeat_def)
  let ?s1 = "ir_event clk (Fall, c0) s"
  let ?s2 = "ir_event clk (Rise, c1) ?s1"
  have s1: "s_state ?s1 = IR_LEADER_LOW" "s_last_code ?s1 = s_last_code s"
    using assms(2) by (simp_all add: ir_event_eq ir_switch_def)
  have s2: "s_state ?s2 = IR_LEADER_HIGH" "s_last_code ?s2 = s_last_code s"
    using s1 ok(1) ok_in_time(1) by (simp_all add: ir_event_eq ir_switch_def)
  have "s_code_rdy (ir_event clk (Fall, c2) ?s2)"
    "s_last_code (ir_event clk (Fall, c2) ?s2) = s_last_code s"
    using ir_event_repeat [OF s2(1) ok(2)] s2(2) by simp_all
  then show ?thesis
    by (simp add: evs IR_CodeReady_def IR_GetCode_def Let_def)
qed

theorem ir_repeat_reports_last_code_witness:
  "let evs = [(Fall, 0), (Rise, 9000 * 30), (Fall, 2250 * 30)]; s' = ir_run 30000000 evs ir_reset in
   IR_CodeReady s' \<and> fst (IR_GetCode s') = 0 \<and> \<not> IR_CodeReady (snd (IR_GetCode s'))"
proof -
  let ?evs = "[(Fall, 0), (Rise, 9000 * 30), (Fall, 2250 * 30)] :: (edge \<times> u32) list"
  have r: "nec_repeat 30000000 ?evs"
  proof -
    have "leader_mark_ok (us_of 30000000 (9000 * 30))" "repeat_spc_ok (us_of 30000000 (2250 * 30))"
      by code_simp+
    then show ?thesis by (auto simp: nec_repeat_def)
  qed
  have i: "s_state ir_reset = IR_IDLE" "s_last_code ir_reset = 0" by (simp_all add: ir_reset_def)
  show ?thesis
    unfolding Let_def using ir_repeat_reports_last_code [OF r i(1)] i(2) by simp
qed

section \<open>Reporting\<close>

text \<open>Reading the printed hexadecimal digits back.\<close>

definition hex_digit_val :: "char \<Rightarrow> nat" where
  "hex_digit_val c = length (takeWhile (\<lambda>d. d \<noteq> c) hex_digits)"

definition hex_value :: "string \<Rightarrow> nat" where
  "hex_value cs = foldl (\<lambda>a c. a * 16 + hex_digit_val c) 0 cs"

lemma hex_digit_val_nth: "n < 16 \<Longrightarrow> hex_digit_val (hex_digits ! n) = n"
proof -
  have "list_all (\<lambda>n. hex_digit_val (hex_digits ! n) = n) [0..<16]"
    by code_simp
  then show "n < 16 \<Longrightarrow> hex_digit_val (hex_digits ! n) = n"
    by (simp add: list_all_iff)
qed

lemma unat_and_15: "unat (v AND 0xF) = unat v mod 16" for v :: "'a::len word"
proof -
  have "v AND 0xF = take_bit 4 v"
    by (simp add: take_bit_eq_mask mask_numeral)
  then show ?thesis
    by (simp only: unsigned_take_bit_eq) (simp add: take_bit_eq_mod)
qed

lemma hex_digit_val_hex_char: "hex_digit_val (hex_char v) = unat v mod 16"
  by (simp add: hex_char_def unat_and_15 hex_digit_val_nth)

lemma print_hex32_loop_append: "print_hex32_loop i v buf = print_hex32_loop i v [] @ buf"
proof (induction i arbitrary: v buf)
  case (Suc i)
  show ?case
    using Suc [of "drop_bit 4 v" "hex_char v # buf"] Suc [of "drop_bit 4 v" "[hex_char v]"]
    by simp
qed simp

lemma hex_value_snoc: "hex_value (cs @ [c]) = hex_value cs * 16 + hex_digit_val c"
  by (simp add: hex_value_def)

lemma hex_value_loop:
  "length (print_hex32_loop i v []) = i \<and> hex_value (print_hex32_loop i v []) = unat v mod 16 ^ i"
proof (induction i arbitrary: v)
  case 0
  then show ?case by (simp add: hex_value_def)
next
  case (Suc i)
  have eq: "print_hex32_loop (Suc i) v [] = print_hex32_loop i (drop_bit 4 v) [] @ [hex_char v]"
    by simp (rule print_hex32_loop_append)
  have "unat (drop_bit 4 v) = unat v div 16"
    by (subst unat_drop_bit_eq) (simp add: drop_bit_eq_div)
  then have "hex_value (print_hex32_loop (Suc i) v [])
      = unat v div 16 mod 16 ^ i * 16 + unat v mod 16"
    using Suc by (simp only: eq hex_value_snoc hex_digit_val_hex_char)
  also have "\<dots> = unat v mod 16 ^ Suc i"
    using mod_mult2_eq [of "unat v" 16 "16 ^ i"] by simp
  finally have "hex_value (print_hex32_loop (Suc i) v []) = unat v mod 16 ^ Suc i" .
  moreover have "length (print_hex32_loop (Suc i) v []) = Suc i"
    using Suc [of "drop_bit 4 v"] by (simp only: eq) simp
  ultimately show ?case by (rule conjI [rotated])
qed

text \<open>The report loop prints a code as eight hexadecimal digits that read back to the code, and
  the four bytes the frame is split into put together again give the code.
\<close>

theorem ir_report_roundtrip:
  "length (print_hex32 v) = 8 \<and> hex_value (print_hex32 v) = unat v
    \<and> (let f = IR_Decode v in
        (ucast (addr f) OR push_bit 8 (ucast (addr_inv f)) OR push_bit 16 (ucast (cmd f))
          OR push_bit 24 (ucast (cmd_inv f)) :: u32) = v)"
proof -
  have "unat v < 16 ^ 8"
    using unsigned_less [of v, where ?'a = nat] by simp
  then have "hex_value (print_hex32 v) = unat v" "length (print_hex32 v) = 8"
    using hex_value_loop [of 8 v] by (simp_all add: print_hex32_def)
  moreover have "(ucast (ucast v :: u8) OR push_bit 8 (ucast (ucast (drop_bit 8 v) :: u8))
      OR push_bit 16 (ucast (ucast (drop_bit 16 v) :: u8))
      OR push_bit 24 (ucast (ucast (drop_bit 24 v) :: u8)) :: u32) = v"
  proof (rule bit_word_eqI)
    fix n assume "n < LENGTH(32)"
    then consider "n < 8" | "8 \<le> n" "n < 16" | "16 \<le> n" "n < 24" | "24 \<le> n" "n < 32"
      by (auto simp: not_less) linarith
    then show "bit (ucast (ucast v :: u8) OR push_bit 8 (ucast (ucast (drop_bit 8 v) :: u8))
      OR push_bit 16 (ucast (ucast (drop_bit 16 v) :: u8))
      OR push_bit 24 (ucast (ucast (drop_bit 24 v) :: u8)) :: u32) n = bit v n"
      by cases (auto simp: bit_simps)
  qed
  ultimately show ?thesis
    by (simp add: IR_Decode_def)
qed

end
