(* ===== verification/LibUtil.thy ===== *)
theory LibUtil
  imports Prelude "HOL-Library.Monad_Syntax"
begin

text \<open>
  os_rtt/src/libutil.c, the C string library linked with \<open>-nostdlib\<close> (the bare-metal firmware
  has a copy of its first functions). Memory is a function from addresses to bytes, a pointer
  is a natural number and \<open>NULL\<close> is \<open>None\<close> where a function may return it. An
  \<open>unsigned long\<close> count is a natural below \<open>2 ^ 32\<close>; the post-decrement \<open>n--\<close> of zero leaves
  \<open>2 ^ 32 - 1\<close>. A scan for a terminator may not end, so scans are partial functions: \<open>None\<close> is a
  scan that never returns.
\<close>

type_synonym mem = "nat \<Rightarrow> u8"

text \<open>The bytes of a string literal, without the terminator.\<close>

definition str :: "string \<Rightarrow> u8 list" where "str s = map of_char s"

section \<open>Memory blocks\<close>

fun memcpy_loop :: "nat \<Rightarrow> mem \<Rightarrow> nat \<Rightarrow> nat \<Rightarrow> mem" where
  "memcpy_loop 0 m d s = m"
| "memcpy_loop (Suc n) m d s = memcpy_loop n (m(d := m s)) (d + 1) (s + 1)"

definition memcpy :: "mem \<Rightarrow> nat \<Rightarrow> nat \<Rightarrow> nat \<Rightarrow> nat \<times> mem" where
  "memcpy m dest src n = (dest, memcpy_loop n m dest src)"

text \<open>The descending loop of memmove: the pointers are decremented before they are used.\<close>

fun memmove_down :: "nat \<Rightarrow> mem \<Rightarrow> nat \<Rightarrow> nat \<Rightarrow> mem" where
  "memmove_down 0 m d s = m"
| "memmove_down (Suc n) m d s = memmove_down n (m(d - 1 := m (s - 1))) (d - 1) (s - 1)"

definition memmove :: "mem \<Rightarrow> nat \<Rightarrow> nat \<Rightarrow> nat \<Rightarrow> nat \<times> mem" where
  "memmove m dest src n =
     (dest, if dest < src then memcpy_loop n m dest src
            else memmove_down n m (dest + n) (src + n))"

fun memset_loop :: "nat \<Rightarrow> mem \<Rightarrow> nat \<Rightarrow> u8 \<Rightarrow> mem" where
  "memset_loop 0 m p c = m"
| "memset_loop (Suc n) m p c = memset_loop n (m(p := c)) (p + 1) c"

definition memset :: "mem \<Rightarrow> nat \<Rightarrow> int \<Rightarrow> nat \<Rightarrow> nat \<times> mem" where
  "memset m s c n = (s, memset_loop n m s (word_of_int c))"

fun memcmp :: "mem \<Rightarrow> nat \<Rightarrow> nat \<Rightarrow> nat \<Rightarrow> int" where
  "memcmp m p1 p2 0 = 0"
| "memcmp m p1 p2 (Suc n) =
     (if m p1 \<noteq> m p2 then uint (m p1) - uint (m p2) else memcmp m (p1 + 1) (p2 + 1) n)"

fun memchr_loop :: "mem \<Rightarrow> nat \<Rightarrow> u8 \<Rightarrow> nat \<Rightarrow> nat option" where
  "memchr_loop m p ch 0 = None"
| "memchr_loop m p ch (Suc n) = (if m p = ch then Some p else memchr_loop m (p + 1) ch n)"

definition memchr :: "mem \<Rightarrow> nat \<Rightarrow> int \<Rightarrow> nat \<Rightarrow> nat option" where
  "memchr m s c n = memchr_loop m s (word_of_int c) n"

section \<open>Strings\<close>

partial_function (option) strlen_loop :: "mem \<Rightarrow> nat \<Rightarrow> nat \<Rightarrow> nat option" where
  [code]: "strlen_loop m s len =
     (if m s \<noteq> 0 then strlen_loop m (s + 1) (add32 len 1) else Some len)"

definition strlen :: "mem \<Rightarrow> nat \<Rightarrow> nat option" where
  "strlen m s = strlen_loop m s 0"

partial_function (option) strcpy_loop :: "mem \<Rightarrow> nat \<Rightarrow> nat \<Rightarrow> mem option" where
  [code]: "strcpy_loop m d s =
     (let m' = m(d := m s) in if m s \<noteq> 0 then strcpy_loop m' (d + 1) (s + 1) else Some m')"

definition strcpy :: "mem \<Rightarrow> nat \<Rightarrow> nat \<Rightarrow> (nat \<times> mem) option" where
  "strcpy m dest src = map_option (Pair dest) (strcpy_loop m dest src)"

text \<open>
  The copying loop shared by strncpy and strncat: \<open>while (n-- && (*d++ = *src++))\<close>. It ends with the
  memory, the destination pointer and the count as the loop leaves them.
\<close>

fun ncpy_loop :: "mem \<Rightarrow> nat \<Rightarrow> nat \<Rightarrow> nat \<Rightarrow> mem \<times> nat \<times> nat" where
  "ncpy_loop m d s 0 = (m, d, 2 ^ 32 - 1)"
| "ncpy_loop m d s (Suc n) =
     (let m' = m(d := m s) in
      if m s \<noteq> 0 then ncpy_loop m' (d + 1) (s + 1) n else (m', d + 1, n))"

definition strncpy :: "mem \<Rightarrow> nat \<Rightarrow> nat \<Rightarrow> nat \<Rightarrow> nat \<times> mem" where
  "strncpy m dest src n =
     (let (m1, d, n1) = ncpy_loop m dest src n in (dest, memset_loop n1 m1 d 0))"

partial_function (option) strcmp :: "mem \<Rightarrow> nat \<Rightarrow> nat \<Rightarrow> int option" where
  [code]: "strcmp m s1 s2 =
     (if m s1 \<noteq> 0 \<and> m s1 = m s2 then strcmp m (s1 + 1) (s2 + 1)
      else Some (uint (m s1) - uint (m s2)))"

fun strncmp_loop :: "mem \<Rightarrow> nat \<Rightarrow> nat \<Rightarrow> nat \<Rightarrow> nat \<times> nat \<times> nat" where
  "strncmp_loop m s1 s2 0 = (s1, s2, 2 ^ 32 - 1)"
| "strncmp_loop m s1 s2 (Suc n) =
     (if m s1 \<noteq> 0 \<and> m s1 = m s2 then strncmp_loop m (s1 + 1) (s2 + 1) n else (s1, s2, n))"

definition strncmp :: "mem \<Rightarrow> nat \<Rightarrow> nat \<Rightarrow> nat \<Rightarrow> int" where
  "strncmp m s1 s2 n =
     (let (p1, p2, n1) = strncmp_loop m s1 s2 n in
      if n1 = 0 then 0 else uint (m p1) - uint (m p2))"

partial_function (option) skip_to_nul :: "mem \<Rightarrow> nat \<Rightarrow> nat option" where
  [code]: "skip_to_nul m d = (if m d \<noteq> 0 then skip_to_nul m (d + 1) else Some d)"

definition strcat :: "mem \<Rightarrow> nat \<Rightarrow> nat \<Rightarrow> (nat \<times> mem) option" where
  "strcat m dest src =
     do { d \<leftarrow> skip_to_nul m dest; m' \<leftarrow> strcpy_loop m d src; Some (dest, m') }"

definition strncat :: "mem \<Rightarrow> nat \<Rightarrow> nat \<Rightarrow> nat \<Rightarrow> (nat \<times> mem) option" where
  "strncat m dest src n =
     do { d \<leftarrow> skip_to_nul m dest;
          let (m1, d1, n1) = ncpy_loop m d src n;
          Some (dest, m1(d1 := 0)) }"

text \<open>Searches return the pointer they found, \<open>None\<close> inside the outer \<open>Some\<close> for \<open>NULL\<close>.\<close>

partial_function (option) strchr_loop :: "mem \<Rightarrow> nat \<Rightarrow> u8 \<Rightarrow> nat option option" where
  [code]: "strchr_loop m s ch =
     (if m s \<noteq> 0 then (if m s = ch then Some (Some s) else strchr_loop m (s + 1) ch)
      else Some (if ch = 0 then Some s else None))"

definition strchr :: "mem \<Rightarrow> nat \<Rightarrow> int \<Rightarrow> nat option option" where
  "strchr m s c = strchr_loop m s (word_of_int c)"

partial_function (option) strrchr_loop ::
  "mem \<Rightarrow> nat \<Rightarrow> u8 \<Rightarrow> nat option \<Rightarrow> nat option option" where
  [code]: "strrchr_loop m s ch found =
     (if m s \<noteq> 0 then strrchr_loop m (s + 1) ch (if m s = ch then Some s else found)
      else Some (if ch = 0 then Some s else found))"

definition strrchr :: "mem \<Rightarrow> nat \<Rightarrow> int \<Rightarrow> nat option option" where
  "strrchr m s c = strrchr_loop m s (word_of_int c) None"

partial_function (option) strstr_loop :: "mem \<Rightarrow> nat \<Rightarrow> nat \<Rightarrow> nat \<Rightarrow> nat option option" where
  [code]: "strstr_loop m h needle len =
     (if m h \<noteq> 0 then
        (if strncmp m h needle len = 0 then Some (Some h) else strstr_loop m (h + 1) needle len)
      else Some None)"

definition strstr :: "mem \<Rightarrow> nat \<Rightarrow> nat \<Rightarrow> nat option option" where
  "strstr m haystack needle =
     (if m needle = 0 then Some (Some haystack)
      else do { len \<leftarrow> strlen m needle; strstr_loop m haystack needle len })"

text \<open>The two scans of strtok_r: over delimiters (\<open>skip\<close> true) and over the token.\<close>

partial_function (option) strtok_scan :: "mem \<Rightarrow> nat \<Rightarrow> bool \<Rightarrow> nat \<Rightarrow> nat option" where
  [code]: "strtok_scan m delim skip s =
     (if m s = 0 then Some s
      else do { r \<leftarrow> strchr m delim (uint (m s));
                if (r \<noteq> None) = skip then strtok_scan m delim skip (s + 1) else Some s })"

text \<open>The result is the token, the saved pointer and the memory.\<close>

definition strtok_r ::
  "mem \<Rightarrow> nat option \<Rightarrow> nat \<Rightarrow> nat \<Rightarrow> (nat option \<times> nat \<times> mem) option" where
  "strtok_r m s delim save_ptr =
     do { let s0 = (case s of None \<Rightarrow> save_ptr | Some p \<Rightarrow> p);
          s1 \<leftarrow> strtok_scan m delim True s0;
          if m s1 = 0 then Some (None, s1, m)
          else do { s2 \<leftarrow> strtok_scan m delim False s1;
                    if m s2 \<noteq> 0 then Some (Some s1, s2 + 1, m(s2 := 0))
                    else Some (Some s1, s2, m) } }"


section \<open>Strings in memory\<close>

text \<open>The bytes \<open>cs\<close>, none of them zero, stand at \<open>a\<close> and a terminator follows.\<close>

fun cstr :: "mem \<Rightarrow> nat \<Rightarrow> u8 list \<Rightarrow> bool" where
  "cstr m a [] \<longleftrightarrow> m a = 0"
| "cstr m a (c # cs) \<longleftrightarrow> c \<noteq> 0 \<and> m a = c \<and> cstr m (a + 1) cs"

definition bytes_at :: "mem \<Rightarrow> nat \<Rightarrow> nat \<Rightarrow> u8 list" where
  "bytes_at m a n = map (\<lambda>i. m (a + i)) [0..<n]"


lemma cstr_iff:
  "cstr m a cs \<longleftrightarrow> (\<forall>i<length cs. cs ! i \<noteq> 0 \<and> m (a + i) = cs ! i) \<and> m (a + length cs) = 0"
proof (induction cs arbitrary: a)
  case (Cons c cs)
  show ?case unfolding cstr.simps Cons.IH by (auto simp: all_less_Suc0)
qed simp

lemma cstr_cong:
  "cstr m a cs \<Longrightarrow> (\<And>i. i \<le> length cs \<Longrightarrow> m' (a + i) = m (a + i)) \<Longrightarrow> cstr m' a cs"
  by (simp add: cstr_iff)

lemma cstr_upd:
  assumes "cstr m a cs" "d < a \<or> a + length cs < d"
  shows "cstr (m(d := x)) a cs"
  using assms(1)
proof (rule cstr_cong)
  fix i assume "i \<le> length cs"
  then show "(m(d := x)) (a + i) = m (a + i)" using assms(2) by (intro fun_upd_other) linarith
qed

lemma cstr_terminate:
  assumes "cstr m a (cs @ ds)"
  shows "cstr (m(a + length cs := 0)) a cs"
proof -
  have "cs ! i \<noteq> 0 \<and> m (a + i) = cs ! i" if "i < length cs" for i
  proof -
    have "(cs @ ds) ! i \<noteq> 0 \<and> m (a + i) = (cs @ ds) ! i"
      using assms that by (simp only: cstr_iff) simp
    then show ?thesis using that by (simp add: nth_append)
  qed
  then show ?thesis by (simp add: cstr_iff)
qed

lemma cstr_append_drop: "cstr m a (cs @ ds) \<Longrightarrow> cstr m (a + length cs) ds"
proof (induction cs arbitrary: a)
  case (Cons c cs)
  then show ?case using Cons.IH [of "a + 1"] by simp
qed simp

section \<open>Loops in closed form\<close>

text \<open>What a block copy of \<open>n\<close> bytes from \<open>s\<close> to \<open>d\<close> should leave in memory.\<close>

definition blit :: "mem \<Rightarrow> nat \<Rightarrow> nat \<Rightarrow> nat \<Rightarrow> mem" where
  "blit m d s n = (\<lambda>a. if d \<le> a \<and> a < d + n then m (s + (a - d)) else m a)"

named_theorems blk "closed forms of the block loops"

lemma blit_0 [blk]: "blit m d s 0 = m"
  unfolding blit_def by (rule ext) auto

lemma blit_1: "blit m d s (Suc 0) = m(d := m s)"
  by (auto simp: blit_def fun_eq_iff le_less_Suc_eq)

lemma blit_Suc:
  assumes "d \<le> s \<or> s + n < d"
  shows "blit (m(d := m s)) (d + 1) (s + 1) n = blit m d s (Suc n)"
proof
  fix a
  show "blit (m(d := m s)) (d + 1) (s + 1) n a = blit m d s (Suc n) a"
  proof (cases "d < a \<and> a < d + Suc n")
    case True
    then have "s + 1 + (a - (d + 1)) = s + (a - d)" "s + (a - d) \<noteq> d"
      using assms by auto
    then show ?thesis using True by (simp add: blit_def)
  next
    case False
    then show ?thesis by (auto simp: blit_def)
  qed
qed

lemma memcpy_loop_eq [blk]: "d \<le> s \<or> s + n \<le> d \<Longrightarrow> memcpy_loop n m d s = blit m d s n"
proof (induction n arbitrary: m d s)
  case (Suc n)
  then have "d + 1 \<le> s + 1 \<or> s + 1 + n \<le> d + 1" "d \<le> s \<or> s + n < d" by auto
  then show ?case using Suc.IH [of "d + 1" "s + 1"] blit_Suc by simp
qed (simp add: blk)

lemma memmove_down_eq [blk]: "s \<le> d \<Longrightarrow> memmove_down n m (d + n) (s + n) = blit m d s n"
proof (induction n arbitrary: m)
  case (Suc n)
  show ?case using Suc.prems by (auto simp: Suc.IH blit_def fun_eq_iff not_less less_Suc_eq)
qed (simp add: blk)

lemma memset_loop_eq [blk]:
  "memset_loop n m p c = (\<lambda>a. if p \<le> a \<and> a < p + n then c else m a)"
  by (induction n arbitrary: m p) (auto simp: fun_eq_iff)

lemma strlen_loop_cstr:
  "cstr m a cs \<Longrightarrow> k + length cs < 2 ^ 32 \<Longrightarrow> strlen_loop m a k = Some (k + length cs)"
proof (induction cs arbitrary: a k)
  case (Cons c cs)
  then have "strlen_loop m (a + 1) (k + 1) = Some (k + 1 + length cs)" by simp
  with Cons.prems show ?case by (subst strlen_loop.simps) (simp add: wrap32)
qed (simp add: strlen_loop.simps)

lemma strlen_cstr: "cstr m a cs \<Longrightarrow> length cs < 2 ^ 32 \<Longrightarrow> strlen m a = Some (length cs)"
  by (simp add: strlen_def strlen_loop_cstr)

lemma ncpy_loop_short:
  assumes "cstr m s cs" "length cs < n" "d \<le> s \<or> s + length cs < d"
  shows "ncpy_loop m d s n = (blit m d s (Suc (length cs)), d + length cs + 1, n - length cs - 1)"
  using assms
proof (induction cs arbitrary: m d s n)
  case Nil
  then obtain k where "n = Suc k" by (cases n) auto
  moreover have "m(d := m s) = blit m d s (Suc (length []))" by (simp only: blit_1 list.size)
  ultimately show ?case using Nil.prems(1) by (simp only: ncpy_loop.simps Let_def) simp
next
  case (Cons c cs)
  then obtain k where n: "n = Suc k" "length cs < k" by (cases n) auto
  define m' where m': "m' = m(d := m s)"
  have "cstr m (s + 1) cs" "m s \<noteq> 0" using Cons.prems(1) by auto
  then have "cstr m' (s + 1) cs"
    unfolding m' using Cons.prems(3) by (intro cstr_upd) auto
  moreover have d: "d + 1 \<le> s + 1 \<or> s + 1 + length cs < d + 1" "d \<le> s \<or> s + Suc (length cs) < d"
    using Cons.prems(3) by auto
  ultimately have "ncpy_loop m' (d + 1) (s + 1) k
      = (blit m' (d + 1) (s + 1) (Suc (length cs)), d + 1 + length cs + 1, k - length cs - 1)"
    using n(2) by (intro Cons.IH)
  then show ?case
    unfolding m' blit_Suc [OF d(2)] using \<open>m s \<noteq> 0\<close> by (simp only: n ncpy_loop.simps) (simp add: Let_def)
qed

lemma ncpy_loop_long:
  assumes "\<forall>i<n. m (s + i) \<noteq> 0" "d \<le> s \<or> s + n \<le> d"
  shows "ncpy_loop m d s n = (blit m d s n, d + n, 2 ^ 32 - 1)"
  using assms
proof (induction n arbitrary: m d s)
  case (Suc n)
  define m' where m': "m' = m(d := m s)"
  have nz: "m s \<noteq> 0" "\<forall>i<n. m (s + 1 + i) \<noteq> 0"
    using Suc.prems(1) by (simp_all add: all_less_Suc0)
  then have "\<forall>i<n. m' (s + 1 + i) \<noteq> 0" by (auto simp: m')
  moreover have d: "d + 1 \<le> s + 1 \<or> s + 1 + n \<le> d + 1" "d \<le> s \<or> s + n < d"
    using Suc.prems(2) by auto
  ultimately have "ncpy_loop m' (d + 1) (s + 1) n
      = (blit m' (d + 1) (s + 1) n, d + 1 + n, 2 ^ 32 - 1)"
    by (intro Suc.IH)
  then show ?case
    unfolding m' blit_Suc [OF d(2)] using nz(1) by (simp only: ncpy_loop.simps) (simp add: Let_def)
qed (simp add: blk)

lemma strncmp_loop_common:
  assumes "\<forall>i<k. m (a + i) \<noteq> 0 \<and> m (a + i) = m (b + i)" "k \<le> n"
  shows "strncmp_loop m a b n = strncmp_loop m (a + k) (b + k) (n - k)"
  using assms
proof (induction k arbitrary: a b n)
  case (Suc k)
  then obtain n' where n: "n = Suc n'" by (cases n) auto
  have "m a \<noteq> 0 \<and> m a = m b" using Suc.prems(1) by auto
  moreover have "\<forall>i<k. m (a + 1 + i) \<noteq> 0 \<and> m (a + 1 + i) = m (b + 1 + i)"
    using Suc.prems(1) by (auto simp: all_less_Suc0)
  ultimately have "strncmp_loop m (a + 1) (b + 1) n' = strncmp_loop m (a + 1 + k) (b + 1 + k) (n' - k)"
    using Suc.prems(2) by (intro Suc.IH) (auto simp: n)
  with \<open>m a \<noteq> 0 \<and> m a = m b\<close> show ?case by (auto simp: n)
qed simp

lemma strchr_loop_cstr:
  assumes "cstr m a ds" "c \<noteq> 0"
  shows "strchr_loop m a c \<noteq> None \<and> ((\<exists>p. strchr_loop m a c = Some (Some p)) \<longleftrightarrow> c \<in> set ds)"
  using assms
proof (induction ds arbitrary: a)
  case (Cons e ds)
  then show ?case by (subst (1 2) strchr_loop.simps) auto
qed (simp add: strchr_loop.simps)

lemma strchr_cstr:
  assumes "cstr m a ds" "c \<noteq> 0"
  obtains r where "strchr m a (uint c) = Some r" "(r \<noteq> None) = (c \<in> set ds)"
  using strchr_loop_cstr [OF assms] by (auto simp: strchr_def)

lemma strtok_scan_cstr:
  assumes "cstr m delim ds" "cstr m s (cs @ rest)"
    and "\<forall>c\<in>set cs. (c \<in> set ds) = skip" "rest = [] \<or> (hd rest \<in> set ds) \<noteq> skip"
  shows "strtok_scan m delim skip s = Some (s + length cs)"
  using assms(2,3)
proof (induction cs arbitrary: s)
  case Nil
  show ?case
  proof (cases rest)
    case Nil' : Nil
    then show ?thesis using Nil by (simp add: strtok_scan.simps)
  next
    case (Cons c rs)
    then have c: "m s = c" "c \<noteq> 0" "(c \<in> set ds) \<noteq> skip" using Nil assms(4) by auto
    obtain r where "strchr m delim (uint c) = Some r" "(r \<noteq> None) = (c \<in> set ds)"
      using strchr_cstr [OF assms(1) c(2)] .
    then show ?thesis using c by (subst strtok_scan.simps) auto
  qed
next
  case (Cons c cs)
  then have c: "m s = c" "c \<noteq> 0" "(c \<in> set ds) = skip" by auto
  obtain r where r: "strchr m delim (uint c) = Some r" "(r \<noteq> None) = (c \<in> set ds)"
    using strchr_cstr [OF assms(1) c(2)] .
  have "strtok_scan m delim skip (s + 1) = Some (s + 1 + length cs)"
    using Cons by simp
  then show ?case using c r by (subst strtok_scan.simps) auto
qed

section \<open>What the library promises\<close>

text \<open>memmove moves the block also when source and destination overlap, writes only the
  destination block and returns the destination pointer.\<close>

theorem memmove_overlap:
  "memmove m d s n = (d, m')
   \<Longrightarrow> bytes_at m' d n = bytes_at m s n \<and> (\<forall>a. a < d \<or> d + n \<le> a \<longrightarrow> m' a = m a)"
  by (auto simp: memmove_def blk blit_def bytes_at_def split: if_splits)

theorem memmove_overlap_witness:
  "bytes_at (snd (memmove (\<lambda>a. of_nat a) 5 3 4)) 5 4 = [3, 4, 5, 6]"
  using memmove_overlap [of "\<lambda>a. of_nat a" 5 3 4 "snd (memmove (\<lambda>a. of_nat a) 5 3 4)"]
  by (simp add: memmove_def bytes_at_def upt_rec)

text \<open>strncmp compares wrongly at one place: when the strings agree on exactly their first
  \<open>k < n\<close> bytes, the difference at position \<open>k\<close> is returned unless \<open>k = n - 1\<close>, where the
  result is 0, as for equal strings.\<close>

theorem strncmp_first_difference:
  assumes "\<forall>i<k. m (a + i) \<noteq> 0 \<and> m (a + i) = m (b + i)"
    and "m (a + k) \<noteq> m (b + k)" "k < n"
  shows "strncmp m a b n
    = (if k = n - 1 then 0 else uint (m (a + k)) - uint (m (b + k)))"
proof -
  obtain j where "n - k = Suc j" using assms(3) by (cases "n - k") auto
  then show ?thesis
    using strncmp_loop_common [OF assms(1), of n] assms(2,3)
    by (auto simp: strncmp_def)
qed

definition two_strings :: "u8 list \<Rightarrow> u8 list \<Rightarrow> mem" where
  "two_strings xs ys a =
     (if 10 \<le> a \<and> a < 10 + length xs then xs ! (a - 10)
      else if 100 \<le> a \<and> a < 100 + length ys then ys ! (a - 100) else 0)"

theorem strncmp_first_difference_witness:
  "strncmp (two_strings [115, 108, 101] [115, 108, 112]) 10 100 3 = 0"
proof -
  let ?m = "two_strings [115, 108, 101] [115, 108, 112]"
  have "\<forall>i<2. ?m (10 + i) \<noteq> 0 \<and> ?m (10 + i) = ?m (100 + i)" by code_simp
  moreover have "?m (10 + 2) \<noteq> ?m (100 + 2)" by code_simp
  ultimately have "strncmp ?m 10 100 3
      = (if 2 = (3::nat) - 1 then 0 else uint (?m (10 + 2)) - uint (?m (100 + 2)))"
    by (rule strncmp_first_difference) simp
  then show ?thesis by simp
qed

text \<open>strncpy of a string shorter than the count copies it and pads the rest of the field
  with zeros, changing nothing else.\<close>

theorem strncpy_pads:
  assumes "cstr m s cs" "length cs < n" "d + n \<le> s \<or> s + length cs < d"
    and "strncpy m d s n = (r, m')"
  shows "bytes_at m' d n = cs @ replicate (n - length cs) 0
    \<and> (\<forall>a. a < d \<or> d + n \<le> a \<longrightarrow> m' a = m a)"
proof -
  have "d \<le> s \<or> s + length cs < d" using assms(3) by auto
  from ncpy_loop_short [OF assms(1,2) this] have m': "m' = memset_loop (n - length cs - 1)
      (blit m d s (Suc (length cs))) (d + length cs + 1) 0"
    using assms(4) by (auto simp: strncpy_def)
  have "m' (d + i) = (cs @ replicate (n - length cs) 0) ! i" if "i < n" for i
  proof (cases "i < length cs")
    case False
    then show ?thesis
      using that assms(1) by (cases "i = length cs") (auto simp: m' blk blit_def nth_append cstr_iff)
  qed (use assms(1) in \<open>auto simp: m' blk blit_def nth_append cstr_iff\<close>)
  moreover have "m' a = m a" if "a < d \<or> d + n \<le> a" for a
    using that assms(2) by (auto simp: m' blk blit_def)
  ultimately show ?thesis
    using assms(2) by (auto simp: bytes_at_def intro!: nth_equalityI)
qed

theorem strncpy_pads_witness:
  "bytes_at (snd (strncpy (two_strings [107, 101, 121] []) 50 10 5)) 50 5 = [107, 101, 121, 0, 0]"
proof -
  let ?m = "two_strings [107, 101, 121] []"
  have "cstr ?m 10 [107, 101, 121]" by code_simp
  then show ?thesis
    using strncpy_pads [of ?m 10 "[107, 101, 121]" 5 50 "fst (strncpy ?m 50 10 5)"
        "snd (strncpy ?m 50 10 5)"]
    by (simp add: numeral_2_eq_2)
qed

text \<open>strncpy of a string that does not fit the count overruns its destination: the count has
  wrapped, and the \<open>2 ^ 32 - 1\<close> bytes after the field are cleared.\<close>

theorem strncpy_overrun:
  assumes "\<forall>i<n. m (s + i) \<noteq> 0" "d + n \<le> s \<or> s + n \<le> d"
    and "strncpy m d s n = (r, m')"
  shows "bytes_at m' d n = bytes_at m s n
    \<and> (\<forall>a. d + n \<le> a \<and> a < d + n + (2 ^ 32 - 1) \<longrightarrow> m' a = 0)"
proof -
  have "d \<le> s \<or> s + n \<le> d" using assms(2) by auto
  note loop = ncpy_loop_long [OF assms(1) this]
  have "m' = memset_loop (2 ^ 32 - 1) (blit m d s n) (d + n) 0"
    using assms(3) by (auto simp: strncpy_def loop)
  then show ?thesis
    by (auto simp: memset_loop_eq blit_def bytes_at_def)
qed

theorem strncpy_overrun_witness:
  "snd (strncpy (two_strings [107, 101, 121, 95, 115, 99, 97, 110] [1, 2, 3]) 50 10 8) 100 = 0"
proof -
  let ?m = "two_strings [107, 101, 121, 95, 115, 99, 97, 110] [1, 2, 3]"
  have "\<forall>i<8. ?m (10 + i) \<noteq> 0" by code_simp
  then show ?thesis
    using strncpy_overrun [of 8 ?m 10 50 "fst (strncpy ?m 50 10 8)" "snd (strncpy ?m 50 10 8)"]
    by simp
qed

text \<open>strtok_r on a string of delimiters, a token and a delimiter returns the token terminated
  in place and leaves the saved pointer on the rest of the string.\<close>

theorem strtok_r_token:
  assumes "cstr m delim ds" "cstr m s (skip @ tok @ c # rest)" "tok \<noteq> []"
    and "set skip \<subseteq> set ds" "set tok \<inter> set ds = {}" "c \<in> set ds"
  shows "\<exists>saved m'. strtok_r m (Some s) delim sv = Some (Some (s + length skip), saved, m')
    \<and> cstr m' (s + length skip) tok \<and> cstr m' saved rest"
proof -
  let ?s1 = "s + length skip" let ?s2 = "?s1 + length tok"
  let ?m' = "m(?s2 := 0)"
  have tok: "cstr m ?s1 (tok @ c # rest)" using assms(2) by (rule cstr_append_drop)
  then have rest: "cstr m ?s2 (c # rest)" by (rule cstr_append_drop)
  have "hd tok \<notin> set ds" using hd_in_set [OF assms(3)] assms(5) by blast
  then have "strtok_scan m delim True s = Some ?s1"
    using assms(3,4) by (intro strtok_scan_cstr [OF assms(1,2)]) auto
  moreover have "strtok_scan m delim False ?s1 = Some ?s2"
    using assms(5,6) by (intro strtok_scan_cstr [OF assms(1) tok]) auto
  moreover have "m ?s1 \<noteq> 0" using tok assms(3) by (cases tok) auto
  ultimately have r: "strtok_r m (Some s) delim sv = Some (Some ?s1, ?s2 + 1, ?m')"
    using rest by (auto simp: strtok_r_def)
  have "cstr ?m' ?s1 tok" using tok by (rule cstr_terminate)
  moreover have "cstr ?m' (?s2 + 1) rest"
    using rest by (intro cstr_upd) auto
  ultimately show ?thesis using r by blast
qed

theorem strtok_r_token_witness:
  "\<exists>saved m'. strtok_r (two_strings [32, 111, 110, 32, 53] [32]) (Some 10) 100 0
       = Some (Some 11, saved, m') \<and> cstr m' 11 [111, 110] \<and> cstr m' saved [53]"
proof -
  let ?m = "two_strings [32, 111, 110, 32, 53] [32]"
  have "cstr ?m 100 [32]" "cstr ?m 10 ([32] @ [111, 110] @ 32 # [53])" by code_simp+
  then show ?thesis
    using strtok_r_token [of ?m 100 "[32]" 10 "[32]" "[111, 110]" 32 "[53]" 0] by simp
qed

end
