(* ===== verification/SmallMem.thy ===== *)
theory SmallMem
  imports LibUtil
begin

text \<open>
  os_rtt/src/mem.c, the small-memory allocator that is the firmware's heap, and the wrappers of
  os_rtt/src/kservice.c that call it under the heap lock. A header is found by its offset from
  \<open>heap_ptr\<close>; a pointer to user memory is the offset of its first byte, \<open>NULL\<close> is \<open>None\<close>. The
  headers (\<open>items\<close>) and the bytes of the user blocks (\<open>bytes\<close>) are kept in two maps. A loop over the
  headers need not end on a damaged heap: \<open>None\<close> as a whole result is a call that never returns.
  The second half shows that every operation refines first-fit allocation on a list of blocks.
\<close>

section \<open>The heap object\<close>

text \<open>A header's \<open>pool_ptr\<close>: zero, or the heap's address with the used bit clear or set.\<close>

datatype pool_ptr_t = POOL_NULL | MEM_FREED | MEM_USED

record rt_small_mem_item =
  pool_ptr :: pool_ptr_t
  it_next :: nat
  it_prev :: nat

record rt_small_mem =
  items :: "nat \<Rightarrow> rt_small_mem_item"
  bytes :: mem
  heap_end :: nat
  lfree :: nat
  mem_size_aligned :: nat
  total :: nat
  used :: nat
  max_used :: nat

definition MEM_ISUSED :: "rt_small_mem \<Rightarrow> nat \<Rightarrow> bool" where
  "MEM_ISUSED m p \<longleftrightarrow> pool_ptr (items m p) = MEM_USED"

definition SIZEOF_STRUCT_MEM :: nat where "SIZEOF_STRUCT_MEM = unat (RT_ALIGN 12 RT_ALIGN_SIZE)"
definition MIN_SIZE :: nat where "MIN_SIZE = 12"
definition MIN_SIZE_ALIGNED :: nat where "MIN_SIZE_ALIGNED = unat (RT_ALIGN 12 RT_ALIGN_SIZE)"

text \<open>\<open>sizeof(struct rt_small_mem)\<close> in this configuration.\<close>

definition SIZEOF_SMALL_MEM :: u32 where "SIZEOF_SMALL_MEM = 56"

text \<open>Writes to one field of a header in memory.\<close>

definition set_pool :: "nat \<Rightarrow> pool_ptr_t \<Rightarrow> rt_small_mem \<Rightarrow> rt_small_mem" where
  "set_pool p v m = m\<lparr>items := (items m)(p := (items m p)\<lparr>pool_ptr := v\<rparr>)\<rparr>"
definition set_next :: "nat \<Rightarrow> nat \<Rightarrow> rt_small_mem \<Rightarrow> rt_small_mem" where
  "set_next p v m = m\<lparr>items := (items m)(p := (items m p)\<lparr>it_next := v\<rparr>)\<rparr>"
definition set_prev :: "nat \<Rightarrow> nat \<Rightarrow> rt_small_mem \<Rightarrow> rt_small_mem" where
  "set_prev p v m = m\<lparr>items := (items m)(p := (items m p)\<lparr>it_prev := v\<rparr>)\<rparr>"

section \<open>Operations of mem.c\<close>

text \<open>The two halves of plug_holes: combine with the next header, then with the previous one.\<close>

definition plug_fwd :: "nat \<Rightarrow> rt_small_mem \<Rightarrow> rt_small_mem" where
  "plug_fwd mem m =
     (let nmem = it_next (items m mem)
      in if mem \<noteq> nmem \<and> \<not> MEM_ISUSED m nmem \<and> nmem \<noteq> heap_end m then
           let a = (if lfree m = nmem then m\<lparr>lfree := mem\<rparr> else m);
               b = set_pool nmem POOL_NULL a;
               c = set_next mem (it_next (items b nmem)) b
           in set_prev (it_next (items c nmem)) mem c
         else m)"

definition plug_bwd :: "nat \<Rightarrow> rt_small_mem \<Rightarrow> rt_small_mem" where
  "plug_bwd mem m =
     (let pmem = it_prev (items m mem)
      in if pmem \<noteq> mem \<and> \<not> MEM_ISUSED m pmem then
           let a = (if lfree m = mem then m\<lparr>lfree := pmem\<rparr> else m);
               b = set_pool mem POOL_NULL a;
               c = set_next pmem (it_next (items b mem)) b
           in set_prev (it_next (items c mem)) pmem c
         else m)"

definition plug_holes :: "nat \<Rightarrow> rt_small_mem \<Rightarrow> rt_small_mem" where
  "plug_holes mem m = plug_bwd mem (plug_fwd mem m)"

definition rt_smem_init :: "u32 \<Rightarrow> u32 \<Rightarrow> (u32 \<times> rt_small_mem) option" where
  "rt_smem_init begin_addr sz =
     (let small_mem = RT_ALIGN begin_addr RT_ALIGN_SIZE;
          start_addr = small_mem + SIZEOF_SMALL_MEM;
          begin_align = RT_ALIGN start_addr RT_ALIGN_SIZE;
          end_align = RT_ALIGN_DOWN (begin_addr + sz) RT_ALIGN_SIZE;
          hdr = of_nat SIZEOF_STRUCT_MEM
      in if end_align > 2 * hdr \<and> end_align - 2 * hdr \<ge> start_addr then
           let mem_size = unat (end_align - begin_align - 2 * hdr);
               e = add32 mem_size SIZEOF_STRUCT_MEM
           in Some (begin_align,
                \<lparr>items = (\<lambda>_. \<lparr>pool_ptr = POOL_NULL, it_next = 0, it_prev = 0\<rparr>)
                    (0 := \<lparr>pool_ptr = MEM_FREED, it_next = e, it_prev = 0\<rparr>,
                     e := \<lparr>pool_ptr = MEM_USED, it_next = e, it_prev = e\<rparr>),
                 bytes = (\<lambda>_. 0), heap_end = e, lfree = 0, mem_size_aligned = mem_size,
                 total = mem_size, used = 0, max_used = 0\<rparr>)
         else None)"

text \<open>The search of rt_smem_alloc: the outer \<open>None\<close> is a search that does not end, \<open>Some None\<close>
  one that leaves the loop.\<close>

partial_function (option) smem_find :: "rt_small_mem \<Rightarrow> nat \<Rightarrow> nat \<Rightarrow> nat option option" where
  [code]: "smem_find m sz ptr =
     (if ptr \<le> sub32 (mem_size_aligned m) sz then
        (if \<not> MEM_ISUSED m ptr \<and> sub32 (it_next (items m ptr)) (add32 ptr SIZEOF_STRUCT_MEM) \<ge> sz
         then Some (Some ptr)
         else smem_find m sz (it_next (items m ptr)))
      else Some None)"

partial_function (option) lfree_advance :: "rt_small_mem \<Rightarrow> nat \<Rightarrow> nat option" where
  [code]: "lfree_advance m p =
     (if MEM_ISUSED m p \<and> p \<noteq> heap_end m then lfree_advance m (it_next (items m p)) else Some p)"

definition smem_note_max :: "rt_small_mem \<Rightarrow> rt_small_mem" where
  "smem_note_max m = (if max_used m < used m then m\<lparr>max_used := used m\<rparr> else m)"

text \<open>
  The header of a free remainder is created at \<open>ptr2\<close> and linked between \<open>ptr\<close> and its successor:
  the same statements in rt_smem_alloc and in rt_smem_realloc.
\<close>

definition smem_split :: "nat \<Rightarrow> nat \<Rightarrow> rt_small_mem \<Rightarrow> rt_small_mem" where
  "smem_split ptr ptr2 m =
     (let a = set_prev ptr2 ptr
                (set_next ptr2 (it_next (items m ptr)) (set_pool ptr2 MEM_FREED m));
          b = set_next ptr ptr2 a
      in if it_next (items b ptr2) \<noteq> add32 (mem_size_aligned b) SIZEOF_STRUCT_MEM
         then set_prev (it_next (items b ptr2)) ptr2 b else b)"

text \<open>What rt_smem_alloc does with the header the search found.\<close>

definition smem_take :: "rt_small_mem \<Rightarrow> nat \<Rightarrow> nat \<Rightarrow> (nat \<times> rt_small_mem) option" where
  "smem_take m sz ptr =
     (let avail = sub32 (it_next (items m ptr)) (add32 ptr SIZEOF_STRUCT_MEM);
          m1 = (if avail \<ge> add32 (add32 sz SIZEOF_STRUCT_MEM) MIN_SIZE_ALIGNED then
                  let c = smem_split ptr (add32 (add32 ptr SIZEOF_STRUCT_MEM) sz) m
                  in smem_note_max (c\<lparr>used := add32 (used c) (add32 sz SIZEOF_STRUCT_MEM)\<rparr>)
                else smem_note_max (m\<lparr>used := add32 (used m) (sub32 (it_next (items m ptr)) ptr)\<rparr>));
          m2 = set_pool ptr MEM_USED m1
      in if ptr = lfree m2 then
           do { p \<leftarrow> lfree_advance m2 (lfree m2);
                Some (add32 ptr SIZEOF_STRUCT_MEM, m2\<lparr>lfree := p\<rparr>) }
         else Some (add32 ptr SIZEOF_STRUCT_MEM, m2))"

definition smem_round :: "nat \<Rightarrow> nat" where
  "smem_round n =
     (let s = unat (RT_ALIGN (of_nat n) RT_ALIGN_SIZE)
      in if s < MIN_SIZE_ALIGNED then MIN_SIZE_ALIGNED else s)"

definition rt_smem_alloc :: "rt_small_mem \<Rightarrow> nat \<Rightarrow> (nat option \<times> rt_small_mem) option" where
  "rt_smem_alloc m size0 =
     (if size0 = 0 then Some (None, m)
      else let sz = smem_round size0 in
        if sz > mem_size_aligned m then Some (None, m)
        else do { r \<leftarrow> smem_find m sz (lfree m);
                  case r of
                    None \<Rightarrow> Some (None, m)
                  | Some ptr \<Rightarrow> do { (p, m') \<leftarrow> smem_take m sz ptr; Some (Some p, m') } })"

definition rt_smem_free :: "rt_small_mem \<Rightarrow> nat option \<Rightarrow> rt_small_mem" where
  "rt_smem_free m rmem =
     (case rmem of
        None \<Rightarrow> m
      | Some p \<Rightarrow>
          (let mem = sub32 p SIZEOF_STRUCT_MEM;
               m1 = set_pool mem MEM_FREED m;
               m2 = (if mem < lfree m1 then m1\<lparr>lfree := mem\<rparr> else m1);
               m3 = m2\<lparr>used := sub32 (used m2) (sub32 (it_next (items m2 mem)) mem)\<rparr>
           in plug_holes mem m3))"

definition rt_smem_realloc ::
  "rt_small_mem \<Rightarrow> nat option \<Rightarrow> nat \<Rightarrow> (nat option \<times> rt_small_mem) option" where
  "rt_smem_realloc m rmem newsize0 =
     (let newsize = unat (RT_ALIGN (of_nat newsize0) RT_ALIGN_SIZE) in
      if newsize > mem_size_aligned m then Some (None, m)
      else if newsize = 0 then Some (None, rt_smem_free m rmem)
      else case rmem of
        None \<Rightarrow> rt_smem_alloc m newsize
      | Some r \<Rightarrow>
          (let ptr = sub32 r SIZEOF_STRUCT_MEM;
               sz = sub32 (sub32 (it_next (items m ptr)) ptr) SIZEOF_STRUCT_MEM
           in if sz = newsize then Some (Some r, m)
              else if add32 (add32 newsize SIZEOF_STRUCT_MEM) MIN_SIZE < sz then
                let a = m\<lparr>used := sub32 (used m) (sub32 sz newsize)\<rparr>;
                    ptr2 = add32 (add32 ptr SIZEOF_STRUCT_MEM) newsize;
                    d = smem_split ptr ptr2 a;
                    e = (if ptr2 < lfree d then d\<lparr>lfree := ptr2\<rparr> else d)
                in Some (Some r, plug_holes ptr2 e)
              else do { (nmem, m1) \<leftarrow> rt_smem_alloc m newsize;
                        case nmem of
                          None \<Rightarrow> Some (None, m1)
                        | Some q \<Rightarrow>
                            Some (Some q,
                              rt_smem_free
                                (m1\<lparr>bytes := snd (memcpy (bytes m1) q r
                                                (if sz < newsize then sz else newsize))\<rparr>)
                                (Some r)) }))"

section \<open>The heap functions of kservice.c\<close>

text \<open>
  The system heap is this one object; each function takes the heap lock around the call. A locked
  call is one step of the model.
\<close>

definition rt_system_heap_init :: "u32 \<Rightarrow> u32 \<Rightarrow> (u32 \<times> rt_small_mem) option" where
  "rt_system_heap_init begin_addr end_addr =
     (let begin_align = RT_ALIGN begin_addr RT_ALIGN_SIZE;
          end_align = RT_ALIGN_DOWN end_addr RT_ALIGN_SIZE
      in rt_smem_init begin_addr (end_align - begin_align))"

definition rt_malloc :: "rt_small_mem \<Rightarrow> nat \<Rightarrow> (nat option \<times> rt_small_mem) option" where
  "rt_malloc m sz = rt_smem_alloc m sz"

definition rt_realloc ::
  "rt_small_mem \<Rightarrow> nat option \<Rightarrow> nat \<Rightarrow> (nat option \<times> rt_small_mem) option" where
  "rt_realloc m rmem newsize = rt_smem_realloc m rmem newsize"

definition rt_calloc :: "rt_small_mem \<Rightarrow> nat \<Rightarrow> nat \<Rightarrow> (nat option \<times> rt_small_mem) option" where
  "rt_calloc m count sz =
     do { (p, m1) \<leftarrow> rt_malloc m (count * sz mod 2 ^ 32);
          case p of
            None \<Rightarrow> Some (None, m1)
          | Some q \<Rightarrow>
              Some (Some q, m1\<lparr>bytes := snd (memset (bytes m1) q 0 (count * sz mod 2 ^ 32))\<rparr>) }"

definition rt_free :: "rt_small_mem \<Rightarrow> nat option \<Rightarrow> rt_small_mem" where
  "rt_free m rmem = (if rmem = None then m else rt_smem_free m rmem)"

definition rt_memory_info :: "rt_small_mem \<Rightarrow> nat \<times> nat \<times> nat" where
  "rt_memory_info m = (total m, used m, max_used m)"


section \<open>The heap as a list of blocks\<close>

text \<open>
  The specification: the heap is a list of adjacent blocks, each with its length (header included)
  and whether it is in use. Allocation is first fit with splitting, freeing joins a block with its
  free neighbours.
\<close>

type_synonym blocks = "(nat \<times> bool) list"

definition blen :: "blocks \<Rightarrow> nat" where
  "blen bs = sum_list (map fst bs)"

fun blast :: "nat \<Rightarrow> nat \<Rightarrow> blocks \<Rightarrow> nat" where
  "blast p a [] = p"
| "blast p a ((n, u) # bs) = blast a (a + n) bs"

definition bused :: "blocks \<Rightarrow> nat" where
  "bused bs = sum_list (map (\<lambda>(n, u). if u then n else 0) bs)"

definition bwf :: "blocks \<Rightarrow> bool" where
  "bwf bs \<longleftrightarrow> list_all (\<lambda>(n, u). 24 \<le> n \<and> 8 dvd n) bs"

fun noadj :: "blocks \<Rightarrow> bool" where
  "noadj ((n, u) # (k, v) # bs) \<longleftrightarrow> (u \<or> v) \<and> noadj ((k, v) # bs)"
| "noadj bs \<longleftrightarrow> True"

fun ffree :: "nat \<Rightarrow> blocks \<Rightarrow> nat" where
  "ffree a [] = a"
| "ffree a ((n, u) # bs) = (if u then ffree (a + n) bs else a)"

fun bfind :: "nat \<Rightarrow> nat \<Rightarrow> blocks \<Rightarrow> nat option" where
  "bfind n a [] = None"
| "bfind n a ((k, u) # bs) = (if \<not> u \<and> n + 16 \<le> k then Some a else bfind n (a + k) bs)"

definition bcut :: "nat \<Rightarrow> nat \<Rightarrow> blocks" where
  "bcut n k = (if n + 48 \<le> k then [(n + 16, True), (k - (n + 16), False)] else [(k, True)])"

fun balloc :: "nat \<Rightarrow> blocks \<Rightarrow> (nat \<times> blocks) option" where
  "balloc n [] = None"
| "balloc n ((k, u) # bs) =
     (if \<not> u \<and> n + 16 \<le> k then Some (0, bcut n k @ bs)
      else map_option (\<lambda>(off, bs'). (k + off, (k, u) # bs')) (balloc n bs))"

definition join_next :: "nat \<Rightarrow> blocks \<Rightarrow> blocks" where
  "join_next k ys = (case ys of (k2, False) # ys' \<Rightarrow> (k + k2, False) # ys' | _ \<Rightarrow> (k, False) # ys)"

definition join_prev :: "blocks \<Rightarrow> blocks \<Rightarrow> blocks" where
  "join_prev xs ys = (case rev xs of
      (k0, False) # rs \<Rightarrow> rev rs @ (k0 + fst (hd ys), False) # tl ys | _ \<Rightarrow> xs @ ys)"

text \<open>The block that stands between \<open>xs\<close> and \<open>ys\<close> is freed.\<close>

definition bfree :: "blocks \<Rightarrow> nat \<Rightarrow> blocks \<Rightarrow> blocks" where
  "bfree xs k ys = join_prev xs (join_next k ys)"

section \<open>Representation\<close>

fun lseg :: "(nat \<Rightarrow> rt_small_mem_item) \<Rightarrow> nat \<Rightarrow> nat \<Rightarrow> blocks \<Rightarrow> bool" where
  "lseg it p a [] \<longleftrightarrow> True"
| "lseg it p a ((n, u) # bs) \<longleftrightarrow>
     it a = \<lparr>pool_ptr = (if u then MEM_USED else MEM_FREED), it_next = a + n, it_prev = p\<rparr> \<and>
     lseg it a (a + n) bs"

text \<open>The headers represent the blocks \<open>bs\<close>; \<open>hrep\<close> adds that \<open>lfree\<close> is the first free one.\<close>

definition hcore :: "rt_small_mem \<Rightarrow> blocks \<Rightarrow> bool" where
  "hcore m bs \<longleftrightarrow> lseg (items m) 0 0 bs \<and> bwf bs \<and> heap_end m = blen bs
     \<and> blen bs = mem_size_aligned m + 16 \<and> blen bs + 16 < 2 ^ 32
     \<and> pool_ptr (items m (blen bs)) = MEM_USED \<and> it_next (items m (blen bs)) = blen bs
     \<and> used m = bused bs"

definition hrep :: "rt_small_mem \<Rightarrow> blocks \<Rightarrow> bool" where
  "hrep m bs \<longleftrightarrow> hcore m bs \<and> lfree m = ffree 0 bs"

text \<open>The invariant between two calls: the blocks \<open>bs\<close>, no two free ones side by side.\<close>

definition hinv :: "rt_small_mem \<Rightarrow> blocks \<Rightarrow> bool" where
  "hinv m bs \<longleftrightarrow> hrep m bs \<and> noadj bs"

section \<open>Lemmas on block lists\<close>

named_theorems blocks_simp "the operations of the specification on concatenated block lists"

lemma sizeof_consts [simp]: "SIZEOF_STRUCT_MEM = 16" "MIN_SIZE_ALIGNED = 16" "MIN_SIZE = 12"
  by (simp_all add: SIZEOF_STRUCT_MEM_def MIN_SIZE_ALIGNED_def MIN_SIZE_def unat_RT_ALIGN rt_const)

lemma blen_simps [simp, blocks_simp]:
  "blen [] = 0" "blen ((n, u) # bs) = n + blen bs" "blen (xs @ ys) = blen xs + blen ys"
  by (simp_all add: blen_def)

lemma bused_simps [simp, blocks_simp]:
  "bused [] = 0" "bused ((n, u) # bs) = (if u then n else 0) + bused bs"
  "bused (xs @ ys) = bused xs + bused ys"
  by (simp_all add: bused_def)

lemma bwf_simps [simp, blocks_simp]:
  "bwf []" "bwf ((n, u) # bs) \<longleftrightarrow> (24 \<le> n \<and> 8 dvd n) \<and> bwf bs"
  "bwf (xs @ ys) \<longleftrightarrow> bwf xs \<and> bwf ys"
  by (simp_all add: bwf_def)

lemma bused_le: "bused bs \<le> blen bs"
  by (induction bs) auto

lemma bwf_blen_pos: "bwf bs \<Longrightarrow> bs \<noteq> [] \<Longrightarrow> 24 \<le> blen bs"
  by (cases bs) auto

lemma bwf_dvd: "bwf bs \<Longrightarrow> 8 dvd blen bs"
  by (induction bs) auto

lemma blast_append [blocks_simp]: "blast p a (xs @ ys) = blast (blast p a xs) (a + blen xs) ys"
  by (induction p a xs rule: blast.induct) (auto simp: add.assoc)

lemma ffree_append [blocks_simp]:
  "ffree a (xs @ ys) = (if list_all snd xs then ffree (a + blen xs) ys else ffree a xs)"
  by (induction a xs rule: ffree.induct) (auto simp: add.assoc)

lemma ffree_less: "bwf bs \<Longrightarrow> \<not> list_all snd bs \<Longrightarrow> ffree a bs < a + blen bs"
  by (induction a bs rule: ffree.induct) auto

lemma ffree_ge: "a \<le> ffree a bs"
  by (induction a bs rule: ffree.induct) auto

lemma bfind_append [blocks_simp]:
  "bfind n a (xs @ ys) = (case bfind n a xs of None \<Rightarrow> bfind n (a + blen xs) ys | r \<Rightarrow> r)"
  by (induction n a xs rule: bfind.induct) (auto simp: add.assoc split: option.splits)

lemma bfind_all_used: "list_all snd bs \<Longrightarrow> bfind n a bs = None"
  by (induction n a bs rule: bfind.induct) auto

lemma bfind_too_big: "blen bs < n + 16 \<Longrightarrow> bfind n a bs = None"
  by (induction n a bs rule: bfind.induct) auto

lemma noadj_append [blocks_simp]:
  "noadj (xs @ ys) \<longleftrightarrow> noadj xs \<and> noadj ys \<and> (xs = [] \<or> ys = [] \<or> snd (last xs) \<or> snd (hd ys))"
  by (induction xs rule: noadj.induct) (cases ys; auto split: prod.splits)+

lemma lseg_append [blocks_simp]:
  "lseg it p a (xs @ ys) \<longleftrightarrow> lseg it p a xs \<and> lseg it (blast p a xs) (a + blen xs) ys"
  by (induction it p a xs rule: lseg.induct) (auto simp: add.assoc)

lemma lseg_relink:
  assumes "lseg it p a bs" "bwf bs" "\<And>x. a < x \<Longrightarrow> x < a + blen bs \<Longrightarrow> it' x = it x"
    and "bs \<noteq> [] \<Longrightarrow> it' a = (it a)\<lparr>it_prev := p'\<rparr>"
  shows "lseg it' p' a bs"
  using assms
proof (induction it p a bs arbitrary: p' rule: lseg.induct)
  case (2 it p a n u bs)
  have hd: "it' a = \<lparr>pool_ptr = (if u then MEM_USED else MEM_FREED), it_next = a + n, it_prev = p'\<rparr>"
    using "2.prems" by simp
  have "it' (a + n) = (it (a + n))\<lparr>it_prev := a\<rparr>" if "bs \<noteq> []"
  proof -
    have "it' (a + n) = it (a + n)" using "2.prems" that bwf_blen_pos [of bs] by auto
    moreover have "it_prev (it (a + n)) = a" using "2.prems"(1) that by (cases bs) auto
    ultimately show ?thesis by simp
  qed
  then have "lseg it' a (a + n) bs" using "2.prems" by (intro "2.IH") auto
  with hd show ?case by simp
qed simp

lemma lseg_frame:
  assumes "lseg it p a bs" "bwf bs" "\<And>x. a \<le> x \<Longrightarrow> x < a + blen bs \<Longrightarrow> it' x = it x"
  shows "lseg it' p a bs"
proof (rule lseg_relink [OF assms(1,2)])
  assume "bs \<noteq> []"
  then have "it_prev (it a) = p" "it' a = it a"
    using assms bwf_blen_pos [of bs] by (cases bs; auto)+
  then show "it' a = (it a)\<lparr>it_prev := p\<rparr>" by simp
qed (use assms(3) in auto)

lemma blast_bound: "bwf bs \<Longrightarrow> bs \<noteq> [] \<Longrightarrow> a \<le> blast p a bs \<and> blast p a bs < a + blen bs"
proof (induction p a bs rule: blast.induct)
  case (2 p a n u bs)
  then show ?case by (cases "bs = []") auto
qed simp

lemma balloc_split:
  "balloc n bs = Some (off, bs') \<Longrightarrow>
   \<exists>xs k ys. bs = xs @ (k, False) # ys \<and> n + 16 \<le> k \<and> off = blen xs \<and> bs' = xs @ bcut n k @ ys
     \<and> bfind n 0 bs = Some off"
proof -
  have "balloc n bs = Some (off, bs') \<Longrightarrow>
   \<exists>xs k ys. bs = xs @ (k, False) # ys \<and> n + 16 \<le> k \<and> off = blen xs \<and> bs' = xs @ bcut n k @ ys
     \<and> bfind n a bs = Some (a + off)" for a
  proof (induction n bs arbitrary: off bs' a rule: balloc.induct)
    case (2 n k u bs)
    show ?case
    proof (cases "\<not> u \<and> n + 16 \<le> k")
      case True
      then show ?thesis using "2.prems" by (intro exI [of _ "[]"]) auto
    next
      case False
      then obtain off1 bs1 where 1: "balloc n bs = Some (off1, bs1)" "off = k + off1"
        "bs' = (k, u) # bs1" using "2.prems" by auto
      from "2.IH" [OF False 1(1), of "a + k"] obtain xs k' ys where
        "bs = xs @ (k', False) # ys" "n + 16 \<le> k'" "off1 = blen xs" "bs1 = xs @ bcut n k' @ ys"
        "bfind n (a + k) bs = Some (a + k + off1)" by blast
      then show ?thesis using 1 False
        by (intro exI [of _ "(k, u) # xs"] exI [of _ k'] exI [of _ ys]) (auto simp: add.assoc)
    qed
  qed simp
  from this [of 0] show "balloc n bs = Some (off, bs') \<Longrightarrow>
   \<exists>xs k ys. bs = xs @ (k, False) # ys \<and> n + 16 \<le> k \<and> off = blen xs \<and> bs' = xs @ bcut n k @ ys
     \<and> bfind n 0 bs = Some off" by simp
qed

lemma balloc_None: "balloc n bs = None \<longleftrightarrow> bfind n a bs = None"
  by (induction n bs arbitrary: a rule: balloc.induct) auto

section \<open>The two loops end\<close>

lemma set_item_sel [simp]:
  "items (set_pool p v m) = (items m)(p := (items m p)\<lparr>pool_ptr := v\<rparr>)"
  "items (set_next p q m) = (items m)(p := (items m p)\<lparr>it_next := q\<rparr>)"
  "items (set_prev p q m) = (items m)(p := (items m p)\<lparr>it_prev := q\<rparr>)"
  "heap_end (set_pool p v m) = heap_end m" "lfree (set_pool p v m) = lfree m"
  "heap_end (set_next p q m) = heap_end m" "lfree (set_next p q m) = lfree m"
  "heap_end (set_prev p q m) = heap_end m" "lfree (set_prev p q m) = lfree m"
  "mem_size_aligned (set_pool p v m) = mem_size_aligned m" "used (set_pool p v m) = used m"
  "mem_size_aligned (set_next p q m) = mem_size_aligned m" "used (set_next p q m) = used m"
  "mem_size_aligned (set_prev p q m) = mem_size_aligned m" "used (set_prev p q m) = used m"
  "bytes (set_pool p v m) = bytes m" "bytes (set_next p q m) = bytes m"
  "bytes (set_prev p q m) = bytes m"
  by (simp_all add: set_pool_def set_next_def set_prev_def)

lemma smem_note_max_sel [simp]:
  "items (smem_note_max m) = items m" "heap_end (smem_note_max m) = heap_end m"
  "lfree (smem_note_max m) = lfree m" "used (smem_note_max m) = used m"
  "mem_size_aligned (smem_note_max m) = mem_size_aligned m" "bytes (smem_note_max m) = bytes m"
  by (simp_all add: smem_note_max_def)

lemma smem_find_eq:
  assumes "lseg (items m) p a bs" "bwf bs" "a + blen bs = mem_size_aligned m + 16"
    and "n \<le> mem_size_aligned m" "0 < n" "a + blen bs < 2 ^ 32"
  shows "smem_find m n a = Some (bfind n a bs)"
  using assms
proof (induction "items m" p a bs rule: lseg.induct)
  case (1 p a)
  then have "\<not> a \<le> sub32 (mem_size_aligned m) n" by (simp add: wrap32)
  then show ?case by (subst smem_find.simps) simp
next
  case (2 p a k u bs)
  have it: "items m a = \<lparr>pool_ptr = (if u then MEM_USED else MEM_FREED), it_next = a + k, it_prev = p\<rparr>"
    and k: "24 \<le> k" using "2.prems" by auto
  have IH: "smem_find m n (a + k) = Some (bfind n (a + k) bs)"
    using "2.prems" by (intro "2.hyps") auto
  have sub: "sub32 (a + k) (add32 a 16) = k - 16" "sub32 (mem_size_aligned m) n = mem_size_aligned m - n"
    using k "2.prems" by (simp_all add: wrap32)
  show ?case
  proof (cases "a \<le> mem_size_aligned m - n")
    case True
    have "(n \<le> k - 16) = (n + 16 \<le> k)" using k by auto
    then show ?thesis
      using True IH by (subst smem_find.simps) (auto simp: it sub MEM_ISUSED_def)
  next
    case False
    then have "blen ((k, u) # bs) < n + 16" using "2.prems" by simp
    then have "bfind n a ((k, u) # bs) = None" by (rule bfind_too_big)
    then show ?thesis
      using False by (subst smem_find.simps) (simp add: sub)
  qed
qed

lemma lfree_advance_eq:
  assumes "lseg (items m) p a bs" "bwf bs" "a + blen bs = heap_end m"
  shows "lfree_advance m a = Some (ffree a bs)"
  using assms
proof (induction "items m" p a bs rule: lseg.induct)
  case (2 p a k u bs)
  have it: "items m a = \<lparr>pool_ptr = (if u then MEM_USED else MEM_FREED), it_next = a + k, it_prev = p\<rparr>"
    using "2.prems" by auto
  have IH: "lfree_advance m (a + k) = Some (ffree (a + k) bs)"
    using "2.prems" by (intro "2.hyps") auto
  show ?case using IH "2.prems" by (subst lfree_advance.simps) (auto simp: it MEM_ISUSED_def)
qed (simp add: lfree_advance.simps)

text \<open>Skipping the used blocks before \<open>lfree\<close> loses nothing.\<close>

lemma split_ffree:
  obtains xs ys where "bs = xs @ ys" "list_all snd xs" "ffree a bs = a + blen xs"
proof (induction a bs arbitrary: thesis rule: ffree.induct)
  case (1 a)
  show ?case by (intro "1.prems" [of "[]" "[]"]) auto
next
  case (2 a n u bs)
  show ?case
  proof (cases u)
    case True
    from "2.IH" [OF True] obtain xs ys where "bs = xs @ ys" "list_all snd xs"
      "ffree (a + n) bs = a + n + blen xs" by blast
    with True show ?thesis by (intro "2.prems" [of "(n, u) # xs" ys]) auto
  next
    case False
    then show ?thesis by (intro "2.prems" [of "[]"]) auto
  qed
qed

lemma smem_find_lfree:
  assumes "hrep m bs" "n \<le> mem_size_aligned m" "0 < n"
  shows "smem_find m n (lfree m) = Some (bfind n 0 bs)"
proof -
  obtain xs ys where s: "bs = xs @ ys" "list_all snd xs" "ffree 0 bs = 0 + blen xs"
    using split_ffree [of bs 0] by blast
  have "smem_find m n (blen xs) = Some (bfind n (blen xs) ys)"
    using assms s(1)
    by (intro smem_find_eq [of _ "blast 0 0 xs"]) (auto simp: hrep_def hcore_def blocks_simp)
  then show ?thesis
    using assms(1) s by (simp add: hrep_def hcore_def bfind_append bfind_all_used)
qed

section \<open>Allocation\<close>

lemma smem_round_bounds:
  assumes "n < 2 ^ 32 - 7" "0 < n"
  shows "n \<le> smem_round n" "16 \<le> smem_round n" "8 dvd smem_round n" "smem_round n < n + 24"
proof -
  have "unat (of_nat n :: u32) = n" using assms by (simp add: unat_of_nat)
  then have "unat (RT_ALIGN (of_nat n) RT_ALIGN_SIZE) = (n + 7) div 8 * 8"
    using assms by (simp add: rt_const unat_RT_ALIGN)
  then show "n \<le> smem_round n" "16 \<le> smem_round n" "8 dvd smem_round n" "smem_round n < n + 24"
    by (auto simp: smem_round_def Let_def)
qed

text \<open>Cutting a free block in two in the headers, as alloc and realloc do.\<close>

lemma lseg_cut:
  assumes "lseg it p 0 (xs @ (k, u) # ys)" "bwf (xs @ (k, u) # ys)" "bwf [(n, True), (k - n, False)]"
    and "n < k" "a = blen xs"
    and "it' a = \<lparr>pool_ptr = MEM_USED, it_next = a + n, it_prev = blast p 0 xs\<rparr>"
    and "it' (a + n) = \<lparr>pool_ptr = MEM_FREED, it_next = a + k, it_prev = a\<rparr>"
    and "ys \<noteq> [] \<Longrightarrow> it' (a + k) = (it (a + k))\<lparr>it_prev := a + n\<rparr>"
    and "\<And>x. x \<noteq> a \<Longrightarrow> x \<noteq> a + n \<Longrightarrow> x \<noteq> a + k \<Longrightarrow> it' x = it x"
  shows "lseg it' p 0 (xs @ (n, True) # (k - n, False) # ys)"
proof -
  have parts: "lseg it p 0 xs" "lseg it a (a + k) ys" "bwf xs" "bwf ys" "0 < k"
    using assms(1,2,5) by (simp_all add: blocks_simp)
  have "lseg it' p 0 xs"
    using assms(4,5,9) parts by (intro lseg_frame [OF parts(1,3)]) auto
  moreover have "lseg it' (a + n) (a + k) ys"
    using assms(4,8,9) by (intro lseg_relink [OF parts(2,4)]) auto
  ultimately show ?thesis using assms(4-7) by (simp add: blocks_simp)
qed

lemma lseg_take:
  assumes "lseg it p 0 (xs @ (k, u) # ys)" "bwf (xs @ (k, u) # ys)" "a = blen xs"
    and "it' a = \<lparr>pool_ptr = (if v then MEM_USED else MEM_FREED), it_next = a + k, it_prev = blast p 0 xs\<rparr>"
    and "\<And>x. x \<noteq> a \<Longrightarrow> it' x = it x"
  shows "lseg it' p 0 (xs @ (k, v) # ys)"
proof -
  have parts: "lseg it p 0 xs" "lseg it a (a + k) ys" "bwf xs" "bwf ys" "0 < k"
    using assms(1-3) by (simp_all add: blocks_simp)
  have "lseg it' p 0 xs" using assms(3,5) by (intro lseg_frame [OF parts(1,3)]) auto
  moreover have "lseg it' a (a + k) ys"
    using assms(5) parts(5) by (intro lseg_frame [OF parts(2,4)]) auto
  ultimately show ?thesis using assms(3,4) by (simp add: blocks_simp)
qed

lemma take_lfree:
  assumes "hcore m (xs @ (n, True) # zs)" "lfree m = ffree 0 (xs @ (k, False) # ys)"
  shows "(if blen xs = lfree m
          then do { p \<leftarrow> lfree_advance m (lfree m); Some (q, m\<lparr>lfree := p\<rparr>) } else Some (q, m))
    = Some (q, m\<lparr>lfree := ffree 0 (xs @ (n, True) # zs)\<rparr>)"
proof (cases "list_all snd xs")
  case True
  then have l: "lfree m = blen xs" using assms(2) by (simp add: blocks_simp)
  have "lfree_advance m (blen xs) = Some (ffree (blen xs) ((n, True) # zs))"
    using assms(1)
    by (intro lfree_advance_eq [of _ "blast 0 0 xs"]) (auto simp: hcore_def blocks_simp)
  then show ?thesis using True l by (simp add: blocks_simp)
next
  case False
  then have "lfree m < blen xs" "lfree m = ffree 0 (xs @ (n, True) # zs)"
    using assms ffree_less [of xs 0] by (auto simp: blocks_simp hcore_def)
  then show ?thesis by simp
qed

lemma smem_take_whole:
  assumes "hrep m (xs @ (k, False) # ys)" "n + 16 \<le> k" "k < n + 48"
  shows "\<exists>m'. smem_take m n (blen xs) = Some (blen xs + 16, m')
    \<and> hrep m' (xs @ (k, True) # ys) \<and> bytes m' = bytes m"
proof -
  let ?a = "blen xs" let ?bs = "xs @ (k, False) # ys" let ?bs' = "xs @ (k, True) # ys"
  have core: "hcore m ?bs" and lf: "lfree m = ffree 0 ?bs"
    using assms(1) by (auto simp: hrep_def)
  have itn: "it_next (items m ?a) = ?a + k" and itp: "it_prev (items m ?a) = blast 0 0 xs"
    and lt: "?a + k + blen ys + 16 < 2 ^ 32" and bu: "bused xs + k + bused ys < 2 ^ 32"
    using core bused_le [of xs] bused_le [of ys] by (auto simp: hcore_def blocks_simp)
  define m2 where "m2 = set_pool ?a MEM_USED
     (smem_note_max (m\<lparr>used := add32 (used m) (sub32 (it_next (items m ?a)) ?a)\<rparr>))"
  have cond: "(add32 (n + 16) 16 \<le> sub32 (?a + k) (?a + 16)) = False"
    and off: "add32 ?a 16 = ?a + 16" "add32 n 16 = n + 16"
    using lt assms(2,3) by (simp_all add: wrap32)
  have take: "smem_take m n ?a = (if ?a = lfree m2
       then do { p \<leftarrow> lfree_advance m2 (lfree m2); Some (?a + 16, m2\<lparr>lfree := p\<rparr>) }
       else Some (?a + 16, m2))"
    unfolding smem_take_def Let_def sizeof_consts itn cond off if_False
    by (simp only: m2_def itn)
  have i2: "items m2 ?a = \<lparr>pool_ptr = MEM_USED, it_next = ?a + k, it_prev = blast 0 0 xs\<rparr>"
    "\<And>x. x \<noteq> ?a \<Longrightarrow> items m2 x = items m x"
    by (rule rt_small_mem_item.equality) (simp_all add: m2_def itn itp)
  have "lseg (items m2) 0 0 ?bs'"
    by (rule lseg_take [of "items m" 0 xs k False ys ?a])
      (use core i2 in \<open>simp_all add: hcore_def\<close>)
  moreover have "used m2 = bused ?bs'"
    using core bu lt by (simp add: m2_def itn hcore_def wrap32)
  ultimately have c2: "hcore m2 ?bs'"
    using core assms(2) by (auto simp: hcore_def i2) (simp_all add: m2_def)
  have "lfree m2 = ffree 0 ?bs" by (simp add: m2_def lf)
  from take_lfree [OF c2 this] have "smem_take m n ?a = Some (?a + 16, m2\<lparr>lfree := ffree 0 ?bs'\<rparr>)"
    by (simp only: take)
  then show ?thesis using c2 by (auto simp: hrep_def hcore_def m2_def)
qed

lemma smem_split_hcore:
  assumes "hcore m (xs @ (k, u) # ys)" "n + 8 \<le> k" "24 \<le> n" "24 \<le> k - n" "8 dvd n"
    and "m' = set_pool (blen xs) MEM_USED (smem_split (blen xs) (blen xs + n) m)"
  shows "lseg (items m') 0 0 (xs @ (n, True) # (k - n, False) # ys)"
    and "pool_ptr (items m' (blen xs + (k + blen ys))) = MEM_USED"
    and "it_next (items m' (blen xs + (k + blen ys))) = blen xs + (k + blen ys)"
    and "heap_end m' = heap_end m" "mem_size_aligned m' = mem_size_aligned m" "used m' = used m"
    and "lfree m' = lfree m" "bytes m' = bytes m"
proof -
  let ?a = "blen xs" let ?p2 = "blen xs + n"
  have seg: "lseg (items m) 0 0 (xs @ (k, u) # ys)" and wf: "bwf (xs @ (k, u) # ys)"
    and hend: "pool_ptr (items m (?a + (k + blen ys))) = MEM_USED"
      "it_next (items m (?a + (k + blen ys))) = ?a + (k + blen ys)"
    and lt: "?a + k + blen ys + 16 < 2 ^ 32"
    and msz: "?a + k + blen ys = mem_size_aligned m + 16"
    using assms(1) by (auto simp: hcore_def)
  have it: "it_next (items m ?a) = ?a + k" "it_prev (items m ?a) = blast 0 0 xs"
    using seg by (simp_all add: blocks_simp)
  have y: "blen ys = 0 \<longleftrightarrow> ys = []" "ys \<noteq> [] \<Longrightarrow> 24 \<le> blen ys"
    using wf bwf_blen_pos [of ys] by (cases ys; auto)+
  have e: "add32 (mem_size_aligned m) 16 = ?a + k + blen ys"
    using lt msz by (simp add: wrap32)
  have i2: "items m' ?a = \<lparr>pool_ptr = MEM_USED, it_next = ?p2, it_prev = blast 0 0 xs\<rparr>"
    "items m' ?p2 = \<lparr>pool_ptr = MEM_FREED, it_next = ?a + k, it_prev = ?a\<rparr>"
    "ys \<noteq> [] \<Longrightarrow> items m' (?a + k) = (items m (?a + k))\<lparr>it_prev := ?p2\<rparr>"
    "\<And>x. x \<noteq> ?a \<Longrightarrow> x \<noteq> ?p2 \<Longrightarrow> x \<noteq> ?a + k \<Longrightarrow> items m' x = items m x"
    "ys = [] \<Longrightarrow> items m' (?a + k) = items m (?a + k)"
    using assms(2,3) by (simp_all add: assms(6) smem_split_def Let_def it e y)
  show "lseg (items m') 0 0 (xs @ (n, True) # (k - n, False) # ys)"
    using assms(2-5) seg wf i2 by (intro lseg_cut [of "items m" 0 xs k u ys n ?a]) auto
  show "pool_ptr (items m' (blen xs + (k + blen ys))) = MEM_USED"
    "it_next (items m' (blen xs + (k + blen ys))) = blen xs + (k + blen ys)"
    using hend i2 assms(2) y by (cases "ys = []"; simp)+
qed (simp_all add: assms(6) smem_split_def Let_def)

lemma smem_take_cut:
  assumes "hrep m (xs @ (k, False) # ys)" "n + 48 \<le> k" "8 dvd n" "16 \<le> n"
  shows "\<exists>m'. smem_take m n (blen xs) = Some (blen xs + 16, m')
    \<and> hrep m' (xs @ (n + 16, True) # (k - (n + 16), False) # ys) \<and> bytes m' = bytes m"
proof -
  let ?a = "blen xs" let ?bs = "xs @ (k, False) # ys"
  let ?bs' = "xs @ (n + 16, True) # (k - (n + 16), False) # ys" let ?p2 = "blen xs + (n + 16)"
  have core: "hcore m ?bs" and lf: "lfree m = ffree 0 ?bs"
    using assms(1) by (auto simp: hrep_def)
  have it: "it_next (items m ?a) = ?a + k" and wf: "bwf ?bs"
    and lt: "?a + k + blen ys + 16 < 2 ^ 32" and bu: "bused xs + k + bused ys < 2 ^ 32"
    using core bused_le [of xs] bused_le [of ys] by (auto simp: hcore_def blocks_simp)
  define c where "c = smem_split ?a ?p2 m"
  define m2 where "m2 = set_pool ?a MEM_USED (smem_note_max (c\<lparr>used := add32 (used c) (n + 16)\<rparr>))"
  have cond: "(add32 (n + 16) 16 \<le> sub32 (?a + k) (?a + 16)) = True"
    and off: "add32 (?a + 16) n = ?p2" "add32 ?a 16 = ?a + 16" "add32 n 16 = n + 16"
    using lt assms(2) by (simp_all add: wrap32)
  have take: "smem_take m n ?a = (if ?a = lfree m2
       then do { p \<leftarrow> lfree_advance m2 (lfree m2); Some (?a + 16, m2\<lparr>lfree := p\<rparr>) }
       else Some (?a + 16, m2))"
    unfolding smem_take_def Let_def sizeof_consts it cond off if_True
    by (simp only: c_def m2_def)
  note sp = smem_split_hcore [of m xs k False ys "n + 16" "set_pool ?a MEM_USED c",
      OF core, unfolded c_def, OF _ _ _ _ refl]
  have i2: "items m2 = items (set_pool ?a MEM_USED (smem_split ?a ?p2 m))"
    by (simp add: m2_def c_def)
  have "used m2 = bused ?bs'"
    using sp(6) assms(2-4) core bu lt by (simp add: m2_def c_def hcore_def wrap32)
  then have c2: "hcore m2 ?bs'"
    using sp(1-5) assms(2-4) core by (auto simp: hcore_def i2) (simp_all add: m2_def c_def)
  have "lfree m2 = ffree 0 ?bs" using sp(7) assms(2-4) by (simp add: m2_def c_def lf)
  from take_lfree [OF c2 this] have "smem_take m n ?a = Some (?a + 16, m2\<lparr>lfree := ffree 0 ?bs'\<rparr>)"
    by (simp only: take)
  then show ?thesis using c2 sp(8) assms(2-4) by (auto simp: hrep_def hcore_def m2_def c_def)
qed

lemma bcut_ok: "8 dvd n \<Longrightarrow> 16 \<le> n \<Longrightarrow> n + 16 \<le> k \<Longrightarrow> noadj (xs @ (k, False) # ys)
   \<Longrightarrow> noadj (xs @ bcut n k @ ys)"
  by (cases ys) (auto simp: bcut_def blocks_simp)

lemma smem_take_ok:
  assumes "hrep m (xs @ (k, False) # ys)" "n + 16 \<le> k" "8 dvd n" "16 \<le> n"
  shows "\<exists>m'. smem_take m n (blen xs) = Some (blen xs + 16, m')
    \<and> hrep m' (xs @ bcut n k @ ys) \<and> bytes m' = bytes m"
proof (cases "n + 48 \<le> k")
  case True
  then show ?thesis using smem_take_cut [OF assms(1) True assms(3,4)] by (simp add: bcut_def)
next
  case False
  then show ?thesis using smem_take_whole [OF assms(1,2)] by (simp add: bcut_def)
qed

text \<open>The refinement step for allocation, on both outcomes of the search.\<close>

lemma alloc_ok:
  assumes "hinv m bs" "0 < n" "n < 2 ^ 32 - 7"
  shows "case balloc (smem_round n) bs of
      None \<Rightarrow> rt_smem_alloc m n = Some (None, m)
    | Some (off, bs') \<Rightarrow> \<exists>m'. rt_smem_alloc m n = Some (Some (off + 16), m') \<and> hinv m' bs'
        \<and> bytes m' = bytes m"
proof -
  let ?n = "smem_round n"
  note r = smem_round_bounds [OF assms(3,2)]
  have rep: "hrep m bs" and na: "noadj bs" using assms(1) by (auto simp: hinv_def)
  have len: "blen bs = mem_size_aligned m + 16" using rep by (simp add: hrep_def hcore_def)
  show ?thesis
  proof (cases "?n > mem_size_aligned m")
    case True
    then have "bfind ?n 0 bs = None" using len by (intro bfind_too_big) simp
    then have "balloc ?n bs = None" using balloc_None by blast
    then show ?thesis using True assms(2) by (simp add: rt_smem_alloc_def)
  next
    case False
    then have find: "smem_find m ?n (lfree m) = Some (bfind ?n 0 bs)"
      using r by (intro smem_find_lfree [OF rep]) auto
    show ?thesis
    proof (cases "balloc ?n bs")
      case None
      then have "bfind ?n 0 bs = None" using balloc_None by blast
      then show ?thesis using None False find assms(2) by (simp add: rt_smem_alloc_def Let_def)
    next
      case (Some ob)
      obtain off bs' where ob: "ob = (off, bs')" by force
      obtain xs k ys where s: "bs = xs @ (k, False) # ys" "?n + 16 \<le> k" "off = blen xs"
        "bs' = xs @ bcut ?n k @ ys" "bfind ?n 0 bs = Some off"
        using balloc_split Some ob by blast
      obtain m' where m': "smem_take m ?n (blen xs) = Some (blen xs + 16, m')"
        "hrep m' bs'" "bytes m' = bytes m"
        using smem_take_ok [of m xs k ys ?n] rep r s by blast
      have "noadj bs'" using na s r by (simp add: bcut_ok)
      then show ?thesis
        using Some ob m' s find False assms(2) by (simp add: rt_smem_alloc_def Let_def hinv_def)
    qed
  qed
qed

section \<open>Freeing\<close>

lemma join_hcore:
  assumes "hcore m (xs @ (k, False) # (k2, False) # ys)" "a = blen xs"
    and "m' = (let b = set_pool (a + k) POOL_NULL m; c = set_next a (it_next (items b (a + k))) b
               in set_prev (it_next (items c (a + k))) a c)"
  shows "hcore m' (xs @ (k + k2, False) # ys)" "lfree m' = lfree m" "bytes m' = bytes m"
proof -
  let ?it = "items m" and ?e = "a + k + k2"
  have seg: "lseg ?it 0 0 xs" "lseg ?it (a + k) ?e ys"
    and hd: "it_next (?it a) = a + k" "it_prev (?it a) = blast 0 0 xs" "pool_ptr (?it a) = MEM_FREED"
      "it_next (?it (a + k)) = ?e"
    and wf: "bwf xs" "bwf ys" "24 \<le> k" "24 \<le> k2" "8 dvd k" "8 dvd k2"
    using assms(1,2) by (auto simp: hcore_def blocks_simp)
  have i': "items m' a = \<lparr>pool_ptr = MEM_FREED, it_next = ?e, it_prev = blast 0 0 xs\<rparr>"
    using wf by (intro rt_small_mem_item.equality) (simp_all add: assms(3) hd Let_def)
  have e': "items m' ?e = (?it ?e)\<lparr>it_prev := a\<rparr>"
    and o': "\<And>x. x \<noteq> a \<Longrightarrow> x \<noteq> a + k \<Longrightarrow> x \<noteq> ?e \<Longrightarrow> items m' x = ?it x"
    using wf by (simp_all add: assms(3) hd Let_def)
  have "lseg (items m') 0 0 xs"
    using wf o' assms(2) by (intro lseg_frame [OF seg(1) wf(1)]) auto
  moreover have "lseg (items m') a ?e ys"
    using wf o' e' by (intro lseg_relink [OF seg(2) wf(2)]) auto
  moreover have "pool_ptr (items m' (?e + blen ys)) = pool_ptr (?it (?e + blen ys))
      \<and> it_next (items m' (?e + blen ys)) = it_next (?it (?e + blen ys))"
    using o' e' wf by (cases "blen ys = 0") auto
  ultimately show "hcore m' (xs @ (k + k2, False) # ys)"
    using assms(1,2) i' wf
    by (auto simp: hcore_def blocks_simp add.assoc [symmetric]) (simp_all add: assms(3) Let_def)
qed (simp_all add: assms(3) Let_def)

lemma plug_fwd_ok:
  assumes "hrep m (xs @ (k, False) # ys)"
  shows "hrep (plug_fwd (blen xs) m) (xs @ join_next k ys) \<and> bytes (plug_fwd (blen xs) m) = bytes m"
proof -
  have core: "hcore m (xs @ (k, False) # ys)" and lf: "lfree m = ffree 0 (xs @ (k, False) # ys)"
    using assms by (auto simp: hrep_def)
  have hd: "it_next (items m (blen xs)) = blen xs + k" "24 \<le> k"
    using core by (auto simp: hcore_def blocks_simp)
  show ?thesis
  proof (cases "\<exists>k2 ys'. ys = (k2, False) # ys'")
    case True
    then obtain k2 ys' where ys: "ys = (k2, False) # ys'" by blast
    have p: "pool_ptr (items m (blen xs + k)) = MEM_FREED" "24 \<le> k2"
      "heap_end m = blen xs + k + k2 + blen ys'"
      using core by (auto simp: ys hcore_def blocks_simp)
    have "lfree m \<noteq> blen xs + k"
      using lf hd(2) core ffree_less [of xs 0] by (auto simp: blocks_simp hcore_def)
    then have "plug_fwd (blen xs) m = (let b = set_pool (blen xs + k) POOL_NULL m;
          c = set_next (blen xs) (it_next (items b (blen xs + k))) b
        in set_prev (it_next (items c (blen xs + k))) (blen xs) c)"
      using hd p by (simp add: plug_fwd_def MEM_ISUSED_def Let_def)
    from join_hcore [OF core [unfolded ys] refl this] lf show ?thesis
      by (simp add: ys join_next_def hrep_def blocks_simp)
  next
    case False
    have "pool_ptr (items m (blen xs + k)) = MEM_USED"
    proof (cases ys)
      case Nil
      then show ?thesis using core by (auto simp: hcore_def)
    next
      case (Cons y ys')
      obtain k2 v where y: "y = (k2, v)" by force
      have v using False unfolding Cons y by (cases v) auto
      then show ?thesis using core by (simp add: Cons y hcore_def blocks_simp)
    qed
    then have "plug_fwd (blen xs) m = m" by (simp add: plug_fwd_def hd MEM_ISUSED_def)
    moreover have "join_next k ys = (k, False) # ys"
      using False by (auto simp: join_next_def split: list.splits bool.splits)
    ultimately show ?thesis using assms by simp
  qed
qed

lemma plug_bwd_ok:
  assumes "hrep m (xs @ (k, False) # ys)"
  shows "hrep (plug_bwd (blen xs) m) (join_prev xs ((k, False) # ys))
    \<and> bytes (plug_bwd (blen xs) m) = bytes m"
proof -
  have core: "hcore m (xs @ (k, False) # ys)" and lf: "lfree m = ffree 0 (xs @ (k, False) # ys)"
    using assms by (auto simp: hrep_def)
  have hd: "it_prev (items m (blen xs)) = blast 0 0 xs"
    using core by (auto simp: hcore_def blocks_simp)
  show ?thesis
  proof (cases xs rule: rev_cases)
    case Nil
    then have "plug_bwd (blen xs) m = m" using hd by (simp add: plug_bwd_def)
    then show ?thesis using assms Nil by (simp add: join_prev_def)
  next
    case (snoc xs' b)
    obtain k0 u where b: "b = (k0, u)" by force
    have pm: "it_prev (items m (blen xs' + k0)) = blen xs'" using hd by (simp add: snoc b blocks_simp)
    have p: "pool_ptr (items m (blen xs')) = (if u then MEM_USED else MEM_FREED)" "24 \<le> k0"
      "blen xs = blen xs' + k0"
      using core by (auto simp: snoc b hcore_def blocks_simp)
    show ?thesis
    proof (cases u)
      case True
      then have "plug_bwd (blen xs) m = m" by (simp add: plug_bwd_def pm p MEM_ISUSED_def Let_def)
      then show ?thesis using assms True by (simp add: join_prev_def snoc b)
    next
      case False
      have lf': "lfree m = ffree 0 (xs' @ [(k0, False)])" "lfree m \<noteq> blen xs' + k0"
        using lf p(2) core ffree_less [of xs' 0] False by (auto simp: blocks_simp hcore_def snoc b)
      then have "plug_bwd (blen xs) m = (let b = set_pool (blen xs' + k0) POOL_NULL m;
            c = set_next (blen xs') (it_next (items b (blen xs' + k0))) b
          in set_prev (it_next (items c (blen xs' + k0))) (blen xs') c)"
        using False p pm by (simp add: plug_bwd_def MEM_ISUSED_def Let_def)
      moreover have "hcore m (xs' @ (k0, False) # (k, False) # ys)"
        using core False by (simp add: snoc b)
      ultimately show ?thesis
        using join_hcore [of m xs' k0 k ys "blen xs'"] lf' False
        by (simp add: join_prev_def snoc b hrep_def blocks_simp)
    qed
  qed
qed

lemma join_next_head: obtains n zs where "join_next k ys = (n, False) # zs"
  by (cases ys; cases "snd (hd ys)") (auto simp: join_next_def split: prod.splits)

lemma noadj_bfree: "noadj (xs @ (k, True) # ys) \<Longrightarrow> noadj (bfree xs k ys)"
proof -
  assume na: "noadj (xs @ (k, True) # ys)"
  have tail: "noadj (join_next k ys) \<and> snd (hd (join_next k ys)) = False \<and> join_next k ys \<noteq> []"
    using na by (cases ys; cases "snd (hd ys)"; cases "tl ys")
      (auto simp: join_next_def blocks_simp split: prod.splits)
  then obtain n zs where jn: "join_next k ys = (n, False) # zs"
    by (cases "join_next k ys") auto
  have "noadj ((n', False) # zs)" for n' using tail by (cases zs) (auto simp: jn)
  then show ?thesis
    using na tail
    by (cases xs rule: rev_cases; cases "snd (last xs)")
      (auto simp: bfree_def join_prev_def jn blocks_simp split: prod.splits)
qed

text \<open>The refinement step for freeing a block in use.\<close>

lemma free_ok:
  assumes "hinv m (xs @ (k, True) # ys)"
  shows "hinv (rt_smem_free m (Some (blen xs + 16))) (bfree xs k ys)
    \<and> bytes (rt_smem_free m (Some (blen xs + 16))) = bytes m"
proof -
  let ?a = "blen xs" let ?bs = "xs @ (k, False) # ys"
  have core: "hcore m (xs @ (k, True) # ys)" and lf: "lfree m = ffree 0 (xs @ (k, True) # ys)"
    and na: "noadj (xs @ (k, True) # ys)"
    using assms by (auto simp: hinv_def hrep_def)
  have hd: "it_next (items m ?a) = ?a + k" "it_prev (items m ?a) = blast 0 0 xs" "24 \<le> k"
    and lt: "?a + k + blen ys + 16 < 2 ^ 32" and us: "used m = bused xs + k + bused ys"
    and bu: "bused xs + k + bused ys < 2 ^ 32"
    using core bused_le [of xs] bused_le [of ys] by (auto simp: hcore_def blocks_simp)
  define m3 where "m3 = m\<lparr>items := (items m)(?a := (items m ?a)\<lparr>pool_ptr := MEM_FREED\<rparr>),
      lfree := (if ?a < lfree m then ?a else lfree m), used := used m - k\<rparr>"
  have "sub32 (?a + 16) 16 = ?a" "sub32 (?a + k) ?a = k" "sub32 (used m) k = used m - k"
    using lt us bu by (simp_all add: wrap32)
  then have free: "rt_smem_free m (Some (?a + 16)) = plug_holes ?a m3"
    by (simp add: rt_smem_free_def Let_def hd m3_def set_pool_def)
  have i3: "items m3 ?a = \<lparr>pool_ptr = MEM_FREED, it_next = ?a + k, it_prev = blast 0 0 xs\<rparr>"
    "\<And>x. x \<noteq> ?a \<Longrightarrow> items m3 x = items m x"
    by (rule rt_small_mem_item.equality) (simp_all add: m3_def hd)
  have "lseg (items m3) 0 0 ?bs"
    by (rule lseg_take [of "items m" 0 xs k True ys ?a])
      (use core i3 in \<open>simp_all add: hcore_def\<close>)
  then have "hcore m3 ?bs"
    using core i3 hd us by (auto simp: hcore_def) (simp_all add: m3_def)
  moreover have "lfree m3 = ffree 0 ?bs"
  proof (cases "list_all snd xs")
    case True
    then show ?thesis using lf ffree_ge [of "?a + k" ys] hd(3) by (simp add: m3_def blocks_simp)
  next
    case False
    then have "ffree 0 xs < ?a" using ffree_less [of xs 0] core by (simp add: hcore_def)
    then show ?thesis using lf False by (simp add: m3_def blocks_simp)
  qed
  ultimately have "hrep m3 ?bs" by (simp add: hrep_def)
  from plug_fwd_ok [OF this] have 1: "hrep (plug_fwd ?a m3) (xs @ join_next k ys)"
    "bytes (plug_fwd ?a m3) = bytes m" by (auto simp: m3_def)
  obtain n zs where jn: "join_next k ys = (n, False) # zs"
    by (rule join_next_head)
  have "hrep (plug_holes ?a m3) (bfree xs k ys) \<and> bytes (plug_holes ?a m3) = bytes m"
    using plug_bwd_ok [of "plug_fwd ?a m3" xs n zs] 1 by (simp add: jn plug_holes_def bfree_def)
  then show ?thesis using noadj_bfree [OF na] by (simp add: free hinv_def)
qed

section \<open>Live blocks\<close>

text \<open>The user blocks in use: first byte and length.\<close>

fun blive :: "nat \<Rightarrow> blocks \<Rightarrow> (nat \<times> nat) set" where
  "blive a [] = {}"
| "blive a ((n, u) # bs) = (if u then {(a + 16, n - 16)} else {}) \<union> blive (a + n) bs"

definition heap_live :: "rt_small_mem \<Rightarrow> (nat \<times> nat) set \<Rightarrow> bool" where
  "heap_live m L \<longleftrightarrow> (\<exists>bs. hinv m bs \<and> L = blive 0 bs)"

lemma blive_append [blocks_simp]: "blive a (xs @ ys) = blive a xs \<union> blive (a + blen xs) ys"
  by (induction a xs rule: blive.induct) (auto simp: add.assoc)

lemma blive_bounds: "(p, n) \<in> blive a bs \<Longrightarrow> bwf bs \<Longrightarrow> a + 16 \<le> p \<and> p + n \<le> a + blen bs \<and> 8 \<le> n"
  by (induction a bs rule: blive.induct) (fastforce split: if_splits)+

lemma blive_aligned: "(p, n) \<in> blive a bs \<Longrightarrow> bwf bs \<Longrightarrow> 8 dvd a \<Longrightarrow> 8 dvd p"
  by (induction a bs rule: blive.induct) (auto split: if_splits)

lemma blive_split:
  "(p, n) \<in> blive a bs \<Longrightarrow> \<exists>xs k ys. bs = xs @ (k, True) # ys \<and> p = a + blen xs + 16 \<and> n = k - 16"
proof (induction a bs rule: blive.induct)
  case (2 a k u bs)
  show ?case
  proof (cases "(p, n) \<in> blive (a + k) bs")
    case True
    then obtain xs k' ys where "bs = xs @ (k', True) # ys" "p = a + k + blen xs + 16" "n = k' - 16"
      using "2.IH" by blast
    then show ?thesis by (intro exI [of _ "(k, u) # xs"] exI [of _ k'] exI [of _ ys]) auto
  next
    case False
    then show ?thesis using "2.prems" by (intro exI [of _ "[]"]) (auto split: if_splits)
  qed
qed simp

lemma blive_disjoint:
  "(p, n) \<in> blive a bs \<Longrightarrow> (q, k) \<in> blive a bs \<Longrightarrow> (p, n) \<noteq> (q, k) \<Longrightarrow> bwf bs
   \<Longrightarrow> p + n + 16 \<le> q \<or> q + k + 16 \<le> p"
proof (induction a bs rule: blive.induct)
  case (2 a m u bs)
  have b: "x \<in> blive (a + m) bs \<Longrightarrow> a + m + 16 \<le> fst x" for x
    using blive_bounds [of "fst x" "snd x" "a + m" bs] "2.prems"(4) by simp
  show ?case
    using 2 b [of "(p, n)"] b [of "(q, k)"] by (auto split: if_splits)
qed simp

lemma blive_free:
  assumes "bwf (xs @ (k, True) # ys)"
  shows "blive 0 (bfree xs k ys) = blive 0 (xs @ (k, True) # ys) - {(blen xs + 16, k - 16)}"
proof -
  have jn: "blive a (join_next k ys) = blive (a + k) ys" for a
    by (cases ys; cases "snd (hd ys)") (auto simp: join_next_def add.assoc split: prod.splits)
  obtain n zs where zs: "join_next k ys = (n, False) # zs" by (rule join_next_head)
  have "blive 0 (bfree xs k ys) = blive 0 xs \<union> blive (blen xs) (join_next k ys)"
    by (cases xs rule: rev_cases; cases "snd (last xs)")
      (auto simp: bfree_def join_prev_def zs blocks_simp add.assoc split: prod.splits)
  moreover have "(blen xs + 16, k - 16) \<notin> blive 0 xs \<union> blive (blen xs + k) ys"
    using assms blive_bounds [of "blen xs + 16" "k - 16" 0 xs]
      blive_bounds [of "blen xs + 16" "k - 16" "blen xs + k" ys] by auto
  ultimately show ?thesis by (auto simp: blocks_simp jn)
qed

lemma blive_bcut:
  assumes "16 \<le> n" "n + 16 \<le> k"
  obtains len where "n \<le> len" "blive 0 (xs @ bcut n k @ ys)
    = insert (blen xs + 16, len) (blive 0 (xs @ (k, False) # ys))"
  using assms that [of n] that [of "k - 16"]
  by (cases "n + 48 \<le> k") (auto simp: bcut_def blocks_simp)

lemma hinv_wf: "hinv m bs \<Longrightarrow> bwf bs"
  by (simp add: hinv_def hrep_def hcore_def)

lemma heap_live_disjoint:
  "heap_live m L \<Longrightarrow> (p, n) \<in> L \<Longrightarrow> (q, k) \<in> L \<Longrightarrow> (p, n) \<noteq> (q, k) \<Longrightarrow> p + n \<le> q \<or> q + k \<le> p"
  using blive_disjoint hinv_wf unfolding heap_live_def by fastforce

lemma heap_live_alloc:
  assumes "heap_live m L" "0 < n" "n < 2 ^ 32 - 7"
  shows "\<exists>r m'. rt_smem_alloc m n = Some (r, m') \<and> bytes m' = bytes m \<and> (case r of
      None \<Rightarrow> m' = m
    | Some p \<Rightarrow> \<exists>len. n \<le> len \<and> (p, len) \<notin> L \<and> heap_live m' (insert (p, len) L))"
proof -
  obtain bs where bs: "hinv m bs" "L = blive 0 bs" using assms(1) by (auto simp: heap_live_def)
  note a = alloc_ok [OF bs(1) assms(2,3)]
  note r = smem_round_bounds [OF assms(3,2)]
  show ?thesis
  proof (cases "balloc (smem_round n) bs")
    case None
    then show ?thesis using a by simp
  next
    case (Some ob)
    obtain off bs' where ob: "ob = (off, bs')" by force
    obtain m' where m': "rt_smem_alloc m n = Some (Some (off + 16), m')" "hinv m' bs'" "bytes m' = bytes m"
      using a by (auto simp: Some ob)
    obtain xs k ys where s: "bs = xs @ (k, False) # ys" "smem_round n + 16 \<le> k" "off = blen xs"
      "bs' = xs @ bcut (smem_round n) k @ ys"
      using balloc_split Some ob by blast
    obtain len where len: "smem_round n \<le> len" "blive 0 bs' = insert (blen xs + 16, len) L"
      using blive_bcut [OF r(2) s(2)] s bs(2) by metis
    have "(blen xs + 16, len) \<notin> L"
      using hinv_wf [OF bs(1)] blive_bounds [of "blen xs + 16" len 0 xs]
        blive_bounds [of "blen xs + 16" len "blen xs + k" ys]
      by (auto simp: bs(2) s(1) blocks_simp)
    then have "n \<le> len \<and> (off + 16, len) \<notin> L \<and> heap_live m' (insert (off + 16, len) L)"
      using len r(1) m'(2) s(3) unfolding heap_live_def by auto
    with m' show ?thesis by auto
  qed
qed

lemma heap_live_free:
  assumes "heap_live m L" "(p, n) \<in> L"
  shows "heap_live (rt_smem_free m (Some p)) (L - {(p, n)})"
    and "bytes (rt_smem_free m (Some p)) = bytes m"
proof -
  obtain bs where bs: "hinv m bs" "L = blive 0 bs" using assms(1) by (auto simp: heap_live_def)
  obtain xs k ys where s: "bs = xs @ (k, True) # ys" "p = blen xs + 16" "n = k - 16"
    using blive_split assms(2) bs(2) by fastforce
  note f = free_ok [OF bs(1) [unfolded s(1)]]
  have "bwf (xs @ (k, True) # ys)" using hinv_wf [OF bs(1)] s(1) by simp
  from blive_free [OF this] f show "heap_live (rt_smem_free m (Some p)) (L - {(p, n)})"
    unfolding heap_live_def s(2,3) bs(2) by (metis s(1))
  show "bytes (rt_smem_free m (Some p)) = bytes m" using f s(2) by simp
qed

section \<open>Resizing\<close>

lemma RT_ALIGN_bounds:
  assumes "n < 2 ^ 32 - 7" "0 < n"
  shows "n \<le> unat (RT_ALIGN (of_nat n) RT_ALIGN_SIZE)" "8 dvd unat (RT_ALIGN (of_nat n) RT_ALIGN_SIZE)"
    "8 \<le> unat (RT_ALIGN (of_nat n) RT_ALIGN_SIZE)" "unat (RT_ALIGN (of_nat n) RT_ALIGN_SIZE) < n + 8"
proof -
  have "unat (of_nat n :: u32) = n" using assms by (simp add: unat_of_nat)
  then have "unat (RT_ALIGN (of_nat n) RT_ALIGN_SIZE) = (n + 7) div 8 * 8"
    using assms by (simp add: rt_const unat_RT_ALIGN)
  then show "n \<le> unat (RT_ALIGN (of_nat n) RT_ALIGN_SIZE)"
    "8 dvd unat (RT_ALIGN (of_nat n) RT_ALIGN_SIZE)"
    "8 \<le> unat (RT_ALIGN (of_nat n) RT_ALIGN_SIZE)" "unat (RT_ALIGN (of_nat n) RT_ALIGN_SIZE) < n + 8"
    using assms(2) by simp_all
qed

text \<open>Shrinking in place: the tail becomes a free block, joined with a free successor.\<close>

lemma realloc_shrink:
  assumes "hinv m (xs @ (k, True) # ys)" "8 dvd s" "8 \<le> s" "s + 44 < k"
    and "ptr2 = blen xs + (s + 16)"
    and "d = smem_split (blen xs) ptr2 (m\<lparr>used := used m - (k - 16 - s)\<rparr>)"
    and "e = (if ptr2 < lfree d then d\<lparr>lfree := ptr2\<rparr> else d)"
  shows "hinv (plug_holes ptr2 e) (xs @ (s + 16, True) # join_next (k - (s + 16)) ys)
    \<and> bytes (plug_holes ptr2 e) = bytes m"
proof -
  let ?m = "m\<lparr>used := used m - (k - 16 - s)\<rparr>" let ?n = "s + 16" let ?k2 = "k - (s + 16)"
  let ?bs' = "(xs @ [(?n, True)]) @ (?k2, False) # ys"
  have core: "hcore m (xs @ (k, True) # ys)" and lf: "lfree m = ffree 0 (xs @ (k, True) # ys)"
    and na: "noadj (xs @ (k, True) # ys)"
    using assms(1) by (auto simp: hinv_def hrep_def)
  have us: "used m = bused xs + k + bused ys" and up: "pool_ptr (items m (blen xs)) = MEM_USED"
    and wf: "8 dvd k" "bwf xs" "bwf ys"
    using core by (auto simp: hcore_def blocks_simp)
  have same: "items (set_pool (blen xs) MEM_USED (smem_split (blen xs) ptr2 m)) = items d"
    using up assms(4,5) by (auto simp: assms(6) smem_split_def Let_def fun_eq_iff
        intro!: rt_small_mem_item.equality)
  note sp = smem_split_hcore [OF core _ _ _ _ refl, of ?n, folded assms(5), unfolded same]
  have dsel: "heap_end d = heap_end m" "mem_size_aligned d = mem_size_aligned m"
    "used d = used m - (k - 16 - s)" "lfree d = lfree m" "bytes d = bytes m"
    by (simp_all add: assms(6) smem_split_def Let_def)
  have "8 dvd k - (s + 16)" using wf assms(2,4) by (simp add: dvd_diff_nat)
  then have cd: "hcore d ?bs'"
    using core sp(1-3) assms(2-4) us by (auto simp: hcore_def dsel)
  then have ce: "hcore e ?bs'" by (auto simp: hcore_def assms(7))
  have "lfree e = ffree 0 ?bs'"
  proof (cases "list_all snd xs")
    case True
    then show ?thesis
      using lf ffree_ge [of "blen xs + k" ys] assms(4,5)
      by (auto simp: assms(7) dsel blocks_simp)
  next
    case False
    then have "ffree 0 xs < blen xs" using ffree_less [OF wf(2), of 0] by simp
    then show ?thesis using lf False assms(5) by (auto simp: assms(7) dsel blocks_simp)
  qed
  then have "hrep e ?bs'" using ce by (simp add: hrep_def)
  from plug_fwd_ok [OF this]
  have 1: "hrep (plug_fwd ptr2 e) ((xs @ [(?n, True)]) @ join_next ?k2 ys)"
    "bytes (plug_fwd ptr2 e) = bytes m"
    using assms(5) by (auto simp: assms(7) dsel)
  obtain n zs where jn: "join_next ?k2 ys = (n, False) # zs" by (rule join_next_head)
  have "noadj (join_next ?k2 ys)"
    using na by (cases ys; cases "snd (hd ys)"; cases "tl ys")
      (auto simp: join_next_def blocks_simp split: prod.splits)
  then have "noadj (xs @ (?n, True) # join_next ?k2 ys)"
    using na by (simp add: blocks_simp jn)
  moreover have "join_prev (xs @ [(?n, True)]) (join_next ?k2 ys) = xs @ (?n, True) # join_next ?k2 ys"
    by (simp add: join_prev_def)
  ultimately show ?thesis
    using plug_bwd_ok [of "plug_fwd ptr2 e" "xs @ [(?n, True)]" n zs] 1 assms(5)
    by (simp add: hinv_def plug_holes_def jn)
qed

lemma blive_shrink:
  assumes "bwf (xs @ (k, True) # ys)" "s + 16 < k"
  shows "blive 0 (xs @ (s + 16, True) # join_next (k - (s + 16)) ys)
    = insert (blen xs + 16, s) (blive 0 (xs @ (k, True) # ys) - {(blen xs + 16, k - 16)})"
proof -
  have jn: "blive a (join_next j ys) = blive (a + j) ys" for a j
    by (cases ys; cases "snd (hd ys)") (auto simp: join_next_def add.assoc split: prod.splits)
  have "(blen xs + 16, k - 16) \<notin> blive 0 xs \<union> blive (blen xs + k) ys"
    using assms blive_bounds [of "blen xs + 16" "k - 16" 0 xs]
      blive_bounds [of "blen xs + 16" "k - 16" "blen xs + k" ys] by auto
  then show ?thesis using assms(2) by (auto simp: blocks_simp jn)
qed

lemma heap_live_bytes: "heap_live m L \<Longrightarrow> heap_live (m\<lparr>bytes := b\<rparr>) L"
  unfolding heap_live_def hinv_def hrep_def hcore_def by simp

lemma heap_live_realloc:
  assumes "heap_live m L" "(r, len) \<in> L" "0 < n" "n < 2 ^ 32 - 7"
  shows "\<exists>q m'. rt_smem_realloc m (Some r) n = Some (q, m') \<and> (case q of
      None \<Rightarrow> m' = m
    | Some p \<Rightarrow> \<exists>len'. n \<le> len' \<and> heap_live m' (insert (p, len') (L - {(r, len)}))
        \<and> (\<forall>i < min n len. bytes m' (p + i) = bytes m (r + i)))"
proof -
  obtain bs where bs: "hinv m bs" "L = blive 0 bs" using assms(1) by (auto simp: heap_live_def)
  obtain xs k ys where s: "bs = xs @ (k, True) # ys" "r = blen xs + 16" "len = k - 16"
    using blive_split assms(2) bs(2) by fastforce
  let ?s = "unat (RT_ALIGN (of_nat n) RT_ALIGN_SIZE)"
  note al = RT_ALIGN_bounds [OF assms(4,3)]
  have core: "hcore m (xs @ (k, True) # ys)" using bs(1) s(1) by (simp add: hinv_def hrep_def)
  have hd: "it_next (items m (blen xs)) = blen xs + k" "24 \<le> k"
    and lt: "blen xs + k + blen ys + 16 < 2 ^ 32" "bused xs + k + bused ys < 2 ^ 32"
    and us: "used m = bused xs + k + bused ys"
    and msz: "blen xs + k + blen ys = mem_size_aligned m + 16"
    using core bused_le [of xs] bused_le [of ys] by (auto simp: hcore_def blocks_simp)
  have wf: "bwf (xs @ (k, True) # ys)" using hinv_wf [OF bs(1)] s(1) by simp
  have ar: "sub32 r 16 = blen xs" "sub32 (blen xs + k) (blen xs) = k" "sub32 k 16 = k - 16"
    using lt hd(2) s(2) by (simp_all add: wrap32)
  consider "?s > mem_size_aligned m" | "?s \<le> mem_size_aligned m" "k - 16 = ?s"
    | "?s \<le> mem_size_aligned m" "?s + 28 < k - 16"
    | "?s \<le> mem_size_aligned m" "k - 16 \<noteq> ?s" "\<not> ?s + 28 < k - 16" by linarith
  then show ?thesis
  proof cases
    case 1
    then show ?thesis by (simp add: rt_smem_realloc_def)
  next
    case 2
    have "rt_smem_realloc m (Some r) n = Some (Some r, m)"
      using 2 al by (simp add: rt_smem_realloc_def Let_def hd ar)
    moreover have "insert (r, len) (L - {(r, len)}) = L" using assms(2) by auto
    ultimately show ?thesis using assms(1) 2 al(1) s(3) by auto
  next
    case 3
    have ar3: "add32 (add32 ?s 16) 12 = ?s + 28" "sub32 (k - 16) ?s = k - 16 - ?s"
      "add32 (add32 (blen xs) 16) ?s = blen xs + (?s + 16)" 
      "sub32 (used m) (k - (16 + ?s)) = used m - (k - 16 - ?s)"
      using 3 lt us by (simp_all add: wrap32)
    define d where "d = smem_split (blen xs) (blen xs + (?s + 16)) (m\<lparr>used := used m - (k - 16 - ?s)\<rparr>)"
    define e where "e = (if blen xs + (?s + 16) < lfree d then d\<lparr>lfree := blen xs + (?s + 16)\<rparr> else d)"
    have call: "rt_smem_realloc m (Some r) n = Some (Some r, plug_holes (blen xs + (?s + 16)) e)"
      using 3 al by (simp add: rt_smem_realloc_def Let_def hd ar ar3 d_def e_def)
    have "?s + 44 < k" using 3 by simp
    note sh = realloc_shrink [OF bs(1) [unfolded s(1)] al(2,3) this refl d_def e_def]
    have "heap_live (plug_holes (blen xs + (?s + 16)) e) (insert (r, ?s) (L - {(r, len)}))"
      unfolding heap_live_def using sh blive_shrink [OF wf, of ?s] 3 by (auto simp: bs(2) s)
    then show ?thesis using call al(1) sh by auto
  next
    case 4
    have cond: "\<not> add32 (add32 ?s 16) 12 < k - 16" "0 < ?s" "?s < 2 ^ 32 - 7"
      using 4 lt msz al(3) by (auto simp: wrap32)
    obtain q m1 where q: "rt_smem_alloc m ?s = Some (q, m1)" "bytes m1 = bytes m" "case q of
        None \<Rightarrow> m1 = m
      | Some p \<Rightarrow> \<exists>len'. ?s \<le> len' \<and> (p, len') \<notin> L \<and> heap_live m1 (insert (p, len') L)"
      using heap_live_alloc [OF assms(1) cond(2,3)] by blast
    let ?c = "if k - 16 < ?s then k - 16 else ?s"
    have call: "rt_smem_realloc m (Some r) n = (case q of None \<Rightarrow> Some (None, m1)
      | Some p \<Rightarrow> Some (Some p, rt_smem_free (m1\<lparr>bytes := snd (memcpy (bytes m1) p r ?c)\<rparr>) (Some r)))"
      using 4 cond al by (simp add: rt_smem_realloc_def Let_def hd ar q(1) split: option.split)
    show ?thesis
    proof (cases q)
      case None
      then show ?thesis using call q by simp
    next
      case (Some p)
      obtain len' where p: "?s \<le> len'" "(p, len') \<notin> L" "heap_live m1 (insert (p, len') L)"
        using q(3) Some by auto
      have dis: "p + len' \<le> r \<or> r + len \<le> p"
        using heap_live_disjoint [OF p(3), of p len' r len] assms(2) p(2) by auto
      let ?m2 = "m1\<lparr>bytes := snd (memcpy (bytes m1) p r ?c)\<rparr>"
      have "insert (p, len') L - {(r, len)} = insert (p, len') (L - {(r, len)})"
        using assms(2) p(2) by auto
      then have live: "heap_live (rt_smem_free ?m2 (Some r)) (insert (p, len') (L - {(r, len)}))"
        using heap_live_free(1) [OF heap_live_bytes [OF p(3)], of r len] assms(2) by simp
      have "bytes (rt_smem_free ?m2 (Some r)) = snd (memcpy (bytes m1) p r ?c)"
        using heap_live_free(2) [OF heap_live_bytes [OF p(3)], of r len] assms(2) by simp
      also have "\<dots> = blit (bytes m) p r ?c"
        using dis s(3) p(1) by (auto simp: memcpy_def memcpy_loop_eq q(2))
      finally have "\<forall>i < min n len. bytes (rt_smem_free ?m2 (Some r)) (p + i) = bytes m (r + i)"
        using al(1) s(3) by (auto simp: blit_def)
      moreover have "n \<le> len'" using p(1) al(1) by linarith
      ultimately show ?thesis using call Some live by auto
    qed
  qed
qed

section \<open>Initialisation\<close>

lemma smem_init_ok:
  assumes "rt_smem_init b sz = Some (a, m)" "unat b + unat sz < 2 ^ 32" "unat b + 72 < 2 ^ 32"
    and "8 \<le> mem_size_aligned m"
  shows "hinv m [(mem_size_aligned m + 16, False)]"
    and "unat b + 56 \<le> unat a" "8 dvd unat a" "unat a + mem_size_aligned m + 32 \<le> unat b + unat sz"
proof -
  let ?s = "RT_ALIGN b 8 + 56 :: u32" let ?e = "RT_ALIGN_DOWN (b + sz) 8"
  have ab: "unat (RT_ALIGN b 8) = (unat b + 7) div 8 * 8"
    using assms(3) by (simp add: unat_RT_ALIGN)
  have s: "unat ?s = (unat b + 7) div 8 * 8 + 56"
    using assms(3) by (simp add: unat_word_ariths ab)
  have be: "unat (RT_ALIGN ?s 8) = (unat b + 7) div 8 * 8 + 56"
  proof -
    have "(unat b + 7) div 8 * 8 + 56 + 7 < 2 ^ 32" using assms(3) by linarith
    then show ?thesis unfolding unat_RT_ALIGN s by simp
  qed
  have e: "unat ?e = (unat b + unat sz) div 8 * 8"
    using assms(2) by (simp add: unat_RT_ALIGN_DOWN unat_word_ariths)
  have cond: "?e > 32" "?e - 32 \<ge> ?s" and res: "a = RT_ALIGN ?s 8"
    "mem_size_aligned m = unat (?e - RT_ALIGN ?s 8 - 32)"
    "heap_end m = add32 (mem_size_aligned m) 16" "lfree m = 0" "used m = 0"
    "add32 (mem_size_aligned m) 16 \<noteq> 0 \<Longrightarrow> items m 0
       = \<lparr>pool_ptr = MEM_FREED, it_next = add32 (mem_size_aligned m) 16, it_prev = 0\<rparr>"
    "pool_ptr (items m (add32 (mem_size_aligned m) 16)) = MEM_USED"
    "it_next (items m (add32 (mem_size_aligned m) 16)) = add32 (mem_size_aligned m) 16"
    using assms(1)
    by (auto simp: rt_smem_init_def rt_const SIZEOF_SMALL_MEM_def Let_def split: if_splits)
  have gt: "32 < unat ?e" using cond(1) by (simp add: word_less_nat_alt)
  then have "unat (?e - 32) = unat ?e - 32"
    by (subst unat_sub) (simp_all add: word_le_nat_alt)
  then have ge: "unat ?s + 32 \<le> unat ?e"
    using cond(2) gt by (simp add: word_le_nat_alt)
  have "unat (?e - RT_ALIGN ?s 8) = unat ?e - unat (RT_ALIGN ?s 8)"
    using ge be s by (subst unat_sub) (simp_all add: word_le_nat_alt)
  then have "unat (?e - RT_ALIGN ?s 8 - 32) = unat ?e - unat (RT_ALIGN ?s 8) - 32"
    using ge be s by (subst unat_sub) (simp_all add: word_le_nat_alt)
  then have ms: "mem_size_aligned m + ((unat b + 7) div 8 * 8 + 56) + 32 = (unat b + unat sz) div 8 * 8"
    using res(2) ge s by (simp add: be e)
  have dv: "8 dvd mem_size_aligned m"
    using ms by presburger
  have lt: "mem_size_aligned m + 32 < 2 ^ 32" using ms assms(2) by linarith
  then have "add32 (mem_size_aligned m) 16 = mem_size_aligned m + 16" by (simp add: wrap32)
  then show "hinv m [(mem_size_aligned m + 16, False)]"
    using lt dv assms(4) res(3-8) by (simp add: hinv_def hrep_def hcore_def)
  show "unat b + 56 \<le> unat a" "8 dvd unat a" using res(1) be by simp_all
  show "unat a + mem_size_aligned m + 32 \<le> unat b + unat sz"
    using ms by (simp add: res(1) be)
qed

section \<open>The allocator contract\<close>

text \<open>
  What the clients of the heap (object creation, memory pools, drivers) rely on: the heap \<open>h\<close> has
  the live blocks \<open>L\<close>, each a start and a length.
\<close>

locale allocator =
  fixes live :: "'h \<Rightarrow> (nat \<times> nat) set \<Rightarrow> bool"
    and alloc :: "'h \<Rightarrow> nat \<Rightarrow> (nat option \<times> 'h) option"
    and free :: "'h \<Rightarrow> nat option \<Rightarrow> 'h"
    and limit :: nat
  assumes disjoint: "live h L \<Longrightarrow> (p, n) \<in> L \<Longrightarrow> (q, k) \<in> L \<Longrightarrow> (p, n) \<noteq> (q, k)
      \<Longrightarrow> p + n \<le> q \<or> q + k \<le> p"
    and alloc_step: "live h L \<Longrightarrow> 0 < n \<Longrightarrow> n < limit \<Longrightarrow>
      \<exists>r h'. alloc h n = Some (r, h') \<and> (case r of None \<Rightarrow> h' = h
        | Some p \<Rightarrow> \<exists>len. n \<le> len \<and> (p, len) \<notin> L \<and> live h' (insert (p, len) L))"
    and free_step: "live h L \<Longrightarrow> (p, n) \<in> L \<Longrightarrow> live (free h (Some p)) (L - {(p, n)})"
begin

lemma alloc_returns: "live h L \<Longrightarrow> 0 < n \<Longrightarrow> n < limit \<Longrightarrow> alloc h n \<noteq> None"
  by (drule (2) alloc_step) auto

lemma alloc_new:
  assumes "live h L" "0 < n" "n < limit" "alloc h n = Some (Some p, h')"
  obtains len where "n \<le> len" "(p, len) \<notin> L" "live h' (insert (p, len) L)"
  using alloc_step [OF assms(1-3)] assms(4) by auto

text \<open>A new block overlaps no live one.\<close>

lemma alloc_fresh:
  assumes "live h L" "0 < n" "n < limit" "alloc h n = Some (Some p, h')" "(q, k) \<in> L"
  shows "p + n \<le> q \<or> q + k \<le> p"
proof -
  obtain len where l: "n \<le> len" "(p, len) \<notin> L" "live h' (insert (p, len) L)"
    using alloc_new [OF assms(1-4)] by blast
  then have "p + len \<le> q \<or> q + k \<le> p" using disjoint [OF l(3), of p len q k] assms(5) by auto
  with l(1) show ?thesis by auto
qed

lemma free_alloc:
  assumes "live h L" "0 < n" "n < limit" "alloc h n = Some (Some p, h')"
  shows "live (free h' (Some p)) L"
proof -
  obtain len where l: "(p, len) \<notin> L" "live h' (insert (p, len) L)"
    using alloc_new [OF assms] by blast
  then have "insert (p, len) L - {(p, len)} = L" by auto
  then show ?thesis using free_step [OF l(2), of p len] by simp
qed

text \<open>Two allocations in a row return blocks that do not overlap.\<close>

lemma alloc_twice:
  assumes "live h L" "0 < n" "n < limit" "alloc h n = Some (Some p, h1)"
    and "0 < k" "k < limit" "alloc h1 k = Some (Some q, h2)"
  shows "q + k \<le> p \<or> p + n \<le> q"
proof -
  obtain len where l: "n \<le> len" "live h1 (insert (p, len) L)"
    using alloc_new [OF assms(1-4)] by blast
  then show ?thesis using alloc_fresh [OF l(2) assms(5-7), of p len] by auto
qed

end

interpretation smem: allocator heap_live rt_smem_alloc rt_smem_free "2 ^ 32 - 7"
proof
  fix h L and p n q k :: nat
  show "heap_live h L \<Longrightarrow> (p, n) \<in> L \<Longrightarrow> (q, k) \<in> L \<Longrightarrow> (p, n) \<noteq> (q, k)
      \<Longrightarrow> p + n \<le> q \<or> q + k \<le> p"
    by (rule heap_live_disjoint)
next
  fix h L n
  assume "heap_live h L" "0 < n" "n < 2 ^ 32 - (7::nat)"
  from heap_live_alloc [OF this] show "\<exists>r h'. rt_smem_alloc h n = Some (r, h') \<and>
    (case r of None \<Rightarrow> h' = h | Some p \<Rightarrow> \<exists>len. n \<le> len \<and> (p, len) \<notin> L \<and> heap_live h' (insert (p, len) L))"
    by blast
next
  fix h L and p n :: nat
  assume "heap_live h L" "(p, n) \<in> L"
  then show "heap_live (rt_smem_free h (Some p)) (L - {(p, n)})" by (rule heap_live_free)
qed

section \<open>What the heap promises\<close>

text \<open>A small heap to instantiate the properties on: 256 bytes at the start of the RAM.\<close>

definition demo_heap :: rt_small_mem where
  "demo_heap = snd (the (rt_system_heap_init 0x10000000 0x10000100))"

lemma demo_init: "rt_smem_init 0x10000000 256 = Some (0x10000038, demo_heap)"
  by (simp add: demo_heap_def rt_system_heap_init_def rt_smem_init_def Let_def rt_const
      RT_ALIGN_def RT_ALIGN_DOWN_def SIZEOF_SMALL_MEM_def word_less_nat_alt word_le_nat_alt)

lemma demo_size: "mem_size_aligned demo_heap = 168"
  by (simp add: demo_heap_def rt_system_heap_init_def rt_smem_init_def Let_def rt_const
      RT_ALIGN_def RT_ALIGN_DOWN_def SIZEOF_SMALL_MEM_def word_less_nat_alt word_le_nat_alt)

lemma demo_inv: "hinv demo_heap [(184, False)]"
  using smem_init_ok(1) [OF demo_init] by (simp add: demo_size)

lemma demo_live: "heap_live demo_heap {}"
  unfolding heap_live_def using demo_inv by (intro exI [of _ "[(184, False)]"]) simp

text \<open>Initialising the system heap gives an empty heap that lies inside the given region, after
  its own control block, and is aligned.\<close>

theorem heap_init_sound:
  assumes "rt_smem_init b sz = Some (a, m)" "unat b + unat sz < 2 ^ 32" "unat b + 72 < 2 ^ 32"
    and "8 \<le> mem_size_aligned m"
  shows "heap_live m {} \<and> unat b + 56 \<le> unat a \<and> 8 dvd unat a
    \<and> unat a + mem_size_aligned m + 32 \<le> unat b + unat sz"
  using smem_init_ok [OF assms] unfolding heap_live_def by fastforce

theorem heap_init_sound_witness: "heap_live demo_heap {} \<and> unat (0x10000000 :: u32) + 56 \<le> unat (0x10000038 :: u32)"
  using heap_init_sound [OF demo_init] by (simp add: demo_size)

text \<open>C4. rt_malloc always returns; it refines first-fit allocation on the list of blocks: it fails
  exactly when no free block is long enough, otherwise it cuts the first such block and returns its
  user area, and the heap's headers, \<open>lfree\<close> and \<open>used\<close> agree with the new list.\<close>

theorem malloc_first_fit:
  assumes "hinv m bs" "0 < n" "n < 2 ^ 32 - 7"
  shows "case balloc (smem_round n) bs of
      None \<Rightarrow> rt_malloc m n = Some (None, m)
    | Some (off, bs') \<Rightarrow> \<exists>m'. rt_malloc m n = Some (Some (off + 16), m') \<and> hinv m' bs'
        \<and> bytes m' = bytes m"
  unfolding rt_malloc_def by (rule alloc_ok [OF assms])

theorem malloc_first_fit_witness:
  "\<exists>m'. rt_malloc demo_heap 20 = Some (Some 16, m') \<and> hinv m' [(40, True), (144, False)]"
proof -
  have "smem_round 20 = 24" by (simp add: smem_round_def unat_RT_ALIGN rt_const)
  then show ?thesis using malloc_first_fit [OF demo_inv, of 20] by (auto simp: bcut_def)
qed

text \<open>C17. rt_free of a block in use marks it free and joins it with a free neighbour on either side,
  so that no two free blocks ever stand side by side, and gives its bytes back to the statistics.\<close>

theorem free_joins_neighbours:
  assumes "hinv m (xs @ (k, True) # ys)"
  shows "hinv (rt_free m (Some (blen xs + 16))) (bfree xs k ys)"
  using free_ok [OF assms] by (simp add: rt_free_def)

theorem free_joins_neighbours_witness:
  "\<exists>m. hinv m [(40, True), (144, False)] \<and> hinv (rt_free m (Some 16)) [(184, False)]"
proof -
  obtain m where m: "hinv m ([] @ (40, True) # [(144, False)])"
  proof -
    have "smem_round 20 = 24" by (simp add: smem_round_def unat_RT_ALIGN rt_const)
    then show ?thesis using that alloc_ok [OF demo_inv, of 20] by (auto simp: bcut_def)
  qed
  then show ?thesis
    using free_joins_neighbours [OF m] by (auto simp: bfree_def join_next_def join_prev_def)
qed

text \<open>A block returned by rt_malloc overlaps no live block of the heap.\<close>

theorem malloc_disjoint:
  assumes "heap_live m L" "0 < n" "n < 2 ^ 32 - 7" "rt_malloc m n = Some (Some p, m')" "(q, k) \<in> L"
  shows "p + n \<le> q \<or> q + k \<le> p"
  using smem.alloc_fresh [OF assms(1-3) _ assms(5)] assms(4) by (simp add: rt_malloc_def)

theorem malloc_disjoint_witness:
  "\<exists>m m1 m2 p q. rt_malloc m 20 = Some (Some p, m1) \<and> rt_malloc m1 30 = Some (Some q, m2)
     \<and> (q + 30 \<le> p \<or> p + 20 \<le> q)"
proof -
  obtain m1 where m1: "rt_smem_alloc demo_heap 20 = Some (Some 16, m1)" "hinv m1 [(40, True), (144, False)]"
  proof -
    have "smem_round 20 = 24" by (simp add: smem_round_def unat_RT_ALIGN rt_const)
    then show ?thesis using that alloc_ok [OF demo_inv, of 20] by (auto simp: bcut_def)
  qed
  obtain m2 where m2: "rt_smem_alloc m1 30 = Some (Some 56, m2)"
  proof -
    have "smem_round 30 = 32" by (simp add: smem_round_def unat_RT_ALIGN rt_const)
    then show ?thesis using that alloc_ok [OF m1(2), of 30] by (auto simp: bcut_def)
  qed
  have "heap_live m1 {(16, 24)}"
    unfolding heap_live_def using m1(2) by (intro exI [of _ "[(40, True), (144, False)]"]) simp
  from malloc_disjoint [OF this, of 30 56 m2 16 24] m1 m2 show ?thesis
    by (intro exI [of _ demo_heap] exI [of _ m1] exI [of _ m2] exI [of _ 16] exI [of _ 56])
      (auto simp: rt_malloc_def)
qed



text \<open>No fragmentation outlives its blocks: whatever the history, once every block has been
  freed a request for the whole heap succeeds, at the first address.\<close>

theorem empty_heap_is_whole:
  assumes "heap_live m {}" "0 < n" "smem_round n \<le> mem_size_aligned m" "n < 2 ^ 32 - 7"
  shows "\<exists>m'. rt_malloc m n = Some (Some 16, m')"
proof -
  obtain bs where bs: "hinv m bs" "blive 0 bs = {}" using assms(1) by (auto simp: heap_live_def)
  have len: "blen bs = mem_size_aligned m + 16" and na: "noadj bs"
    using bs(1) by (auto simp: hinv_def hrep_def hcore_def)
  have "noadj bs \<Longrightarrow> blive a bs = {} \<Longrightarrow> bs \<noteq> [] \<Longrightarrow> \<exists>k. bs = [(k, False)]" for a
    by (induction bs arbitrary: a rule: noadj.induct) (auto split: if_splits)
  then obtain k where "bs = [(k, False)]" using na bs(2) len by (cases "bs = []") auto
  then have "balloc (smem_round n) bs \<noteq> None \<and> fst (the (balloc (smem_round n) bs)) = 0"
    using len assms(3) by simp
  then show ?thesis
    using alloc_ok [OF bs(1) assms(2,4)] unfolding rt_malloc_def by fastforce
qed

theorem empty_heap_is_whole_witness: "\<exists>m'. rt_malloc demo_heap 168 = Some (Some 16, m')"
proof -
  have "smem_round 168 = 168" by (simp add: smem_round_def unat_RT_ALIGN rt_const)
  then show ?thesis using empty_heap_is_whole [OF demo_live, of 168] by (simp add: demo_size)
qed

text \<open>A request of the last seven sizes below \<open>2 ^ 32\<close> does not fail: its rounding wraps to zero
  and the caller gets a block of the minimum size.\<close>

theorem malloc_wraps:
  assumes "2 ^ 32 - 7 \<le> n" "n < 2 ^ 32"
  shows "rt_malloc m n = rt_malloc m 1"
proof -
  have "unat (of_nat n :: u32) = n" using assms by (simp add: unat_of_nat)
  moreover have "(n + 7) mod 2 ^ 32 = n + 7 - 2 ^ 32" using assms by (simp add: mod_if)
  ultimately have "smem_round n = smem_round 1"
    using assms by (simp add: smem_round_def unat_RT_ALIGN rt_const)
  then show ?thesis using assms(1) by (simp add: rt_malloc_def rt_smem_alloc_def)
qed

theorem malloc_wraps_witness: "\<exists>m'. rt_malloc demo_heap (2 ^ 32 - 1) = Some (Some 16, m')"
proof -
  have "smem_round 1 = 16" by (simp add: smem_round_def unat_RT_ALIGN rt_const)
  then have "\<exists>m'. rt_malloc demo_heap 1 = Some (Some 16, m')"
    using alloc_ok [OF demo_inv, of 1] by (auto simp: bcut_def rt_malloc_def)
  then show ?thesis using malloc_wraps [of "2 ^ 32 - 1" demo_heap] by simp
qed

end
