(* ===== verification/RtList.thy ===== *)
theory RtList
  imports Prelude
begin

text \<open>
  The doubly linked rings of include/rtservice.h, on a memory of \<open>next\<close> and \<open>prev\<close> pointers. A ring
  represents the list of the nodes after its head; the kernel theories use that list in place of
  the pointers, which the refinement lemmas here justify.
\<close>

record list_mem =
  nxt :: "nat \<Rightarrow> nat"
  prv :: "nat \<Rightarrow> nat"

definition rt_list_init :: "nat \<Rightarrow> list_mem \<Rightarrow> list_mem" where
  "rt_list_init l m = m\<lparr>nxt := (nxt m)(l := l), prv := (prv m)(l := l)\<rparr>"

definition rt_list_insert_after :: "nat \<Rightarrow> nat \<Rightarrow> list_mem \<Rightarrow> list_mem" where
  "rt_list_insert_after l n m0 =
     (let m1 = m0\<lparr>prv := (prv m0)(nxt m0 l := n)\<rparr>;
          m2 = m1\<lparr>nxt := (nxt m1)(n := nxt m1 l)\<rparr>;
          m3 = m2\<lparr>nxt := (nxt m2)(l := n)\<rparr>
      in m3\<lparr>prv := (prv m3)(n := l)\<rparr>)"

definition rt_list_insert_before :: "nat \<Rightarrow> nat \<Rightarrow> list_mem \<Rightarrow> list_mem" where
  "rt_list_insert_before l n m0 =
     (let m1 = m0\<lparr>nxt := (nxt m0)(prv m0 l := n)\<rparr>;
          m2 = m1\<lparr>prv := (prv m1)(n := prv m1 l)\<rparr>;
          m3 = m2\<lparr>prv := (prv m2)(l := n)\<rparr>
      in m3\<lparr>nxt := (nxt m3)(n := l)\<rparr>)"

definition rt_list_remove :: "nat \<Rightarrow> list_mem \<Rightarrow> list_mem" where
  "rt_list_remove n m0 =
     (let m1 = m0\<lparr>prv := (prv m0)(nxt m0 n := prv m0 n)\<rparr>;
          m2 = m1\<lparr>nxt := (nxt m1)(prv m1 n := nxt m1 n)\<rparr>
      in m2\<lparr>nxt := (nxt m2)(n := n), prv := (prv m2)(n := n)\<rparr>)"

definition rt_list_isempty :: "nat \<Rightarrow> list_mem \<Rightarrow> bool" where
  "rt_list_isempty l m \<longleftrightarrow> nxt m l = l"

section \<open>Rings\<close>

fun links :: "list_mem \<Rightarrow> nat list \<Rightarrow> bool" where
  "links m (a # b # zs) \<longleftrightarrow> nxt m a = b \<and> prv m b = a \<and> links m (b # zs)"
| "links m zs \<longleftrightarrow> True"

definition ring :: "list_mem \<Rightarrow> nat \<Rightarrow> nat list \<Rightarrow> bool" where
  "ring m h xs \<longleftrightarrow> links m (h # xs @ [h]) \<and> distinct (h # xs)"

lemma links_append: "links m (xs @ a # b # ys) \<longleftrightarrow> links m (xs @ [a]) \<and> links m (a # b # ys)"
proof (induction xs)
  case (Cons x xs)
  then show ?case by (cases xs) auto
qed simp

lemma links_frame:
  assumes "links m zs" "\<forall>a\<in>set (butlast zs). nxt m' a = nxt m a" "\<forall>a\<in>set (tl zs). prv m' a = prv m a"
  shows "links m' zs"
  using assms
proof (induction m zs rule: links.induct)
  case (1 m a b zs)
  then have "links m' (b # zs)" by (intro "1.IH") (cases zs; auto)+
  then show ?case using 1 by simp
qed auto

lemma ring_Nil: "ring m h [] \<longleftrightarrow> nxt m h = h \<and> prv m h = h"
  by (auto simp: ring_def)

text \<open>Two adjacent nodes \<open>a\<close>, \<open>b\<close> of a ring, wherever they stand, get \<open>n\<close> between them.\<close>

lemma insert_between:
  assumes "links m (ps @ a # b # qs)" "n \<notin> set (ps @ a # b # qs)"
    and "distinct (ps @ [a])" "distinct (b # qs)" "a \<notin> set (butlast (b # qs))" "b \<notin> set (tl (ps @ [a]))"
    and "set (butlast (b # qs)) \<inter> set ps = {}"
    and "nxt m' = (nxt m)(n := b, a := n)" "prv m' = (prv m)(b := n, n := a)"
  shows "links m' (ps @ a # n # b # qs)"
proof -
  have l: "links m (ps @ [a])" "nxt m a = b" "prv m b = a" "links m (b # qs)"
    using assms(1) by (simp_all add: links_append)
  have "links m' (ps @ [a])"
  proof (rule links_frame [OF l(1)])
    show "\<forall>x\<in>set (butlast (ps @ [a])). nxt m' x = nxt m x" using assms(2,3,8) by auto
    have "x \<noteq> n" if "x \<in> set (tl (ps @ [a]))" for x
      using that assms(2) list.set_sel(2) [of "ps @ [a]" x] by auto
    then show "\<forall>x\<in>set (tl (ps @ [a])). prv m' x = prv m x" using assms(6,9) by auto
  qed
  moreover have "links m' (b # qs)"
  proof (rule links_frame [OF l(4)])
    show "\<forall>x\<in>set (tl (b # qs)). prv m' x = prv m x" using assms(2,4,9) by auto
    have "x \<noteq> n" if "x \<in> set (butlast (b # qs))" for x
      using in_set_butlastD [OF that] assms(2) by auto
    then show "\<forall>x\<in>set (butlast (b # qs)). nxt m' x = nxt m x" using assms(5,8) by auto
  qed
  moreover have "nxt m' a = n" "prv m' n = a" "nxt m' n = b" "prv m' b = n"
    using assms(2,8,9) by auto
  ultimately show ?thesis by (simp add: links_append)
qed

lemma insert_after_ring:
  assumes "ring m h xs" "n \<notin> set (h # xs)"
  shows "ring (rt_list_insert_after h n m) h (n # xs)"
proof -
  obtain b qs where q: "xs @ [h] = b # qs" by (cases "xs @ [h]") auto
  have bl: "butlast (b # qs) = xs" "set (b # qs) = insert h (set xs)" using q [symmetric] by auto
  have dq: "distinct (b # qs)" using assms(1) q [symmetric] by (auto simp: ring_def)
  have nx: "nxt m h = b" using assms(1) by (simp add: ring_def q)
  have ne: "n \<noteq> b" "n \<noteq> h" "h \<notin> set xs" using assms bl(2) by (auto simp: ring_def)
  have "links (rt_list_insert_after h n m) ([] @ h # n # b # qs)"
  proof (rule insert_between [of m])
    show "links m ([] @ h # b # qs)" using assms(1) by (simp add: ring_def q)
    show "nxt (rt_list_insert_after h n m) = (nxt m)(n := b, h := n)"
      "prv (rt_list_insert_after h n m) = (prv m)(b := n, n := h)"
      by (simp_all add: rt_list_insert_after_def Let_def nx)
  qed (use assms(2) bl dq ne in auto)
  then show ?thesis using assms q by (simp add: ring_def)
qed

lemma insert_before_ring:
  assumes "ring m h xs" "n \<notin> set (h # xs)"
  shows "ring (rt_list_insert_before h n m) h (xs @ [n])"
proof -
  obtain ps a where q: "h # xs = ps @ [a]" by (cases "h # xs" rule: rev_cases) auto
  have s: "set (ps @ [a]) = insert h (set xs)" "distinct (ps @ [a])" "tl (ps @ [a]) = xs"
    using q [symmetric] assms(1) by (auto simp: ring_def)
  have "h # xs @ [h] = ps @ a # h # []" using q by (metis append_Cons append_assoc append_Nil)
  then have l: "links m (ps @ a # h # [])" using assms(1) unfolding ring_def by metis
  then have pv: "prv m h = a" by (simp add: links_append)
  have "links (rt_list_insert_before h n m) (ps @ a # n # h # [])"
  proof (rule insert_between [of m])
    show "links m (ps @ a # h # [])" by (rule l)
    have "n \<noteq> h" "n \<noteq> a" using assms(2) s(1) by auto
    then show "nxt (rt_list_insert_before h n m) = (nxt m)(n := h, a := n)"
      "prv (rt_list_insert_before h n m) = (prv m)(h := n, n := a)"
      by (simp_all add: rt_list_insert_before_def Let_def pv fun_upd_twist)
    show "n \<notin> set (ps @ a # [h])" "h \<notin> set (tl (ps @ [a]))" "distinct (ps @ [a])"
      using assms s by (auto simp: ring_def)
  qed simp_all
  then have "links (rt_list_insert_before h n m) ((ps @ [a]) @ [n, h])" by simp
  then show ?thesis using assms by (simp add: ring_def q [symmetric])
qed

lemma remove_ring:
  assumes "ring m h (xs @ n # ys)"
  shows "ring (rt_list_remove n m) h (xs @ ys) \<and> ring (rt_list_remove n m) n []"
proof -
  let ?m = "rt_list_remove n m"
  obtain ps a where p: "h # xs = ps @ [a]" by (cases "h # xs" rule: rev_cases) auto
  obtain b qs where q: "ys @ [h] = b # qs" by (cases "ys @ [h]") auto
  have d: "distinct (h # xs @ n # ys)" using assms by (simp add: ring_def)
  have "links m ((h # xs) @ n # (ys @ [h]))" using assms by (simp add: ring_def)
  then have "links m (ps @ a # n # b # qs)" by (simp add: p q)
  then have l: "links m (ps @ [a])" "nxt m a = n" "prv m n = a" "nxt m n = b" "prv m b = n"
    "links m (b # qs)"
    by (simp_all add: links_append)
  have s: "set (ps @ [a]) = insert h (set xs)" "set (b # qs) = insert h (set ys)"
    "tl (ps @ [a]) = xs" "butlast (b # qs) = ys"
    using p [symmetric] q [symmetric] by auto
  have ne: "n \<noteq> a" "n \<noteq> b" "n \<notin> set (ps @ [a])" "n \<notin> set (b # qs)" using d s by auto
  have m': "nxt ?m = (nxt m)(a := b, n := n)" "prv ?m = (prv m)(b := a, n := n)"
    using ne l by (simp_all add: rt_list_remove_def Let_def)
  have "distinct (ps @ [a])" using d p [symmetric] by auto
  moreover have "b \<notin> set xs" using d s(2) q by (cases ys) auto
  ultimately have "links ?m (ps @ [a])"
    using ne s(3) m' d by (intro links_frame [OF l(1)]) auto
  moreover have "links ?m (b # qs)"
  proof (rule links_frame [OF l(6)])
    have "a \<notin> set ys" using d p by (cases xs rule: rev_cases) auto
    then show "\<forall>x\<in>set (butlast (b # qs)). nxt ?m x = nxt m x" using ne s(4) d by (auto simp: m')
    have "distinct (b # qs)" using d q [symmetric] by auto
    then show "\<forall>x\<in>set (tl (b # qs)). prv ?m x = prv m x" using ne by (auto simp: m')
  qed
  ultimately have "links ?m ((ps @ [a]) @ b # qs)" using ne by (simp add: links_append m')
  then have "links ?m (h # (xs @ ys) @ [h])" by (simp add: p [symmetric] q [symmetric])
  then show ?thesis using d by (simp add: ring_def m')
qed

lemma isempty_ring: "ring m h xs \<Longrightarrow> rt_list_isempty h m \<longleftrightarrow> xs = []"
  by (cases xs) (auto simp: ring_def rt_list_isempty_def)


definition demo_ring :: list_mem where
  "demo_ring = rt_list_insert_before 0 2 (rt_list_insert_before 0 1
     (rt_list_init 0 \<lparr>nxt = id, prv = id\<rparr>))"


end
