(* ===== verification/Ffs.thy ===== *)
theory Ffs
  imports Prelude
begin

text \<open>
  The find-first-set routine of kservice.c, which the scheduler uses to pick a priority: the byte
  table and the four-way case distinction, and the proof that together they find the least bit.
\<close>

definition lowest_bit_bitmap :: "nat list" where
  "lowest_bit_bitmap =
    [0, 0, 1, 0, 2, 0, 1, 0, 3, 0, 1, 0, 2, 0, 1, 0,
     4, 0, 1, 0, 2, 0, 1, 0, 3, 0, 1, 0, 2, 0, 1, 0,
     5, 0, 1, 0, 2, 0, 1, 0, 3, 0, 1, 0, 2, 0, 1, 0,
     4, 0, 1, 0, 2, 0, 1, 0, 3, 0, 1, 0, 2, 0, 1, 0,
     6, 0, 1, 0, 2, 0, 1, 0, 3, 0, 1, 0, 2, 0, 1, 0,
     4, 0, 1, 0, 2, 0, 1, 0, 3, 0, 1, 0, 2, 0, 1, 0,
     5, 0, 1, 0, 2, 0, 1, 0, 3, 0, 1, 0, 2, 0, 1, 0,
     4, 0, 1, 0, 2, 0, 1, 0, 3, 0, 1, 0, 2, 0, 1, 0,
     7, 0, 1, 0, 2, 0, 1, 0, 3, 0, 1, 0, 2, 0, 1, 0,
     4, 0, 1, 0, 2, 0, 1, 0, 3, 0, 1, 0, 2, 0, 1, 0,
     5, 0, 1, 0, 2, 0, 1, 0, 3, 0, 1, 0, 2, 0, 1, 0,
     4, 0, 1, 0, 2, 0, 1, 0, 3, 0, 1, 0, 2, 0, 1, 0,
     6, 0, 1, 0, 2, 0, 1, 0, 3, 0, 1, 0, 2, 0, 1, 0,
     4, 0, 1, 0, 2, 0, 1, 0, 3, 0, 1, 0, 2, 0, 1, 0,
     5, 0, 1, 0, 2, 0, 1, 0, 3, 0, 1, 0, 2, 0, 1, 0,
     4, 0, 1, 0, 2, 0, 1, 0, 3, 0, 1, 0, 2, 0, 1, 0]"

definition rt_ffs :: "u32 \<Rightarrow> nat" where
  "rt_ffs v =
     (if v = 0 then 0
      else if v AND 0xff \<noteq> 0 then lowest_bit_bitmap ! unat (v AND 0xff) + 1
      else if v AND 0xff00 \<noteq> 0 then lowest_bit_bitmap ! unat (drop_bit 8 (v AND 0xff00)) + 9
      else if v AND 0xff0000 \<noteq> 0 then lowest_bit_bitmap ! unat (drop_bit 16 (v AND 0xff0000)) + 17
      else lowest_bit_bitmap ! unat (drop_bit 24 (v AND 0xff000000)) + 25)"

text \<open>The table, byte by byte.\<close>

definition low_bit :: "nat \<Rightarrow> nat \<Rightarrow> bool" where
  "low_bit b k \<longleftrightarrow> k < 8 \<and> b div 2 ^ k mod 2 = 1 \<and> b mod 2 ^ k = 0"

lemma bitmap_ok: "list_all (\<lambda>b. low_bit b (lowest_bit_bitmap ! b)) [1..<256]"
  by (simp add: lowest_bit_bitmap_def low_bit_def upt_rec)

lemma low_bit_nat: "low_bit b k \<Longrightarrow> bit b k \<and> (\<forall>i<k. \<not> bit b i)"
proof (intro conjI allI impI)
  assume l: "low_bit b k"
  then show "bit b k" by (simp add: low_bit_def bit_iff_odd odd_iff_mod_2_eq_one)
  fix i assume "i < k"
  then obtain d where d: "k = i + Suc d" using less_iff_Suc_add by auto
  obtain c where "b = 2 ^ k * c" using l by (auto simp: low_bit_def mod_eq_0_iff_dvd)
  then have "b div 2 ^ i = 2 * (2 ^ d * c)" by (simp add: d power_add)
  then show "\<not> bit b i" by (simp add: bit_iff_odd)
qed

lemma byte_masks:
  "(0xff :: u32) = push_bit 0 (mask 8)" "(0xff00 :: u32) = push_bit 8 (mask 8)"
  "(0xff0000 :: u32) = push_bit 16 (mask 8)" "(0xff000000 :: u32) = push_bit 24 (mask 8)"
  by (simp_all add: push_bit_eq_mult mask_eq_exp_minus_1)

lemma byte_bit:
  "i < 8 \<Longrightarrow> s \<le> 24 \<Longrightarrow> bit (unat (drop_bit s (v AND push_bit s (mask 8)))) i \<longleftrightarrow> bit v (s + i)" for v :: u32
  by (simp add: bit_unsigned_iff bit_simps)

lemma byte_zero:
  "v AND push_bit s (mask 8) = 0 \<longleftrightarrow> (\<forall>i<8. s + i < 32 \<longrightarrow> \<not> bit v (s + i))" for v :: u32
proof
  assume z: "v AND push_bit s (mask 8) = 0"
  show "\<forall>i<8. s + i < 32 \<longrightarrow> \<not> bit v (s + i)"
  proof (intro allI impI notI)
    fix i assume i: "i < (8::nat)" "s + i < 32" "bit v (s + i)"
    then have "bit (v AND push_bit s (mask 8)) (s + i)" by (simp add: bit_simps)
    with z show False by simp
  qed
next
  assume "\<forall>i<8. s + i < 32 \<longrightarrow> \<not> bit v (s + i)"
  then have "\<not> bit v n" if "s \<le> n" "n < 32" "n - s < 8" for n
    using that by (auto dest: spec [of _ "n - s"])
  then show "v AND push_bit s (mask 8) = 0"
    by (intro bit_word_eqI) (auto simp: bit_simps)
qed

lemma byte_step:
  fixes v :: u32
  assumes "v AND push_bit s (mask 8) \<noteq> 0" "s \<le> 24" "\<forall>i < s. \<not> bit v i"
  defines "k \<equiv> lowest_bit_bitmap ! unat (drop_bit s (v AND push_bit s (mask 8)))"
  shows "bit v (s + k) \<and> (\<forall>i < s + k. \<not> bit v i)"
proof -
  let ?b = "unat (drop_bit s (v AND push_bit s (mask 8)))"
  have eq: "drop_bit s (v AND push_bit s (mask 8)) = take_bit 8 (drop_bit s v)"
    using assms(2) by (intro bit_word_eqI) (auto simp: bit_simps)
  have "?b < 256"
    unfolding eq unsigned_take_bit_eq
    using take_bit_nat_less_exp [of 8 "unat (drop_bit s v)"] by simp
  moreover have "0 < ?b"
  proof (rule ccontr)
    assume "\<not> 0 < ?b"
    then have "?b = 0" by simp
    then have "\<not> bit v (s + i)" if "i < 8" for i
      using byte_bit [OF that assms(2), of v] by simp
    then have "v AND push_bit s (mask 8) = 0" by (simp add: byte_zero)
    with assms(1) show False by simp
  qed
  ultimately have lb: "low_bit ?b k"
    using bitmap_ok by (simp add: k_def list_all_iff)
  then have k8: "k < 8" by (simp add: low_bit_def)
  have "bit v (s + k)" using low_bit_nat [OF lb] byte_bit [OF k8 assms(2), of v] by simp
  moreover have "\<not> bit v i" if "i < s + k" for i
  proof (cases "i < s")
    case False
    then have "i - s < k" "s + (i - s) = i" using that by auto
    then show ?thesis using low_bit_nat [OF lb] byte_bit [of "i - s" s v] k8 assms(2) by simp
  qed (use assms(3) in simp)
  ultimately show ?thesis by simp
qed

lemma rt_ffs_0: "rt_ffs v = 0 \<longleftrightarrow> v = 0"
  by (simp add: rt_ffs_def)

lemma rt_ffs_least:
  assumes v: "v \<noteq> 0"
  shows "bit v (rt_ffs v - 1) \<and> (\<forall>i<rt_ffs v - 1. \<not> bit v i)"
proof -
  consider "v AND push_bit 0 (mask 8) \<noteq> 0"
    | "v AND push_bit 0 (mask 8) = 0" "v AND push_bit 8 (mask 8) \<noteq> 0"
    | "v AND push_bit 0 (mask 8) = 0" "v AND push_bit 8 (mask 8) = 0" "v AND push_bit 16 (mask 8) \<noteq> 0"
    | "v AND push_bit 0 (mask 8) = 0" "v AND push_bit 8 (mask 8) = 0" "v AND push_bit 16 (mask 8) = 0"
    by blast
  then show ?thesis
  proof cases
    case 1
    then show ?thesis using byte_step [of v 0] v by (simp add: rt_ffs_def byte_masks)
  next
    case 2
    then have "\<forall>i<8. \<not> bit v i" using byte_zero [of v 0] by simp
    then show ?thesis using byte_step [of v 8] 2 v by (simp add: rt_ffs_def byte_masks add.commute)
  next
    case 3
    then have z: "\<forall>i<8. \<not> bit v i" "\<forall>i<8. \<not> bit v (8 + i)"
      using byte_zero [of v 0] byte_zero [of v 8] by simp_all
    have "\<not> bit v i" if "i < 16" for i
      using z(1) [rule_format, of i] z(2) [rule_format, of "i - 8"] that by (cases "i < 8") auto
    then show ?thesis using byte_step [of v 16] 3 v by (simp add: rt_ffs_def byte_masks add.commute)
  next
    case 4
    then have z: "\<forall>i<8. \<not> bit v i" "\<forall>i<8. \<not> bit v (8 + i)" "\<forall>i<8. \<not> bit v (16 + i)"
      using byte_zero [of v 0] byte_zero [of v 8] byte_zero [of v 16] by simp_all
    have l: "\<not> bit v i" if "i < 24" for i
      using z(1) [rule_format, of i] z(2) [rule_format, of "i - 8"] z(3) [rule_format, of "i - 16"] that
      by (cases "i < 8"; cases "i < 16") auto
    have "v AND push_bit 24 (mask 8) \<noteq> 0"
    proof
      assume "v AND push_bit 24 (mask 8) = 0"
      then have z4: "\<forall>i<8. \<not> bit v (24 + i)" by (simp add: byte_zero)
      have "\<not> bit v i" if "i < 32" for i
        using l [of i] z4 [rule_format, of "i - 24"] that by (cases "i < 24") auto
      then have "v = 0" by (intro bit_word_eqI) auto
      with v show False by simp
    qed
    then show ?thesis using byte_step [of v 24] 4 v l by (simp add: rt_ffs_def byte_masks add.commute)
  qed
qed

text \<open>The table-driven find-first-set returns, for every non-zero word, one more than the index of
  its least bit set; it returns 0 for zero only.\<close>

theorem ffs_least_bit:
  assumes "v \<noteq> 0"
  shows "0 < rt_ffs v \<and> bit v (rt_ffs v - 1) \<and> (\<forall>i<rt_ffs v - 1. \<not> bit v i)"
  using rt_ffs_0 [of v] rt_ffs_least [OF assms] assms by simp

theorem ffs_least_bit_witness: "bit (0x00A0 :: u32) (rt_ffs 0x00A0 - 1)"
  using ffs_least_bit [of "0x00A0"] by simp

end
