(* ===== verification/RingBuffer.thy ===== *)
theory RingBuffer
  imports SmallMem
begin

text \<open>
  components/drivers/ipc/ringbuffer.c: the byte ring buffer with mirrored indices. The pool is a list
  of bytes as long as the buffer; an index is a natural below the size and its mirror bit a boolean.
  The second half proves that every operation refines a bounded queue of bytes, states that contract
  as a locale and derives the ordering of a whole conversation from it.
\<close>

section \<open>The structure\<close>

datatype rt_ringbuffer_state = RT_RINGBUFFER_EMPTY | RT_RINGBUFFER_FULL | RT_RINGBUFFER_HALFFULL

record rt_ringbuffer =
  buffer_ptr :: "u8 list"
  read_mirror :: bool
  read_index :: nat
  write_mirror :: bool
  write_index :: nat
  buffer_size :: nat

text \<open>\<open>rt_memcpy (&buffer_ptr[i], xs, length xs)\<close>.\<close>

definition rb_memcpy :: "u8 list \<Rightarrow> nat \<Rightarrow> u8 list \<Rightarrow> u8 list" where
  "rb_memcpy buf i xs = take i buf @ xs @ drop (i + length xs) buf"

section \<open>Operations\<close>

definition rt_ringbuffer_status :: "rt_ringbuffer \<Rightarrow> rt_ringbuffer_state" where
  "rt_ringbuffer_status rb =
     (if read_index rb = write_index rb then
        (if read_mirror rb = write_mirror rb then RT_RINGBUFFER_EMPTY else RT_RINGBUFFER_FULL)
      else RT_RINGBUFFER_HALFFULL)"

definition rt_ringbuffer_init :: "u8 list \<Rightarrow> nat \<Rightarrow> rt_ringbuffer" where
  "rt_ringbuffer_init pool n =
     (let sz = unat (RT_ALIGN_DOWN (of_nat n) RT_ALIGN_SIZE)
      in \<lparr>buffer_ptr = take sz pool, read_mirror = False, read_index = 0,
          write_mirror = False, write_index = 0, buffer_size = sz\<rparr>)"

definition rt_ringbuffer_data_len :: "rt_ringbuffer \<Rightarrow> nat" where
  "rt_ringbuffer_data_len rb =
     (case rt_ringbuffer_status rb of
        RT_RINGBUFFER_EMPTY \<Rightarrow> 0
      | RT_RINGBUFFER_FULL \<Rightarrow> buffer_size rb
      | RT_RINGBUFFER_HALFFULL \<Rightarrow>
          (let wi = write_index rb; ri = read_index rb
           in if wi > ri then wi - ri else buffer_size rb - (ri - wi)))"

definition rt_ringbuffer_space_len :: "rt_ringbuffer \<Rightarrow> nat" where
  "rt_ringbuffer_space_len rb = buffer_size rb - rt_ringbuffer_data_len rb"

definition rt_ringbuffer_put :: "rt_ringbuffer \<Rightarrow> u8 list \<Rightarrow> nat \<times> rt_ringbuffer" where
  "rt_ringbuffer_put rb ptr =
     (let sz = rt_ringbuffer_space_len rb in
      if sz = 0 then (0, rb)
      else
        let n = (if sz < length ptr then sz else length ptr);
            k = buffer_size rb - write_index rb
        in if k > n then
             (n, rb\<lparr>buffer_ptr := rb_memcpy (buffer_ptr rb) (write_index rb) (take n ptr),
                    write_index := write_index rb + n\<rparr>)
           else
             let b1 = rb_memcpy (buffer_ptr rb) (write_index rb) (take k ptr);
                 b2 = rb_memcpy b1 0 (take (n - k) (drop k ptr))
             in (n, rb\<lparr>buffer_ptr := b2, write_mirror := \<not> write_mirror rb, write_index := n - k\<rparr>))"

definition rt_ringbuffer_put_force :: "rt_ringbuffer \<Rightarrow> u8 list \<Rightarrow> nat \<times> rt_ringbuffer" where
  "rt_ringbuffer_put_force rb ptr0 =
     (let space = rt_ringbuffer_space_len rb;
          ptr = (if length ptr0 > buffer_size rb then drop (length ptr0 - buffer_size rb) ptr0
                 else ptr0);
          n = (if length ptr0 > buffer_size rb then buffer_size rb else length ptr0);
          k = buffer_size rb - write_index rb
      in if k > n then
           let rb1 = rb\<lparr>buffer_ptr := rb_memcpy (buffer_ptr rb) (write_index rb) (take n ptr),
                        write_index := write_index rb + n\<rparr>
           in (n, if n > space then rb1\<lparr>read_index := write_index rb1\<rparr> else rb1)
         else
           let b1 = rb_memcpy (buffer_ptr rb) (write_index rb) (take k ptr);
               b2 = rb_memcpy b1 0 (take (n - k) (drop k ptr));
               rb1 = rb\<lparr>buffer_ptr := b2, write_mirror := \<not> write_mirror rb, write_index := n - k\<rparr>
           in (n, if n > space then
                    let rb2 = (if write_index rb1 \<le> read_index rb1
                               then rb1\<lparr>read_mirror := \<not> read_mirror rb1\<rparr> else rb1)
                    in rb2\<lparr>read_index := write_index rb2\<rparr>
                  else rb1))"

text \<open>The bytes read, in place of the caller's array; their number is the result of the call.\<close>

definition rt_ringbuffer_get :: "rt_ringbuffer \<Rightarrow> nat \<Rightarrow> u8 list \<times> rt_ringbuffer" where
  "rt_ringbuffer_get rb len =
     (let sz = rt_ringbuffer_data_len rb in
      if sz = 0 then ([], rb)
      else
        let n = (if sz < len then sz else len);
            k = buffer_size rb - read_index rb
        in if k > n then
             (take n (drop (read_index rb) (buffer_ptr rb)), rb\<lparr>read_index := read_index rb + n\<rparr>)
           else
             (take k (drop (read_index rb) (buffer_ptr rb)) @ take (n - k) (buffer_ptr rb),
              rb\<lparr>read_mirror := \<not> read_mirror rb, read_index := n - k\<rparr>))"

text \<open>peek hands out the index of the first readable byte and how many follow it in one piece.\<close>

definition rt_ringbuffer_peek :: "rt_ringbuffer \<Rightarrow> (nat \<times> nat option) \<times> rt_ringbuffer" where
  "rt_ringbuffer_peek rb =
     (let sz = rt_ringbuffer_data_len rb in
      if sz = 0 then ((0, None), rb)
      else if buffer_size rb - read_index rb > sz
      then ((sz, Some (read_index rb)), rb\<lparr>read_index := read_index rb + sz\<rparr>)
      else ((buffer_size rb - read_index rb, Some (read_index rb)),
            rb\<lparr>read_mirror := \<not> read_mirror rb, read_index := 0\<rparr>))"

definition rt_ringbuffer_putchar :: "rt_ringbuffer \<Rightarrow> u8 \<Rightarrow> nat \<times> rt_ringbuffer" where
  "rt_ringbuffer_putchar rb ch =
     (if rt_ringbuffer_space_len rb = 0 then (0, rb)
      else
        let rb1 = rb\<lparr>buffer_ptr := (buffer_ptr rb)[write_index rb := ch]\<rparr>
        in if write_index rb1 = buffer_size rb1 - 1
           then (1, rb1\<lparr>write_mirror := \<not> write_mirror rb1, write_index := 0\<rparr>)
           else (1, rb1\<lparr>write_index := write_index rb1 + 1\<rparr>))"

definition rt_ringbuffer_putchar_force :: "rt_ringbuffer \<Rightarrow> u8 \<Rightarrow> nat \<times> rt_ringbuffer" where
  "rt_ringbuffer_putchar_force rb ch =
     (let old_state = rt_ringbuffer_status rb;
          rb1 = rb\<lparr>buffer_ptr := (buffer_ptr rb)[write_index rb := ch]\<rparr>
      in if write_index rb1 = buffer_size rb1 - 1 then
           let rb2 = rb1\<lparr>write_mirror := \<not> write_mirror rb1, write_index := 0\<rparr>
           in (1, if old_state = RT_RINGBUFFER_FULL
                  then rb2\<lparr>read_mirror := \<not> read_mirror rb2, read_index := write_index rb2\<rparr>
                  else rb2)
         else
           let rb2 = rb1\<lparr>write_index := write_index rb1 + 1\<rparr>
           in (1, if old_state = RT_RINGBUFFER_FULL then rb2\<lparr>read_index := write_index rb2\<rparr> else rb2))"

definition rt_ringbuffer_getchar :: "rt_ringbuffer \<Rightarrow> u8 option \<times> rt_ringbuffer" where
  "rt_ringbuffer_getchar rb =
     (if rt_ringbuffer_data_len rb = 0 then (None, rb)
      else
        let ch = buffer_ptr rb ! read_index rb
        in if read_index rb = buffer_size rb - 1
           then (Some ch, rb\<lparr>read_mirror := \<not> read_mirror rb, read_index := 0\<rparr>)
           else (Some ch, rb\<lparr>read_index := read_index rb + 1\<rparr>))"

definition rt_ringbuffer_reset :: "rt_ringbuffer \<Rightarrow> rt_ringbuffer" where
  "rt_ringbuffer_reset rb =
     rb\<lparr>read_mirror := False, read_index := 0, write_mirror := False, write_index := 0\<rparr>"

section \<open>The bounded queue it implements\<close>

definition rb_inv :: "rt_ringbuffer \<Rightarrow> bool" where
  "rb_inv rb \<longleftrightarrow> 0 < buffer_size rb \<and> length (buffer_ptr rb) = buffer_size rb
     \<and> read_index rb < buffer_size rb \<and> write_index rb < buffer_size rb
     \<and> (if read_mirror rb = write_mirror rb then read_index rb \<le> write_index rb
        else write_index rb \<le> read_index rb)"

text \<open>The bytes waiting to be read, oldest first.\<close>

definition rb_data :: "rt_ringbuffer \<Rightarrow> u8 list" where
  "rb_data rb = map (\<lambda>i. buffer_ptr rb ! ((read_index rb + i) mod buffer_size rb))
     [0..<rt_ringbuffer_data_len rb]"

text \<open>The last \<open>n\<close> elements of a list.\<close>

definition newest :: "nat \<Rightarrow> 'a list \<Rightarrow> 'a list" where
  "newest n xs = drop (length xs - n) xs"

lemma data_len_eq:
  "rb_inv rb \<Longrightarrow> rt_ringbuffer_data_len rb =
     write_index rb + (if read_mirror rb = write_mirror rb then 0 else buffer_size rb) - read_index rb"
  by (auto simp: rb_inv_def rt_ringbuffer_data_len_def rt_ringbuffer_status_def Let_def)

lemma data_len_le: "rb_inv rb \<Longrightarrow> rt_ringbuffer_data_len rb \<le> buffer_size rb"
  by (simp add: data_len_eq) (auto simp: rb_inv_def split: if_splits)

lemma length_rb_data [simp]: "length (rb_data rb) = rt_ringbuffer_data_len rb"
  by (simp add: rb_data_def)

lemma nth_rb_data:
  "i < rt_ringbuffer_data_len rb \<Longrightarrow>
   rb_data rb ! i = buffer_ptr rb ! ((read_index rb + i) mod buffer_size rb)"
  by (simp add: rb_data_def)

lemma length_rb_memcpy [simp]:
  "i + length xs \<le> length buf \<Longrightarrow> length (rb_memcpy buf i xs) = length buf"
  by (simp add: rb_memcpy_def)

lemma nth_rb_memcpy:
  "i + length xs \<le> length buf \<Longrightarrow> p < length buf \<Longrightarrow>
   rb_memcpy buf i xs ! p = (if i \<le> p \<and> p < i + length xs then xs ! (p - i) else buf ! p)"
  by (auto simp: rb_memcpy_def nth_append min_def)

lemma mod_window: "a mod (n::nat) \<noteq> b mod n" if "a < b" "b < a + n"
  using that by (metis add_diff_cancel_left' less_imp_add_positive mod_eq_dvd_iff_nat nat_dvd_not_less
      less_diff_conv2 less_imp_le_nat add.commute)


lemma write_index_eq:
  "rb_inv rb \<Longrightarrow> write_index rb = (read_index rb + rt_ringbuffer_data_len rb) mod buffer_size rb"
proof -
  assume inv: "rb_inv rb"
  show ?thesis
  proof (cases "read_mirror rb = write_mirror rb")
    case True
    then show ?thesis using inv by (simp add: data_len_eq) (auto simp: rb_inv_def)
  next
    case False
    then have "read_index rb + rt_ringbuffer_data_len rb = write_index rb + buffer_size rb"
      using inv by (simp add: data_len_eq) (auto simp: rb_inv_def)
    then show ?thesis using inv by (simp add: rb_inv_def)
  qed
qed

text \<open>The copying statements write \<open>xs\<close> round the buffer from the write index.\<close>

definition written :: "u8 list \<Rightarrow> nat \<Rightarrow> u8 list \<Rightarrow> u8 list \<Rightarrow> bool" where
  "written buf wi xs b \<longleftrightarrow> length b = length buf
     \<and> (\<forall>j<length xs. b ! ((wi + j) mod length buf) = xs ! j)
     \<and> (\<forall>p<length buf. (\<forall>j<length xs. p \<noteq> (wi + j) mod length buf) \<longrightarrow> b ! p = buf ! p)"

lemma written_short:
  assumes "wi + length xs < length buf"
  shows "written buf wi xs (rb_memcpy buf wi xs)"
proof -
  have "rb_memcpy buf wi xs ! p = buf ! p"
    if "p < length buf" "\<forall>j<length xs. p \<noteq> (wi + j) mod length buf" for p
  proof -
    have "\<not> (wi \<le> p \<and> p < wi + length xs)"
    proof
      assume a: "wi \<le> p \<and> p < wi + length xs"
      then have "p - wi < length xs" by arith
      moreover have "(wi + (p - wi)) mod length buf = p" using a that(1) by simp
      ultimately show False using that(2) by metis
    qed
    then show ?thesis using that(1) assms by (auto simp: nth_rb_memcpy)
  qed
  then show ?thesis using assms by (auto simp: written_def nth_rb_memcpy)
qed

lemma written_wrap:
  assumes "wi < length buf" "k = length buf - wi" "k \<le> length xs" "length xs \<le> length buf"
  shows "written buf wi xs (rb_memcpy (rb_memcpy buf wi (take k xs)) 0 (drop k xs))"
proof -
  let ?b1 = "rb_memcpy buf wi (take k xs)" let ?b = "rb_memcpy ?b1 0 (drop k xs)"
  have l1: "length ?b1 = length buf" using assms by simp
  have b: "?b ! p = (if p < length xs - k then xs ! (k + p) else if wi \<le> p then xs ! (p - wi) else buf ! p)"
    if "p < length buf" for p
    using that assms l1 by (auto simp: nth_rb_memcpy)
  have "?b ! ((wi + j) mod length buf) = xs ! j" if "j < length xs" for j
  proof (cases "wi + j < length buf")
    case True
    then show ?thesis using that assms b [of "wi + j"] by auto
  next
    case False
    then have "(wi + j) mod length buf = wi + j - length buf"
      using that assms by (simp add: mod_if)
    then show ?thesis using False that assms b [of "wi + j - length buf"] by auto
  qed
  moreover have "?b ! p = buf ! p"
    if p: "p < length buf" "\<forall>j<length xs. p \<noteq> (wi + j) mod length buf" for p
  proof -
    have "\<not> p < length xs - k"
    proof
      assume a: "p < length xs - k"
      then have "(wi + (k + p)) mod length buf = p" using assms p(1) by (simp add: mod_if)
      then show False using p(2) a by (metis add.commute less_diff_conv)
    qed
    moreover have "\<not> wi \<le> p"
    proof
      assume a: "wi \<le> p"
      then have "(wi + (p - wi)) mod length buf = p" "p - wi < length xs"
        using assms p(1) by simp_all
      then show False using p(2) by metis
    qed
    ultimately show ?thesis using b [OF p(1)] by simp
  qed
  moreover have "length ?b = length buf" using l1 assms by simp
  ultimately show ?thesis by (simp add: written_def)
qed

lemma rb_append:
  assumes "rb_inv rb" "written (buffer_ptr rb) (write_index rb) xs (buffer_ptr rb')"
    and "buffer_size rb' = buffer_size rb" "length xs \<le> buffer_size rb"
    and "read_index rb' mod buffer_size rb = (read_index rb + d) mod buffer_size rb"
    and "d \<le> rt_ringbuffer_data_len rb"
    and "rt_ringbuffer_data_len rb' = rt_ringbuffer_data_len rb + length xs - d"
    and "rt_ringbuffer_data_len rb' \<le> buffer_size rb"
  shows "rb_data rb' = drop d (rb_data rb @ xs)"
proof (rule nth_equalityI)
  show "length (rb_data rb') = length (drop d (rb_data rb @ xs))" using assms(7) by simp
next
  fix i assume "i < length (rb_data rb')"
  then have i: "i < rt_ringbuffer_data_len rb'" by simp
  let ?n = "buffer_size rb" let ?len = "rt_ringbuffer_data_len rb" let ?ri = "read_index rb"
  have n: "length (buffer_ptr rb) = ?n" "0 < ?n" using assms(1) by (auto simp: rb_inv_def)
  have idx: "(read_index rb' + i) mod ?n = (?ri + (d + i)) mod ?n"
    using assms(5) by (metis mod_add_left_eq add.assoc)
  have wi: "(write_index rb + j) mod ?n = (?ri + (?len + j)) mod ?n" for j
    using write_index_eq [OF assms(1)] by (simp add: mod_add_left_eq add.assoc)
  have lhs: "rb_data rb' ! i = buffer_ptr rb' ! ((?ri + (d + i)) mod ?n)"
    using i idx assms(3) by (simp add: nth_rb_data)
  show "rb_data rb' ! i = drop d (rb_data rb @ xs) ! i"
  proof (cases "d + i < ?len")
    case True
    have "(?ri + (d + i)) mod ?n \<noteq> (write_index rb + j) mod ?n" if "j < length xs" for j
      unfolding wi using True that i assms(6-8) by (intro mod_window) auto
    then have "buffer_ptr rb' ! ((?ri + (d + i)) mod ?n) = buffer_ptr rb ! ((?ri + (d + i)) mod ?n)"
      using assms(2) n by (auto simp: written_def)
    moreover have "drop d (rb_data rb @ xs) ! i = (rb_data rb @ xs) ! (d + i)"
      using assms(6) by (intro nth_drop) simp
    ultimately show ?thesis using True lhs by (simp add: nth_append nth_rb_data del: drop_append)
  next
    case False
    then have j: "d + i - ?len < length xs" using i assms(6,7) by auto
    then have "buffer_ptr rb' ! ((write_index rb + (d + i - ?len)) mod ?n) = xs ! (d + i - ?len)"
      using assms(2) n by (auto simp: written_def)
    moreover have "(write_index rb + (d + i - ?len)) mod ?n = (?ri + (d + i)) mod ?n"
      using False wi [of "d + i - ?len"] by simp
    moreover have "drop d (rb_data rb @ xs) ! i = (rb_data rb @ xs) ! (d + i)"
      using assms(6) by (intro nth_drop) simp
    ultimately show ?thesis using False lhs by (simp add: nth_append del: drop_append)
  qed
qed

section \<open>The operations refine the queue\<close>

lemma put_ok:
  fixes rb :: rt_ringbuffer and ptr :: "u8 list"
  assumes "rb_inv rb"
  defines "n \<equiv> min (rt_ringbuffer_space_len rb) (length ptr)"
  shows "\<exists>rb'. rt_ringbuffer_put rb ptr = (n, rb') \<and> rb_inv rb' \<and> buffer_size rb' = buffer_size rb
    \<and> rb_data rb' = rb_data rb @ take n ptr"
proof (cases "rt_ringbuffer_space_len rb = 0")
  case True
  then show ?thesis using assms by (simp add: rt_ringbuffer_put_def)
next
  case False
  let ?k = "buffer_size rb - write_index rb" let ?xs = "take n ptr"
  have inv: "0 < buffer_size rb" "length (buffer_ptr rb) = buffer_size rb"
    "write_index rb < buffer_size rb" "read_index rb < buffer_size rb"
    using assms(1) by (auto simp: rb_inv_def)
  have n: "(if rt_ringbuffer_space_len rb < length ptr then rt_ringbuffer_space_len rb else length ptr) = n"
    "length ?xs = n" "n \<le> rt_ringbuffer_space_len rb"
    by (auto simp: n_def)
  have sp: "rt_ringbuffer_data_len rb + n \<le> buffer_size rb"
    using n(3) data_len_le [OF assms(1)] by (simp add: rt_ringbuffer_space_len_def)
  show ?thesis
  proof (cases "?k > n")
    case True
    let ?rb = "rb\<lparr>buffer_ptr := rb_memcpy (buffer_ptr rb) (write_index rb) ?xs,
                  write_index := write_index rb + n\<rparr>"
    have w: "written (buffer_ptr rb) (write_index rb) ?xs (buffer_ptr ?rb)"
      using True n inv by (simp add: written_short)
    have inv': "rb_inv ?rb"
      using assms(1) True n(2) sp by (auto simp: rb_inv_def data_len_eq)
    then have len: "rt_ringbuffer_data_len ?rb = rt_ringbuffer_data_len rb + n"
      using assms(1) by (simp add: data_len_eq) (auto simp: rb_inv_def)
    have "rb_data ?rb = drop 0 (rb_data rb @ ?xs)"
      using sp len n(2) by (intro rb_append [OF assms(1) w]) auto
    then show ?thesis using True False inv' by (simp add: rt_ringbuffer_put_def Let_def n(1))
  next
    case wrap: False
    let ?rb = "rb\<lparr>buffer_ptr := rb_memcpy (rb_memcpy (buffer_ptr rb) (write_index rb) (take ?k ?xs)) 0 (drop ?k ?xs),
                  write_mirror := \<not> write_mirror rb, write_index := n - ?k\<rparr>"
    have "written (buffer_ptr rb) (write_index rb) ?xs
        (rb_memcpy (rb_memcpy (buffer_ptr rb) (write_index rb) (take ?k ?xs)) 0 (drop ?k ?xs))"
      by (rule written_wrap) (use wrap n inv sp in simp_all)
    then have w: "written (buffer_ptr rb) (write_index rb) ?xs (buffer_ptr ?rb)" by simp
    have mir: "read_mirror rb = write_mirror rb"
      using wrap sp inv assms(1) False by (auto simp: data_len_eq rb_inv_def rt_ringbuffer_space_len_def split: if_splits)
    have inv': "rb_inv ?rb"
      using assms(1) w wrap sp mir by (auto simp: rb_inv_def data_len_eq written_def)
    have len: "rt_ringbuffer_data_len ?rb = rt_ringbuffer_data_len rb + n"
      using assms(1) inv' wrap sp mir inv by (simp add: data_len_eq) (auto simp: rb_inv_def)
    have "rb_data ?rb = drop 0 (rb_data rb @ ?xs)"
      using sp len n(2) by (intro rb_append [OF assms(1) w]) auto
    then show ?thesis
      using wrap False inv' by (simp add: rt_ringbuffer_put_def Let_def n(1) drop_take min_absorb1)
  qed
qed

lemma get_bytes:
  assumes "rb_inv rb" "n \<le> rt_ringbuffer_data_len rb"
  shows "take n (rb_data rb) = (let k = buffer_size rb - read_index rb in
     if n < k then take n (drop (read_index rb) (buffer_ptr rb))
     else take k (drop (read_index rb) (buffer_ptr rb)) @ take (n - k) (buffer_ptr rb))"
proof -
  have inv: "0 < buffer_size rb" "length (buffer_ptr rb) = buffer_size rb" "read_index rb < buffer_size rb"
    using assms(1) by (auto simp: rb_inv_def)
  have n: "n \<le> buffer_size rb" using assms data_len_le [OF assms(1)] by simp
  show ?thesis
  proof (rule nth_equalityI)
    fix i assume "i < length (take n (rb_data rb))"
    then have i: "i < n" "i < rt_ringbuffer_data_len rb" by simp_all
    have "(read_index rb + i) mod buffer_size rb = (if read_index rb + i < buffer_size rb
        then read_index rb + i else read_index rb + i - buffer_size rb)"
      using i n inv by (simp add: mod_if)
    moreover have "i - (buffer_size rb - read_index rb) = read_index rb + i - buffer_size rb"
      using inv by simp
    ultimately show "take n (rb_data rb) ! i = (let k = buffer_size rb - read_index rb in
     if n < k then take n (drop (read_index rb) (buffer_ptr rb))
     else take k (drop (read_index rb) (buffer_ptr rb)) @ take (n - k) (buffer_ptr rb)) ! i"
      using i n inv by (auto simp: Let_def nth_rb_data nth_append)
  qed (use n inv assms(2) in \<open>auto simp: Let_def\<close>)
qed

lemma rb_drop:
  assumes "rb_inv rb" "n \<le> rt_ringbuffer_data_len rb"
    and "buffer_ptr rb' = buffer_ptr rb" "buffer_size rb' = buffer_size rb"
    and "read_index rb' mod buffer_size rb = (read_index rb + n) mod buffer_size rb"
    and "rt_ringbuffer_data_len rb' = rt_ringbuffer_data_len rb - n"
  shows "rb_data rb' = drop n (rb_data rb)"
proof (rule nth_equalityI)
  fix i assume i: "i < length (rb_data rb')"
  have "(read_index rb' + i) mod buffer_size rb = (read_index rb + (n + i)) mod buffer_size rb"
    using assms(5) by (metis mod_add_left_eq add.assoc)
  then show "rb_data rb' ! i = drop n (rb_data rb) ! i"
    using i assms by (simp add: nth_rb_data)
qed (use assms in simp)

lemma get_ok:
  fixes rb :: rt_ringbuffer and len :: nat
  assumes "rb_inv rb"
  defines "n \<equiv> min (rt_ringbuffer_data_len rb) len"
  shows "\<exists>rb'. rt_ringbuffer_get rb len = (take len (rb_data rb), rb') \<and> rb_inv rb'
    \<and> buffer_size rb' = buffer_size rb \<and> rb_data rb' = drop len (rb_data rb)"
proof (cases "rt_ringbuffer_data_len rb = 0")
  case True
  then have "rb_data rb = []" by (simp add: rb_data_def)
  then show ?thesis using True assms(1) by (simp add: rt_ringbuffer_get_def)
next
  case False
  let ?k = "buffer_size rb - read_index rb"
  have n: "(if rt_ringbuffer_data_len rb < len then rt_ringbuffer_data_len rb else len) = n"
    "n \<le> rt_ringbuffer_data_len rb"
    by (auto simp: n_def)
  have nn: "take len (rb_data rb) = take n (rb_data rb)" "drop len (rb_data rb) = drop n (rb_data rb)"
    by (simp_all add: n_def min_def)
  note bytes = get_bytes [OF assms(1) n(2)]
  have inv: "0 < buffer_size rb" "length (buffer_ptr rb) = buffer_size rb" "read_index rb < buffer_size rb"
    using assms(1) by (auto simp: rb_inv_def)
  show ?thesis
  proof (cases "?k > n")
    case True
    let ?rb = "rb\<lparr>read_index := read_index rb + n\<rparr>"
    have inv': "rb_inv ?rb"
      using assms(1) True n(2) by (simp add: rb_inv_def data_len_eq) (auto simp: rb_inv_def data_len_eq)
    have "rt_ringbuffer_data_len ?rb = rt_ringbuffer_data_len rb - n"
      using assms(1) inv' by (simp add: data_len_eq)
    then have "rb_data ?rb = drop n (rb_data rb)"
      by (intro rb_drop [OF assms(1) n(2)]) simp_all
    then show ?thesis using True False inv' bytes by (simp add: rt_ringbuffer_get_def Let_def n(1) nn)
  next
    case wrap: False
    let ?rb = "rb\<lparr>read_mirror := \<not> read_mirror rb, read_index := n - ?k\<rparr>"
    have mir: "read_mirror rb \<noteq> write_mirror rb"
      using wrap n(2) assms(1) by (auto simp: data_len_eq rb_inv_def split: if_splits)
    then have rel: "write_index rb \<le> read_index rb" "write_index rb < buffer_size rb"
      "n \<le> write_index rb + buffer_size rb - read_index rb"
      using assms(1) n(2) by (auto simp: rb_inv_def data_len_eq)
    then have inv': "rb_inv ?rb" using inv mir wrap by (auto simp: rb_inv_def)
    have "rt_ringbuffer_data_len ?rb = rt_ringbuffer_data_len rb - n"
      using assms(1) inv' mir wrap rel inv by (simp add: data_len_eq)
    moreover have "read_index ?rb mod buffer_size rb = (read_index rb + n) mod buffer_size rb"
    proof -
      have "read_index rb + n = (n - ?k) + buffer_size rb" using wrap inv by simp
      moreover have "read_index ?rb = n - ?k" by simp
      ultimately show ?thesis by (simp only: mod_add_self2)
    qed
    ultimately have "rb_data ?rb = drop n (rb_data rb)"
      by (intro rb_drop [OF assms(1) n(2)]) simp_all
    then show ?thesis using wrap False inv' bytes by (simp add: rt_ringbuffer_get_def Let_def n(1) nn)
  qed
qed

lemma put_force_ok:
  assumes "rb_inv rb"
  shows "\<exists>rb'. rt_ringbuffer_put_force rb ptr = (min (length ptr) (buffer_size rb), rb') \<and> rb_inv rb'
    \<and> buffer_size rb' = buffer_size rb
    \<and> rb_data rb' = newest (buffer_size rb) (rb_data rb @ ptr)"
proof -
  let ?bs = "buffer_size rb" let ?len = "rt_ringbuffer_data_len rb"
  define xs where "xs = newest ?bs ptr"
  define n where "n = length xs"
  let ?k = "?bs - write_index rb" let ?d = "?len + n - ?bs" let ?sp = "rt_ringbuffer_space_len rb"
  have ptr: "(if length ptr > ?bs then drop (length ptr - ?bs) ptr else ptr) = xs"
    "(if length ptr > ?bs then ?bs else length ptr) = n" "min (length ptr) ?bs = n" "n \<le> ?bs"
    "take n xs = xs"
    by (auto simp: xs_def newest_def n_def)
  have inv: "0 < ?bs" "length (buffer_ptr rb) = ?bs" "write_index rb < ?bs" "read_index rb < ?bs"
    "?len \<le> ?bs"
    using assms data_len_le by (auto simp: rb_inv_def)
  have d: "?sp = ?bs - ?len" "(n > ?sp) = (0 < ?d)" "?d \<le> ?len" using inv ptr(4)
    by (auto simp: rt_ringbuffer_space_len_def)
  have new: "drop ?d (rb_data rb @ xs) = newest ?bs (rb_data rb @ ptr)"
  proof (cases "length ptr > ?bs")
    case True
    then have "?d = ?len" "n = ?bs" by (auto simp: n_def xs_def newest_def)
    then show ?thesis using True by (simp add: newest_def xs_def)
  next
    case False
    then show ?thesis by (simp add: newest_def xs_def n_def)
  qed
  note wi = write_index_eq [OF assms]
  show ?thesis
  proof (cases "?k > n")
    case True
    define rb1 where "rb1 = rb\<lparr>buffer_ptr := rb_memcpy (buffer_ptr rb) (write_index rb) xs,
                  write_index := write_index rb + n\<rparr>"
    define rb' where "rb' = (if n > ?sp then rb1\<lparr>read_index := write_index rb1\<rparr> else rb1)"
    have call: "rt_ringbuffer_put_force rb ptr = (n, rb')"
      unfolding rt_ringbuffer_put_force_def Let_def ptr using True
      by (simp add: rb'_def rb1_def ptr)
    have w: "written (buffer_ptr rb) (write_index rb) xs (buffer_ptr rb')"
      using True inv n_def by (simp add: rb'_def rb1_def written_short)
    have lb: "length (buffer_ptr rb') = ?bs" using w inv by (simp add: written_def)
    have sel: "write_index rb' = write_index rb + n" "write_mirror rb' = write_mirror rb"
      "buffer_size rb' = ?bs" "read_mirror rb' = read_mirror rb"
      "read_index rb' = (if 0 < ?d then write_index rb + n else read_index rb)"
      using d(2) by (auto simp: rb'_def rb1_def)
    have rel: "if read_mirror rb = write_mirror rb then read_index rb \<le> write_index rb \<and> ?len = write_index rb - read_index rb
      else write_index rb \<le> read_index rb \<and> ?len = write_index rb + ?bs - read_index rb"
      using assms by (auto simp: rb_inv_def data_len_eq)
    have mir: "0 < ?d \<Longrightarrow> read_mirror rb \<noteq> write_mirror rb"
      using rel True inv by (auto split: if_splits)
    have inv': "rb_inv rb'"
    proof (cases "0 < ?d")
      case d0: True
      then show ?thesis using True inv lb mir by (simp add: rb_inv_def sel)
    next
      case False
      then show ?thesis
        using True inv lb rel
        by (cases "read_mirror rb = write_mirror rb") (simp_all add: rb_inv_def sel)
    qed
    have len: "rt_ringbuffer_data_len rb' = ?len + n - ?d"
    proof (cases "0 < ?d")
      case d0: True
      then show ?thesis using mir unfolding data_len_eq [OF inv'] sel by simp
    next
      case False
      then show ?thesis
        using rel inv(4) unfolding data_len_eq [OF inv'] sel
        by (cases "read_mirror rb = write_mirror rb") auto
    qed
    have ri: "read_index rb' mod ?bs = (read_index rb + ?d) mod ?bs"
    proof (cases "0 < ?d")
      case d0: True
      have "?len = write_index rb + ?bs - read_index rb" using mir [OF d0] rel by simp
      then have "read_index rb + ?d = write_index rb + n" using d0 inv(3,4) by arith
      then show ?thesis using d0 sel(5) by simp
    qed (simp add: sel(5))
    have "rb_data rb' = drop ?d (rb_data rb @ xs)"
      by (rule rb_append [OF assms w sel(3) _ ri d(3)]) (use len ptr(4) n_def inv in simp_all)
    then show ?thesis using call inv' new ptr(3) sel(3) by simp
  next
    case wrap: False
    define rb1 where "rb1 = rb\<lparr>buffer_ptr := rb_memcpy (rb_memcpy (buffer_ptr rb) (write_index rb)
                     (take ?k xs)) 0 (drop ?k xs),
                  write_mirror := \<not> write_mirror rb, write_index := n - ?k\<rparr>"
    define rb2 where "rb2 = (if write_index rb1 \<le> read_index rb1
                 then rb1\<lparr>read_mirror := \<not> read_mirror rb1\<rparr> else rb1)"
    define rb' where "rb' = (if n > ?sp then rb2\<lparr>read_index := write_index rb2\<rparr> else rb1)"
    have dk: "take (n - ?k) (drop ?k xs) = drop ?k xs" by (simp add: n_def)
    have call: "rt_ringbuffer_put_force rb ptr = (n, rb')"
      unfolding rt_ringbuffer_put_force_def Let_def ptr dk using wrap
      by (simp add: rb'_def rb2_def rb1_def)
    have "written (buffer_ptr rb) (write_index rb) xs
        (rb_memcpy (rb_memcpy (buffer_ptr rb) (write_index rb) (take ?k xs)) 0 (drop ?k xs))"
      by (rule written_wrap) (use wrap n_def inv ptr in simp_all)
    then have w: "written (buffer_ptr rb) (write_index rb) xs (buffer_ptr rb')"
      by (simp add: rb'_def rb2_def rb1_def)
    have lb: "length (buffer_ptr rb') = ?bs" using w inv by (simp add: written_def)
    have sel: "write_index rb' = n - ?k" "write_mirror rb' = (\<not> write_mirror rb)" "buffer_size rb' = ?bs"
      "read_index rb' = (if 0 < ?d then n - ?k else read_index rb)"
      "read_mirror rb' = (if 0 < ?d \<and> n - ?k \<le> read_index rb then \<not> read_mirror rb else read_mirror rb)"
      using d(2) by (auto simp: rb'_def rb2_def rb1_def)
    have rel: "if read_mirror rb = write_mirror rb then read_index rb \<le> write_index rb \<and> ?len = write_index rb - read_index rb
      else write_index rb \<le> read_index rb \<and> ?len = write_index rb + ?bs - read_index rb"
      using assms by (auto simp: rb_inv_def data_len_eq)
    have wr: "?bs \<le> write_index rb + n" using wrap by simp
    have mir2: "read_mirror rb = write_mirror rb" if "\<not> 0 < ?d"
    proof (rule ccontr)
      assume "read_mirror rb \<noteq> write_mirror rb"
      then have "?len = write_index rb + ?bs - read_index rb" using rel by simp
      then show False using that wr inv(3,4) by arith
    qed
    have mir1: "read_mirror rb' \<noteq> write_mirror rb'" if d0: "0 < ?d"
    proof (cases "read_mirror rb = write_mirror rb")
      case True
      then have "?len = write_index rb - read_index rb" "read_index rb \<le> write_index rb"
        using rel by simp_all
      then have "\<not> n - ?k \<le> read_index rb" using d0 wr inv(3,4) by arith
      then show ?thesis using True d0 by (simp add: sel)
    next
      case False
      then have "write_index rb \<le> read_index rb" using rel by simp
      then have "n - ?k \<le> read_index rb" using ptr(4) inv(3) by arith
      then show ?thesis using False d0 by (simp add: sel)
    qed
    note mir = mir1 mir2
    have wi': "n - ?k < ?bs" "n - ?k \<le> write_index rb" using ptr(4) inv(1,3) by arith+
    have inv': "rb_inv rb'"
    proof (cases "0 < ?d")
      case d0: True
      have "read_mirror rb' \<noteq> write_mirror rb'" by (rule mir1 [OF d0])
      then show ?thesis using d0 inv(1) lb wi'(1) unfolding rb_inv_def sel(1,3,4) by simp
    next
      case False
      have m: "read_mirror rb = write_mirror rb" by (rule mir2 [OF False])
      then have "?len = write_index rb - read_index rb" "read_index rb \<le> write_index rb"
        using rel by simp_all
      then have "n - ?k \<le> read_index rb" using False wr inv(3,4) by arith
      then show ?thesis using False inv(1,4) lb m wi'(1) unfolding rb_inv_def sel by simp
    qed
    have len: "rt_ringbuffer_data_len rb' = ?len + n - ?d"
    proof (cases "0 < ?d")
      case d0: True
      then show ?thesis using mir1 [OF d0] unfolding data_len_eq [OF inv'] sel(1,3,4) by simp
    next
      case False
      have m: "read_mirror rb = write_mirror rb" by (rule mir2 [OF False])
      then have l: "?len = write_index rb - read_index rb" "read_index rb \<le> write_index rb"
        using rel by simp_all
      have "rt_ringbuffer_data_len rb' = n - ?k + ?bs - read_index rb"
        using False m unfolding data_len_eq [OF inv'] sel by simp
      then show ?thesis using False l wr inv(3,4) by arith
    qed
    have ri: "read_index rb' mod ?bs = (read_index rb + ?d) mod ?bs"
    proof (cases "0 < ?d")
      case d0: True
      have "(read_index rb + ?d) mod ?bs = (read_index rb + ?d + ?bs) mod ?bs" by simp
      also have "read_index rb + ?d + ?bs = read_index rb + ?len + n" using d0 by simp
      also have "(read_index rb + ?len + n) mod ?bs = (write_index rb + n) mod ?bs"
        by (simp add: wi mod_add_left_eq)
      also have "write_index rb + n = n - ?k + ?bs" using wrap inv by simp
      finally show ?thesis using d0 sel(4) by simp
    qed (simp add: sel(4))
    have "rb_data rb' = drop ?d (rb_data rb @ xs)"
      by (rule rb_append [OF assms w sel(3) _ ri d(3)]) (use len ptr(4) n_def inv in simp_all)
    then show ?thesis using call inv' new ptr(3) sel(3) by simp
  qed
qed

section \<open>The single-byte operations\<close>

text \<open>They are the block operations on one byte.\<close>

lemma rb_memcpy_1: "i < length buf \<Longrightarrow> rb_memcpy buf i [x] = buf[i := x]"
  by (simp add: rb_memcpy_def upd_conv_take_nth_drop)

lemma putchar_eq_put: "rb_inv rb \<Longrightarrow> rt_ringbuffer_putchar rb ch = rt_ringbuffer_put rb [ch]"
  by (auto simp: rt_ringbuffer_putchar_def rt_ringbuffer_put_def Let_def rb_inv_def rb_memcpy_1
      rb_memcpy_def [of _ 0 "[]"])

lemma full_iff: "rb_inv rb \<Longrightarrow> rt_ringbuffer_status rb = RT_RINGBUFFER_FULL \<longleftrightarrow> rt_ringbuffer_space_len rb = 0"
  by (auto simp: rt_ringbuffer_status_def rt_ringbuffer_space_len_def data_len_eq rb_inv_def)

lemma putchar_force_eq_put_force:
  assumes "rb_inv rb"
  shows "rt_ringbuffer_putchar_force rb ch = rt_ringbuffer_put_force rb [ch]"
proof -
  have inv: "0 < buffer_size rb" "length (buffer_ptr rb) = buffer_size rb" "write_index rb < buffer_size rb"
    using assms by (auto simp: rb_inv_def)
  have full: "(1 > rt_ringbuffer_space_len rb) = (rt_ringbuffer_status rb = RT_RINGBUFFER_FULL)"
    using full_iff [OF assms] by auto
  have fw: "rt_ringbuffer_status rb = RT_RINGBUFFER_FULL \<Longrightarrow> read_index rb = write_index rb"
    by (auto simp: rt_ringbuffer_status_def split: if_splits)
  show ?thesis
    using inv full fw
    by (cases "write_index rb = buffer_size rb - 1")
      (auto simp: rt_ringbuffer_putchar_force_def rt_ringbuffer_put_force_def Let_def rb_memcpy_1
        rb_memcpy_def [of _ 0 "[]"])
qed

lemma getchar_ok:
  assumes "rb_inv rb"
  shows "case rb_data rb of
      [] \<Rightarrow> rt_ringbuffer_getchar rb = (None, rb)
    | c # cs \<Rightarrow> \<exists>rb'. rt_ringbuffer_getchar rb = (Some c, rb') \<and> rb_inv rb' \<and> rb_data rb' = cs
        \<and> buffer_size rb' = buffer_size rb"
proof (cases "rb_data rb")
  case Nil
  then have "rt_ringbuffer_data_len rb = 0" using length_rb_data [of rb] by simp
  then show ?thesis by (simp add: Nil rt_ringbuffer_getchar_def)
next
  case (Cons c cs)
  then have nz: "rt_ringbuffer_data_len rb \<noteq> 0" using length_rb_data [of rb] by (metis length_0_conv list.distinct(1))
  have inv: "0 < buffer_size rb" "read_index rb < buffer_size rb" using assms by (auto simp: rb_inv_def)
  obtain rb' where g: "rt_ringbuffer_get rb 1 = (take 1 (rb_data rb), rb')" "rb_inv rb'"
    "buffer_size rb' = buffer_size rb" "rb_data rb' = drop 1 (rb_data rb)"
    using get_ok [OF assms, of 1] by blast
  have c: "buffer_ptr rb ! read_index rb = c"
    using nth_rb_data [of 0 rb] nz inv Cons by simp
  have "rt_ringbuffer_getchar rb = (Some c, rb')"
    using g(1) nz inv by (auto simp: rt_ringbuffer_getchar_def rt_ringbuffer_get_def Let_def c split: if_splits)
  then show ?thesis using g Cons by simp
qed

text \<open>peek is get of the longest piece that does not wrap, without copying.\<close>

lemma peek_eq_get:
  assumes "rb_inv rb" "rb_data rb \<noteq> []"
  defines "n \<equiv> min (rt_ringbuffer_data_len rb) (buffer_size rb - read_index rb)"
  shows "rt_ringbuffer_peek rb = ((n, Some (read_index rb)), snd (rt_ringbuffer_get rb n))"
proof -
  have "rt_ringbuffer_data_len rb \<noteq> 0" using assms(2) length_rb_data [of rb] by (metis length_0_conv)
  then show ?thesis
    by (auto simp: n_def rt_ringbuffer_peek_def rt_ringbuffer_get_def Let_def min_def)
qed

section \<open>Initialisation, creation and destruction\<close>

lemma init_ok:
  assumes "8 \<le> n" "n < 2 ^ 31" "n \<le> length pool"
  shows "rb_inv (rt_ringbuffer_init pool n) \<and> rb_data (rt_ringbuffer_init pool n) = []
    \<and> buffer_size (rt_ringbuffer_init pool n) = n div 8 * 8"
proof -
  have "unat (of_nat n :: u32) = n" using assms by (simp add: unat_of_nat)
  then have sz: "unat (RT_ALIGN_DOWN (of_nat n) RT_ALIGN_SIZE) = n div 8 * 8"
    by (simp add: rt_const unat_RT_ALIGN_DOWN)
  have "0 < n div 8 * 8" using assms(1) by simp
  then show ?thesis
    using assms(3) sz
    by (auto simp: rt_ringbuffer_init_def Let_def rb_inv_def rb_data_def rt_ringbuffer_data_len_def
        rt_ringbuffer_status_def)
qed

lemma reset_ok: "rb_inv rb \<Longrightarrow> rb_inv (rt_ringbuffer_reset rb) \<and> rb_data (rt_ringbuffer_reset rb) = []"
  by (simp add: rt_ringbuffer_reset_def rb_inv_def rb_data_def rt_ringbuffer_data_len_def
      rt_ringbuffer_status_def)

text \<open>\<open>sizeof(struct rt_ringbuffer)\<close>: a pointer, two index words and the size.\<close>

definition SIZEOF_RINGBUFFER :: nat where "SIZEOF_RINGBUFFER = 16"

text \<open>The heap side of creation: the object's and the pool's pointers, and the heap.\<close>

definition rt_ringbuffer_create :: "rt_small_mem \<Rightarrow> nat \<Rightarrow> ((nat \<times> nat) option \<times> rt_small_mem) option" where
  "rt_ringbuffer_create m n =
     (let sz = unat (RT_ALIGN_DOWN (of_nat n) RT_ALIGN_SIZE) in
      do { (rb, m1) \<leftarrow> rt_malloc m SIZEOF_RINGBUFFER;
           case rb of
             None \<Rightarrow> Some (None, m1)
           | Some r \<Rightarrow>
               do { (pool, m2) \<leftarrow> rt_malloc m1 sz;
                    case pool of
                      None \<Rightarrow> Some (None, rt_free m2 (Some r))
                    | Some p \<Rightarrow> Some (Some (r, p), m2) } })"

definition rt_ringbuffer_destroy :: "rt_small_mem \<Rightarrow> nat \<times> nat \<Rightarrow> rt_small_mem" where
  "rt_ringbuffer_destroy m rb = rt_free (rt_free m (Some (snd rb))) (Some (fst rb))"

section \<open>The contract as a locale\<close>

locale byte_fifo =
  fixes ok :: "'s \<Rightarrow> bool" and content :: "'s \<Rightarrow> u8 list" and cap :: "'s \<Rightarrow> nat"
    and put :: "'s \<Rightarrow> u8 list \<Rightarrow> nat \<times> 's" and get :: "'s \<Rightarrow> nat \<Rightarrow> u8 list \<times> 's"
  assumes put_law: "ok s \<Longrightarrow> put s xs = (n, s') \<Longrightarrow> ok s' \<and> cap s' = cap s
      \<and> n = min (cap s - length (content s)) (length xs) \<and> content s' = content s @ take n xs"
    and get_law: "ok s \<Longrightarrow> get s n = (ys, s') \<Longrightarrow> ok s' \<and> cap s' = cap s
      \<and> ys = take n (content s) \<and> content s' = drop n (content s)"
    and bound: "ok s \<Longrightarrow> length (content s) \<le> cap s"

text \<open>A conversation of block writes and reads: the bytes accepted, the bytes delivered.\<close>

datatype fifo_op = Put "u8 list" | Get nat

fun fifo_run :: "('s \<Rightarrow> u8 list \<Rightarrow> nat \<times> 's) \<Rightarrow> ('s \<Rightarrow> nat \<Rightarrow> u8 list \<times> 's) \<Rightarrow> fifo_op list \<Rightarrow> 's
    \<Rightarrow> u8 list \<times> u8 list \<times> 's" where
  "fifo_run put get [] s = ([], [], s)"
| "fifo_run put get (Put xs # ops) s =
     (let (n, s1) = put s xs; (ins, outs, s') = fifo_run put get ops s1
      in (take n xs @ ins, outs, s'))"
| "fifo_run put get (Get n # ops) s =
     (let (ys, s1) = get s n; (ins, outs, s') = fifo_run put get ops s1
      in (ins, ys @ outs, s'))"

context byte_fifo
begin

lemma stream:
  "ok s \<Longrightarrow> fifo_run put get ops s = (ins, outs, s')
   \<Longrightarrow> ok s' \<and> content s @ ins = outs @ content s'"
proof (induction ops arbitrary: s ins outs)
  case (Cons op ops)
  show ?case
  proof (cases op)
    case (Put xs)
    obtain n s1 where 1: "put s xs = (n, s1)" by force
    obtain ins1 where 2: "fifo_run put get ops s1 = (ins1, outs, s')" "ins = take n xs @ ins1"
      using Cons.prems(2) by (auto simp: Put 1 split: prod.splits)
    show ?thesis using Cons.IH [OF _ 2(1)] put_law [OF Cons.prems(1) 1] 2(2) by simp
  next
    case (Get n)
    obtain ys s1 where 1: "get s n = (ys, s1)" by force
    obtain outs1 where 2: "fifo_run put get ops s1 = (ins, outs1, s')" "outs = ys @ outs1"
      using Cons.prems(2) by (auto simp: Get 1 split: prod.splits)
    have c: "ok s1" "content s = ys @ content s1"
      using get_law [OF Cons.prems(1) 1] by simp_all
    show ?thesis using Cons.IH [OF c(1) 2(1)] c(2) 2(2) by simp
  qed
qed simp

lemma put_all:
  "ok s \<Longrightarrow> length (content s) + length xs \<le> cap s \<Longrightarrow> put s xs = (n, s')
   \<Longrightarrow> n = length xs \<and> content s' = content s @ xs"
  using put_law by fastforce

end

text \<open>The forcing writes keep the newest bytes.\<close>

locale overwriting_fifo = byte_fifo +
  fixes put_force :: "'a \<Rightarrow> u8 list \<Rightarrow> nat \<times> 'a"
  assumes put_force_law: "ok s \<Longrightarrow> put_force s xs = (n, s') \<Longrightarrow> ok s' \<and> cap s' = cap s
      \<and> content s' = newest (cap s) (content s @ xs)"
begin

lemma put_force_no_loss:
  "ok s \<Longrightarrow> length (content s) + length xs \<le> cap s \<Longrightarrow> put_force s xs = (n, s')
   \<Longrightarrow> content s' = content s @ xs"
  using put_force_law by (fastforce simp: newest_def)

end

interpretation ringbuffer: overwriting_fifo rb_inv rb_data buffer_size
  rt_ringbuffer_put rt_ringbuffer_get rt_ringbuffer_put_force
proof
  fix rb xs n rb'
  assume "rb_inv rb" "rt_ringbuffer_put rb xs = (n, rb')"
  then show "rb_inv rb' \<and> buffer_size rb' = buffer_size rb
      \<and> n = min (buffer_size rb - length (rb_data rb)) (length xs) \<and> rb_data rb' = rb_data rb @ take n xs"
    using put_ok [of rb xs] by (auto simp: rt_ringbuffer_space_len_def)
next
  fix rb n ys rb'
  assume "rb_inv rb" "rt_ringbuffer_get rb n = (ys, rb')"
  then show "rb_inv rb' \<and> buffer_size rb' = buffer_size rb
      \<and> ys = take n (rb_data rb) \<and> rb_data rb' = drop n (rb_data rb)"
    using get_ok [of rb n] by auto
next
  fix rb assume "rb_inv rb"
  then show "length (rb_data rb) \<le> buffer_size rb" by (simp add: data_len_le)
next
  fix rb xs n rb'
  assume "rb_inv rb" "rt_ringbuffer_put_force rb xs = (n, rb')"
  then show "rb_inv rb' \<and> buffer_size rb' = buffer_size rb
      \<and> rb_data rb' = newest (buffer_size rb) (rb_data rb @ xs)"
    using put_force_ok [of rb xs] by auto
qed

section \<open>Properties\<close>

definition demo_rb :: rt_ringbuffer where
  "demo_rb = rt_ringbuffer_init (replicate 8 0) 8"

lemma demo_rb_ok: "rb_inv demo_rb" "rb_data demo_rb = []" "buffer_size demo_rb = 8"
  using init_ok [of 8 "replicate 8 0"] by (simp_all add: demo_rb_def)

text \<open>C16. Writing a block appends as much of it as there is room for, in order, whether or not the
  copy wraps round the end of the pool, and returns that number.\<close>

theorem ringbuffer_put_refines:
  assumes "rb_inv rb"
  shows "\<exists>rb'. rt_ringbuffer_put rb ptr = (min (rt_ringbuffer_space_len rb) (length ptr), rb')
    \<and> rb_inv rb' \<and> buffer_size rb' = buffer_size rb
    \<and> rb_data rb' = rb_data rb @ take (min (rt_ringbuffer_space_len rb) (length ptr)) ptr"
  by (rule put_ok [OF assms])

theorem ringbuffer_put_refines_witness:
  "\<exists>rb'. rt_ringbuffer_put demo_rb [1, 2, 3] = (3, rb') \<and> rb_data rb' = [1, 2, 3]"
proof -
  have "rt_ringbuffer_data_len demo_rb = 0" using demo_rb_ok(2) length_rb_data [of demo_rb] by simp
  then have "rt_ringbuffer_space_len demo_rb = 8" by (simp add: rt_ringbuffer_space_len_def demo_rb_ok)
  then show ?thesis using ringbuffer_put_refines [OF demo_rb_ok(1), of "[1, 2, 3]"] demo_rb_ok(2) by auto
qed

text \<open>A forcing write never fails: afterwards the buffer holds the newest bytes of its old
  contents followed by the block, as many as fit.\<close>

theorem ringbuffer_put_force_keeps_newest:
  assumes "rb_inv rb"
  shows "\<exists>rb'. rt_ringbuffer_put_force rb ptr = (min (length ptr) (buffer_size rb), rb')
    \<and> rb_inv rb' \<and> buffer_size rb' = buffer_size rb
    \<and> rb_data rb' = newest (buffer_size rb) (rb_data rb @ ptr)"
  by (rule put_force_ok [OF assms])

theorem ringbuffer_put_force_keeps_newest_witness:
  "\<exists>rb'. rt_ringbuffer_put_force demo_rb [1, 2, 3, 4, 5, 6, 7, 8, 9] = (8, rb')
     \<and> rb_data rb' = [2, 3, 4, 5, 6, 7, 8, 9]"
  using ringbuffer_put_force_keeps_newest [OF demo_rb_ok(1), of "[1, 2, 3, 4, 5, 6, 7, 8, 9]"] demo_rb_ok
  by (auto simp: newest_def)

text \<open>C33. Through any conversation of writes and reads no byte is lost, duplicated or reordered:
  what was in the buffer followed by what was accepted is what was delivered followed by what is
  still in the buffer.\<close>

theorem ringbuffer_stream_order:
  assumes "rb_inv rb" "fifo_run rt_ringbuffer_put rt_ringbuffer_get ops rb = (ins, outs, rb')"
  shows "rb_inv rb' \<and> rb_data rb @ ins = outs @ rb_data rb'"
  by (rule ringbuffer.stream [OF assms])

theorem ringbuffer_stream_order_witness:
  "\<exists>ins outs rb'. fifo_run rt_ringbuffer_put rt_ringbuffer_get
      [Put [1, 2, 3, 4, 5], Get 3, Put [6, 7, 8, 9, 10, 11, 12], Get 7] demo_rb = (ins, outs, rb')
    \<and> ins = outs @ rb_data rb'"
proof -
  let ?ops = "[Put [1, 2, 3, 4, 5], Get 3, Put [6, 7, 8, 9, 10, 11, 12], Get 7]"
  obtain ins outs rb' where r: "fifo_run rt_ringbuffer_put rt_ringbuffer_get ?ops demo_rb = (ins, outs, rb')"
    by (metis prod_cases3)
  then show ?thesis using ringbuffer_stream_order [OF demo_rb_ok(1) r] demo_rb_ok(2) by auto
qed

text \<open>The single-byte operations agree with the block operations on one byte: putchar with put,
  putchar_force with put_force.\<close>

theorem ringbuffer_char_ops:
  assumes "rb_inv rb"
  shows "rt_ringbuffer_putchar rb ch = rt_ringbuffer_put rb [ch]
    \<and> rt_ringbuffer_putchar_force rb ch = rt_ringbuffer_put_force rb [ch]"
  using putchar_eq_put putchar_force_eq_put_force assms by blast

theorem ringbuffer_char_ops_witness:
  "rt_ringbuffer_putchar demo_rb 7 = rt_ringbuffer_put demo_rb [7]"
  using ringbuffer_char_ops [OF demo_rb_ok(1)] by blast

text \<open>Creating a ring buffer is all or nothing: when either allocation fails the heap has the
  live blocks it had before; otherwise it gains the object and the pool, and destroying the ring
  buffer gives back exactly these two.\<close>

theorem ringbuffer_create_no_leak:
  assumes "heap_live m L" "8 \<le> n" "n < 2 ^ 31"
  shows "\<exists>r m'. rt_ringbuffer_create m n = Some (r, m') \<and> (case r of
      None \<Rightarrow> heap_live m' L
    | Some rb \<Rightarrow> heap_live (rt_ringbuffer_destroy m' rb) L \<and> (\<exists>l1 l2. SIZEOF_RINGBUFFER \<le> l1 \<and> n div 8 * 8 \<le> l2
        \<and> heap_live m' (insert (snd rb, l2) (insert (fst rb, l1) L))))"
proof -
  have "unat (of_nat n :: u32) = n" using assms(3) by (simp add: unat_of_nat)
  then have sz: "unat (RT_ALIGN_DOWN (of_nat n) RT_ALIGN_SIZE) = n div 8 * 8"
    by (simp add: rt_const unat_RT_ALIGN_DOWN)
  obtain r1 m1 where 1: "rt_smem_alloc m 16 = Some (r1, m1)" "case r1 of None \<Rightarrow> m1 = m
     | Some p \<Rightarrow> \<exists>len. 16 \<le> len \<and> (p, len) \<notin> L \<and> heap_live m1 (insert (p, len) L)"
    using smem.alloc_step [OF assms(1), of 16] by auto
  show ?thesis
  proof (cases r1)
    case None
    then show ?thesis using 1 assms(1) by (simp add: rt_ringbuffer_create_def rt_malloc_def SIZEOF_RINGBUFFER_def)
  next
    case (Some p)
    then obtain l1 where l1: "16 \<le> l1" "(p, l1) \<notin> L" "heap_live m1 (insert (p, l1) L)" using 1 by auto
    have del: "insert (p, l1) L - {(p, l1)} = L" using l1(2) by auto
    have "0 < n div 8 * 8" "n div 8 * 8 < 2 ^ 32 - 7" using assms(2,3) by simp_all
    from smem.alloc_step [OF l1(3) this] obtain r2 m2 where
      2: "rt_smem_alloc m1 (n div 8 * 8) = Some (r2, m2)" "case r2 of None \<Rightarrow> m2 = m1
       | Some q \<Rightarrow> \<exists>len. n div 8 * 8 \<le> len \<and> (q, len) \<notin> insert (p, l1) L \<and> heap_live m2 (insert (q, len) (insert (p, l1) L))"
      by auto
    show ?thesis
    proof (cases r2)
      case None
      then show ?thesis
        using 1 2 Some sz smem.free_step [OF l1(3), of p l1] del
        by (simp add: rt_ringbuffer_create_def rt_malloc_def SIZEOF_RINGBUFFER_def rt_free_def)
    next
      case (Some q)
      then obtain l2 where l2: "n div 8 * 8 \<le> l2" "(q, l2) \<notin> insert (p, l1) L"
        "heap_live m2 (insert (q, l2) (insert (p, l1) L))" using 2 by auto
      have "insert (q, l2) (insert (p, l1) L) - {(q, l2)} = insert (p, l1) L" using l2(2) by auto
      then have "heap_live (rt_smem_free m2 (Some q)) (insert (p, l1) L)"
        using smem.free_step [OF l2(3), of q l2] by simp
      then have "heap_live (rt_ringbuffer_destroy m2 (p, q)) L"
        using smem.free_step [of _ _ p l1] del by (fastforce simp: rt_ringbuffer_destroy_def rt_free_def)
      then show ?thesis
        using 1 2 Some \<open>r1 = Some p\<close> sz l1(1) l2(1,3)
        by (auto simp: rt_ringbuffer_create_def rt_malloc_def SIZEOF_RINGBUFFER_def)
    qed
  qed
qed

theorem ringbuffer_create_no_leak_witness:
  "\<exists>r m'. rt_ringbuffer_create demo_heap 64 = Some (r, m') \<and> (r = None \<longrightarrow> heap_live m' {})"
  using ringbuffer_create_no_leak [OF demo_live, of 64] by auto

end
