(* ===== verification/Object.thy ===== *)
theory Object
  imports SmallMem
begin

text \<open>
  Kernel objects and their names (os_rtt/src/object.c). An object is the address of its header: the name in
  bytes 0 to 7, the type in byte 8, the flag in byte 9 and the list node behind them. Addresses count from
  the base of the heap, and the byte memory of the heap object is the memory of static objects too. The
  list of a container holds the addresses of its objects, the latest first; the ring it stands for is the
  subject of RtList. As the outermost result \<open>None\<close> is a call that follows a null pointer or does not
  return. Hooks and dynamic modules are configured off.
\<close>

section \<open>Containers\<close>

definition RT_Object_Class_Null :: u8 where [rt_const]: "RT_Object_Class_Null = 0"
definition RT_Object_Class_Thread :: u8 where [rt_const]: "RT_Object_Class_Thread = 1"
definition RT_Object_Class_Semaphore :: u8 where [rt_const]: "RT_Object_Class_Semaphore = 2"
definition RT_Object_Class_Mutex :: u8 where [rt_const]: "RT_Object_Class_Mutex = 3"
definition RT_Object_Class_Event :: u8 where [rt_const]: "RT_Object_Class_Event = 4"
definition RT_Object_Class_MemPool :: u8 where [rt_const]: "RT_Object_Class_MemPool = 8"
definition RT_Object_Class_Device :: u8 where [rt_const]: "RT_Object_Class_Device = 9"
definition RT_Object_Class_Timer :: u8 where [rt_const]: "RT_Object_Class_Timer = 0x0a"
definition RT_Object_Class_Memory :: u8 where [rt_const]: "RT_Object_Class_Memory = 0x0c"
definition RT_Object_Class_Custom :: u8 where [rt_const]: "RT_Object_Class_Custom = 0x0e"
definition RT_Object_Class_Static :: u8 where [rt_const]: "RT_Object_Class_Static = 0x80"

text \<open>
  The types of the entries of \<open>_object_container\<close> in this configuration. The enumeration of the entries has
  one for custom objects, but the array has an initialiser for it only with RT_USING_SMART: here the last
  entry is all zeros, so its list is not a ring but a pair of null pointers.
\<close>

definition object_container :: "u8 list" where
  "object_container = [RT_Object_Class_Thread, RT_Object_Class_Semaphore, RT_Object_Class_Mutex, RT_Object_Class_Event,
     RT_Object_Class_MemPool, RT_Object_Class_Device, RT_Object_Class_Timer, RT_Object_Class_Memory, 0]"

record objects =
  omem :: rt_small_mem
  olists :: "nat \<Rightarrow> nat list option"

definition containers_init :: "nat \<Rightarrow> nat list option" where
  "containers_init i = (if i < 8 then Some [] else None)"

fun find_info :: "u8 list \<Rightarrow> nat \<Rightarrow> u8 \<Rightarrow> nat option" where
  "find_info [] index type = None"
| "find_info (c # cs) index type = (if c = type then Some index else find_info cs (index + 1) type)"

definition rt_object_get_information :: "u8 \<Rightarrow> nat option" where
  "rt_object_get_information type = find_info object_container 0 type"

section \<open>Operations\<close>

abbreviation obytes :: "objects \<Rightarrow> mem" where
  "obytes s \<equiv> bytes (omem s)"

definition with_bytes :: "mem \<Rightarrow> objects \<Rightarrow> objects" where
  "with_bytes m s = s\<lparr>omem := (omem s)\<lparr>bytes := m\<rparr>\<rparr>"

text \<open>\<open>rt_list_insert_after(&(information->object_list), &(object->list))\<close>\<close>

definition attach :: "nat \<Rightarrow> nat \<Rightarrow> objects \<Rightarrow> objects option" where
  "attach i obj s = map_option (\<lambda>xs. s\<lparr>olists := (olists s)(i := Some (obj # xs))\<rparr>) (olists s i)"

definition unlink :: "nat \<Rightarrow> objects \<Rightarrow> objects" where
  "unlink obj s = s\<lparr>olists := (\<lambda>i. map_option (filter (\<lambda>x. x \<noteq> obj)) (olists s i))\<rparr>"

definition rt_object_get_length :: "u8 \<Rightarrow> objects \<Rightarrow> nat option" where
  "rt_object_get_length type s =
     (case rt_object_get_information type of None \<Rightarrow> Some 0 | Some i \<Rightarrow> map_option length (olists s i))"

fun copy_pointers :: "nat list \<Rightarrow> int \<Rightarrow> int \<Rightarrow> nat list" where
  "copy_pointers [] index maxlen = []"
| "copy_pointers (obj # os) index maxlen =
     obj # (if index + 1 \<ge> maxlen then [] else copy_pointers os (index + 1) maxlen)"

text \<open>The pointers stored; the result of the call is their number.\<close>

definition rt_object_get_pointers :: "u8 \<Rightarrow> int \<Rightarrow> objects \<Rightarrow> nat list option" where
  "rt_object_get_pointers type maxlen s =
     (if maxlen \<le> 0 then Some []
      else case rt_object_get_information type of None \<Rightarrow> Some []
        | Some i \<Rightarrow> map_option (\<lambda>xs. copy_pointers xs 0 maxlen) (olists s i))"

definition rt_object_init :: "nat \<Rightarrow> u8 \<Rightarrow> nat \<Rightarrow> objects \<Rightarrow> objects option" where
  "rt_object_init obj type name s =
     do { i \<leftarrow> rt_object_get_information type;
          let m1 = (obytes s)(obj + 8 := type OR RT_Object_Class_Static);
          let m2 = snd (strncpy m1 obj name RT_NAME_MAX);
          attach i obj (with_bytes m2 s) }"

definition rt_object_detach :: "nat \<Rightarrow> objects \<Rightarrow> objects" where
  "rt_object_detach obj s = unlink obj (with_bytes ((obytes s)(obj + 8 := 0)) s)"

text \<open>\<open>osize i\<close> is the size of the struct of container \<open>i\<close>, which the compiler chooses.\<close>

definition rt_object_allocate :: "(nat \<Rightarrow> nat) \<Rightarrow> u8 \<Rightarrow> nat \<Rightarrow> objects \<Rightarrow> (nat option \<times> objects) option" where
  "rt_object_allocate osize type name s =
     do { i \<leftarrow> rt_object_get_information type;
          (r, h) \<leftarrow> rt_malloc (omem s) (osize i);
          case r of
            None \<Rightarrow> Some (None, s\<lparr>omem := h\<rparr>)
          | Some obj \<Rightarrow>
              do { let m1 = snd (memset (bytes h) obj 0 (osize i));
                   let m2 = m1(obj + 8 := type, obj + 9 := 0);
                   let m3 = snd (strncpy m2 obj name RT_NAME_MAX);
                   s' \<leftarrow> attach i obj (with_bytes m3 (s\<lparr>omem := h\<rparr>));
                   Some (Some obj, s') } }"

definition rt_object_delete :: "nat \<Rightarrow> objects \<Rightarrow> objects" where
  "rt_object_delete obj s =
     (let s1 = unlink obj (with_bytes ((obytes s)(obj + 8 := RT_Object_Class_Null)) s)
      in s1\<lparr>omem := rt_free (omem s1) (Some obj)\<rparr>)"

definition rt_object_is_systemobject :: "nat \<Rightarrow> objects \<Rightarrow> bool" where
  "rt_object_is_systemobject obj s \<longleftrightarrow> obytes s (obj + 8) AND RT_Object_Class_Static \<noteq> 0"

definition rt_object_get_type :: "nat \<Rightarrow> objects \<Rightarrow> u8" where
  "rt_object_get_type obj s = obytes s (obj + 8) AND NOT RT_Object_Class_Static"

fun find_loop :: "mem \<Rightarrow> nat \<Rightarrow> nat list \<Rightarrow> nat option" where
  "find_loop m name [] = None"
| "find_loop m name (obj # os) = (if strncmp m obj name RT_NAME_MAX = 0 then Some obj else find_loop m name os)"

definition rt_object_find :: "nat option \<Rightarrow> u8 \<Rightarrow> objects \<Rightarrow> nat option option" where
  "rt_object_find name type s =
     (case (name, rt_object_get_information type) of
        (Some a, Some i) \<Rightarrow> map_option (find_loop (obytes s) a) (olists s i)
      | _ \<Rightarrow> Some None)"

definition rt_object_get_name :: "nat option \<Rightarrow> nat option \<Rightarrow> u8 \<Rightarrow> objects \<Rightarrow> rt_err_t \<times> objects" where
  "rt_object_get_name obj name name_size s =
     (case (obj, name) of
        (Some ob, Some a) \<Rightarrow>
          if name_size \<noteq> 0 then (RT_EOK, with_bytes (snd (strncpy (obytes s) a ob (unat name_size))) s) else (- RT_EINVAL, s)
      | _ \<Rightarrow> (- RT_EINVAL, s))"

text \<open>Custom objects: \<open>destroy\<close> and \<open>data\<close> are the two fields after the header.\<close>

record custom_fields =
  destroy :: "nat option"
  cdata :: nat

type_synonym customs = "nat \<Rightarrow> custom_fields"

definition rt_custom_object_create ::
  "(nat \<Rightarrow> nat) \<Rightarrow> nat \<Rightarrow> nat \<Rightarrow> nat option \<Rightarrow> objects \<Rightarrow> customs \<Rightarrow> (nat option \<times> objects \<times> customs) option" where
  "rt_custom_object_create osize name data data_destroy s c =
     do { (r, s') \<leftarrow> rt_object_allocate osize RT_Object_Class_Custom name s;
          case r of None \<Rightarrow> Some (None, s', c)
          | Some obj \<Rightarrow> Some (Some obj, s', c(obj := \<lparr>destroy = data_destroy, cdata = data\<rparr>)) }"

text \<open>\<open>call f d\<close> is what the function \<open>f\<close> of the application returns.\<close>

definition rt_custom_object_destroy :: "(nat \<Rightarrow> nat \<Rightarrow> rt_err_t) \<Rightarrow> nat option \<Rightarrow> objects \<Rightarrow> customs \<Rightarrow> rt_err_t \<times> objects" where
  "rt_custom_object_destroy call obj s c =
     (case obj of
        Some ob \<Rightarrow>
          if obytes s (ob + 8) = RT_Object_Class_Custom
          then ((case destroy (c ob) of Some f \<Rightarrow> call f (cdata (c ob)) | None \<Rightarrow> - 1), rt_object_delete ob s)
          else (- 1, s)
      | None \<Rightarrow> (- 1, s))"

section \<open>The directory of names\<close>

text \<open>The name as it stands in the eight bytes of the field.\<close>

definition oname :: "mem \<Rightarrow> nat \<Rightarrow> u8 list" where
  "oname m obj = takeWhile (\<lambda>c. c \<noteq> 0) (bytes_at m obj RT_NAME_MAX)"

definition dir :: "objects \<Rightarrow> nat \<Rightarrow> (nat \<times> u8 list) list option" where
  "dir s i = map_option (map (\<lambda>ob. (ob, oname (obytes s) ob))) (olists s i)"

definition members :: "objects \<Rightarrow> nat set" where
  "members s = {ob. \<exists>i xs. olists s i = Some xs \<and> ob \<in> set xs}"

definition apart :: "nat \<Rightarrow> nat \<Rightarrow> bool" where
  "apart a b \<longleftrightarrow> a + 20 \<le> b \<or> b + 20 \<le> a"

text \<open>
  The invariant: headers do not overlap, every object is in one list, and its name and type are as its
  container wants them.
\<close>

definition dir_ok :: "objects \<Rightarrow> bool" where
  "dir_ok s \<longleftrightarrow>
     (\<forall>a \<in> members s. \<forall>b \<in> members s. a \<noteq> b \<longrightarrow> apart a b)
     \<and> (\<forall>i xs. olists s i = Some xs \<longrightarrow> i < 8 \<and> distinct xs
          \<and> (\<forall>ob \<in> set xs. rt_object_get_type ob s = object_container ! i
               \<and> (\<exists>cs. cstr (obytes s) ob cs \<and> length cs < RT_NAME_MAX)))
     \<and> (\<forall>i j xs ys. olists s i = Some xs \<longrightarrow> olists s j = Some ys \<longrightarrow> i \<noteq> j \<longrightarrow> set xs \<inter> set ys = {})"

lemma dir_okD:
  assumes "dir_ok s"
  shows "a \<in> members s \<Longrightarrow> b \<in> members s \<Longrightarrow> a \<noteq> b \<Longrightarrow> apart a b"
    "olists s i = Some xs \<Longrightarrow> i < 8 \<and> distinct xs"
    "olists s i = Some xs \<Longrightarrow> ob \<in> set xs \<Longrightarrow> rt_object_get_type ob s = object_container ! i"
    "olists s i = Some xs \<Longrightarrow> ob \<in> set xs \<Longrightarrow> \<exists>cs. cstr (obytes s) ob cs \<and> length cs < RT_NAME_MAX"
    "olists s i = Some xs \<Longrightarrow> olists s j = Some ys \<Longrightarrow> i \<noteq> j \<Longrightarrow> set xs \<inter> set ys = {}"
  using assms unfolding dir_ok_def by blast+

lemma with_bytes_sel [simp]:
  "olists (with_bytes m s) = olists s" "obytes (with_bytes m s) = m" "with_bytes m' (with_bytes m s) = with_bytes m' s"
  by (simp_all add: with_bytes_def)

lemma unlink_sel [simp]: "omem (unlink ob s) = omem s"
  by (simp add: unlink_def)

lemma oname_cstr: "cstr m a cs \<Longrightarrow> length cs < RT_NAME_MAX \<Longrightarrow> oname m a = cs"
proof -
  assume c: "cstr m a cs" and l: "length cs < RT_NAME_MAX"
  have "bytes_at m a RT_NAME_MAX = cs @ 0 # map (\<lambda>i. m (a + i)) [Suc (length cs)..<RT_NAME_MAX]"
  proof -
    have e: "[0..<RT_NAME_MAX] = [0..<length cs] @ length cs # [Suc (length cs)..<RT_NAME_MAX]"
      using l upt_add_eq_append [of 0 "length cs" "RT_NAME_MAX - length cs"] by (simp add: upt_conv_Cons)
    have "map (\<lambda>i. m (a + i)) [0..<length cs] = cs" using c by (auto simp: cstr_iff intro: nth_equalityI)
    then show ?thesis using c by (simp add: bytes_at_def e cstr_iff)
  qed
  moreover have "\<forall>c \<in> set cs. c \<noteq> 0" using c by (auto simp: cstr_iff in_set_conv_nth)
  ultimately show "oname m a = cs" by (simp add: oname_def takeWhile_append)
qed

lemma oname_cong: "(\<And>i. i < RT_NAME_MAX \<Longrightarrow> m (a + i) = m' (a + i)) \<Longrightarrow> oname m a = oname m' a"
  unfolding oname_def bytes_at_def by (intro arg_cong [where f = "takeWhile (\<lambda>c. c \<noteq> 0)"] map_cong) auto

text \<open>An object whose ten bytes are the same is the same object.\<close>

lemma object_frame:
  assumes "\<And>i. i < 10 \<Longrightarrow> obytes s' (a + i) = obytes s (a + i)"
  shows "rt_object_get_type a s' = rt_object_get_type a s" "oname (obytes s') a = oname (obytes s) a"
    "cstr (obytes s) a cs \<Longrightarrow> length cs < RT_NAME_MAX \<Longrightarrow> cstr (obytes s') a cs"
proof -
  show "rt_object_get_type a s' = rt_object_get_type a s" using assms [of 8] by (simp add: rt_object_get_type_def)
  show "oname (obytes s') a = oname (obytes s) a" by (rule oname_cong) (simp add: assms rt_const)
  show "cstr (obytes s') a cs" if "cstr (obytes s) a cs" "length cs < RT_NAME_MAX"
    using that(1) by (rule cstr_cong) (use that(2) assms in \<open>simp add: rt_const\<close>)
qed

lemma attach_ok:
  assumes ok: "dir_ok s" and xs: "olists s i = Some xs" and fresh: "\<forall>a \<in> members s. apart a obj"
    and s1: "olists s1 = olists s" "\<forall>a \<in> members s. \<forall>j<20. obytes s1 (a + j) = obytes s (a + j)"
    and name: "cstr (obytes s1) obj cs" "length cs < RT_NAME_MAX" and type: "rt_object_get_type obj s1 = object_container ! i"
  shows "\<exists>s'. attach i obj s1 = Some s' \<and> dir_ok s' \<and> dir s' = (dir s)(i := Some ((obj, cs) # the (dir s i)))
    \<and> omem s' = omem s1 \<and> members s' = insert obj (members s)"
proof -
  define s' where "s' = s1\<lparr>olists := (olists s)(i := Some (obj # xs))\<rparr>"
  have e: "attach i obj s1 = Some s'" by (simp add: attach_def s1(1) xs s'_def)
  have same: "obytes s' (a + j) = obytes s (a + j)" if "a \<in> members s" "j < 10" for a j
    using that s1(2) by (simp add: s'_def)
  have m: "members s' = insert obj (members s)"
    using xs by (auto simp: members_def s'_def split: if_splits) (metis option.inject)
  have new: "obj \<notin> members s" using fresh by (auto simp: apart_def)
  have mem: "ob \<in> members s" if "olists s j = Some ys" "ob \<in> set ys" for j ys ob using that by (auto simp: members_def)
  have old: "rt_object_get_type ob s' = object_container ! j \<and> (\<exists>cs. cstr (obytes s') ob cs \<and> length cs < RT_NAME_MAX)
      \<and> oname (obytes s') ob = oname (obytes s) ob"
    if "olists s j = Some ys" "ob \<in> set ys" for j ys ob
    using object_frame [of s' ob s] same [OF mem [OF that]] dir_okD(3,4) [OF ok that] by metis
  have ob: "rt_object_get_type obj s' = object_container ! i" "cstr (obytes s') obj cs"
    using type name(1) by (simp_all add: s'_def rt_object_get_type_def)
  have "dir_ok s'"
    unfolding dir_ok_def
  proof (intro conjI allI impI ballI)
    show "apart a b" if "a \<in> members s'" "b \<in> members s'" "a \<noteq> b" for a b
      using that fresh dir_okD(1) [OF ok] by (auto simp: m apart_def)
  next
    fix j ys assume j: "olists s' j = Some ys"
    have "j < 8 \<and> distinct ys \<and> (\<forall>ob\<in>set ys. rt_object_get_type ob s' = object_container ! j
        \<and> (\<exists>cs. cstr (obytes s') ob cs \<and> length cs < RT_NAME_MAX))"
    proof (cases "j = i")
      case True
      then have "ys = obj # xs" using j by (simp add: s'_def)
      then show ?thesis using True ob name(2) old [OF xs] dir_okD(2) [OF ok xs] new mem [OF xs] by auto
    next
      case False
      then have "olists s j = Some ys" using j by (simp add: s'_def)
      then show ?thesis using old dir_okD(2) [OF ok] by blast
    qed
    then show "j < 8" "distinct ys" "\<And>ob. ob \<in> set ys \<Longrightarrow> rt_object_get_type ob s' = object_container ! j"
      "\<And>ob. ob \<in> set ys \<Longrightarrow> \<exists>cs. cstr (obytes s') ob cs \<and> length cs < RT_NAME_MAX" by blast+
  next
    fix j k ys zs assume a: "olists s' j = Some ys" "olists s' k = Some zs" "j \<noteq> k"
    show "set ys \<inter> set zs = {}"
      using a new mem xs dir_okD(5) [OF ok, of j _ k] by (fastforce simp: s'_def split: if_splits)
  qed
  moreover have "dir s' = (dir s)(i := Some ((obj, cs) # the (dir s i)))"
  proof
    fix j
    show "dir s' j = ((dir s)(i := Some ((obj, cs) # the (dir s i)))) j"
    proof (cases "olists s j")
      case None
      then show ?thesis using xs by (auto simp: dir_def s'_def)
    next
      case (Some ys)
      have "map (\<lambda>ob. (ob, oname (obytes s') ob)) ys = map (\<lambda>ob. (ob, oname (obytes s) ob)) ys"
        using old [OF Some] by simp
      then show ?thesis using xs Some oname_cstr [OF ob(2) name(2)] by (auto simp: dir_def s'_def)
    qed
  qed
  ultimately show ?thesis using e m by (auto simp: s'_def)
qed

lemma find_info_class: "rt_object_get_information type = Some i \<Longrightarrow> i < 8 \<Longrightarrow> object_container ! i = type \<and> type AND RT_Object_Class_Static = 0"
  by (auto simp: rt_object_get_information_def object_container_def rt_const split: if_splits)

text \<open>A padded field holds the string.\<close>

lemma strncpy_cstr:
  assumes "cstr m0 b cs" "length cs < n" "bytes_at m a n = cs @ replicate (n - length cs) 0"
  shows "cstr m a cs"
proof -
  have at: "m (a + j) = (cs @ replicate (n - length cs) 0) ! j" if "j < n" for j
    using arg_cong [OF assms(3), of "\<lambda>l. l ! j"] that by (simp add: bytes_at_def)
  show ?thesis
    unfolding cstr_iff
  proof (intro conjI allI impI)
    fix j assume j: "j < length cs"
    show "cs ! j \<noteq> 0" using assms(1) j by (simp add: cstr_iff)
    show "m (a + j) = cs ! j" using at [of j] j assms(2) by (simp add: nth_append)
  qed (use at [of "length cs"] assms(2) in \<open>simp add: nth_append\<close>)
qed

text \<open>Entering a static object.\<close>

lemma object_init_ok:
  assumes ok: "dir_ok s" and i: "rt_object_get_information type = Some i" and xs: "olists s i = Some xs"
    and fresh: "\<forall>a \<in> members s. apart a obj"
    and name: "cstr (obytes s) name cs" "length cs < RT_NAME_MAX" "name + length cs < obj \<or> obj + 20 \<le> name"
  shows "\<exists>s'. rt_object_init obj type name s = Some s' \<and> dir_ok s' \<and> dir s' = (dir s)(i := Some ((obj, cs) # the (dir s i)))
    \<and> members s' = insert obj (members s) \<and> rt_object_is_systemobject obj s'
    \<and> (\<forall>a. a < obj \<or> obj + 20 \<le> a \<longrightarrow> obytes s' a = obytes s a)"
proof -
  define m1 where "m1 = (obytes s)(obj + 8 := type OR RT_Object_Class_Static)"
  define m2 where "m2 = snd (strncpy m1 obj name RT_NAME_MAX)"
  have n1: "cstr m1 name cs" unfolding m1_def using name(1) by (rule cstr_upd) (use name(3) in auto)
  have "obj + RT_NAME_MAX \<le> name \<or> name + length cs < obj" using name(3) by (auto simp: rt_const)
  then have p: "bytes_at m2 obj RT_NAME_MAX = cs @ replicate (RT_NAME_MAX - length cs) 0"
    "\<forall>a. a < obj \<or> obj + RT_NAME_MAX \<le> a \<longrightarrow> m2 a = m1 a"
    using strncpy_pads [OF n1 name(2), of obj "fst (strncpy m1 obj name RT_NAME_MAX)" m2] by (auto simp: m2_def)
  have c2: "cstr m2 obj cs" by (rule strncpy_cstr [OF n1 name(2) p(1)])
  have t: "m2 (obj + 8) = type OR RT_Object_Class_Static" using p(2) by (simp add: m1_def rt_const)
  have k: "i < 8" using dir_okD(2) [OF ok xs] by simp
  note ty = find_info_class [OF i k]
  have gt: "rt_object_get_type obj (with_bytes m2 s) = object_container ! i"
    unfolding rt_object_get_type_def with_bytes_sel t using ty
    by (simp add: bit_eq_iff bit_simps) blast
  have fr: "\<forall>a. a < obj \<or> obj + 20 \<le> a \<longrightarrow> obytes (with_bytes m2 s) a = obytes s a"
    using p(2) by (auto simp: m1_def rt_const)
  have fr': "\<forall>a \<in> members s. \<forall>j<20. obytes (with_bytes m2 s) (a + j) = obytes s (a + j)"
    using fr fresh unfolding apart_def by (meson add_le_mono1 less_add_same_cancel1 not_less order_trans trans_less_add1 add_less_cancel_left less_le_trans)
  obtain s' where s': "attach i obj (with_bytes m2 s) = Some s'" "dir_ok s'" "dir s' = (dir s)(i := Some ((obj, cs) # the (dir s i)))"
      "omem s' = omem (with_bytes m2 s)" "members s' = insert obj (members s)"
    using attach_ok [OF ok xs fresh _ fr' _ name(2) gt] c2 by auto
  have "rt_object_init obj type name s = Some s'"
    by (simp add: rt_object_init_def i m1_def [symmetric] m2_def [symmetric] s'(1))
  moreover have "rt_object_is_systemobject obj s'"
  proof -
    have "(type OR RT_Object_Class_Static) AND RT_Object_Class_Static = RT_Object_Class_Static"
      by (rule bit_word_eqI) (auto simp: bit_simps)
    then show ?thesis unfolding rt_object_is_systemobject_def s'(4) with_bytes_sel t by (simp add: rt_const)
  qed
  moreover have "\<forall>a. a < obj \<or> obj + 20 \<le> a \<longrightarrow> obytes s' a = obytes s a" using fr s'(4) by simp
  ultimately show ?thesis using s' by blast
qed

text \<open>Taking an object out.\<close>

lemma unlink_ok:
  assumes ok: "dir_ok s" and s1: "olists s1 = olists s" "\<forall>a. a < obj \<or> obj + 20 \<le> a \<longrightarrow> obytes s1 a = obytes s a"
    and mem: "obj \<in> members s"
  shows "dir_ok (unlink obj s1)" "dir (unlink obj s1) = (\<lambda>i. map_option (filter (\<lambda>(ob, n). ob \<noteq> obj)) (dir s i))"
    "members (unlink obj s1) = members s - {obj}"
proof -
  let ?s = "unlink obj s1"
  have m: "members ?s = members s - {obj}" by (force simp: members_def unlink_def s1(1))
  then show "members ?s = members s - {obj}" .
  have same: "obytes ?s (a + j) = obytes s (a + j)" if "a \<in> members s" "a \<noteq> obj" "j < 10" for a j
    using s1(2) that dir_okD(1) [OF ok that(1) mem that(2)] by (auto simp: apart_def)
  have old: "rt_object_get_type ob ?s = object_container ! j \<and> (\<exists>cs. cstr (obytes ?s) ob cs \<and> length cs < RT_NAME_MAX)
      \<and> oname (obytes ?s) ob = oname (obytes s) ob"
    if "olists s j = Some ys" "ob \<in> set ys" "ob \<noteq> obj" for j ys ob
  proof -
    have "ob \<in> members s" using that by (auto simp: members_def)
    then show ?thesis using object_frame [of ?s ob s] same that(3) dir_okD(3,4) [OF ok that(1,2)] by metis
  qed
  show "dir_ok ?s"
    unfolding dir_ok_def
  proof (intro conjI allI impI ballI)
    show "apart a b" if "a \<in> members ?s" "b \<in> members ?s" "a \<noteq> b" for a b
      using that dir_okD(1) [OF ok] by (auto simp: m)
  next
    fix j zs assume "olists ?s j = Some zs"
    then obtain ys where ys: "olists s j = Some ys" "zs = filter (\<lambda>x. x \<noteq> obj) ys" by (auto simp: unlink_def s1(1))
    then show "j < 8" "distinct zs" using dir_okD(2) [OF ok ys(1)] by auto
    show "rt_object_get_type ob ?s = object_container ! j" "\<exists>cs. cstr (obytes ?s) ob cs \<and> length cs < RT_NAME_MAX"
      if "ob \<in> set zs" for ob using old [OF ys(1), of ob] that ys(2) by auto
  next
    fix j k ys zs assume "olists ?s j = Some ys" "olists ?s k = Some zs" "j \<noteq> k"
    then show "set ys \<inter> set zs = {}" using dir_okD(5) [OF ok, of j _ k] by (fastforce simp: unlink_def s1(1))
  qed
  show "dir ?s = (\<lambda>i. map_option (filter (\<lambda>(ob, n). ob \<noteq> obj)) (dir s i))"
  proof
    fix j
    show "dir ?s j = map_option (filter (\<lambda>(ob, n). ob \<noteq> obj)) (dir s j)"
    proof (cases "olists s j")
      case None
      then show ?thesis by (simp add: dir_def unlink_def s1(1))
    next
      case (Some ys)
      then show ?thesis using old [OF Some] by (simp add: dir_def unlink_def s1(1) filter_map o_def)
    qed
  qed
qed

text \<open>The comparison of the search with a stored name.\<close>

lemma same_name:
  assumes a: "cstr m a ns" "length ns < 8" and b: "cstr m b cs"
  shows "strncmp m a b 8 = 0 \<longleftrightarrow> ns = take 7 cs"
proof (cases "\<forall>i\<le>length ns. m (a + i) = m (b + i)")
  case True
  have e: "ns = cs"
  proof -
    have l: "length cs = length ns"
    proof (rule ccontr)
      assume "length cs \<noteq> length ns"
      then consider "length cs < length ns" | "length ns < length cs" by linarith
      then show False using True a(1) b by cases (auto simp: cstr_iff)
    qed
    show ?thesis using True a(1) b l by (auto simp: cstr_iff intro: nth_equalityI)
  qed
  have nz: "\<forall>i<length ns. m (a + i) \<noteq> 0 \<and> m (a + i) = m (b + i)" using a(1) b e by (simp add: cstr_iff)
  have z: "m (a + length ns) = 0" "m (b + length ns) = 0" using a(1) b e by (simp_all add: cstr_iff)
  obtain k where "8 - length ns = Suc k" using a(2) by (cases "8 - length ns") auto
  then have "strncmp m a b 8 = 0"
    using strncmp_loop_common [OF nz, of 8] a(2) z by (simp add: strncmp_def)
  then show ?thesis using e a(2) by simp
next
  case False
  define k where "k = (LEAST i. m (a + i) \<noteq> m (b + i))"
  have k: "m (a + k) \<noteq> m (b + k)" "k \<le> length ns" "\<forall>i<k. m (a + i) = m (b + i)"
    using False LeastI [of "\<lambda>i. m (a + i) \<noteq> m (b + i)"] not_less_Least [of _ "\<lambda>i. m (a + i) \<noteq> m (b + i)"]
      Least_le [of "\<lambda>i. m (a + i) \<noteq> m (b + i)"] unfolding k_def by (blast, meson order_trans, blast)
  have nz: "\<forall>i<k. m (a + i) \<noteq> 0 \<and> m (a + i) = m (b + i)"
  proof (intro allI impI)
    fix i assume i: "i < k"
    then have "i < length ns" using k(2) by simp
    then show "m (a + i) \<noteq> 0 \<and> m (a + i) = m (b + i)" using k(3) i a(1) by (metis cstr_iff)
  qed
  obtain j where j: "8 - k = Suc j" using k(2) a(2) by (cases "8 - k") auto
  have r: "strncmp m a b 8 = (if j = 0 then 0 else uint (m (a + k)) - uint (m (b + k)))"
    using strncmp_loop_common [OF nz, of 8] k(1,2) a(2) j by (auto simp: strncmp_def)
  have kc: "k \<le> length cs"
  proof (rule ccontr)
    assume "\<not> k \<le> length cs"
    then have "m (b + length cs) \<noteq> 0" using nz by (metis not_le)
    then show False using b by (simp add: cstr_iff)
  qed
  have pre: "take k ns = take k cs"
    using nz k(2) kc a(1) b by (intro nth_equalityI) (simp_all add: cstr_iff)
  show ?thesis
  proof (cases "k = 7")
    case True
    then have "ns = take 7 cs" using pre k(2) a(2) by simp
    moreover have "j = 0" using j True by simp
    ultimately show ?thesis using r by simp
  next
    case False
    then have k7: "k < 7" using k(2) a(2) by simp
    have "ns \<noteq> take 7 cs"
    proof
      assume e: "ns = take 7 cs"
      have "m (a + k) = m (b + k)"
      proof (cases "k < length ns")
        case True
        then have "m (a + k) = ns ! k" "m (b + k) = cs ! k" using a(1) b e by (simp_all add: cstr_iff)
        then show ?thesis using e k7 by simp
      next
        case False
        then have "k = length ns" "k = length cs" using k(2) k7 e by auto
        then show ?thesis using a(1) b by (simp add: cstr_iff)
      qed
      then show False using k(1) by simp
    qed
    moreover have "uint (m (a + k)) \<noteq> uint (m (b + k))" using k(1) by (metis word_uint_eq_iff)
    moreover have "j \<noteq> 0" using j k7 by simp
    ultimately show ?thesis using r by simp
  qed
qed


lemma find_loop_eq:
  assumes "cstr m b cs" "\<forall>ob \<in> set xs. \<exists>ns. cstr m ob ns \<and> length ns < RT_NAME_MAX"
  shows "find_loop m b xs = map_option fst (find (\<lambda>(ob, n). n = take 7 cs) (map (\<lambda>ob. (ob, oname m ob)) xs))"
  using assms(2)
proof (induction xs)
  case (Cons ob xs)
  obtain ns where ns: "cstr m ob ns" "length ns < RT_NAME_MAX" using Cons.prems by auto
  have "strncmp m ob b RT_NAME_MAX = 0 \<longleftrightarrow> ns = take 7 cs" using same_name [OF ns(1) _ assms(1)] ns(2) by (simp add: rt_const)
  then show ?case using Cons oname_cstr [OF ns] by simp
qed simp

lemma find_ok:
  assumes "dir_ok s" "rt_object_get_information type = Some i" "olists s i = Some xs" "cstr (obytes s) name cs"
  shows "rt_object_find (Some name) type s = Some (map_option fst (find (\<lambda>(ob, n). n = take 7 cs) (the (dir s i))))"
  using find_loop_eq [OF assms(4), of xs] dir_okD(4) [OF assms(1,3)] assms(2,3)
  by (simp add: rt_object_find_def dir_def)

lemma filter_out:
  assumes "obj \<notin> members s" "olists s i = Some xs"
  shows "(\<lambda>j. map_option (filter (\<lambda>(ob, n). ob \<noteq> obj)) (((dir s)(i := Some ((obj, cs) # the (dir s i)))) j)) = dir s"
proof
  fix j
  have k: "filter (\<lambda>(ob, n). ob \<noteq> obj) es = es" if "dir s k = Some es" for k es
    using that assms(1) by (fastforce simp: dir_def members_def filter_id_conv)
  obtain es where es: "dir s i = Some es" using assms(2) by (simp add: dir_def)
  show "map_option (filter (\<lambda>(ob, n). ob \<noteq> obj)) (((dir s)(i := Some ((obj, cs) # the (dir s i)))) j) = dir s j"
    using k [OF es] k [of j] es by (cases "dir s j") auto
qed

lemma dir_heap: "bytes h = obytes s \<Longrightarrow> dir (s\<lparr>omem := h\<rparr>) = dir s"
  by (rule ext) (simp add: dir_def)

lemma dir_ok_heap: "bytes h = obytes s \<Longrightarrow> dir_ok (s\<lparr>omem := h\<rparr>) = dir_ok s"
  by (simp add: dir_ok_def members_def rt_object_get_type_def)

lemma delete_ok:
  assumes "dir_ok s" "obj \<in> members s" "heap_live (omem s) L" "(obj, len) \<in> L"
  shows "dir_ok (rt_object_delete obj s)" "dir (rt_object_delete obj s) = (\<lambda>i. map_option (filter (\<lambda>(ob, n). ob \<noteq> obj)) (dir s i))"
    "heap_live (omem (rt_object_delete obj s)) (L - {(obj, len)})"
proof -
  define s2 where "s2 = unlink obj (with_bytes ((obytes s)(obj + 8 := RT_Object_Class_Null)) s)"
  have s2: "dir_ok s2" "dir s2 = (\<lambda>i. map_option (filter (\<lambda>(ob, n). ob \<noteq> obj)) (dir s i))"
    unfolding s2_def using assms(2) by (intro unlink_ok [OF assms(1)]; auto)+
  have h2: "heap_live (omem s2) L" using heap_live_bytes [OF assms(3)] by (simp add: s2_def with_bytes_def)
  have d: "rt_object_delete obj s = s2\<lparr>omem := rt_smem_free (omem s2) (Some obj)\<rparr>"
    by (simp add: rt_object_delete_def s2_def Let_def rt_free_def)
  note fb = heap_live_free [OF h2 assms(4)]
  show "dir_ok (rt_object_delete obj s)" "dir (rt_object_delete obj s) = (\<lambda>i. map_option (filter (\<lambda>(ob, n). ob \<noteq> obj)) (dir s i))"
    unfolding d using fb(2) s2 by (simp_all add: dir_heap dir_ok_heap)
  show "heap_live (omem (rt_object_delete obj s)) (L - {(obj, len)})" using fb(1) by (simp add: d)
qed

section \<open>What the object system promises\<close>

text \<open>A directory with a semaphore ''key'' at address 1000; the strings ''key'' and ''key_sca'' stand at 2000
  and 2100.\<close>

definition demo_objects :: objects where
  "demo_objects = \<lparr>omem = demo_heap\<lparr>bytes := (\<lambda>_. 0)(1000 := 107, 1001 := 101, 1002 := 121, 1008 := 0x82,
      2000 := 107, 2001 := 101, 2002 := 121, 2100 := 107, 2101 := 101, 2102 := 121, 2103 := 95, 2104 := 115, 2105 := 99, 2106 := 97)\<rparr>,
     olists = containers_init(1 := Some [1000])\<rparr>"

lemma demo_olists: "olists demo_objects i = (if i = 1 then Some [1000] else if i < 8 then Some [] else None)"
  by (simp add: demo_objects_def containers_init_def)

lemma demo_members: "members demo_objects = {1000}"
proof -
  have "ob \<in> members demo_objects \<longleftrightarrow> ob = 1000" for ob
  proof
    assume "ob \<in> members demo_objects"
    then obtain i xs where "olists demo_objects i = Some xs" "ob \<in> set xs" unfolding members_def by blast
    then show "ob = 1000" by (auto simp: demo_olists split: if_splits)
  next
    assume "ob = 1000"
    then have "olists demo_objects 1 = Some [1000] \<and> ob \<in> set [1000]" by (simp add: demo_olists)
    then show "ob \<in> members demo_objects" unfolding members_def by blast
  qed
  then show ?thesis by blast
qed

lemma demo_names: "cstr (obytes demo_objects) 1000 [107, 101, 121]" "rt_object_get_type 1000 demo_objects = 2"
  "cstr (obytes demo_objects) 2000 [107, 101, 121]" "cstr (obytes demo_objects) 2100 [107, 101, 121, 95, 115, 99, 97]"
  by (simp_all add: demo_objects_def rt_object_get_type_def rt_const)

lemma demo_objects_ok: "dir_ok demo_objects"
proof -
  show ?thesis
    unfolding dir_ok_def demo_members
  proof (intro conjI allI impI)
    fix i xs assume a: "olists demo_objects i = Some xs"
    then have ix: "(i = 1 \<and> xs = [1000]) \<or> (i < 8 \<and> xs = [])"
      by (simp add: demo_olists split: if_splits)
    then show "i < 8" "distinct xs" by auto
    show "\<forall>ob\<in>set xs. rt_object_get_type ob demo_objects = object_container ! i \<and>
        (\<exists>cs. cstr (obytes demo_objects) ob cs \<and> length cs < RT_NAME_MAX)"
      using ix
    proof
      assume "i = 1 \<and> xs = [1000]"
      moreover have "length [107, 101, 121 :: u8] < RT_NAME_MAX" by (simp add: rt_const)
      ultimately have "\<exists>cs. cstr (obytes demo_objects) 1000 cs \<and> length cs < RT_NAME_MAX" using demo_names(1) by blast
      then show ?thesis using \<open>i = 1 \<and> xs = [1000]\<close> demo_names(2) by (simp add: object_container_def rt_const)
    qed simp
  next
    fix i j xs ys assume "olists demo_objects i = Some xs" "olists demo_objects j = Some ys" "i \<noteq> j"
    then show "set xs \<inter> set ys = {}" by (simp add: demo_olists split: if_splits)
  qed simp
qed

lemma directory_laws:
  assumes "dir_ok s" "rt_object_get_information type = Some i" "olists s i = Some xs"
    and "\<forall>a \<in> members s. apart a obj"
    and "cstr (obytes s) name cs" "length cs < RT_NAME_MAX" "name + length cs < obj \<or> obj + 20 \<le> name"
  shows "\<exists>s'. rt_object_init obj type name s = Some s' \<and> dir_ok s' \<and> dir s' = (dir s)(i := Some ((obj, cs) # the (dir s i)))
    \<and> (\<forall>a. a < obj \<or> obj + 20 \<le> a \<longrightarrow> obytes s' a = obytes s a)
    \<and> dir_ok (rt_object_detach obj s') \<and> dir (rt_object_detach obj s') = dir s
    \<and> (\<forall>b ds. cstr (obytes s) b ds \<longrightarrow> b + length ds < obj \<or> obj + 20 \<le> b \<longrightarrow>
         rt_object_find (Some b) type s' = (if take 7 ds = cs then Some (Some obj) else rt_object_find (Some b) type s))"
proof -
  obtain s' where s': "rt_object_init obj type name s = Some s'" "dir_ok s'" "dir s' = (dir s)(i := Some ((obj, cs) # the (dir s i)))"
    "members s' = insert obj (members s)" "\<forall>a. a < obj \<or> obj + 20 \<le> a \<longrightarrow> obytes s' a = obytes s a"
    using object_init_ok [OF assms] by blast
  have new: "obj \<notin> members s" using assms(4) by (auto simp: apart_def)
  note u = unlink_ok [OF s'(2), of "with_bytes ((obytes s')(obj + 8 := 0)) s'" obj]
  have d: "dir (rt_object_detach obj s') = dir s"
    using u(2) s'(4) filter_out [OF new assms(3), of cs] by (simp add: rt_object_detach_def s'(3))
  have "rt_object_find (Some b) type s' = (if take 7 ds = cs then Some (Some obj) else rt_object_find (Some b) type s)"
    if b: "cstr (obytes s) b ds" "b + length ds < obj \<or> obj + 20 \<le> b" for b ds
  proof -
    have "dir s' i \<noteq> None" by (simp add: s'(3))
    then obtain ys where ys: "olists s' i = Some ys" by (auto simp: dir_def)
    have "cstr (obytes s') b ds" using b(1) by (rule cstr_cong) (use b(2) s'(5) in auto)
    from find_ok [OF s'(2) assms(2) ys this] find_ok [OF assms(1-3) b(1)] show ?thesis
      by (auto simp: s'(3))
  qed
  then show ?thesis using s' d u(1) by (auto simp: rt_object_detach_def)
qed

text \<open>C10. The object lists are directories of names. Entering a static object puts it, with its name, at the
  front of the list of its class and writes nothing outside its header; taking it out again restores
  all directories; and in between a search for its name finds it, the searches for other names finding
  what they found before, where names count as the same when they agree in the first seven
  characters.\<close>

theorem object_directory:
  assumes "dir_ok s" "rt_object_get_information type = Some i" "olists s i = Some xs"
    and "\<forall>a \<in> members s. apart a obj"
    and "cstr (obytes s) name cs" "length cs < RT_NAME_MAX" "name + length cs < obj \<or> obj + 20 \<le> name"
  shows "\<exists>s'. rt_object_init obj type name s = Some s' \<and> dir_ok s' \<and> dir s' = (dir s)(i := Some ((obj, cs) # the (dir s i)))
    \<and> (\<forall>a. a < obj \<or> obj + 20 \<le> a \<longrightarrow> obytes s' a = obytes s a)
    \<and> dir_ok (rt_object_detach obj s') \<and> dir (rt_object_detach obj s') = dir s
    \<and> (\<forall>b ds. cstr (obytes s) b ds \<longrightarrow> b + length ds < obj \<or> obj + 20 \<le> b \<longrightarrow>
         rt_object_find (Some b) type s' = (if take 7 ds = cs then Some (Some obj) else rt_object_find (Some b) type s))"
  using directory_laws [OF assms] .

theorem object_directory_witness:
  "\<exists>s'. rt_object_init 1100 RT_Object_Class_Semaphore 2100 demo_objects = Some s' \<and> dir (rt_object_detach 1100 s') = dir demo_objects
    \<and> rt_object_find (Some 2000) RT_Object_Class_Semaphore s' = rt_object_find (Some 2000) RT_Object_Class_Semaphore demo_objects"
proof -
  have "rt_object_get_information RT_Object_Class_Semaphore = Some 1" by code_simp
  moreover have "olists demo_objects 1 = Some [1000]" by (simp add: demo_olists)
  moreover have "\<forall>a \<in> members demo_objects. apart a 1100" by (simp add: demo_members apart_def)
  moreover have "length [107, 101, 121, 95, 115, 99, 97 :: u8] < RT_NAME_MAX" by (simp add: rt_const)
  ultimately obtain s' where s': "rt_object_init 1100 RT_Object_Class_Semaphore 2100 demo_objects = Some s'"
      "dir (rt_object_detach 1100 s') = dir demo_objects"
      "\<forall>b ds. cstr (obytes demo_objects) b ds \<longrightarrow> b + length ds < 1100 \<or> 1100 + 20 \<le> b \<longrightarrow>
         rt_object_find (Some b) RT_Object_Class_Semaphore s' = (if take 7 ds = [107, 101, 121, 95, 115, 99, 97] then Some (Some 1100)
           else rt_object_find (Some b) RT_Object_Class_Semaphore demo_objects)"
    using object_directory [OF demo_objects_ok _ _ _ demo_names(4), of RT_Object_Class_Semaphore 1 "[1000]" 1100] by auto
  then have "rt_object_find (Some 2000) RT_Object_Class_Semaphore s' = rt_object_find (Some 2000) RT_Object_Class_Semaphore demo_objects"
    using demo_names(3) by (fastforce simp del: cstr.simps)
  then show ?thesis using s'(1,2) by blast
qed

text \<open>A live block ends before the end marker of the heap, which allocation does not move.\<close>

lemma live_below_end: "heap_live m L \<Longrightarrow> (p, n) \<in> L \<Longrightarrow> p + n \<le> heap_end m"
  using blive_bounds [of p n 0] by (fastforce simp: heap_live_def hinv_def hrep_def hcore_def)

lemma alloc_end: "heap_live m L \<Longrightarrow> rt_smem_alloc m n = Some (r, m') \<Longrightarrow> heap_end m' = heap_end m"
  by (auto simp: rt_smem_alloc_def smem_take_def smem_split_def smem_note_max_def set_pool_def set_next_def set_prev_def Let_def
      split: if_splits option.splits bind_splits)

definition placed :: "(nat \<times> nat) set \<Rightarrow> rt_small_mem \<Rightarrow> nat \<Rightarrow> nat \<Rightarrow> bool" where
  "placed L h a n \<longleftrightarrow> (\<exists>p len. (p, len) \<in> L \<and> p \<le> a \<and> a + n \<le> p + len) \<or> heap_end h \<le> a"

lemma placed_new:
  assumes "heap_live h' (insert (p, len) L)" "(p, len) \<notin> L" "heap_end h' = heap_end h" "placed L h a n"
  shows "a + n \<le> p \<or> p + len \<le> a"
proof -
  consider (b) q k where "(q, k) \<in> L" "q \<le> a" "a + n \<le> q + k" | (s) "heap_end h \<le> a"
    using assms(4) by (auto simp: placed_def)
  then show ?thesis
  proof cases
    case b
    then have "p + len \<le> q \<or> q + k \<le> p"
      using smem.disjoint [OF assms(1), of p len q k] assms(2) by auto
    then show ?thesis using b by auto
  next
    case s
    then show ?thesis using live_below_end [OF assms(1), of p len] assms(3) by auto
  qed
qed

text \<open>Allocating an object either fails and changes nothing, or takes a block of the heap for it that is large
  enough, cleared and apart from all other objects, and enters the object in the directory of its class;
  deleting the object undoes both. The call returns in every case.\<close>

theorem object_allocate_delete:
  assumes "dir_ok s" "heap_live (omem s) L" "rt_object_get_information type = Some i" "olists s i = Some xs"
    and "20 \<le> osize i" "osize i < 2 ^ 32 - 7"
    and "\<forall>a \<in> members s. placed L (omem s) a 20"
    and "cstr (obytes s) name cs" "length cs < RT_NAME_MAX" "placed L (omem s) name (length cs + 1)"
  shows "\<exists>r s'. rt_object_allocate osize type name s = Some (r, s') \<and> (case r of
      None \<Rightarrow> s' = s
    | Some obj \<Rightarrow> (\<exists>len. osize i \<le> len \<and> (obj, len) \<notin> L \<and> heap_live (omem s') (insert (obj, len) L)
          \<and> heap_live (omem (rt_object_delete obj s')) L)
        \<and> dir_ok s' \<and> members s' = insert obj (members s) \<and> obj \<notin> members s
        \<and> dir s' = (dir s)(i := Some ((obj, cs) # the (dir s i))) \<and> \<not> rt_object_is_systemobject obj s'
        \<and> (\<forall>j. 9 \<le> j \<and> j < osize i \<longrightarrow> obytes s' (obj + j) = 0)
        \<and> dir_ok (rt_object_delete obj s') \<and> dir (rt_object_delete obj s') = dir s)"
proof -
  obtain r h where a: "rt_smem_alloc (omem s) (osize i) = Some (r, h)" "case r of None \<Rightarrow> h = omem s
     | Some p \<Rightarrow> \<exists>len. osize i \<le> len \<and> (p, len) \<notin> L \<and> heap_live h (insert (p, len) L)"
     "bytes h = obytes s"
    using heap_live_alloc [OF assms(2), of "osize i"] assms(5,6) by auto
  show ?thesis
  proof (cases r)
    case None
    then show ?thesis using a assms(3) by (simp add: rt_object_allocate_def rt_malloc_def)
  next
    case (Some obj)
    then obtain len where len: "osize i \<le> len" "(obj, len) \<notin> L" "heap_live h (insert (obj, len) L)" using a(2) by auto
    note new = placed_new [OF len(3,2) alloc_end [OF assms(2) a(1)]]
    have fresh: "\<forall>b \<in> members s. apart b obj" using new assms(5,7) len(1) by (fastforce simp: apart_def)
    have nm: "name + length cs < obj \<or> obj + osize i \<le> name" using new [OF assms(10)] len(1) by auto
    define m1 where "m1 = snd (memset (bytes h) obj 0 (osize i))"
    define m2 where "m2 = m1(obj + 8 := type, obj + 9 := 0)"
    define m3 where "m3 = snd (strncpy m2 obj name RT_NAME_MAX)"
    have 1: "m1 = (\<lambda>b. if obj \<le> b \<and> b < obj + osize i then 0 else obytes s b)"
      by (simp add: m1_def memset_def memset_loop_eq a(3))
    have 2: "m2 b = obytes s b" if "b < obj \<or> obj + osize i \<le> b" for b using that assms(5) by (auto simp: m2_def 1)
    have n2: "cstr m2 name cs" using assms(8) by (rule cstr_cong) (use 2 nm in auto)
    have "obj + RT_NAME_MAX \<le> name \<or> name + length cs < obj" using nm assms(5) by (auto simp: rt_const)
    then have 3: "bytes_at m3 obj RT_NAME_MAX = cs @ replicate (RT_NAME_MAX - length cs) 0"
      "\<forall>b. b < obj \<or> obj + RT_NAME_MAX \<le> b \<longrightarrow> m3 b = m2 b"
      using strncpy_pads [OF n2 assms(9), of obj "fst (strncpy m2 obj name RT_NAME_MAX)" m3] by (auto simp: m3_def)
    have "oname m3 obj = cs"
    proof -
      have "\<forall>c \<in> set cs. c \<noteq> 0" using assms(8) by (auto simp: cstr_iff in_set_conv_nth)
      then show ?thesis using 3(1) assms(9) by (simp add: oname_def takeWhile_append)
    qed
    have c3: "cstr m3 obj cs" by (rule strncpy_cstr [OF n2 assms(9) 3(1)])
    have t: "m3 (obj + 8) = type" using 3(2) by (simp add: m2_def rt_const)
    have z: "m3 (obj + j) = 0" if "9 \<le> j" "j < osize i" for j using that 3(2) by (simp add: m2_def 1 rt_const)
    have k: "i < 8" using dir_okD(2) [OF assms(1,4)] by simp
    note ty = find_info_class [OF assms(3) k]
    define s1 where "s1 = with_bytes m3 (s\<lparr>omem := h\<rparr>)"
    have gt: "rt_object_get_type obj s1 = object_container ! i"
      unfolding rt_object_get_type_def s1_def with_bytes_sel t using ty
      by (simp add: bit_eq_iff bit_simps) blast
    have fr: "obytes s1 b = obytes s b" if "b < obj \<or> obj + osize i \<le> b" for b
      using 3(2) 2 [OF that] that assms(5) by (auto simp: s1_def rt_const)
    have fr': "\<forall>a \<in> members s. \<forall>j<20. obytes s1 (a + j) = obytes s (a + j)"
      using new assms(7) len(1) fr by fastforce
    obtain s' where s': "attach i obj s1 = Some s'" "dir_ok s'" "dir s' = (dir s)(i := Some ((obj, cs) # the (dir s i)))"
        "omem s' = omem s1" "members s' = insert obj (members s)"
      using attach_ok [OF assms(1,4) fresh _ fr' _ assms(9) gt] c3 by (auto simp: s1_def)
    have e: "rt_object_allocate osize type name s = Some (Some obj, s')"
      using a(1) Some assms(3) s'(1) by (simp add: rt_object_allocate_def rt_malloc_def m1_def m2_def m3_def s1_def)
    have hl: "heap_live (omem s') (insert (obj, len) L)"
      using heap_live_bytes [OF len(3)] by (simp add: s'(4) s1_def with_bytes_def)
    have im: "obj \<in> members s'" using s'(5) by simp
    note dl = delete_ok [OF s'(2) im hl, of len]
    have "insert (obj, len) L - {(obj, len)} = L" using len(2) by auto
    then have del: "heap_live (omem (rt_object_delete obj s')) L" using dl(3) by simp
    have new': "obj \<notin> members s" using fresh by (auto simp: apart_def)
    have ns: "\<not> rt_object_is_systemobject obj s'"
      using ty by (simp add: rt_object_is_systemobject_def s'(4) s1_def t)
    have "dir (rt_object_delete obj s') = dir s" using dl(2) filter_out [OF new' assms(4), of cs] by (simp add: s'(3))
    then show ?thesis using e hl dl(1) del s'(2,3,5) new' len(1,2) ns z Some by (auto simp: s'(4) s1_def)
  qed
qed

theorem object_allocate_delete_witness:
  "\<exists>r s'. rt_object_allocate (\<lambda>_. 32) RT_Object_Class_Semaphore 2100 demo_objects = Some (r, s')
     \<and> (\<forall>obj. r = Some obj \<longrightarrow> dir (rt_object_delete obj s') = dir demo_objects)"
proof -
  have h: "heap_live (omem demo_objects) {}" using heap_live_bytes [OF demo_live] by (simp add: demo_objects_def)
  have e: "heap_end (omem demo_objects) = 184"
    using demo_inv by (simp add: demo_objects_def hinv_def hrep_def hcore_def)
  have "rt_object_get_information RT_Object_Class_Semaphore = Some 1" by code_simp
  moreover have "olists demo_objects 1 = Some [1000]" by (simp add: demo_olists)
  moreover have "\<forall>a \<in> members demo_objects. placed {} (omem demo_objects) a 20" by (simp add: demo_members placed_def e)
  moreover have "placed {} (omem demo_objects) 2100 (length [107, 101, 121, 95, 115, 99, 97 :: u8] + 1)" by (simp add: placed_def e)
  moreover have "length [107, 101, 121, 95, 115, 99, 97 :: u8] < RT_NAME_MAX" by (simp add: rt_const)
  ultimately show ?thesis
    using object_allocate_delete [OF demo_objects_ok h _ _ _ _ _ demo_names(4), of RT_Object_Class_Semaphore 1 "[1000]" "\<lambda>_. 32"]
    by (auto split: option.splits)
qed



text \<open>No custom object can be made in this configuration: its container has no initialiser, so the call follows
  the null pointer it gets for the information, as the searches in the class 0 that this entry answers
  to follow a null list.\<close>

theorem custom_object_fails:
  assumes "dir_ok s"
  shows "rt_custom_object_create osize name data f s c = None" "rt_object_find (Some name) RT_Object_Class_Null s = None"
    "rt_object_get_length RT_Object_Class_Null s = None"
proof -
  have "rt_object_get_information RT_Object_Class_Custom = None" by code_simp
  then show "rt_custom_object_create osize name data f s c = None"
    by (simp add: rt_custom_object_create_def rt_object_allocate_def)
  have "rt_object_get_information RT_Object_Class_Null = Some 8" by code_simp
  moreover have "olists s 8 = None" using dir_okD(2) [OF assms, of 8] by (cases "olists s 8") auto
  ultimately show "rt_object_find (Some name) RT_Object_Class_Null s = None" "rt_object_get_length RT_Object_Class_Null s = None"
    by (simp_all add: rt_object_find_def rt_object_get_length_def)
qed

text \<open>The first objects of a class, at most as many as asked for.\<close>

lemma copy_pointers_take: "index < maxlen \<Longrightarrow> copy_pointers xs index maxlen = take (nat (maxlen - index)) xs"
proof (induction xs arbitrary: index)
  case (Cons x xs)
  obtain n where n: "nat (maxlen - index) = Suc n" "n = nat (maxlen - (index + 1))"
    using Cons.prems by (cases "nat (maxlen - index)") auto
  then show ?case using Cons.IH [of "index + 1"] by auto
qed simp

lemma get_pointers_ok:
  assumes "rt_object_get_information type = Some i" "olists s i = Some xs"
  shows "rt_object_get_pointers type maxlen s = Some (take (nat maxlen) xs)"
  using assms by (simp add: rt_object_get_pointers_def copy_pointers_take)

end
