(* ===== verification/KernelState.thy ===== *)
theory KernelState
  imports RtList Ffs
begin

text \<open>
  The state shared by scheduler, threads, timers and IPC (include/rtdef.h and the static variables
  of scheduler_up.c, timer.c, idle.c and clock.c). Threads, semaphores, mutexes and events are
  numbered objects. A thread's list node stands in at most one kernel list, so the lists are kept
  as one map from list heads to lists of threads, and removing a node removes it from every list.
  Sections with interrupts disabled are single steps.
\<close>

section \<open>Thread status\<close>

definition RT_THREAD_INIT :: u8 where [rt_const]: "RT_THREAD_INIT = 0"
definition RT_THREAD_CLOSE :: u8 where [rt_const]: "RT_THREAD_CLOSE = 1"
definition RT_THREAD_READY :: u8 where [rt_const]: "RT_THREAD_READY = 2"
definition RT_THREAD_RUNNING :: u8 where [rt_const]: "RT_THREAD_RUNNING = 3"
definition RT_THREAD_SUSPEND_MASK :: u8 where [rt_const]: "RT_THREAD_SUSPEND_MASK = 4"
definition RT_THREAD_SUSPEND_INTERRUPTIBLE :: u8 where
  [rt_const]: "RT_THREAD_SUSPEND_INTERRUPTIBLE = 4"
definition RT_THREAD_SUSPEND_KILLABLE :: u8 where [rt_const]: "RT_THREAD_SUSPEND_KILLABLE = 6"
definition RT_THREAD_SUSPEND_UNINTERRUPTIBLE :: u8 where
  [rt_const]: "RT_THREAD_SUSPEND_UNINTERRUPTIBLE = 7"
definition RT_THREAD_STAT_MASK :: u8 where [rt_const]: "RT_THREAD_STAT_MASK = 7"
definition RT_THREAD_STAT_YIELD :: u8 where [rt_const]: "RT_THREAD_STAT_YIELD = 8"

text \<open>\<open>thread->stat = s | (thread->stat & ~RT_THREAD_STAT_MASK)\<close>\<close>

definition set_state :: "u8 \<Rightarrow> u8 \<Rightarrow> u8" where
  "set_state s old = s OR (old AND NOT RT_THREAD_STAT_MASK)"

section \<open>Objects\<close>

record rt_thread =
  error :: rt_err_t
  stat :: u8
  current_priority :: nat
  init_priority :: nat
  number_mask :: u32
  taken_object_list :: "nat list"   \<comment> \<open>mutexes taken, the latest first\<close>
  pending_object :: "nat option"    \<comment> \<open>the mutex the thread waits for\<close>
  event_set :: u32
  event_info :: u8
  init_tick :: u32
  remaining_tick :: u32

text \<open>
  What a timer calls when it expires: \<open>_thread_timeout\<close> or a function of the application, by number.
  Of the flag byte the two bits in use are kept; \<open>init_time\<close> is the field init_tick.
\<close>

datatype tfunc = Thread_timeout | Callback nat

record rt_timer =
  activated :: bool
  periodic :: bool
  timeout_func :: tfunc
  parameter :: nat
  timeout_tick :: u32
  init_time :: u32

record rt_semaphore =
  sem_value :: u16
  sem_flag :: u8

record rt_mutex =
  mutex_owner :: "nat option"
  mutex_priority :: nat
  hold :: u8
  ceiling_priority :: nat

record rt_event =
  event_bits :: u32
  event_flag :: u8

text \<open>The heads of the lists a thread's node can be in.\<close>

datatype lid = LReady nat | LSem nat | LMutex nat | LEvent nat | LPool nat
  | LMail nat | LMailSend nat | LMq nat | LMqSend nat | LDqPush nat | LDqPop nat | LCompletion nat | LDefunct

text \<open>Each thread has a built-in timer; the others belong to the application.\<close>

datatype timer_id = TThread nat | TUser nat

record kernel =
  threads :: "nat \<Rightarrow> rt_thread"
  klist :: "lid \<Rightarrow> nat list"
  ready_group :: u32
  current :: "nat option"
  rt_current_priority :: nat
  lock_nest :: i16
  interrupt_nest :: u8
  rt_tick :: u32
  timers :: "timer_id \<Rightarrow> rt_timer"
  timer_list :: "timer_id list"
  expiring :: "timer_id list"       \<comment> \<open>the local list of rt_timer_check\<close>
  sems :: "nat \<Rightarrow> rt_semaphore"
  mutexes :: "nat \<Rightarrow> rt_mutex"
  events :: "nat \<Rightarrow> rt_event"

section \<open>Field updates\<close>

definition upd_thread :: "nat \<Rightarrow> (rt_thread \<Rightarrow> rt_thread) \<Rightarrow> kernel \<Rightarrow> kernel" where
  "upd_thread t f k = k\<lparr>threads := (threads k)(t := f (threads k t))\<rparr>"

definition upd_timer :: "timer_id \<Rightarrow> (rt_timer \<Rightarrow> rt_timer) \<Rightarrow> kernel \<Rightarrow> kernel" where
  "upd_timer i f k = k\<lparr>timers := (timers k)(i := f (timers k i))\<rparr>"

definition tlist_remove :: "nat \<Rightarrow> kernel \<Rightarrow> kernel" where
  "tlist_remove t k = k\<lparr>klist := (\<lambda>l. removeAll t (klist k l))\<rparr>"

definition tlist_insert_after :: "lid \<Rightarrow> nat \<Rightarrow> kernel \<Rightarrow> kernel" where
  "tlist_insert_after l t k = k\<lparr>klist := (klist k)(l := t # klist k l)\<rparr>"

definition tlist_insert_before :: "lid \<Rightarrow> nat \<Rightarrow> kernel \<Rightarrow> kernel" where
  "tlist_insert_before l t k = k\<lparr>klist := (klist k)(l := klist k l @ [t])\<rparr>"

abbreviation prio :: "kernel \<Rightarrow> nat \<Rightarrow> nat" where
  "prio k t \<equiv> current_priority (threads k t)"

definition tstate :: "kernel \<Rightarrow> nat \<Rightarrow> u8" where
  "tstate k t = stat (threads k t) AND RT_THREAD_STAT_MASK"

definition is_suspended :: "kernel \<Rightarrow> nat \<Rightarrow> bool" where
  "is_suspended k t \<longleftrightarrow> stat (threads k t) AND RT_THREAD_SUSPEND_MASK = RT_THREAD_SUSPEND_MASK"

section \<open>Status bits\<close>

named_theorems kst "the status byte under the updates the kernel makes"

lemma set_state_mask [kst]: "s AND 7 = s \<Longrightarrow> set_state s old AND 7 = s"
proof -
  assume "s AND 7 = s"
  moreover have "set_state s old AND 7 = s AND 7"
    by (simp add: set_state_def rt_const word_bw_assocs word_ao_dist word_and_not)
  ultimately show ?thesis by simp
qed

lemma and_4_7: "(w AND 7) AND 4 = w AND 4" for w :: u8
  by (simp add: word_bw_assocs)

lemma is_suspended_iff: "is_suspended k t \<longleftrightarrow> tstate k t AND 4 = 4"
  by (simp add: is_suspended_def tstate_def rt_const and_4_7)

lemma set_state_yield [kst]: "s AND 8 = 0 \<Longrightarrow> set_state s old AND 8 = old AND 8"
  by (simp add: set_state_def rt_const word_ao_dist word_bw_assocs)

lemma clear_yield [kst]: "(w AND NOT 8) AND 7 = w AND 7" "(w AND NOT 8) AND 8 = 0"
  "(w AND - 9) AND 7 = w AND 7" "(w AND - 9) AND 8 = 0" for w :: u8
  by (simp_all add: word_bw_assocs)

lemma set_yield [kst]: "(w OR 8) AND 7 = w AND 7" "(w OR 8) AND 8 = 8" for w :: u8
  by (simp_all add: word_ao_dist)

section \<open>Projections of the updates\<close>

lemma upd_thread_sel [simp]:
  "threads (upd_thread t f k) = (threads k)(t := f (threads k t))"
  "klist (upd_thread t f k) = klist k" "ready_group (upd_thread t f k) = ready_group k"
  "current (upd_thread t f k) = current k" "lock_nest (upd_thread t f k) = lock_nest k"
  "interrupt_nest (upd_thread t f k) = interrupt_nest k" "rt_tick (upd_thread t f k) = rt_tick k"
  "timers (upd_thread t f k) = timers k" "timer_list (upd_thread t f k) = timer_list k"
  "expiring (upd_thread t f k) = expiring k" "sems (upd_thread t f k) = sems k"
  "mutexes (upd_thread t f k) = mutexes k" "events (upd_thread t f k) = events k"
  by (simp_all add: upd_thread_def)

lemma upd_timer_sel [simp]:
  "threads (upd_timer i f' k) = threads k"
  "klist (upd_timer i f' k) = klist k" "ready_group (upd_timer i f' k) = ready_group k"
  "current (upd_timer i f' k) = current k" "lock_nest (upd_timer i f' k) = lock_nest k"
  "interrupt_nest (upd_timer i f' k) = interrupt_nest k" "rt_tick (upd_timer i f' k) = rt_tick k"
  "timers (upd_timer i f' k) = (timers k)(i := f' (timers k i))" "timer_list (upd_timer i f' k) = timer_list k"
  "expiring (upd_timer i f' k) = expiring k" "sems (upd_timer i f' k) = sems k"
  "mutexes (upd_timer i f' k) = mutexes k" "events (upd_timer i f' k) = events k"
  by (simp_all add: upd_timer_def)

lemma tlist_remove_sel [simp]:
  "threads (tlist_remove t k) = threads k"
  "klist (tlist_remove t k) = (\<lambda>l. removeAll t (klist k l))"
  "ready_group (tlist_remove t k) = ready_group k"
  "current (tlist_remove t k) = current k" "lock_nest (tlist_remove t k) = lock_nest k"
  "interrupt_nest (tlist_remove t k) = interrupt_nest k" "rt_tick (tlist_remove t k) = rt_tick k"
  "timers (tlist_remove t k) = timers k" "timer_list (tlist_remove t k) = timer_list k"
  "expiring (tlist_remove t k) = expiring k" "sems (tlist_remove t k) = sems k"
  "mutexes (tlist_remove t k) = mutexes k" "events (tlist_remove t k) = events k"
  by (simp_all add: tlist_remove_def)

lemma tlist_insert_sel [simp]:
  "threads (tlist_insert_after l t k) = threads k" "threads (tlist_insert_before l t k) = threads k"
  "klist (tlist_insert_after l t k) = (klist k)(l := t # klist k l)"
  "klist (tlist_insert_before l t k) = (klist k)(l := klist k l @ [t])"
  "ready_group (tlist_insert_after l t k) = ready_group k"
  "ready_group (tlist_insert_before l t k) = ready_group k"
  "current (tlist_insert_after l t k) = current k" "current (tlist_insert_before l t k) = current k"
  "lock_nest (tlist_insert_after l t k) = lock_nest k" "lock_nest (tlist_insert_before l t k) = lock_nest k"
  "interrupt_nest (tlist_insert_after l t k) = interrupt_nest k"
  "interrupt_nest (tlist_insert_before l t k) = interrupt_nest k"
  "rt_tick (tlist_insert_after l t k) = rt_tick k" "rt_tick (tlist_insert_before l t k) = rt_tick k"
  "timers (tlist_insert_after l t k) = timers k" "timers (tlist_insert_before l t k) = timers k"
  "timer_list (tlist_insert_after l t k) = timer_list k" "timer_list (tlist_insert_before l t k) = timer_list k"
  "expiring (tlist_insert_after l t k) = expiring k" "expiring (tlist_insert_before l t k) = expiring k"
  "sems (tlist_insert_after l t k) = sems k" "sems (tlist_insert_before l t k) = sems k"
  "mutexes (tlist_insert_after l t k) = mutexes k" "mutexes (tlist_insert_before l t k) = mutexes k"
  "events (tlist_insert_after l t k) = events k" "events (tlist_insert_before l t k) = events k"
  by (simp_all add: tlist_insert_after_def tlist_insert_before_def)

lemma tstate_upd [simp]:
  "tstate (tlist_remove t k) = tstate k" "tstate (tlist_insert_after l t k) = tstate k"
  "tstate (tlist_insert_before l t k) = tstate k" "tstate (upd_timer i f k) = tstate k"
  by (simp_all add: tstate_def fun_eq_iff)

end
