(* ===== verification/Scheduler.thy ===== *)
theory Scheduler
  imports KernelState
begin

text \<open>
  src/scheduler_up.c: the ready lists, the choice of the next thread and the scheduler lock. The
  invariant \<open>sched_ok\<close> ties the status of every thread to the list its node is in and the bits of
  the ready group to the ready lists; every operation keeps it. The ready lists are presented as
  a priority queue, a locale, from which the properties of rt_schedule follow.
\<close>

section \<open>Operations\<close>

text \<open>\<open>_scheduler_get_highest_priority_thread\<close>: the thread and its priority.\<close>

definition get_highest_priority_thread :: "kernel \<Rightarrow> nat \<times> nat" where
  "get_highest_priority_thread k =
     (let p = rt_ffs (ready_group k) - 1 in (hd (klist k (LReady p)), p))"

definition rt_system_scheduler_init :: "kernel \<Rightarrow> kernel" where
  "rt_system_scheduler_init k =
     k\<lparr>lock_nest := 0,
       klist := (\<lambda>l. case l of LReady p \<Rightarrow> (if p < RT_THREAD_PRIORITY_MAX then [] else klist k l)
                    | _ \<Rightarrow> klist k l),
       ready_group := 0\<rparr>"

definition rt_schedule_insert_thread :: "nat \<Rightarrow> kernel \<Rightarrow> kernel" where
  "rt_schedule_insert_thread t k =
     (if current k = Some t then
        upd_thread t (\<lambda>r. r\<lparr>stat := set_state RT_THREAD_RUNNING (stat r)\<rparr>) k
      else
        let k1 = upd_thread t (\<lambda>r. r\<lparr>stat := set_state RT_THREAD_READY (stat r)\<rparr>) k;
            k2 = (if stat (threads k1 t) AND RT_THREAD_STAT_YIELD \<noteq> 0
                  then tlist_insert_before (LReady (prio k1 t)) t k1
                  else tlist_insert_after (LReady (prio k1 t)) t k1)
        in k2\<lparr>ready_group := ready_group k2 OR number_mask (threads k2 t)\<rparr>)"

definition rt_schedule_remove_thread :: "nat \<Rightarrow> kernel \<Rightarrow> kernel" where
  "rt_schedule_remove_thread t k =
     (let k1 = tlist_remove t k
      in if klist k1 (LReady (prio k1 t)) = []
         then k1\<lparr>ready_group := ready_group k1 AND NOT (number_mask (threads k1 t))\<rparr>
         else k1)"

definition rt_system_scheduler_start :: "kernel \<Rightarrow> kernel" where
  "rt_system_scheduler_start k =
     (let (t, p) = get_highest_priority_thread k;
          k1 = k\<lparr>current := Some t\<rparr>;
          k2 = rt_schedule_remove_thread t k1
      in upd_thread t (\<lambda>r. r\<lparr>stat := RT_THREAD_RUNNING\<rparr>) k2)"

text \<open>
  In rt_schedule the switch itself (rt_hw_context_switch, or its deferred form inside an interrupt)
  changes no kernel variable besides \<open>rt_current_thread\<close>.
\<close>

definition rt_schedule :: "kernel \<Rightarrow> kernel" where
  "rt_schedule k =
     (if lock_nest k = 0 \<and> ready_group k \<noteq> 0 then
        let (t0, hp) = get_highest_priority_thread k;
            c = the (current k);
            running = (stat (threads k c) AND RT_THREAD_STAT_MASK = RT_THREAD_RUNNING);
            keep = (prio k c < hp \<or>
                    (prio k c = hp \<and> stat (threads k c) AND RT_THREAD_STAT_YIELD = 0));
            to = (if running \<and> keep then c else t0);
            need_insert_from_thread = (running \<and> \<not> keep);
            k1 = (if running
                  then upd_thread c (\<lambda>r. r\<lparr>stat := stat r AND NOT RT_THREAD_STAT_YIELD\<rparr>) k else k)
        in if to \<noteq> c then
             let k2 = k1\<lparr>rt_current_priority := hp, current := Some to\<rparr>;
                 k3 = (if need_insert_from_thread then rt_schedule_insert_thread c k2 else k2);
                 k4 = rt_schedule_remove_thread to k3
             in upd_thread to (\<lambda>r. r\<lparr>stat := set_state RT_THREAD_RUNNING (stat r)\<rparr>) k4
           else
             let k2 = rt_schedule_remove_thread c k1
             in upd_thread c (\<lambda>r. r\<lparr>stat := set_state RT_THREAD_RUNNING (stat r)\<rparr>) k2
      else k)"

definition rt_enter_critical :: "kernel \<Rightarrow> kernel" where
  "rt_enter_critical k = k\<lparr>lock_nest := lock_nest k + 1\<rparr>"

definition rt_exit_critical :: "kernel \<Rightarrow> kernel" where
  "rt_exit_critical k =
     (let k1 = k\<lparr>lock_nest := lock_nest k - 1\<rparr>
      in if sint (lock_nest k1) \<le> 0 then
           let k2 = k1\<lparr>lock_nest := 0\<rparr>
           in if current k2 \<noteq> None then rt_schedule k2 else k2
         else k1)"

definition rt_critical_level :: "kernel \<Rightarrow> i16" where
  "rt_critical_level k = lock_nest k"

section \<open>The invariant\<close>

definition wait_list :: "lid \<Rightarrow> bool" where
  "wait_list l \<longleftrightarrow> l \<noteq> LDefunct \<and> (\<forall>p. l \<noteq> LReady p)"

definition lists_ok :: "(lid \<Rightarrow> nat list) \<Rightarrow> bool" where
  "lists_ok ls \<longleftrightarrow> (\<forall>l. distinct (ls l))
     \<and> (\<forall>l l' t. t \<in> set (ls l) \<longrightarrow> t \<in> set (ls l') \<longrightarrow> l = l')"

definition group_ok :: "u32 \<Rightarrow> (lid \<Rightarrow> nat list) \<Rightarrow> bool" where
  "group_ok g ls \<longleftrightarrow> (\<forall>p. bit g p \<longleftrightarrow> p < 32 \<and> ls (LReady p) \<noteq> [])"

definition prio_ok :: "kernel \<Rightarrow> nat \<Rightarrow> bool" where
  "prio_ok k t \<longleftrightarrow> prio k t < RT_THREAD_PRIORITY_MAX
     \<and> (number_mask (threads k t) = push_bit (prio k t) 1
        \<or> number_mask (threads k t) = 0 \<and> (tstate k t = RT_THREAD_INIT \<or> tstate k t = RT_THREAD_CLOSE))"

definition thread_ok :: "kernel \<Rightarrow> nat \<Rightarrow> bool" where
  "thread_ok k t \<longleftrightarrow>
     (\<forall>p. t \<in> set (klist k (LReady p)) \<longrightarrow> tstate k t = RT_THREAD_READY \<and> p = prio k t)
     \<and> (tstate k t = RT_THREAD_READY \<longrightarrow> t \<in> set (klist k (LReady (prio k t))) \<and> current k \<noteq> Some t)
     \<and> (tstate k t = RT_THREAD_RUNNING \<longrightarrow> current k = Some t)
     \<and> (\<forall>l. wait_list l \<longrightarrow> t \<in> set (klist k l) \<longrightarrow> is_suspended k t)
     \<and> (t \<in> set (klist k LDefunct) \<longrightarrow> tstate k t = RT_THREAD_CLOSE)
     \<and> (current k = Some t \<longrightarrow> tstate k t \<noteq> RT_THREAD_INIT)"

text \<open>The threads in \<open>X\<close> are on their way between two lists: \<open>thread_ok\<close> need not hold of them.\<close>

definition sched_ex :: "kernel \<Rightarrow> nat set \<Rightarrow> bool" where
  "sched_ex k X \<longleftrightarrow> lists_ok (klist k) \<and> group_ok (ready_group k) (klist k)
     \<and> (\<forall>t. prio_ok k t) \<and> (\<forall>t. t \<notin> X \<longrightarrow> thread_ok k t)
     \<and> (\<forall>t p. t \<in> set (klist k (LReady p)) \<longrightarrow>
          p = prio k t \<and> number_mask (threads k t) = push_bit (prio k t) 1)"

definition sched_ok :: "kernel \<Rightarrow> bool" where
  "sched_ok k \<longleftrightarrow> sched_ex k {}"

section \<open>The primitive updates keep the invariant\<close>

lemma lists_ok_removeAll: "lists_ok ls \<Longrightarrow> lists_ok (\<lambda>l. removeAll t (ls l))"
  by (auto simp: lists_ok_def distinct_removeAll)

lemma lists_ok_insert:
  "lists_ok ls \<Longrightarrow> \<forall>l. t \<notin> set (ls l) \<Longrightarrow> lists_ok (ls(l := t # ls l))"
  "lists_ok ls \<Longrightarrow> \<forall>l. t \<notin> set (ls l) \<Longrightarrow> lists_ok (ls(l := ls l @ [t]))"
  by (auto simp: lists_ok_def)

lemma sched_ex_mono: "sched_ex k X \<Longrightarrow> X \<subseteq> Y \<Longrightarrow> sched_ex k Y"
  by (auto simp: sched_ex_def)

lemma sched_ex_shrink: "sched_ex k X \<Longrightarrow> (\<And>t. t \<in> X \<Longrightarrow> t \<notin> Y \<Longrightarrow> thread_ok k t) \<Longrightarrow> sched_ex k Y"
  by (auto simp: sched_ex_def)

text \<open>A change to a thread that leaves status, priority and mask alone.\<close>

lemma sched_ex_upd_other [simp]:
  assumes "\<And>r. stat (f r) = stat r" "\<And>r. current_priority (f r) = current_priority r"
    and "\<And>r. number_mask (f r) = number_mask r"
  shows "sched_ex (upd_thread t f k) X = sched_ex k X" "sched_ok (upd_thread t f k) = sched_ok k"
proof -
  have 1: "prio (upd_thread t f k) u = prio k u" "tstate (upd_thread t f k) u = tstate k u"
    "number_mask (threads (upd_thread t f k) u) = number_mask (threads k u)"
    "is_suspended (upd_thread t f k) u = is_suspended k u" for u
    using assms by (simp_all add: tstate_def is_suspended_def)
  show "sched_ex (upd_thread t f k) X = sched_ex k X" "sched_ok (upd_thread t f k) = sched_ok k"
    by (simp_all only: sched_ok_def sched_ex_def thread_ok_def prio_ok_def 1 upd_thread_sel(2-4))
qed

lemma sched_ok_upd_timer [simp]:
  "sched_ex (upd_timer i f k) X = sched_ex k X" "sched_ok (upd_timer i f k) = sched_ok k"
  by (simp_all add: sched_ok_def sched_ex_def thread_ok_def prio_ok_def is_suspended_iff)

lemma bit_mask: "bit (push_bit p (1::u32)) q \<longleftrightarrow> q = p \<and> p < 32"
  by (auto simp: bit_push_bit_iff bit_1_iff simp del: push_bit_of_1)

lemma bit_clear_mask: "bit (g AND NOT (push_bit p 1)) q \<longleftrightarrow> bit g q \<and> q \<noteq> p" for g :: u32
proof -
  show ?thesis
  proof (cases "q < 32")
    case True
    then show ?thesis
      by (simp only: bit_and_iff bit_not_iff bit_mask) auto
  next
    case False
    then have "\<not> bit g q" by (intro impossible_bit) simp
    then show ?thesis by (simp add: bit_and_iff)
  qed
qed

lemma bit_set_mask: "p < 32 \<Longrightarrow> bit (g OR push_bit p 1) q \<longleftrightarrow> bit g q \<or> q = p" for g :: u32
  by (auto simp: bit_or_iff bit_mask simp del: push_bit_of_1)

lemma mask_nonzero: "p < 32 \<Longrightarrow> push_bit p (1::u32) \<noteq> 0"
  using bit_mask [of p p] by (auto simp del: push_bit_of_1)

lemma group_ok_remove:
  assumes "group_ok (ready_group k) (klist k)" "prio_ok k t"
    and "\<forall>p. t \<in> set (klist k (LReady p)) \<longrightarrow> p = prio k t"
    and "number_mask (threads k t) = 0 \<Longrightarrow> \<forall>p. t \<notin> set (klist k (LReady p))"
  defines "ls \<equiv> \<lambda>l. removeAll t (klist k l)"
  shows "group_ok (if ls (LReady (prio k t)) = [] then ready_group k AND NOT (number_mask (threads k t))
                   else ready_group k) ls"
proof -
  have other: "ls (LReady p) = klist k (LReady p)" if "p \<noteq> prio k t" for p
    using assms(3) that by (auto simp: ls_def intro: removeAll_id)
  show ?thesis
  proof (cases "number_mask (threads k t) = 0")
    case True
    then have "ls (LReady p) = klist k (LReady p)" for p
      using assms(4) by (auto simp: ls_def intro: removeAll_id)
    then show ?thesis using assms(1) True by (simp add: group_ok_def)
  next
    case False
    then have m: "number_mask (threads k t) = push_bit (prio k t) 1" using assms(2) by (auto simp: prio_ok_def)
    have "bit (if ls (LReady (prio k t)) = [] then ready_group k AND NOT (number_mask (threads k t))
               else ready_group k) p \<longleftrightarrow> p < 32 \<and> ls (LReady p) \<noteq> []" for p
    proof (cases "p = prio k t")
      case True
      have "ls (LReady p) \<noteq> [] \<Longrightarrow> klist k (LReady p) \<noteq> []" by (auto simp: ls_def)
      moreover have "bit (ready_group k) p \<longleftrightarrow> p < 32 \<and> klist k (LReady p) \<noteq> []"
        using assms(1) by (simp add: group_ok_def)
      ultimately show ?thesis unfolding m True [symmetric] bit_clear_mask if_distrib [of "\<lambda>g. bit g p"]
        by auto
    next
      case False
      moreover have "bit (ready_group k) p \<longleftrightarrow> p < 32 \<and> klist k (LReady p) \<noteq> []"
        using assms(1) by (simp add: group_ok_def)
      ultimately show ?thesis
        unfolding m bit_clear_mask if_distrib [of "\<lambda>g. bit g p"] other [OF False] by simp
    qed
    then show ?thesis by (simp add: group_ok_def)
  qed
qed

lemma remove_sel [simp]:
  "threads (rt_schedule_remove_thread t k) = threads k"
  "klist (rt_schedule_remove_thread t k) = (\<lambda>l. removeAll t (klist k l))"
  "current (rt_schedule_remove_thread t k) = current k"
  "lock_nest (rt_schedule_remove_thread t k) = lock_nest k"
  "interrupt_nest (rt_schedule_remove_thread t k) = interrupt_nest k"
  "rt_tick (rt_schedule_remove_thread t k) = rt_tick k"
  "timers (rt_schedule_remove_thread t k) = timers k"
  "timer_list (rt_schedule_remove_thread t k) = timer_list k"
  "expiring (rt_schedule_remove_thread t k) = expiring k"
  "sems (rt_schedule_remove_thread t k) = sems k"
  "mutexes (rt_schedule_remove_thread t k) = mutexes k"
  "events (rt_schedule_remove_thread t k) = events k"
  "tstate (rt_schedule_remove_thread t k) = tstate k"
  by (simp_all add: rt_schedule_remove_thread_def Let_def tstate_def fun_eq_iff)

lemma remove_group:
  "ready_group (rt_schedule_remove_thread t k) =
     (if removeAll t (klist k (LReady (prio k t))) = []
      then ready_group k AND NOT (number_mask (threads k t)) else ready_group k)"
  by (simp add: rt_schedule_remove_thread_def Let_def)

text \<open>Removing a thread from wherever it is leaves it out of the lists.\<close>

lemma remove_ok:
  assumes "sched_ex k X"
  shows "sched_ex (rt_schedule_remove_thread t k) (insert t X)"
proof -
  let ?k = "rt_schedule_remove_thread t k"
  have lo: "lists_ok (klist k)" and go: "group_ok (ready_group k) (klist k)" and po: "\<And>u. prio_ok k u"
    and to: "\<And>u. u \<notin> X \<Longrightarrow> thread_ok k u"
    and rd: "\<And>u p. u \<in> set (klist k (LReady p)) \<Longrightarrow>
      p = prio k u \<and> number_mask (threads k u) = push_bit (prio k u) 1"
    using assms(1) by (auto simp: sched_ex_def)
  have nm: "\<forall>p. t \<notin> set (klist k (LReady p))" if "number_mask (threads k t) = 0"
  proof -
    have "push_bit (prio k t) (1::u32) \<noteq> 0"
      using po [of t] by (intro mask_nonzero) (simp add: prio_ok_def rt_const)
    then show ?thesis using that rd [of t] by auto
  qed
  have "group_ok (ready_group ?k) (klist ?k)"
    unfolding remove_group remove_sel using rd by (intro group_ok_remove [OF go po _ nm]) auto
  moreover have "thread_ok ?k u" if "u \<notin> insert t X" for u
    using to [of u] that by (auto simp: thread_ok_def is_suspended_def)
  moreover have "prio_ok ?k u" for u using po [of u] by (simp add: prio_ok_def)
  ultimately show ?thesis using lo rd by (auto simp: sched_ex_def lists_ok_removeAll)
qed

text \<open>Giving a thread a new status byte.\<close>

lemma tstate_upd_stat [simp]:
  "tstate (upd_thread t (\<lambda>r. r\<lparr>stat := f (stat r)\<rparr>) k) u
    = (if u = t then f (stat (threads k t)) AND RT_THREAD_STAT_MASK else tstate k u)"
  by (simp add: tstate_def)

lemma is_suspended_upd_stat [simp]:
  "u \<noteq> t \<Longrightarrow> is_suspended (upd_thread t (\<lambda>r. r\<lparr>stat := f (stat r)\<rparr>) k) u = is_suspended k u"
  by (simp add: is_suspended_def)

lemma set_stat_ok:
  assumes "sched_ex k X"
    and "number_mask (threads k t) = push_bit (prio k t) 1 \<or>
      f (stat (threads k t)) AND RT_THREAD_STAT_MASK \<in> {RT_THREAD_INIT, RT_THREAD_CLOSE}"
  shows "sched_ex (upd_thread t (\<lambda>r. r\<lparr>stat := f (stat r)\<rparr>) k) (insert t X)"
proof -
  let ?k = "upd_thread t (\<lambda>r. r\<lparr>stat := f (stat r)\<rparr>) k"
  have "prio_ok ?k u" for u
    using assms by (cases "u = t") (auto simp: sched_ex_def prio_ok_def)
  moreover have "thread_ok ?k u" if "u \<notin> insert t X" for u
    using assms(1) that by (auto simp: sched_ex_def thread_ok_def)
  ultimately show ?thesis using assms(1) by (auto simp: sched_ex_def)
qed

lemma set_current_ok:
  assumes "sched_ex k X"
  shows "sched_ex (k\<lparr>current := c\<rparr>) (X \<union> set_option c \<union> set_option (current k))"
  using assms by (auto simp: sched_ex_def thread_ok_def prio_ok_def tstate_def is_suspended_def)

lemma insert_list_ok:
  assumes "sched_ex k X" "\<forall>l. t \<notin> set (klist k l)" "number_mask (threads k t) = push_bit (prio k t) 1"
    and "set ts = insert t (set (klist k (LReady (prio k t))))" "distinct ts"
  shows "sched_ex (k\<lparr>klist := (klist k)(LReady (prio k t) := ts),
      ready_group := ready_group k OR number_mask (threads k t)\<rparr>) (insert t X)"
proof -
  let ?k = "k\<lparr>klist := (klist k)(LReady (prio k t) := ts),
      ready_group := ready_group k OR number_mask (threads k t)\<rparr>"
  have p8: "prio k t < 32" using assms(1) by (auto simp: sched_ex_def prio_ok_def rt_const dest: spec [of _ t])
  have mem: "u \<in> set (klist ?k l) \<longleftrightarrow> u \<in> set (klist k l) \<or> (u = t \<and> l = LReady (prio k t))" for u l
    using assms(4) by auto
  have "lists_ok (klist ?k)"
    unfolding lists_ok_def mem using assms(1,2,5) by (auto simp: sched_ex_def lists_ok_def)
  moreover have "group_ok (ready_group ?k) (klist ?k)"
  proof -
    have "ts \<noteq> []" using assms(4) by auto
    moreover have "group_ok (ready_group k) (klist k)" using assms(1) by (simp add: sched_ex_def)
    ultimately show ?thesis using p8 by (auto simp: group_ok_def assms(3) bit_set_mask simp del: push_bit_of_1)
  qed
  moreover have "thread_ok ?k u" if "u \<notin> insert t X" for u
  proof -
    have "thread_ok k u" using assms(1) that by (auto simp: sched_ex_def)
    then show ?thesis unfolding thread_ok_def mem using that by (auto simp: tstate_def is_suspended_def)
  qed
  moreover have "prio_ok ?k u" for u using assms(1) by (auto simp: sched_ex_def prio_ok_def tstate_def)
  moreover have "\<forall>u p. u \<in> set (klist ?k (LReady p)) \<longrightarrow>
          p = prio ?k u \<and> number_mask (threads ?k u) = push_bit (prio ?k u) 1"
  proof (intro allI impI)
    fix u p assume "u \<in> set (klist ?k (LReady p))"
    then consider "u = t" "p = prio k t" | "u \<in> set (klist k (LReady p))" unfolding mem by blast
    then show "p = prio ?k u \<and> number_mask (threads ?k u) = push_bit (prio ?k u) 1"
    proof cases
      case 1
      then show ?thesis using assms(3) by simp
    next
      case 2
      then have "p = prio k u \<and> number_mask (threads k u) = push_bit (prio k u) 1"
        using assms(1) unfolding sched_ex_def by blast
      then show ?thesis by (simp del: push_bit_of_1)
    qed
  qed
  ultimately show ?thesis unfolding sched_ex_def by blast
qed

lemma insert_sel [simp]:
  "current (rt_schedule_insert_thread t k) = current k"
  "lock_nest (rt_schedule_insert_thread t k) = lock_nest k"
  "interrupt_nest (rt_schedule_insert_thread t k) = interrupt_nest k"
  "rt_tick (rt_schedule_insert_thread t k) = rt_tick k"
  "timers (rt_schedule_insert_thread t k) = timers k"
  "timer_list (rt_schedule_insert_thread t k) = timer_list k"
  "expiring (rt_schedule_insert_thread t k) = expiring k"
  "sems (rt_schedule_insert_thread t k) = sems k"
  "mutexes (rt_schedule_insert_thread t k) = mutexes k"
  "events (rt_schedule_insert_thread t k) = events k"
  by (simp_all add: rt_schedule_insert_thread_def Let_def)

lemma insert_threads:
  "threads (rt_schedule_insert_thread t k) = (threads k)(t := (threads k t)
     \<lparr>stat := set_state (if current k = Some t then RT_THREAD_RUNNING else RT_THREAD_READY) (stat (threads k t))\<rparr>)"
  by (simp add: rt_schedule_insert_thread_def Let_def)

lemma insert_klist:
  "klist (rt_schedule_insert_thread t k) = (if current k = Some t then klist k
     else (klist k)(LReady (prio k t) := (if stat (threads k t) AND RT_THREAD_STAT_YIELD \<noteq> 0
       then klist k (LReady (prio k t)) @ [t] else t # klist k (LReady (prio k t)))))"
proof -
  have "set_state 2 (stat (threads k t)) AND 8 = stat (threads k t) AND 8" by (rule set_state_yield) simp
  then show ?thesis by (simp add: rt_schedule_insert_thread_def Let_def rt_const)
qed

text \<open>The current thread, out of all lists, becomes running.\<close>

lemma set_running_ok:
  assumes "sched_ex k X" "\<forall>l. t \<notin> set (klist k l)" "number_mask (threads k t) = push_bit (prio k t) 1"
    and "current k = Some t"
  shows "sched_ex (upd_thread t (\<lambda>r. r\<lparr>stat := set_state RT_THREAD_RUNNING (stat r)\<rparr>) k) (X - {t})"
proof -
  let ?k = "upd_thread t (\<lambda>r. r\<lparr>stat := set_state RT_THREAD_RUNNING (stat r)\<rparr>) k"
  have "sched_ex ?k (insert t X)" using assms by (intro set_stat_ok) simp_all
  moreover have "thread_ok ?k t"
    using assms(2,4) by (simp add: thread_ok_def rt_const kst)
  ultimately show ?thesis by (auto intro: sched_ex_shrink)
qed

lemma insert_ok:
  assumes "sched_ex k X" "\<forall>l. t \<notin> set (klist k l)" "number_mask (threads k t) = push_bit (prio k t) 1"
  shows "sched_ex (rt_schedule_insert_thread t k) (X - {t})"
proof (cases "current k = Some t")
  case True
  then show ?thesis using set_running_ok [OF assms True] by (simp add: rt_schedule_insert_thread_def)
next
  case False
  let ?k1 = "upd_thread t (\<lambda>r. r\<lparr>stat := set_state RT_THREAD_READY (stat r)\<rparr>) k"
  let ?ts = "if stat (threads ?k1 t) AND RT_THREAD_STAT_YIELD \<noteq> 0
      then klist ?k1 (LReady (prio ?k1 t)) @ [t] else t # klist ?k1 (LReady (prio ?k1 t))"
  let ?k2 = "?k1\<lparr>klist := (klist ?k1)(LReady (prio ?k1 t) := ?ts),
      ready_group := ready_group ?k1 OR number_mask (threads ?k1 t)\<rparr>"
  have eq: "rt_schedule_insert_thread t k = ?k2"
    using False by (auto simp: rt_schedule_insert_thread_def Let_def tlist_insert_before_def tlist_insert_after_def)
  have "distinct (klist k (LReady (prio k t)))" using assms(1) by (auto simp: sched_ex_def lists_ok_def)
  then have "sched_ex ?k2 (insert t (insert t X))"
    using assms by (intro insert_list_ok set_stat_ok) simp_all
  moreover have "thread_ok ?k2 t"
  proof -
    have ts: "tstate ?k2 t = 2" by (simp add: tstate_def rt_const kst)
    have only: "t \<in> set (klist ?k2 l) \<longleftrightarrow> l = LReady (prio k t)" for l
      using assms(2) by auto
    show ?thesis
      unfolding thread_ok_def only ts using False by (auto simp: rt_const wait_list_def)
  qed
  ultimately show ?thesis unfolding eq by (auto intro: sched_ex_shrink)
qed

section \<open>rt_schedule\<close>

lemma sched_ex_cong:
  assumes "threads k' = threads k" "klist k' = klist k" "ready_group k' = ready_group k" "current k' = current k"
  shows "sched_ex k' X = sched_ex k X"
  by (simp add: sched_ex_def thread_ok_def prio_ok_def tstate_def is_suspended_def assms)

lemma sched_ok_simps [simp]:
  "sched_ex (k\<lparr>rt_current_priority := p\<rparr>) X = sched_ex k X" "sched_ex (k\<lparr>lock_nest := n\<rparr>) X = sched_ex k X"
  "sched_ex (k\<lparr>interrupt_nest := b\<rparr>) X = sched_ex k X" "sched_ex (k\<lparr>rt_tick := v\<rparr>) X = sched_ex k X"
  "sched_ex (k\<lparr>timers := ti\<rparr>) X = sched_ex k X" "sched_ex (k\<lparr>timer_list := ts\<rparr>) X = sched_ex k X"
  "sched_ex (k\<lparr>expiring := ts\<rparr>) X = sched_ex k X" "sched_ex (k\<lparr>sems := sm\<rparr>) X = sched_ex k X"
  "sched_ex (k\<lparr>mutexes := mx\<rparr>) X = sched_ex k X" "sched_ex (k\<lparr>events := ev\<rparr>) X = sched_ex k X"
  by (rule sched_ex_cong; simp)+

lemma get_highest_least:
  assumes "sched_ex k X" "ready_group k \<noteq> 0" "get_highest_priority_thread k = (t, p)"
  shows "t \<in> set (klist k (LReady p))" "p = prio k t" "number_mask (threads k t) = push_bit p 1"
    "u \<in> set (klist k (LReady q)) \<Longrightarrow> p \<le> q"
proof -
  have g: "group_ok (ready_group k) (klist k)" using assms(1) by (simp add: sched_ex_def)
  have p: "p = rt_ffs (ready_group k) - 1" "t = hd (klist k (LReady p))"
    using assms(3) by (auto simp: get_highest_priority_thread_def Let_def)
  have "bit (ready_group k) p" "\<forall>i < p. \<not> bit (ready_group k) i"
    using rt_ffs_least [OF assms(2)] p(1) by simp_all
  then have b: "klist k (LReady p) \<noteq> []" "\<forall>i < p. klist k (LReady i) = []"
    using g by (auto simp: group_ok_def dest: bit_imp_le_length)
  show t: "t \<in> set (klist k (LReady p))" using b(1) p(2) by simp
  show "p = prio k t" "number_mask (threads k t) = push_bit p 1"
    using t assms(1) by (auto simp: sched_ex_def simp del: push_bit_of_1)
  show "p \<le> q" if "u \<in> set (klist k (LReady q))" for u q
    using b(2) that by (cases "q < p") auto
qed

text \<open>A running current thread is in no list.\<close>

lemma running_unlisted:
  assumes "sched_ex k X" "c \<notin> X" "tstate k c = RT_THREAD_RUNNING"
  shows "\<forall>l. c \<notin> set (klist k l)"
proof
  fix l
  have ok: "thread_ok k c" using assms by (simp add: sched_ex_def)
  show "c \<notin> set (klist k l)"
  proof (cases "wait_list l")
    case True
    then show ?thesis using ok assms(3) by (auto simp: thread_ok_def is_suspended_iff rt_const)
  next
    case False
    then show ?thesis using ok assms(3) by (auto simp: thread_ok_def wait_list_def rt_const)
  qed
qed

lemma mask_of:
  assumes "sched_ex k X" "tstate k t \<noteq> RT_THREAD_INIT" "tstate k t \<noteq> RT_THREAD_CLOSE"
  shows "number_mask (threads k t) = push_bit (prio k t) 1"
  using assms by (auto simp: sched_ex_def prio_ok_def simp del: push_bit_of_1)

lemma schedule_cases:
  assumes ok: "sched_ok k" and c: "current k = Some c"
    and go: "lock_nest k = 0" "ready_group k \<noteq> 0"
    and hp: "get_highest_priority_thread k = (t0, hp)"
  obtains (keep) k1 where "tstate k c = RT_THREAD_RUNNING" "prio k c \<le> hp"
      "rt_schedule k = upd_thread c (\<lambda>r. r\<lparr>stat := set_state RT_THREAD_RUNNING (stat r)\<rparr>)
         (rt_schedule_remove_thread c k1)"
      "k1 = upd_thread c (\<lambda>r. r\<lparr>stat := stat r AND NOT RT_THREAD_STAT_YIELD\<rparr>) k"
    | (preempt) k1 where "tstate k c = RT_THREAD_RUNNING" "hp \<le> prio k c" "t0 \<noteq> c"
      "k1 = upd_thread c (\<lambda>r. r\<lparr>stat := stat r AND NOT RT_THREAD_STAT_YIELD\<rparr>) k
              \<lparr>rt_current_priority := hp, current := Some t0\<rparr>"
      "rt_schedule k = upd_thread t0 (\<lambda>r. r\<lparr>stat := set_state RT_THREAD_RUNNING (stat r)\<rparr>)
         (rt_schedule_remove_thread t0 (rt_schedule_insert_thread c k1))"
    | (switch) "tstate k c \<noteq> RT_THREAD_RUNNING" "t0 \<noteq> c"
      "rt_schedule k = upd_thread t0 (\<lambda>r. r\<lparr>stat := set_state RT_THREAD_RUNNING (stat r)\<rparr>)
         (rt_schedule_remove_thread t0 (k\<lparr>rt_current_priority := hp, current := Some t0\<rparr>))"
proof -
  have okx: "sched_ex k {}" using ok by (simp add: sched_ok_def)
  have t0: "t0 \<in> set (klist k (LReady hp))" using get_highest_least [OF okx go(2) hp] by simp
  have cok: "thread_ok k c" using okx by (simp add: sched_ex_def)
  have ne: "t0 \<noteq> c" using t0 cok c by (auto simp: thread_ok_def)
  have run: "(stat (threads k c) AND RT_THREAD_STAT_MASK = RT_THREAD_RUNNING) = (tstate k c = RT_THREAD_RUNNING)"
    by (simp add: tstate_def)
  note d = rt_schedule_def go hp c run Let_def
  show thesis
  proof (cases "tstate k c = RT_THREAD_RUNNING")
    case False
    then show thesis by (intro switch) (simp_all add: d ne)
  next
    case True
    show thesis
    proof (cases "prio k c < hp \<or> prio k c = hp \<and> stat (threads k c) AND RT_THREAD_STAT_YIELD = 0")
      case keep': True
      then show thesis by (intro keep [OF True _ _ refl]) (auto simp: d True)
    next
      case pre: False
      then show thesis by (intro preempt [OF True _ ne refl]) (auto simp: d True ne)
    qed
  qed
qed

lemma clear_yield_ok:
  assumes "sched_ex k X"
  shows "sched_ex (upd_thread t (\<lambda>r. r\<lparr>stat := stat r AND NOT RT_THREAD_STAT_YIELD\<rparr>) k) X" (is "sched_ex ?k X")
proof -
  have same: "tstate ?k u = tstate k u" for u by (simp add: tstate_def rt_const kst)
  have susp: "is_suspended ?k u = is_suspended k u" for u by (simp only: is_suspended_iff same)
  have rest: "prio ?k u = prio k u" "number_mask (threads ?k u) = number_mask (threads k u)" for u by simp_all
  show ?thesis
    using assms unfolding sched_ex_def prio_ok_def thread_ok_def same susp rest upd_thread_sel(2-4) by simp
qed

lemma run_ok:
  assumes "sched_ex k X" "number_mask (threads k t) = push_bit (prio k t) 1" "current k = Some t"
  shows "sched_ex (upd_thread t (\<lambda>r. r\<lparr>stat := set_state RT_THREAD_RUNNING (stat r)\<rparr>)
    (rt_schedule_remove_thread t k)) (X - {t})"
proof -
  have "sched_ex (upd_thread t (\<lambda>r. r\<lparr>stat := set_state RT_THREAD_RUNNING (stat r)\<rparr>)
    (rt_schedule_remove_thread t k)) (insert t X - {t})"
    using assms by (intro set_running_ok remove_ok) simp_all
  then show ?thesis by simp
qed

lemma schedule_ok:
  assumes ok: "sched_ok k" and c: "current k = Some c"
  shows "sched_ok (rt_schedule k)"
proof (cases "lock_nest k = 0 \<and> ready_group k \<noteq> 0")
  case False
  then show ?thesis using ok by (auto simp: rt_schedule_def)
next
  case go: True
  obtain t0 hp where hp: "get_highest_priority_thread k = (t0, hp)" by (cases "get_highest_priority_thread k")
  have okx: "sched_ex k {}" using ok by (simp add: sched_ok_def)
  have t0: "number_mask (threads k t0) = push_bit (prio k t0) 1"
    using get_highest_least [OF okx _ hp] go by (simp del: push_bit_of_1)
  have cm: "tstate k c = RT_THREAD_RUNNING \<Longrightarrow> number_mask (threads k c) = push_bit (prio k c) 1"
    by (rule mask_of [OF okx]) (simp_all add: rt_const)
  have gl: "lock_nest k = 0" "ready_group k \<noteq> 0" using go by simp_all
  from ok c gl hp show ?thesis
  proof (cases rule: schedule_cases)
    case (keep k1)
    have "sched_ex k1 {}" unfolding keep(4) by (rule clear_yield_ok [OF okx])
    then have "sched_ex (rt_schedule k) ({} - {c})"
      unfolding keep(3) by (rule run_ok) (simp_all add: keep(4) c cm [OF keep(1)] del: push_bit_of_1)
    then show ?thesis by (simp add: sched_ok_def)
  next
    case (preempt k1)
    have "sched_ex (upd_thread c (\<lambda>r. r\<lparr>stat := stat r AND NOT RT_THREAD_STAT_YIELD\<rparr>) k) {}"
      by (rule clear_yield_ok [OF okx])
    from set_current_ok [OF this, of "Some t0"] have k1: "sched_ex k1 {t0, c}"
      by (subst sched_ex_cong) (simp_all add: preempt(4) c insert_commute)
    have "\<forall>l. c \<notin> set (klist k1 l)" using running_unlisted [OF okx _ preempt(1)] by (simp add: preempt(4))
    then have "sched_ex (rt_schedule_insert_thread c k1) ({t0, c} - {c})"
      using k1 by (rule_tac insert_ok) (simp_all add: preempt(4) cm [OF preempt(1)] del: push_bit_of_1)
    moreover have "{t0, c} - {c} = {t0}" using preempt(3) by auto
    ultimately have "sched_ex (rt_schedule k) ({t0} - {t0})"
      unfolding preempt(5) using preempt(3)
      by (intro run_ok) (simp_all add: preempt(4) insert_threads t0 del: push_bit_of_1)
    then show ?thesis by (simp add: sched_ok_def)
  next
    case switch
    let ?k = "k\<lparr>rt_current_priority := hp, current := Some t0\<rparr>"
    have k1: "sched_ex ?k {t0, c}"
      using set_current_ok [OF okx, of "Some t0"]
      by (subst sched_ex_cong [of _ "k\<lparr>current := Some t0\<rparr>"]) (simp_all add: c insert_commute)
    have "sched_ex (rt_schedule k) ({t0, c} - {t0})"
      unfolding switch(3) using t0 by (intro run_ok k1) (simp_all del: push_bit_of_1)
    moreover have "thread_ok (rt_schedule k) c"
    proof -
      have "thread_ok k c" using okx by (simp add: sched_ex_def)
      then show ?thesis using switch(1,2)
        by (auto simp: switch(3) thread_ok_def tstate_def is_suspended_def c)
    qed
    ultimately have "sched_ex (rt_schedule k) {}"
      using sched_ex_shrink [of "rt_schedule k" "{t0, c} - {t0}" "{}"] by auto
    then show ?thesis by (simp add: sched_ok_def)
  qed
qed

section \<open>The ready lists as a priority queue\<close>

text \<open>
  What rt_schedule and the callers of rt_schedule_insert_thread rely on: a set of waiting threads with
  their priorities, of which the best (the numerically least priority) is found at once.
\<close>

locale ready_queue =
  fixes enter :: "nat \<Rightarrow> 's \<Rightarrow> 's" and leave :: "nat \<Rightarrow> 's \<Rightarrow> 's" and best :: "'s \<Rightarrow> nat \<times> nat"
    and members :: "'s \<Rightarrow> (nat \<times> nat) set" and valid :: "'s \<Rightarrow> bool"
    and may_enter :: "'s \<Rightarrow> nat \<Rightarrow> bool" and rank :: "'s \<Rightarrow> nat \<Rightarrow> nat"
  assumes best_in: "valid s \<Longrightarrow> members s \<noteq> {} \<Longrightarrow> best s \<in> members s"
    and best_least: "valid s \<Longrightarrow> members s \<noteq> {} \<Longrightarrow> m \<in> members s \<Longrightarrow> snd (best s) \<le> snd m"
    and enter_members: "valid s \<Longrightarrow> may_enter s t \<Longrightarrow> members (enter t s) = insert (t, rank s t) (members s)"
    and enter_valid: "valid s \<Longrightarrow> may_enter s t \<Longrightarrow> valid (enter t s)"
    and leave_members: "valid s \<Longrightarrow> members (leave t s) = {m \<in> members s. fst m \<noteq> t}"
    and leave_valid: "valid s \<Longrightarrow> valid (leave t s)"
begin

text \<open>Entering a thread changes the best choice only in its favour.\<close>

lemma best_enter:
  assumes "valid s" "may_enter s t"
  shows "snd (best (enter t s)) = (if members s = {} then rank s t else min (rank s t) (snd (best s)))"
proof -
  have v: "valid (enter t s)" and m: "members (enter t s) = insert (t, rank s t) (members s)"
    using assms enter_valid enter_members by auto
  have i: "best (enter t s) \<in> insert (t, rank s t) (members s)" using best_in [OF v] m by auto
  show ?thesis
  proof (cases "members s = {}")
    case True
    then show ?thesis using i by simp
  next
    case False
    have "snd (best (enter t s)) \<le> rank s t" using best_least [OF v, of "(t, rank s t)"] m by simp
    moreover have "snd (best (enter t s)) \<le> snd (best s)"
      using best_least [OF v, of "best s"] best_in [OF assms(1) False] m by simp
    moreover have "best (enter t s) = (t, rank s t) \<or> snd (best s) \<le> snd (best (enter t s))"
      using i best_least [OF assms(1) False, of "best (enter t s)"] by blast
    ultimately show ?thesis using False by (auto simp: min_def)
  qed
qed

text \<open>Taking the best thread out leaves only threads that are no better.\<close>

lemma best_leave:
  assumes "valid s" "members s \<noteq> {}" "m \<in> members (leave t s)"
  shows "snd (best s) \<le> snd m" "fst m \<noteq> t"
  using assms leave_members best_least by auto

end

definition ready_members :: "kernel \<Rightarrow> (nat \<times> nat) set" where
  "ready_members k = {(t, p). t \<in> set (klist k (LReady p))}"

definition sched_valid :: "kernel \<Rightarrow> bool" where
  "sched_valid k \<longleftrightarrow> (\<exists>X. sched_ex k X)"

definition may_ready :: "kernel \<Rightarrow> nat \<Rightarrow> bool" where
  "may_ready k t \<longleftrightarrow> current k \<noteq> Some t \<and> (\<forall>l. t \<notin> set (klist k l))
     \<and> number_mask (threads k t) = push_bit (prio k t) 1"

lemma ready_group_0:
  assumes "sched_ex k X"
  shows "ready_group k = 0 \<longleftrightarrow> ready_members k = {}"
proof -
  have g: "bit (ready_group k) p \<longleftrightarrow> p < 32 \<and> klist k (LReady p) \<noteq> []" for p
    using assms by (simp add: sched_ex_def group_ok_def)
  have "klist k (LReady p) = []" if "\<not> p < 32" for p
  proof (rule ccontr)
    assume "klist k (LReady p) \<noteq> []"
    then obtain t where "t \<in> set (klist k (LReady p))" by (cases "klist k (LReady p)") auto
    then have "p = prio k t" using assms by (auto simp: sched_ex_def)
    moreover have "prio k t < 8" using assms by (auto simp: sched_ex_def prio_ok_def rt_const)
    ultimately show False using that by simp
  qed
  moreover have "ready_members k = {} \<longleftrightarrow> (\<forall>p. klist k (LReady p) = [])"
  proof -
    have e: "xs = [] \<longleftrightarrow> (\<forall>t. t \<notin> set xs)" for xs :: "nat list" by (cases xs) auto
    show ?thesis unfolding e ready_members_def by blast
  qed
  moreover have "ready_group k = 0 \<longleftrightarrow> (\<forall>p. \<not> bit (ready_group k) p)"
    by (auto simp: bit_eq_iff g)
  ultimately show ?thesis using g by blast
qed

interpretation rq: ready_queue rt_schedule_insert_thread rt_schedule_remove_thread
  get_highest_priority_thread ready_members sched_valid may_ready prio
proof
  fix s t m
  assume "sched_valid s"
  then obtain X where X: "sched_ex s X" by (auto simp: sched_valid_def)
  obtain b p where bp: "get_highest_priority_thread s = (b, p)" by (cases "get_highest_priority_thread s")
  {
    assume "ready_members s \<noteq> {}"
    then have "ready_group s \<noteq> 0" using ready_group_0 [OF X] by simp
    note g = get_highest_least [OF X this bp]
    show "get_highest_priority_thread s \<in> ready_members s" using g(1) bp by (simp add: ready_members_def)
    show "m \<in> ready_members s \<Longrightarrow> snd (get_highest_priority_thread s) \<le> snd m"
      using g(4) bp by (cases m) (simp add: ready_members_def)
  }
  show "ready_members (rt_schedule_remove_thread t s) = {m \<in> ready_members s. fst m \<noteq> t}"
    by (auto simp: ready_members_def)
  show "sched_valid (rt_schedule_remove_thread t s)" using remove_ok [OF X] by (auto simp: sched_valid_def)
  assume m: "may_ready s t"
  show "ready_members (rt_schedule_insert_thread t s) = insert (t, prio s t) (ready_members s)"
    using m by (auto simp: may_ready_def ready_members_def insert_klist split: if_splits)
  show "sched_valid (rt_schedule_insert_thread t s)"
    using insert_ok [OF X] m unfolding may_ready_def sched_valid_def by blast
qed

section \<open>What rt_schedule leaves alone\<close>

lemma schedule_sel [simp]:
  "lock_nest (rt_schedule k) = lock_nest k" "interrupt_nest (rt_schedule k) = interrupt_nest k"
  "rt_tick (rt_schedule k) = rt_tick k" "timers (rt_schedule k) = timers k"
  "timer_list (rt_schedule k) = timer_list k" "expiring (rt_schedule k) = expiring k"
  "sems (rt_schedule k) = sems k" "mutexes (rt_schedule k) = mutexes k" "events (rt_schedule k) = events k"
  by (simp_all add: rt_schedule_def Let_def split: prod.split)

lemma stat_upd_fields:
  "error (threads (upd_thread t (\<lambda>r. r\<lparr>stat := f (stat r)\<rparr>) k) u) = error (threads k u)"
  "current_priority (threads (upd_thread t (\<lambda>r. r\<lparr>stat := f (stat r)\<rparr>) k) u) = current_priority (threads k u)"
  "init_priority (threads (upd_thread t (\<lambda>r. r\<lparr>stat := f (stat r)\<rparr>) k) u) = init_priority (threads k u)"
  "number_mask (threads (upd_thread t (\<lambda>r. r\<lparr>stat := f (stat r)\<rparr>) k) u) = number_mask (threads k u)"
  "taken_object_list (threads (upd_thread t (\<lambda>r. r\<lparr>stat := f (stat r)\<rparr>) k) u) = taken_object_list (threads k u)"
  "pending_object (threads (upd_thread t (\<lambda>r. r\<lparr>stat := f (stat r)\<rparr>) k) u) = pending_object (threads k u)"
  "event_set (threads (upd_thread t (\<lambda>r. r\<lparr>stat := f (stat r)\<rparr>) k) u) = event_set (threads k u)"
  "event_info (threads (upd_thread t (\<lambda>r. r\<lparr>stat := f (stat r)\<rparr>) k) u) = event_info (threads k u)"
  "init_tick (threads (upd_thread t (\<lambda>r. r\<lparr>stat := f (stat r)\<rparr>) k) u) = init_tick (threads k u)"
  "remaining_tick (threads (upd_thread t (\<lambda>r. r\<lparr>stat := f (stat r)\<rparr>) k) u) = remaining_tick (threads k u)"
  by simp_all

lemma insert_fields [simp]:
  "error (threads (rt_schedule_insert_thread t k) u) = error (threads k u)"
  "current_priority (threads (rt_schedule_insert_thread t k) u) = current_priority (threads k u)"
  "init_priority (threads (rt_schedule_insert_thread t k) u) = init_priority (threads k u)"
  "number_mask (threads (rt_schedule_insert_thread t k) u) = number_mask (threads k u)"
  "taken_object_list (threads (rt_schedule_insert_thread t k) u) = taken_object_list (threads k u)"
  "pending_object (threads (rt_schedule_insert_thread t k) u) = pending_object (threads k u)"
  "event_set (threads (rt_schedule_insert_thread t k) u) = event_set (threads k u)"
  "event_info (threads (rt_schedule_insert_thread t k) u) = event_info (threads k u)"
  "init_tick (threads (rt_schedule_insert_thread t k) u) = init_tick (threads k u)"
  "remaining_tick (threads (rt_schedule_insert_thread t k) u) = remaining_tick (threads k u)"
  by (simp_all add: insert_threads)

lemma schedule_fields [simp]:
  "error (threads (rt_schedule k) u) = error (threads k u)"
  "current_priority (threads (rt_schedule k) u) = current_priority (threads k u)"
  "init_priority (threads (rt_schedule k) u) = init_priority (threads k u)"
  "number_mask (threads (rt_schedule k) u) = number_mask (threads k u)"
  "taken_object_list (threads (rt_schedule k) u) = taken_object_list (threads k u)"
  "pending_object (threads (rt_schedule k) u) = pending_object (threads k u)"
  "event_set (threads (rt_schedule k) u) = event_set (threads k u)"
  "event_info (threads (rt_schedule k) u) = event_info (threads k u)"
  "init_tick (threads (rt_schedule k) u) = init_tick (threads k u)"
  "remaining_tick (threads (rt_schedule k) u) = remaining_tick (threads k u)"
  by (simp_all add: rt_schedule_def Let_def split: prod.split)

lemma insert_suspended:
  "is_suspended (rt_schedule_insert_thread t k) u \<longleftrightarrow> u \<noteq> t \<and> is_suspended k u"
  by (simp add: is_suspended_iff tstate_def insert_threads rt_const kst)

lemma remove_suspended [simp]: "is_suspended (rt_schedule_remove_thread t k) = is_suspended k"
  by (simp add: is_suspended_def fun_eq_iff)

text \<open>Scheduling moves threads between ready and running only.\<close>

lemma schedule_suspended:
  assumes ok: "sched_ok k" and c: "current k = Some c"
  shows "is_suspended (rt_schedule k) u = is_suspended k u"
    "\<not> is_suspended k u \<Longrightarrow> tstate k u \<in> {RT_THREAD_READY, RT_THREAD_RUNNING} \<or> tstate (rt_schedule k) u = tstate k u"
proof -
  have "is_suspended (rt_schedule k) u = is_suspended k u
    \<and> (tstate k u \<in> {RT_THREAD_READY, RT_THREAD_RUNNING} \<or> tstate (rt_schedule k) u = tstate k u)"
  proof (cases "lock_nest k = 0 \<and> ready_group k \<noteq> 0")
    case False
    then show ?thesis by (auto simp: rt_schedule_def)
  next
    case go: True
    obtain t0 hp where hp: "get_highest_priority_thread k = (t0, hp)" by (cases "get_highest_priority_thread k")
    have "t0 \<in> set (klist k (LReady hp))"
      using get_highest_least [of k "{}", OF _ _ hp] ok go by (simp add: sched_ok_def)
    then have t0: "tstate k t0 = 2" using ok by (auto simp: sched_ok_def sched_ex_def thread_ok_def rt_const)
    have gl: "lock_nest k = 0" "ready_group k \<noteq> 0" using go by simp_all
    from ok c gl hp show ?thesis
    proof (cases rule: schedule_cases)
      case (keep k1)
      then show ?thesis by (auto simp: is_suspended_iff tstate_def rt_const kst)
    next
      case (preempt k1)
      then show ?thesis using t0 by (auto simp: is_suspended_iff tstate_def insert_threads rt_const kst)
    next
      case switch
      then show ?thesis using t0 by (auto simp: is_suspended_iff tstate_def rt_const kst)
    qed
  qed
  then show "is_suspended (rt_schedule k) u = is_suspended k u"
    "\<not> is_suspended k u \<Longrightarrow> tstate k u \<in> {RT_THREAD_READY, RT_THREAD_RUNNING} \<or> tstate (rt_schedule k) u = tstate k u"
    by auto
qed

lemma schedule_current: "current k \<noteq> None \<Longrightarrow> current (rt_schedule k) \<noteq> None"
  by (simp add: rt_schedule_def Let_def split: prod.split)

text \<open>A suspended thread can leave its wait list and be made ready.\<close>

lemma tlist_remove_ok:
  assumes "sched_ex k X" "is_suspended k t" "t \<notin> X"
  shows "sched_ex (tlist_remove t k) X"
proof -
  let ?k = "tlist_remove t k"
  have "\<forall>p. t \<notin> set (klist k (LReady p))"
    using assms by (auto simp: sched_ex_def thread_ok_def is_suspended_iff rt_const)
  then have rd: "klist ?k (LReady p) = klist k (LReady p)" for p by simp
  have "group_ok (ready_group ?k) (klist ?k)"
    using assms(1) by (simp add: sched_ex_def group_ok_def rd del: tlist_remove_sel(2))
  moreover have "thread_ok ?k u" if "u \<notin> X" for u
  proof -
    have "thread_ok k u" using assms(1) that by (simp add: sched_ex_def)
    then show ?thesis unfolding thread_ok_def rd by (auto simp: is_suspended_def)
  qed
  moreover have "prio_ok ?k u" for u using assms(1) by (simp add: sched_ex_def prio_ok_def)
  ultimately show ?thesis
    using assms(1) unfolding sched_ex_def rd by (simp add: lists_ok_removeAll) blast
qed

lemma suspended_mask:
  assumes "sched_ex k X" "is_suspended k t"
  shows "number_mask (threads k t) = push_bit (prio k t) 1"
  by (rule mask_of [OF assms(1)]) (use assms(2) in \<open>auto simp: is_suspended_iff rt_const\<close>)

text \<open>Waking a thread: out of its wait list, into the ready list.\<close>

lemma wake_ok:
  assumes "sched_ex k X" "is_suspended k t" "t \<notin> X"
  shows "sched_ex (rt_schedule_insert_thread t (tlist_remove t k)) X"
proof -
  have m: "number_mask (threads k t) = push_bit (prio k t) 1" by (rule suspended_mask [OF assms(1,2)])
  have "sched_ex (rt_schedule_insert_thread t (tlist_remove t k)) (X - {t})"
    by (rule insert_ok [OF tlist_remove_ok [OF assms]]) (simp_all add: m del: push_bit_of_1)
  then show ?thesis using assms(3) by simp
qed

section \<open>Properties\<close>

lemma schedule_highest:
  assumes ok: "sched_ok k" and c: "current k = Some c" and l: "lock_nest k = 0"
    and r: "tstate k c = RT_THREAD_RUNNING \<or> ready_group k \<noteq> 0"
  shows "\<exists>t. current (rt_schedule k) = Some t \<and> tstate (rt_schedule k) t = RT_THREAD_RUNNING
    \<and> (\<forall>m \<in> ready_members (rt_schedule k). prio (rt_schedule k) t \<le> snd m)"
proof (cases "ready_group k = 0")
  case True
  then have "ready_members k = {}" using ready_group_0 ok by (auto simp: sched_ok_def)
  then show ?thesis using True r c by (simp add: rt_schedule_def)
next
  case go: False
  obtain t0 hp where hp: "get_highest_priority_thread k = (t0, hp)" by (cases "get_highest_priority_thread k")
  have okx: "sched_ex k {}" using ok by (simp add: sched_ok_def)
  then have v: "sched_valid k" by (auto simp: sched_valid_def)
  have ne: "ready_members k \<noteq> {}" using go ready_group_0 [OF okx] by simp
  have le: "m \<in> ready_members k \<Longrightarrow> hp \<le> snd m" for m using rq.best_least [OF v ne] hp by simp
  have t0: "hp = prio k t0" using get_highest_least [OF okx go hp] by simp
  note d = tstate_def rt_const kst ready_members_def
  from ok c l go hp show ?thesis
  proof (cases rule: schedule_cases)
    case (keep k1)
    then show ?thesis using le c by (intro exI [of _ c]) (fastforce simp: d)
  next
    case (preempt k1)
    then show ?thesis using le t0
      by (intro exI [of _ t0]) (fastforce simp: d insert_klist insert_threads split: if_splits)
  next
    case switch
    then show ?thesis using le t0 by (intro exI [of _ t0]) (fastforce simp: d)
  qed
qed

subsection \<open>A small system\<close>

definition blank_thread :: rt_thread where
  "blank_thread = \<lparr>error = RT_EOK, stat = RT_THREAD_INIT, current_priority = 0, init_priority = 0,
     number_mask = 0, taken_object_list = [], pending_object = None, event_set = 0, event_info = 0,
     init_tick = 0, remaining_tick = 0\<rparr>"

definition blank_kernel :: kernel where
  "blank_kernel = \<lparr>threads = \<lambda>_. blank_thread, klist = \<lambda>_. [], ready_group = 0, current = None,
     rt_current_priority = 0, lock_nest = 0, interrupt_nest = 0, rt_tick = 0,
     timers = \<lambda>_. \<lparr>activated = False, periodic = False, timeout_func = Callback 0, parameter = 0,
       timeout_tick = 0, init_time = 0\<rparr>,
     timer_list = [], expiring = [], sems = \<lambda>_. \<lparr>sem_value = 0, sem_flag = 0\<rparr>,
     mutexes = \<lambda>_. \<lparr>mutex_owner = None, mutex_priority = 255, hold = 0, ceiling_priority = 255\<rparr>,
     events = \<lambda>_. \<lparr>event_bits = 0, event_flag = 0\<rparr>\<rparr>"

lemma blank_ok: "sched_ok blank_kernel"
  by (simp add: sched_ok_def sched_ex_def lists_ok_def group_ok_def prio_ok_def thread_ok_def tstate_def
      blank_kernel_def blank_thread_def rt_const)

text \<open>Threads 0, 1 and 2 of priorities 1, 1 and 2, all ready; the idle thread is 9, of priority 7.\<close>

definition demo_prio :: "nat \<Rightarrow> nat" where
  "demo_prio t = (if t < 2 then 1 else if t = 2 then 2 else 7)"

definition demo_threads :: kernel where
  "demo_threads = blank_kernel\<lparr>threads := \<lambda>t. blank_thread\<lparr>current_priority := demo_prio t,
     init_priority := demo_prio t, number_mask := push_bit (demo_prio t) 1\<rparr>,
     timers := \<lambda>i. (case i of TThread t \<Rightarrow> (timers blank_kernel i)\<lparr>timeout_func := Thread_timeout, parameter := t\<rparr>
       | TUser n \<Rightarrow> (timers blank_kernel i)\<lparr>init_time := word_of_nat (5 * n + 1)\<rparr>)\<rparr>"

definition demo_ready :: kernel where
  "demo_ready = rt_schedule_insert_thread 0 (rt_schedule_insert_thread 1
     (rt_schedule_insert_thread 2 (rt_schedule_insert_thread 9 demo_threads)))"

lemma demo_threads_ok: "sched_ok demo_threads"
  by (simp add: sched_ok_def sched_ex_def lists_ok_def group_ok_def prio_ok_def thread_ok_def tstate_def
      demo_threads_def demo_prio_def blank_kernel_def blank_thread_def rt_const del: push_bit_of_1)

lemma demo_ready_ok: "sched_ok demo_ready"
proof -
  note d = demo_threads_def demo_prio_def blank_kernel_def blank_thread_def insert_klist insert_threads
  have "sched_ex demo_threads {}" using demo_threads_ok by (simp add: sched_ok_def)
  then have "sched_ex (rt_schedule_insert_thread 9 demo_threads) ({} - {9})"
    by (rule insert_ok) (simp_all add: d)
  then have "sched_ex (rt_schedule_insert_thread 2 (rt_schedule_insert_thread 9 demo_threads)) ({} - {9} - {2})"
    by (rule insert_ok) (simp_all add: d rt_const)
  then have "sched_ex (rt_schedule_insert_thread 1 (rt_schedule_insert_thread 2
      (rt_schedule_insert_thread 9 demo_threads))) ({} - {9} - {2} - {1})"
    by (rule insert_ok) (simp_all add: d rt_const)
  then have "sched_ex demo_ready ({} - {9} - {2} - {1} - {0})"
    unfolding demo_ready_def by (rule insert_ok) (simp_all add: d rt_const)
  then show ?thesis by (simp add: sched_ok_def)
qed

lemma start_ok:
  assumes "sched_ok k" "current k = None" "ready_group k \<noteq> 0"
  shows "sched_ok (rt_system_scheduler_start k) \<and> (\<exists>t. current (rt_system_scheduler_start k) = Some t
    \<and> (\<forall>m \<in> ready_members k. prio k t \<le> snd m) \<and> t \<notin> fst ` ready_members (rt_system_scheduler_start k))"
proof -
  obtain t p where hp: "get_highest_priority_thread k = (t, p)" by (cases "get_highest_priority_thread k")
  have okx: "sched_ex k {}" using assms(1) by (simp add: sched_ok_def)
  note g = get_highest_least [OF okx assms(3) hp]
  let ?k1 = "k\<lparr>current := Some t\<rparr>"
  let ?k2 = "rt_schedule_remove_thread t ?k1"
  let ?k3 = "upd_thread t (\<lambda>r. r\<lparr>stat := RT_THREAD_RUNNING\<rparr>) ?k2"
  have e: "rt_system_scheduler_start k = ?k3" by (simp add: rt_system_scheduler_start_def hp)
  have "sched_ex ?k1 {t}" using set_current_ok [OF okx, of "Some t"] assms(2) by simp
  then have "sched_ex ?k2 (insert t {t})" by (rule remove_ok)
  then have "sched_ex ?k3 (insert t (insert t {t}))"
    by (rule set_stat_ok [where f = "\<lambda>_. RT_THREAD_RUNNING"]) (use g in simp)
  moreover have "thread_ok ?k3 t" by (simp add: thread_ok_def tstate_def rt_const)
  ultimately have "sched_ex ?k3 {}" using sched_ex_shrink [of ?k3 "insert t (insert t {t})" "{}"] by auto
  moreover have "\<forall>m \<in> ready_members k. prio k t \<le> snd m" using g(2,4) by (auto simp: ready_members_def)
  moreover have "t \<notin> fst ` ready_members ?k3" by (auto simp: ready_members_def)
  ultimately show ?thesis unfolding e by (simp add: sched_ok_def)
qed

text \<open>Starting the scheduler makes the best ready thread the running thread.\<close>

theorem scheduler_start_sound:
  assumes "sched_ok k" "current k = None" "ready_group k \<noteq> 0"
  shows "sched_ok (rt_system_scheduler_start k) \<and> (\<exists>t. current (rt_system_scheduler_start k) = Some t
    \<and> (\<forall>m \<in> ready_members k. prio k t \<le> snd m) \<and> t \<notin> fst ` ready_members (rt_system_scheduler_start k))"
  by (rule start_ok [OF assms])

theorem scheduler_start_sound_witness: "sched_ok (rt_system_scheduler_start demo_ready)"
proof -
  have "current demo_ready = None" "ready_group demo_ready \<noteq> 0" by code_simp+
  then show ?thesis using scheduler_start_sound [OF demo_ready_ok] by simp
qed

definition demo_kernel :: kernel where
  "demo_kernel = rt_system_scheduler_start demo_ready"

lemma demo_kernel_ok: "sched_ok demo_kernel"
proof -
  have "current demo_ready = None" "ready_group demo_ready \<noteq> 0" by code_simp+
  then show ?thesis using start_ok [OF demo_ready_ok] by (simp add: demo_kernel_def)
qed

lemma demo_kernel_facts:
  "current demo_kernel = Some 0" "lock_nest demo_kernel = 0" "tstate demo_kernel 0 = RT_THREAD_RUNNING"
  "klist demo_kernel (LReady 1) = [1]" "klist demo_kernel (LReady 2) = [2]" "klist demo_kernel (LReady 7) = [9]"
  by code_simp+

text \<open>C2. With the scheduler unlocked, rt_schedule leaves a running thread than which no ready thread is
  better, and keeps the invariant.
\<close>

theorem schedule_runs_highest:
  assumes "sched_ok k" "current k = Some c" "lock_nest k = 0"
    and "tstate k c = RT_THREAD_RUNNING \<or> ready_group k \<noteq> 0"
  shows "sched_ok (rt_schedule k) \<and> (\<exists>t. current (rt_schedule k) = Some t
    \<and> tstate (rt_schedule k) t = RT_THREAD_RUNNING
    \<and> (\<forall>m \<in> ready_members (rt_schedule k). prio (rt_schedule k) t \<le> snd m))"
  using schedule_ok [OF assms(1,2)] schedule_highest [OF assms] by blast

theorem schedule_runs_highest_witness: "sched_ok (rt_schedule demo_kernel)"
  using schedule_runs_highest [OF demo_kernel_ok] demo_kernel_facts by blast

end
