(* ===== verification/Timer.thy ===== *)
theory Timer
  imports Scheduler
begin

text \<open>
  src/timer.c: the list of running timers, ordered by expiry on the wrapping tick counter, and the
  check made on every tick. RT_TIMER_SKIP_LIST_LEVEL is 1 and there are no soft timers. The name
  registry of the object container is not part of the state. The functions timers call are either
  \<open>_thread_timeout\<close> (thread.c) or functions of the application, the argument \<open>cb\<close>.
\<close>

section \<open>Operations\<close>

definition RT_TICK_MAX :: u32 where [rt_const]: "RT_TICK_MAX = 0xFFFFFFFF"
definition RT_TIMER_FLAG_PERIODIC :: u8 where [rt_const]: "RT_TIMER_FLAG_PERIODIC = 2"
definition RT_TIMER_FLAG_ACTIVATED :: u32 where [rt_const]: "RT_TIMER_FLAG_ACTIVATED = 1"
definition RT_TIMER_FLAG_DEACTIVATED :: u32 where [rt_const]: "RT_TIMER_FLAG_DEACTIVATED = 0"

definition rt_system_timer_init :: "kernel \<Rightarrow> kernel" where
  "rt_system_timer_init k = k\<lparr>timer_list := []\<rparr>"

text \<open>\<open>_timer_init\<close> and rt_timer_init\<close>

definition rt_timer_init :: "timer_id \<Rightarrow> tfunc \<Rightarrow> nat \<Rightarrow> u32 \<Rightarrow> u8 \<Rightarrow> kernel \<Rightarrow> kernel" where
  "rt_timer_init i f param time flag k = upd_timer i (\<lambda>_.
     \<lparr>activated = False, periodic = (flag AND RT_TIMER_FLAG_PERIODIC \<noteq> 0),
      timeout_func = f, parameter = param, timeout_tick = 0, init_time = time\<rparr>) k"

text \<open>\<open>_timer_remove\<close>: the node leaves the list it is in, which may be the local list of the check.\<close>

definition timer_remove :: "timer_id \<Rightarrow> kernel \<Rightarrow> kernel" where
  "timer_remove i k = k\<lparr>timer_list := removeAll i (timer_list k), expiring := removeAll i (expiring k)\<rparr>"

definition timer_list_next_timeout :: "kernel \<Rightarrow> rt_err_t \<times> u32 option" where
  "timer_list_next_timeout k = (case timer_list k of
     i # _ \<Rightarrow> (RT_EOK, Some (timeout_tick (timers k i))) | [] \<Rightarrow> (- RT_ERROR, None))"

definition rt_timer_detach :: "timer_id \<Rightarrow> kernel \<Rightarrow> rt_err_t \<times> kernel" where
  "rt_timer_detach i k = (RT_EOK, upd_timer i (\<lambda>r. r\<lparr>activated := False\<rparr>) (timer_remove i k))"

text \<open>The search of rt_timer_start: past timers that expire earlier or at the same tick.\<close>

definition expires_later :: "u32 \<Rightarrow> u32 \<Rightarrow> bool" where
  "expires_later a b \<longleftrightarrow> a - b \<noteq> 0 \<and> a - b < RT_TICK_MAX div 2"

fun timer_insert :: "(timer_id \<Rightarrow> rt_timer) \<Rightarrow> timer_id \<Rightarrow> timer_id list \<Rightarrow> timer_id list" where
  "timer_insert T i [] = [i]"
| "timer_insert T i (j # js) =
     (if expires_later (timeout_tick (T j)) (timeout_tick (T i)) then i # j # js
      else j # timer_insert T i js)"

definition rt_timer_start :: "timer_id \<Rightarrow> kernel \<Rightarrow> rt_err_t \<times> kernel" where
  "rt_timer_start i k =
     (let k1 = timer_remove i k;
          k2 = upd_timer i (\<lambda>r. r\<lparr>activated := False, timeout_tick := rt_tick k + init_time r\<rparr>) k1;
          k3 = k2\<lparr>timer_list := timer_insert (timers k2) i (timer_list k2)\<rparr>
      in (RT_EOK, upd_timer i (\<lambda>r. r\<lparr>activated := True\<rparr>) k3))"

definition rt_timer_stop :: "timer_id \<Rightarrow> kernel \<Rightarrow> rt_err_t \<times> kernel" where
  "rt_timer_stop i k =
     (if \<not> activated (timers k i) then (- RT_ERROR, k)
      else (RT_EOK, upd_timer i (\<lambda>r. r\<lparr>activated := False\<rparr>) (timer_remove i k)))"

text \<open>The commands of rt_timer_control and what they store through the argument.\<close>

datatype timer_cmd = CTRL_GET_TIME | CTRL_SET_TIME u32 | CTRL_SET_ONESHOT | CTRL_SET_PERIODIC
  | CTRL_GET_STATE | CTRL_GET_REMAIN_TIME | CTRL_GET_FUNC | CTRL_SET_FUNC tfunc
  | CTRL_GET_PARM | CTRL_SET_PARM nat | CTRL_UNKNOWN

datatype timer_arg = NoArg | TickArg u32 | FuncArg tfunc | ParmArg nat

definition rt_timer_control :: "timer_id \<Rightarrow> timer_cmd \<Rightarrow> kernel \<Rightarrow> rt_err_t \<times> timer_arg \<times> kernel" where
  "rt_timer_control i cmd k = (case cmd of
     CTRL_GET_TIME \<Rightarrow> (RT_EOK, TickArg (init_time (timers k i)), k)
   | CTRL_SET_TIME v \<Rightarrow> (RT_EOK, NoArg, upd_timer i (\<lambda>r. r\<lparr>init_time := v\<rparr>) k)
   | CTRL_SET_ONESHOT \<Rightarrow> (RT_EOK, NoArg, upd_timer i (\<lambda>r. r\<lparr>periodic := False\<rparr>) k)
   | CTRL_SET_PERIODIC \<Rightarrow> (RT_EOK, NoArg, upd_timer i (\<lambda>r. r\<lparr>periodic := True\<rparr>) k)
   | CTRL_GET_STATE \<Rightarrow> (RT_EOK, TickArg (if activated (timers k i) then RT_TIMER_FLAG_ACTIVATED
       else RT_TIMER_FLAG_DEACTIVATED), k)
   | CTRL_GET_REMAIN_TIME \<Rightarrow> (RT_EOK, TickArg (timeout_tick (timers k i)), k)
   | CTRL_GET_FUNC \<Rightarrow> (RT_EOK, FuncArg (timeout_func (timers k i)), k)
   | CTRL_SET_FUNC f \<Rightarrow> (RT_EOK, NoArg, upd_timer i (\<lambda>r. r\<lparr>timeout_func := f\<rparr>) k)
   | CTRL_GET_PARM \<Rightarrow> (RT_EOK, ParmArg (parameter (timers k i)), k)
   | CTRL_SET_PARM p \<Rightarrow> (RT_EOK, NoArg, upd_timer i (\<lambda>r. r\<lparr>parameter := p\<rparr>) k)
   | CTRL_UNKNOWN \<Rightarrow> (RT_EOK, NoArg, k))"

text \<open>\<open>_thread_timeout\<close> of thread.c\<close>

definition thread_timeout :: "nat \<Rightarrow> kernel \<Rightarrow> kernel" where
  "thread_timeout t k =
     (let k1 = upd_thread t (\<lambda>r. r\<lparr>error := - RT_ETIMEOUT\<rparr>) k;
          k2 = tlist_remove t k1;
          k3 = rt_schedule_insert_thread t k2
      in rt_schedule k3)"

type_synonym callbacks = "nat \<Rightarrow> nat \<Rightarrow> kernel \<Rightarrow> kernel"

definition timer_call :: "callbacks \<Rightarrow> timer_id \<Rightarrow> kernel \<Rightarrow> kernel" where
  "timer_call cb i k = (case timeout_func (timers k i) of
     Thread_timeout \<Rightarrow> thread_timeout (parameter (timers k i)) k
   | Callback f \<Rightarrow> cb f (parameter (timers k i)) k)"

definition timer_due :: "kernel \<Rightarrow> u32 \<Rightarrow> timer_id \<Rightarrow> bool" where
  "timer_due k now i \<longleftrightarrow> now - timeout_tick (timers k i) < RT_TICK_MAX div 2"

text \<open>One round of the loop of rt_timer_check for the timer \<open>i\<close> at the head of the list.\<close>

definition timer_expire :: "callbacks \<Rightarrow> timer_id \<Rightarrow> kernel \<Rightarrow> kernel" where
  "timer_expire cb i k =
     (let k1 = timer_remove i k;
          k2 = (if \<not> periodic (timers k1 i) then upd_timer i (\<lambda>r. r\<lparr>activated := False\<rparr>) k1 else k1);
          k3 = k2\<lparr>expiring := i # expiring k2\<rparr>;
          k4 = timer_call cb i k3
      in if expiring k4 = [] then k4 else
         let k5 = timer_remove i k4
         in if periodic (timers k5 i) \<and> activated (timers k5 i) then
              snd (rt_timer_start i (upd_timer i (\<lambda>r. r\<lparr>activated := False\<rparr>) k5))
            else k5)"

partial_function (option) timer_check_loop :: "callbacks \<Rightarrow> u32 \<Rightarrow> kernel \<Rightarrow> kernel option" where
  "timer_check_loop cb current_tick k = (case timer_list k of
     [] \<Rightarrow> Some k
   | i # _ \<Rightarrow> (if timer_due k current_tick i
       then (let k' = timer_expire cb i k in timer_check_loop cb (rt_tick k') k')
       else Some k))"

definition rt_timer_check :: "callbacks \<Rightarrow> kernel \<Rightarrow> kernel option" where
  "rt_timer_check cb k = timer_check_loop cb (rt_tick k) (k\<lparr>expiring := []\<rparr>)"

definition rt_timer_next_timeout_tick :: "kernel \<Rightarrow> u32" where
  "rt_timer_next_timeout_tick k = (case snd (timer_list_next_timeout k) of
     Some t \<Rightarrow> t | None \<Rightarrow> RT_TICK_MAX)"

section \<open>The invariant\<close>

text \<open>The built-in timer of a thread as \<open>_thread_init\<close> sets it up.\<close>

definition timer_set :: "kernel \<Rightarrow> nat \<Rightarrow> bool" where
  "timer_set k t \<longleftrightarrow> timeout_func (timers k (TThread t)) = Thread_timeout
     \<and> parameter (timers k (TThread t)) = t \<and> \<not> periodic (timers k (TThread t))"

definition timers_ok :: "kernel \<Rightarrow> bool" where
  "timers_ok k \<longleftrightarrow> distinct (timer_list k @ expiring k)
     \<and> (\<forall>i \<in> set (timer_list k). activated (timers k i))
     \<and> (\<forall>t. TThread t \<in> set (timer_list k) \<longrightarrow> is_suspended k t)
     \<and> (\<forall>n. TUser n \<in> set (timer_list k) \<longrightarrow> timeout_func (timers k (TUser n)) \<noteq> Thread_timeout)
     \<and> (\<forall>t. tstate k t \<noteq> RT_THREAD_INIT \<longrightarrow> timer_set k t)"

definition kernel_ok :: "kernel \<Rightarrow> bool" where
  "kernel_ok k \<longleftrightarrow> sched_ok k \<and> timers_ok k \<and> current k \<noteq> None"

lemma kernel_okD:
  "kernel_ok k \<Longrightarrow> sched_ok k" "kernel_ok k \<Longrightarrow> timers_ok k" "kernel_ok k \<Longrightarrow> current k \<noteq> None"
  "kernel_ok k \<Longrightarrow> sched_ex k {}"
  by (simp_all add: kernel_ok_def sched_ok_def)

text \<open>
  What a step may do to the timers and the waiting threads when all it does is wake threads: the tick
  stands still, timers leave the list but none enters it or is set anew, no thread is suspended, and
  a thread whose timer was taken off the list is no longer suspended.
\<close>

definition same_timer :: "rt_timer \<Rightarrow> rt_timer \<Rightarrow> bool" where
  "same_timer r r' \<longleftrightarrow> timeout_tick r' = timeout_tick r \<and> init_time r' = init_time r \<and> periodic r' = periodic r
     \<and> timeout_func r' = timeout_func r \<and> parameter r' = parameter r"

definition advances :: "kernel \<Rightarrow> kernel \<Rightarrow> bool" where
  "advances k k' \<longleftrightarrow> rt_tick k' = rt_tick k
     \<and> (\<exists>P. timer_list k' = filter P (timer_list k)) \<and> (\<exists>P. expiring k' = filter P (expiring k))
     \<and> (\<forall>i. same_timer (timers k i) (timers k' i))
     \<and> (\<forall>t. is_suspended k' t \<longrightarrow> is_suspended k t
          \<and> (TThread t \<in> set (timer_list k) \<longrightarrow> TThread t \<in> set (timer_list k')))"

lemma same_timer_refl [simp]: "same_timer r r" by (simp add: same_timer_def)

lemma filter_same: "\<exists>P. xs = filter P xs" by (rule exI [of _ "\<lambda>_. True"]) simp

lemma advances_refl [simp]: "advances k k"
  by (simp add: advances_def filter_same)

lemma advances_trans:
  assumes "advances k k'" "advances k' k''"
  shows "advances k k''"
proof -
  obtain P Q where "timer_list k' = filter P (timer_list k)" "timer_list k'' = filter Q (timer_list k')"
    using assms by (auto simp: advances_def)
  then have 1: "timer_list k'' = filter (\<lambda>x. P x \<and> Q x) (timer_list k)" by simp
  obtain P' Q' where "expiring k' = filter P' (expiring k)" "expiring k'' = filter Q' (expiring k')"
    using assms by (auto simp: advances_def)
  then have 2: "expiring k'' = filter (\<lambda>x. P' x \<and> Q' x) (expiring k)" by simp
  show ?thesis unfolding advances_def
  proof (intro conjI)
    show "\<exists>P. timer_list k'' = filter P (timer_list k)" using 1 by blast
    show "\<exists>P. expiring k'' = filter P (expiring k)" using 2 by blast
    show "\<forall>i. same_timer (timers k i) (timers k'' i)"
      using assms by (simp add: advances_def same_timer_def)
  qed (use assms in \<open>auto simp: advances_def\<close>)
qed

lemma timers_ok_frame:
  assumes "timers_ok k" "timer_list k' = filter P (timer_list k)" "expiring k' = filter Q (expiring k)"
    and "\<And>i. i \<in> set (timer_list k') \<Longrightarrow> activated (timers k' i)"
    and "\<And>i. same_timer (timers k i) (timers k' i)"
    and "\<And>t. TThread t \<in> set (timer_list k') \<Longrightarrow> is_suspended k' t"
    and "\<And>t. tstate k' t \<noteq> RT_THREAD_INIT \<Longrightarrow> tstate k t \<noteq> RT_THREAD_INIT"
  shows "timers_ok k'"
proof -
  have "distinct (timer_list k' @ expiring k')" using assms(1-3) by (auto simp: timers_ok_def)
  moreover have "timer_set k' t \<longleftrightarrow> timer_set k t" for t
    using assms(5) [of "TThread t"] by (simp add: timer_set_def same_timer_def)
  moreover have "timeout_func (timers k' i) = timeout_func (timers k i)" for i
    using assms(5) [of i] by (simp add: same_timer_def)
  ultimately show ?thesis
    using assms(1,2,4,6,7) by (auto simp: timers_ok_def)
qed

lemma timers_ok_same:
  assumes "timers_ok k" "timer_list k' = timer_list k" "expiring k' = expiring k" "timers k' = timers k"
    and "\<And>t. TThread t \<in> set (timer_list k) \<Longrightarrow> is_suspended k' t"
    and "\<And>t. tstate k' t \<noteq> RT_THREAD_INIT \<Longrightarrow> tstate k t \<noteq> RT_THREAD_INIT"
  shows "timers_ok k'"
  by (rule timers_ok_frame [of k _ "\<lambda>_. True" "\<lambda>_. True"]) (use assms in \<open>auto simp: timers_ok_def\<close>)

lemma schedule_init:
  assumes "sched_ok k" "current k = Some c" "tstate k u = RT_THREAD_INIT"
  shows "tstate (rt_schedule k) u = RT_THREAD_INIT"
  using schedule_suspended(2) [OF assms(1,2), of u] assms(3) by (simp add: is_suspended_iff rt_const)

lemma insert_init: "tstate k u = RT_THREAD_INIT \<Longrightarrow> u \<noteq> t \<Longrightarrow> tstate (rt_schedule_insert_thread t k) u = RT_THREAD_INIT"
  by (simp add: tstate_def insert_threads)

lemma suspended_not_init: "is_suspended k t \<Longrightarrow> tstate k t \<noteq> RT_THREAD_INIT"
  by (auto simp: is_suspended_iff rt_const)

lemma advances_schedule:
  assumes "kernel_ok k"
  shows "advances k (rt_schedule k)" "kernel_ok (rt_schedule k)"
proof -
  obtain c where c: "current k = Some c" using assms by (auto simp: kernel_ok_def)
  have ok: "sched_ok k" using assms by (simp add: kernel_ok_def)
  have s: "is_suspended (rt_schedule k) u = is_suspended k u" for u
    by (rule schedule_suspended [OF ok c])
  show "advances k (rt_schedule k)" by (simp add: advances_def s filter_same)
  have "timers_ok (rt_schedule k)"
  proof (rule timers_ok_same [OF kernel_okD(2) [OF assms]])
    show "is_suspended (rt_schedule k) t" if "TThread t \<in> set (timer_list k)" for t
      using that kernel_okD(2) [OF assms] unfolding s timers_ok_def by blast
    show "tstate k t \<noteq> RT_THREAD_INIT" if "tstate (rt_schedule k) t \<noteq> RT_THREAD_INIT" for t
      using that schedule_init [OF ok c] by blast
  qed simp_all
  then show "kernel_ok (rt_schedule k)"
    using assms schedule_ok [OF ok c] schedule_current [of k] by (simp add: kernel_ok_def)
qed

lemma timer_remove_sel [simp]:
  "threads (timer_remove i k) = threads k" "klist (timer_remove i k) = klist k"
  "ready_group (timer_remove i k) = ready_group k" "current (timer_remove i k) = current k"
  "lock_nest (timer_remove i k) = lock_nest k" "interrupt_nest (timer_remove i k) = interrupt_nest k"
  "rt_tick (timer_remove i k) = rt_tick k" "timers (timer_remove i k) = timers k"
  "timer_list (timer_remove i k) = removeAll i (timer_list k)"
  "expiring (timer_remove i k) = removeAll i (expiring k)" "sems (timer_remove i k) = sems k"
  "mutexes (timer_remove i k) = mutexes k" "events (timer_remove i k) = events k"
  "tstate (timer_remove i k) = tstate k" "is_suspended (timer_remove i k) = is_suspended k"
  "sched_ex (timer_remove i k) X = sched_ex k X"
  by (simp_all add: timer_remove_def tstate_def is_suspended_def fun_eq_iff
      sched_ex_cong [of "k\<lparr>timer_list := _, expiring := _\<rparr>" k])

lemma upd_timer_suspended [simp]: "is_suspended (upd_timer i f k) = is_suspended k"
  by (simp add: is_suspended_def fun_eq_iff)

lemma stop_sel [simp]:
  "threads (snd (rt_timer_stop i k)) = threads k" "klist (snd (rt_timer_stop i k)) = klist k"
  "ready_group (snd (rt_timer_stop i k)) = ready_group k" "current (snd (rt_timer_stop i k)) = current k"
  "lock_nest (snd (rt_timer_stop i k)) = lock_nest k"
  "interrupt_nest (snd (rt_timer_stop i k)) = interrupt_nest k"
  "rt_tick (snd (rt_timer_stop i k)) = rt_tick k" "sems (snd (rt_timer_stop i k)) = sems k"
  "mutexes (snd (rt_timer_stop i k)) = mutexes k" "events (snd (rt_timer_stop i k)) = events k"
  "tstate (snd (rt_timer_stop i k)) = tstate k" "is_suspended (snd (rt_timer_stop i k)) = is_suspended k"
  "sched_ex (snd (rt_timer_stop i k)) X = sched_ex k X"
  by (simp_all add: rt_timer_stop_def)

text \<open>A timer that is not activated is in no list, so stopping a timer always takes it off.\<close>

definition no_timer :: "timer_id \<Rightarrow> kernel \<Rightarrow> bool" where
  "no_timer i k \<longleftrightarrow> i \<notin> set (timer_list k)"

lemma stop_list:
  assumes "timers_ok k"
  shows "timer_list (snd (rt_timer_stop i k)) = removeAll i (timer_list k)"
    "same_timer (timers k j) (timers (snd (rt_timer_stop i k)) j)"
    "\<exists>P. expiring (snd (rt_timer_stop i k)) = filter P (expiring k)"
    "timers_ok (snd (rt_timer_stop i k))"
proof -
  show l: "timer_list (snd (rt_timer_stop i k)) = removeAll i (timer_list k)"
    using assms by (auto simp: rt_timer_stop_def timers_ok_def intro!: removeAll_id [symmetric])
  show "same_timer (timers k j) (timers (snd (rt_timer_stop i k)) j)"
    by (simp add: rt_timer_stop_def same_timer_def)
  show "\<exists>P. expiring (snd (rt_timer_stop i k)) = filter P (expiring k)"
    by (auto simp: rt_timer_stop_def filter_same removeAll_filter_not_eq)
  show "timers_ok (snd (rt_timer_stop i k))"
    using assms unfolding timers_ok_def timer_set_def l by (auto simp: rt_timer_stop_def distinct_removeAll)
qed

lemma thread_timeout_ok:
  assumes k: "kernel_ok k" and s: "is_suspended k t" and n: "TThread t \<notin> set (timer_list k)"
  shows "kernel_ok (thread_timeout t k)" "advances k (thread_timeout t k)"
    "\<not> is_suspended (thread_timeout t k) t"
    "kernel_ok (rt_schedule_insert_thread t (tlist_remove t (upd_thread t (\<lambda>r. r\<lparr>error := - RT_ETIMEOUT\<rparr>) k)))"
proof -
  let ?k1 = "upd_thread t (\<lambda>r. r\<lparr>error := - RT_ETIMEOUT\<rparr>) k"
  let ?k3 = "rt_schedule_insert_thread t (tlist_remove t ?k1)"
  have s1: "is_suspended ?k1 u = is_suspended k u" for u by (simp add: is_suspended_def)
  have "sched_ex ?k1 {}" using kernel_okD(4) [OF k] by simp
  then have ok3: "sched_ex ?k3 {}" by (rule wake_ok) (simp_all add: s1 s)
  have s3: "is_suspended ?k3 u \<longleftrightarrow> u \<noteq> t \<and> is_suspended k u" for u
    by (simp add: insert_suspended) (simp add: is_suspended_def)
  have a3: "advances k ?k3" by (simp add: advances_def filter_same s3)
  have "tstate ?k3 u = RT_THREAD_INIT" if "tstate k u = RT_THREAD_INIT" for u
    by (rule insert_init) (use that suspended_not_init [OF s] in \<open>auto simp: tstate_def\<close>)
  then have i3: "tstate k u \<noteq> RT_THREAD_INIT" if "tstate ?k3 u \<noteq> RT_THREAD_INIT" for u
    using that by blast
  have "timers_ok ?k3"
  proof (rule timers_ok_same [OF kernel_okD(2) [OF k]])
    show "is_suspended ?k3 u" if "TThread u \<in> set (timer_list k)" for u
      using that n kernel_okD(2) [OF k] unfolding s3 timers_ok_def by blast
  qed (simp_all add: i3)
  then show k3: "kernel_ok ?k3" using ok3 kernel_okD(3) [OF k] by (simp add: kernel_ok_def sched_ok_def)
  have e: "thread_timeout t k = rt_schedule ?k3" by (simp add: thread_timeout_def Let_def)
  show "kernel_ok (thread_timeout t k)" unfolding e by (rule advances_schedule(2) [OF k3])
  have a4: "advances ?k3 (thread_timeout t k)" unfolding e by (rule advances_schedule(1) [OF k3])
  show "advances k (thread_timeout t k)" by (rule advances_trans [OF a3 a4])
  show "\<not> is_suspended (thread_timeout t k) t" using a4 s3 [of t] by (auto simp: advances_def)
qed

section \<open>Order of the list\<close>

text \<open>
  Ticks wrap, so expiry times compare only relative to a base \<open>b\<close> from which all of them are less
  than half the range of the counter away.
\<close>

definition left :: "u32 \<Rightarrow> kernel \<Rightarrow> timer_id \<Rightarrow> nat" where
  "left b k i = unat (timeout_tick (timers k i) - b)"

definition half :: nat where "half = 0x7FFFFFFF"

definition tsorted :: "u32 \<Rightarrow> kernel \<Rightarrow> bool" where
  "tsorted b k \<longleftrightarrow> sorted (map (left b k) (timer_list k)) \<and> (\<forall>i \<in> set (timer_list k). left b k i < half)"

lemma half_word: "w < RT_TICK_MAX div 2 \<longleftrightarrow> unat w < half" for w :: u32
proof -
  have "RT_TICK_MAX div 2 = 0x7FFFFFFF" by (simp add: rt_const)
  then show ?thesis by (simp add: word_less_nat_alt half_def)
qed

lemma diff_rebase:
  fixes a c b :: u32
  assumes "unat (a - b) < half" "unat (c - b) < half"
  shows "unat (a - c) < half \<longleftrightarrow> unat (c - b) \<le> unat (a - b)" "a - c = 0 \<longleftrightarrow> unat (c - b) = unat (a - b)"
proof -
  have e: "a - c = (a - b) - (c - b)" by simp
  have l: "unat (a - b) < 2147483647" "unat (c - b) < 2147483647" using assms by (simp_all add: half_def)
  show "unat (a - c) < half \<longleftrightarrow> unat (c - b) \<le> unat (a - b)"
  proof (cases "c - b \<le> a - b")
    case True
    then have "unat (a - c) = unat (a - b) - unat (c - b)" unfolding e by (rule unat_sub)
    then show ?thesis using True assms by (simp add: word_le_nat_alt)
  next
    case False
    then have lt: "unat (a - b) < unat (c - b)" by (simp add: word_le_nat_alt)
    have "unat (a - c) = unat (a - b) + 2 ^ 32 - unat (c - b)"
      unfolding e by (rule trans [OF unat_sub_if_size]) (use False in \<open>simp add: word_size word_le_nat_alt\<close>)
    then show ?thesis using lt l by (simp add: half_def)
  qed
  show "a - c = 0 \<longleftrightarrow> unat (c - b) = unat (a - b)"
    unfolding word_unat_eq_iff [symmetric] by auto
qed

lemma expires_later_iff:
  assumes "unat (a - b) < half" "unat (c - b) < half"
  shows "expires_later a c \<longleftrightarrow> unat (c - b) < unat (a - b)"
  unfolding expires_later_def half_word using diff_rebase [OF assms] by auto

lemma due_iff:
  assumes "left b k i < half" "unat (now - b) < half"
  shows "timer_due k now i \<longleftrightarrow> left b k i \<le> unat (now - b)"
  unfolding timer_due_def half_word using diff_rebase(1) [OF assms(2)] assms(1) by (simp add: left_def)

lemma timer_insert_split:
  assumes "\<forall>j \<in> set (i # js). unat (timeout_tick (T j) - b) < half"
  defines "before \<equiv> \<lambda>j. unat (timeout_tick (T j) - b) \<le> unat (timeout_tick (T i) - b)"
  shows "timer_insert T i js = takeWhile before js @ i # dropWhile before js"
  using assms(1) by (induction js) (auto simp: before_def expires_later_iff [of _ b])

lemma set_timer_insert [simp]: "set (timer_insert T i js) = insert i (set js)"
  by (induction js) auto

lemma distinct_timer_insert: "distinct (timer_insert T i js) \<longleftrightarrow> distinct (i # js)"
  by (induction js) auto

lemma sorted_split:
  fixes f :: "'a \<Rightarrow> nat"
  assumes "sorted (map f js)"
  shows "sorted (map f (takeWhile (\<lambda>j. f j \<le> v) js)) \<and> sorted (map f (dropWhile (\<lambda>j. f j \<le> v) js))
    \<and> (\<forall>j \<in> set (dropWhile (\<lambda>j. f j \<le> v) js). v < f j)"
  using assms
proof (induction js)
  case Nil
  then show ?case by simp
next
  case (Cons a js)
  then show ?case by (auto dest: set_takeWhileD)
qed

lemma sorted_insert:
  fixes f :: "'a \<Rightarrow> nat"
  assumes "sorted (map f js)" "f i = v"
  shows "sorted (map f (takeWhile (\<lambda>j. f j \<le> v) js @ i # dropWhile (\<lambda>j. f j \<le> v) js))"
  using sorted_split [OF assms(1), of v] assms(2)
  by (auto simp: sorted_append dest: set_takeWhileD) (metis dual_order.strict_implies_order le_trans set_takeWhileD)

lemma start_sel [simp]:
  "threads (snd (rt_timer_start i k)) = threads k" "klist (snd (rt_timer_start i k)) = klist k"
  "ready_group (snd (rt_timer_start i k)) = ready_group k" "current (snd (rt_timer_start i k)) = current k"
  "lock_nest (snd (rt_timer_start i k)) = lock_nest k" "rt_tick (snd (rt_timer_start i k)) = rt_tick k"
  "interrupt_nest (snd (rt_timer_start i k)) = interrupt_nest k"
  "expiring (snd (rt_timer_start i k)) = removeAll i (expiring k)"
  "sems (snd (rt_timer_start i k)) = sems k" "mutexes (snd (rt_timer_start i k)) = mutexes k"
  "events (snd (rt_timer_start i k)) = events k" "tstate (snd (rt_timer_start i k)) = tstate k"
  "is_suspended (snd (rt_timer_start i k)) = is_suspended k"
  "fst (rt_timer_start i k) = RT_EOK"
  by (simp_all add: rt_timer_start_def Let_def tstate_def is_suspended_def fun_eq_iff)

lemma start_timers:
  "timers (snd (rt_timer_start i k)) =
     (timers k)(i := (timers k i)\<lparr>timeout_tick := rt_tick k + init_time (timers k i), activated := True\<rparr>)"
  by (simp add: rt_timer_start_def Let_def)

lemma start_set [simp]: "set (timer_list (snd (rt_timer_start i k))) = insert i (set (timer_list k))"
  by (auto simp: rt_timer_start_def Let_def)

lemma start_sched [simp]: "sched_ex (snd (rt_timer_start i k)) X = sched_ex k X"
  by (rule sched_ex_cong) simp_all

lemma start_position:
  assumes s: "tsorted b k" and w: "unat (rt_tick k - b) + unat (init_time (timers k i)) < half"
  defines "k' \<equiv> snd (rt_timer_start i k)" and "js \<equiv> removeAll i (timer_list k)"
  shows "timer_list k' = takeWhile (\<lambda>j. left b k' j \<le> left b k' i) js @ i # dropWhile (\<lambda>j. left b k' j \<le> left b k' i) js"
    "left b k' i = unat (rt_tick k - b) + unat (init_time (timers k i))"
    "tsorted b k'" "j \<noteq> i \<Longrightarrow> left b k' j = left b k j"
proof -
  have "rt_tick k + init_time (timers k i) - b = (rt_tick k - b) + init_time (timers k i)" by simp
  also have "unat \<dots> = unat (rt_tick k - b) + unat (init_time (timers k i))"
    using w by (subst unat_add_lem [THEN iffD1]) (simp_all add: half_def)
  finally show i: "left b k' i = unat (rt_tick k - b) + unat (init_time (timers k i))"
    by (simp add: k'_def left_def start_timers)
  have o: "left b k' j = left b k j" if "j \<noteq> i" for j using that by (simp add: k'_def left_def start_timers)
  then show "j \<noteq> i \<Longrightarrow> left b k' j = left b k j" .
  have m: "map (left b k') js = map (left b k) js" unfolding js_def by (rule map_cong [OF refl]) (simp add: o)
  have f: "sorted (map (left b k) js)"
    using s unfolding tsorted_def js_def by (simp add: removeAll_filter_not_eq sorted_filter)
  have h: "\<forall>j \<in> set (i # js). left b k' j < half"
  proof
    fix j assume "j \<in> set (i # js)"
    then show "left b k' j < half" using s w i o [of j] by (cases "j = i") (auto simp: tsorted_def js_def)
  qed
  let ?T = "(timers k)(i := (timers k i)\<lparr>activated := False, timeout_tick := rt_tick k + init_time (timers k i)\<rparr>)"
  have T: "unat (timeout_tick (?T j) - b) = left b k' j" for j by (simp add: left_def k'_def start_timers)
  have "timer_list k' = timer_insert ?T i js" by (simp add: k'_def js_def rt_timer_start_def Let_def)
  also have "\<dots> = takeWhile (\<lambda>j. left b k' j \<le> left b k' i) js @ i # dropWhile (\<lambda>j. left b k' j \<le> left b k' i) js"
    by (rule timer_insert_split [where b = b and T = ?T, unfolded T, OF h])
  finally show l: "timer_list k' = \<dots>" .
  have "sorted (map (left b k') (timer_list k'))" unfolding l by (rule sorted_insert) (simp_all only: m f)
  then show "tsorted b k'" using h unfolding tsorted_def by (simp add: k'_def js_def)
qed

section \<open>Starting a timer keeps the invariant\<close>

definition startable :: "kernel \<Rightarrow> timer_id \<Rightarrow> bool" where
  "startable k i \<longleftrightarrow> (case i of TThread t \<Rightarrow> is_suspended k t
     | TUser n \<Rightarrow> timeout_func (timers k (TUser n)) \<noteq> Thread_timeout)"

lemma start_ok_kernel:
  assumes k: "kernel_ok k" and i: "startable k i"
  shows "kernel_ok (snd (rt_timer_start i k))"
proof -
  let ?k = "snd (rt_timer_start i k)"
  have t: "timers_ok k" using k by (simp add: kernel_ok_def)
  have "distinct (timer_list ?k @ expiring ?k)"
    using t by (auto simp: timers_ok_def rt_timer_start_def Let_def distinct_timer_insert distinct_removeAll)
  moreover have "timer_set ?k u \<longleftrightarrow> timer_set k u" for u by (simp add: timer_set_def start_timers)
  ultimately have "timers_ok ?k"
    using t i by (auto simp: timers_ok_def start_timers startable_def split: timer_id.splits)
  then show ?thesis using k by (simp add: kernel_ok_def sched_ok_def)
qed

section \<open>The check\<close>

text \<open>
  The interface between rt_timer_check and the functions the timers call: they keep the invariant and
  only wake threads.
\<close>

locale timer_client =
  fixes cb :: callbacks
  assumes cb_ok: "kernel_ok k \<Longrightarrow> kernel_ok (cb f p k)"
    and cb_advances: "kernel_ok k \<Longrightarrow> advances k (cb f p k)"
begin

lemma call_ok:
  assumes "kernel_ok k" "startable k i" "i \<notin> set (timer_list k)"
  shows "kernel_ok (timer_call cb i k)" "advances k (timer_call cb i k)"
    "i = TThread t \<Longrightarrow> \<not> is_suspended (timer_call cb i k) t"
proof -
  have "kernel_ok (timer_call cb i k) \<and> advances k (timer_call cb i k)
    \<and> (\<forall>t. i = TThread t \<longrightarrow> \<not> is_suspended (timer_call cb i k) t)"
  proof (cases i)
    case (TThread t)
    then have s: "is_suspended k t" using assms(2) by (simp add: startable_def)
    then have "timer_set k t" using assms(1) suspended_not_init by (auto simp: kernel_ok_def timers_ok_def)
    then have "timer_call cb i k = thread_timeout t k" by (simp add: timer_call_def TThread timer_set_def)
    then show ?thesis using thread_timeout_ok [OF assms(1) s] assms(3) TThread by simp
  next
    case (TUser n)
    then show ?thesis using assms cb_ok cb_advances
      by (auto simp: timer_call_def startable_def split: tfunc.split)
  qed
  then show "kernel_ok (timer_call cb i k)" "advances k (timer_call cb i k)"
    "i = TThread t \<Longrightarrow> \<not> is_suspended (timer_call cb i k) t" by auto
qed

lemma expire:
  assumes k: "kernel_ok k" and e: "expiring k = []" and l: "timer_list k = i # L"
  defines "k' \<equiv> timer_expire cb i k"
  shows "\<exists>k5 P. timer_list k5 = filter P L \<and> (\<forall>j. same_timer (timers k j) (timers k5 j)) \<and> rt_tick k5 = rt_tick k
     \<and> (k' = k5 \<or> periodic (timers k i) \<and> k' = snd (rt_timer_start i k5))" (is ?shape)
    "kernel_ok k'" "expiring k' = []"
    "is_suspended k' t \<Longrightarrow> is_suspended k t \<and> (TThread t \<in> set (timer_list k) \<longrightarrow> TThread t \<in> set (timer_list k'))"
    "\<not> periodic (timers k j) \<Longrightarrow> same_timer (timers k j) (timers k' j)"
proof -
  define k2 where "k2 = (if \<not> periodic (timers k i) then upd_timer i (\<lambda>r. r\<lparr>activated := False\<rparr>) (timer_remove i k)
    else timer_remove i k)"
  define k3 where "k3 = k2\<lparr>expiring := i # expiring k2\<rparr>"
  define k4 where "k4 = timer_call cb i k3"
  define k5 where "k5 = upd_timer i (\<lambda>r. r\<lparr>activated := False\<rparr>) (timer_remove i k4)"
  have t: "timers_ok k" and d: "i \<notin> set L" "distinct L" using k l by (auto simp: kernel_ok_def timers_ok_def)
  have si: "startable k i" using t l by (cases i) (auto simp: timers_ok_def startable_def)
  have s3: "timer_list k3 = L" "expiring k3 = [i]" "rt_tick k3 = rt_tick k" "\<And>j. same_timer (timers k j) (timers k3 j)"
    "is_suspended k3 = is_suspended k" "tstate k3 = tstate k" "current k3 = current k" "sched_ex k3 {} = sched_ex k {}"
    "\<And>j. j \<noteq> i \<Longrightarrow> timers k3 j = timers k j"
    using d l e by (auto simp: k3_def k2_def same_timer_def is_suspended_def tstate_def fun_eq_iff)
  have ts: "timer_set k3 u = timer_set k u" for u
    using s3(4) [of "TThread u"] by (simp add: timer_set_def same_timer_def)
  have act: "activated (timers k3 j)" if "j \<in> set L" for j
  proof -
    have "j \<noteq> i" using d that by auto
    then show ?thesis using t l that by (simp add: s3(9) timers_ok_def)
  qed
  have uf: "timeout_func (timers k3 j) = timeout_func (timers k j)" for j
    using s3(4) [of j] by (simp add: same_timer_def)
  have "timers_ok k3" using t d l unfolding timers_ok_def s3(1,2,5,6) ts uf by (auto simp: act)
  then have k3: "kernel_ok k3" using k s3 by (simp add: kernel_ok_def sched_ok_def)
  have s3': "startable k3 i" using si by (cases i) (auto simp: startable_def s3 uf)
  have c: "kernel_ok k4" "advances k3 k4" "\<And>t. i = TThread t \<Longrightarrow> \<not> is_suspended k4 t"
    using call_ok [OF k3 s3'] d s3(1) by (auto simp: k4_def)
  obtain P Q where PQ: "timer_list k4 = filter P L" "expiring k4 = filter Q [i]"
    using c(2) s3(1,2) unfolding advances_def by metis
  have same4: "same_timer (timers k j) (timers k4 j)" for j
    using c(2) s3(4) [of j] by (auto simp: advances_def same_timer_def)
  have tick4: "rt_tick k4 = rt_tick k" using c(2) s3(3) by (simp add: advances_def)
  have w4: "is_suspended k4 t \<Longrightarrow> is_suspended k t \<and> (TThread t \<in> set (i # L) \<longrightarrow> TThread t \<in> set (timer_list k4))" for t
    using c(2,3) s3(1,5) by (auto simp: advances_def)
  have i5: "i \<notin> set (timer_list k4)" using PQ(1) d by auto
  have k': "k' = (if expiring k4 = [] then k4 else if periodic (timers k4 i) \<and> activated (timers k4 i)
      then snd (rt_timer_start i k5) else timer_remove i k4)"
    by (simp add: k'_def timer_expire_def Let_def k2_def [symmetric] k3_def [symmetric] k4_def [symmetric] k5_def)
  have rl: "timer_list (timer_remove i k4) = filter P L" using i5 PQ(1) by simp
  have re: "expiring (timer_remove i k4) = []" using PQ(2) by simp
  have t4: "timers_ok k4" using c(1) by (simp add: kernel_ok_def)
  have kr: "kernel_ok (timer_remove i k4)"
    using c(1) i5 by (auto simp: kernel_ok_def sched_ok_def timers_ok_def timer_set_def distinct_removeAll)
  have kf: "kernel_ok k5"
    using c(1) i5 by (auto simp: k5_def kernel_ok_def sched_ok_def timers_ok_def timer_set_def distinct_removeAll)
  have p4: "periodic (timers k4 i) = periodic (timers k i)" using same4 [of i] by (simp add: same_timer_def)
  have f5: "startable k5 i" if "periodic (timers k i)"
    using s3' si that t suspended_not_init same4 [of i]
    by (cases i) (auto simp: startable_def k5_def timers_ok_def timer_set_def same_timer_def)
  show "kernel_ok k'" unfolding k' p4 using c(1) kr start_ok_kernel [OF kf f5] by simp
  show "expiring k' = []" unfolding k' using re by (simp add: k5_def)
  show shape: ?shape
  proof (cases "expiring k4 = [] \<or> \<not> (periodic (timers k i) \<and> activated (timers k4 i))")
    case True
    then show ?thesis unfolding k' p4 using PQ(1) rl same4 tick4
      by (intro exI [of _ "if expiring k4 = [] then k4 else timer_remove i k4"] exI [of _ P]) auto
  next
    case False
    then show ?thesis unfolding k' p4 using rl same4 tick4
      by (intro exI [of _ k5] exI [of _ P]) (auto simp: k5_def same_timer_def)
  qed
  show "is_suspended k t \<and> (TThread t \<in> set (timer_list k) \<longrightarrow> TThread t \<in> set (timer_list k'))"
    if s: "is_suspended k' t"
  proof -
    have "is_suspended k4 t" using s unfolding k' by (auto simp: k5_def split: if_splits)
    moreover have "set (timer_list k4) \<subseteq> set (timer_list k')" unfolding k' k5_def using i5 by auto
    ultimately show ?thesis using w4 [of t] unfolding l by auto
  qed
  show "same_timer (timers k j) (timers k' j)" if "\<not> periodic (timers k j)"
  proof -
    obtain k5' where k5': "\<And>j. same_timer (timers k j) (timers k5' j)"
      "k' = k5' \<or> periodic (timers k i) \<and> k' = snd (rt_timer_start i k5')"
      using shape by blast
    from k5'(2) show ?thesis
    proof
      assume "periodic (timers k i) \<and> k' = snd (rt_timer_start i k5')"
      moreover from this that have "j \<noteq> i" by auto
      ultimately show ?thesis using k5'(1) [of j] by (simp add: start_timers)
    qed (use k5'(1) [of j] in simp)
  qed
qed

end

text \<open>What the loop keeps: the order, and periods that are neither zero nor too long.\<close>

definition check_inv :: "u32 \<Rightarrow> kernel \<Rightarrow> bool" where
  "check_inv b k \<longleftrightarrow> kernel_ok k \<and> expiring k = [] \<and> tsorted b k \<and> unat (rt_tick k - b) < half
     \<and> (\<forall>i \<in> set (timer_list k). periodic (timers k i) \<longrightarrow>
          0 < init_time (timers k i) \<and> unat (rt_tick k - b) + unat (init_time (timers k i)) < half)"

definition due_count :: "kernel \<Rightarrow> nat" where
  "due_count k = length (filter (timer_due k (rt_tick k)) (timer_list k))"

lemma tsorted_filter:
  assumes "tsorted b k" "timer_list k' = filter P (timer_list k)" "\<And>j. same_timer (timers k j) (timers k' j)"
  shows "tsorted b k'"
proof -
  have "left b k' = left b k" using assms(3) by (simp add: left_def same_timer_def fun_eq_iff)
  then show ?thesis using assms(1,2) by (auto simp: tsorted_def sorted_filter)
qed

lemma left_sel [simp]:
  "left b (k\<lparr>timer_list := xs\<rparr>) = left b k" "timer_due (k\<lparr>timer_list := xs\<rparr>) = timer_due k"
  by (simp_all add: left_def timer_due_def fun_eq_iff)

lemma filter_insert_out:
  assumes "\<not> Q i"
  shows "filter Q (takeWhile P xs @ i # dropWhile P xs) = filter Q xs"
proof -
  have "filter Q xs = filter Q (takeWhile P xs @ dropWhile P xs)" by simp
  then show ?thesis using assms unfolding filter_append by simp
qed

lemma tsorted_tl: "tsorted b k \<Longrightarrow> tsorted b (k\<lparr>timer_list := tl (timer_list k)\<rparr>)"
  by (cases "timer_list k") (auto simp: tsorted_def left_def)

lemma due_same: "same_timer (timers k j) (timers k' j) \<Longrightarrow> timer_due k' now j = timer_due k now j"
  by (simp add: timer_due_def same_timer_def)

lemma due_count_filter:
  assumes "timer_list k' = filter P (timer_list k)" "\<And>j. same_timer (timers k j) (timers k' j)" "rt_tick k' = rt_tick k"
  shows "due_count k' \<le> due_count k"
proof -
  have "due_count k' = length (filter P (filter (timer_due k (rt_tick k)) (timer_list k)))"
    unfolding due_count_def assms(1,3) by (simp add: due_same [OF assms(2)] conj_commute)
  also have "\<dots> \<le> length (filter (timer_due k (rt_tick k)) (timer_list k))" by (rule length_filter_le)
  finally show ?thesis by (simp only: due_count_def)
qed

lemma due_count_start:
  assumes s: "tsorted b k" and w: "unat (rt_tick k - b) + unat (init_time (timers k i)) < half"
    and p: "0 < init_time (timers k i)" and i: "i \<notin> set (timer_list k)"
  shows "due_count (snd (rt_timer_start i k)) = due_count k"
proof -
  let ?k = "snd (rt_timer_start i k)"
  let ?P = "\<lambda>j. left b ?k j \<le> left b ?k i"
  note sp = start_position [OF s w]
  have l: "timer_list ?k = takeWhile ?P (timer_list k) @ i # dropWhile ?P (timer_list k)"
    using sp(1) i by simp
  have "0 < unat (init_time (timers k i))" using p by (simp add: word_less_nat_alt)
  then have "\<not> timer_due ?k (rt_tick k) i"
    using due_iff [of b ?k i "rt_tick k"] w sp(2) by simp
  then have "filter (timer_due ?k (rt_tick k)) (timer_list ?k) = filter (timer_due ?k (rt_tick k)) (timer_list k)"
    unfolding l by (rule filter_insert_out)
  also have "\<dots> = filter (timer_due k (rt_tick k)) (timer_list k)"
    by (rule filter_cong [OF refl]) (use i in \<open>auto simp: timer_due_def start_timers\<close>)
  finally show ?thesis by (simp add: due_count_def)
qed

context timer_client
begin

lemma expire_inv:
  assumes inv: "check_inv b k" and l: "timer_list k = i # L" and d: "timer_due k (rt_tick k) i"
  shows "check_inv b (timer_expire cb i k)" "rt_tick (timer_expire cb i k) = rt_tick k"
    "due_count (timer_expire cb i k) < due_count k"
proof -
  let ?k = "timer_expire cb i k"
  have k: "kernel_ok k" and e: "expiring k = []" using inv by (simp_all add: check_inv_def)
  note ex = expire [OF k e l]
  obtain k5 P where k5: "timer_list k5 = filter P L" "\<And>j. same_timer (timers k j) (timers k5 j)" "rt_tick k5 = rt_tick k"
    "?k = k5 \<or> periodic (timers k i) \<and> ?k = snd (rt_timer_start i k5)"
    using ex(1) by blast
  have s1: "tsorted b (k\<lparr>timer_list := L\<rparr>)" using inv tsorted_tl [of b k] l by (simp add: check_inv_def)
  have s5: "tsorted b k5" by (rule tsorted_filter [OF s1, of _ P]) (simp_all add: k5)
  have "due_count k5 \<le> due_count (k\<lparr>timer_list := L\<rparr>)"
    by (rule due_count_filter [of _ P]) (simp_all add: k5)
  also have "\<dots> < due_count k" using d l by (simp add: due_count_def timer_due_def)
  finally have c5: "due_count k5 < due_count k" .
  have it: "init_time (timers k5 j) = init_time (timers k j)" "periodic (timers k5 j) = periodic (timers k j)" for j
    using k5(2) [of j] by (simp_all add: same_timer_def)
  have i5: "i \<notin> set (timer_list k5)" using k l k5(1) by (auto simp: kernel_ok_def timers_ok_def)
  have rules: "unat (rt_tick k5 - b) + unat (init_time (timers k5 j)) < half \<and> 0 < init_time (timers k5 j)"
    if "j = i \<or> j \<in> set (timer_list k5)" "periodic (timers k j)" for j
    using inv that k5(1,3) l by (auto simp: check_inv_def it)
  show tick: "rt_tick ?k = rt_tick k" using k5(3,4) by auto
  have p: "unat (rt_tick k5 - b) < half" using inv k5(3) by (simp add: check_inv_def)
  consider (plain) "?k = k5" | (again) "periodic (timers k i)" "?k = snd (rt_timer_start i k5)" using k5(4) by blast
  then have "check_inv b ?k \<and> due_count ?k < due_count k"
  proof cases
    case plain
    then show ?thesis using ex(2,3) s5 p rules c5 by (auto simp: check_inv_def it)
  next
    case again
    have r: "unat (rt_tick k5 - b) + unat (init_time (timers k5 i)) < half" "0 < init_time (timers k5 i)"
      using rules [of i] again(1) by simp_all
    have dc: "due_count ?k = due_count k5" unfolding again(2) by (rule due_count_start [OF s5 r i5])
    have s: "tsorted b ?k" unfolding again(2) by (rule start_position(3) [OF s5 r(1)])
    have "periodic (timers ?k j) \<longrightarrow> 0 < init_time (timers ?k j) \<and> unat (rt_tick ?k - b) + unat (init_time (timers ?k j)) < half"
      if "j \<in> set (timer_list ?k)" for j
      using that rules [of j] tick k5(3) unfolding again(2) by (auto simp: start_timers it)
    then show ?thesis using ex(2,3) s dc c5 p tick k5(3) unfolding check_inv_def by simp
  qed
  then show "check_inv b ?k" "due_count ?k < due_count k" by auto
qed

text \<open>The loop returns, keeps the invariant, leaves no timer due and wakes only threads whose time has come.\<close>

lemma loop_returns:
  assumes "check_inv b k"
  shows "\<exists>k'. timer_check_loop cb (rt_tick k) k = Some k' \<and> check_inv b k' \<and> rt_tick k' = rt_tick k
    \<and> (\<forall>i \<in> set (timer_list k'). \<not> timer_due k' (rt_tick k) i)
    \<and> (\<forall>t. is_suspended k' t \<longrightarrow> is_suspended k t
        \<and> (TThread t \<in> set (timer_list k) \<longrightarrow> TThread t \<in> set (timer_list k')))
    \<and> (\<forall>j. \<not> periodic (timers k j) \<longrightarrow> same_timer (timers k j) (timers k' j))"
  using assms
proof (induction "due_count k" arbitrary: k rule: less_induct)
  case less
  show ?case
  proof (cases "timer_list k")
    case Nil
    then show ?thesis using less.prems by (subst timer_check_loop.simps) simp
  next
    case (Cons i L)
    show ?thesis
    proof (cases "timer_due k (rt_tick k) i")
      case False
      have ts: "tsorted b k" "unat (rt_tick k - b) < half" using less.prems by (simp_all add: check_inv_def)
      have "\<not> timer_due k (rt_tick k) j" if "j \<in> set (timer_list k)" for j
      proof -
        have "left b k i \<le> left b k j" using ts(1) that Cons by (auto simp: tsorted_def)
        moreover have "left b k j < half" "left b k i < half" using ts(1) that Cons by (auto simp: tsorted_def)
        ultimately show ?thesis using False ts(2) by (simp add: due_iff [of b])
      qed
      then show ?thesis using less.prems False Cons by (subst timer_check_loop.simps) simp
    next
      case True
      let ?k = "timer_expire cb i k"
      have ko: "kernel_ok k" "expiring k = []" using less.prems by (simp_all add: check_inv_def)
      note e = expire_inv [OF less.prems Cons True] and x = expire(4,5) [OF ko Cons]
      obtain k' where k': "timer_check_loop cb (rt_tick ?k) ?k = Some k'" "check_inv b k'" "rt_tick k' = rt_tick ?k"
        "\<forall>i \<in> set (timer_list k'). \<not> timer_due k' (rt_tick ?k) i"
        "\<forall>t. is_suspended k' t \<longrightarrow> is_suspended ?k t
          \<and> (TThread t \<in> set (timer_list ?k) \<longrightarrow> TThread t \<in> set (timer_list k'))"
        "\<forall>j. \<not> periodic (timers ?k j) \<longrightarrow> same_timer (timers ?k j) (timers k' j)"
        using less.hyps [OF e(3) e(1)] by blast
      have "timer_check_loop cb (rt_tick k) k = Some k'"
        using k'(1) Cons True e(2) by (subst timer_check_loop.simps) (simp add: Let_def)
      moreover have "\<forall>j. \<not> periodic (timers k j) \<longrightarrow> same_timer (timers k j) (timers k' j)"
        using k'(6) x(2) by (auto simp: same_timer_def)
      ultimately show ?thesis using k' e(2) x(1) by (intro exI [of _ k']) auto
    qed
  qed
qed

end

interpretation reschedule: timer_client "\<lambda>f p. rt_schedule"
  by unfold_locales (simp_all add: advances_schedule)

section \<open>Properties\<close>

lemma demo_kernel_timers: "timers demo_kernel = timers demo_threads" "timer_list demo_kernel = []" "expiring demo_kernel = []"
  "rt_tick demo_kernel = 0"
  by (simp_all add: demo_kernel_def demo_ready_def rt_system_scheduler_start_def split_beta demo_threads_def blank_kernel_def)

lemma demo_kernel_kernel_ok: "kernel_ok demo_kernel"
  using demo_kernel_ok demo_kernel_facts(1)
  by (simp add: kernel_ok_def timers_ok_def timer_set_def demo_kernel_timers)
    (simp add: demo_threads_def blank_kernel_def)

text \<open>Two timers of the application, 2 due after 11 ticks and 1 after 6.\<close>

definition demo_timers :: kernel where
  "demo_timers = snd (rt_timer_start (TUser 1) (snd (rt_timer_start (TUser 2) demo_kernel)))"

lemma demo_timers_inv: "check_inv 0 demo_timers" "timer_list demo_timers = [TUser 1, TUser 2]"
proof -
  have s: "startable demo_kernel (TUser 2)" "startable (snd (rt_timer_start (TUser 2) demo_kernel)) (TUser 1)"
    by (simp_all add: startable_def start_timers demo_kernel_timers demo_threads_def blank_kernel_def)
  then have "kernel_ok demo_timers"
    unfolding demo_timers_def by (intro start_ok_kernel demo_kernel_kernel_ok)
  moreover show l: "timer_list demo_timers = [TUser 1, TUser 2]"
    by (simp add: demo_timers_def rt_timer_start_def Let_def demo_kernel_timers expires_later_def
        demo_threads_def blank_kernel_def rt_const)
  ultimately show "check_inv 0 demo_timers" unfolding check_inv_def tsorted_def l
    by (simp add: demo_timers_def start_timers demo_kernel_timers left_def half_def demo_threads_def blank_kernel_def)
qed

lemma check_returns:
  assumes "timer_client cb" "check_inv b k"
  shows "\<exists>k'. rt_timer_check cb k = Some k' \<and> kernel_ok k' \<and> rt_tick k' = rt_tick k
    \<and> (\<forall>i \<in> set (timer_list k'). \<not> timer_due k' (rt_tick k) i)
    \<and> (\<forall>t. is_suspended k' t \<longrightarrow> is_suspended k t
        \<and> (TThread t \<in> set (timer_list k) \<longrightarrow> TThread t \<in> set (timer_list k')))
    \<and> (\<forall>j. \<not> periodic (timers k j) \<longrightarrow> same_timer (timers k j) (timers k' j))"
proof -
  have "k\<lparr>expiring := []\<rparr> = k" using assms(2) by (simp add: check_inv_def)
  then show ?thesis using timer_client.loop_returns [OF assms]
    unfolding rt_timer_check_def by (auto simp: check_inv_def)
qed

text \<open>C18. rt_timer_start puts a timer behind every timer that expires earlier or at the same tick and
  before every timer that expires later, whatever the position of the wrapping tick counter.\<close>

theorem timer_start_sorted:
  assumes "tsorted b k" "unat (rt_tick k - b) + unat (init_time (timers k i)) < half"
  shows "let k' = snd (rt_timer_start i k); others = removeAll i (timer_list k);
      before = (\<lambda>j. left b k' j \<le> left b k' i) in
    timer_list k' = takeWhile before others @ i # dropWhile before others \<and> tsorted b k'
    \<and> left b k' i = unat (rt_tick k - b) + unat (init_time (timers k i))"
  using start_position [OF assms] by (simp add: Let_def)

theorem timer_start_sorted_witness:
  "tsorted 0 (snd (rt_timer_start (TUser 3) demo_timers))"
proof -
  have "tsorted 0 demo_timers" using demo_timers_inv(1) by (simp add: check_inv_def)
  moreover have "unat (rt_tick demo_timers - 0) + unat (init_time (timers demo_timers (TUser 3))) < half"
    by (simp add: demo_timers_def start_timers demo_kernel_timers half_def demo_threads_def blank_kernel_def)
  ultimately show ?thesis using timer_start_sorted [of 0 demo_timers "TUser 3"] by (simp add: Let_def)
qed

text \<open>C21. When the timer functions keep to their contract, rt_timer_check returns, keeps the invariant,
  leaves no due timer in the list, and suspends no thread; a thread whose timer has left the list is
  not suspended any more.\<close>

theorem timer_check_returns:
  assumes "timer_client cb" "check_inv b k"
  shows "\<exists>k'. rt_timer_check cb k = Some k' \<and> kernel_ok k' \<and> rt_tick k' = rt_tick k
    \<and> (\<forall>i \<in> set (timer_list k'). \<not> timer_due k' (rt_tick k) i)
    \<and> (\<forall>t. is_suspended k' t \<longrightarrow> is_suspended k t
        \<and> (TThread t \<in> set (timer_list k) \<longrightarrow> TThread t \<in> set (timer_list k')))"
  using check_returns [OF assms] by blast

theorem timer_check_returns_witness:
  "\<exists>k'. rt_timer_check (\<lambda>f p. rt_schedule) demo_timers = Some k' \<and> kernel_ok k'"
  using timer_check_returns [OF reschedule.timer_client_axioms demo_timers_inv(1)] by blast

text \<open>rt_timer_next_timeout_tick is the expiry time of a timer before which no other timer expires.\<close>

theorem next_timeout_first:
  assumes "tsorted b k" "timer_list k \<noteq> []"
  shows "\<exists>i \<in> set (timer_list k). rt_timer_next_timeout_tick k = timeout_tick (timers k i)
    \<and> (\<forall>j \<in> set (timer_list k). left b k i \<le> left b k j)"
  using assms by (cases "timer_list k")
    (auto simp: rt_timer_next_timeout_tick_def timer_list_next_timeout_def tsorted_def)

theorem next_timeout_first_witness: "rt_timer_next_timeout_tick demo_timers \<in> {6, 11}"
proof -
  have "tsorted 0 demo_timers" "timer_list demo_timers \<noteq> []"
    using demo_timers_inv by (simp_all add: check_inv_def)
  from next_timeout_first [OF this] show ?thesis unfolding demo_timers_inv(2)
    by (auto simp: demo_timers_def start_timers demo_kernel_timers demo_threads_def blank_kernel_def)
qed

end
