(* ===== verification/Thread.thy ===== *)
theory Thread
  imports Timer
begin

text \<open>
  src/thread.c besides the end of a thread, and src/clock.c: starting, suspending and resuming threads,
  sleeping, changing the priority, and the tick. A call that blocks is modelled up to its call of
  rt_schedule (\<open>Waits\<close>, with the state after the switch) and, as a second operation, from the point
  where the thread runs again.
\<close>

section \<open>Operations\<close>

datatype blocking = Done rt_err_t | Waits

datatype suspend_flag = RT_INTERRUPTIBLE | RT_KILLABLE | RT_UNINTERRUPTIBLE

definition RT_THREAD_SUSPEND :: u8 where [rt_const]: "RT_THREAD_SUSPEND = RT_THREAD_SUSPEND_INTERRUPTIBLE"

definition RT_WAITING_FOREVER :: int where [rt_const]: "RT_WAITING_FOREVER = -1"

text \<open>
  \<open>_thread_init\<close> for the fields of the model. It makes the list node a ring of its own, so the thread
  must be in no list before.
\<close>

definition thread_init :: "nat \<Rightarrow> nat \<Rightarrow> u32 \<Rightarrow> kernel \<Rightarrow> rt_err_t \<times> kernel" where
  "thread_init t priority tick k =
     (let k1 = upd_thread t (\<lambda>_. \<lparr>error = RT_EOK, stat = RT_THREAD_INIT, current_priority = priority,
            init_priority = priority, number_mask = 0, taken_object_list = [], pending_object = None,
            event_set = 0, event_info = 0, init_tick = tick, remaining_tick = tick\<rparr>) k
      in (RT_EOK, rt_timer_init (TThread t) Thread_timeout t 0 0 k1))"

definition rt_thread_self :: "kernel \<Rightarrow> nat option" where
  "rt_thread_self k = current k"

definition suspend_state :: "suspend_flag \<Rightarrow> u8" where
  "suspend_state flag = (case flag of RT_INTERRUPTIBLE \<Rightarrow> RT_THREAD_SUSPEND_INTERRUPTIBLE
     | RT_KILLABLE \<Rightarrow> RT_THREAD_SUSPEND_KILLABLE | RT_UNINTERRUPTIBLE \<Rightarrow> RT_THREAD_SUSPEND_UNINTERRUPTIBLE)"

definition rt_thread_set_suspend_state :: "nat \<Rightarrow> suspend_flag \<Rightarrow> kernel \<Rightarrow> kernel" where
  "rt_thread_set_suspend_state t flag k =
     upd_thread t (\<lambda>r. r\<lparr>stat := set_state (suspend_state flag) (stat r)\<rparr>) k"

definition rt_thread_suspend_with_flag :: "nat \<Rightarrow> suspend_flag \<Rightarrow> kernel \<Rightarrow> rt_err_t \<times> kernel" where
  "rt_thread_suspend_with_flag t flag k =
     (if tstate k t \<noteq> RT_THREAD_READY \<and> tstate k t \<noteq> RT_THREAD_RUNNING then (- RT_ERROR, k)
      else let k1 = rt_schedule_remove_thread t k;
               k2 = rt_thread_set_suspend_state t flag k1
           in (RT_EOK, snd (rt_timer_stop (TThread t) k2)))"

definition rt_thread_suspend :: "nat \<Rightarrow> kernel \<Rightarrow> rt_err_t \<times> kernel" where
  "rt_thread_suspend t k = rt_thread_suspend_with_flag t RT_UNINTERRUPTIBLE k"

definition rt_thread_resume :: "nat \<Rightarrow> kernel \<Rightarrow> rt_err_t \<times> kernel" where
  "rt_thread_resume t k =
     (if \<not> is_suspended k t then (- RT_ERROR, k)
      else let k1 = tlist_remove t k;
               k2 = snd (rt_timer_stop (TThread t) k1)
           in (RT_EOK, rt_schedule_insert_thread t k2))"

definition rt_thread_startup :: "nat \<Rightarrow> kernel \<Rightarrow> rt_err_t \<times> kernel" where
  "rt_thread_startup t k =
     (let k1 = upd_thread t (\<lambda>r. r\<lparr>number_mask := push_bit (current_priority r) 1\<rparr>) k;
          k2 = upd_thread t (\<lambda>r. r\<lparr>stat := RT_THREAD_SUSPEND\<rparr>) k1;
          k3 = snd (rt_thread_resume t k2)
      in (RT_EOK, if rt_thread_self k3 \<noteq> None then rt_schedule k3 else k3))"

definition rt_thread_yield :: "kernel \<Rightarrow> rt_err_t \<times> kernel" where
  "rt_thread_yield k =
     (let t = the (rt_thread_self k);
          k1 = upd_thread t (\<lambda>r. r\<lparr>remaining_tick := init_tick r\<rparr>) k;
          k2 = upd_thread t (\<lambda>r. r\<lparr>stat := stat r OR RT_THREAD_STAT_YIELD\<rparr>) k1
      in (RT_EOK, rt_schedule k2))"

text \<open>Setting and starting the timer of a waiting thread.\<close>

definition arm_timer :: "nat \<Rightarrow> u32 \<Rightarrow> kernel \<Rightarrow> kernel" where
  "arm_timer t tick k =
     (let (_, _, k1) = rt_timer_control (TThread t) (CTRL_SET_TIME tick) k;
          (_, k2) = rt_timer_start (TThread t) k1
      in k2)"

definition rt_thread_sleep :: "u32 \<Rightarrow> kernel \<Rightarrow> blocking \<times> kernel" where
  "rt_thread_sleep tick k =
     (if tick = 0 then (Done (- RT_EINVAL), k)
      else let t = the (rt_thread_self k);
               k1 = upd_thread t (\<lambda>r. r\<lparr>error := RT_EOK\<rparr>) k;
               (err, k2) = rt_thread_suspend_with_flag t RT_INTERRUPTIBLE k1
           in if err = RT_EOK then
                let k3 = arm_timer t tick k2;
                    k4 = upd_thread t (\<lambda>r. r\<lparr>error := - RT_EINTR\<rparr>) k3
                in (Waits, rt_schedule k4)
              else (Done err, k2))"

definition rt_thread_sleep_resume :: "nat \<Rightarrow> kernel \<Rightarrow> rt_err_t \<times> kernel" where
  "rt_thread_sleep_resume t k = (RT_EOK,
     if error (threads k t) = - RT_ETIMEOUT then upd_thread t (\<lambda>r. r\<lparr>error := RT_EOK\<rparr>) k else k)"

definition rt_thread_delay :: "u32 \<Rightarrow> kernel \<Rightarrow> blocking \<times> kernel" where
  "rt_thread_delay tick k = rt_thread_sleep tick k"

text \<open>rt_thread_delay_until returns the new value of \<open>*tick\<close> as well.\<close>

definition rt_thread_delay_until :: "u32 \<Rightarrow> u32 \<Rightarrow> kernel \<Rightarrow> u32 \<times> blocking \<times> kernel" where
  "rt_thread_delay_until tick inc_tick k =
     (let t = the (rt_thread_self k);
          k1 = upd_thread t (\<lambda>r. r\<lparr>error := RT_EOK\<rparr>) k;
          cur_tick = rt_tick k1
      in if cur_tick - tick < inc_tick then
           let tick' = tick + inc_tick;
               left_tick = tick' - cur_tick;
               k2 = snd (rt_thread_suspend_with_flag t RT_UNINTERRUPTIBLE k1);
               k3 = arm_timer t left_tick k2
           in (tick', Waits, rt_schedule k3)
         else (cur_tick, Done (error (threads k1 t)), k1))"

definition rt_thread_delay_until_resume :: "nat \<Rightarrow> kernel \<Rightarrow> rt_err_t \<times> kernel" where
  "rt_thread_delay_until_resume t k =
     (let k1 = (if error (threads k t) = - RT_ETIMEOUT then upd_thread t (\<lambda>r. r\<lparr>error := RT_EOK\<rparr>) k else k)
      in (error (threads k1 t), k1))"

text \<open>The command RT_THREAD_CTRL_CHANGE_PRIORITY of rt_thread_control.\<close>

definition change_priority :: "nat \<Rightarrow> nat \<Rightarrow> kernel \<Rightarrow> kernel" where
  "change_priority t p k =
     (if tstate k t = RT_THREAD_READY then
        let k1 = rt_schedule_remove_thread t k;
            k2 = upd_thread t (\<lambda>r. r\<lparr>current_priority := p, number_mask := push_bit p 1\<rparr>) k1
        in rt_schedule_insert_thread t k2
      else upd_thread t (\<lambda>r. r\<lparr>current_priority := p, number_mask := push_bit p 1\<rparr>) k)"

subsection \<open>clock.c\<close>

definition rt_tick_get :: "kernel \<Rightarrow> u32" where
  "rt_tick_get k = rt_tick k"

definition rt_tick_set :: "u32 \<Rightarrow> kernel \<Rightarrow> kernel" where
  "rt_tick_set tick k = k\<lparr>rt_tick := tick\<rparr>"

definition rt_tick_increase :: "callbacks \<Rightarrow> kernel \<Rightarrow> kernel option" where
  "rt_tick_increase cb k =
     (let k1 = k\<lparr>rt_tick := rt_tick k + 1\<rparr>;
          t = the (rt_thread_self k1);
          k2 = upd_thread t (\<lambda>r. r\<lparr>remaining_tick := remaining_tick r - 1\<rparr>) k1;
          k3 = (if remaining_tick (threads k2 t) = 0 then
                  rt_schedule (upd_thread t (\<lambda>r. r\<lparr>remaining_tick := init_tick r,
                    stat := stat r OR RT_THREAD_STAT_YIELD\<rparr>) k2)
                else k2)
      in rt_timer_check cb k3)"

definition rt_tick_from_millisecond :: "int \<Rightarrow> u32" where
  "rt_tick_from_millisecond ms =
     (if ms < 0 then word_of_int RT_WAITING_FOREVER
      else let tick = word_of_int (int RT_TICK_PER_SECOND * (ms div 1000))
           in tick + word_of_int ((int RT_TICK_PER_SECOND * (ms mod 1000) + 999) div 1000))"

definition rt_tick_get_millisecond :: "kernel \<Rightarrow> u32" where
  "rt_tick_get_millisecond k = rt_tick_get k * (1000 div of_nat RT_TICK_PER_SECOND)"

definition rt_thread_mdelay :: "int \<Rightarrow> kernel \<Rightarrow> blocking \<times> kernel" where
  "rt_thread_mdelay ms k = rt_thread_sleep (rt_tick_from_millisecond ms) k"

section \<open>The operations keep the invariant\<close>

text \<open>Without a current thread, before the scheduler is started, only part of the invariant is there.\<close>

definition base_ok :: "kernel \<Rightarrow> bool" where
  "base_ok k \<longleftrightarrow> sched_ex k {} \<and> timers_ok k"

lemma kernel_ok_base: "kernel_ok k \<longleftrightarrow> base_ok k \<and> current k \<noteq> None"
  by (auto simp: kernel_ok_def base_ok_def sched_ok_def)

text \<open>A change to a thread that leaves status, priority and mask alone keeps everything.\<close>

lemma upd_thread_frame:
  assumes "\<And>r. stat (f r) = stat r" "\<And>r. current_priority (f r) = current_priority r"
    and "\<And>r. number_mask (f r) = number_mask r"
  shows "tstate (upd_thread t f k) = tstate k" "is_suspended (upd_thread t f k) = is_suspended k"
    "base_ok (upd_thread t f k) = base_ok k" "kernel_ok (upd_thread t f k) = kernel_ok k"
    "advances k (upd_thread t f k)"
proof -
  show 1: "tstate (upd_thread t f k) = tstate k" "is_suspended (upd_thread t f k) = is_suspended k"
    using assms by (simp_all add: tstate_def is_suspended_def fun_eq_iff)
  have "timers_ok (upd_thread t f k) = timers_ok k" by (simp add: timers_ok_def 1 timer_set_def)
  then show b: "base_ok (upd_thread t f k) = base_ok k" by (simp add: base_ok_def assms)
  then show "kernel_ok (upd_thread t f k) = kernel_ok k" by (simp add: kernel_ok_base)
  show "advances k (upd_thread t f k)" by (simp add: advances_def 1 filter_same)
qed

lemma upd_frame_simps [simp]:
  "tstate (upd_thread t (\<lambda>r. r\<lparr>error := e\<rparr>) k) = tstate k"
  "is_suspended (upd_thread t (\<lambda>r. r\<lparr>error := e\<rparr>) k) = is_suspended k"
  "base_ok (upd_thread t (\<lambda>r. r\<lparr>error := e\<rparr>) k) = base_ok k"
  "kernel_ok (upd_thread t (\<lambda>r. r\<lparr>error := e\<rparr>) k) = kernel_ok k"
  "advances k (upd_thread t (\<lambda>r. r\<lparr>error := e\<rparr>) k)"
  "tstate (upd_thread t (\<lambda>r. r\<lparr>remaining_tick := g r\<rparr>) k) = tstate k"
  "kernel_ok (upd_thread t (\<lambda>r. r\<lparr>remaining_tick := g r\<rparr>) k) = kernel_ok k"
  "advances k (upd_thread t (\<lambda>r. r\<lparr>remaining_tick := g r\<rparr>) k)"
  by (rule upd_thread_frame; simp)+

text \<open>A change of status that keeps the state and sets the yield flag.\<close>

lemma set_yield_ok:
  assumes "\<And>r. stat (f r) AND RT_THREAD_STAT_MASK = stat r AND RT_THREAD_STAT_MASK"
    and "\<And>r. current_priority (f r) = current_priority r" "\<And>r. number_mask (f r) = number_mask r"
  shows "tstate (upd_thread t f k) = tstate k" "is_suspended (upd_thread t f k) = is_suspended k"
    "sched_ex (upd_thread t f k) X = sched_ex k X"
    "kernel_ok (upd_thread t f k) = kernel_ok k" "advances k (upd_thread t f k)"
proof -
  show 1: "tstate (upd_thread t f k) = tstate k" using assms(1) by (simp add: tstate_def fun_eq_iff)
  then show 2: "is_suspended (upd_thread t f k) = is_suspended k" by (simp add: is_suspended_iff fun_eq_iff)
  have "prio (upd_thread t f k) u = prio k u" "number_mask (threads (upd_thread t f k) u) = number_mask (threads k u)" for u
    using assms by simp_all
  then show s: "sched_ex (upd_thread t f k) X = sched_ex k X" for X
    unfolding sched_ex_def prio_ok_def thread_ok_def 1 2 upd_thread_sel(2-4) by simp
  have "timers_ok (upd_thread t f k) = timers_ok k" by (simp add: timers_ok_def 1 2 timer_set_def)
  then show "kernel_ok (upd_thread t f k) = kernel_ok k" by (simp add: kernel_ok_def sched_ok_def s)
  show "advances k (upd_thread t f k)" by (simp add: advances_def 2 filter_same)
qed

lemma yield_flag_simps [simp]:
  "kernel_ok (upd_thread t (\<lambda>r. r\<lparr>stat := stat r OR RT_THREAD_STAT_YIELD\<rparr>) k) = kernel_ok k"
  "advances k (upd_thread t (\<lambda>r. r\<lparr>stat := stat r OR RT_THREAD_STAT_YIELD\<rparr>) k)"
  "kernel_ok (upd_thread t (\<lambda>r. r\<lparr>remaining_tick := g r, stat := stat r OR RT_THREAD_STAT_YIELD\<rparr>) k) = kernel_ok k"
  "advances k (upd_thread t (\<lambda>r. r\<lparr>remaining_tick := g r, stat := stat r OR RT_THREAD_STAT_YIELD\<rparr>) k)"
  by (rule set_yield_ok; simp add: rt_const kst)+

text \<open>Suspending.\<close>

lemma suspend_state_bits:
  "set_state (suspend_state flag) w AND 7 = suspend_state flag" "suspend_state flag AND 4 = 4"
  by (cases flag; simp add: kst suspend_state_def rt_const)+

lemma suspend_ok:
  fixes k t flag
  assumes b: "base_ok k" and t: "tstate k t = RT_THREAD_READY \<or> tstate k t = RT_THREAD_RUNNING"
  defines "k' \<equiv> snd (rt_thread_suspend_with_flag t flag k)"
  shows "base_ok k'" "fst (rt_thread_suspend_with_flag t flag k) = RT_EOK"
    "is_suspended k' u \<longleftrightarrow> u = t \<or> is_suspended k u"
    "klist k' = (\<lambda>l. removeAll t (klist k l))" "\<forall>l. t \<notin> set (klist k' l)"
    "timer_list k' = timer_list k" "current k' = current k" "rt_tick k' = rt_tick k"
    "lock_nest k' = lock_nest k" "TThread t \<notin> set (timer_list k')"
    "same_timer (timers k i) (timers k' i)"
    "u \<noteq> t \<Longrightarrow> tstate k' u = tstate k u" "prio k' = prio k"
    "sems k' = sems k" "mutexes k' = mutexes k" "events k' = events k" "interrupt_nest k' = interrupt_nest k"
    "error (threads k' u) = error (threads k u)"
    "tstate k' t = suspend_state flag"
    "event_set (threads k' u) = event_set (threads k u)" "event_info (threads k' u) = event_info (threads k u)"
    "pending_object (threads k' u) = pending_object (threads k u)"
    "taken_object_list (threads k' u) = taken_object_list (threads k u)"
    "init_priority (threads k' u) = init_priority (threads k u)"
proof -
  let ?k1 = "rt_schedule_remove_thread t k"
  let ?k2 = "rt_thread_set_suspend_state t flag ?k1"
  have e: "rt_thread_suspend_with_flag t flag k = (RT_EOK, snd (rt_timer_stop (TThread t) ?k2))"
    using t by (auto simp: rt_thread_suspend_with_flag_def Let_def)
  have ns: "\<not> is_suspended k t" using t by (auto simp: is_suspended_iff rt_const)
  have na: "TThread t \<notin> set (timer_list k)" using b ns by (auto simp: base_ok_def timers_ok_def)
  have s2: "is_suspended ?k2 u \<longleftrightarrow> u = t \<or> is_suspended k u" for u
    by (simp add: rt_thread_set_suspend_state_def is_suspended_iff rt_const suspend_state_bits)
  have m: "number_mask (threads k t) = push_bit (prio k t) 1"
    using b t by (intro mask_of [of k "{}"]) (auto simp: base_ok_def rt_const)
  have "sched_ex ?k1 {t}" using b remove_ok [of k "{}" t] by (simp add: base_ok_def)
  then have "sched_ex ?k2 (insert t {t})"
    unfolding rt_thread_set_suspend_state_def using m by (intro set_stat_ok) simp_all
  moreover have "thread_ok ?k2 t"
    by (simp add: thread_ok_def rt_thread_set_suspend_state_def rt_const suspend_state_bits)
      (cases flag; simp add: suspend_state_def rt_const)
  ultimately have ok2: "sched_ex ?k2 {}" using sched_ex_shrink [of ?k2 "insert t {t}" "{}"] by auto
  have i2: "tstate ?k2 u \<noteq> RT_THREAD_INIT \<Longrightarrow> tstate k u \<noteq> RT_THREAD_INIT" for u
    using t by (cases "u = t") (auto simp: rt_thread_set_suspend_state_def rt_const)
  have t2: "timers_ok ?k2"
  proof (rule timers_ok_same [of k])
    show "timers_ok k" using b by (simp add: base_ok_def)
    show "is_suspended ?k2 u" if "TThread u \<in> set (timer_list k)" for u
      using that b by (auto simp: s2 base_ok_def timers_ok_def)
  qed (use i2 in \<open>auto simp: rt_thread_set_suspend_state_def\<close>)
  note st = stop_list [OF t2, where i = "TThread t"]
  show "fst (rt_thread_suspend_with_flag t flag k) = RT_EOK" by (simp add: e)
  show "base_ok k'" using ok2 st(4) by (simp add: k'_def e base_ok_def)
  show "is_suspended k' u \<longleftrightarrow> u = t \<or> is_suspended k u" by (simp add: k'_def e s2)
  show l: "klist k' = (\<lambda>l. removeAll t (klist k l))" by (simp add: k'_def e rt_thread_set_suspend_state_def)
  show "\<forall>l. t \<notin> set (klist k' l)" by (simp add: l)
  have tl: "timer_list ?k2 = timer_list k" by (simp add: rt_thread_set_suspend_state_def)
  show "timer_list k' = timer_list k" using st(1) na by (simp add: k'_def e tl)
  then show "TThread t \<notin> set (timer_list k')" using na by simp
  show "current k' = current k" "rt_tick k' = rt_tick k" "lock_nest k' = lock_nest k" "sems k' = sems k"
    "mutexes k' = mutexes k" "events k' = events k" "interrupt_nest k' = interrupt_nest k"
    "error (threads k' u) = error (threads k u)" "prio k' = prio k"
    "event_set (threads k' u) = event_set (threads k u)" "event_info (threads k' u) = event_info (threads k u)"
    "pending_object (threads k' u) = pending_object (threads k u)"
    "taken_object_list (threads k' u) = taken_object_list (threads k u)"
    "init_priority (threads k' u) = init_priority (threads k u)"
    by (simp_all add: k'_def e rt_thread_set_suspend_state_def fun_eq_iff)
  show "u \<noteq> t \<Longrightarrow> tstate k' u = tstate k u" "tstate k' t = suspend_state flag"
    by (simp_all add: k'_def e rt_thread_set_suspend_state_def rt_const suspend_state_bits)
  show "same_timer (timers k i) (timers k' i)"
    using st(2) [where j = i] by (simp add: k'_def e) (simp add: rt_thread_set_suspend_state_def)
qed

text \<open>Resuming.\<close>

lemma resume_ok:
  fixes k t
  assumes b: "base_ok k" and t: "is_suspended k t"
  defines "k' \<equiv> snd (rt_thread_resume t k)"
  shows "base_ok k'" "fst (rt_thread_resume t k) = RT_EOK" "advances k k'"
    "is_suspended k' u \<longleftrightarrow> u \<noteq> t \<and> is_suspended k u" "current k' = current k" "lock_nest k' = lock_nest k"
    "timer_list k' = removeAll (TThread t) (timer_list k)"
    "klist k' = (klist (rt_schedule_insert_thread t (tlist_remove t k)))"
    "sems k' = sems k" "mutexes k' = mutexes k" "events k' = events k" "interrupt_nest k' = interrupt_nest k"
    "tstate k' u = (if u = t then (if current k = Some t then RT_THREAD_RUNNING else RT_THREAD_READY) else tstate k u)"
    "threads k' = (threads k)(t := (threads k t)\<lparr>stat := set_state
       (if current k = Some t then RT_THREAD_RUNNING else RT_THREAD_READY) (stat (threads k t))\<rparr>)"
    "rt_tick k' = rt_tick k" "same_timer (timers k i) (timers k' i)"
proof -
  let ?k1 = "tlist_remove t k"
  let ?k2 = "snd (rt_timer_stop (TThread t) ?k1)"
  have e: "rt_thread_resume t k = (RT_EOK, rt_schedule_insert_thread t ?k2)"
    using t by (simp add: rt_thread_resume_def Let_def)
  have s1: "is_suspended ?k1 = is_suspended k" by (simp add: is_suspended_def fun_eq_iff)
  have x1: "sched_ex ?k1 {}" using b t by (intro tlist_remove_ok) (simp_all add: base_ok_def)
  have t1: "timers_ok ?k1"
    by (rule timers_ok_same [of k]) (use b in \<open>auto simp: base_ok_def timers_ok_def s1\<close>)
  note st = stop_list [OF t1, where i = "TThread t"]
  have m: "number_mask (threads k t) = push_bit (prio k t) 1"
    using suspended_mask [of k "{}" t] b t by (simp add: base_ok_def)
  have "sched_ex (rt_schedule_insert_thread t ?k2) ({} - {t})"
    by (rule insert_ok) (simp_all add: x1 m del: push_bit_of_1)
  then have ok: "sched_ex k' {}" by (simp add: k'_def e)
  show "fst (rt_thread_resume t k) = RT_EOK" by (simp add: e)
  show s: "is_suspended k' u \<longleftrightarrow> u \<noteq> t \<and> is_suspended k u" for u
    by (simp add: k'_def e insert_suspended s1)
  show tl: "timer_list k' = removeAll (TThread t) (timer_list k)" using st(1) by (simp add: k'_def e)
  show same: "same_timer (timers k i) (timers k' i)" for i using st(2) [where j = i] by (simp add: k'_def e)
  show "threads k' = (threads k)(t := (threads k t)\<lparr>stat := set_state
       (if current k = Some t then RT_THREAD_RUNNING else RT_THREAD_READY) (stat (threads k t))\<rparr>)"
    by (simp add: k'_def e insert_threads)
  then show ts: "tstate k' u = (if u = t then (if current k = Some t then RT_THREAD_RUNNING else RT_THREAD_READY)
      else tstate k u)" for u
    by (simp add: tstate_def rt_const kst)
  obtain Q where Q: "expiring k' = filter Q (expiring k)" using st(3) by (auto simp: k'_def e)
  have ti: "TThread u \<in> set (timer_list k) \<Longrightarrow> is_suspended k u" for u
    using b by (simp add: base_ok_def timers_ok_def)
  have act: "activated (timers k' i)" if "i \<in> set (timer_list k')" for i
    using st(4) that by (simp add: k'_def e timers_ok_def)
  have "timers_ok k'"
  proof (rule timers_ok_frame [of k _ "\<lambda>i. TThread t \<noteq> i" Q])
    show "timers_ok k" using b by (simp add: base_ok_def)
    show "timer_list k' = filter (\<lambda>i. TThread t \<noteq> i) (timer_list k)"
      unfolding tl by (simp add: removeAll_filter_not_eq)
    show "is_suspended k' u" if "TThread u \<in> set (timer_list k')" for u using that ti by (auto simp: s tl)
    show "tstate k u \<noteq> RT_THREAD_INIT" if "tstate k' u \<noteq> RT_THREAD_INIT" for u
      using that suspended_not_init [OF t] by (auto simp: ts split: if_splits)
  qed (use Q act same in auto)
  then show "base_ok k'" using ok by (simp add: base_ok_def)
  show "current k' = current k" "lock_nest k' = lock_nest k" "sems k' = sems k" "mutexes k' = mutexes k"
    "events k' = events k" "interrupt_nest k' = interrupt_nest k" "rt_tick k' = rt_tick k"
    by (simp_all add: k'_def e)
  show "klist k' = (klist (rt_schedule_insert_thread t (tlist_remove t k)))" by (simp add: k'_def e insert_klist)
  have "rt_tick k' = rt_tick k" by (simp add: k'_def e)
  then show "advances k k'" unfolding advances_def s tl removeAll_filter_not_eq [of "TThread t"]
    using Q same ti by auto
qed

lemma resume_kernel_ok:
  assumes "kernel_ok k"
  shows "kernel_ok (snd (rt_thread_resume t k))" "advances k (snd (rt_thread_resume t k))"
  using assms resume_ok [of k t] by (cases "is_suspended k t"; simp add: kernel_ok_base rt_thread_resume_def)+

text \<open>Starting a thread.\<close>

lemma startup_ok:
  assumes b: "base_ok k" and t: "tstate k t = RT_THREAD_INIT" "timer_set k t"
  shows "base_ok (snd (rt_thread_startup t k))" "current k \<noteq> None \<Longrightarrow> current (snd (rt_thread_startup t k)) \<noteq> None"
proof -
  let ?k1 = "upd_thread t (\<lambda>r. r\<lparr>number_mask := push_bit (current_priority r) 1\<rparr>) k"
  let ?k2 = "upd_thread t (\<lambda>r. r\<lparr>stat := RT_THREAD_SUSPEND\<rparr>) ?k1"
  have tk: "thread_ok k t" and po: "prio_ok k u" for u using b by (simp_all add: base_ok_def sched_ex_def)
  have un: "t \<notin> set (klist k l)" for l
    using tk t(1) by (cases "wait_list l") (auto simp: thread_ok_def wait_list_def is_suspended_iff rt_const)
  have nc: "current k \<noteq> Some t" using tk t(1) by (auto simp: thread_ok_def)
  have x1: "sched_ex ?k1 {t}"
  proof -
    have "thread_ok ?k1 u" if "u \<noteq> t" for u
      using b that by (auto simp: base_ok_def sched_ex_def thread_ok_def tstate_def is_suspended_def)
    moreover have "prio_ok ?k1 u" for u using po [of u] by (auto simp: prio_ok_def tstate_def)
    moreover have "u \<in> set (klist k (LReady p)) \<Longrightarrow> u \<noteq> t" for u p using un by auto
    ultimately show ?thesis using b by (auto simp: base_ok_def sched_ex_def)
  qed
  have "sched_ex ?k2 (insert t {t})"
    by (rule set_stat_ok [where f = "\<lambda>_. RT_THREAD_SUSPEND", OF x1]) simp
  moreover have "thread_ok ?k2 t"
    using un by (simp add: thread_ok_def tstate_def rt_const)
  ultimately have x2: "sched_ex ?k2 {}" using sched_ex_shrink [of ?k2 "insert t {t}" "{}"] by auto
  have s2: "is_suspended ?k2 u \<longleftrightarrow> u = t \<or> is_suspended k u" for u by (simp add: is_suspended_def rt_const)
  have "timers_ok ?k2"
    using b t s2 by (auto simp: base_ok_def timers_ok_def timer_set_def tstate_def)
  then have "base_ok ?k2" using x2 by (simp add: base_ok_def)
  then have r: "base_ok (snd (rt_thread_resume t ?k2))" "current (snd (rt_thread_resume t ?k2)) = current k"
    using resume_ok [of ?k2 t] s2 by simp_all
  have "kernel_ok (rt_schedule (snd (rt_thread_resume t ?k2)))" if "current k \<noteq> None"
    using that r by (intro advances_schedule) (simp add: kernel_ok_base)
  then show "base_ok (snd (rt_thread_startup t k))" "current k \<noteq> None \<Longrightarrow> current (snd (rt_thread_startup t k)) \<noteq> None"
    using r by (auto simp: rt_thread_startup_def Let_def rt_thread_self_def kernel_ok_base)
qed

text \<open>Yielding.\<close>

lemma yield_ok:
  assumes "kernel_ok k"
  shows "kernel_ok (snd (rt_thread_yield k))" "advances k (snd (rt_thread_yield k))"
proof -
  let ?t = "the (rt_thread_self k)"
  let ?k1 = "upd_thread ?t (\<lambda>r. r\<lparr>remaining_tick := init_tick r\<rparr>) k"
  let ?k2 = "upd_thread ?t (\<lambda>r. r\<lparr>stat := stat r OR RT_THREAD_STAT_YIELD\<rparr>) ?k1"
  have "kernel_ok ?k2" "advances ?k1 ?k2" using assms by simp_all
  moreover have "advances k ?k1" by simp
  ultimately show "kernel_ok (snd (rt_thread_yield k))" "advances k (snd (rt_thread_yield k))"
    using advances_schedule [of ?k2] advances_trans [of k ?k1 ?k2] advances_trans [of k ?k2 "rt_schedule ?k2"]
    by (simp_all add: rt_thread_yield_def Let_def)
qed

text \<open>Arming the timer of a suspended thread.\<close>

lemma arm_ok:
  assumes k: "kernel_ok k" and t: "is_suspended k t"
  shows "kernel_ok (arm_timer t n k)" "is_suspended (arm_timer t n k) = is_suspended k"
    "set (timer_list (arm_timer t n k)) = insert (TThread t) (set (timer_list k))"
    "timeout_tick (timers (arm_timer t n k) (TThread t)) = rt_tick k + n"
    "threads (arm_timer t n k) = threads k" "klist (arm_timer t n k) = klist k"
    "current (arm_timer t n k) = current k" "rt_tick (arm_timer t n k) = rt_tick k"
    "lock_nest (arm_timer t n k) = lock_nest k" "tstate (arm_timer t n k) = tstate k"
    "sems (arm_timer t n k) = sems k" "mutexes (arm_timer t n k) = mutexes k" "events (arm_timer t n k) = events k"
    "interrupt_nest (arm_timer t n k) = interrupt_nest k" "ready_group (arm_timer t n k) = ready_group k"
proof -
  let ?k1 = "upd_timer (TThread t) (\<lambda>r. r\<lparr>init_time := n\<rparr>) k"
  have e: "arm_timer t n k = snd (rt_timer_start (TThread t) ?k1)"
    by (simp add: arm_timer_def rt_timer_control_def split_beta)
  have "timers_ok ?k1 = timers_ok k" by (auto simp: timers_ok_def timer_set_def)
  then have "kernel_ok ?k1" using k by (simp add: kernel_ok_def sched_ok_def)
  then show "kernel_ok (arm_timer t n k)"
    unfolding e by (rule start_ok_kernel) (simp add: startable_def t)
  show "set (timer_list (arm_timer t n k)) = insert (TThread t) (set (timer_list k))" by (simp add: e)
  show "timeout_tick (timers (arm_timer t n k) (TThread t)) = rt_tick k + n" by (simp add: e start_timers)
qed (simp_all add: arm_timer_def rt_timer_control_def split_beta)

lemma sleep_ok:
  assumes k: "kernel_ok k"
  shows "kernel_ok (snd (rt_thread_sleep n k))"
proof -
  let ?t = "the (rt_thread_self k)"
  let ?k1 = "upd_thread ?t (\<lambda>r. r\<lparr>error := RT_EOK\<rparr>) k"
  let ?k2 = "snd (rt_thread_suspend_with_flag ?t RT_INTERRUPTIBLE ?k1)"
  have k1: "kernel_ok ?k1" using k by simp
  show ?thesis
  proof (cases "tstate ?k1 ?t = RT_THREAD_READY \<or> tstate ?k1 ?t = RT_THREAD_RUNNING")
    case False
    then show ?thesis using k1 k
      by (auto simp: rt_thread_sleep_def rt_thread_suspend_with_flag_def Let_def rt_const)
  next
    case True
    have b: "base_ok ?k1" using k1 by (simp add: kernel_ok_base)
    note s = suspend_ok [OF b True, where flag = RT_INTERRUPTIBLE]
    have k2: "kernel_ok ?k2" using s(1,7) k1 by (simp add: kernel_ok_base)
    have "is_suspended ?k2 ?t" using s(3) by blast
    then have "kernel_ok (upd_thread ?t (\<lambda>r. r\<lparr>error := - RT_EINTR\<rparr>) (arm_timer ?t n ?k2))"
      using arm_ok(1) [OF k2] by simp
    then show ?thesis using k s(2) advances_schedule(2)
      by (simp add: rt_thread_sleep_def split_beta Let_def)
  qed
qed

lemma change_priority_ok:
  assumes k: "base_ok k" and p: "p < RT_THREAD_PRIORITY_MAX"
  shows "base_ok (change_priority t p k)" "current (change_priority t p k) = current k"
    "is_suspended (change_priority t p k) = is_suspended k" "tstate (change_priority t p k) = tstate k"
    "timer_list (change_priority t p k) = timer_list k" "timers (change_priority t p k) = timers k"
    "rt_tick (change_priority t p k) = rt_tick k" "expiring (change_priority t p k) = expiring k"
    "prio (change_priority t p k) t = p" "u \<noteq> t \<Longrightarrow> threads (change_priority t p k) u = threads k u"
    "sems (change_priority t p k) = sems k" "mutexes (change_priority t p k) = mutexes k"
    "lock_nest (change_priority t p k) = lock_nest k"
    "wait_list l \<Longrightarrow> klist (change_priority t p k) l = klist k l"
proof -
  let ?f = "\<lambda>r :: rt_thread. r\<lparr>current_priority := p, number_mask := push_bit p 1\<rparr>"
  have x: "sched_ex k {}" and ti: "timers_ok k" using k by (simp_all add: base_ok_def)
  have upd: "sched_ex (upd_thread t ?f k') X"
    if "sched_ex k' X" "\<forall>p. t \<notin> set (klist k' (LReady p))" "t \<in> X \<or> tstate k' t \<noteq> RT_THREAD_READY" for k' X
  proof -
    have "thread_ok (upd_thread t ?f k') u" if "u \<notin> X" for u
    proof -
      have "thread_ok k' u" using \<open>sched_ex k' X\<close> \<open>u \<notin> X\<close> by (simp add: sched_ex_def)
      then show ?thesis using that(1) \<open>t \<in> X \<or> tstate k' t \<noteq> RT_THREAD_READY\<close>
        by (auto simp: thread_ok_def tstate_def is_suspended_def)
    qed
    moreover have "prio_ok (upd_thread t ?f k') u" for u
      using that(1) p by (auto simp: sched_ex_def prio_ok_def tstate_def)
    moreover have "u \<in> set (klist k' (LReady q)) \<Longrightarrow> u \<noteq> t" for u q using that(2) by auto
    ultimately show ?thesis using that(1) by (auto simp: sched_ex_def)
  qed
  have "base_ok (change_priority t p k) \<and> is_suspended (change_priority t p k) = is_suspended k
    \<and> tstate (change_priority t p k) = tstate k"
  proof (cases "tstate k t = RT_THREAD_READY")
    case False
    let ?k = "upd_thread t ?f k"
    have "\<forall>p. t \<notin> set (klist k (LReady p))" using x False by (auto simp: sched_ex_def thread_ok_def)
    then have "sched_ex ?k {}" using x False by (intro upd) simp_all
    moreover have e: "is_suspended ?k = is_suspended k" "tstate ?k = tstate k"
      by (simp_all add: is_suspended_def tstate_def fun_eq_iff)
    moreover have "timers_ok ?k" by (rule timers_ok_same [OF ti]) (use ti e in \<open>auto simp: timers_ok_def\<close>)
    ultimately show ?thesis using False by (simp add: change_priority_def base_ok_def)
  next
    case True
    let ?k1 = "rt_schedule_remove_thread t k" and ?k2 = "upd_thread t ?f (rt_schedule_remove_thread t k)"
    let ?k3 = "rt_schedule_insert_thread t ?k2"
    have nc: "current k \<noteq> Some t" using x True by (auto simp: sched_ex_def thread_ok_def)
    have "sched_ex ?k2 {t}" using remove_ok [OF x, of t] by (intro upd) simp_all
    then have "sched_ex ?k3 ({t} - {t})" by (rule insert_ok) simp_all
    then have x3: "sched_ex ?k3 {}" by simp
    have ts: "tstate ?k3 = tstate k" using True nc
      by (auto simp: fun_eq_iff tstate_def insert_threads rt_const kst)
    then have su: "is_suspended ?k3 = is_suspended k" by (simp add: is_suspended_iff fun_eq_iff)
    have "timers_ok ?k3" by (rule timers_ok_same [OF ti]) (use ti ts su in \<open>auto simp: timers_ok_def\<close>)
    then show ?thesis using True x3 ts su by (simp add: change_priority_def base_ok_def)
  qed
  then show "base_ok (change_priority t p k)" "is_suspended (change_priority t p k) = is_suspended k"
    "tstate (change_priority t p k) = tstate k" by auto
  show "klist (change_priority t p k) l = klist k l" if l: "wait_list l"
  proof (cases "tstate k t = RT_THREAD_READY")
    case True
    have "thread_ok k t" using x by (simp add: sched_ex_def)
    then have "t \<notin> set (klist k l)" using l True by (auto simp: thread_ok_def is_suspended_iff rt_const)
    then show ?thesis using l
      by (auto simp: change_priority_def Let_def insert_klist wait_list_def removeAll_id)
  qed (simp add: change_priority_def)
qed (auto simp: change_priority_def Let_def insert_threads)

section \<open>Properties\<close>

lemma demo_running: "rt_thread_self demo_kernel = Some 0" "tstate demo_kernel 0 = RT_THREAD_RUNNING"
  "prio demo_kernel 0 = 1"
  using demo_kernel_facts by (simp_all add: rt_thread_self_def) code_simp

subsection \<open>Yielding\<close>

lemma yield_swaps:
  assumes k: "kernel_ok k" and l: "lock_nest k = 0" and c: "current k = Some c" "tstate k c = RT_THREAD_RUNNING"
    and r: "klist k (LReady (prio k c)) = t # ts" "\<forall>m \<in> ready_members k. prio k c \<le> snd m"
  defines "k' \<equiv> snd (rt_thread_yield k)"
  shows "current k' = Some t" "klist k' (LReady (prio k c)) = c # ts" "tstate k' t = RT_THREAD_RUNNING"
    "prio k' = prio k" "lock_nest k' = 0" "\<forall>m \<in> ready_members k'. prio k c \<le> snd m" "prio k t = prio k c"
proof -
  let ?k1 = "upd_thread c (\<lambda>r. r\<lparr>stat := stat r OR RT_THREAD_STAT_YIELD\<rparr>)
    (upd_thread c (\<lambda>r. r\<lparr>remaining_tick := init_tick r\<rparr>) k)"
  have k1: "kernel_ok ?k1" using k by simp
  have x: "sched_ex k {}" using k by (rule kernel_okD)
  have tm: "(t, prio k c) \<in> ready_members k" using r(1) by (simp add: ready_members_def)
  have go: "ready_group k \<noteq> 0" using ready_group_0 [OF x] tm by auto
  obtain t0 hp where h: "get_highest_priority_thread k = (t0, hp)" by (cases "get_highest_priority_thread k")
  note g = get_highest_least [OF x go h]
  have "(t0, hp) \<in> ready_members k" using g(1) by (simp add: ready_members_def)
  then have hp: "hp = prio k c" using r(2) g(4) [of t "prio k c"] r(1) by fastforce
  then have t0: "t0 = t" using h r(1) by (auto simp: get_highest_priority_thread_def Let_def)
  have h1: "get_highest_priority_thread ?k1 = (t, prio k c)"
    using h by (simp add: get_highest_priority_thread_def t0 hp)
  show pt: "prio k t = prio k c" using g(2) hp t0 by simp
  have run1: "stat (threads ?k1 c) AND RT_THREAD_STAT_MASK = RT_THREAD_RUNNING"
    using c(2) by (simp add: tstate_def rt_const kst)
  have y1: "stat (threads ?k1 c) AND RT_THREAD_STAT_YIELD \<noteq> 0"
    by (simp add: rt_const kst)
  have "c \<notin> set (klist k (LReady (prio k c)))" using running_unlisted [OF x _ c(2)] by simp
  then have ct: "c \<noteq> t" unfolding r(1) by auto
  let ?k2 = "upd_thread c (\<lambda>r. r\<lparr>stat := stat r AND NOT RT_THREAD_STAT_YIELD\<rparr>) ?k1"
  let ?k3 = "?k2\<lparr>rt_current_priority := prio k c, current := Some t\<rparr>"
  have e: "k' = upd_thread t (\<lambda>r. r\<lparr>stat := set_state RT_THREAD_RUNNING (stat r)\<rparr>)
    (rt_schedule_remove_thread t (rt_schedule_insert_thread c ?k3))"
  proof -
    have "k' = rt_schedule ?k1" using c(1) by (simp add: k'_def rt_thread_yield_def rt_thread_self_def Let_def)
    also have "\<dots> = upd_thread t (\<lambda>r. r\<lparr>stat := set_state RT_THREAD_RUNNING (stat r)\<rparr>)
      (rt_schedule_remove_thread t (rt_schedule_insert_thread c ?k3))"
      using l go c(1) run1 y1 ct unfolding rt_schedule_def h1 by (simp add: Let_def)
    finally show ?thesis .
  qed
  have f3: "stat (threads ?k3 c) AND RT_THREAD_STAT_YIELD = 0" by (simp add: rt_const kst)
  have l3: "klist (rt_schedule_insert_thread c ?k3) = (klist k)(LReady (prio k c) := c # t # ts)"
    using ct r(1) f3 by (simp add: insert_klist)
  have "distinct (klist k (LReady (prio k c)))" using x by (simp add: sched_ex_def lists_ok_def)
  then have un: "t \<notin> set ts" unfolding r(1) by simp
  show "current k' = Some t" "prio k' = prio k" "lock_nest k' = 0"
    using l by (simp_all add: e fun_eq_iff)
  show "tstate k' t = RT_THREAD_RUNNING" by (simp add: e rt_const kst)
  show "klist k' (LReady (prio k c)) = c # ts" using ct un by (simp add: e l3)
  show "\<forall>m \<in> ready_members k'. prio k c \<le> snd m"
    using r(2) by (auto simp: e l3 ready_members_def split: if_splits)
qed

text \<open>C35. Among the threads of the highest ready priority rt_thread_yield exchanges the running thread
  with the first ready one and leaves the others where they are: after two calls the first thread
  runs again and no third thread has run.\<close>

theorem yield_alternates:
  assumes "kernel_ok k" "lock_nest k = 0" "current k = Some c" "tstate k c = RT_THREAD_RUNNING"
    and "klist k (LReady (prio k c)) = t # ts" "\<forall>m \<in> ready_members k. prio k c \<le> snd m"
  shows "let k1 = snd (rt_thread_yield k); k2 = snd (rt_thread_yield k1) in
    current k1 = Some t \<and> klist k1 (LReady (prio k c)) = c # ts
    \<and> current k2 = Some c \<and> klist k2 (LReady (prio k c)) = t # ts"
proof -
  let ?k1 = "snd (rt_thread_yield k)"
  note y = yield_swaps [OF assms]
  have p: "prio ?k1 t = prio k c" using fun_cong [OF y(4), of t] y(7) by simp
  have "current (snd (rt_thread_yield ?k1)) = Some c \<and> klist (snd (rt_thread_yield ?k1)) (LReady (prio k c)) = t # ts"
    using yield_swaps [OF yield_ok(1) [OF assms(1)] y(5) y(1) y(3), unfolded p, OF y(2) y(6)] by simp
  then show ?thesis using y(1,2) by (simp add: Let_def)
qed

text \<open>Threads 0 and 1 take turns.\<close>

theorem yield_alternates_witness: "current (snd (rt_thread_yield demo_kernel)) = Some 1"
proof -
  have p: "prio demo_kernel t = demo_prio t" for t
    by (simp add: demo_kernel_def demo_ready_def rt_system_scheduler_start_def split_beta demo_threads_def)
  have "snd m = prio demo_kernel (fst m)" if "m \<in> ready_members demo_kernel" for m
    using demo_kernel_ok that by (auto simp: ready_members_def sched_ok_def sched_ex_def)
  then have "\<forall>m \<in> ready_members demo_kernel. prio demo_kernel 0 \<le> snd m"
    unfolding p by (simp add: demo_prio_def)
  then show ?thesis
    using yield_alternates [OF demo_kernel_kernel_ok] demo_kernel_facts by (simp add: Let_def demo_running)
qed

subsection \<open>Sleeping\<close>

text \<open>A running thread that calls rt_thread_sleep is suspended, with its timer set to the tick at which
  it wants to run again, and the timer is due from that tick on and not before.\<close>

theorem sleep_until_due:
  assumes "kernel_ok k" "current k = Some t" "tstate k t = RT_THREAD_RUNNING" "n \<noteq> 0" "unat n < half" "unat j < half"
  shows "let (r, k') = rt_thread_sleep n k in r = Waits \<and> kernel_ok k' \<and> is_suspended k' t
    \<and> TThread t \<in> set (timer_list k') \<and> (timer_due k' (rt_tick k + j) (TThread t) \<longleftrightarrow> n \<le> j)"
proof -
  let ?k1 = "upd_thread t (\<lambda>r. r\<lparr>error := RT_EOK\<rparr>) k"
  let ?k2 = "snd (rt_thread_suspend_with_flag t RT_INTERRUPTIBLE ?k1)"
  let ?k4 = "upd_thread t (\<lambda>r. r\<lparr>error := - RT_EINTR\<rparr>) (arm_timer t n ?k2)"
  have b: "base_ok ?k1" using assms(1) by (simp add: kernel_ok_base)
  have r: "tstate ?k1 t = RT_THREAD_READY \<or> tstate ?k1 t = RT_THREAD_RUNNING" using assms(3) by simp
  note s = suspend_ok [OF b r, where flag = RT_INTERRUPTIBLE]
  have k2: "kernel_ok ?k2" using s(1,7) assms(2) by (simp add: kernel_ok_base)
  have st: "is_suspended ?k2 t" using s(3) by blast
  note a = arm_ok [OF k2 st]
  have k4: "kernel_ok ?k4" using a(1) by simp
  note sc = advances_schedule [OF k4]
  have e: "rt_thread_sleep n k = (Waits, rt_schedule ?k4)"
    using assms(2,4) s(2) by (simp add: rt_thread_sleep_def rt_thread_self_def split_beta Let_def)
  have su: "is_suspended (rt_schedule ?k4) t"
  proof -
    obtain c where "current ?k4 = Some c" using k4 by (auto simp: kernel_ok_def)
    moreover have "sched_ok ?k4" using k4 by (simp add: kernel_ok_def)
    ultimately show ?thesis using schedule_suspended(1) st a(2) by simp
  qed
  have "timer_due (rt_schedule ?k4) (rt_tick k + j) (TThread t) \<longleftrightarrow> n \<le> j"
  proof -
    have "timeout_tick (timers (rt_schedule ?k4) (TThread t)) = rt_tick k + n" using a(4) s(8) by simp
    then have "timer_due (rt_schedule ?k4) (rt_tick k + j) (TThread t) \<longleftrightarrow> unat ((rt_tick k + j) - (rt_tick k + n)) < half"
      by (simp add: timer_due_def half_word)
    also have "\<dots> \<longleftrightarrow> unat n \<le> unat j"
      using diff_rebase(1) [of "rt_tick k + j" "rt_tick k" "rt_tick k + n"] assms(5,6) by simp
    finally show ?thesis by (simp add: word_le_nat_alt)
  qed
  then show ?thesis using sc(2) su a(3) by (simp add: e)
qed

theorem sleep_until_due_witness: "is_suspended (snd (rt_thread_sleep 3 demo_kernel)) 0"
  using sleep_until_due [OF demo_kernel_kernel_ok, of 0 3 0] demo_kernel_facts
  by (simp add: half_def split_beta)

text \<open>rt_thread_mdelay of a negative time, which rt_tick_from_millisecond turns into "forever", sets a
  timer that is already due.\<close>

theorem mdelay_negative_is_due:
  assumes "kernel_ok k" "current k = Some t" "tstate k t = RT_THREAD_RUNNING" "ms < 0"
  shows "let (r, k') = rt_thread_mdelay ms k in r = Waits \<and> timer_due k' (rt_tick k') (TThread t)"
proof -
  let ?k1 = "upd_thread t (\<lambda>r. r\<lparr>error := RT_EOK\<rparr>) k"
  let ?k2 = "snd (rt_thread_suspend_with_flag t RT_INTERRUPTIBLE ?k1)"
  have b: "base_ok ?k1" using assms(1) by (simp add: kernel_ok_base)
  have r: "tstate ?k1 t = RT_THREAD_READY \<or> tstate ?k1 t = RT_THREAD_RUNNING" using assms(3) by simp
  note s = suspend_ok [OF b r, where flag = RT_INTERRUPTIBLE]
  have k2: "kernel_ok ?k2" using s(1,7) assms(2) by (simp add: kernel_ok_base)
  have st: "is_suspended ?k2 t" using s(3) by blast
  note a = arm_ok [OF k2 st]
  have n: "rt_tick_from_millisecond ms = - 1" using assms(4) by (simp add: rt_tick_from_millisecond_def rt_const)
  show ?thesis using assms(2) s(2,8) a(4,8)
    by (simp add: rt_thread_mdelay_def n rt_thread_sleep_def rt_thread_self_def split_beta Let_def timer_due_def rt_const)
qed

theorem mdelay_negative_is_due_witness:
  "timer_due (snd (rt_thread_mdelay (-1) demo_kernel)) (rt_tick (snd (rt_thread_mdelay (-1) demo_kernel))) (TThread 0)"
  using mdelay_negative_is_due [OF demo_kernel_kernel_ok, of 0 "-1"] demo_kernel_facts by (simp add: split_beta)

subsection \<open>The tick\<close>

lemma check_inv_frame:
  assumes "check_inv b k" "kernel_ok k'" "timers k' = timers k" "timer_list k' = timer_list k"
    and "expiring k' = expiring k" "rt_tick k' = rt_tick k"
  shows "check_inv b k'"
proof -
  have "left b k' = left b k" using assms(3) by (simp add: left_def fun_eq_iff)
  then show ?thesis using assms by (simp add: check_inv_def tsorted_def)
qed

lemma tick_sel [simp]:
  "kernel_ok (k\<lparr>rt_tick := v\<rparr>) = kernel_ok k"
  by (simp add: kernel_ok_def sched_ok_def timers_ok_def timer_set_def tstate_def is_suspended_def)

lemma tick_prelude:
  assumes "kernel_ok k"
  shows "\<exists>k3. rt_tick_increase cb k = rt_timer_check cb k3 \<and> kernel_ok k3 \<and> timers k3 = timers k
    \<and> timer_list k3 = timer_list k \<and> expiring k3 = expiring k \<and> rt_tick k3 = rt_tick k + 1
    \<and> (\<forall>t. is_suspended k3 t = is_suspended k t)"
proof -
  let ?k1 = "k\<lparr>rt_tick := rt_tick k + 1\<rparr>"
  let ?t = "the (rt_thread_self ?k1)"
  let ?k2 = "upd_thread ?t (\<lambda>r. r\<lparr>remaining_tick := remaining_tick r - 1\<rparr>) ?k1"
  let ?y = "upd_thread ?t (\<lambda>r. r\<lparr>remaining_tick := init_tick r, stat := stat r OR RT_THREAD_STAT_YIELD\<rparr>) ?k2"
  have k2: "kernel_ok ?k2" using assms by simp
  then have y: "kernel_ok ?y" by simp
  have s2: "is_suspended ?k2 = is_suspended k" by (subst upd_thread_frame(2)) (simp_all add: is_suspended_def fun_eq_iff)
  have sy: "is_suspended ?y = is_suspended k"
    by (subst set_yield_ok(2)) (simp_all add: rt_const kst s2 del: upd_thread_sel)
  obtain c where c: "current ?y = Some c" using y by (auto simp: kernel_ok_def)
  have ss: "is_suspended (rt_schedule ?y) t = is_suspended k t" for t
    using schedule_suspended(1) [OF _ c] y sy by (simp add: kernel_ok_def)
  show ?thesis
  proof (cases "remaining_tick (threads ?k2 ?t) = 0")
    case True
    show ?thesis
      by (rule exI [of _ "rt_schedule ?y"]) (use True advances_schedule(2) [OF y] ss in
          \<open>simp_all add: rt_tick_increase_def Let_def\<close>)
  next
    case False
    show ?thesis
      by (rule exI [of _ ?k2]) (use False k2 s2 in \<open>simp_all add: rt_tick_increase_def Let_def\<close>)
  qed
qed

text \<open>C14. The tick interrupt returns, keeps the invariant and the new tick, and wakes every thread whose
  timer is due at the new tick.\<close>

theorem tick_wakes_on_time:
  assumes "timer_client cb" "check_inv b (k\<lparr>rt_tick := rt_tick k + 1\<rparr>)"
  shows "\<exists>k'. rt_tick_increase cb k = Some k' \<and> kernel_ok k' \<and> rt_tick k' = rt_tick k + 1
    \<and> (\<forall>t. TThread t \<in> set (timer_list k) \<longrightarrow> timer_due k (rt_tick k + 1) (TThread t) \<longrightarrow> \<not> is_suspended k' t)"
proof -
  have k: "kernel_ok k" using assms(2) by (simp add: check_inv_def)
  obtain k3 where k3: "rt_tick_increase cb k = rt_timer_check cb k3" "kernel_ok k3" "timers k3 = timers k"
    "timer_list k3 = timer_list k" "expiring k3 = expiring k" "rt_tick k3 = rt_tick k + 1"
    "\<And>t. is_suspended k3 t = is_suspended k t" using tick_prelude [OF k, of cb] by blast
  have "check_inv b k3" by (rule check_inv_frame [OF assms(2) k3(2)]) (simp_all add: k3)
  from check_returns [OF assms(1) this] obtain k' where k': "rt_timer_check cb k3 = Some k'" "kernel_ok k'"
    "rt_tick k' = rt_tick k3" "\<forall>i \<in> set (timer_list k'). \<not> timer_due k' (rt_tick k3) i"
    "\<forall>t. is_suspended k' t \<longrightarrow> is_suspended k3 t
        \<and> (TThread t \<in> set (timer_list k3) \<longrightarrow> TThread t \<in> set (timer_list k'))"
    "\<forall>j. \<not> periodic (timers k3 j) \<longrightarrow> same_timer (timers k3 j) (timers k' j)" by blast
  have "\<not> is_suspended k' t" if t: "TThread t \<in> set (timer_list k)" "timer_due k (rt_tick k + 1) (TThread t)" for t
  proof
    assume s: "is_suspended k' t"
    then have "is_suspended k t" and in': "TThread t \<in> set (timer_list k')" using k'(5) t(1) k3(4,7) by auto
    then have "timer_set k t" using k suspended_not_init by (auto simp: kernel_ok_def timers_ok_def)
    then have "same_timer (timers k (TThread t)) (timers k' (TThread t))"
      using k'(6) by (simp add: k3(3) timer_set_def)
    then have "timer_due k' (rt_tick k3) (TThread t)" using t(2) k3(6) due_same by simp
    then show False using k'(4) in' by blast
  qed
  then show ?thesis using k' k3(1,6) by auto
qed

theorem tick_wakes_on_time_witness:
  "\<exists>k'. rt_tick_increase (\<lambda>f p. rt_schedule) demo_timers = Some k' \<and> rt_tick k' = 1"
proof -
  have "check_inv 0 (demo_timers\<lparr>rt_tick := rt_tick demo_timers + 1\<rparr>)"
    using demo_timers_inv unfolding check_inv_def tsorted_def
    by (simp add: left_def) (simp add: demo_timers_def start_timers demo_kernel_timers half_def demo_threads_def blank_kernel_def)
  then have "\<exists>k'. rt_tick_increase (\<lambda>f p. rt_schedule) demo_timers = Some k' \<and> rt_tick k' = rt_tick demo_timers + 1"
    using tick_wakes_on_time [OF reschedule.timer_client_axioms] by blast
  then show ?thesis by (simp add: demo_timers_def demo_kernel_timers)
qed

text \<open>The ticks for a number of milliseconds last at least that long and less than one tick longer.\<close>

theorem ticks_round_up:
  assumes "0 \<le> ms" "ms < 2 ^ 31"
  shows "let t = int (unat (rt_tick_from_millisecond ms)) in ms \<le> 10 * t \<and> 10 * t < ms + 10"
proof -
  define q a r d where "q = 100 * (ms div 1000) + (100 * (ms mod 1000) + 999) div 1000"
    and "a = ms div 1000" and "r = ms mod 1000" and "d = (100 * r + 999) div 1000"
  have "1000 * d \<le> 100 * r + 999" "100 * r + 999 < 1000 * d + 1000"
    using div_mult_mod_eq [of "100 * r + 999" 1000] pos_mod_bound [of 1000 "100 * r + 999"]
      pos_mod_sign [of 1000 "100 * r + 999"] unfolding d_def by linarith+
  then have d: "10 * d < r + 10" "r \<le> 10 * d" by linarith+
  have ms: "ms = 1000 * a + r" "0 \<le> r" "0 \<le> a"
    using assms(1) by (simp_all add: a_def r_def pos_imp_zdiv_nonneg_iff)
  have "q = 100 * a + d" by (simp add: q_def d_def a_def r_def)
  moreover have "ms < 2147483648" using assms(2) by simp
  ultimately have q: "0 \<le> q" "q < 4294967296" "ms \<le> 10 * q" "10 * q < ms + 10"
    using d ms by - (linarith+)
  have "rt_tick_from_millisecond ms = word_of_int q"
    using assms(1) by (simp add: rt_tick_from_millisecond_def rt_const q_def Let_def)
  then have "int (unat (rt_tick_from_millisecond ms)) = q"
    using q(1,2) by (simp add: unat_eq_nat_uint uint_word_of_int take_bit_int_eq_self)
  then show ?thesis using q(3,4) by (simp add: Let_def)
qed

theorem ticks_round_up_witness: "rt_tick_from_millisecond 25 = 3"
  using ticks_round_up [of 25] by (simp add: rt_tick_from_millisecond_def rt_const)

end
