(* ===== verification/Ipc.thy ===== *)
theory Ipc
  imports Thread
begin

text \<open>
  src/ipc.c: the wait lists, semaphores and events. Calls that block are split at rt_schedule as in
  the theory Thread. Objects are numbered; rt_sem_create and rt_event_create, which allocate an object,
  are rt_sem_init and rt_event_init for a new number.
\<close>

section \<open>Wait lists\<close>

definition RT_IPC_FLAG_FIFO :: u8 where [rt_const]: "RT_IPC_FLAG_FIFO = 0"
definition RT_IPC_FLAG_PRIO :: u8 where [rt_const]: "RT_IPC_FLAG_PRIO = 1"

text \<open>\<open>_ipc_object_init\<close>: the list head becomes an empty list.\<close>

definition ipc_object_init :: "lid \<Rightarrow> kernel \<Rightarrow> kernel" where
  "ipc_object_init l k = k\<lparr>klist := (klist k)(l := [])\<rparr>"

text \<open>The search of \<open>_ipc_list_suspend\<close>: before the first thread of a lower priority.\<close>

fun prio_insert :: "(nat \<Rightarrow> nat) \<Rightarrow> nat \<Rightarrow> nat list \<Rightarrow> nat list" where
  "prio_insert p t [] = [t]"
| "prio_insert p t (s # ss) = (if p t < p s then t # s # ss else s # prio_insert p t ss)"

definition tlist_insert_prio :: "lid \<Rightarrow> nat \<Rightarrow> kernel \<Rightarrow> kernel" where
  "tlist_insert_prio l t k = k\<lparr>klist := (klist k)(l := prio_insert (prio k) t (klist k l))\<rparr>"

definition ipc_list_suspend :: "lid \<Rightarrow> nat \<Rightarrow> u8 \<Rightarrow> suspend_flag \<Rightarrow> kernel \<Rightarrow> rt_err_t \<times> kernel" where
  "ipc_list_suspend l t flag sf k =
     (let (ret, k1) = (if is_suspended k t then (RT_EOK, k) else rt_thread_suspend_with_flag t sf k)
      in if ret \<noteq> RT_EOK then (ret, k1)
         else (RT_EOK, if flag = RT_IPC_FLAG_FIFO then tlist_insert_before l t k1
                       else if flag = RT_IPC_FLAG_PRIO then tlist_insert_prio l t k1 else k1))"

definition ipc_list_resume :: "lid \<Rightarrow> kernel \<Rightarrow> rt_err_t \<times> kernel" where
  "ipc_list_resume l k =
     (let t = hd (klist k l);
          k1 = upd_thread t (\<lambda>r. r\<lparr>error := RT_EOK\<rparr>) k
      in (RT_EOK, snd (rt_thread_resume t k1)))"

partial_function (option) ipc_list_resume_all :: "lid \<Rightarrow> kernel \<Rightarrow> kernel option" where
  "ipc_list_resume_all l k = (case klist k l of
     [] \<Rightarrow> Some k
   | t # _ \<Rightarrow> (let k1 = upd_thread t (\<lambda>r. r\<lparr>error := - RT_ERROR\<rparr>) k
               in ipc_list_resume_all l (snd (rt_thread_resume t k1))))"

section \<open>Semaphores\<close>

definition RT_SEM_VALUE_MAX :: u16 where [rt_const]: "RT_SEM_VALUE_MAX = 0xFFFF"

definition upd_sem :: "nat \<Rightarrow> (rt_semaphore \<Rightarrow> rt_semaphore) \<Rightarrow> kernel \<Rightarrow> kernel" where
  "upd_sem s f k = k\<lparr>sems := (sems k)(s := f (sems k s))\<rparr>"

definition rt_sem_init :: "nat \<Rightarrow> u32 \<Rightarrow> u8 \<Rightarrow> kernel \<Rightarrow> rt_err_t \<times> kernel" where
  "rt_sem_init s val flag k =
     (RT_EOK, upd_sem s (\<lambda>_. \<lparr>sem_value = ucast val, sem_flag = flag\<rparr>) (ipc_object_init (LSem s) k))"

definition rt_sem_detach :: "nat \<Rightarrow> kernel \<Rightarrow> (rt_err_t \<times> kernel) option" where
  "rt_sem_detach s k = map_option (\<lambda>k'. (RT_EOK, k')) (ipc_list_resume_all (LSem s) k)"

definition rt_sem_take :: "nat \<Rightarrow> int \<Rightarrow> suspend_flag \<Rightarrow> kernel \<Rightarrow> blocking \<times> kernel" where
  "rt_sem_take s timeout sf k =
     (if sem_value (sems k s) > 0 then (Done RT_EOK, upd_sem s (\<lambda>r. r\<lparr>sem_value := sem_value r - 1\<rparr>) k)
      else if timeout = 0 then (Done (- RT_ETIMEOUT), k)
      else let t = the (rt_thread_self k);
               k1 = upd_thread t (\<lambda>r. r\<lparr>error := - RT_EINTR\<rparr>) k;
               (ret, k2) = ipc_list_suspend (LSem s) t (sem_flag (sems k s)) sf k1
           in if ret \<noteq> RT_EOK then (Done ret, k2)
              else let k3 = (if timeout > 0 then arm_timer t (word_of_int timeout) k2 else k2)
                   in (Waits, rt_schedule k3))"

text \<open>What a thread that waited returns when it runs again.\<close>

definition rt_sem_take_resume :: "nat \<Rightarrow> kernel \<Rightarrow> rt_err_t" where
  "rt_sem_take_resume t k = (if error (threads k t) \<noteq> RT_EOK then error (threads k t) else RT_EOK)"

definition rt_sem_trytake :: "nat \<Rightarrow> kernel \<Rightarrow> blocking \<times> kernel" where
  "rt_sem_trytake s k = rt_sem_take s 0 RT_UNINTERRUPTIBLE k"

definition rt_sem_release :: "nat \<Rightarrow> kernel \<Rightarrow> rt_err_t \<times> kernel" where
  "rt_sem_release s k =
     (if klist k (LSem s) \<noteq> [] then (RT_EOK, rt_schedule (snd (ipc_list_resume (LSem s) k)))
      else if sem_value (sems k s) < RT_SEM_VALUE_MAX
           then (RT_EOK, upd_sem s (\<lambda>r. r\<lparr>sem_value := sem_value r + 1\<rparr>) k)
           else (- RT_EFULL, k))"

datatype ipc_cmd = RT_IPC_CMD_RESET u32 | RT_IPC_CMD_OTHER

definition rt_sem_control :: "nat \<Rightarrow> ipc_cmd \<Rightarrow> kernel \<Rightarrow> (rt_err_t \<times> kernel) option" where
  "rt_sem_control s cmd k = (case cmd of
     RT_IPC_CMD_RESET val \<Rightarrow> (case ipc_list_resume_all (LSem s) k of
       Some k1 \<Rightarrow> Some (RT_EOK, rt_schedule (upd_sem s (\<lambda>r. r\<lparr>sem_value := ucast val\<rparr>) k1))
     | None \<Rightarrow> None)
   | RT_IPC_CMD_OTHER \<Rightarrow> Some (- RT_ERROR, k))"

section \<open>Events\<close>

definition RT_EVENT_FLAG_AND :: u8 where [rt_const]: "RT_EVENT_FLAG_AND = 1"
definition RT_EVENT_FLAG_OR :: u8 where [rt_const]: "RT_EVENT_FLAG_OR = 2"
definition RT_EVENT_FLAG_CLEAR :: u8 where [rt_const]: "RT_EVENT_FLAG_CLEAR = 4"

definition upd_event :: "nat \<Rightarrow> (rt_event \<Rightarrow> rt_event) \<Rightarrow> kernel \<Rightarrow> kernel" where
  "upd_event e f k = k\<lparr>events := (events k)(e := f (events k e))\<rparr>"

definition rt_event_init :: "nat \<Rightarrow> u8 \<Rightarrow> kernel \<Rightarrow> rt_err_t \<times> kernel" where
  "rt_event_init e flag k =
     (RT_EOK, upd_event e (\<lambda>_. \<lparr>event_bits = 0, event_flag = flag\<rparr>) (ipc_object_init (LEvent e) k))"

definition rt_event_detach :: "nat \<Rightarrow> kernel \<Rightarrow> (rt_err_t \<times> kernel) option" where
  "rt_event_detach e k = map_option (\<lambda>k'. (RT_EOK, k')) (ipc_list_resume_all (LEvent e) k)"

text \<open>The end of a round of rt_event_send, for a thread whose events have come.\<close>

definition event_wake :: "nat \<Rightarrow> nat \<Rightarrow> kernel \<Rightarrow> kernel" where
  "event_wake e t k =
     (let k1 = (if event_info (threads k t) AND RT_EVENT_FLAG_CLEAR \<noteq> 0
                then upd_event e (\<lambda>r. r\<lparr>event_bits := event_bits r AND NOT (event_set (threads k t))\<rparr>) k else k);
          k2 = snd (rt_thread_resume t k1)
      in upd_thread t (\<lambda>r. r\<lparr>error := RT_EOK\<rparr>) k2)"

text \<open>
  The loop over the waiting threads: whether it ended early because a thread waits for neither all nor
  any of its events, whether a thread was resumed, and the state.
\<close>

primrec event_scan :: "nat list \<Rightarrow> nat \<Rightarrow> bool \<Rightarrow> kernel \<Rightarrow> bool \<times> bool \<times> kernel" where
  "event_scan [] e need_schedule k = (False, need_schedule, k)"
| "event_scan (t # ts) e need_schedule k =
     (let want = event_set (threads k t); info = event_info (threads k t); bits = event_bits (events k e)
      in if info AND RT_EVENT_FLAG_AND \<noteq> 0 then
           (if want AND bits = want then event_scan ts e True (event_wake e t k)
            else event_scan ts e need_schedule k)
         else if info AND RT_EVENT_FLAG_OR \<noteq> 0 then
           (if want AND bits \<noteq> 0
            then event_scan ts e True (event_wake e t (upd_thread t (\<lambda>r. r\<lparr>event_set := want AND bits\<rparr>) k))
            else event_scan ts e need_schedule k)
         else (True, need_schedule, k))"

definition rt_event_send :: "nat \<Rightarrow> u32 \<Rightarrow> kernel \<Rightarrow> rt_err_t \<times> kernel" where
  "rt_event_send e bits k =
     (if bits = 0 then (- RT_ERROR, k)
      else let k1 = upd_event e (\<lambda>r. r\<lparr>event_bits := event_bits r OR bits\<rparr>) k;
               (invalid, need_schedule, k2) = event_scan (klist k1 (LEvent e)) e False k1
           in if invalid then (- RT_EINVAL, k2)
              else (RT_EOK, if need_schedule then rt_schedule k2 else k2))"

text \<open>rt_event_recv, with the value stored through \<open>recved\<close>.\<close>

definition rt_event_recv :: "nat \<Rightarrow> u32 \<Rightarrow> u8 \<Rightarrow> int \<Rightarrow> suspend_flag \<Rightarrow> kernel \<Rightarrow> blocking \<times> u32 option \<times> kernel" where
  "rt_event_recv e want opt timeout sf k =
     (if want = 0 then (Done (- RT_ERROR), None, k)
      else let t = the (rt_thread_self k);
               k1 = upd_thread t (\<lambda>r. r\<lparr>error := - RT_EINTR\<rparr>) k;
               bits = event_bits (events k1 e);
               status = (if opt AND RT_EVENT_FLAG_AND \<noteq> 0 then bits AND want = want
                         else if opt AND RT_EVENT_FLAG_OR \<noteq> 0 then bits AND want \<noteq> 0 else False)
           in if status then
                let k2 = upd_thread t (\<lambda>r. r\<lparr>error := RT_EOK, event_set := bits AND want, event_info := opt\<rparr>) k1;
                    k3 = (if opt AND RT_EVENT_FLAG_CLEAR \<noteq> 0
                          then upd_event e (\<lambda>r. r\<lparr>event_bits := event_bits r AND NOT want\<rparr>) k2 else k2)
                in (Done (error (threads k3 t)), Some (bits AND want), k3)
              else if timeout = 0 then
                (Done (- RT_ETIMEOUT), None, upd_thread t (\<lambda>r. r\<lparr>error := - RT_ETIMEOUT\<rparr>) k1)
              else
                let k2 = upd_thread t (\<lambda>r. r\<lparr>event_set := want, event_info := opt\<rparr>) k1;
                    (ret, k3) = ipc_list_suspend (LEvent e) t (event_flag (events k2 e)) sf k2
                in if ret \<noteq> RT_EOK then (Done ret, None, k3)
                   else let k4 = (if timeout > 0 then arm_timer t (word_of_int timeout) k3 else k3)
                        in (Waits, None, rt_schedule k4))"

definition rt_event_recv_resume :: "nat \<Rightarrow> kernel \<Rightarrow> rt_err_t \<times> u32 option" where
  "rt_event_recv_resume t k =
     (if error (threads k t) \<noteq> RT_EOK then (error (threads k t), None)
      else (error (threads k t), Some (event_set (threads k t))))"

definition rt_event_control :: "nat \<Rightarrow> ipc_cmd \<Rightarrow> kernel \<Rightarrow> (rt_err_t \<times> kernel) option" where
  "rt_event_control e cmd k = (case cmd of
     RT_IPC_CMD_RESET _ \<Rightarrow> (case ipc_list_resume_all (LEvent e) k of
       Some k1 \<Rightarrow> Some (RT_EOK, rt_schedule (upd_event e (\<lambda>r. r\<lparr>event_bits := 0\<rparr>) k1))
     | None \<Rightarrow> None)
   | RT_IPC_CMD_OTHER \<Rightarrow> Some (- RT_ERROR, k))"

section \<open>Wait lists: what the helpers do\<close>

lemma klist_frame:
  assumes "threads k' = threads k" "ready_group k' = ready_group k" "current k' = current k" "klist k' = klist k"
    and "timers k' = timers k" "timer_list k' = timer_list k" "expiring k' = expiring k"
  shows "base_ok k' = base_ok k" "kernel_ok k' = kernel_ok k"
proof -
  have "tstate k' = tstate k" "is_suspended k' = is_suspended k" "timer_set k' = timer_set k"
    using assms by (simp_all add: tstate_def is_suspended_def timer_set_def fun_eq_iff)
  then have "timers_ok k' = timers_ok k" using assms by (simp add: timers_ok_def)
  moreover have "sched_ex k' {} = sched_ex k {}" by (rule sched_ex_cong) (simp_all add: assms)
  ultimately show "base_ok k' = base_ok k" "kernel_ok k' = kernel_ok k"
    using assms(3) by (simp_all add: base_ok_def kernel_ok_base)
qed

lemma upd_sem_sel [simp]:
  "threads (upd_sem s f k) = threads k" "klist (upd_sem s f k) = klist k" "ready_group (upd_sem s f k) = ready_group k"
  "current (upd_sem s f k) = current k" "lock_nest (upd_sem s f k) = lock_nest k" "rt_tick (upd_sem s f k) = rt_tick k"
  "timers (upd_sem s f k) = timers k" "timer_list (upd_sem s f k) = timer_list k" "expiring (upd_sem s f k) = expiring k"
  "sems (upd_sem s f k) = (sems k)(s := f (sems k s))" "mutexes (upd_sem s f k) = mutexes k" "events (upd_sem s f k) = events k"
  "is_suspended (upd_sem s f k) = is_suspended k" "tstate (upd_sem s f k) = tstate k"
  "base_ok (upd_sem s f k) = base_ok k" "kernel_ok (upd_sem s f k) = kernel_ok k" "advances k (upd_sem s f k)"
  by (simp_all add: upd_sem_def klist_frame is_suspended_def tstate_def fun_eq_iff advances_def filter_same)

lemma upd_event_sel [simp]:
  "threads (upd_event s f k) = threads k" "klist (upd_event s f k) = klist k" "ready_group (upd_event s f k) = ready_group k"
  "current (upd_event s f k) = current k" "lock_nest (upd_event s f k) = lock_nest k" "rt_tick (upd_event s f k) = rt_tick k"
  "timers (upd_event s f k) = timers k" "timer_list (upd_event s f k) = timer_list k" "expiring (upd_event s f k) = expiring k"
  "events (upd_event s f k) = (events k)(s := f (events k s))" "mutexes (upd_event s f k) = mutexes k" "sems (upd_event s f k) = sems k"
  "is_suspended (upd_event s f k) = is_suspended k" "tstate (upd_event s f k) = tstate k"
  "base_ok (upd_event s f k) = base_ok k" "kernel_ok (upd_event s f k) = kernel_ok k" "advances k (upd_event s f k)"
  by (simp_all add: upd_event_def klist_frame is_suspended_def tstate_def fun_eq_iff advances_def filter_same)

lemma upd_event_fields [simp]:
  "is_suspended (upd_thread t (\<lambda>r. r\<lparr>event_set := v\<rparr>) k) = is_suspended k"
  "tstate (upd_thread t (\<lambda>r. r\<lparr>event_set := v\<rparr>) k) = tstate k"
  "base_ok (upd_thread t (\<lambda>r. r\<lparr>event_set := v\<rparr>) k) = base_ok k"
  "kernel_ok (upd_thread t (\<lambda>r. r\<lparr>event_set := v\<rparr>) k) = kernel_ok k"
  "advances k (upd_thread t (\<lambda>r. r\<lparr>event_set := v\<rparr>) k)"
  "is_suspended (upd_thread t (\<lambda>r. r\<lparr>event_set := v, event_info := i\<rparr>) k) = is_suspended k"
  "tstate (upd_thread t (\<lambda>r. r\<lparr>event_set := v, event_info := i\<rparr>) k) = tstate k"
  "kernel_ok (upd_thread t (\<lambda>r. r\<lparr>event_set := v, event_info := i\<rparr>) k) = kernel_ok k"
  "base_ok (upd_thread t (\<lambda>r. r\<lparr>event_set := v, event_info := i\<rparr>) k) = base_ok k"
  "tstate (upd_thread t (\<lambda>r. r\<lparr>error := x, event_set := v, event_info := i\<rparr>) k) = tstate k"
  "kernel_ok (upd_thread t (\<lambda>r. r\<lparr>error := x, event_set := v, event_info := i\<rparr>) k) = kernel_ok k"
  by (rule upd_thread_frame; simp)+

lemma set_prio_insert [simp]: "set (prio_insert p t ss) = insert t (set ss)"
  by (induction ss) auto

lemma distinct_prio_insert [simp]: "distinct (prio_insert p t ss) = (t \<notin> set ss \<and> distinct ss)"
  by (induction ss) auto

lemma prio_insert_sorted: "sorted (map p ss) \<Longrightarrow> sorted (map p (prio_insert p t ss))"
  by (induction ss) auto

lemma listed_suspended: "base_ok k \<Longrightarrow> wait_list l \<Longrightarrow> t \<in> set (klist k l) \<Longrightarrow> is_suspended k t"
  unfolding base_ok_def sched_ex_def thread_ok_def by blast

lemma wait_list_simps [simp]: "wait_list (LSem s)" "wait_list (LMutex m)" "wait_list (LEvent e)" "wait_list (LPool n)"
  "wait_list (LMail n)" "wait_list (LMailSend n)" "wait_list (LMq n)" "wait_list (LMqSend n)"
  "wait_list (LDqPush n)" "wait_list (LDqPop n)" "wait_list (LCompletion n)"
  by (simp_all add: wait_list_def)

text \<open>A suspended thread that is in no list can enter a wait list.\<close>

lemma enter_list_ok:
  assumes b: "base_ok k" and s: "is_suspended k t" and n: "\<forall>l. t \<notin> set (klist k l)" and l: "wait_list l"
    and ts: "set ts = insert t (set (klist k l))" "distinct ts"
  shows "base_ok (k\<lparr>klist := (klist k)(l := ts)\<rparr>)"
proof -
  let ?k = "k\<lparr>klist := (klist k)(l := ts)\<rparr>"
  have x: "sched_ex k {}" and ti: "timers_ok k" using b by (simp_all add: base_ok_def)
  have lr: "l \<noteq> LReady p" "l \<noteq> LDefunct" for p using l by (auto simp: wait_list_def)
  have mem: "u \<in> set (klist ?k m) \<longleftrightarrow> u \<in> set (klist k m) \<or> (u = t \<and> m = l)" for u m using ts by auto
  have rd: "klist ?k (LReady p) = klist k (LReady p)" "klist ?k LDefunct = klist k LDefunct" for p
    using lr(1) [of p] lr(2) by auto
  have "lists_ok (klist ?k)" unfolding lists_ok_def mem using x n ts(2) by (auto simp: sched_ex_def lists_ok_def)
  moreover have "group_ok (ready_group ?k) (klist ?k)" using x unfolding group_ok_def rd by (simp add: sched_ex_def group_ok_def)
  moreover have "thread_ok ?k u" for u
  proof -
    have "thread_ok k u" using x by (simp add: sched_ex_def)
    then show ?thesis using s unfolding thread_ok_def mem rd by (auto simp: tstate_def is_suspended_def)
  qed
  moreover have "prio_ok ?k u" for u using x by (auto simp: sched_ex_def prio_ok_def tstate_def)
  moreover have "\<forall>u p. u \<in> set (klist k (LReady p)) \<longrightarrow> p = prio k u \<and> number_mask (threads k u) = push_bit (prio k u) 1"
    using x by (simp add: sched_ex_def)
  ultimately have "sched_ex ?k {}" unfolding sched_ex_def rd by simp blast
  moreover have "timers_ok ?k" using ti by (simp add: timers_ok_def timer_set_def tstate_def is_suspended_def)
  ultimately show ?thesis by (simp add: base_ok_def)
qed

text \<open>The place of a thread in a wait list, by the flag of the object.\<close>

definition queued :: "u8 \<Rightarrow> (nat \<Rightarrow> nat) \<Rightarrow> nat \<Rightarrow> nat list \<Rightarrow> nat list" where
  "queued flag p t ts = (if flag = RT_IPC_FLAG_FIFO then ts @ [t] else prio_insert p t ts)"

lemma list_suspend_ok:
  fixes k t l flag sf
  assumes b: "base_ok k" and t: "tstate k t = RT_THREAD_READY \<or> tstate k t = RT_THREAD_RUNNING"
    and l: "wait_list l" and f: "flag = RT_IPC_FLAG_FIFO \<or> flag = RT_IPC_FLAG_PRIO"
  defines "k' \<equiv> snd (ipc_list_suspend l t flag sf k)"
  shows "base_ok k'" "fst (ipc_list_suspend l t flag sf k) = RT_EOK"
    "is_suspended k' u \<longleftrightarrow> u = t \<or> is_suspended k u" "klist k' l = queued flag (prio k) t (klist k l)"
    "wait_list m \<Longrightarrow> m \<noteq> l \<Longrightarrow> klist k' m = klist k m"
    "current k' = current k" "rt_tick k' = rt_tick k" "lock_nest k' = lock_nest k" "timer_list k' = timer_list k"
    "sems k' = sems k" "mutexes k' = mutexes k" "events k' = events k"
    "error (threads k' u) = error (threads k u)" "prio k' = prio k"
    "u \<noteq> t \<Longrightarrow> tstate k' u = tstate k u"
    "event_set (threads k' u) = event_set (threads k u)" "event_info (threads k' u) = event_info (threads k u)"
    "pending_object (threads k' u) = pending_object (threads k u)"
    "taken_object_list (threads k' u) = taken_object_list (threads k u)"
    "init_priority (threads k' u) = init_priority (threads k u)"
proof -
  note s = suspend_ok [OF b t, where flag = sf]
  let ?k1 = "snd (rt_thread_suspend_with_flag t sf k)"
  have ns: "\<not> is_suspended k t" using t by (auto simp: is_suspended_iff rt_const)
  have w: "t \<notin> set (klist k m)" if "wait_list m" for m using listed_suspended [OF b that] ns by blast
  have l1: "klist ?k1 m = klist k m" if "wait_list m" for m using w [OF that] s(4) by simp
  have pp: "prio ?k1 = prio k" by (rule s(13))
  have e: "k' = ?k1\<lparr>klist := (klist ?k1)(l := queued flag (prio k) t (klist ?k1 l))\<rparr>"
    using f s(2) ns pp
    by (auto simp: k'_def ipc_list_suspend_def split_beta Let_def queued_def tlist_insert_before_def
        tlist_insert_prio_def rt_const)
  have st: "is_suspended ?k1 t" using s(3) by blast
  have d: "distinct (klist ?k1 l)" using s(1) by (simp add: base_ok_def sched_ex_def lists_ok_def)
  show "base_ok k'" unfolding e
    by (rule enter_list_ok [OF s(1) st s(5) l]) (use s(5) d in \<open>auto simp: queued_def\<close>)
  show "fst (ipc_list_suspend l t flag sf k) = RT_EOK"
    using s(2) ns by (simp add: ipc_list_suspend_def split_beta)
  show "is_suspended k' u \<longleftrightarrow> u = t \<or> is_suspended k u" using s(3) [of u] by (simp add: e is_suspended_def)
  show "klist k' l = queued flag (prio k) t (klist k l)" using l1 [OF l] by (simp add: e)
  show "wait_list m \<Longrightarrow> m \<noteq> l \<Longrightarrow> klist k' m = klist k m" using l1 by (simp add: e)
  show "current k' = current k" "rt_tick k' = rt_tick k" "lock_nest k' = lock_nest k" "timer_list k' = timer_list k"
    "sems k' = sems k" "mutexes k' = mutexes k" "events k' = events k" "error (threads k' u) = error (threads k u)"
    "prio k' = prio k"
    "event_set (threads k' u) = event_set (threads k u)" "event_info (threads k' u) = event_info (threads k u)"
    "pending_object (threads k' u) = pending_object (threads k u)"
    "taken_object_list (threads k' u) = taken_object_list (threads k u)"
    "init_priority (threads k' u) = init_priority (threads k u)"
    using s(6-9,13-16,18,20-24) by (simp_all add: e)
  show "u \<noteq> t \<Longrightarrow> tstate k' u = tstate k u" using s(12) [of u] by (simp add: e tstate_def)
qed

text \<open>Scheduling leaves the wait lists alone.\<close>

lemma schedule_wait_lists:
  assumes k: "kernel_ok k" and l: "wait_list l"
  shows "klist (rt_schedule k) l = klist k l"
proof (cases "lock_nest k = 0 \<and> ready_group k \<noteq> 0")
  case False
  then show ?thesis by (auto simp: rt_schedule_def)
next
  case go: True
  obtain c where c: "current k = Some c" using k by (auto simp: kernel_ok_def)
  obtain t0 hp where hp: "get_highest_priority_thread k = (t0, hp)" by (cases "get_highest_priority_thread k")
  have x: "sched_ex k {}" and ok: "sched_ok k" using k kernel_okD by auto
  have b: "base_ok k" using k by (simp add: kernel_ok_base)
  have t0: "t0 \<in> set (klist k (LReady hp))" using get_highest_least [OF x _ hp] go by simp
  have "\<not> is_suspended k t0"
    using t0 x by (auto simp: sched_ex_def thread_ok_def is_suspended_iff rt_const)
  then have nt: "t0 \<notin> set (klist k l)" using listed_suspended [OF b l] by blast
  have nl: "l \<noteq> LReady p" for p using l by (auto simp: wait_list_def)
  have gl: "lock_nest k = 0" "ready_group k \<noteq> 0" using go by simp_all
  from ok c gl hp show ?thesis
  proof (cases rule: schedule_cases)
    case (keep k1)
    then have "c \<notin> set (klist k l)" using running_unlisted [OF x _ keep(1)] by simp
    then show ?thesis using keep by simp
  next
    case (preempt k1)
    then show ?thesis using nt nl by (simp add: insert_klist)
  next
    case switch
    then show ?thesis using nt by simp
  qed
qed

text \<open>Resuming the first thread of a wait list with an error code.\<close>

lemma resume_head_ok:
  fixes k l t ts x
  assumes b: "base_ok k" and l: "wait_list l" and h: "klist k l = t # ts"
  defines "k' \<equiv> snd (rt_thread_resume t (upd_thread t (\<lambda>r. r\<lparr>error := x\<rparr>) k))"
  shows "base_ok k'" "advances k k'" "klist k' l = ts" "\<not> is_suspended k' t" "error (threads k' t) = x"
    "current k' = current k" "rt_tick k' = rt_tick k" "lock_nest k' = lock_nest k"
    "wait_list m \<Longrightarrow> m \<noteq> l \<Longrightarrow> klist k' m = klist k m"
    "sems k' = sems k" "mutexes k' = mutexes k" "events k' = events k"
    "u \<noteq> t \<Longrightarrow> threads k' u = threads k u" "prio k' = prio k" "init_priority (threads k' u) = init_priority (threads k u)"
    "is_suspended k' u \<longleftrightarrow> u \<noteq> t \<and> is_suspended k u"
proof -
  let ?k = "upd_thread t (\<lambda>r. r\<lparr>error := x\<rparr>) k"
  have st: "is_suspended k t" using listed_suspended [OF b l] h by simp
  have b1: "base_ok ?k" using b by simp
  have s1: "is_suspended ?k t" using st by simp
  note r = resume_ok [OF b1 s1]
  have th: "t \<notin> set ts" using b l h by (auto simp: base_ok_def sched_ex_def lists_ok_def) (metis distinct.simps(2))
  have nt: "t \<notin> set (klist k m)" if "m \<noteq> l" for m
    using b h that unfolding base_ok_def sched_ex_def lists_ok_def by (metis list.set_intros(1))
  have lr: "l \<noteq> LReady p" for p using l by (auto simp: wait_list_def)
  show "base_ok k'" unfolding k'_def by (rule r(1))
  show "advances k k'" unfolding k'_def by (rule advances_trans [OF _ r(3)]) simp
  show "klist k' l = ts" unfolding k'_def r(8) using h th lr by (simp add: insert_klist)
  show "wait_list m \<Longrightarrow> m \<noteq> l \<Longrightarrow> klist k' m = klist k m"
    unfolding k'_def r(8) using nt [of m] by (auto simp: insert_klist wait_list_def removeAll_id)
  show "is_suspended k' u \<longleftrightarrow> u \<noteq> t \<and> is_suspended k u" for u unfolding k'_def r(4) by simp
  then show "\<not> is_suspended k' t" by simp
  show "current k' = current k" "rt_tick k' = rt_tick k" "lock_nest k' = lock_nest k" "sems k' = sems k"
    "mutexes k' = mutexes k" "events k' = events k"
    unfolding k'_def using r(5,6,9-11,15) by simp_all
  show "error (threads k' t) = x" "u \<noteq> t \<Longrightarrow> threads k' u = threads k u" "prio k' = prio k"
    "init_priority (threads k' u) = init_priority (threads k u)"
    unfolding k'_def r(14) by (simp_all add: fun_eq_iff)
qed

text \<open>Resuming all threads of a wait list ends with the list empty.\<close>

lemma resume_all_ok:
  assumes "base_ok k" "wait_list l"
  shows "\<exists>k'. ipc_list_resume_all l k = Some k' \<and> base_ok k' \<and> advances k k' \<and> klist k' l = []
    \<and> current k' = current k \<and> sems k' = sems k \<and> mutexes k' = mutexes k \<and> events k' = events k
    \<and> (\<forall>t \<in> set (klist k l). \<not> is_suspended k' t \<and> error (threads k' t) = - RT_ERROR)
    \<and> (\<forall>t. t \<notin> set (klist k l) \<longrightarrow> threads k' t = threads k t)
    \<and> (\<forall>m. wait_list m \<longrightarrow> m \<noteq> l \<longrightarrow> klist k' m = klist k m)"
  using assms
proof (induction "klist k l" arbitrary: k)
  case Nil
  then show ?case by (subst ipc_list_resume_all.simps) simp
next
  case (Cons t ts)
  let ?k = "snd (rt_thread_resume t (upd_thread t (\<lambda>r. r\<lparr>error := - RT_ERROR\<rparr>) k))"
  have h: "klist k l = t # ts" using Cons.hyps(2) by simp
  note r = resume_head_ok [OF Cons.prems h, where x = "- RT_ERROR"]
  obtain k' where k': "ipc_list_resume_all l ?k = Some k'" "base_ok k'" "advances ?k k'" "klist k' l = []"
    "current k' = current ?k" "sems k' = sems ?k" "mutexes k' = mutexes ?k" "events k' = events ?k"
    "\<forall>t \<in> set (klist ?k l). \<not> is_suspended k' t \<and> error (threads k' t) = - RT_ERROR"
    "\<forall>t. t \<notin> set (klist ?k l) \<longrightarrow> threads k' t = threads ?k t"
    "\<forall>m. wait_list m \<longrightarrow> m \<noteq> l \<longrightarrow> klist k' m = klist ?k m"
    using Cons.hyps(1) [OF r(3) [symmetric] r(1) Cons.prems(2)] by blast
  have e: "ipc_list_resume_all l k = Some k'" using k'(1) h by (subst ipc_list_resume_all.simps) (simp add: Let_def)
  have "t \<notin> set ts" using Cons.prems h by (auto simp: base_ok_def sched_ex_def lists_ok_def) (metis distinct.simps(2))
  then have kt: "threads k' t = threads ?k t" using k'(10) r(3) by simp
  have tt: "\<not> is_suspended k' t \<and> error (threads k' t) = - RT_ERROR"
    using r(4,5) kt k'(3) by (auto simp: advances_def)
  have "\<forall>u \<in> set (klist k l). \<not> is_suspended k' u \<and> error (threads k' u) = - RT_ERROR"
    using tt k'(9) r(3) h by auto
  moreover have "\<forall>u. u \<notin> set (klist k l) \<longrightarrow> threads k' u = threads k u" using k'(10) r(3,13) h by auto
  moreover have "\<forall>m. wait_list m \<longrightarrow> m \<noteq> l \<longrightarrow> klist k' m = klist k m" using k'(11) r(9) by auto
  ultimately show ?case using e k'(2,4-8) advances_trans [OF r(2) k'(3)] r(6,10-12)
    by (intro exI [of _ k']) simp
qed

text \<open>The end of a blocking call: the timer, when a time is given, and the switch.\<close>

lemma block_ok:
  fixes t n k timeout
  assumes k: "kernel_ok k" and t: "is_suspended k t"
  defines "k' \<equiv> rt_schedule (if timeout > (0 :: int) then arm_timer t n k else k)"
  shows "kernel_ok k'" "is_suspended k' u = is_suspended k u" "wait_list l \<Longrightarrow> klist k' l = klist k l"
    "sems k' = sems k" "mutexes k' = mutexes k" "events k' = events k" "error (threads k' u) = error (threads k u)"
    "event_set (threads k' u) = event_set (threads k u)" "event_info (threads k' u) = event_info (threads k u)"
    "timeout > 0 \<Longrightarrow> TThread t \<in> set (timer_list k') \<and> timeout_tick (timers k' (TThread t)) = rt_tick k + n"
    "timeout \<le> 0 \<Longrightarrow> timer_list k' = timer_list k" "rt_tick k' = rt_tick k"
    "pending_object (threads k' u) = pending_object (threads k u)" "prio k' = prio k"
    "taken_object_list (threads k' u) = taken_object_list (threads k u)"
    "init_priority (threads k' u) = init_priority (threads k u)"
proof -
  let ?k = "if timeout > (0 :: int) then arm_timer t n k else k"
  note a = arm_ok [OF k t, of n]
  have k1: "kernel_ok ?k" using a(1) k by simp
  have e: "threads ?k = threads k" "klist ?k = klist k" "is_suspended ?k = is_suspended k" "sems ?k = sems k"
    "mutexes ?k = mutexes k" "events ?k = events k" "rt_tick ?k = rt_tick k"
    using a by simp_all
  show "kernel_ok k'" unfolding k'_def by (rule advances_schedule(2) [OF k1])
  obtain c where "current ?k = Some c" using k1 by (auto simp: kernel_ok_def)
  then show "is_suspended k' u = is_suspended k u"
    unfolding k'_def using schedule_suspended(1) k1 e(3) by (simp add: kernel_ok_def)
  show "wait_list l \<Longrightarrow> klist k' l = klist k l"
    unfolding k'_def using schedule_wait_lists [OF k1] e(2) by simp
  show "sems k' = sems k" "mutexes k' = mutexes k" "events k' = events k" "error (threads k' u) = error (threads k u)"
    "event_set (threads k' u) = event_set (threads k u)" "event_info (threads k' u) = event_info (threads k u)"
    "rt_tick k' = rt_tick k" "timeout \<le> 0 \<Longrightarrow> timer_list k' = timer_list k"
    "pending_object (threads k' u) = pending_object (threads k u)" "prio k' = prio k"
    "taken_object_list (threads k' u) = taken_object_list (threads k u)"
    "init_priority (threads k' u) = init_priority (threads k u)"
    unfolding k'_def schedule_sel schedule_fields using e by simp_all
  show "timeout > 0 \<Longrightarrow> TThread t \<in> set (timer_list k') \<and> timeout_tick (timers k' (TThread t)) = rt_tick k + n"
    unfolding k'_def using a(3,4) by simp
qed

section \<open>Semaphores\<close>

definition sem_ok :: "nat \<Rightarrow> kernel \<Rightarrow> bool" where
  "sem_ok s k \<longleftrightarrow> kernel_ok k \<and> (0 < sem_value (sems k s) \<longrightarrow> klist k (LSem s) = [])
     \<and> (sem_flag (sems k s) = RT_IPC_FLAG_FIFO \<or> sem_flag (sems k s) = RT_IPC_FLAG_PRIO)"

text \<open>A running thread takes a semaphore that is not available and waits.\<close>

lemma sem_take_waits:
  fixes s timeout sf k t
  assumes k: "sem_ok s k" and z: "sem_value (sems k s) = 0" "timeout \<noteq> 0"
    and t: "current k = Some t" "tstate k t = RT_THREAD_RUNNING"
  defines "k' \<equiv> snd (rt_sem_take s timeout sf k)"
  shows "fst (rt_sem_take s timeout sf k) = Waits" "sem_ok s k'" "sems k' = sems k" "is_suspended k' t"
    "klist k' (LSem s) = queued (sem_flag (sems k s)) (prio k) t (klist k (LSem s))"
    "error (threads k' t) = - RT_EINTR"
    "timeout > 0 \<Longrightarrow> TThread t \<in> set (timer_list k') \<and> timeout_tick (timers k' (TThread t)) = rt_tick k + word_of_int timeout"
    "wait_list l \<Longrightarrow> l \<noteq> LSem s \<Longrightarrow> klist k' l = klist k l" "timeout \<le> 0 \<Longrightarrow> timer_list k' = timer_list k"
proof -
  let ?k1 = "upd_thread t (\<lambda>r. r\<lparr>error := - RT_EINTR\<rparr>) k"
  let ?k2 = "snd (ipc_list_suspend (LSem s) t (sem_flag (sems k s)) sf ?k1)"
  let ?k3 = "if timeout > (0 :: int) then arm_timer t (word_of_int timeout) ?k2 else ?k2"
  have k0: "kernel_ok k" using k by (simp add: sem_ok_def)
  have b: "base_ok ?k1" using k0 by (simp add: kernel_ok_base)
  have r: "tstate ?k1 t = RT_THREAD_READY \<or> tstate ?k1 t = RT_THREAD_RUNNING" using t by simp
  have f: "sem_flag (sems k s) = RT_IPC_FLAG_FIFO \<or> sem_flag (sems k s) = RT_IPC_FLAG_PRIO"
    using k by (simp add: sem_ok_def)
  note s = list_suspend_ok [OF b r wait_list_simps(1) [of s] f, where sf = sf]
  have k2: "kernel_ok ?k2" using s(1,6) t by (simp add: kernel_ok_base)
  have st: "is_suspended ?k2 t" using s(3) by blast
  note bl = block_ok [OF k2 st, where timeout = timeout and n = "word_of_int timeout"]
  have pp: "prio ?k1 = prio k" by (simp add: fun_eq_iff)
  have e: "rt_sem_take s timeout sf k = (Waits, rt_schedule ?k3)"
    using z t s(2) by (simp add: rt_sem_take_def rt_thread_self_def split_beta Let_def)
  show "fst (rt_sem_take s timeout sf k) = Waits" by (simp add: e)
  show "is_suspended k' t" using bl(2) st by (simp add: k'_def e)
  show sm: "sems k' = sems k" unfolding k'_def e snd_conv bl(4) s(10) by simp
  show "klist k' (LSem s) = queued (sem_flag (sems k s)) (prio k) t (klist k (LSem s))"
    unfolding k'_def e snd_conv bl(3) [OF wait_list_simps(1)] s(4) pp by simp
  show "error (threads k' t) = - RT_EINTR" unfolding k'_def e snd_conv bl(7) s(13) by simp
  show "timeout > 0 \<Longrightarrow> TThread t \<in> set (timer_list k') \<and> timeout_tick (timers k' (TThread t)) = rt_tick k + word_of_int timeout"
    using bl(10) s(7) unfolding k'_def e snd_conv by simp
  show "timeout \<le> 0 \<Longrightarrow> timer_list k' = timer_list k" using bl(11) s(9) unfolding k'_def e snd_conv by simp
  show "wait_list l \<Longrightarrow> l \<noteq> LSem s \<Longrightarrow> klist k' l = klist k l"
    unfolding k'_def e snd_conv using bl(3) s(5) by simp
  show "sem_ok s k'" using bl(1) f z unfolding sem_ok_def sm by (simp add: k'_def e)
qed

lemma release_waiting:
  fixes s k t ts
  assumes k: "sem_ok s k" and q: "klist k (LSem s) = t # ts"
  defines "k' \<equiv> snd (rt_sem_release s k)"
  shows "fst (rt_sem_release s k) = RT_EOK" "sem_ok s k'" "klist k' (LSem s) = ts" "sems k' = sems k"
    "\<not> is_suspended k' t" "rt_sem_take_resume t k' = RT_EOK" "advances k k'"
proof -
  let ?k1 = "snd (rt_thread_resume t (upd_thread t (\<lambda>r. r\<lparr>error := RT_EOK\<rparr>) k))"
  have k0: "kernel_ok k" and b: "base_ok k" using k by (simp_all add: sem_ok_def kernel_ok_base)
  note r = resume_head_ok [OF b wait_list_simps(1) q, where x = RT_EOK]
  have k1: "kernel_ok ?k1" using r(1,6) k0 by (simp add: kernel_ok_base)
  have e: "rt_sem_release s k = (RT_EOK, rt_schedule ?k1)"
    using q by (simp add: rt_sem_release_def ipc_list_resume_def Let_def)
  note sc = advances_schedule [OF k1]
  show "fst (rt_sem_release s k) = RT_EOK" by (simp add: e)
  show w: "klist k' (LSem s) = ts"
    unfolding k'_def e snd_conv using schedule_wait_lists [OF k1 wait_list_simps(1)] r(3) by simp
  show sm: "sems k' = sems k" unfolding k'_def e snd_conv using r(10) by simp
  show "\<not> is_suspended k' t" using sc(1) r(4) by (auto simp: k'_def e advances_def)
  show "rt_sem_take_resume t k' = RT_EOK" using r(5) by (simp add: k'_def e rt_sem_take_resume_def)
  show "advances k k'" unfolding k'_def e snd_conv by (rule advances_trans [OF r(2) sc(1)])
  show "sem_ok s k'" using k q sc(2) unfolding sem_ok_def w sm by (simp add: k'_def e)
qed

lemma release_free:
  assumes k: "sem_ok s k" and q: "klist k (LSem s) = []"
  shows "sem_value (sems k s) < RT_SEM_VALUE_MAX \<Longrightarrow>
      rt_sem_release s k = (RT_EOK, upd_sem s (\<lambda>r. r\<lparr>sem_value := sem_value r + 1\<rparr>) k)
      \<and> sem_ok s (upd_sem s (\<lambda>r. r\<lparr>sem_value := sem_value r + 1\<rparr>) k)"
    "\<not> sem_value (sems k s) < RT_SEM_VALUE_MAX \<Longrightarrow> rt_sem_release s k = (- RT_EFULL, k)"
  using assms by (simp_all add: rt_sem_release_def sem_ok_def)

lemma sem_release_ok:
  assumes "sem_ok s k"
  shows "sem_ok s (snd (rt_sem_release s k))" "advances k (snd (rt_sem_release s k))"
proof -
  have "sem_ok s (snd (rt_sem_release s k)) \<and> advances k (snd (rt_sem_release s k))"
  proof (cases "klist k (LSem s)")
    case Nil
    then show ?thesis using release_free [OF assms Nil] assms
      by (cases "sem_value (sems k s) < RT_SEM_VALUE_MAX") simp_all
  next
    case (Cons t ts)
    then show ?thesis using release_waiting [OF assms Cons] by blast
  qed
  then show "sem_ok s (snd (rt_sem_release s k))" "advances k (snd (rt_sem_release s k))" by auto
qed

text \<open>Releasing any semaphore keeps the invariant of the kernel, whatever the state of the semaphore.\<close>

lemma sem_release_kernel_ok:
  assumes "kernel_ok k"
  shows "kernel_ok (snd (rt_sem_release s k))" "advances k (snd (rt_sem_release s k))"
proof -
  have "kernel_ok (snd (rt_sem_release s k)) \<and> advances k (snd (rt_sem_release s k))"
  proof (cases "klist k (LSem s)")
    case Nil
    then show ?thesis using assms by (simp add: rt_sem_release_def)
  next
    case (Cons t ts)
    have b: "base_ok k" using assms by (simp add: kernel_ok_base)
    note r = resume_head_ok [OF b wait_list_simps(1) Cons, where x = RT_EOK]
    have k1: "kernel_ok (snd (rt_thread_resume t (upd_thread t (\<lambda>r. r\<lparr>error := RT_EOK\<rparr>) k)))"
      using r(1,6) assms by (simp add: kernel_ok_base)
    show ?thesis using advances_schedule [OF k1] advances_trans [OF r(2)] Cons
      by (simp add: rt_sem_release_def ipc_list_resume_def Let_def)
  qed
  then show "kernel_ok (snd (rt_sem_release s k))" "advances k (snd (rt_sem_release s k))" by auto
qed

text \<open>A timer of the application may release a semaphore.\<close>

interpretation sem_timer: timer_client "\<lambda>f p k. snd (rt_sem_release p k)"
  by unfold_locales (simp_all add: sem_release_kernel_ok)

text \<open>The abstract counting semaphore and what its clients may conclude.\<close>

datatype sem_op = Try_take | Release

text \<open>A sequence of calls: the units granted, to callers and to waiting threads, and the units released.\<close>

primrec sem_run :: "('s \<Rightarrow> bool \<times> 's) \<Rightarrow> ('s \<Rightarrow> bool \<times> 's) \<Rightarrow> ('s \<Rightarrow> nat list) \<Rightarrow> sem_op list \<Rightarrow> 's \<Rightarrow> nat \<times> nat \<times> 's" where
  "sem_run acq rel queue [] s = (0, 0, s)"
| "sem_run acq rel queue (x # xs) s = (case x of
     Try_take \<Rightarrow> (case acq s of (ok, s') \<Rightarrow> (case sem_run acq rel queue xs s' of
       (g, r, s'') \<Rightarrow> (g + (if ok then 1 else 0), r, s'')))
   | Release \<Rightarrow> (case rel s of (ok, s') \<Rightarrow> (case sem_run acq rel queue xs s' of
       (g, r, s'') \<Rightarrow> (g + (if queue s = [] then 0 else 1), r + (if ok then 1 else 0), s''))))"

locale counting_semaphore =
  fixes valid :: "'s \<Rightarrow> bool" and count :: "'s \<Rightarrow> nat" and queue :: "'s \<Rightarrow> nat list"
    and acq :: "'s \<Rightarrow> bool \<times> 's" and rel :: "'s \<Rightarrow> bool \<times> 's" and limit :: nat
  assumes bounded: "valid s \<Longrightarrow> count s \<le> limit"
    and no_waste: "valid s \<Longrightarrow> queue s \<noteq> [] \<Longrightarrow> count s = 0"
    and acq_some: "valid s \<Longrightarrow> 0 < count s \<Longrightarrow> acq s = (True, s') \<longrightarrow> valid s' \<and> count s' = count s - 1 \<and> queue s' = queue s"
    and acq_ok: "valid s \<Longrightarrow> fst (acq s) \<longleftrightarrow> 0 < count s"
    and acq_none: "valid s \<Longrightarrow> count s = 0 \<Longrightarrow> snd (acq s) = s"
    and rel_queue: "valid s \<Longrightarrow> queue s = t # ts \<Longrightarrow> rel s = (ok, s') \<longrightarrow> ok \<and> valid s' \<and> count s' = count s \<and> queue s' = ts"
    and rel_count: "valid s \<Longrightarrow> queue s = [] \<Longrightarrow> count s < limit \<Longrightarrow> rel s = (ok, s') \<longrightarrow> ok \<and> valid s' \<and> count s' = count s + 1 \<and> queue s' = []"
    and rel_full: "valid s \<Longrightarrow> queue s = [] \<Longrightarrow> count s = limit \<Longrightarrow> \<not> fst (rel s) \<and> snd (rel s) = s"
begin

lemma acq_step:
  assumes "valid s" "acq s = (ok, s')"
  shows "valid s'" "count s' + (if ok then 1 else 0) = count s" "queue s' = queue s"
proof -
  have "valid s' \<and> count s' + (if ok then 1 else 0) = count s \<and> queue s' = queue s"
  proof (cases "0 < count s")
    case True
    then have "ok" using acq_ok [OF assms(1)] assms(2) by simp
    then show ?thesis using acq_some [OF assms(1) True, of s'] assms(2) True by simp
  next
    case False
    then have "\<not> ok" "s' = s" using acq_ok [OF assms(1)] acq_none [OF assms(1)] assms(2) by simp_all
    then show ?thesis using assms(1) by simp
  qed
  then show "valid s'" "count s' + (if ok then 1 else 0) = count s" "queue s' = queue s" by auto
qed

lemma rel_step:
  assumes "valid s" "rel s = (ok, s')"
  shows "valid s'" "count s' + (if queue s = [] then 0 else 1) = count s + (if ok then 1 else 0)"
    "queue s' = tl (queue s)"
proof -
  have "valid s' \<and> count s' + (if queue s = [] then 0 else 1) = count s + (if ok then 1 else 0) \<and> queue s' = tl (queue s)"
  proof (cases "queue s")
    case (Cons t ts)
    then show ?thesis using rel_queue [OF assms(1) Cons, of ok s'] assms(2) by simp
  next
    case Nil
    show ?thesis
    proof (cases "count s < limit")
      case True
      then show ?thesis using rel_count [OF assms(1) Nil True, of ok s'] assms(2) Nil by simp
    next
      case False
      then have "count s = limit" using bounded [OF assms(1)] by simp
      then show ?thesis using rel_full [OF assms(1) Nil] assms Nil by simp
    qed
  qed
  then show "valid s'" "count s' + (if queue s = [] then 0 else 1) = count s + (if ok then 1 else 0)"
    "queue s' = tl (queue s)" by auto
qed

text \<open>No unit is lost and none appears: what is granted came from the initial count or a release.\<close>

lemma units_conserved:
  assumes "valid s" "sem_run acq rel queue xs s = (g, r, s')"
  shows "valid s' \<and> count s' + g = count s + r"
  using assms
proof (induction xs arbitrary: s g r s')
  case Nil
  then show ?case by simp
next
  case (Cons x xs)
  show ?case
  proof (cases x)
    case Try_take
    obtain ok s1 where 1: "acq s = (ok, s1)" by (cases "acq s")
    obtain g1 r1 s2 where 2: "sem_run acq rel queue xs s1 = (g1, r1, s2)" by (cases "sem_run acq rel queue xs s1")
    show ?thesis using Cons.IH [OF acq_step(1) [OF Cons.prems(1) 1] 2] acq_step(2) [OF Cons.prems(1) 1]
        Cons.prems(2) Try_take 1 2 by (auto split: if_splits)
  next
    case Release
    obtain ok s1 where 1: "rel s = (ok, s1)" by (cases "rel s")
    obtain g1 r1 s2 where 2: "sem_run acq rel queue xs s1 = (g1, r1, s2)" by (cases "sem_run acq rel queue xs s1")
    show ?thesis using Cons.IH [OF rel_step(1) [OF Cons.prems(1) 1] 2] rel_step(2) [OF Cons.prems(1) 1]
        Cons.prems(2) Release 1 2 by (auto split: if_splits)
  qed
qed

end

definition sem_acq :: "nat \<Rightarrow> kernel \<Rightarrow> bool \<times> kernel" where
  "sem_acq s k = (case rt_sem_trytake s k of (r, k') \<Rightarrow> (r = Done RT_EOK, k'))"

definition sem_rel :: "nat \<Rightarrow> kernel \<Rightarrow> bool \<times> kernel" where
  "sem_rel s k = (case rt_sem_release s k of (r, k') \<Rightarrow> (r = RT_EOK, k'))"

lemma sem_acq_alt: "sem_acq s k = (if 0 < sem_value (sems k s) then (True, upd_sem s (\<lambda>r. r\<lparr>sem_value := sem_value r - 1\<rparr>) k)
    else (False, k))"
  by (simp add: sem_acq_def rt_sem_trytake_def rt_sem_take_def rt_const)

lemma u16_pos: "0 < w \<longleftrightarrow> 0 < unat w" "unat w \<le> 65535" for w :: u16
  using unsigned_less [where ?'b = 16 and ?'a = nat, of w] by (auto simp: word_less_nat_alt)

lemma u16_minus: "0 < w \<Longrightarrow> unat (w - 1) = unat w - 1" for w :: u16
  by (simp add: unat_minus_one word_gt_0)

lemma u16_plus: "w < RT_SEM_VALUE_MAX \<Longrightarrow> unat (w + 1) = unat w + 1" for w :: u16
  by (simp add: rt_const word_less_nat_alt unat_word_ariths)

interpretation sem: counting_semaphore "sem_ok s" "\<lambda>k. unat (sem_value (sems k s))" "\<lambda>k. klist k (LSem s)"
  "sem_acq s" "sem_rel s" 65535 for s
proof (unfold_locales, goal_cases)
  case (1 k)
  show ?case by (rule u16_pos(2))
next
  case (2 k)
  then show ?case by (auto simp: sem_ok_def u16_pos(1))
next
  case (3 k k')
  then show ?case by (auto simp: sem_acq_alt sem_ok_def u16_pos(1) [symmetric] u16_minus)
next
  case (4 k)
  then show ?case by (simp add: sem_acq_alt u16_pos(1))
next
  case (5 k)
  then show ?case by (simp add: sem_acq_alt u16_pos(1))
next
  case (6 k t ts ok k')
  then show ?case using release_waiting [OF 6] by (auto simp: sem_rel_def split_beta)
next
  case (7 k ok k')
  then have "sem_value (sems k s) < RT_SEM_VALUE_MAX" by (simp add: rt_const word_less_nat_alt)
  then show ?case using release_free(1) [OF 7(1,2)] 7(2) u16_plus by (auto simp: sem_rel_def)
next
  case (8 k)
  then have "\<not> sem_value (sems k s) < RT_SEM_VALUE_MAX" by (simp add: rt_const word_less_nat_alt)
  then show ?case using release_free(2) [OF 8(1,2)] by (simp add: sem_rel_def rt_const)
qed

section \<open>Events\<close>

definition event_match :: "u8 \<Rightarrow> u32 \<Rightarrow> u32 \<Rightarrow> bool" where
  "event_match info want bits \<longleftrightarrow> (if info AND RT_EVENT_FLAG_AND \<noteq> 0 then want AND bits = want else want AND bits \<noteq> 0)"

abbreviation satisfied :: "kernel \<Rightarrow> nat \<Rightarrow> nat \<Rightarrow> bool" where
  "satisfied k e t \<equiv> event_match (event_info (threads k t)) (event_set (threads k t)) (event_bits (events k e))"

definition event_mode :: "u8 \<Rightarrow> bool" where
  "event_mode info \<longleftrightarrow> info AND RT_EVENT_FLAG_AND \<noteq> 0 \<or> info AND RT_EVENT_FLAG_OR \<noteq> 0"

text \<open>Nobody waits for what is already there, and everybody waits for all or any of its bits.\<close>

definition event_ok :: "nat \<Rightarrow> kernel \<Rightarrow> bool" where
  "event_ok e k \<longleftrightarrow> kernel_ok k
     \<and> (event_flag (events k e) = RT_IPC_FLAG_FIFO \<or> event_flag (events k e) = RT_IPC_FLAG_PRIO)
     \<and> (\<forall>t \<in> set (klist k (LEvent e)). event_mode (event_info (threads k t)) \<and> \<not> satisfied k e t)"

lemma event_match_mono: "event_match i w b' \<Longrightarrow> b' AND b = b' \<Longrightarrow> event_match i w b"
proof -
  assume m: "event_match i w b'" and s: "b' AND b = b'"
  have e: "w AND b' = (w AND b') AND b" using s by (simp add: word_bw_assocs)
  show "event_match i w b"
  proof (cases "i AND RT_EVENT_FLAG_AND \<noteq> 0")
    case True
    then show ?thesis using m e by (simp add: event_match_def)
  next
    case False
    have "w AND b \<noteq> 0" if "w AND b' \<noteq> 0"
    proof
      assume "w AND b = 0"
      then have "w AND b' = 0" by (metis s word_bw_comms(1) word_bw_lcs(1) word_log_esimps(1))
      then show False using that by simp
    qed
    then show ?thesis using m False by (simp add: event_match_def)
  qed
qed

lemma resume_wait:
  assumes "base_ok k" "is_suspended k t" "wait_list m"
  shows "klist (snd (rt_thread_resume t k)) m = removeAll t (klist k m)"
  unfolding resume_ok(8) [OF assms(1,2)] using assms(3) by (auto simp: insert_klist wait_list_def)

lemma event_wake_ok:
  fixes e t k
  assumes b: "base_ok k" and st: "is_suspended k t"
  defines "k' \<equiv> event_wake e t k"
  shows "base_ok k'" "advances k k'" "wait_list m \<Longrightarrow> klist k' m = removeAll t (klist k m)" "current k' = current k"
    "u \<noteq> t \<Longrightarrow> threads k' u = threads k u" "error (threads k' t) = RT_EOK"
    "event_set (threads k' u) = event_set (threads k u)" "event_info (threads k' u) = event_info (threads k u)"
    "event_bits (events k' e) AND event_bits (events k e) = event_bits (events k' e)"
    "event_flag (events k' d) = event_flag (events k d)" "sems k' = sems k" "mutexes k' = mutexes k"
    "d \<noteq> e \<Longrightarrow> events k' d = events k d" "prio k' = prio k"
proof -
  define k1 where "k1 = (if event_info (threads k t) AND RT_EVENT_FLAG_CLEAR \<noteq> 0
    then upd_event e (\<lambda>r. r\<lparr>event_bits := event_bits r AND NOT (event_set (threads k t))\<rparr>) k else k)"
  have 1: "base_ok k1" "is_suspended k1 t" "advances k k1" "threads k1 = threads k" "klist k1 = klist k"
    "current k1 = current k" "sems k1 = sems k" "mutexes k1 = mutexes k"
    "d \<noteq> e \<Longrightarrow> events k1 d = events k d" "event_flag (events k1 d) = event_flag (events k d)"
    "event_bits (events k1 e) AND event_bits (events k e) = event_bits (events k1 e)" for d
    using b st by (simp_all add: k1_def word_bw_assocs word_bw_comms)
  note r = resume_ok [OF 1(1,2)]
  let ?k2 = "snd (rt_thread_resume t k1)"
  obtain x where x: "threads ?k2 = (threads k)(t := (threads k t)\<lparr>stat := x\<rparr>)"
    using r(14) unfolding 1(4) by blast
  have ev: "k' = upd_thread t (\<lambda>r. r\<lparr>error := RT_EOK\<rparr>) ?k2"
    by (simp add: k'_def event_wake_def Let_def k1_def)
  show "base_ok k'" using r(1) by (simp add: ev)
  show "advances k k'" unfolding ev by (rule advances_trans [OF advances_trans [OF 1(3) r(3)]]) simp
  show "wait_list m \<Longrightarrow> klist k' m = removeAll t (klist k m)" using resume_wait [OF 1(1,2)] 1(5) by (simp add: ev)
  have eb: "events k' = events k1" using r(11) by (simp add: ev)
  show "event_bits (events k' e) AND event_bits (events k e) = event_bits (events k' e)" unfolding eb by (rule 1(11))
  show "event_flag (events k' d) = event_flag (events k d)" "d \<noteq> e \<Longrightarrow> events k' d = events k d"
    unfolding eb by (rule 1)+
  show "current k' = current k" "sems k' = sems k" "mutexes k' = mutexes k" using r(5,9,10) 1(6-8) by (simp_all add: ev)
  show "u \<noteq> t \<Longrightarrow> threads k' u = threads k u" "error (threads k' t) = RT_EOK"
    "event_set (threads k' u) = event_set (threads k u)" "event_info (threads k' u) = event_info (threads k u)"
    "prio k' = prio k"
    by (simp_all add: ev x fun_eq_iff)
qed

text \<open>
  What the loop of rt_event_send leaves behind when it has passed \<open>ds\<close> and the threads \<open>ts\<close> are to come.
\<close>

definition scan_post :: "nat \<Rightarrow> nat list \<Rightarrow> nat list \<Rightarrow> kernel \<Rightarrow> bool \<Rightarrow> kernel \<Rightarrow> bool" where
  "scan_post e ds ts k need k' \<longleftrightarrow> base_ok k' \<and> advances k k' \<and> current k' = current k
    \<and> (\<forall>t \<in> set (klist k' (LEvent e)). \<not> satisfied k' e t \<and> t \<in> set (ds @ ts))
    \<and> set ds \<subseteq> set (klist k' (LEvent e))
    \<and> (\<forall>t \<in> set ts. t \<notin> set (klist k' (LEvent e)) \<longrightarrow> error (threads k' t) = RT_EOK \<and> need)
    \<and> (\<forall>t. t \<notin> set ts \<longrightarrow> threads k' t = threads k t)
    \<and> (\<forall>t. event_info (threads k' t) = event_info (threads k t))
    \<and> (\<forall>d. event_flag (events k' d) = event_flag (events k d))"

lemma event_scan_need: "event_scan ts e True k = (bad, need', k') \<Longrightarrow> \<not> bad \<Longrightarrow> need'"
  by (induction ts arbitrary: k) (auto simp: Let_def split: if_splits)

lemma event_scan_ok:
  assumes "base_ok k" "klist k (LEvent e) = ds @ ts" "\<forall>t \<in> set ts. event_mode (event_info (threads k t))"
    and "\<forall>t \<in> set ds. \<not> satisfied k e t"
    and "event_scan ts e need k = (bad, need', k')"
  shows "\<not> bad \<and> scan_post e ds ts k need' k'"
  using assms
proof (induction ts arbitrary: k ds need)
  case Nil
  then show ?case by (auto simp: scan_post_def)
next
  case (Cons t ts)
  let ?want = "event_set (threads k t)" and ?info = "event_info (threads k t)" and ?bits = "event_bits (events k e)"
  have st: "is_suspended k t" using listed_suspended [OF Cons.prems(1) wait_list_simps(3), of t e] Cons.prems(2) by simp
  have "distinct (klist k (LEvent e))" using Cons.prems(1) by (simp add: base_ok_def sched_ex_def lists_ok_def)
  then have dis: "t \<notin> set ds" "t \<notin> set ts" unfolding Cons.prems(2) by auto
  show ?case
  proof (cases "satisfied k e t")
    case False
    then have "event_scan (t # ts) e need k = event_scan ts e need k"
      using Cons.prems(3) by (auto simp: event_match_def event_mode_def Let_def)
    then have s: "event_scan ts e need k = (bad, need', k')" using Cons.prems(5) by simp
    have "\<not> bad \<and> scan_post e (ds @ [t]) ts k need' k'"
      by (rule Cons.IH [OF Cons.prems(1) _ _ _ s]) (use Cons.prems(2,3,4) False in auto)
    then show ?thesis unfolding scan_post_def by auto
  next
    case True
    define k1 where "k1 = (if ?info AND RT_EVENT_FLAG_AND \<noteq> 0 then k
      else upd_thread t (\<lambda>r. r\<lparr>event_set := ?want AND ?bits\<rparr>) k)"
    have s: "event_scan ts e True (event_wake e t k1) = (bad, need', k')"
      using Cons.prems(3,5) True unfolding k1_def by (auto simp: event_match_def event_mode_def Let_def split: if_splits)
    have 1: "base_ok k1" "is_suspended k1 t" "advances k k1" "klist k1 = klist k" "events k1 = events k"
      "u \<noteq> t \<Longrightarrow> threads k1 u = threads k u" "event_info (threads k1 u) = event_info (threads k u)"
      "current k1 = current k" for u
      using Cons.prems(1) st by (simp_all add: k1_def)
    let ?k = "event_wake e t k1"
    note w = event_wake_ok [OF 1(1,2), where e = e]
    have l: "klist ?k (LEvent e) = ds @ ts" using w(3) [OF wait_list_simps(3)] 1(4) Cons.prems(2) dis by simp
    have ev: "event_info (threads ?k u) = event_info (threads k u)" for u using w(8) 1(7) by simp
    have es: "u \<noteq> t \<Longrightarrow> threads ?k u = threads k u" for u using w(5) 1(6) by simp
    have sat: "\<not> satisfied ?k e u" if "u \<in> set ds" for u
    proof -
      have "u \<noteq> t" using that dis by auto
      moreover have "\<not> satisfied k e u" using Cons.prems(4) that by blast
      moreover have "event_bits (events ?k e) AND event_bits (events k e) = event_bits (events ?k e)"
        using w(9) 1(5) by simp
      ultimately show ?thesis using es [of u] event_match_mono by metis
    qed
    have post: "\<not> bad \<and> scan_post e ds ts ?k need' k'"
      by (rule Cons.IH [OF w(1) l _ _ s]) (use Cons.prems(3) sat ev in auto)
    have n: "need'" using event_scan_need [OF s] post by blast
    have adv: "advances k k'"
      using post advances_trans [OF 1(3) advances_trans [OF w(2)]] unfolding scan_post_def by blast
    have "error (threads k' t) = RT_EOK" using post w(6) dis(2) unfolding scan_post_def by simp
    moreover have "event_flag (events k' d) = event_flag (events k d)" for d
      using post w(10) [of d] 1(5) unfolding scan_post_def by simp
    ultimately show ?thesis
      using post n adv es ev w(4) 1(8) unfolding scan_post_def by auto
  qed
qed

lemma event_send_ok:
  fixes e bits k
  assumes k: "event_ok e k" and z: "bits \<noteq> 0"
  defines "k' \<equiv> snd (rt_event_send e bits k)"
  shows "fst (rt_event_send e bits k) = RT_EOK" "event_ok e k'" "advances k k'"
    "set (klist k' (LEvent e)) \<subseteq> set (klist k (LEvent e))"
    "t \<in> set (klist k (LEvent e)) \<Longrightarrow> t \<notin> set (klist k' (LEvent e)) \<Longrightarrow>
       fst (rt_event_recv_resume t k') = RT_EOK"
proof -
  let ?k1 = "upd_event e (\<lambda>r. r\<lparr>event_bits := event_bits r OR bits\<rparr>) k"
  obtain bad need k2 where sc: "event_scan (klist ?k1 (LEvent e)) e False ?k1 = (bad, need, k2)"
    by (cases "event_scan (klist ?k1 (LEvent e)) e False ?k1")
  have k0: "kernel_ok k" "base_ok ?k1" using k by (simp_all add: event_ok_def kernel_ok_base)
  have "\<not> bad \<and> scan_post e [] (klist ?k1 (LEvent e)) ?k1 need k2"
    by (rule event_scan_ok [OF k0(2) _ _ _ sc]) (use k in \<open>simp_all add: event_ok_def\<close>)
  then have p: "\<not> bad" "scan_post e [] (klist k (LEvent e)) ?k1 need k2" by simp_all
  note p2 = p(2) [unfolded scan_post_def]
  have k2: "kernel_ok k2" using p2 k0(1) by (simp add: kernel_ok_base)
  have adv: "advances k k2" by (rule advances_trans [of _ ?k1]) (use p2 in simp_all)
  have e: "rt_event_send e bits k = (RT_EOK, if need then rt_schedule k2 else k2)"
    using z sc p(1) by (simp add: rt_event_send_def)
  have same: "klist k' (LEvent e) = klist k2 (LEvent e)" "events k' = events k2"
    "event_set (threads k' t) = event_set (threads k2 t)" "event_info (threads k' t) = event_info (threads k2 t)"
    "error (threads k' t) = error (threads k2 t)" for t
    using schedule_wait_lists [OF k2, of "LEvent e"] by (simp_all add: k'_def e)
  show "fst (rt_event_send e bits k) = RT_EOK" by (simp add: e)
  have "kernel_ok k'" using k2 advances_schedule(2) [OF k2] by (simp add: k'_def e)
  then show "event_ok e k'" using k p2 unfolding event_ok_def same by auto
  show "advances k k'" using adv advances_trans [OF adv advances_schedule(1) [OF k2]] by (simp add: k'_def e)
  show "set (klist k' (LEvent e)) \<subseteq> set (klist k (LEvent e))" using p2 unfolding same by auto
  show "fst (rt_event_recv_resume t k') = RT_EOK"
    if "t \<in> set (klist k (LEvent e))" "t \<notin> set (klist k' (LEvent e))"
    using that p2 unfolding rt_event_recv_resume_def same by auto
qed

lemma and_sub: "(b AND c) AND b = b AND c" for b c :: u32
  by (rule bit_word_eqI) (auto simp: bit_and_iff)

lemma match_flags: "event_mode opt \<Longrightarrow> (if opt AND RT_EVENT_FLAG_AND \<noteq> 0 then bits AND want = want
    else if opt AND RT_EVENT_FLAG_OR \<noteq> 0 then bits AND want \<noteq> 0 else False) = event_match opt want bits"
  by (auto simp: event_match_def event_mode_def word_bw_comms)

lemma event_recv_now:
  fixes e want opt timeout sf k t
  assumes k: "event_ok e k" and t: "current k = Some t" "tstate k t = RT_THREAD_RUNNING"
    and w: "want \<noteq> 0" "event_mode opt" and m: "event_match opt want (event_bits (events k e))"
  defines "k' \<equiv> snd (snd (rt_event_recv e want opt timeout sf k))"
  shows "fst (rt_event_recv e want opt timeout sf k) = Done RT_EOK"
    "fst (snd (rt_event_recv e want opt timeout sf k)) = Some (event_bits (events k e) AND want)"
    "event_ok e k'" "klist k' = klist k"
    "event_bits (events k' e) = (if opt AND RT_EVENT_FLAG_CLEAR \<noteq> 0
       then event_bits (events k e) AND NOT want else event_bits (events k e))"
proof -
  let ?k1 = "upd_thread t (\<lambda>r. r\<lparr>error := - RT_EINTR\<rparr>) k"
  let ?k2 = "upd_thread t (\<lambda>r. r\<lparr>error := RT_EOK, event_set := event_bits (events k e) AND want, event_info := opt\<rparr>) ?k1"
  let ?k3 = "if opt AND RT_EVENT_FLAG_CLEAR \<noteq> 0
    then upd_event e (\<lambda>r. r\<lparr>event_bits := event_bits r AND NOT want\<rparr>) ?k2 else ?k2"
  have r: "rt_event_recv e want opt timeout sf k = (Done RT_EOK, Some (event_bits (events k e) AND want), ?k3)"
    using w(1) t m unfolding rt_event_recv_def Let_def rt_thread_self_def match_flags [OF w(2)] by simp
  show "fst (rt_event_recv e want opt timeout sf k) = Done RT_EOK"
    "fst (snd (rt_event_recv e want opt timeout sf k)) = Some (event_bits (events k e) AND want)"
    "klist k' = klist k"
    by (simp_all add: k'_def r)
  show bits: "event_bits (events k' e) = (if opt AND RT_EVENT_FLAG_CLEAR \<noteq> 0
       then event_bits (events k e) AND NOT want else event_bits (events k e))"
    by (simp add: k'_def r)
  have kk: "kernel_ok k'" using k by (simp add: k'_def r event_ok_def)
  have b: "base_ok k" using k by (simp add: event_ok_def kernel_ok_base)
  have nt: "t \<notin> set (klist k (LEvent e))"
    using running_unlisted [of k "{}" t] b t by (simp add: base_ok_def)
  have le: "event_bits (events k' e) AND event_bits (events k e) = event_bits (events k' e)"
    unfolding bits by (simp add: and_sub)
  have "event_mode (event_info (threads k' u)) \<and> \<not> satisfied k' e u" if u: "u \<in> set (klist k (LEvent e))" for u
  proof -
    have "u \<noteq> t" using u nt by auto
    then have "threads k' u = threads k u" by (simp add: k'_def r)
    then show ?thesis using k u le event_match_mono unfolding event_ok_def by metis
  qed
  moreover have "klist k' = klist k" "event_flag (events k' e) = event_flag (events k e)" by (simp_all add: k'_def r)
  ultimately show "event_ok e k'" using k kk unfolding event_ok_def by simp
qed

lemma event_recv_waits:
  fixes e want opt timeout sf k t
  assumes k: "event_ok e k" and t: "current k = Some t" "tstate k t = RT_THREAD_RUNNING"
    and w: "want \<noteq> 0" "event_mode opt" "timeout \<noteq> 0" and m: "\<not> event_match opt want (event_bits (events k e))"
  defines "k' \<equiv> snd (snd (rt_event_recv e want opt timeout sf k))"
  shows "fst (rt_event_recv e want opt timeout sf k) = Waits" "event_ok e k'" "is_suspended k' t"
    "klist k' (LEvent e) = queued (event_flag (events k e)) (prio k) t (klist k (LEvent e))" "events k' = events k"
proof -
  let ?k1 = "upd_thread t (\<lambda>r. r\<lparr>error := - RT_EINTR\<rparr>) k"
  let ?k2 = "upd_thread t (\<lambda>r. r\<lparr>event_set := want, event_info := opt\<rparr>) ?k1"
  let ?k3 = "snd (ipc_list_suspend (LEvent e) t (event_flag (events k e)) sf ?k2)"
  let ?k4 = "if timeout > (0 :: int) then arm_timer t (word_of_int timeout) ?k3 else ?k3"
  have b: "base_ok ?k2" using k by (simp add: event_ok_def kernel_ok_base)
  have r: "tstate ?k2 t = RT_THREAD_READY \<or> tstate ?k2 t = RT_THREAD_RUNNING" using t by simp
  have f: "event_flag (events k e) = RT_IPC_FLAG_FIFO \<or> event_flag (events k e) = RT_IPC_FLAG_PRIO"
    using k by (simp add: event_ok_def)
  note s = list_suspend_ok [OF b r wait_list_simps(3) [of e] f, where sf = sf]
  have k3: "kernel_ok ?k3" using s(1,6) t by (simp add: kernel_ok_base)
  have st: "is_suspended ?k3 t" using s(3) by blast
  note bl = block_ok [OF k3 st, where timeout = timeout and n = "word_of_int timeout"]
  have e: "rt_event_recv e want opt timeout sf k = (Waits, None, rt_schedule ?k4)"
    using w(1,3) t m s(2) unfolding rt_event_recv_def Let_def rt_thread_self_def match_flags [OF w(2)]
    by (simp add: split_beta)
  have pp: "prio ?k2 = prio k" by (simp add: fun_eq_iff)
  show "fst (rt_event_recv e want opt timeout sf k) = Waits" by (simp add: e)
  show "is_suspended k' t" using bl(2) st by (simp add: k'_def e)
  show ev: "events k' = events k" unfolding k'_def e snd_conv bl(6) s(12) by simp
  show l: "klist k' (LEvent e) = queued (event_flag (events k e)) (prio k) t (klist k (LEvent e))"
    unfolding k'_def e snd_conv bl(3) [OF wait_list_simps(3)] s(4) pp by simp
  have "event_mode (event_info (threads k' u)) \<and> \<not> satisfied k' e u" if u: "u \<in> set (klist k' (LEvent e))" for u
  proof (cases "u = t")
    case True
    have "event_set (threads k' t) = want" "event_info (threads k' t) = opt"
      unfolding k'_def e snd_conv bl(8,9) s(16,17) by simp_all
    then show ?thesis using w(2) m True by (simp add: ev)
  next
    case False
    then have "u \<in> set (klist k (LEvent e))" using u by (auto simp: l queued_def split: if_splits)
    moreover have "event_set (threads k' u) = event_set (threads k u)" "event_info (threads k' u) = event_info (threads k u)"
      unfolding k'_def e snd_conv bl(8,9) s(16,17) using False by simp_all
    ultimately show ?thesis using k by (simp add: event_ok_def ev)
  qed
  then show "event_ok e k'" using f bl(1) unfolding event_ok_def ev by (simp add: k'_def e)
qed

section \<open>Properties\<close>

subsection \<open>Semaphores\<close>

lemma demo_sem_ok: "sem_ok s demo_kernel"
  using demo_kernel_kernel_ok
  by (simp add: sem_ok_def demo_kernel_def demo_ready_def rt_system_scheduler_start_def split_beta
      demo_threads_def blank_kernel_def rt_const)

lemma demo_sem_value: "sem_value (sems demo_kernel s) = 0" "sem_flag (sems demo_kernel s) = RT_IPC_FLAG_FIFO"
  "klist demo_kernel (LSem s) = []" "klist demo_kernel (LEvent s) = []" "events demo_kernel s = \<lparr>event_bits = 0, event_flag = 0\<rparr>"
  by (simp_all add: demo_kernel_def demo_ready_def rt_system_scheduler_start_def split_beta
      demo_threads_def blank_kernel_def rt_const insert_klist insert_threads demo_prio_def)



text \<open>A thread that waits for a semaphore is suspended in its list, behind the threads that came before
  or by priority, as the flag says; when it is the first and the semaphore is released, it is awake,
  out of the list, and its call returns RT_EOK without the count having changed.\<close>

theorem sem_handover:
  assumes "sem_ok s k" "sem_value (sems k s) = 0" "timeout \<noteq> 0" "current k = Some t"
    and "tstate k t = RT_THREAD_RUNNING" "klist k (LSem s) = []"
  shows "let (r, k1) = rt_sem_take s timeout sf k; (r', k2) = rt_sem_release s k1 in
    r = Waits \<and> is_suspended k1 t \<and> klist k1 (LSem s) = [t] \<and> r' = RT_EOK \<and> \<not> is_suspended k2 t
    \<and> klist k2 (LSem s) = [] \<and> rt_sem_take_resume t k2 = RT_EOK \<and> sems k2 = sems k"
proof -
  note w = sem_take_waits [OF assms(1-5), where sf = sf]
  have q: "klist (snd (rt_sem_take s timeout sf k)) (LSem s) = [t]"
    using w(5) assms(6) by (simp add: queued_def)
  note r = release_waiting [OF w(2) q]
  show ?thesis using w(1,3,4) q r(1,3,4,5,6) by (simp add: split_beta)
qed

theorem sem_handover_witness: "klist (snd (rt_sem_take 5 (-1) RT_UNINTERRUPTIBLE demo_kernel)) (LSem 5) = [0]"
  using sem_handover [OF demo_sem_ok, of 5 "-1" 0 RT_UNINTERRUPTIBLE] demo_kernel_facts demo_sem_value
  by (simp add: split_beta Let_def)

lemma thread_timeout_wait:
  assumes k: "kernel_ok k" and s: "is_suspended k t" and n: "TThread t \<notin> set (timer_list k)" and m: "wait_list m"
  shows "klist (thread_timeout t k) m = removeAll t (klist k m)" "error (threads (thread_timeout t k) t) = - RT_ETIMEOUT"
    "sems (thread_timeout t k) = sems k"
proof -
  let ?k1 = "upd_thread t (\<lambda>r. r\<lparr>error := - RT_ETIMEOUT\<rparr>) k"
  let ?k3 = "rt_schedule_insert_thread t (tlist_remove t ?k1)"
  have e: "thread_timeout t k = rt_schedule ?k3" by (simp add: thread_timeout_def Let_def)
  have b: "klist ?k3 m = removeAll t (klist k m)" using m by (auto simp: insert_klist wait_list_def)
  have k3: "kernel_ok ?k3" by (rule thread_timeout_ok(4) [OF k s n])
  show "klist (thread_timeout t k) m = removeAll t (klist k m)"
    unfolding e schedule_wait_lists [OF k3 m] by (rule b)
  show "error (threads (thread_timeout t k) t) = - RT_ETIMEOUT" "sems (thread_timeout t k) = sems k"
    by (simp_all add: e)
qed

text \<open>When the time of a thread that waits for a semaphore is over, \<open>_thread_timeout\<close> takes it out of the
  list and its call returns -RT_ETIMEOUT; the semaphore and the other waiting threads are unchanged.\<close>

theorem sem_timeout:
  assumes "sem_ok s k" "t \<in> set (klist k (LSem s))" "TThread t \<notin> set (timer_list k)"
  shows "let k' = thread_timeout t k in sem_ok s k' \<and> rt_sem_take_resume t k' = - RT_ETIMEOUT \<and> sems k' = sems k
    \<and> klist k' (LSem s) = removeAll t (klist k (LSem s)) \<and> \<not> is_suspended k' t"
proof -
  have k: "kernel_ok k" "base_ok k" using assms(1) by (simp_all add: sem_ok_def kernel_ok_base)
  have s: "is_suspended k t" by (rule listed_suspended [OF k(2) _ assms(2)]) simp
  note w = thread_timeout_wait [OF k(1) s assms(3) wait_list_simps(1) [of s]]
  note o = thread_timeout_ok [OF k(1) s assms(3)]
  show ?thesis using assms(1) o(1,3) w by (auto simp: Let_def sem_ok_def rt_sem_take_resume_def rt_const)
qed

theorem sem_timeout_witness:
  "let k = snd (rt_sem_take 5 (-1) RT_UNINTERRUPTIBLE demo_kernel) in rt_sem_take_resume 0 (thread_timeout 0 k) = - RT_ETIMEOUT"
proof -
  let ?k = "snd (rt_sem_take 5 (-1) RT_UNINTERRUPTIBLE demo_kernel)"
  have w: "sem_ok 5 ?k" "klist ?k (LSem 5) = [0]"
    using sem_take_waits [OF demo_sem_ok, of 5 "-1" 0] demo_kernel_facts demo_sem_value by (simp_all add: queued_def)
  have "timer_list ?k = []"
    using sem_take_waits(9) [OF demo_sem_ok, of 5 "-1" 0] demo_kernel_facts demo_sem_value by (simp add: demo_kernel_timers)
  then show ?thesis using sem_timeout [OF w(1), of 0] w(2) by (simp add: Let_def)
qed

text \<open>In a list ordered by priority a thread is put behind the threads of its own or a higher priority
  and before all others, so the list stays sorted.\<close>

theorem prio_queue_sorted:
  assumes "sorted (map (prio k) ts)"
  shows "sorted (map (prio k) (queued RT_IPC_FLAG_PRIO (prio k) t ts))
    \<and> queued RT_IPC_FLAG_PRIO (prio k) t ts = takeWhile (\<lambda>u. prio k u \<le> prio k t) ts @ t # dropWhile (\<lambda>u. prio k u \<le> prio k t) ts"
proof -
  have "prio_insert p t ts = takeWhile (\<lambda>u. p u \<le> p t) ts @ t # dropWhile (\<lambda>u. p u \<le> p t) ts" for p
    by (induction ts) auto
  moreover have "queued RT_IPC_FLAG_PRIO (prio k) t ts = prio_insert (prio k) t ts" by (simp add: queued_def rt_const)
  ultimately show ?thesis using prio_insert_sorted [OF assms, of t] by metis
qed

theorem prio_queue_sorted_witness: "sorted (map (prio demo_kernel) (queued RT_IPC_FLAG_PRIO (prio demo_kernel) 0 []))"
  using prio_queue_sorted [of demo_kernel "[]" 0] by simp

text \<open>Detaching a semaphore returns, with the list of waiting threads empty and every one of them awake
  to return -RT_ERROR.\<close>

theorem sem_detach_returns:
  assumes "kernel_ok k"
  shows "\<exists>k'. rt_sem_detach s k = Some (RT_EOK, k') \<and> kernel_ok k' \<and> klist k' (LSem s) = []
    \<and> (\<forall>t \<in> set (klist k (LSem s)). \<not> is_suspended k' t \<and> rt_sem_take_resume t k' = - RT_ERROR)"
proof -
  have b: "base_ok k" using assms by (simp add: kernel_ok_base)
  obtain k' where "ipc_list_resume_all (LSem s) k = Some k'" "base_ok k'" "klist k' (LSem s) = []" "current k' = current k"
    "\<forall>t \<in> set (klist k (LSem s)). \<not> is_suspended k' t \<and> error (threads k' t) = - RT_ERROR"
    using resume_all_ok [OF b wait_list_simps(1), of s] by blast
  then show ?thesis using assms
    by (auto simp: rt_sem_detach_def kernel_ok_base rt_sem_take_resume_def rt_const)
qed

theorem sem_detach_returns_witness: "\<exists>k'. rt_sem_detach 5 demo_kernel = Some (RT_EOK, k')"
  using sem_detach_returns [OF demo_kernel_kernel_ok, of 5] by blast

subsection \<open>Events\<close>


lemma demo_event_ok: "event_ok e demo_kernel"
  using demo_kernel_kernel_ok by (simp add: event_ok_def demo_sem_value rt_const)


text \<open>rt_event_recv returns at once with the bits that are there if they match what is wanted, and
  clears what it wanted if asked to; otherwise, with a time given, the thread waits in the list of
  the event.\<close>

theorem event_recv_result:
  assumes "event_ok e k" "current k = Some t" "tstate k t = RT_THREAD_RUNNING" "want \<noteq> 0" "event_mode opt" "timeout \<noteq> 0"
  shows "let (r, v, k') = rt_event_recv e want opt timeout sf k; bits = event_bits (events k e) in event_ok e k' \<and>
    (if event_match opt want bits
     then r = Done RT_EOK \<and> v = Some (bits AND want)
       \<and> event_bits (events k' e) = (if opt AND RT_EVENT_FLAG_CLEAR \<noteq> 0 then bits AND NOT want else bits)
     else r = Waits \<and> is_suspended k' t \<and> t \<in> set (klist k' (LEvent e)) \<and> events k' = events k)"
proof (cases "event_match opt want (event_bits (events k e))")
  case True
  show ?thesis using event_recv_now [OF assms(1-5) True, where timeout = timeout and sf = sf] True by (simp add: split_beta Let_def)
next
  case False
  note w = event_recv_waits [OF assms False, where sf = sf]
  have "t \<in> set (klist (snd (snd (rt_event_recv e want opt timeout sf k))) (LEvent e))"
    unfolding w(4) by (simp add: queued_def)
  then show ?thesis using w False by (simp add: split_beta Let_def)
qed

theorem event_recv_result_witness: "fst (rt_event_recv 3 6 2 (-1) RT_UNINTERRUPTIBLE demo_kernel) = Waits"
  using event_recv_result [OF demo_event_ok, of 0 6 2 "-1" 3 RT_UNINTERRUPTIBLE] demo_kernel_facts
  by (simp add: split_beta Let_def demo_sem_value event_match_def event_mode_def rt_const)

text \<open>A thread that waits with neither RT_EVENT_FLAG_AND nor RT_EVENT_FLAG_OR, which rt_event_recv lets in,
  makes every rt_event_send fail while it is first in the list: the bits are set, nobody is woken, and
  the call returns -RT_EINVAL.\<close>

theorem event_send_blocked:
  assumes "klist k (LEvent e) = t # ts" "\<not> event_mode (event_info (threads k t))" "bits \<noteq> 0"
  shows "rt_event_send e bits k = (- RT_EINVAL, upd_event e (\<lambda>r. r\<lparr>event_bits := event_bits r OR bits\<rparr>) k)"
  using assms by (simp add: rt_event_send_def event_mode_def Let_def)

theorem event_send_blocked_witness:
  "fst (rt_event_send 3 1 (demo_kernel\<lparr>klist := (klist demo_kernel)(LEvent 3 := [1])\<rparr>)) = - RT_EINVAL"
proof -
  have "event_info (threads demo_kernel 1) = 0"
    by (simp add: demo_kernel_def demo_ready_def rt_system_scheduler_start_def split_beta demo_threads_def
        insert_threads blank_kernel_def blank_thread_def)
  then show ?thesis
    using event_send_blocked [of "demo_kernel\<lparr>klist := (klist demo_kernel)(LEvent 3 := [1])\<rparr>" 3 1 "[]" 1]
    by (simp add: event_mode_def)
qed

end
