(* ===== verification/Mutex.thy ===== *)
theory Mutex
  imports Ipc
begin

text \<open>
  The mutexes of src/ipc.c: recursive ownership, wait lists by priority, priority inheritance along the
  chain of owners, priority ceilings. Where the code follows \<open>mutex->owner\<close> without a test the model
  yields None if there is no owner; so does a chain of updates that does not end.
\<close>

section \<open>Operations\<close>

definition RT_MUTEX_HOLD_MAX :: u8 where [rt_const]: "RT_MUTEX_HOLD_MAX = 0xFF"

text \<open>The value 0xff of a priority: no thread waits, or no ceiling is set.\<close>

definition NO_PRIORITY :: nat where [rt_const]: "NO_PRIORITY = 255"

definition upd_mutex :: "nat \<Rightarrow> (rt_mutex \<Rightarrow> rt_mutex) \<Rightarrow> kernel \<Rightarrow> kernel" where
  "upd_mutex m f k = k\<lparr>mutexes := (mutexes k)(m := f (mutexes k m))\<rparr>"

definition mutex_update_priority :: "nat \<Rightarrow> kernel \<Rightarrow> kernel" where
  "mutex_update_priority m k = upd_mutex m (\<lambda>r. r\<lparr>mutex_priority :=
     (if klist k (LMutex m) \<noteq> [] then prio k (hd (klist k (LMutex m))) else NO_PRIORITY)\<rparr>) k"

definition thread_get_mutex_priority :: "nat \<Rightarrow> kernel \<Rightarrow> nat" where
  "thread_get_mutex_priority t k =
     fold (\<lambda>m priority.
       let mutex_prio = (if mutex_priority (mutexes k m) < ceiling_priority (mutexes k m)
                         then mutex_priority (mutexes k m) else ceiling_priority (mutexes k m))
       in if priority > mutex_prio then mutex_prio else priority)
       (taken_object_list (threads k t)) (init_priority (threads k t))"

partial_function (option) thread_update_priority :: "nat \<Rightarrow> nat \<Rightarrow> suspend_flag \<Rightarrow> kernel \<Rightarrow> kernel option" where
  "thread_update_priority t p sf k =
     (let k1 = change_priority t p k
      in if is_suspended k1 t then
           (case pending_object (threads k1 t) of
              None \<Rightarrow> Some k1
            | Some m \<Rightarrow>
                (let k2 = tlist_remove t k1;
                     (ret, k3) = ipc_list_suspend (LMutex m) t RT_IPC_FLAG_PRIO sf k2
                 in if ret \<noteq> RT_EOK then Some k3
                    else let k4 = mutex_update_priority m k3
                         in (case mutex_owner (mutexes k4 m) of
                               None \<Rightarrow> None
                             | Some ow \<Rightarrow>
                                 (let mp = thread_get_mutex_priority ow k4
                                  in if mp \<noteq> prio k4 ow then thread_update_priority ow mp sf k4
                                     else Some k4))))
         else Some k1)"

definition rt_mutex_init :: "nat \<Rightarrow> kernel \<Rightarrow> rt_err_t \<times> kernel" where
  "rt_mutex_init m k = (RT_EOK, upd_mutex m (\<lambda>_. \<lparr>mutex_owner = None, mutex_priority = NO_PRIORITY,
     hold = 0, ceiling_priority = NO_PRIORITY\<rparr>) (ipc_object_init (LMutex m) k))"

text \<open>Taking the node of a mutex out of the list of mutexes its owner has taken.\<close>

definition taken_remove :: "nat \<Rightarrow> kernel \<Rightarrow> kernel" where
  "taken_remove m k = k\<lparr>threads := (\<lambda>t. (threads k t)\<lparr>taken_object_list := removeAll m (taken_object_list (threads k t))\<rparr>)\<rparr>"

definition rt_mutex_detach :: "nat \<Rightarrow> kernel \<Rightarrow> (rt_err_t \<times> kernel) option" where
  "rt_mutex_detach m k = map_option (\<lambda>k'. (RT_EOK, taken_remove m k')) (ipc_list_resume_all (LMutex m) k)"

text \<open>
  Common to rt_mutex_drop_thread and the failing end of \<open>_rt_mutex_take\<close>: the waiting thread \<open>t\<close> has left
  the list, so the priority of the mutex, and of its owner, may have to be lowered.
\<close>

definition mutex_waiter_gone :: "nat \<Rightarrow> nat \<Rightarrow> kernel \<Rightarrow> kernel option" where
  "mutex_waiter_gone m t k =
     (case mutex_owner (mutexes k m) of
        None \<Rightarrow> None
      | Some ow \<Rightarrow>
          (let need_update = (prio k ow = prio k t);
               k1 = mutex_update_priority m k
           in if need_update then
                (let p = thread_get_mutex_priority ow k1
                 in if p \<noteq> prio k1 ow then thread_update_priority ow p RT_UNINTERRUPTIBLE k1 else Some k1)
              else Some k1))"

definition rt_mutex_drop_thread :: "nat \<Rightarrow> nat \<Rightarrow> kernel \<Rightarrow> kernel option" where
  "rt_mutex_drop_thread m t k = mutex_waiter_gone m t (tlist_remove t k)"

definition rt_mutex_setprioceiling :: "nat \<Rightarrow> nat \<Rightarrow> kernel \<Rightarrow> (nat \<times> kernel) option" where
  "rt_mutex_setprioceiling m p k =
     (if p < RT_THREAD_PRIORITY_MAX then
        let ret = ceiling_priority (mutexes k m);
            k1 = upd_mutex m (\<lambda>r. r\<lparr>ceiling_priority := p\<rparr>) k
        in (case mutex_owner (mutexes k1 m) of
              None \<Rightarrow> Some (ret, k1)
            | Some ow \<Rightarrow>
                (let mp = thread_get_mutex_priority ow k1
                 in if mp \<noteq> prio k1 ow
                    then map_option (Pair ret) (thread_update_priority ow mp RT_UNINTERRUPTIBLE k1)
                    else Some (ret, k1)))
      else Some (NO_PRIORITY, k))"

definition rt_mutex_getprioceiling :: "nat \<Rightarrow> kernel \<Rightarrow> nat" where
  "rt_mutex_getprioceiling m k = ceiling_priority (mutexes k m)"

definition taken_insert :: "nat \<Rightarrow> nat \<Rightarrow> kernel \<Rightarrow> kernel" where
  "taken_insert t m k = upd_thread t (\<lambda>r. r\<lparr>taken_object_list := m # taken_object_list r\<rparr>) k"

definition rt_mutex_take :: "nat \<Rightarrow> int \<Rightarrow> suspend_flag \<Rightarrow> kernel \<Rightarrow> (blocking \<times> kernel) option" where
  "rt_mutex_take m timeout sf k =
     (let t = the (rt_thread_self k);
          k1 = upd_thread t (\<lambda>r. r\<lparr>error := RT_EOK\<rparr>) k
      in case mutex_owner (mutexes k1 m) of
           None \<Rightarrow>
             (let k2 = upd_mutex m (\<lambda>r. r\<lparr>mutex_owner := Some t, mutex_priority := NO_PRIORITY, hold := 1\<rparr>) k1;
                  ceiling = ceiling_priority (mutexes k2 m)
              in map_option (\<lambda>k3. (Done RT_EOK, taken_insert t m k3))
                   (if ceiling \<noteq> NO_PRIORITY \<and> ceiling < prio k2 t then thread_update_priority t ceiling sf k2
                    else Some k2))
         | Some ow \<Rightarrow>
             (if ow = t then
                (if hold (mutexes k1 m) < RT_MUTEX_HOLD_MAX
                 then Some (Done RT_EOK, upd_mutex m (\<lambda>r. r\<lparr>hold := hold r + 1\<rparr>) k1)
                 else Some (Done (- RT_EFULL), k1))
              else if timeout = 0 then
                Some (Done (- RT_ETIMEOUT), upd_thread t (\<lambda>r. r\<lparr>error := - RT_ETIMEOUT\<rparr>) k1)
              else
                (let priority = prio k1 t;
                     (ret, k2) = ipc_list_suspend (LMutex m) t RT_IPC_FLAG_PRIO sf k1
                 in if ret \<noteq> RT_EOK then Some (Done ret, k2)
                    else
                      let k3 = upd_thread t (\<lambda>r. r\<lparr>pending_object := Some m\<rparr>) k2;
                          k4 = (if priority < mutex_priority (mutexes k3 m)
                                then let k' = upd_mutex m (\<lambda>r. r\<lparr>mutex_priority := priority\<rparr>) k3
                                     in if priority < prio k' ow
                                        then thread_update_priority ow priority RT_UNINTERRUPTIBLE k' else Some k'
                                else Some k3)
                      in map_option (\<lambda>k5. (Waits,
                           rt_schedule (if timeout > 0 then arm_timer t (word_of_int timeout) k5 else k5))) k4)))"

text \<open>The end of the call of a thread \<open>t\<close> that waited.\<close>

definition rt_mutex_take_resume :: "nat \<Rightarrow> nat \<Rightarrow> kernel \<Rightarrow> (rt_err_t \<times> kernel) option" where
  "rt_mutex_take_resume m t k =
     (if error (threads k t) = RT_EOK then Some (RT_EOK, k)
      else map_option (\<lambda>k'. (error (threads k' t), k')) (mutex_waiter_gone m t k))"

definition rt_mutex_trytake :: "nat \<Rightarrow> kernel \<Rightarrow> (blocking \<times> kernel) option" where
  "rt_mutex_trytake m k = rt_mutex_take m 0 RT_UNINTERRUPTIBLE k"

definition rt_mutex_release :: "nat \<Rightarrow> kernel \<Rightarrow> rt_err_t \<times> kernel" where
  "rt_mutex_release m k =
     (let t = the (rt_thread_self k)
      in if mutex_owner (mutexes k m) \<noteq> Some t
         then (- RT_ERROR, upd_thread t (\<lambda>r. r\<lparr>error := - RT_ERROR\<rparr>) k)
         else
           let k1 = upd_mutex m (\<lambda>r. r\<lparr>hold := hold r - 1\<rparr>) k
           in if hold (mutexes k1 m) = 0 then
                let k2 = taken_remove m k1;
                    lower = (ceiling_priority (mutexes k2 m) \<noteq> NO_PRIORITY \<or> prio k2 t = mutex_priority (mutexes k2 m));
                    k3 = (if lower then change_priority t (thread_get_mutex_priority t k2) k2 else k2)
                in (case klist k3 (LMutex m) of
                      next_thread # _ \<Rightarrow>
                        (let k4 = tlist_remove next_thread k3;
                             k5 = upd_mutex m (\<lambda>r. r\<lparr>mutex_owner := Some next_thread, hold := 1\<rparr>) k4;
                             k6 = taken_insert next_thread m k5;
                             k7 = upd_thread next_thread (\<lambda>r. r\<lparr>pending_object := None\<rparr>) k6;
                             k8 = snd (rt_thread_resume next_thread k7)
                         in (RT_EOK, rt_schedule (mutex_update_priority m k8)))
                    | [] \<Rightarrow>
                        (let k4 = upd_mutex m (\<lambda>r. r\<lparr>mutex_owner := None, mutex_priority := NO_PRIORITY\<rparr>) k3
                         in (RT_EOK, if lower then rt_schedule k4 else k4)))
              else (RT_EOK, k1))"

definition rt_mutex_control :: "nat \<Rightarrow> kernel \<Rightarrow> rt_err_t \<times> kernel" where
  "rt_mutex_control m k = (- RT_ERROR, k)"

section \<open>Projections\<close>

lemma upd_mutex_sel [simp]:
  "threads (upd_mutex m f k) = threads k" "klist (upd_mutex m f k) = klist k" "ready_group (upd_mutex m f k) = ready_group k"
  "current (upd_mutex m f k) = current k" "lock_nest (upd_mutex m f k) = lock_nest k" "rt_tick (upd_mutex m f k) = rt_tick k"
  "timers (upd_mutex m f k) = timers k" "timer_list (upd_mutex m f k) = timer_list k" "expiring (upd_mutex m f k) = expiring k"
  "mutexes (upd_mutex m f k) = (mutexes k)(m := f (mutexes k m))" "sems (upd_mutex m f k) = sems k" "events (upd_mutex m f k) = events k"
  "is_suspended (upd_mutex m f k) = is_suspended k" "tstate (upd_mutex m f k) = tstate k"
  "base_ok (upd_mutex m f k) = base_ok k" "kernel_ok (upd_mutex m f k) = kernel_ok k"
  by (simp_all add: upd_mutex_def klist_frame is_suspended_def tstate_def fun_eq_iff)

lemma mup_sel [simp]:
  "threads (mutex_update_priority m k) = threads k" "klist (mutex_update_priority m k) = klist k"
  "current (mutex_update_priority m k) = current k" "rt_tick (mutex_update_priority m k) = rt_tick k"
  "timers (mutex_update_priority m k) = timers k" "timer_list (mutex_update_priority m k) = timer_list k"
  "lock_nest (mutex_update_priority m k) = lock_nest k" "sems (mutex_update_priority m k) = sems k"
  "events (mutex_update_priority m k) = events k" "is_suspended (mutex_update_priority m k) = is_suspended k"
  "tstate (mutex_update_priority m k) = tstate k"
  "base_ok (mutex_update_priority m k) = base_ok k" "kernel_ok (mutex_update_priority m k) = kernel_ok k"
  "mutex_owner (mutexes (mutex_update_priority m k) n) = mutex_owner (mutexes k n)"
  "hold (mutexes (mutex_update_priority m k) n) = hold (mutexes k n)"
  "ceiling_priority (mutexes (mutex_update_priority m k) n) = ceiling_priority (mutexes k n)"
  "n \<noteq> m \<Longrightarrow> mutexes (mutex_update_priority m k) n = mutexes k n"
  "mutex_priority (mutexes (mutex_update_priority m k) m) =
     (if klist k (LMutex m) \<noteq> [] then prio k (hd (klist k (LMutex m))) else NO_PRIORITY)"
  by (simp_all add: mutex_update_priority_def)

lemma change_fields [simp]:
  "error (threads (change_priority t p k) u) = error (threads k u)"
  "init_priority (threads (change_priority t p k) u) = init_priority (threads k u)"
  "taken_object_list (threads (change_priority t p k) u) = taken_object_list (threads k u)"
  "pending_object (threads (change_priority t p k) u) = pending_object (threads k u)"
  "event_set (threads (change_priority t p k) u) = event_set (threads k u)"
  "event_info (threads (change_priority t p k) u) = event_info (threads k u)"
  "events (change_priority t p k) = events k" "interrupt_nest (change_priority t p k) = interrupt_nest k"
  "expiring (change_priority t p k) = expiring k"
  by (simp_all add: change_priority_def Let_def)

lemma change_prio: "prio (change_priority t p k) = (prio k)(t := p)"
  by (auto simp: change_priority_def Let_def fun_eq_iff)

lemma change_prio_at: "prio (change_priority t p k) u = (if u = t then p else prio k u)"
  using fun_cong [OF change_prio, of t p k u] by simp

lemma taken_remove_sel [simp]:
  "klist (taken_remove m k) = klist k" "ready_group (taken_remove m k) = ready_group k"
  "current (taken_remove m k) = current k" "lock_nest (taken_remove m k) = lock_nest k"
  "rt_tick (taken_remove m k) = rt_tick k" "timers (taken_remove m k) = timers k"
  "timer_list (taken_remove m k) = timer_list k" "expiring (taken_remove m k) = expiring k"
  "mutexes (taken_remove m k) = mutexes k" "sems (taken_remove m k) = sems k" "events (taken_remove m k) = events k"
  "is_suspended (taken_remove m k) = is_suspended k" "tstate (taken_remove m k) = tstate k"
  "prio (taken_remove m k) = prio k" "taken_object_list (threads (taken_remove m k) t) = removeAll m (taken_object_list (threads k t))"
  "init_priority (threads (taken_remove m k) t) = init_priority (threads k t)"
  "pending_object (threads (taken_remove m k) t) = pending_object (threads k t)"
  "error (threads (taken_remove m k) t) = error (threads k t)"
  by (simp_all add: taken_remove_def is_suspended_def tstate_def fun_eq_iff)

lemma taken_remove_ok [simp]: "base_ok (taken_remove m k) = base_ok k"
proof -
  have "number_mask (threads (taken_remove m k) u) = number_mask (threads k u)"
    "current_priority (threads (taken_remove m k) u) = current_priority (threads k u)" for u
    by (simp_all add: taken_remove_def)
  then show ?thesis
    by (simp add: base_ok_def sched_ex_def thread_ok_def prio_ok_def timers_ok_def timer_set_def)
qed

lemma upd_mutex_fields [simp]:
  "is_suspended (upd_thread t (\<lambda>r. r\<lparr>pending_object := v\<rparr>) k) = is_suspended k"
  "tstate (upd_thread t (\<lambda>r. r\<lparr>pending_object := v\<rparr>) k) = tstate k"
  "base_ok (upd_thread t (\<lambda>r. r\<lparr>pending_object := v\<rparr>) k) = base_ok k"
  "kernel_ok (upd_thread t (\<lambda>r. r\<lparr>pending_object := v\<rparr>) k) = kernel_ok k"
  "is_suspended (taken_insert t m k) = is_suspended k" "tstate (taken_insert t m k) = tstate k"
  "base_ok (taken_insert t m k) = base_ok k" "kernel_ok (taken_insert t m k) = kernel_ok k"
  unfolding taken_insert_def by (rule upd_thread_frame; simp)+

section \<open>The invariant of the mutexes\<close>

definition mutex_cap :: "kernel \<Rightarrow> nat \<Rightarrow> nat" where
  "mutex_cap k m = min (mutex_priority (mutexes k m)) (ceiling_priority (mutexes k m))"

lemma fold_min: "fold (\<lambda>m p. min p (w m)) ms i = Min (insert i (w ` set ms))" for i :: nat
proof (induction ms arbitrary: i)
  case (Cons m ms)
  have "Min (insert (min i (w m)) (w ` set ms)) = Min (insert i (insert (w m) (w ` set ms)))"
    by (cases "set ms = {}") (simp_all add: min.assoc)
  then show ?case using Cons by simp
qed simp

text \<open>The priority a thread is due: the best of its own and those of the mutexes it holds.\<close>

lemma get_priority_Min:
  "thread_get_mutex_priority t k
    = Min (insert (init_priority (threads k t)) (mutex_cap k ` set (taken_object_list (threads k t))))"
proof -
  have "(\<lambda>m priority.
       let mutex_prio = (if mutex_priority (mutexes k m) < ceiling_priority (mutexes k m)
                         then mutex_priority (mutexes k m) else ceiling_priority (mutexes k m))
       in if priority > mutex_prio then mutex_prio else priority) = (\<lambda>m p. min p (mutex_cap k m))"
    by (auto simp: fun_eq_iff mutex_cap_def Let_def min_def)
  then show ?thesis by (simp add: thread_get_mutex_priority_def fold_min)
qed

definition own_ok :: "kernel \<Rightarrow> bool" where
  "own_ok k \<longleftrightarrow> (\<forall>m t. mutex_owner (mutexes k m) = Some t \<longleftrightarrow> m \<in> set (taken_object_list (threads k t)))
     \<and> (\<forall>m. hold (mutexes k m) = 0 \<longleftrightarrow> mutex_owner (mutexes k m) = None)"

definition waiters_ok :: "kernel \<Rightarrow> bool" where
  "waiters_ok k \<longleftrightarrow> (\<forall>m. klist k (LMutex m) \<noteq> [] \<longrightarrow> mutex_owner (mutexes k m) \<noteq> None)
     \<and> (\<forall>m t. t \<in> set (klist k (LMutex m)) \<longrightarrow> pending_object (threads k t) = Some m)
     \<and> (\<forall>m t. is_suspended k t \<longrightarrow> pending_object (threads k t) = Some m \<longrightarrow> t \<in> set (klist k (LMutex m)))
     \<and> (\<forall>m. sorted (map (prio k) (klist k (LMutex m))))"

text \<open>The priority field of a mutex is that of its first waiting thread.\<close>

definition head_ok :: "kernel \<Rightarrow> bool" where
  "head_ok k \<longleftrightarrow> (\<forall>m. mutex_priority (mutexes k m)
     = (if klist k (LMutex m) \<noteq> [] then prio k (hd (klist k (LMutex m))) else NO_PRIORITY))"

text \<open>Every thread outside \<open>X\<close> runs at the priority it is due.\<close>

definition inherit_ok :: "kernel \<Rightarrow> nat set \<Rightarrow> bool" where
  "inherit_ok k X \<longleftrightarrow> (\<forall>t. init_priority (threads k t) < RT_THREAD_PRIORITY_MAX)
     \<and> (\<forall>t. t \<notin> X \<longrightarrow> prio k t = thread_get_mutex_priority t k)"

definition mutex_inv :: "kernel \<Rightarrow> nat set \<Rightarrow> bool" where
  "mutex_inv k X \<longleftrightarrow> base_ok k \<and> own_ok k \<and> waiters_ok k \<and> head_ok k \<and> inherit_ok k X"

text \<open>Who waits for whom; without a deadlock the waits can be ranked.\<close>

definition ranked :: "(nat \<Rightarrow> nat) \<Rightarrow> kernel \<Rightarrow> bool" where
  "ranked rank k \<longleftrightarrow> (\<forall>t m ow. is_suspended k t \<longrightarrow> pending_object (threads k t) = Some m \<longrightarrow>
     mutex_owner (mutexes k m) = Some ow \<longrightarrow> rank ow < rank t)"

text \<open>What an update of priorities leaves alone.\<close>

definition prio_frame :: "kernel \<Rightarrow> kernel \<Rightarrow> bool" where
  "prio_frame k k' \<longleftrightarrow> current k' = current k \<and> is_suspended k' = is_suspended k \<and> tstate k' = tstate k
     \<and> timer_list k' = timer_list k \<and> timers k' = timers k \<and> rt_tick k' = rt_tick k \<and> lock_nest k' = lock_nest k
     \<and> sems k' = sems k \<and> events k' = events k
     \<and> (\<forall>m. mutex_owner (mutexes k' m) = mutex_owner (mutexes k m) \<and> hold (mutexes k' m) = hold (mutexes k m)
          \<and> ceiling_priority (mutexes k' m) = ceiling_priority (mutexes k m))
     \<and> (\<forall>t. error (threads k' t) = error (threads k t) \<and> pending_object (threads k' t) = pending_object (threads k t)
          \<and> taken_object_list (threads k' t) = taken_object_list (threads k t)
          \<and> init_priority (threads k' t) = init_priority (threads k t))
     \<and> (\<forall>l. wait_list l \<longrightarrow> set (klist k' l) = set (klist k l))"

lemma prio_frame_refl [simp]: "prio_frame k k" by (simp add: prio_frame_def)

lemma prio_frame_trans: "prio_frame k k' \<Longrightarrow> prio_frame k' k'' \<Longrightarrow> prio_frame k k''"
  by (simp add: prio_frame_def)

lemma get_priority_bound:
  assumes "inherit_ok k X"
  shows "thread_get_mutex_priority t k < RT_THREAD_PRIORITY_MAX"
proof -
  have "thread_get_mutex_priority t k \<le> init_priority (threads k t)" by (simp add: get_priority_Min)
  then show ?thesis using assms le_less_trans unfolding inherit_ok_def by blast
qed

lemma get_priority_cong:
  assumes "taken_object_list (threads k' t) = taken_object_list (threads k t)"
    and "init_priority (threads k' t) = init_priority (threads k t)"
    and "\<And>m. m \<in> set (taken_object_list (threads k t)) \<Longrightarrow> mutex_cap k' m = mutex_cap k m"
  shows "thread_get_mutex_priority t k' = thread_get_mutex_priority t k"
  unfolding get_priority_Min assms(1,2) using assms(3) by (simp cong: image_cong)

section \<open>Priority inheritance\<close>

lemma permute_list_ok:
  assumes b: "base_ok k" and l: "wait_list l" and ts: "set ts = set (klist k l)" "distinct ts"
  shows "base_ok (k\<lparr>klist := (klist k)(l := ts)\<rparr>)"
proof -
  let ?k = "k\<lparr>klist := (klist k)(l := ts)\<rparr>"
  have x: "sched_ex k {}" and ti: "timers_ok k" using b by (simp_all add: base_ok_def)
  have lr: "l \<noteq> LReady p" "l \<noteq> LDefunct" for p using l by (auto simp: wait_list_def)
  have mem: "set (klist ?k m) = set (klist k m)" for m using ts by auto
  have rd: "klist ?k (LReady p) = klist k (LReady p)" for p using lr(1) [of p] by auto
  have "lists_ok (klist ?k)" unfolding lists_ok_def mem using x ts(2) by (auto simp: sched_ex_def lists_ok_def)
  moreover have "group_ok (ready_group ?k) (klist ?k)" using x unfolding group_ok_def rd by (simp add: sched_ex_def group_ok_def)
  moreover have "thread_ok ?k u" for u
  proof -
    have "thread_ok k u" using x by (simp add: sched_ex_def)
    then show ?thesis unfolding thread_ok_def mem rd by (auto simp: tstate_def is_suspended_def)
  qed
  moreover have "prio_ok ?k u" for u using x by (auto simp: sched_ex_def prio_ok_def tstate_def)
  moreover have "\<forall>u p. u \<in> set (klist k (LReady p)) \<longrightarrow> p = prio k u \<and> number_mask (threads k u) = push_bit (prio k u) 1"
    using x by (simp add: sched_ex_def)
  ultimately have "sched_ex ?k {}" unfolding sched_ex_def rd by simp blast
  moreover have "timers_ok ?k" using ti by (simp add: timers_ok_def timer_set_def tstate_def is_suspended_def)
  ultimately show ?thesis by (simp add: base_ok_def)
qed

lemma base_lists: "base_ok k \<Longrightarrow> lists_ok (klist k)" by (simp add: base_ok_def sched_ex_def)

lemma one_list: "base_ok k \<Longrightarrow> t \<in> set (klist k l) \<Longrightarrow> t \<in> set (klist k m) \<Longrightarrow> m = l"
  using base_lists unfolding lists_ok_def by blast

text \<open>Where \<open>_thread_update_priority\<close> puts a waiting thread whose priority has changed.\<close>

definition relist :: "nat \<Rightarrow> nat \<Rightarrow> kernel \<Rightarrow> kernel" where
  "relist m t k = k\<lparr>klist := (klist k)(LMutex m := prio_insert (prio k) t (removeAll t (klist k (LMutex m))))\<rparr>"

lemma relist_suspend:
  assumes b: "base_ok k" and s: "is_suspended k t" and t: "t \<in> set (klist k (LMutex m))"
  shows "ipc_list_suspend (LMutex m) t RT_IPC_FLAG_PRIO sf (tlist_remove t k) = (RT_EOK, relist m t k)"
    "base_ok (relist m t k)"
proof -
  have "removeAll t (klist k l) = (if l = LMutex m then removeAll t (klist k (LMutex m)) else klist k l)" for l
    using one_list [OF b t, of l] by (metis removeAll_id)
  then have r: "(\<lambda>l. removeAll t (klist k l)) = (klist k)(LMutex m := removeAll t (klist k (LMutex m)))"
    unfolding fun_eq_iff fun_upd_apply by (rule allI)
  show "ipc_list_suspend (LMutex m) t RT_IPC_FLAG_PRIO sf (tlist_remove t k) = (RT_EOK, relist m t k)"
    using s by (simp add: ipc_list_suspend_def tlist_insert_prio_def relist_def tlist_remove_def is_suspended_def
        rt_const r)
  have d: "distinct (klist k (LMutex m))" using base_lists [OF b] by (simp add: lists_ok_def)
  show "base_ok (relist m t k)" unfolding relist_def
    by (rule permute_list_ok [OF b]) (use t d in \<open>auto simp: distinct_removeAll\<close>)
qed

lemma relist_sel [simp]:
  "threads (relist m t k) = threads k" "mutexes (relist m t k) = mutexes k" "is_suspended (relist m t k) = is_suspended k"
  "tstate (relist m t k) = tstate k" "current (relist m t k) = current k" "rt_tick (relist m t k) = rt_tick k"
  "timers (relist m t k) = timers k" "timer_list (relist m t k) = timer_list k" "lock_nest (relist m t k) = lock_nest k"
  "sems (relist m t k) = sems k" "events (relist m t k) = events k"
  "klist (relist m t k) (LMutex m) = prio_insert (prio k) t (removeAll t (klist k (LMutex m)))"
  "l \<noteq> LMutex m \<Longrightarrow> klist (relist m t k) l = klist k l"
  by (simp_all add: relist_def is_suspended_def tstate_def fun_eq_iff)

lemma prio_insert_cong: "(\<And>u. u \<in> set ts \<Longrightarrow> p u = q u) \<Longrightarrow> p t = q t \<Longrightarrow> prio_insert p t ts = prio_insert q t ts"
  by (induction ts) auto

lemma sorted_removeAll: "sorted (map p ts) \<Longrightarrow> sorted (map p (removeAll t ts))"
  by (induction ts) auto

lemma hd_prio_cong: "(\<And>u. u \<in> set ts \<Longrightarrow> p u = q u) \<Longrightarrow>
    (if ts \<noteq> [] then p (hd ts) else d) = (if ts \<noteq> [] then q (hd ts) else d)"
  by simp

lemma take_out: "own_ok k \<Longrightarrow> mutex_owner (mutexes k m) = Some ow \<Longrightarrow> u \<noteq> ow \<Longrightarrow> m \<notin> set (taken_object_list (threads k u))"
  unfolding own_ok_def by (metis option.inject)

text \<open>A thread that waits for no mutex takes the priority it is due.\<close>

lemma update_unlisted:
  assumes i: "mutex_inv k {t}" and p: "p = thread_get_mutex_priority t k" and n: "\<And>m. t \<notin> set (klist k (LMutex m))"
  shows "mutex_inv (change_priority t p k) {}" "prio_frame k (change_priority t p k)"
proof -
  let ?k = "change_priority t p k"
  have b: "base_ok k" and inh: "inherit_ok k {t}" using i by (simp_all add: mutex_inv_def)
  have pb: "p < RT_THREAD_PRIORITY_MAX" unfolding p by (rule get_priority_bound [OF inh])
  note c = change_priority_ok [OF b pb]
  have l: "klist ?k (LMutex m) = klist k (LMutex m)" for m by (rule c(14)) simp
  have ne: "u \<noteq> t" if "u \<in> set (klist k (LMutex m))" for u m using n that by blast
  have pr: "map (prio ?k) (klist k (LMutex m)) = map (prio k) (klist k (LMutex m))" for m
    using ne by (auto simp: change_prio)
  have g: "thread_get_mutex_priority u ?k = thread_get_mutex_priority u k" for u
    by (rule get_priority_cong) (simp_all add: c(12) mutex_cap_def)
  have "own_ok ?k" using i by (simp add: mutex_inv_def own_ok_def c(12))
  moreover have "waiters_ok ?k = waiters_ok k" unfolding waiters_ok_def c(3,12) l pr by simp
  moreover from this have "waiters_ok ?k" using i by (simp add: mutex_inv_def)
  moreover have "head_ok ?k"
  proof -
    have "(if klist k (LMutex m) \<noteq> [] then prio ?k (hd (klist k (LMutex m))) else NO_PRIORITY)
        = (if klist k (LMutex m) \<noteq> [] then prio k (hd (klist k (LMutex m))) else NO_PRIORITY)" for m
    proof (rule hd_prio_cong)
      fix u assume "u \<in> set (klist k (LMutex m))"
      then have "u \<noteq> t" by (rule ne)
      then show "prio ?k u = prio k u" by (simp add: change_prio_at)
    qed
    then show ?thesis using i unfolding mutex_inv_def head_ok_def c(12) l by simp
  qed
  moreover have "inherit_ok ?k {}"
    using inh p unfolding inherit_ok_def g change_prio_at by (auto simp: c(10))
  ultimately show "mutex_inv ?k {}" using c(1) by (simp add: mutex_inv_def)
  show "prio_frame k ?k" using c by (simp add: prio_frame_def)
qed

text \<open>The step from a waiting thread to the owner of the mutex it waits for.\<close>

lemma update_step:
  fixes k t p m
  assumes i: "mutex_inv k {t}" and p: "p = thread_get_mutex_priority t k" and t: "t \<in> set (klist k (LMutex m))"
    and ow: "mutex_owner (mutexes k m) = Some ow" "ow \<noteq> t"
  defines "k' \<equiv> mutex_update_priority m (relist m t (change_priority t p k))"
  shows "mutex_inv k' {ow}" "prio_frame k k'"
proof -
  define k1 where "k1 = change_priority t p k"
  have b: "base_ok k" and inh: "inherit_ok k {t}" and own: "own_ok k" and w: "waiters_ok k" and hd: "head_ok k"
    using i by (simp_all add: mutex_inv_def)
  have pb: "p < RT_THREAD_PRIORITY_MAX" unfolding p by (rule get_priority_bound [OF inh])
  note c = change_priority_ok [OF b pb, where t = t, folded k1_def]
  have l1: "klist k1 (LMutex n) = klist k (LMutex n)" for n by (rule c(14)) simp
  have p1: "prio k1 = (prio k)(t := p)" by (simp add: k1_def change_prio)
  have s: "is_suspended k1 t" using listed_suspended [OF b _ t] by (simp add: c(3))
  have r: "base_ok (relist m t k1)" by (rule relist_suspend(2) [OF c(1) s]) (simp add: l1 t)
  have e: "k' = mutex_update_priority m (relist m t k1)" by (simp add: k'_def k1_def)
  have mx: "mutexes k1 = mutexes k" by (rule c(12))
  have th: "threads k' = threads k1" by (simp add: e)
  have lm: "klist k' (LMutex m) = prio_insert (prio k1) t (removeAll t (klist k (LMutex m)))" by (simp add: e l1)
  have ln: "n \<noteq> m \<Longrightarrow> klist k' (LMutex n) = klist k (LMutex n)" for n by (simp add: e l1)
  have ne: "u \<noteq> t" if "u \<in> set (klist k (LMutex n))" "n \<noteq> m" for u n using one_list [OF b that(1)] t that(2) by blast
  have pr: "map (prio k1) (klist k (LMutex n)) = map (prio k) (klist k (LMutex n))" if "n \<noteq> m" for n
    using ne that by (auto simp: p1)
  have flds: "taken_object_list (threads k' u) = taken_object_list (threads k u)"
    "pending_object (threads k' u) = pending_object (threads k u)" "init_priority (threads k' u) = init_priority (threads k u)"
    "error (threads k' u) = error (threads k u)" for u
    by (simp_all add: th k1_def)
  have ms: "set (klist k' (LMutex n)) = set (klist k (LMutex n))" for n using ln lm t by (cases "n = m") auto
  have own': "own_ok k'" using own by (simp add: own_ok_def flds) (simp add: e mx)
  have "sorted (map (prio k') (klist k' (LMutex n)))" for n
  proof (cases "n = m")
    case True
    have "map (prio k1) (removeAll t (klist k (LMutex m))) = map (prio k) (removeAll t (klist k (LMutex m)))"
      by (simp add: p1)
    moreover have "sorted (map (prio k) (removeAll t (klist k (LMutex m))))"
      using w unfolding waiters_ok_def by (intro sorted_removeAll) blast
    ultimately have "sorted (map (prio k1) (removeAll t (klist k (LMutex m))))" by (rule ssubst)
    then show ?thesis using True by (simp add: lm th prio_insert_sorted)
  next
    case False
    show ?thesis using w unfolding th ln [OF False] pr [OF False] waiters_ok_def by blast
  qed
  moreover have "klist k' (LMutex n) = [] \<longleftrightarrow> klist k (LMutex n) = []" for n using ms [of n] by (metis set_empty)
  moreover have "is_suspended k' = is_suspended k" "mutex_owner (mutexes k' n) = mutex_owner (mutexes k n)" for n
    by (simp_all add: e mx c(3))
  ultimately have w': "waiters_ok k'" using w unfolding waiters_ok_def by (simp only: ms flds) blast
  have h': "head_ok k'"
    unfolding head_ok_def
  proof
    fix n
    show "mutex_priority (mutexes k' n) = (if klist k' (LMutex n) \<noteq> [] then prio k' (hd (klist k' (LMutex n))) else NO_PRIORITY)"
    proof (cases "n = m")
      case False
      then have "mutex_priority (mutexes k' n) = mutex_priority (mutexes k n)" by (simp add: e mx)
      moreover have "(if klist k (LMutex n) \<noteq> [] then prio k1 (hd (klist k (LMutex n))) else NO_PRIORITY)
          = (if klist k (LMutex n) \<noteq> [] then prio k (hd (klist k (LMutex n))) else NO_PRIORITY)"
      proof (rule hd_prio_cong)
        fix u assume "u \<in> set (klist k (LMutex n))"
        then have "u \<noteq> t" using ne False by blast
        then show "prio k1 u = prio k u" by (simp add: k1_def change_prio_at)
      qed
      ultimately show ?thesis using hd unfolding head_ok_def ln [OF False] th by simp
    qed (simp add: e)
  qed
  have g: "thread_get_mutex_priority u k' = thread_get_mutex_priority u k" if "u \<noteq> ow" for u
  proof (rule get_priority_cong)
    fix n assume "n \<in> set (taken_object_list (threads k u))"
    then have "n \<noteq> m" using take_out [OF own ow(1) that] by blast
    then show "mutex_cap k' n = mutex_cap k n" by (simp add: mutex_cap_def e mx)
  qed (simp_all add: flds)
  have inh': "inherit_ok k' {ow}"
  proof -
    have "prio k' u = thread_get_mutex_priority u k'" if "u \<noteq> ow" for u
      unfolding g [OF that] th using inh p by (simp add: k1_def change_prio_at inherit_ok_def)
    then show ?thesis using inh by (simp add: inherit_ok_def flds)
  qed
  show "mutex_inv k' {ow}" using r own' w' h' inh' by (simp add: mutex_inv_def e)
  have "set (klist k' l) = set (klist k l)" if "wait_list l" for l
    using ms c(14) [OF that] t by (cases "l = LMutex m") (auto simp: e)
  moreover have "events k1 = events k" by (simp add: k1_def)
  ultimately show "prio_frame k k'" using c flds by (simp add: prio_frame_def) (simp add: e)
qed

lemma ranked_frame: "ranked rank k \<Longrightarrow> prio_frame k k' \<Longrightarrow> ranked rank k'"
  unfolding ranked_def prio_frame_def by metis

lemma mutex_inv_empty:
  "mutex_inv k {t} \<Longrightarrow> thread_get_mutex_priority t k = prio k t \<Longrightarrow> mutex_inv k {}"
  by (auto simp: mutex_inv_def inherit_ok_def) metis

text \<open>
  Without a deadlock the updates run up the chain of owners and end, and then every thread of the
  kernel runs at the priority it is due.
\<close>

lemma update_priority_ok:
  assumes "mutex_inv k {t}" "ranked rank k" "p = thread_get_mutex_priority t k"
  shows "\<exists>k'. thread_update_priority t p sf k = Some k' \<and> mutex_inv k' {} \<and> prio_frame k k'"
  using assms
proof (induction "rank t" arbitrary: t p sf k rule: less_induct)
  case less
  note i = less.prems(1) and rk = less.prems(2) and p = less.prems(3)
  have b: "base_ok k" and inh: "inherit_ok k {t}" and own: "own_ok k" and w: "waiters_ok k"
    using i by (simp_all add: mutex_inv_def)
  have pb: "p < RT_THREAD_PRIORITY_MAX" unfolding p by (rule get_priority_bound [OF inh])
  define k1 where "k1 = change_priority t p k"
  note c = change_priority_ok [OF b pb, where t = t, folded k1_def]
  have pend: "pending_object (threads k1 u) = pending_object (threads k u)" for u by (simp add: k1_def)
  show ?case
  proof (cases "\<exists>m. t \<in> set (klist k (LMutex m))")
    case False
    then have "\<not> (is_suspended k1 t \<and> (\<exists>m. pending_object (threads k1 t) = Some m))"
      using w unfolding waiters_ok_def c(3) pend by blast
    then have "thread_update_priority t p sf k = Some k1"
      by (subst thread_update_priority.simps) (auto simp: k1_def [symmetric] Let_def split: option.split)
    then show ?thesis using update_unlisted [OF i p] False unfolding k1_def by blast
  next
    case True
    then obtain m where t: "t \<in> set (klist k (LMutex m))" by blast
    have s: "is_suspended k t" by (rule listed_suspended [OF b _ t]) simp
    have pm: "pending_object (threads k t) = Some m" using w t unfolding waiters_ok_def by blast
    have "klist k (LMutex m) \<noteq> []" using t by auto
    then obtain ow where ow: "mutex_owner (mutexes k m) = Some ow" using w unfolding waiters_ok_def by blast
    have r: "rank ow < rank t" using rk s pm ow unfolding ranked_def by blast
    then have ne: "ow \<noteq> t" by blast
    define k' where "k' = mutex_update_priority m (relist m t k1)"
    note st = update_step [OF i p t ow ne, folded k1_def, folded k'_def]
    have lm: "t \<in> set (klist k1 (LMutex m))" using t c(14) [of "LMutex m"] by simp
    have rs: "ipc_list_suspend (LMutex m) t RT_IPC_FLAG_PRIO sf (tlist_remove t k1) = (RT_EOK, relist m t k1)"
      using s by (intro relist_suspend(1) [OF c(1) _ lm]) (simp add: c(3))
    have ow': "mutex_owner (mutexes k1 m) = Some ow" using ow by (simp add: c(12))
    have e: "thread_update_priority t p sf k = (let mp = thread_get_mutex_priority ow k'
        in if mp \<noteq> prio k' ow then thread_update_priority ow mp sf k' else Some k')"
      using s pm ow' by (subst thread_update_priority.simps)
        (simp add: k1_def [symmetric] c(3) pend rs k'_def Let_def)
    show ?thesis
    proof (cases "thread_get_mutex_priority ow k' = prio k' ow")
      case True
      then show ?thesis using e st mutex_inv_empty [OF st(1)] by (simp add: Let_def)
    next
      case False
      obtain k'' where "thread_update_priority ow (thread_get_mutex_priority ow k') sf k' = Some k''"
        "mutex_inv k'' {}" "prio_frame k' k''"
        using less.hyps [OF r st(1) ranked_frame [OF rk st(2)] refl] by blast
      then show ?thesis using e False prio_frame_trans [OF st(2)] by (simp add: Let_def)
    qed
  qed
qed

lemma mutex_inv_same:
  assumes i: "mutex_inv k X" and b: "base_ok k'"
    and "mutexes k' = mutexes k" "is_suspended k' = is_suspended k" "prio k' = prio k"
    and "\<And>m. klist k' (LMutex m) = klist k (LMutex m)"
    and "\<And>t. pending_object (threads k' t) = pending_object (threads k t)"
    and "\<And>t. taken_object_list (threads k' t) = taken_object_list (threads k t)"
    and "\<And>t. init_priority (threads k' t) = init_priority (threads k t)"
  shows "mutex_inv k' X"
proof -
  have g: "thread_get_mutex_priority t k' = thread_get_mutex_priority t k" for t
    by (rule get_priority_cong) (simp_all add: assms mutex_cap_def)
  have pr: "current_priority (threads k' t) = current_priority (threads k t)" for t
    using assms(5) by (simp add: fun_eq_iff)
  have "own_ok k'" using i unfolding mutex_inv_def own_ok_def assms(3,8) by blast
  moreover have "waiters_ok k'" using i unfolding mutex_inv_def waiters_ok_def assms(3,4,6,7) pr by blast
  moreover have "head_ok k'" using i unfolding mutex_inv_def head_ok_def assms(3,6) pr by blast
  moreover have "inherit_ok k' X" using i unfolding mutex_inv_def inherit_ok_def assms(9) g pr by blast
  ultimately show ?thesis using b by (simp add: mutex_inv_def)
qed

lemma due_change:
  assumes "taken_object_list (threads k' t) = taken_object_list (threads k t)"
    and "init_priority (threads k' t) = init_priority (threads k t)"
    and m: "m \<in> set (taken_object_list (threads k t))" "mutex_cap k' m = min (mutex_cap k m) q"
    and "\<And>n. n \<noteq> m \<Longrightarrow> mutex_cap k' n = mutex_cap k n"
  shows "thread_get_mutex_priority t k' = min (thread_get_mutex_priority t k) q"
proof -
  define A where "A = set (taken_object_list (threads k t)) - {m}"
  have A: "set (taken_object_list (threads k t)) = insert m A" "finite A" using m(1) by (auto simp: A_def)
  have i: "mutex_cap k' ` A = mutex_cap k ` A" by (rule image_cong) (simp_all add: A_def assms(5))
  define S where "S = insert (init_priority (threads k t)) (mutex_cap k ` A)"
  have S: "finite S" "S \<noteq> {}" using A by (simp_all add: S_def)
  have "thread_get_mutex_priority t k' = Min (insert (mutex_cap k' m) S)"
    "thread_get_mutex_priority t k = Min (insert (mutex_cap k m) S)"
    unfolding get_priority_Min assms(1,2) A by (simp_all add: S_def i insert_commute)
  then show ?thesis using S m(2) by (simp add: min.commute min.left_commute)
qed

text \<open>No priority inversion: an owner runs at a priority at least as good as that of every waiting thread.\<close>

lemma owner_not_worse:
  assumes i: "mutex_inv k {}" and ow: "mutex_owner (mutexes k m) = Some ow" and u: "u \<in> set (klist k (LMutex m))"
  shows "prio k ow \<le> prio k u"
proof -
  have own: "own_ok k" and w: "waiters_ok k" and hd: "head_ok k" and inh: "inherit_ok k {}"
    using i by (simp_all add: mutex_inv_def)
  have m: "m \<in> set (taken_object_list (threads k ow))" using own ow unfolding own_ok_def by blast
  have "prio k ow = thread_get_mutex_priority ow k" using inh by (simp add: inherit_ok_def)
  also have "... \<le> mutex_cap k m" unfolding get_priority_Min using m by (intro Min_le) auto
  also have "... \<le> mutex_priority (mutexes k m)" by (simp add: mutex_cap_def)
  also have "... = prio k (hd (klist k (LMutex m)))" using hd u unfolding head_ok_def by auto
  also have "... \<le> prio k u"
  proof (cases "klist k (LMutex m)")
    case (Cons v vs)
    have "sorted (map (prio k) (klist k (LMutex m)))" using w unfolding waiters_ok_def by blast
    then show ?thesis using Cons u by auto
  qed (use u in simp)
  finally show ?thesis .
qed

lemma prio_insert_head:
  assumes "sorted (map p ts)"
  shows "hd (prio_insert p t ts) = (if ts = [] \<or> p t < p (hd ts) then t else hd ts)"
  using assms by (cases ts) auto

end
