(* ===== verification/MutexOps.thy ===== *)
theory MutexOps
  imports Mutex
begin

text \<open>
  What rt_mutex_take and rt_mutex_release keep of the invariant of the mutexes: every thread runs at the
  priority it is due, and a mutex goes to the thread that has waited longest at the best priority.
\<close>

section \<open>Waiting for a mutex\<close>

lemma prio_insert_ne [simp]: "prio_insert p t ts \<noteq> []"
  by (cases ts) auto

text \<open>The waiting thread enters the list, and the priority of the mutex follows it.\<close>

lemma enter_mutex_ok:
  fixes k t m ow sf
  assumes i: "mutex_inv k {}" and t: "tstate k t = RT_THREAD_RUNNING" and ow: "mutex_owner (mutexes k m) = Some ow" "ow \<noteq> t"
  defines "k2 \<equiv> snd (ipc_list_suspend (LMutex m) t RT_IPC_FLAG_PRIO sf k)"
  defines "k3 \<equiv> upd_thread t (\<lambda>r. r\<lparr>pending_object := Some m\<rparr>) k2"
  defines "k4 \<equiv> (if prio k t < mutex_priority (mutexes k m)
                  then upd_mutex m (\<lambda>r. r\<lparr>mutex_priority := prio k t\<rparr>) k3 else k3)"
  shows "mutex_inv k4 {ow}" "is_suspended k4 u \<longleftrightarrow> u = t \<or> is_suspended k u" "current k4 = current k" "prio k4 = prio k"
    "klist k4 (LMutex m) = prio_insert (prio k) t (klist k (LMutex m))"
    "mutex_owner (mutexes k4 n) = mutex_owner (mutexes k n)" "pending_object (threads k4 t) = Some m"
    "u \<noteq> t \<Longrightarrow> pending_object (threads k4 u) = pending_object (threads k u)"
    "thread_get_mutex_priority ow k4 =
       (if prio k t < mutex_priority (mutexes k m) then min (prio k ow) (prio k t) else prio k ow)"
proof -
  have b: "base_ok k" and inh: "inherit_ok k {}" and own: "own_ok k" and w: "waiters_ok k" and hd: "head_ok k"
    using i by (simp_all add: mutex_inv_def)
  have r: "tstate k t = RT_THREAD_READY \<or> tstate k t = RT_THREAD_RUNNING" using t by simp
  note s = list_suspend_ok [OF b r wait_list_simps(2) [of m] disjI2 [OF refl], where sf = sf, folded k2_def]
  have ns: "\<not> is_suspended k t" using t by (simp add: is_suspended_iff rt_const)
  have nl: "t \<notin> set (klist k (LMutex n))" for n using listed_suspended [OF b wait_list_simps(2)] ns by blast
  show su: "is_suspended k4 u \<longleftrightarrow> u = t \<or> is_suspended k u" for u by (simp add: k4_def k3_def s(3))
  show cu: "current k4 = current k" by (simp add: k4_def k3_def s(6))
  have pr0: "current_priority (threads k2 u) = current_priority (threads k u)" for u using fun_cong [OF s(14)] by simp
  have pr1: "current_priority (threads k4 u) = current_priority (threads k u)" for u by (simp add: k4_def k3_def pr0)
  then show pr: "prio k4 = prio k" by (simp add: fun_eq_iff)
  have q: "queued RT_IPC_FLAG_PRIO (prio k) t ts = prio_insert (prio k) t ts" for ts by (simp add: queued_def rt_const)
  show lm: "klist k4 (LMutex m) = prio_insert (prio k) t (klist k (LMutex m))" by (simp add: k4_def k3_def s(4) q)
  have ln: "klist k4 (LMutex n) = klist k (LMutex n)" if "n \<noteq> m" for n
    using s(5) [of "LMutex n"] that by (simp add: k4_def k3_def)
  show ow': "mutex_owner (mutexes k4 n) = mutex_owner (mutexes k n)" for n by (simp add: k4_def k3_def s(11))
  have ho: "hold (mutexes k4 n) = hold (mutexes k n)" "ceiling_priority (mutexes k4 n) = ceiling_priority (mutexes k n)" for n
    by (simp_all add: k4_def k3_def s(11))
  have mp: "mutex_priority (mutexes k4 n) = (if n = m \<and> prio k t < mutex_priority (mutexes k m) then prio k t
      else mutex_priority (mutexes k n))" for n by (simp add: k4_def k3_def s(11))
  show pt: "pending_object (threads k4 t) = Some m" by (simp add: k4_def k3_def)
  show pu: "pending_object (threads k4 u) = pending_object (threads k u)" if "u \<noteq> t" for u
    using that by (simp add: k4_def k3_def s(18))
  have fl: "taken_object_list (threads k4 u) = taken_object_list (threads k u)"
    "init_priority (threads k4 u) = init_priority (threads k u)" for u
    by (simp_all add: k4_def k3_def s(19,20))
  have o: "own_ok k4" using own unfolding own_ok_def fl ho ow' .
  have so: "sorted (map (prio k) (klist k (LMutex n)))" for n using w unfolding waiters_ok_def by blast
  have w': "waiters_ok k4"
    unfolding waiters_ok_def
  proof (intro conjI allI impI)
    fix n u
    show "mutex_owner (mutexes k4 n) \<noteq> None" if "klist k4 (LMutex n) \<noteq> []"
      using that w ow(1) ln [of n] ow' [of n] by (cases "n = m") (auto simp: waiters_ok_def)
    show "pending_object (threads k4 u) = Some n" if u: "u \<in> set (klist k4 (LMutex n))"
    proof (cases "u = t")
      case True
      then show ?thesis using u nl ln [of n] pt by (cases "n = m") auto
    next
      case False
      then have "u \<in> set (klist k (LMutex n))" using u lm ln [of n] by (cases "n = m") auto
      then show ?thesis using w pu [OF False] unfolding waiters_ok_def by auto
    qed
    show "u \<in> set (klist k4 (LMutex n))" if a: "is_suspended k4 u" "pending_object (threads k4 u) = Some n"
    proof (cases "u = t")
      case False
      then have "u \<in> set (klist k (LMutex n))" using a w pu [OF False] su unfolding waiters_ok_def by metis
      then show ?thesis using lm ln [of n] by (cases "n = m") auto
    qed (use a pt lm in auto)
    show "sorted (map (prio k4) (klist k4 (LMutex n)))"
      using so prio_insert_sorted [OF so] ln [of n] lm unfolding pr by (cases "n = m") simp_all
  qed
  have h': "head_ok k4"
    unfolding head_ok_def
  proof
    fix n
    have e: "mutex_priority (mutexes k n) = (if klist k (LMutex n) \<noteq> [] then prio k (hd (klist k (LMutex n))) else NO_PRIORITY)"
      using hd unfolding head_ok_def by blast
    have "init_priority (threads k t) < RT_THREAD_PRIORITY_MAX" using inh by (simp add: inherit_ok_def)
    then have "prio k t < NO_PRIORITY"
      using inh get_priority_bound [OF inh, of t] by (simp add: inherit_ok_def rt_const)
    then show "mutex_priority (mutexes k4 n) = (if klist k4 (LMutex n) \<noteq> [] then prio k4 (hd (klist k4 (LMutex n))) else NO_PRIORITY)"
      using e ln [of n] lm prio_insert_head [OF so [of m], of t] unfolding mp pr1
      by (cases "n = m") (auto split: if_splits)
  qed
  have cap: "mutex_cap k4 n = mutex_cap k n" if "n \<noteq> m" for n using that by (simp add: mutex_cap_def mp ho)
  have capm: "mutex_cap k4 m = min (mutex_cap k m) (prio k t)" if "prio k t < mutex_priority (mutexes k m)"
    using that by (simp add: mutex_cap_def mp ho)
  have mo: "m \<in> set (taken_object_list (threads k ow))" using own ow(1) unfolding own_ok_def by blast
  have due: "prio k u = thread_get_mutex_priority u k" for u using inh by (simp add: inherit_ok_def)
  show "thread_get_mutex_priority ow k4 =
       (if prio k t < mutex_priority (mutexes k m) then min (prio k ow) (prio k t) else prio k ow)"
  proof (cases "prio k t < mutex_priority (mutexes k m)")
    case True
    then show ?thesis using due_change [OF fl mo capm [OF True] cap] due by simp
  next
    case False
    then have "mutex_cap k4 n = mutex_cap k n" for n using mp [of n] by (simp add: mutex_cap_def ho)
    then have "thread_get_mutex_priority ow k4 = thread_get_mutex_priority ow k" by (intro get_priority_cong fl)
    then show ?thesis using False due by simp
  qed
  have "thread_get_mutex_priority u k4 = thread_get_mutex_priority u k" if "u \<noteq> ow" for u
  proof (rule get_priority_cong [OF fl])
    fix n assume "n \<in> set (taken_object_list (threads k u))"
    then have "n \<noteq> m" using take_out [OF own ow(1) that] by blast
    then show "mutex_cap k4 n = mutex_cap k n" by (rule cap)
  qed
  then have "inherit_ok k4 {ow}" using inh unfolding inherit_ok_def fl pr1 by simp
  moreover have "base_ok k4" by (simp add: k4_def k3_def s(1))
  ultimately show "mutex_inv k4 {ow}" using o w' h' by (simp add: mutex_inv_def)
qed

lemma block_mutex_ok:
  assumes "mutex_inv k {}" "kernel_ok k" "is_suspended k t"
  shows "mutex_inv (rt_schedule (if timeout > (0 :: int) then arm_timer t n k else k)) {}"
  using block_ok [OF assms(2,3), where timeout = timeout and n = n]
  by (intro mutex_inv_same [OF assms(1)]) (auto simp: kernel_ok_base fun_eq_iff)

lemma error_mutex_ok: "mutex_inv k X \<Longrightarrow> mutex_inv (upd_thread t (\<lambda>r. r\<lparr>error := e\<rparr>) k) X"
  by (rule mutex_inv_same) (auto simp: fun_eq_iff mutex_inv_def)

text \<open>A thread that waits leaves every thread with the priority it is due.\<close>

lemma take_waits_ok:
  fixes k t m ow timeout sf
  assumes k: "kernel_ok k" and i: "mutex_inv k {}" and t: "current k = Some t" "tstate k t = RT_THREAD_RUNNING"
    and ow: "mutex_owner (mutexes k m) = Some ow" "ow \<noteq> t" and z: "timeout \<noteq> 0"
    and r: "ranked rank k" "rank ow < rank t"
  shows "\<exists>k'. rt_mutex_take m timeout sf k = Some (Waits, k') \<and> kernel_ok k' \<and> mutex_inv k' {} \<and> is_suspended k' t
    \<and> t \<in> set (klist k' (LMutex m)) \<and> mutex_owner (mutexes k' m) = Some ow"
proof -
  define k1 where "k1 = upd_thread t (\<lambda>r. r\<lparr>error := RT_EOK\<rparr>) k"
  have i1: "mutex_inv k1 {}" unfolding k1_def by (rule error_mutex_ok [OF i])
  have t1: "tstate k1 t = RT_THREAD_RUNNING" and ow1: "mutex_owner (mutexes k1 m) = Some ow"
    using t(2) ow(1) by (simp_all add: k1_def)
  have c1: "current k1 = Some t" using t by (simp add: k1_def)
  have r1: "ranked rank k1" using r(1) unfolding ranked_def k1_def by (auto split: if_splits)
  define k3 where "k3 = upd_thread t (\<lambda>r. r\<lparr>pending_object := Some m\<rparr>) (snd (ipc_list_suspend (LMutex m) t RT_IPC_FLAG_PRIO sf k1))"
  define k4 where "k4 = (if prio k1 t < mutex_priority (mutexes k1 m)
      then upd_mutex m (\<lambda>r. r\<lparr>mutex_priority := prio k1 t\<rparr>) k3 else k3)"
  note en = enter_mutex_ok [OF i1 t1 ow1 ow(2), where sf = sf, folded k3_def, folded k4_def]
  have b1: "base_ok k1" using i1 by (simp add: mutex_inv_def)
  have rr: "tstate k1 t = RT_THREAD_READY \<or> tstate k1 t = RT_THREAD_RUNNING" using t1 by simp
  note s = list_suspend_ok [OF b1 rr wait_list_simps(2) [of m] disjI2 [OF refl], where sf = sf]
  have r4: "ranked rank k4"
    unfolding ranked_def
  proof (intro allI impI)
    fix u n v
    assume a: "is_suspended k4 u" "pending_object (threads k4 u) = Some n" "mutex_owner (mutexes k4 n) = Some v"
    show "rank v < rank u"
    proof (cases "u = t")
      case True
      then show ?thesis using a en(6,7) ow1 r(2) by simp
    next
      case False
      then show ?thesis using a en(2) [of u] en(6) en(8) [OF False] r1 unfolding ranked_def by auto
    qed
  qed
  let ?due = "thread_get_mutex_priority ow k4"
  have pm3: "mutexes k3 = mutexes k1" "prio k3 = prio k1" unfolding k3_def using s(11,14) by (simp_all add: fun_eq_iff)
  have p3: "current_priority (threads k3 u) = current_priority (threads k1 u)" for u using fun_cong [OF pm3(2)] by simp
  obtain k5 where k5: "(if prio k1 t < mutex_priority (mutexes k3 m) \<and> prio k1 t < prio k4 ow
       then thread_update_priority ow (prio k1 t) RT_UNINTERRUPTIBLE k4 else Some k4) = Some k5"
      "mutex_inv k5 {}" "prio_frame k4 k5"
  proof (cases "prio k1 t < mutex_priority (mutexes k3 m) \<and> prio k1 t < prio k4 ow")
    case True
    then have "prio k1 t = ?due" using en(9) pm3 fun_cong [OF en(4), of ow] by simp
    then show thesis using that update_priority_ok [OF en(1) r4] True by auto
  next
    case False
    then have "?due = prio k4 ow" using en(9) pm3 fun_cong [OF en(4), of ow] by auto
    then show thesis using that mutex_inv_empty [OF en(1)] False by auto
  qed
  have e: "rt_mutex_take m timeout sf k
      = Some (Waits, rt_schedule (if timeout > 0 then arm_timer t (word_of_int timeout) k5 else k5))"
  proof -
    have "(if prio k1 t < mutex_priority (mutexes k3 m)
           then let k' = upd_mutex m (\<lambda>r. r\<lparr>mutex_priority := prio k1 t\<rparr>) k3
                in if prio k1 t < prio k' ow then thread_update_priority ow (prio k1 t) RT_UNINTERRUPTIBLE k' else Some k'
           else Some k3) = Some k5"
      using k5(1) by (auto simp: k4_def pm3(1) Let_def split: if_splits)
    then show ?thesis using t ow1 ow z s(2)
      by (auto simp: rt_mutex_take_def rt_thread_self_def k1_def [symmetric] split_beta Let_def k3_def [symmetric]
          s(11) pm3(1) split: if_splits)
  qed
  let ?k' = "rt_schedule (if timeout > 0 then arm_timer t (word_of_int timeout) k5 else k5)"
  have su: "is_suspended k5 t" using k5(3) en(2) [of t] by (simp add: prio_frame_def)
  have ke: "kernel_ok k5" using k5(2,3) en(3) c1 by (simp add: kernel_ok_base mutex_inv_def prio_frame_def)
  note bl = block_ok [OF ke su, where timeout = timeout and n = "word_of_int timeout"]
  have "t \<in> set (klist k5 (LMutex m))" using k5(3) en(5) by (simp add: prio_frame_def)
  moreover have "mutex_owner (mutexes k5 m) = Some ow" using k5(3) en(6) ow1 by (simp add: prio_frame_def)
  moreover have "kernel_ok ?k'" "is_suspended ?k' t = is_suspended k5 t" by (rule bl)+
  moreover have "klist ?k' (LMutex m) = klist k5 (LMutex m)" by (rule bl) simp
  moreover have "mutexes ?k' = mutexes k5" by (rule bl)
  ultimately show ?thesis using e block_mutex_ok [OF k5(2) ke su] su by (intro exI [of _ ?k']) simp
qed

section \<open>Releasing a mutex\<close>

text \<open>Between two owners: the mutex \<open>m\<close> is in no list of taken mutexes, and all else is in order.\<close>

definition mutex_out :: "nat \<Rightarrow> kernel \<Rightarrow> bool" where
  "mutex_out m k \<longleftrightarrow> base_ok k \<and> waiters_ok k \<and> head_ok k \<and> inherit_ok k {}
     \<and> (\<forall>t. m \<notin> set (taken_object_list (threads k t)))
     \<and> (\<forall>n t. n \<noteq> m \<longrightarrow> (mutex_owner (mutexes k n) = Some t \<longleftrightarrow> n \<in> set (taken_object_list (threads k t))))
     \<and> (\<forall>n. n \<noteq> m \<longrightarrow> (hold (mutexes k n) = 0 \<longleftrightarrow> mutex_owner (mutexes k n) = None))"

lemma due_without:
  assumes m: "m \<in> set (taken_object_list (threads k t))"
  shows "thread_get_mutex_priority t k = min (mutex_cap k m) (thread_get_mutex_priority t (taken_remove m k))"
proof -
  define A where "A = set (taken_object_list (threads k t)) - {m}"
  have A: "set (taken_object_list (threads k t)) = insert m A" "finite A" using m by (auto simp: A_def)
  have r: "set (taken_object_list (threads (taken_remove m k) t)) = A" by (simp add: A_def)
  have "mutex_cap (taken_remove m k) = mutex_cap k" by (simp add: mutex_cap_def fun_eq_iff)
  then show ?thesis using A(2) unfolding get_priority_Min r A(1) by (simp add: insert_commute)
qed

lemma release_out:
  fixes k t m
  assumes i: "mutex_inv k {}" and t: "\<not> is_suspended k t" and ow: "mutex_owner (mutexes k m) = Some t"
  defines "k2 \<equiv> taken_remove m (upd_mutex m (\<lambda>r. r\<lparr>hold := hold r - 1\<rparr>) k)"
  defines "k3 \<equiv> (if ceiling_priority (mutexes k2 m) \<noteq> NO_PRIORITY \<or> prio k2 t = mutex_priority (mutexes k2 m)
                  then change_priority t (thread_get_mutex_priority t k2) k2 else k2)"
  shows "mutex_out m k3" "is_suspended k3 = is_suspended k" "current k3 = current k" "klist k3 (LMutex n) = klist k (LMutex n)"
    "mutexes k3 n = (if n = m then (mutexes k m)\<lparr>hold := hold (mutexes k m) - 1\<rparr> else mutexes k n)"
    "u \<noteq> t \<Longrightarrow> prio k3 u = prio k u" "error (threads k3 u) = error (threads k u)"
    "pending_object (threads k3 u) = pending_object (threads k u)"
proof -
  have b: "base_ok k" and inh: "inherit_ok k {}" and own: "own_ok k" and w: "waiters_ok k" and hd: "head_ok k"
    using i by (simp_all add: mutex_inv_def)
  have mt: "m \<in> set (taken_object_list (threads k t))" using own ow unfolding own_ok_def by blast
  have b2: "base_ok k2" using b by (simp add: k2_def)
  have inh2: "init_priority (threads k2 u) < RT_THREAD_PRIORITY_MAX" for u using inh by (simp add: k2_def inherit_ok_def)
  let ?p = "thread_get_mutex_priority t k2"
  have "?p \<le> init_priority (threads k2 t)" by (simp add: get_priority_Min)
  then have pb: "?p < RT_THREAD_PRIORITY_MAX" using inh2 le_less_trans by blast
  note c = change_priority_ok [OF b2 pb, where t = t]
  have m2: "mutexes k2 n = (if n = m then (mutexes k m)\<lparr>hold := hold (mutexes k m) - 1\<rparr> else mutexes k n)" for n
    by (simp add: k2_def)
  then show m3: "mutexes k3 n = (if n = m then (mutexes k m)\<lparr>hold := hold (mutexes k m) - 1\<rparr> else mutexes k n)" for n
    by (simp add: k3_def c(12))
  show s3: "is_suspended k3 = is_suspended k" "current k3 = current k" using c(2,3) by (simp_all add: k3_def k2_def)
  show l3: "klist k3 (LMutex n) = klist k (LMutex n)" for n using c(14) [of "LMutex n"] by (simp add: k3_def k2_def)
  have f2: "taken_object_list (threads k3 u) = removeAll m (taken_object_list (threads k u))"
    "init_priority (threads k3 u) = init_priority (threads k u)" for u
    by (simp_all add: k3_def k2_def)
  show pe: "error (threads k3 u) = error (threads k u)" "pending_object (threads k3 u) = pending_object (threads k u)" for u
    by (simp_all add: k3_def k2_def)
  have p2: "prio k2 u = prio k u" for u using fun_cong [OF taken_remove_sel(14), of _ _ u] by (simp add: k2_def)
  show pu: "prio k3 u = prio k u" if "u \<noteq> t" for u using p2 that by (simp add: k3_def change_prio_at)
  have cap: "mutex_cap k3 n = mutex_cap k n" for n by (simp add: mutex_cap_def m3)
  have cap2: "mutex_cap k2 n = mutex_cap k n" for n by (simp add: mutex_cap_def m2)
  have due2: "thread_get_mutex_priority u k3 = thread_get_mutex_priority u k2" for u
    by (rule get_priority_cong) (simp_all add: k3_def mutex_cap_def c(12))
  have due: "thread_get_mutex_priority u k2 = thread_get_mutex_priority u (taken_remove m k)" for u
    by (rule get_priority_cong) (simp_all add: k2_def mutex_cap_def)
  have pt: "prio k t = thread_get_mutex_priority t k" using inh by (simp add: inherit_ok_def)
  have d3: "prio k3 u = thread_get_mutex_priority u k3" for u
  proof (cases "u = t")
    case True
    show ?thesis
    proof (cases "ceiling_priority (mutexes k2 m) \<noteq> NO_PRIORITY \<or> prio k2 t = mutex_priority (mutexes k2 m)")
      case True
      then show ?thesis using \<open>u = t\<close> unfolding due2 by (simp add: k3_def change_prio_at)
    next
      case False
      have "mutex_priority (mutexes k m) \<le> NO_PRIORITY"
      proof -
        have "prio k u < RT_THREAD_PRIORITY_MAX" for u using get_priority_bound [OF inh] inh by (simp add: inherit_ok_def)
        then have "prio k u \<le> NO_PRIORITY" for u by (rule less_imp_le [OF less_le_trans]) (simp add: rt_const)
        then show ?thesis using hd by (simp add: head_ok_def)
      qed
      then have "mutex_cap k m \<noteq> prio k t" using False p2 m2 by (auto simp: mutex_cap_def)
      then have "prio k t = thread_get_mutex_priority t (taken_remove m k)"
        using due_without [OF mt] pt by (metis min_def)
      then show ?thesis using False \<open>u = t\<close> p2 by (auto simp: k3_def due)
    qed
  next
    case False
    have "m \<notin> set (taken_object_list (threads k u))" by (rule take_out [OF own ow False])
    then have "thread_get_mutex_priority u k3 = thread_get_mutex_priority u k"
      by (intro get_priority_cong) (simp_all add: f2 cap)
    then show ?thesis using inh pu [OF False] by (simp add: inherit_ok_def)
  qed
  have "inherit_ok k3 {}" using inh d3 unfolding inherit_ok_def f2 by blast
  moreover have "waiters_ok k3"
  proof -
    have mp: "map (prio k3) (klist k (LMutex n)) = map (prio k) (klist k (LMutex n))" for n
    proof (rule map_cong [OF refl])
      fix u assume "u \<in> set (klist k (LMutex n))"
      then have "u \<noteq> t" using listed_suspended [OF b wait_list_simps(2)] t by blast
      then show "prio k3 u = prio k u" by (rule pu)
    qed
    have mo: "mutex_owner (mutexes k3 n) = mutex_owner (mutexes k n)" for n by (simp add: m3)
    show ?thesis using w unfolding waiters_ok_def s3 l3 pe mp mo .
  qed
  moreover have "head_ok k3"
    unfolding head_ok_def
  proof
    fix n
    have "(if klist k (LMutex n) \<noteq> [] then prio k3 (hd (klist k (LMutex n))) else NO_PRIORITY)
        = (if klist k (LMutex n) \<noteq> [] then prio k (hd (klist k (LMutex n))) else NO_PRIORITY)"
    proof (rule hd_prio_cong)
      fix u assume "u \<in> set (klist k (LMutex n))"
      then have "u \<noteq> t" using listed_suspended [OF b wait_list_simps(2)] t by blast
      then show "prio k3 u = prio k u" by (rule pu)
    qed
    then show "mutex_priority (mutexes k3 n) = (if klist k3 (LMutex n) \<noteq> [] then prio k3 (hd (klist k3 (LMutex n))) else NO_PRIORITY)"
      using hd unfolding head_ok_def l3 by (simp add: m3)
  qed
  moreover have "base_ok k3" using b2 c(1) by (simp add: k3_def)
  ultimately show "mutex_out m k3" using own by (simp add: mutex_out_def f2 m3 own_ok_def)
qed

text \<open>With no waiting thread the mutex has no owner any more.\<close>

lemma release_free_ok:
  assumes o: "mutex_out m k" and e: "klist k (LMutex m) = []" "hold (mutexes k m) = 0"
  shows "mutex_inv (upd_mutex m (\<lambda>r. r\<lparr>mutex_owner := None, mutex_priority := NO_PRIORITY\<rparr>) k) {}" (is "mutex_inv ?k {}")
proof -
  have p: "mutex_priority (mutexes k m) = NO_PRIORITY" using o e by (simp add: mutex_out_def head_ok_def)
  have g: "thread_get_mutex_priority t ?k = thread_get_mutex_priority t k" for t
    by (rule get_priority_cong) (simp_all add: mutex_cap_def p)
  have "inherit_ok ?k {}" using o unfolding mutex_out_def inherit_ok_def g by simp
  moreover have "head_ok ?k" using o e(1) by (simp add: mutex_out_def head_ok_def)
  moreover have "waiters_ok ?k"
  proof -
    have w: "waiters_ok k" using o by (simp add: mutex_out_def)
    have "mutex_owner (mutexes ?k x) \<noteq> None" if "klist k (LMutex x) \<noteq> []" for x
      using that w e(1) unfolding waiters_ok_def by (cases "x = m") simp_all
    then show ?thesis using w unfolding waiters_ok_def upd_mutex_sel by blast
  qed
  moreover have "own_ok ?k" using o e(2) by (simp add: mutex_out_def own_ok_def)
  moreover have "base_ok ?k" using o by (simp add: mutex_out_def)
  ultimately show ?thesis by (simp add: mutex_inv_def)
qed

lemma tlist_remove_base:
  assumes b: "base_ok k" and t: "is_suspended k t"
  shows "base_ok (tlist_remove t k)"
proof -
  have s: "is_suspended (tlist_remove t k) = is_suspended k" by (simp add: is_suspended_def fun_eq_iff)
  have "sched_ex (tlist_remove t k) {}" using b t by (intro tlist_remove_ok) (simp_all add: base_ok_def)
  moreover have "timers_ok (tlist_remove t k)"
    by (rule timers_ok_same [of k]) (use b in \<open>auto simp: base_ok_def timers_ok_def s\<close>)
  ultimately show ?thesis by (simp add: base_ok_def)
qed

text \<open>The mutex goes to the first waiting thread, unless the ceiling would have to raise it.\<close>

lemma handover_ok:
  fixes k n m
  assumes o: "mutex_out m k" and q: "klist k (LMutex m) = n # ts" and c: "prio k n \<le> ceiling_priority (mutexes k m)"
  defines "k7 \<equiv> upd_thread n (\<lambda>r. r\<lparr>pending_object := None\<rparr>) (taken_insert n m
     (upd_mutex m (\<lambda>r. r\<lparr>mutex_owner := Some n, hold := 1\<rparr>) (tlist_remove n k)))"
  defines "k9 \<equiv> mutex_update_priority m (snd (rt_thread_resume n k7))"
  shows "mutex_inv k9 {}" "klist k9 (LMutex m) = ts" "mutex_owner (mutexes k9 m) = Some n" "current k9 = current k"
    "prio k9 = prio k" "is_suspended k9 u \<longleftrightarrow> u \<noteq> n \<and> is_suspended k u" "error (threads k9 u) = error (threads k u)"
proof -
  have b: "base_ok k" and inh: "inherit_ok k {}" and w: "waiters_ok k" and hd: "head_ok k"
    using o by (simp_all add: mutex_out_def)
  have s: "is_suspended k n" by (rule listed_suspended [OF b wait_list_simps(2) [of m]]) (simp add: q)
  have so: "sorted (map (prio k) (n # ts))" using w q unfolding waiters_ok_def by metis
  have nt: "n \<notin> set ts" using base_lists [OF b] q by (metis distinct.simps(2) lists_ok_def)
  have sr: "is_suspended (tlist_remove n k) = is_suspended k" by (simp add: is_suspended_def fun_eq_iff)
  have b7: "base_ok k7" unfolding k7_def using tlist_remove_base [OF b s] by simp
  have s7: "is_suspended k7 = is_suspended k" unfolding k7_def by (simp add: sr)
  have s7n: "is_suspended k7 n" using s s7 by simp
  note r = resume_ok [OF b7 s7n]
  have f7: "klist k7 l = removeAll n (klist k l)" "mutexes k7 = (mutexes k)(m := (mutexes k m)\<lparr>mutex_owner := Some n, hold := 1\<rparr>)"
    "current k7 = current k" for l
    by (simp_all add: k7_def taken_insert_def)
  have l9: "klist k9 (LMutex x) = removeAll n (klist k (LMutex x))" for x
    by (simp add: k9_def r(8) insert_klist f7)
  show lm: "klist k9 (LMutex m) = ts" using nt by (simp add: l9 q)
  have ln: "klist k9 (LMutex x) = klist k (LMutex x)" if "x \<noteq> m" for x
  proof -
    have "n \<notin> set (klist k (LMutex x))" using one_list [OF b, of n "LMutex m" "LMutex x"] q that by auto
    then show ?thesis by (simp add: l9)
  qed
  show su: "is_suspended k9 u \<longleftrightarrow> u \<noteq> n \<and> is_suspended k u" for u by (simp add: k9_def r(4) s7)
  obtain st where th9: "\<And>u. threads k9 u = (if u = n then (threads k7 n)\<lparr>stat := st\<rparr> else threads k7 u)"
    unfolding k9_def mup_sel(1) r(14) by simp
  have fl: "current_priority (threads k9 u) = current_priority (threads k u)" "error (threads k9 u) = error (threads k u)"
    "init_priority (threads k9 u) = init_priority (threads k u)"
    "taken_object_list (threads k9 u) = (if u = n then m # taken_object_list (threads k u) else taken_object_list (threads k u))"
    "pending_object (threads k9 u) = (if u = n then None else pending_object (threads k u))" for u
    unfolding th9 by (simp_all add: k7_def taken_insert_def)
  then show "prio k9 = prio k" "error (threads k9 u) = error (threads k u)" by (simp_all add: fun_eq_iff)
  have mx: "mutex_owner (mutexes k9 x) = (if x = m then Some n else mutex_owner (mutexes k x))"
    "hold (mutexes k9 x) = (if x = m then 1 else hold (mutexes k x))"
    "ceiling_priority (mutexes k9 x) = ceiling_priority (mutexes k x)"
    "x \<noteq> m \<Longrightarrow> mutex_priority (mutexes k9 x) = mutex_priority (mutexes k x)" for x
    by (simp_all add: k9_def r(10) f7)
  show "mutex_owner (mutexes k9 m) = Some n" by (simp add: mx)
  show "current k9 = current k" by (simp add: k9_def r(5) f7)
  have hm: "mutex_priority (mutexes k9 m) = (if ts \<noteq> [] then prio k (hd ts) else NO_PRIORITY)"
    using lm fl(1) by (simp add: k9_def)
  have pn: "prio k n < RT_THREAD_PRIORITY_MAX" using get_priority_bound [OF inh] inh by (simp add: inherit_ok_def)
  have own9: "own_ok k9" using o by (auto simp: own_ok_def fl(4) mx mutex_out_def)
  have "head_ok k9" unfolding head_ok_def
  proof
    fix x
    show "mutex_priority (mutexes k9 x) = (if klist k9 (LMutex x) \<noteq> [] then prio k9 (hd (klist k9 (LMutex x))) else NO_PRIORITY)"
      using hm hd ln [of x] mx(4) [of x] lm unfolding head_ok_def fl(1) by (cases "x = m") simp_all
  qed
  moreover
  have wp: "pending_object (threads k u) = Some x" if "u \<in> set (klist k (LMutex x))" for u x
    using w that unfolding waiters_ok_def by blast
  have wq: "u \<in> set (klist k (LMutex x))" if "is_suspended k u" "pending_object (threads k u) = Some x" for u x
    using w that unfolding waiters_ok_def by blast
  have "waiters_ok k9" unfolding waiters_ok_def
  proof (intro conjI allI impI)
    fix x u
    show "mutex_owner (mutexes k9 x) \<noteq> None" if "klist k9 (LMutex x) \<noteq> []"
      using that w ln [of x] unfolding waiters_ok_def mx by (cases "x = m") simp_all
    show "pending_object (threads k9 u) = Some x" if "u \<in> set (klist k9 (LMutex x))"
      using that wp [of u x] by (simp add: fl l9)
    show "u \<in> set (klist k9 (LMutex x))" if "is_suspended k9 u" "pending_object (threads k9 u) = Some x"
      using that wq [of u x] by (simp add: fl l9 su split: if_splits)
    show "sorted (map (prio k9) (klist k9 (LMutex x)))"
      using w unfolding waiters_ok_def fl l9 by (intro sorted_removeAll) blast
  qed
  moreover have "prio k9 u = thread_get_mutex_priority u k9" for u
  proof (cases "u = n")
    case False
    have "thread_get_mutex_priority u k9 = thread_get_mutex_priority u k"
    proof (rule get_priority_cong)
      fix x assume "x \<in> set (taken_object_list (threads k u))"
      then have "x \<noteq> m" using o unfolding mutex_out_def by blast
      then show "mutex_cap k9 x = mutex_cap k x" by (simp add: mutex_cap_def mx)
    qed (simp_all add: fl False)
    then show ?thesis using inh unfolding inherit_ok_def fl by simp
  next
    case True
    have cm: "prio k n \<le> mutex_cap k9 m"
      using c pn so by (cases ts) (auto simp: mutex_cap_def mx hm rt_const)
    have img: "mutex_cap k9 ` set (taken_object_list (threads k n)) = mutex_cap k ` set (taken_object_list (threads k n))"
    proof (rule image_cong [OF refl])
      fix x assume "x \<in> set (taken_object_list (threads k n))"
      then have "x \<noteq> m" using o unfolding mutex_out_def by blast
      then show "mutex_cap k9 x = mutex_cap k x" by (simp add: mutex_cap_def mx)
    qed
    have "thread_get_mutex_priority n k9 = min (mutex_cap k9 m) (thread_get_mutex_priority n k)"
      unfolding get_priority_Min fl using img by (simp add: insert_commute)
    moreover have "thread_get_mutex_priority n k = prio k n" using inh by (simp add: inherit_ok_def)
    ultimately show ?thesis using True cm fl by simp
  qed
  then have "inherit_ok k9 {}" using inh unfolding inherit_ok_def fl by simp
  moreover have "base_ok k9" using r(1) by (simp add: k9_def)
  ultimately show "mutex_inv k9 {}" using own9 by (simp add: mutex_inv_def)
qed

section \<open>Taking a free mutex\<close>

lemma own_mutex_ok:
  fixes k t m
  assumes i: "mutex_inv k {}" and t: "\<not> is_suspended k t" and n: "mutex_owner (mutexes k m) = None"
  defines "k2 \<equiv> upd_mutex m (\<lambda>r. r\<lparr>mutex_owner := Some t, mutex_priority := NO_PRIORITY, hold := 1\<rparr>) k"
  defines "c \<equiv> ceiling_priority (mutexes k m)"
  defines "k3 \<equiv> (if c \<noteq> NO_PRIORITY \<and> c < prio k t then change_priority t c k2 else k2)"
  shows "mutex_inv (taken_insert t m k3) {}" "current k3 = current k" "mutex_owner (mutexes k3 m) = Some t"
proof -
  let ?k = "taken_insert t m k3"
  have b: "base_ok k" and inh: "inherit_ok k {}" and own: "own_ok k" and w: "waiters_ok k" and hd: "head_ok k"
    using i by (simp_all add: mutex_inv_def)
  have b2: "base_ok k2" using b by (simp add: k2_def)
  have pr: "prio k u = thread_get_mutex_priority u k" for u using inh by (simp add: inherit_ok_def)
  have "prio k t < RT_THREAD_PRIORITY_MAX" using get_priority_bound [OF inh] pr by simp
  then have cb: "c < RT_THREAD_PRIORITY_MAX" if "c < prio k t" using that by simp
  have "c < prio k t \<Longrightarrow> base_ok (change_priority t c k2)" by (rule change_priority_ok(1) [OF b2 cb])
  then have b3: "base_ok ?k" using b2 by (simp add: k3_def)
  have cu: "c < prio k t \<Longrightarrow> current (change_priority t c k2) = current k2" by (rule change_priority_ok(2) [OF b2 cb])
  then show "current k3 = current k" by (simp add: k3_def) (simp add: k2_def)
  have "c < prio k t \<Longrightarrow> mutexes (change_priority t c k2) = mutexes k2" by (rule change_priority_ok(12) [OF b2 cb])
  then have m3: "mutexes k3 = mutexes k2" by (simp add: k3_def)
  then show "mutex_owner (mutexes k3 m) = Some t" by (simp add: k2_def)
  have "c < prio k t \<Longrightarrow> is_suspended (change_priority t c k2) = is_suspended k2" by (rule change_priority_ok(3) [OF b2 cb])
  then have s3: "is_suspended ?k = is_suspended k" by (simp add: k3_def) (simp add: k2_def)
  have "c < prio k t \<Longrightarrow> klist (change_priority t c k2) (LMutex x) = klist k2 (LMutex x)" for x
    by (rule change_priority_ok(14) [OF b2 cb]) simp_all
  then have l3: "klist ?k (LMutex x) = klist k (LMutex x)" for x
    by (simp add: k3_def taken_insert_def) (simp add: k2_def)
  have mm: "mutexes ?k = mutexes k2" using m3 by (simp add: taken_insert_def)
  have fl: "taken_object_list (threads ?k u) = (if u = t then m # taken_object_list (threads k u) else taken_object_list (threads k u))"
    "init_priority (threads ?k u) = init_priority (threads k u)" "pending_object (threads ?k u) = pending_object (threads k u)" for u
    by (simp_all add: taken_insert_def k3_def k2_def)
  have pk: "prio ?k u = (if u = t \<and> c \<noteq> NO_PRIORITY \<and> c < prio k t then c else prio k u)" for u
    by (simp add: taken_insert_def k3_def change_prio_at) (simp add: k2_def)
  have e: "klist k (LMutex m) = []" using w n unfolding waiters_ok_def by blast
  have mp: "mutex_priority (mutexes k2 x) = mutex_priority (mutexes k x)" for x
    using hd e by (simp add: k2_def head_ok_def)
  have cap: "mutex_cap ?k x = mutex_cap k x" for x unfolding mutex_cap_def mm mp by (simp add: k2_def)
  have nm: "m \<notin> set (taken_object_list (threads k u))" for u using own n unfolding own_ok_def by (metis option.distinct(1))
  have nt: "u \<noteq> t" if "u \<in> set (klist k (LMutex x))" for u x
    using listed_suspended [OF b wait_list_simps(2) that] t by blast
  have hp: "(if klist k (LMutex x) \<noteq> [] then prio ?k (hd (klist k (LMutex x))) else NO_PRIORITY)
     = (if klist k (LMutex x) \<noteq> [] then prio k (hd (klist k (LMutex x))) else NO_PRIORITY)" for x
  proof (rule hd_prio_cong)
    fix u assume "u \<in> set (klist k (LMutex x))"
    then show "prio ?k u = prio k u" using nt pk by simp
  qed
  have "own_ok ?k" using own n nm unfolding own_ok_def mm fl by (auto simp: k2_def)
  moreover have "waiters_ok ?k"
  proof -
    have mpr: "map (prio ?k) (klist k (LMutex x)) = map (prio k) (klist k (LMutex x))" for x
    proof (rule map_cong [OF refl])
      fix u assume "u \<in> set (klist k (LMutex x))"
      then show "prio ?k u = prio k u" using nt pk by simp
    qed
    have "mutex_owner (mutexes k2 x) \<noteq> None" if "klist k (LMutex x) \<noteq> []" for x
      using that w unfolding waiters_ok_def by (simp add: k2_def)
    then show ?thesis using w unfolding waiters_ok_def s3 l3 fl mm mpr by blast
  qed
  moreover have "head_ok ?k" using hd unfolding head_ok_def l3 mm mp hp .
  moreover have "prio ?k u = thread_get_mutex_priority u ?k" for u
  proof (cases "u = t")
    case False
    then have "thread_get_mutex_priority u ?k = thread_get_mutex_priority u k"
      by (intro get_priority_cong) (simp_all add: fl cap)
    then show ?thesis using False pk pr by simp
  next
    case True
    have "mutex_cap k ` insert m A = insert (mutex_cap k m) (mutex_cap k ` A)" for A by simp
    then have "thread_get_mutex_priority t ?k = min (mutex_cap k m) (prio k t)"
      unfolding pr get_priority_Min fl using cap by (simp add: insert_commute fun_eq_iff)
    moreover have "mutex_cap k m = min NO_PRIORITY c" using hd e by (simp add: mutex_cap_def c_def head_ok_def)
    moreover have "prio k t < NO_PRIORITY" using get_priority_bound [OF inh, of t] pr by (simp add: rt_const)
    ultimately show ?thesis using True pk by (auto simp: min_def)
  qed
  then have "inherit_ok ?k {}" using inh unfolding inherit_ok_def fl by simp
  ultimately show "mutex_inv ?k {}" using b3 by (simp add: mutex_inv_def)
qed

lemma take_free_ok:
  assumes k: "kernel_ok k" and i: "mutex_inv k {}" and t: "current k = Some t" "tstate k t = RT_THREAD_RUNNING"
    and n: "mutex_owner (mutexes k m) = None"
  shows "\<exists>k'. rt_mutex_take m timeout sf k = Some (Done RT_EOK, k') \<and> kernel_ok k' \<and> mutex_inv k' {}
    \<and> mutex_owner (mutexes k' m) = Some t"
proof -
  define k1 where "k1 = upd_thread t (\<lambda>r. r\<lparr>error := RT_EOK\<rparr>) k"
  define k2 where "k2 = upd_mutex m (\<lambda>r. r\<lparr>mutex_owner := Some t, mutex_priority := NO_PRIORITY, hold := 1\<rparr>) k1"
  define c where "c = ceiling_priority (mutexes k1 m)"
  define k3 where "k3 = (if c \<noteq> NO_PRIORITY \<and> c < prio k1 t then change_priority t c k2 else k2)"
  have i1: "mutex_inv k1 {}" unfolding k1_def by (rule error_mutex_ok [OF i])
  have s1: "\<not> is_suspended k1 t" using t(2) by (simp add: k1_def is_suspended_iff rt_const)
  have n1: "mutex_owner (mutexes k1 m) = None" using n by (simp add: k1_def)
  note o = own_mutex_ok [OF i1 s1 n1, folded k2_def c_def, folded k3_def]
  have b2: "base_ok k2" using i1 by (simp add: k2_def mutex_inv_def)
  have up: "thread_update_priority t c sf k2 = Some (change_priority t c k2)" if "c < prio k1 t"
  proof -
    have "prio k1 t < RT_THREAD_PRIORITY_MAX"
      using get_priority_bound [of k1 "{}" t] i1 by (simp add: mutex_inv_def inherit_ok_def)
    then have "is_suspended (change_priority t c k2) = is_suspended k2"
      using that by (intro change_priority_ok(3) [OF b2]) simp
    then show ?thesis using s1 by (subst thread_update_priority.simps) (simp add: k2_def Let_def)
  qed
  have cl: "ceiling_priority (mutexes k2 m) = c" "prio k2 = prio k1" by (simp_all add: k2_def c_def)
  have ck: "ceiling_priority (mutexes k m) = c" "current_priority (threads k2 u) = current_priority (threads k u)" for u
    by (simp_all add: k2_def k1_def c_def)
  have "rt_mutex_take m timeout sf k = map_option (\<lambda>k3. (Done RT_EOK, taken_insert t m k3))
      (if c \<noteq> NO_PRIORITY \<and> c < prio k2 t then thread_update_priority t c sf k2 else Some k2)"
    using t(1) n by (simp add: rt_mutex_take_def rt_thread_self_def k1_def [symmetric] k2_def [symmetric] Let_def cl(1) ck)
  then have "rt_mutex_take m timeout sf k = Some (Done RT_EOK, taken_insert t m k3)"
    using up fun_cong [OF cl(2), of t] by (simp add: k3_def)
  moreover have "kernel_ok (taken_insert t m k3)"
    using o(1,2) t(1) by (simp add: kernel_ok_base mutex_inv_def) (simp add: k1_def taken_insert_def)
  moreover have "mutex_owner (mutexes (taken_insert t m k3) m) = Some t" using o(3) by (simp add: taken_insert_def)
  ultimately show ?thesis using o(1) by blast
qed

lemma hold_mutex_ok:
  assumes "mutex_inv k {}" "mutex_owner (mutexes k m) = Some t" "h \<noteq> 0"
  shows "mutex_inv (upd_mutex m (\<lambda>r. r\<lparr>hold := h\<rparr>) k) {}" (is "mutex_inv ?k {}")
proof -
  have g: "thread_get_mutex_priority u ?k = thread_get_mutex_priority u k" for u
    by (rule get_priority_cong) (simp_all add: mutex_cap_def)
  have mo: "mutex_owner (mutexes ?k n) = mutex_owner (mutexes k n)" "mutex_priority (mutexes ?k n) = mutex_priority (mutexes k n)" for n
    by simp_all
  have "inherit_ok ?k {}" using assms(1) unfolding mutex_inv_def inherit_ok_def g by simp
  moreover have "head_ok ?k" using assms(1) unfolding mutex_inv_def head_ok_def mo by simp
  moreover have "waiters_ok ?k" using assms(1) unfolding mutex_inv_def waiters_ok_def mo unfolding upd_mutex_sel by blast
  moreover have "own_ok ?k" using assms by (auto simp: mutex_inv_def own_ok_def)
  ultimately show ?thesis using assms(1) by (simp add: mutex_inv_def)
qed

lemma take_held_ok:
  assumes k: "kernel_ok k" and i: "mutex_inv k {}" and t: "current k = Some t" and o: "mutex_owner (mutexes k m) = Some t"
  shows "\<exists>k'. rt_mutex_take m timeout sf k = Some (Done (if hold (mutexes k m) < RT_MUTEX_HOLD_MAX then RT_EOK else - RT_EFULL), k')
    \<and> kernel_ok k' \<and> mutex_inv k' {}"
proof -
  define k1 where "k1 = upd_thread t (\<lambda>r. r\<lparr>error := RT_EOK\<rparr>) k"
  have i1: "mutex_inv k1 {}" unfolding k1_def by (rule error_mutex_ok [OF i])
  have o1: "mutex_owner (mutexes k1 m) = Some t" and h1: "hold (mutexes k1 m) = hold (mutexes k m)" using o by (simp_all add: k1_def)
  have kk: "kernel_ok k1" using k by (simp add: k1_def)
  have u: "upd_mutex m (\<lambda>r. r\<lparr>hold := hold r + 1\<rparr>) k1 = upd_mutex m (\<lambda>r. r\<lparr>hold := hold (mutexes k m) + 1\<rparr>) k1"
    by (simp add: upd_mutex_def h1)
  have "hold (mutexes k m) + 1 \<noteq> 0" if "hold (mutexes k m) < RT_MUTEX_HOLD_MAX"
  proof
    assume "hold (mutexes k m) + 1 = 0"
    then have "hold (mutexes k m) = - 1" by (simp add: eq_neg_iff_add_eq_0)
    then show False using that by (simp add: rt_const)
  qed
  then have "mutex_inv (upd_mutex m (\<lambda>r. r\<lparr>hold := hold r + 1\<rparr>) k1) {}" if "hold (mutexes k m) < RT_MUTEX_HOLD_MAX"
    unfolding u using hold_mutex_ok [OF i1 o1] that by blast
  then show ?thesis using t o i1 kk
    by (simp add: rt_mutex_take_def rt_thread_self_def k1_def [symmetric] Let_def h1)
qed

text \<open>C3. rt_mutex_take always comes to an end, whatever the chain of owners that has to be raised, and keeps
  the invariant of the mutexes: every thread runs at the best of its own priority and those of the threads
  that wait for a mutex it holds, lists of waiting threads are sorted, and owners and their lists of taken
  mutexes agree. The call fails when the mutex is held by another thread and no time is given, or is held
  for the 256th time; without a deadlock (the waits can be ranked) nothing else is needed.
\<close>

theorem mutex_take_keeps:
  assumes "kernel_ok k" "mutex_inv k {}" "current k = Some t" "tstate k t = RT_THREAD_RUNNING" "ranked rank k"
    and "\<And>ow. mutex_owner (mutexes k m) = Some ow \<Longrightarrow> ow \<noteq> t \<Longrightarrow> rank ow < rank t"
  shows "\<exists>k'. rt_mutex_take m timeout sf k = Some
      (case mutex_owner (mutexes k m) of
         None \<Rightarrow> Done RT_EOK
       | Some ow \<Rightarrow> if ow = t then Done (if hold (mutexes k m) < RT_MUTEX_HOLD_MAX then RT_EOK else - RT_EFULL)
                   else if timeout = 0 then Done (- RT_ETIMEOUT) else Waits, k')
    \<and> kernel_ok k' \<and> mutex_inv k' {}"
proof (cases "mutex_owner (mutexes k m)")
  case None
  then show ?thesis using take_free_ok [OF assms(1-4) None] by (metis option.simps(4))
next
  case (Some ow)
  consider "ow = t" | "ow \<noteq> t" "timeout = 0" | "ow \<noteq> t" "timeout \<noteq> 0" by blast
  then show ?thesis
  proof cases
    case 1
    then show ?thesis using take_held_ok [OF assms(1-3)] Some by simp
  next
    case 2
    let ?k' = "upd_thread t (\<lambda>r. r\<lparr>error := - RT_ETIMEOUT\<rparr>) (upd_thread t (\<lambda>r. r\<lparr>error := RT_EOK\<rparr>) k)"
    have "rt_mutex_take m timeout sf k = Some (Done (- RT_ETIMEOUT), ?k')"
      using 2 Some assms(3) by (simp add: rt_mutex_take_def rt_thread_self_def Let_def)
    moreover have "kernel_ok ?k'" "mutex_inv ?k' {}" using assms(1,2) by (simp_all add: error_mutex_ok)
    ultimately show ?thesis using 2 Some by simp
  next
    case 3
    obtain k' where "rt_mutex_take m timeout sf k = Some (Waits, k')" "kernel_ok k'" "mutex_inv k' {}"
      using take_waits_ok [OF assms(1-4) Some 3 assms(5) assms(6) [OF Some 3(1)]] by blast
    then show ?thesis using 3 Some by simp
  qed
qed

lemma release_fields:
  assumes "mutex_owner (mutexes k m) \<noteq> Some (the (current k))"
  shows "rt_mutex_release m k = (- RT_ERROR, upd_thread (the (current k)) (\<lambda>r. r\<lparr>error := - RT_ERROR\<rparr>) k)"
  using assms by (simp add: rt_mutex_release_def rt_thread_self_def Let_def)

lemma schedule_mutex_ok: "mutex_inv k {} \<Longrightarrow> kernel_ok k \<Longrightarrow> mutex_inv (rt_schedule k) {} \<and> kernel_ok (rt_schedule k)"
proof -
  assume i: "mutex_inv k {}" and k: "kernel_ok k"
  obtain c where c: "sched_ok k" "current k = Some c" using k by (auto simp: kernel_ok_def)
  have k': "kernel_ok (rt_schedule k)" by (rule advances_schedule(2) [OF k])
  have "mutex_inv (rt_schedule k) {}"
    by (rule mutex_inv_same [OF i])
      (use k' schedule_suspended(1) [OF c] schedule_wait_lists [OF k] in \<open>simp_all add: kernel_ok_base fun_eq_iff\<close>)
  then show ?thesis using k' by simp
qed

lemma release_last_ok:
  fixes k t m
  assumes k: "kernel_ok k" and i: "mutex_inv k {}" and t: "current k = Some t" "tstate k t = RT_THREAD_RUNNING"
    and o: "mutex_owner (mutexes k m) = Some t" "hold (mutexes k m) = 1"
    and c: "\<And>n ts. klist k (LMutex m) = n # ts \<Longrightarrow> prio k n \<le> ceiling_priority (mutexes k m)"
  defines "k' \<equiv> snd (rt_mutex_release m k)"
  shows "fst (rt_mutex_release m k) = RT_EOK" "kernel_ok k'" "mutex_inv k' {}"
    "klist k (LMutex m) = [] \<Longrightarrow> mutex_owner (mutexes k' m) = None"
    "klist k (LMutex m) = n # ts \<Longrightarrow> mutex_owner (mutexes k' m) = Some n \<and> klist k' (LMutex m) = ts
       \<and> \<not> is_suspended k' n \<and> error (threads k' n) = error (threads k n) \<and> prio k' n = prio k n"
proof -
  have s: "\<not> is_suspended k t" using t(2) by (simp add: is_suspended_iff rt_const)
  define k2 where "k2 = taken_remove m (upd_mutex m (\<lambda>r. r\<lparr>hold := hold r - 1\<rparr>) k)"
  define lower where "lower \<longleftrightarrow> ceiling_priority (mutexes k2 m) \<noteq> NO_PRIORITY \<or> prio k2 t = mutex_priority (mutexes k2 m)"
  define k3 where "k3 = (if lower then change_priority t (thread_get_mutex_priority t k2) k2 else k2)"
  note r = release_out [OF i s o(1), folded k2_def, folded lower_def, folded k3_def]
  define free where "free = upd_mutex m (\<lambda>r. r\<lparr>mutex_owner := None, mutex_priority := NO_PRIORITY\<rparr>) k3"
  define next_kernel where "next_kernel = (\<lambda>n. mutex_update_priority m (snd (rt_thread_resume n
     (upd_thread n (\<lambda>r. r\<lparr>pending_object := None\<rparr>) (taken_insert n m
       (upd_mutex m (\<lambda>r. r\<lparr>mutex_owner := Some n, hold := 1\<rparr>) (tlist_remove n k3)))))))"
  have e: "rt_mutex_release m k = (case klist k3 (LMutex m) of n # _ \<Rightarrow> (RT_EOK, rt_schedule (next_kernel n))
      | [] \<Rightarrow> (RT_EOK, if lower then rt_schedule free else free))"
    unfolding rt_mutex_release_def rt_thread_self_def using t(1) o
    by (cases lower) (auto simp: Let_def k2_def [symmetric] lower_def k3_def free_def next_kernel_def split: list.split)
  have l3: "klist k3 (LMutex m) = klist k (LMutex m)" by (rule r(4))
  show "fst (rt_mutex_release m k) = RT_EOK" by (simp add: e split: list.split)
  have ke: "kernel_ok kk" if "mutex_inv kk {}" "current kk = Some t" for kk
    using that by (simp add: kernel_ok_base mutex_inv_def)
  have A: "kernel_ok k' \<and> mutex_inv k' {} \<and> mutex_owner (mutexes k' m) = None" if "klist k (LMutex m) = []"
  proof -
    have "mutex_inv free {}" unfolding free_def by (rule release_free_ok [OF r(1)]) (simp_all add: l3 that r(5) o)
    moreover from this have "kernel_ok free" by (rule ke) (simp add: free_def r(3) t)
    ultimately show ?thesis using schedule_mutex_ok [of free] that l3 by (simp add: k'_def e free_def)
  qed
  have B: "kernel_ok k' \<and> mutex_inv k' {} \<and> mutex_owner (mutexes k' m) = Some n \<and> klist k' (LMutex m) = ts
       \<and> \<not> is_suspended k' n \<and> error (threads k' n) = error (threads k n) \<and> prio k' n = prio k n"
    if q: "klist k (LMutex m) = n # ts" for n ts
  proof -
    have "is_suspended k n"
      using i q by (intro listed_suspended [of k "LMutex m"]) (simp_all add: mutex_inv_def)
    then have nt: "n \<noteq> t" using s by blast
    have pn: "prio k3 n = prio k n" by (rule r(6) [OF nt])
    have q3: "klist k3 (LMutex m) = n # ts" using q l3 by simp
    have "prio k3 n \<le> ceiling_priority (mutexes k3 m)" using c [OF q] pn r(5) by simp
    note h = handover_ok [OF r(1) q3 this, folded next_kernel_def]
    have ne: "next_kernel n = mutex_update_priority m (snd (rt_thread_resume n
     (upd_thread n (\<lambda>r. r\<lparr>pending_object := None\<rparr>) (taken_insert n m
       (upd_mutex m (\<lambda>r. r\<lparr>mutex_owner := Some n, hold := 1\<rparr>) (tlist_remove n k3))))))"
      by (simp add: next_kernel_def)
    note h = handover_ok [OF r(1) q3 \<open>prio k3 n \<le> ceiling_priority (mutexes k3 m)\<close>, folded ne]
    have kn: "kernel_ok (next_kernel n)" by (rule ke [OF h(1)]) (simp add: h(4) r(3) t)
    have k': "k' = rt_schedule (next_kernel n)" using q3 by (simp add: k'_def e)
    have "prio (next_kernel n) n = prio k n" using fun_cong [OF h(5), of n] pn by simp
    then show ?thesis using schedule_mutex_ok [OF h(1) kn] schedule_wait_lists [OF kn, of "LMutex m"]
      schedule_suspended(1) [of "next_kernel n"] kn h(2,3,6,7) r(7)
      by (auto simp: k' kernel_ok_def)
  qed
  show "kernel_ok k'" "mutex_inv k' {}" using A B by (cases "klist k (LMutex m)"; blast)+
  show "klist k (LMutex m) = [] \<Longrightarrow> mutex_owner (mutexes k' m) = None" using A by blast
  show "klist k (LMutex m) = n # ts \<Longrightarrow> mutex_owner (mutexes k' m) = Some n \<and> klist k' (LMutex m) = ts
       \<and> \<not> is_suspended k' n \<and> error (threads k' n) = error (threads k n) \<and> prio k' n = prio k n" using B by blast
qed

section \<open>Where the code goes wrong\<close>

lemma schedule_mutex_empty: "klist k (LMutex m) = [] \<Longrightarrow> klist (rt_schedule k) (LMutex m) = []"
  by (simp add: rt_schedule_def Let_def insert_klist split: prod.split)

lemma change_mutex_empty: "klist k (LMutex m) = [] \<Longrightarrow> klist (change_priority t p k) (LMutex m) = []"
  by (simp add: change_priority_def Let_def insert_klist)

lemma resume_keeps:
  "prio (snd (rt_thread_resume t k)) u = prio k u" "mutexes (snd (rt_thread_resume t k)) = mutexes k"
  by (simp_all add: rt_thread_resume_def Let_def split_beta)

text \<open>Thread 0 runs and holds mutex 4; thread 1, of the same priority, waits for it.\<close>

definition demo_mutex :: kernel where
  "demo_mutex = demo_threads\<lparr>current := Some 0, rt_current_priority := 1,
     threads := (threads demo_threads)(
       0 := (threads demo_threads 0)\<lparr>stat := RT_THREAD_RUNNING, taken_object_list := [4]\<rparr>,
       1 := (threads demo_threads 1)\<lparr>stat := RT_THREAD_SUSPEND_UNINTERRUPTIBLE, pending_object := Some 4\<rparr>),
     klist := (\<lambda>_. [])(LMutex 4 := [1]),
     mutexes := (mutexes demo_threads)(4 := \<lparr>mutex_owner = Some 0, mutex_priority = 1, hold = 1, ceiling_priority = 255\<rparr>)\<rparr>"

lemma demo_kernel_mutex_inv: "mutex_inv demo_kernel {}"
proof -
  note d = demo_kernel_def demo_ready_def rt_system_scheduler_start_def split_beta demo_threads_def blank_kernel_def
    blank_thread_def insert_klist insert_threads demo_prio_def
  have l: "klist demo_kernel (LMutex m) = []"
    and mx: "mutexes demo_kernel m = \<lparr>mutex_owner = None, mutex_priority = 255, hold = 0, ceiling_priority = 255\<rparr>"
    and f: "taken_object_list (threads demo_kernel t) = []" "pending_object (threads demo_kernel t) = None"
      "init_priority (threads demo_kernel t) = demo_prio t" "current_priority (threads demo_kernel t) = demo_prio t" for m t
    by (simp_all add: d)
  have "thread_get_mutex_priority t demo_kernel = demo_prio t" for t by (simp add: get_priority_Min f)
  moreover have "demo_prio t < RT_THREAD_PRIORITY_MAX" for t by (simp add: demo_prio_def rt_const)
  moreover have "base_ok demo_kernel" using demo_kernel_kernel_ok by (simp add: kernel_ok_base)
  ultimately show ?thesis
    by (simp add: mutex_inv_def own_ok_def waiters_ok_def head_ok_def inherit_ok_def l mx f rt_const)
qed

lemma demo_mutex_facts: "current demo_mutex = Some 0" "klist demo_mutex (LMutex 4) = [1]" "current (thread_timeout 1 demo_mutex) = Some 0"
 "mutex_owner (mutexes demo_mutex 4) = Some 0" "hold (mutexes demo_mutex 4) = 1" "tstate demo_mutex 0 = RT_THREAD_RUNNING"
  by code_simp+

lemma demo_mutex_ok: "kernel_ok demo_mutex" "mutex_inv demo_mutex {}"
proof -
  note d = demo_mutex_def demo_threads_def demo_prio_def blank_kernel_def blank_thread_def
  have s: "is_suspended demo_mutex t \<longleftrightarrow> t = 1" for t by (simp add: d is_suspended_def rt_const)
  have "sched_ex demo_mutex {}"
    by (simp add: sched_ex_def lists_ok_def group_ok_def prio_ok_def thread_ok_def tstate_def is_suspended_def d rt_const)
  moreover have "timers_ok demo_mutex"
    by (simp add: timers_ok_def timer_set_def d)
  ultimately show "kernel_ok demo_mutex" by (simp add: kernel_ok_base base_ok_def) (simp add: d)
  then show "mutex_inv demo_mutex {}"
    by (simp add: mutex_inv_def kernel_ok_base own_ok_def waiters_ok_def head_ok_def inherit_ok_def s get_priority_Min mutex_cap_def) (simp add: d rt_const)
qed
theorem mutex_take_keeps_witness: "\<exists>k'. rt_mutex_take 4 (-1) RT_UNINTERRUPTIBLE demo_kernel = Some (Done RT_EOK, k') \<and> mutex_inv k' {}"
proof -
  have n: "mutex_owner (mutexes demo_kernel 4) = None" by code_simp
  have "pending_object (threads demo_kernel u) = None" for u
    by (simp add: demo_kernel_def demo_ready_def rt_system_scheduler_start_def split_beta demo_threads_def
        blank_kernel_def blank_thread_def insert_threads)
  then have "ranked id demo_kernel" by (simp add: ranked_def)
  then show ?thesis
    using mutex_take_keeps [OF demo_kernel_kernel_ok demo_kernel_mutex_inv demo_kernel_facts(1,3), of id 4 "-1" RT_UNINTERRUPTIBLE] n
    by auto
qed

text \<open>C20. When the running thread releases a mutex it holds once, the mutex goes to the first waiting thread,
  which is awake with the mutex held once and its call about to return RT_EOK, or has no owner if none waits;
  the thread that released it falls back to the priority it is due without it, and the invariant of the
  mutexes is kept. The ceiling of the mutex may not be above the priority of the thread that gets it.
\<close>

theorem mutex_release_keeps:
  assumes "kernel_ok k" "mutex_inv k {}" "current k = Some t" "tstate k t = RT_THREAD_RUNNING"
    and "mutex_owner (mutexes k m) = Some t" "hold (mutexes k m) = 1"
    and "\<And>n ts. klist k (LMutex m) = n # ts \<Longrightarrow> prio k n \<le> ceiling_priority (mutexes k m)"
  shows "let (r, k') = rt_mutex_release m k in
    r = RT_EOK \<and> kernel_ok k' \<and> mutex_inv k' {}
    \<and> (case klist k (LMutex m) of
         [] \<Rightarrow> mutex_owner (mutexes k' m) = None
       | n # ts \<Rightarrow> mutex_owner (mutexes k' m) = Some n \<and> klist k' (LMutex m) = ts \<and> \<not> is_suspended k' n
           \<and> (error (threads k n) = RT_EOK \<longrightarrow> rt_mutex_take_resume m n k' = Some (RT_EOK, k')))"
  using release_last_ok [OF assms]
  by (cases "klist k (LMutex m)") (auto simp: split_beta Let_def rt_mutex_take_resume_def)

theorem mutex_release_keeps_witness:
  "let k' = snd (rt_mutex_release 4 demo_mutex) in mutex_owner (mutexes k' 4) = Some 1 \<and> mutex_inv k' {}"
proof -
  have "prio demo_mutex n \<le> ceiling_priority (mutexes demo_mutex 4)" if "klist demo_mutex (LMutex 4) = n # ts" for n ts
  proof -
    have "n = 1" using that demo_mutex_facts(2) by simp
    moreover have "prio demo_mutex 1 \<le> ceiling_priority (mutexes demo_mutex 4)" by code_simp
    ultimately show ?thesis by simp
  qed
  then show ?thesis
    using mutex_release_keeps [OF demo_mutex_ok demo_mutex_facts(1,6,4,5)] demo_mutex_facts(2)
    by (simp add: split_beta Let_def)
qed

text \<open>C24. A thread whose time is over while it waits for a mutex is made ready and finishes its call later.
  If it is the only one that waits and the owner, which runs on, releases the mutex first, the mutex has
  no owner when the call goes on: \<open>mutex->owner->current_priority\<close> then follows a null pointer (None in the model).
\<close>

theorem mutex_timeout_race:
  assumes "mutex_owner (mutexes k m) = Some ow" "hold (mutexes k m) = 1" "klist k (LMutex m) = [t]"
    and "current (thread_timeout t k) = Some ow"
  shows "rt_mutex_take_resume m t (snd (rt_mutex_release m (thread_timeout t k))) = None"
proof -
  define k1 where "k1 = thread_timeout t k"
  have k1: "mutexes k1 = mutexes k" "error (threads k1 t) = - RT_ETIMEOUT" "klist k1 (LMutex m) = []"
    using assms(3) by (simp_all add: k1_def thread_timeout_def Let_def schedule_mutex_empty insert_klist)
  define k2 where "k2 = taken_remove m (upd_mutex m (\<lambda>r. r\<lparr>hold := hold r - 1\<rparr>) k1)"
  define k3 where "k3 = (if ceiling_priority (mutexes k2 m) \<noteq> NO_PRIORITY \<or> prio k2 ow = mutex_priority (mutexes k2 m)
      then change_priority ow (thread_get_mutex_priority ow k2) k2 else k2)"
  have l3: "klist k3 (LMutex m) = []" using k1(3) by (simp add: k3_def k2_def change_mutex_empty)
  have e3: "error (threads k3 t) = - RT_ETIMEOUT" using k1(2) by (simp add: k3_def k2_def)
  let ?k4 = "upd_mutex m (\<lambda>r. r\<lparr>mutex_owner := None, mutex_priority := NO_PRIORITY\<rparr>) k3"
  obtain k5 where k5: "rt_mutex_release m k1 = (RT_EOK, k5)" "k5 = ?k4 \<or> k5 = rt_schedule ?k4"
    using assms(1,2,4) l3 k1(1) unfolding rt_mutex_release_def rt_thread_self_def
    by (cases "ceiling_priority (mutexes k2 m) \<noteq> NO_PRIORITY \<or> prio k2 ow = mutex_priority (mutexes k2 m)")
      (auto simp: k1_def [symmetric] k2_def [symmetric] k3_def Let_def)
  have "error (threads k5 t) = - RT_ETIMEOUT" "mutex_owner (mutexes k5 m) = None" using k5(2) e3 by auto
  then show ?thesis by (simp add: k1_def [symmetric] k5(1) rt_mutex_take_resume_def mutex_waiter_gone_def rt_const)
qed

theorem mutex_timeout_race_witness:
  "rt_mutex_take_resume 4 1 (snd (rt_mutex_release 4 (thread_timeout 1 demo_mutex))) = None"
  by (rule mutex_timeout_race [OF demo_mutex_facts(4,5,2,3)])

text \<open>The ceiling of a mutex raises a thread that finds it free, but not one that waited for it: after a
  release the new owner runs at its own priority, below the ceiling.
\<close>

theorem mutex_ceiling_lost:
  assumes "current k = Some t" "mutex_owner (mutexes k m) = Some t" "hold (mutexes k m) = 1"
    and "klist k (LMutex m) = n # ts" "n \<noteq> t" "base_ok k" "\<forall>u. init_priority (threads k u) < RT_THREAD_PRIORITY_MAX"
    and "ceiling_priority (mutexes k m) < prio k n"
  shows "let k' = snd (rt_mutex_release m k) in mutex_owner (mutexes k' m) = Some n
    \<and> prio k' n = prio k n \<and> thread_get_mutex_priority n k' < prio k' n"
proof -
  define k2 where "k2 = taken_remove m (upd_mutex m (\<lambda>r. r\<lparr>hold := hold r - 1\<rparr>) k)"
  define lower where "lower \<longleftrightarrow> ceiling_priority (mutexes k2 m) \<noteq> NO_PRIORITY \<or> prio k2 t = mutex_priority (mutexes k2 m)"
  define p where "p = thread_get_mutex_priority t k2"
  define k3 where "k3 = (if lower then change_priority t p k2 else k2)"
  have "p \<le> init_priority (threads k2 t)" by (simp add: p_def get_priority_Min)
  moreover have "init_priority (threads k2 t) = init_priority (threads k t)" by (simp add: k2_def)
  ultimately have pb: "p < RT_THREAD_PRIORITY_MAX" using assms(7) le_less_trans by metis
  have b2: "base_ok k2" using assms(6) by (simp add: k2_def)
  have l3: "klist k3 (LMutex m) = n # ts"
    using change_priority_ok(14) [OF b2 pb wait_list_simps(2) [of m]] assms(4) by (simp add: k3_def) (simp add: k2_def)
  have m3: "mutexes k3 = mutexes k2" using change_priority_ok(12) [OF b2 pb] by (simp add: k3_def)
  have c2: "ceiling_priority (mutexes k2 m) = ceiling_priority (mutexes k m)" "prio k2 n = prio k n"
    using fun_cong [OF taken_remove_sel(14), of _ _ n] by (simp_all add: k2_def)
  have p3: "prio k3 n = prio k n" using assms(5) c2 by (simp add: k3_def change_prio_at)
  define k7 where "k7 = upd_thread n (\<lambda>r. r\<lparr>pending_object := None\<rparr>) (taken_insert n m
     (upd_mutex m (\<lambda>r. r\<lparr>mutex_owner := Some n, hold := 1\<rparr>) (tlist_remove n k3)))"
  define k9 where "k9 = mutex_update_priority m (snd (rt_thread_resume n k7))"
  have e: "snd (rt_mutex_release m k) = rt_schedule k9"
    unfolding rt_mutex_release_def rt_thread_self_def using assms(1-3) l3
    by (cases lower) (auto simp: Let_def k2_def [symmetric] lower_def p_def k3_def k7_def k9_def)
  have "prio k9 n = prio k n" using p3 by (simp add: k9_def resume_keeps k7_def taken_insert_def)
  moreover have "mutex_owner (mutexes k9 m) = Some n" by (simp add: k9_def resume_keeps k7_def taken_insert_def)
  moreover have "m \<in> set (taken_object_list (threads k9 n))"
    by (simp add: k9_def rt_thread_resume_def Let_def split_beta k7_def taken_insert_def)
  moreover have "ceiling_priority (mutexes k9 m) = ceiling_priority (mutexes k m)"
    by (simp add: k9_def resume_keeps k7_def taken_insert_def m3 c2)
  ultimately have "thread_get_mutex_priority n (rt_schedule k9) \<le> ceiling_priority (mutexes k m)"
    unfolding get_priority_Min by (intro Min_le_iff [THEN iffD2]) (auto simp: mutex_cap_def intro!: bexI [of _ m])
  then show ?thesis using assms(8) \<open>prio k9 n = prio k n\<close> \<open>mutex_owner (mutexes k9 m) = Some n\<close>
    by (simp add: e Let_def)
qed

theorem mutex_ceiling_lost_witness:
  "let k = upd_mutex 4 (\<lambda>r. r\<lparr>ceiling_priority := 0\<rparr>) demo_mutex; k' = snd (rt_mutex_release 4 k)
   in thread_get_mutex_priority 1 k' < prio k' 1"
proof -
  let ?k = "upd_mutex 4 (\<lambda>r. r\<lparr>ceiling_priority := 0\<rparr>) demo_mutex"
  have "current ?k = Some 0" "mutex_owner (mutexes ?k 4) = Some 0" "hold (mutexes ?k 4) = 1" "klist ?k (LMutex 4) = [1]"
    "ceiling_priority (mutexes ?k 4) < prio ?k 1"
    by code_simp+
  moreover have "base_ok ?k" using demo_mutex_ok(1) by (simp add: kernel_ok_base)
  moreover have "\<forall>u. init_priority (threads ?k u) < RT_THREAD_PRIORITY_MAX"
    using demo_mutex_ok(2) by (simp add: mutex_inv_def inherit_ok_def)
  ultimately show ?thesis using mutex_ceiling_lost [of ?k 0 4 1 "[]"] by (simp add: Let_def)
qed

end
