(* ===== verification/ThreadEnd.thy ===== *)
theory ThreadEnd
  imports MutexOps
begin

text \<open>
  The end of a thread: \<open>_thread_exit\<close>, rt_thread_detach, rt_thread_delete and rt_thread_control of
  src/thread.c, the list of dead threads and its clean-up by the idle thread of src/idle.c, and the
  interrupt nesting of src/irq.c. Where the end of a thread follows a mutex without an owner the
  model yields None, as in theory Mutex.
\<close>

section \<open>Operations\<close>

subsection \<open>idle.c: the dead threads\<close>

definition rt_thread_defunct_enqueue :: "nat \<Rightarrow> kernel \<Rightarrow> kernel" where
  "rt_thread_defunct_enqueue t k = tlist_insert_after LDefunct t k"

definition rt_thread_defunct_dequeue :: "kernel \<Rightarrow> nat option \<times> kernel" where
  "rt_thread_defunct_dequeue k =
     (case klist k LDefunct of
        [] \<Rightarrow> (None, k)
      | t # _ \<Rightarrow> (Some t, tlist_remove t k))"

text \<open>
  What the clean-up does to a dead thread outside of the kernel state, in the order of the calls. Which
  threads are static objects, and the clean-up function of each, are parameters.
\<close>

datatype cleanup_call = Object_detach nat | Cleanup nat | Free_stack nat | Object_delete nat

definition defunct_calls :: "(nat \<Rightarrow> bool) \<Rightarrow> (nat \<Rightarrow> bool) \<Rightarrow> nat \<Rightarrow> cleanup_call list" where
  "defunct_calls is_systemobject has_cleanup t =
     (if is_systemobject t then [Object_detach t] else [])
     @ (if has_cleanup t then [Cleanup t] else [])
     @ (if is_systemobject t then [] else [Free_stack t, Object_delete t])"

partial_function (option) rt_defunct_execute ::
  "(nat \<Rightarrow> bool) \<Rightarrow> (nat \<Rightarrow> (kernel \<Rightarrow> kernel) option) \<Rightarrow> kernel \<Rightarrow> (cleanup_call list \<times> kernel) option" where
  "rt_defunct_execute is_systemobject cleanup k =
     (case rt_thread_defunct_dequeue k of
        (None, k1) \<Rightarrow> Some ([], k1)
      | (Some t, k1) \<Rightarrow>
          (let k2 = (case cleanup t of None \<Rightarrow> k1 | Some f \<Rightarrow> f k1)
           in Option.bind (rt_defunct_execute is_systemobject cleanup k2)
                (\<lambda>(log, k3). Some (defunct_calls is_systemobject (\<lambda>t. cleanup t \<noteq> None) t @ log, k3))))"

definition RT_IDLE_HOOK_LIST_SIZE :: nat where [rt_const]: "RT_IDLE_HOOK_LIST_SIZE = 4"

text \<open>The list of idle hooks: a hook by number, None for an empty place.\<close>

fun idle_replace :: "nat option \<Rightarrow> nat option \<Rightarrow> nat option list \<Rightarrow> nat option list option" where
  "idle_replace a b [] = None"
| "idle_replace a b (h # hs) = (if h = a then Some (b # hs) else map_option ((#) h) (idle_replace a b hs))"

definition rt_thread_idle_sethook :: "nat \<Rightarrow> nat option list \<Rightarrow> rt_err_t \<times> nat option list" where
  "rt_thread_idle_sethook hook hs =
     (case idle_replace None (Some hook) hs of Some hs' \<Rightarrow> (RT_EOK, hs') | None \<Rightarrow> (- RT_EFULL, hs))"

definition rt_thread_idle_delhook :: "nat \<Rightarrow> nat option list \<Rightarrow> rt_err_t \<times> nat option list" where
  "rt_thread_idle_delhook hook hs =
     (case idle_replace (Some hook) None hs of Some hs' \<Rightarrow> (RT_EOK, hs') | None \<Rightarrow> (- RT_ENOSYS, hs))"

text \<open>One round of the idle thread: the hooks in order, then the clean-up.\<close>

definition idle_round :: "(nat \<Rightarrow> kernel \<Rightarrow> kernel) \<Rightarrow> nat option list \<Rightarrow> (nat \<Rightarrow> bool) \<Rightarrow> (nat \<Rightarrow> (kernel \<Rightarrow> kernel) option)
    \<Rightarrow> kernel \<Rightarrow> (cleanup_call list \<times> kernel) option" where
  "idle_round call hs is_systemobject cleanup k =
     rt_defunct_execute is_systemobject cleanup (fold (\<lambda>h k. case h of None \<Rightarrow> k | Some f \<Rightarrow> call f k) hs k)"

definition rt_thread_idle_init :: "nat \<Rightarrow> kernel \<Rightarrow> kernel" where
  "rt_thread_idle_init idle_thread k =
     snd (rt_thread_startup idle_thread (snd (thread_init idle_thread (RT_THREAD_PRIORITY_MAX - 1) 32 k)))"

subsection \<open>thread.c\<close>

definition thread_exit :: "kernel \<Rightarrow> kernel" where
  "thread_exit k =
     (let t = the (rt_thread_self k);
          k1 = rt_schedule_remove_thread t k;
          k2 = snd (rt_timer_detach (TThread t) k1);
          k3 = upd_thread t (\<lambda>r. r\<lparr>stat := RT_THREAD_CLOSE\<rparr>) k2;
          k4 = rt_thread_defunct_enqueue t k3
      in rt_schedule k4)"

text \<open>rt_thread_detach, and rt_thread_delete, which has the same body.\<close>

definition rt_thread_detach :: "nat \<Rightarrow> kernel \<Rightarrow> (rt_err_t \<times> kernel) option" where
  "rt_thread_detach t k =
     (if tstate k t = RT_THREAD_CLOSE then Some (RT_EOK, k)
      else
        let k1 = (if tstate k t \<noteq> RT_THREAD_INIT then rt_schedule_remove_thread t k else k);
            k2 = snd (rt_timer_detach (TThread t) k1);
            k3 = upd_thread t (\<lambda>r. r\<lparr>stat := RT_THREAD_CLOSE\<rparr>) k2
        in map_option (\<lambda>k4. (RT_EOK, rt_thread_defunct_enqueue t k4))
             (case pending_object (threads k3 t) of
                None \<Rightarrow> Some k3
              | Some m \<Rightarrow> map_option (upd_thread t (\<lambda>r. r\<lparr>pending_object := None\<rparr>)) (rt_mutex_drop_thread m t k3)))"

definition rt_thread_delete :: "nat \<Rightarrow> kernel \<Rightarrow> (rt_err_t \<times> kernel) option" where
  "rt_thread_delete t k = rt_thread_detach t k"

datatype thread_cmd = RT_THREAD_CTRL_STARTUP | RT_THREAD_CTRL_CLOSE | RT_THREAD_CTRL_CHANGE_PRIORITY nat | RT_THREAD_CTRL_OTHER

definition rt_thread_control :: "nat \<Rightarrow> thread_cmd \<Rightarrow> kernel \<Rightarrow> (rt_err_t \<times> kernel) option" where
  "rt_thread_control t cmd k =
     (case cmd of
        RT_THREAD_CTRL_CHANGE_PRIORITY p \<Rightarrow> Some (RT_EOK, change_priority t p k)
      | RT_THREAD_CTRL_STARTUP \<Rightarrow> Some (rt_thread_startup t k)
      | RT_THREAD_CTRL_CLOSE \<Rightarrow> map_option (\<lambda>(err, k1). (err, rt_schedule k1)) (rt_thread_detach t k)
      | RT_THREAD_CTRL_OTHER \<Rightarrow> Some (RT_EOK, k))"

subsection \<open>irq.c\<close>

definition rt_interrupt_enter :: "kernel \<Rightarrow> kernel" where
  "rt_interrupt_enter k = k\<lparr>interrupt_nest := interrupt_nest k + 1\<rparr>"

definition rt_interrupt_leave :: "kernel \<Rightarrow> kernel" where
  "rt_interrupt_leave k = k\<lparr>interrupt_nest := interrupt_nest k - 1\<rparr>"

definition rt_interrupt_get_nest :: "kernel \<Rightarrow> u8" where
  "rt_interrupt_get_nest k = interrupt_nest k"

section \<open>Closing a thread\<close>

lemma defunct_sel [simp]:
  "threads (rt_thread_defunct_enqueue t k) = threads k" "current (rt_thread_defunct_enqueue t k) = current k"
  "timers (rt_thread_defunct_enqueue t k) = timers k" "timer_list (rt_thread_defunct_enqueue t k) = timer_list k"
  "expiring (rt_thread_defunct_enqueue t k) = expiring k" "tstate (rt_thread_defunct_enqueue t k) = tstate k"
  "is_suspended (rt_thread_defunct_enqueue t k) = is_suspended k"
  "klist (rt_thread_defunct_enqueue t k) l = (if l = LDefunct then t # klist k l else klist k l)"
  by (simp_all add: rt_thread_defunct_enqueue_def tlist_insert_after_def tstate_def is_suspended_def fun_eq_iff)

lemma detach_timer_sel [simp]:
  "threads (snd (rt_timer_detach i k)) = threads k" "klist (snd (rt_timer_detach i k)) = klist k"
  "current (snd (rt_timer_detach i k)) = current k" "tstate (snd (rt_timer_detach i k)) = tstate k"
  "is_suspended (snd (rt_timer_detach i k)) = is_suspended k"
  "timer_list (snd (rt_timer_detach i k)) = removeAll i (timer_list k)"
  "mutexes (snd (rt_timer_detach i k)) = mutexes k"
  "sched_ex (snd (rt_timer_detach i k)) X = sched_ex k X"
  by (simp_all add: rt_timer_detach_def)

lemma detach_timer_ok: "timers_ok k \<Longrightarrow> timers_ok (snd (rt_timer_detach i k))"
  unfolding timers_ok_def timer_set_def by (auto simp: rt_timer_detach_def distinct_removeAll)

text \<open>
  The common part: out of the lists, timer off, closed. Then the thread is in no list, and may enter
  the list of dead threads.
\<close>

lemma close_ok:
  fixes k t
  assumes b: "base_ok k" and st: "tstate k t = RT_THREAD_INIT \<Longrightarrow> timer_set k t"
  defines "k3 \<equiv> upd_thread t (\<lambda>r. r\<lparr>stat := RT_THREAD_CLOSE\<rparr>) (snd (rt_timer_detach (TThread t) (rt_schedule_remove_thread t k)))"
  shows "base_ok k3" "\<forall>l. t \<notin> set (klist k3 l)" "tstate k3 t = RT_THREAD_CLOSE" "current k3 = current k"
    "u \<noteq> t \<Longrightarrow> threads k3 u = threads k u" "klist k3 l = removeAll t (klist k l)"
    "mutexes k3 = mutexes k" "init_priority (threads k3 u) = init_priority (threads k u)"
    "pending_object (threads k3 u) = pending_object (threads k u)"
proof -
  let ?k1 = "rt_schedule_remove_thread t k"
  let ?k2 = "snd (rt_timer_detach (TThread t) ?k1)"
  have x: "sched_ex k {}" and ti: "timers_ok k" using b by (simp_all add: base_ok_def)
  have "sched_ex ?k2 {t}" using remove_ok [OF x, of t] by simp
  then have x3: "sched_ex k3 {t}"
    using set_stat_ok [of ?k2 "{t}" t "\<lambda>_. RT_THREAD_CLOSE"] by (simp add: k3_def rt_const)
  show n: "\<forall>l. t \<notin> set (klist k3 l)" by (simp add: k3_def)
  show c: "tstate k3 t = RT_THREAD_CLOSE" by (simp add: k3_def tstate_def rt_const)
  have "\<not> is_suspended k3 t" by (simp add: k3_def is_suspended_def rt_const)
  then have "thread_ok k3 t" using n c by (simp add: thread_ok_def rt_const)
  then have "sched_ex k3 {}" using sched_ex_shrink [OF x3, of "{}"] by blast
  moreover
  have t1: "timers_ok ?k1"
    by (rule timers_ok_same [OF ti]) (use ti in \<open>auto simp: timers_ok_def\<close>)
  have t2: "timers_ok ?k2" by (rule detach_timer_ok [OF t1])
  have ts: "tstate k3 u = (if u = t then RT_THREAD_CLOSE else tstate k u)" for u
    by (simp add: k3_def tstate_def rt_const)
  have sel: "timers k3 = timers ?k2" "timer_list k3 = timer_list ?k2" "expiring k3 = expiring ?k2" by (simp_all add: k3_def)
  have "timers_ok k3"
  proof -
    have "\<forall>u. TThread u \<in> set (timer_list ?k2) \<longrightarrow> is_suspended k3 u"
      using t2 by (auto simp: timers_ok_def k3_def is_suspended_def)
    moreover have "timer_set k3 u" if "tstate k3 u \<noteq> RT_THREAD_INIT" for u
    proof -
      have "timer_set k u"
      proof (cases "u = t")
        case True
        then show ?thesis using st ti unfolding timers_ok_def by blast
      next
        case False
        then show ?thesis using that ti ts [of u] unfolding timers_ok_def by simp
      qed
      then show ?thesis by (auto simp: timer_set_def sel(1) rt_timer_detach_def)
    qed
    ultimately show ?thesis using t2 unfolding timers_ok_def sel by blast
  qed
  ultimately show "base_ok k3" by (simp add: base_ok_def)
  show "current k3 = current k" "u \<noteq> t \<Longrightarrow> threads k3 u = threads k u" "klist k3 l = removeAll t (klist k l)"
    "mutexes k3 = mutexes k" "init_priority (threads k3 u) = init_priority (threads k u)"
    "pending_object (threads k3 u) = pending_object (threads k u)"
    by (simp_all add: k3_def)
qed

text \<open>
  What an update of priorities keeps whatever the state of the mutexes: the invariant of scheduler and
  timers. A thread that is in no list and does not wait stays out of all lists.
\<close>

definition prios_ok :: "kernel \<Rightarrow> bool" where
  "prios_ok k \<longleftrightarrow> base_ok k \<and> (\<forall>u. init_priority (threads k u) < RT_THREAD_PRIORITY_MAX)"

definition base_frame :: "kernel \<Rightarrow> kernel \<Rightarrow> bool" where
  "base_frame k k' \<longleftrightarrow> current k' = current k \<and> tstate k' = tstate k \<and> is_suspended k' = is_suspended k
     \<and> timer_list k' = timer_list k \<and> timers k' = timers k \<and> rt_tick k' = rt_tick k
     \<and> (\<forall>u. error (threads k' u) = error (threads k u))
     \<and> (\<forall>u. \<not> is_suspended k u \<longrightarrow> (\<forall>l. u \<notin> set (klist k l)) \<longrightarrow> (\<forall>l. u \<notin> set (klist k' l)))"

lemma base_frame_trans: "base_frame k k1 \<Longrightarrow> base_frame k1 k2 \<Longrightarrow> base_frame k k2"
  by (simp add: base_frame_def)

lemma due_bound: "\<forall>u. init_priority (threads k u) < RT_THREAD_PRIORITY_MAX \<Longrightarrow> thread_get_mutex_priority t k < RT_THREAD_PRIORITY_MAX"
proof -
  assume a: "\<forall>u. init_priority (threads k u) < RT_THREAD_PRIORITY_MAX"
  have "thread_get_mutex_priority t k \<le> init_priority (threads k t)" by (simp add: get_priority_Min)
  then show ?thesis using a le_less_trans by blast
qed

lemma change_base:
  assumes "prios_ok k" "p < RT_THREAD_PRIORITY_MAX"
  shows "prios_ok (change_priority t p k)" "base_frame k (change_priority t p k)"
proof -
  have b: "base_ok k" using assms(1) by (simp add: prios_ok_def)
  note c = change_priority_ok [OF b assms(2), where t = t]
  show "prios_ok (change_priority t p k)" using assms(1) c(1) by (simp add: prios_ok_def)
  have "\<forall>l. u \<notin> set (klist (change_priority t p k) l)" if n: "\<forall>l. u \<notin> set (klist k l)" for u
  proof -
    have "u = t \<longrightarrow> tstate k t \<noteq> RT_THREAD_READY"
      using n b by (auto simp: base_ok_def sched_ex_def thread_ok_def)
    then show ?thesis using n by (auto simp: change_priority_def Let_def insert_klist)
  qed
  then show "base_frame k (change_priority t p k)" using c by (simp add: base_frame_def)
qed

lemma move_base:
  fixes k t m sf
  assumes k: "prios_ok k" and s: "is_suspended k t"
  defines "k' \<equiv> snd (ipc_list_suspend (LMutex m) t RT_IPC_FLAG_PRIO sf (tlist_remove t k))"
  shows "prios_ok k'" "base_frame k k'" "fst (ipc_list_suspend (LMutex m) t RT_IPC_FLAG_PRIO sf (tlist_remove t k)) = RT_EOK"
proof -
  let ?r = "tlist_remove t k"
  have b: "base_ok ?r" using k s by (intro tlist_remove_base) (simp_all add: prios_ok_def)
  have sr: "is_suspended ?r = is_suspended k" by (simp add: is_suspended_def fun_eq_iff)
  have e: "ipc_list_suspend (LMutex m) t RT_IPC_FLAG_PRIO sf ?r = (RT_EOK, tlist_insert_prio (LMutex m) t ?r)"
    using s by (simp add: ipc_list_suspend_def sr rt_const)
  then show "fst (ipc_list_suspend (LMutex m) t RT_IPC_FLAG_PRIO sf ?r) = RT_EOK" by simp
  have d: "distinct (klist ?r (LMutex m))" using base_lists [OF b] by (simp add: lists_ok_def)
  have "base_ok (?r\<lparr>klist := (klist ?r)(LMutex m := prio_insert (prio ?r) t (klist ?r (LMutex m)))\<rparr>)"
    by (rule enter_list_ok [OF b]) (use s sr d in auto)
  then show "prios_ok k'" using k by (simp add: k'_def e tlist_insert_prio_def prios_ok_def)
  have ke: "k' = tlist_insert_prio (LMutex m) t ?r" by (simp add: k'_def e)
  have "threads k' = threads k" "current k' = current k" "timer_list k' = timer_list k" "timers k' = timers k" "rt_tick k' = rt_tick k"
    "klist k' l = (if l = LMutex m then prio_insert (prio k) t (removeAll t (klist k l)) else removeAll t (klist k l))" for l
    by (simp_all add: ke tlist_insert_prio_def tlist_remove_def)
  moreover from this have "tstate k' = tstate k" "is_suspended k' = is_suspended k"
    by (simp_all add: tstate_def is_suspended_def fun_eq_iff)
  ultimately show "base_frame k k'" using s by (auto simp: base_frame_def)
qed

lemma mup_base: "prios_ok k \<Longrightarrow> prios_ok (mutex_update_priority m k)" "base_frame k (mutex_update_priority m k)"
  by (simp_all add: prios_ok_def base_frame_def)

lemma update_priority_base:
  assumes "thread_update_priority t p sf k = Some k'" "prios_ok k" "p < RT_THREAD_PRIORITY_MAX"
  shows "prios_ok k' \<and> base_frame k k'"
proof -
  have "prios_ok k \<longrightarrow> p < RT_THREAD_PRIORITY_MAX \<longrightarrow> prios_ok k' \<and> base_frame k k'"
  proof (rule thread_update_priority.raw_induct [OF _ assms(1)], intro impI)
    fix f :: "nat \<Rightarrow> nat \<Rightarrow> suspend_flag \<Rightarrow> kernel \<Rightarrow> kernel option" and t p sf k k'
    assume IH: "\<And>t p sf k k'. f t p sf k = Some k' \<Longrightarrow> prios_ok k \<longrightarrow> p < RT_THREAD_PRIORITY_MAX \<longrightarrow> prios_ok k' \<and> base_frame k k'"
    assume k: "prios_ok k" and p: "p < RT_THREAD_PRIORITY_MAX"
    define k1 where "k1 = change_priority t p k"
    note c = change_base [OF k p, of t, folded k1_def]
    assume e: "(let k1 = change_priority t p k
      in if is_suspended k1 t then
           (case pending_object (threads k1 t) of
              None \<Rightarrow> Some k1
            | Some m \<Rightarrow>
                (let k2 = tlist_remove t k1;
                     (ret, k3) = ipc_list_suspend (LMutex m) t RT_IPC_FLAG_PRIO sf k2
                 in if ret \<noteq> RT_EOK then Some k3
                    else let k4 = mutex_update_priority m k3
                         in (case mutex_owner (mutexes k4 m) of
                               None \<Rightarrow> None
                             | Some ow \<Rightarrow>
                                 (let mp = thread_get_mutex_priority ow k4
                                  in if mp \<noteq> prio k4 ow then f ow mp sf k4
                                     else Some k4))))
         else Some k1) = Some k'"
    show "prios_ok k' \<and> base_frame k k'"
    proof (cases "is_suspended k1 t \<and> (\<exists>m. pending_object (threads k1 t) = Some m)")
      case False
      then have "k' = k1" using e by (auto simp: k1_def [symmetric] Let_def split: option.splits if_splits)
      then show ?thesis using c by simp
    next
      case True
      then obtain m where m: "is_suspended k1 t" "pending_object (threads k1 t) = Some m" by blast
      define k3 where "k3 = snd (ipc_list_suspend (LMutex m) t RT_IPC_FLAG_PRIO sf (tlist_remove t k1))"
      define k4 where "k4 = mutex_update_priority m k3"
      note mv = move_base [OF c(1) m(1), of m sf, folded k3_def]
      have e3: "ipc_list_suspend (LMutex m) t RT_IPC_FLAG_PRIO sf (tlist_remove t k1) = (RT_EOK, k3)"
        using mv(3) by (simp add: k3_def prod_eq_iff)
      have b4: "prios_ok k4" "base_frame k k4" unfolding k4_def
        using mup_base mv base_frame_trans [OF c(2) base_frame_trans [OF mv(2) mup_base(2)]] by blast+
      have "(case mutex_owner (mutexes k4 m) of None \<Rightarrow> None | Some ow \<Rightarrow>
          (let mp = thread_get_mutex_priority ow k4 in if mp \<noteq> prio k4 ow then f ow mp sf k4 else Some k4)) = Some k'"
        using e m unfolding k1_def [symmetric] Let_def k4_def by (simp add: e3)
      then obtain ow where ow: "(let mp = thread_get_mutex_priority ow k4 in if mp \<noteq> prio k4 ow then f ow mp sf k4 else Some k4) = Some k'"
        by (cases "mutex_owner (mutexes k4 m)") simp_all
      have "thread_get_mutex_priority ow k4 < RT_THREAD_PRIORITY_MAX"
        using b4(1) by (intro due_bound) (simp add: prios_ok_def)
      then show ?thesis using ow b4 IH [of ow "thread_get_mutex_priority ow k4" sf k4 k'] base_frame_trans [OF b4(2)]
        by (auto simp: Let_def split: if_splits)
    qed
  qed
  then show ?thesis using assms(2,3) by blast
qed

lemma waiter_gone_base:
  assumes e: "mutex_waiter_gone m t k = Some k'" and k: "prios_ok k"
  shows "prios_ok k'" "base_frame k k'"
proof -
  obtain ow where ow: "mutex_owner (mutexes k m) = Some ow" using e by (auto simp: mutex_waiter_gone_def split: option.splits)
  let ?k1 = "mutex_update_priority m k"
  note k1 = mup_base(1) [OF k, of m]
  have b: "thread_get_mutex_priority ow ?k1 < RT_THREAD_PRIORITY_MAX" using k1 by (intro due_bound) (simp add: prios_ok_def)
  have "k' = ?k1 \<or> thread_update_priority ow (thread_get_mutex_priority ow ?k1) RT_UNINTERRUPTIBLE ?k1 = Some k'"
    using e ow by (auto simp: mutex_waiter_gone_def Let_def split: if_splits)
  then have "prios_ok k' \<and> base_frame ?k1 k'"
    using update_priority_base [OF _ k1 b] k1 by (auto simp: base_frame_def)
  then show "prios_ok k'" "base_frame k k'" using base_frame_trans [OF mup_base(2)] by blast+
qed

lemma enqueue_ok:
  assumes b: "base_ok k" and n: "\<forall>l. t \<notin> set (klist k l)" and c: "tstate k t = RT_THREAD_CLOSE"
  shows "base_ok (rt_thread_defunct_enqueue t k)"
proof -
  let ?k = "rt_thread_defunct_enqueue t k"
  have x: "sched_ex k {}" and ti: "timers_ok k" using b by (simp_all add: base_ok_def)
  have mem: "u \<in> set (klist ?k l) \<longleftrightarrow> u \<in> set (klist k l) \<or> u = t \<and> l = LDefunct" for u l by auto
  have rd: "klist ?k (LReady p) = klist k (LReady p)" for p by simp
  have "distinct (klist ?k l)" for l using x n by (simp add: sched_ex_def lists_ok_def)
  then have "lists_ok (klist ?k)" using x n unfolding lists_ok_def mem by (auto simp: sched_ex_def lists_ok_def)
  moreover have "group_ok (ready_group ?k) (klist ?k)"
    using x by (simp add: sched_ex_def group_ok_def rt_thread_defunct_enqueue_def tlist_insert_after_def)
  moreover have "thread_ok ?k u" for u
  proof -
    have "thread_ok k u" using x by (simp add: sched_ex_def)
    then show ?thesis using c n unfolding thread_ok_def mem by (auto simp: wait_list_def)
  qed
  moreover have "prio_ok ?k u" for u using x by (auto simp: sched_ex_def prio_ok_def)
  moreover have "\<forall>u p. u \<in> set (klist k (LReady p)) \<longrightarrow> p = prio k u \<and> number_mask (threads k u) = push_bit (prio k u) 1"
    using x by (simp add: sched_ex_def)
  ultimately have "sched_ex ?k {}" unfolding sched_ex_def rd by simp blast
  moreover have "timers_ok ?k" using ti by (simp add: timers_ok_def timer_set_def)
  ultimately show ?thesis by (simp add: base_ok_def)
qed

lemma init_nowhere:
  assumes b: "base_ok k" and t: "tstate k t = RT_THREAD_INIT"
  shows "t \<notin> set (klist k l)" "rt_schedule_remove_thread t k = k"
proof -
  have x: "sched_ex k {}" using b by (simp add: base_ok_def)
  have n: "t \<notin> set (klist k l)" for l
  proof -
    have "thread_ok k t" using x by (simp add: sched_ex_def)
    then show ?thesis using t by (cases l) (auto simp: thread_ok_def is_suspended_iff rt_const)
  qed
  then show "t \<notin> set (klist k l)" .
  have po: "prio_ok k t" and g: "group_ok (ready_group k) (klist k)" using x by (simp_all add: sched_ex_def)
  have l: "tlist_remove t k = k" using n by (simp add: tlist_remove_def)
  have "ready_group k AND NOT (number_mask (threads k t)) = ready_group k" if "klist k (LReady (prio k t)) = []"
  proof (rule bit_word_eqI)
    fix q assume "q < LENGTH(32)"
    show "bit (ready_group k AND NOT (number_mask (threads k t))) q = bit (ready_group k) q"
      using po g that by (cases "number_mask (threads k t) = 0")
        (auto simp: prio_ok_def group_ok_def bit_clear_mask simp del: push_bit_of_1)
  qed
  then show "rt_schedule_remove_thread t k = k" by (simp add: rt_schedule_remove_thread_def l Let_def)
qed

text \<open>Detaching a thread: it is closed and among the dead threads, in no other list, its timer is off.\<close>

lemma detach_ok:
  assumes k: "prios_ok k" and i: "tstate k t = RT_THREAD_INIT \<Longrightarrow> timer_set k t"
    and e: "rt_thread_detach t k = Some (r, k')"
  shows "prios_ok k'" "r = RT_EOK" "tstate k' t = RT_THREAD_CLOSE" "current k' = current k"
    "tstate k t \<noteq> RT_THREAD_CLOSE \<Longrightarrow> t \<in> set (klist k' LDefunct) \<and> TThread t \<notin> set (timer_list k')"
proof -
  have b: "base_ok k" using k by (simp add: prios_ok_def)
  define k3 where "k3 = upd_thread t (\<lambda>r. r\<lparr>stat := RT_THREAD_CLOSE\<rparr>)
     (snd (rt_timer_detach (TThread t) (rt_schedule_remove_thread t k)))"
  note c = close_ok [OF b i, folded k3_def]
  have "prios_ok k' \<and> r = RT_EOK \<and> tstate k' t = RT_THREAD_CLOSE \<and> current k' = current k
    \<and> (tstate k t \<noteq> RT_THREAD_CLOSE \<longrightarrow> t \<in> set (klist k' LDefunct) \<and> TThread t \<notin> set (timer_list k'))"
  proof (cases "tstate k t = RT_THREAD_CLOSE")
    case True
    then show ?thesis using e k by (simp add: rt_thread_detach_def)
  next
    case False
    have rm: "(if tstate k t \<noteq> RT_THREAD_INIT then rt_schedule_remove_thread t k else k) = rt_schedule_remove_thread t k"
      using init_nowhere(2) [OF b] by simp
    have "map_option (\<lambda>k4. (RT_EOK, rt_thread_defunct_enqueue t k4)) (case pending_object (threads k3 t) of None \<Rightarrow> Some k3
          | Some m \<Rightarrow> map_option (upd_thread t (\<lambda>r. r\<lparr>pending_object := None\<rparr>)) (rt_mutex_drop_thread m t k3)) = Some (r, k')"
      using e False unfolding rt_thread_detach_def Let_def rm k3_def by simp
    then obtain k4 where k4: "(case pending_object (threads k3 t) of None \<Rightarrow> Some k3
          | Some m \<Rightarrow> map_option (upd_thread t (\<lambda>r. r\<lparr>pending_object := None\<rparr>)) (rt_mutex_drop_thread m t k3)) = Some k4"
        and k': "k' = rt_thread_defunct_enqueue t k4" "r = RT_EOK"
      by (auto simp only: map_option_eq_Some prod.inject)
    have p3: "prios_ok k3" using c(1,8) k by (simp add: prios_ok_def)
    have r3: "tlist_remove t k3 = k3" using c(2) by (simp add: tlist_remove_def)
    have ns: "\<not> is_suspended k3 t" using c(3) by (auto simp: is_suspended_iff rt_const)
    have "prios_ok k4 \<and> tstate k4 = tstate k3 \<and> current k4 = current k3 \<and> timer_list k4 = timer_list k3 \<and> (\<forall>l. t \<notin> set (klist k4 l))"
    proof (cases "pending_object (threads k3 t)")
      case None
      then show ?thesis using k4 p3 c(2) by simp
    next
      case (Some m)
      then obtain k5 where k5: "mutex_waiter_gone m t k3 = Some k5" "k4 = upd_thread t (\<lambda>r. r\<lparr>pending_object := None\<rparr>) k5"
        using k4 r3 by (auto simp: rt_mutex_drop_thread_def)
      note w = waiter_gone_base [OF k5(1) p3]
      have "\<forall>l. t \<notin> set (klist k5 l)" using w(2) ns c(2) by (simp add: base_frame_def)
      then show ?thesis using w by (simp add: k5(2) prios_ok_def base_frame_def)
    qed
    moreover have "TThread t \<notin> set (timer_list k3)" by (simp add: k3_def)
    ultimately show ?thesis using c(3,4) k' enqueue_ok [of k4 t] by (simp add: prios_ok_def)
  qed
  then show "prios_ok k'" "r = RT_EOK" "tstate k' t = RT_THREAD_CLOSE" "current k' = current k"
    "tstate k t \<noteq> RT_THREAD_CLOSE \<Longrightarrow> t \<in> set (klist k' LDefunct) \<and> TThread t \<notin> set (timer_list k')"
    by blast+
qed

lemma schedule_defunct:
  assumes k: "kernel_ok k"
  shows "klist (rt_schedule k) LDefunct = klist k LDefunct"
proof (cases "lock_nest k = 0 \<and> ready_group k \<noteq> 0")
  case False
  then show ?thesis by (auto simp: rt_schedule_def)
next
  case go: True
  obtain c where c: "current k = Some c" using k by (auto simp: kernel_ok_def)
  obtain t0 hp where hp: "get_highest_priority_thread k = (t0, hp)" by (cases "get_highest_priority_thread k")
  have x: "sched_ex k {}" and ok: "sched_ok k" using k kernel_okD by auto
  have d: "tstate k u = RT_THREAD_CLOSE" if "u \<in> set (klist k LDefunct)" for u
    using that x unfolding sched_ex_def thread_ok_def by blast
  have t0: "t0 \<in> set (klist k (LReady hp))" using get_highest_least [OF x _ hp] go by simp
  then have "tstate k t0 = RT_THREAD_READY" using x unfolding sched_ex_def thread_ok_def by blast
  then have nt: "t0 \<notin> set (klist k LDefunct)" using d [of t0] by (auto simp: rt_const)
  have gl: "lock_nest k = 0" "ready_group k \<noteq> 0" using go by simp_all
  from ok c gl hp show ?thesis
  proof (cases rule: schedule_cases)
    case (keep k1)
    then have "c \<notin> set (klist k LDefunct)" using d [of c] by (auto simp: rt_const)
    then show ?thesis using keep by simp
  next
    case (preempt k1)
    then show ?thesis using nt by (simp add: insert_klist)
  next
    case switch
    then show ?thesis using nt by simp
  qed
qed

lemma exit_ok:
  assumes k: "kernel_ok k" and t: "current k = Some t" "tstate k t \<noteq> RT_THREAD_INIT"
  shows "kernel_ok (thread_exit k)" "tstate (thread_exit k) t = RT_THREAD_CLOSE"
    "t \<in> set (klist (thread_exit k) LDefunct)" "TThread t \<notin> set (timer_list (thread_exit k))"
proof -
  have b: "base_ok k" using k by (simp add: kernel_ok_base)
  define k3 where "k3 = upd_thread t (\<lambda>r. r\<lparr>stat := RT_THREAD_CLOSE\<rparr>)
     (snd (rt_timer_detach (TThread t) (rt_schedule_remove_thread t k)))"
  have c: "base_ok k3" "\<forall>l. t \<notin> set (klist k3 l)" "tstate k3 t = RT_THREAD_CLOSE" "current k3 = current k"
    using close_ok [OF b, where t = t, folded k3_def] t(2) by blast+
  let ?k4 = "rt_thread_defunct_enqueue t k3"
  have e: "thread_exit k = rt_schedule ?k4" by (simp add: thread_exit_def rt_thread_self_def t(1) Let_def k3_def)
  have k4: "kernel_ok ?k4" using enqueue_ok [OF c(1-3)] c(4) t(1) by (simp add: kernel_ok_base)
  then show ko: "kernel_ok (thread_exit k)" unfolding e by (rule advances_schedule(2))
  obtain cc where cc: "sched_ok ?k4" "current ?k4 = Some cc" using k4 by (auto simp: kernel_ok_def)
  have ns: "\<not> is_suspended ?k4 t" "tstate ?k4 t \<notin> {RT_THREAD_READY, RT_THREAD_RUNNING}"
    using c(3) by (auto simp: is_suspended_iff rt_const)
  then show ts: "tstate (thread_exit k) t = RT_THREAD_CLOSE"
    unfolding e using schedule_suspended(2) [OF cc, of t] c(3) by simp
  show "TThread t \<notin> set (timer_list (thread_exit k))" by (simp add: e k3_def)
  show "t \<in> set (klist (thread_exit k) LDefunct)" unfolding e schedule_defunct [OF k4] by simp
qed

section \<open>Cleaning up\<close>

lemma defunct_execute_log:
  assumes "\<forall>t f k. cleanup t = Some f \<longrightarrow> klist (f k) LDefunct = klist k LDefunct" "distinct (klist k LDefunct)"
  shows "\<exists>k'. rt_defunct_execute sys cleanup k
      = Some (concat (map (defunct_calls sys (\<lambda>t. cleanup t \<noteq> None)) (klist k LDefunct)), k') \<and> klist k' LDefunct = []"
  using assms(2)
proof (induction "klist k LDefunct" arbitrary: k)
  case Nil
  then show ?case by (subst rt_defunct_execute.simps) (simp add: rt_thread_defunct_dequeue_def)
next
  case (Cons t ts)
  let ?k2 = "case cleanup t of None \<Rightarrow> tlist_remove t k | Some f \<Rightarrow> f (tlist_remove t k)"
  have q: "klist k LDefunct = t # ts" and d: "t \<notin> set ts" "distinct ts" using Cons.hyps(2) [symmetric] Cons.prems by simp_all
  have "klist ?k2 LDefunct = klist (tlist_remove t k) LDefunct" using assms(1) by (auto split: option.split)
  then have l: "klist ?k2 LDefunct = ts" using q d by (simp add: tlist_remove_def)
  obtain k' where "rt_defunct_execute sys cleanup ?k2
      = Some (concat (map (defunct_calls sys (\<lambda>t. cleanup t \<noteq> None)) ts), k')" "klist k' LDefunct = []"
    using Cons.hyps(1) [OF l [symmetric]] l d by auto
  then show ?case using q by (subst rt_defunct_execute.simps) (simp add: rt_thread_defunct_dequeue_def Let_def)
qed

lemma count_calls:
  "count_list (concat (map (defunct_calls sys c) ts)) (Free_stack t) = (if sys t then 0 else count_list ts t)"
  "count_list (concat (map (defunct_calls sys c) ts)) (Object_delete t) = (if sys t then 0 else count_list ts t)"
  "count_list (concat (map (defunct_calls sys c) ts)) (Object_detach t) = (if sys t then count_list ts t else 0)"
  by (induction ts) (auto simp: defunct_calls_def)

lemma count_distinct: "distinct ts \<Longrightarrow> count_list ts t = (if t \<in> set ts then 1 else 0)"
  by (induction ts) auto

text \<open>C39. A thread that returns from its entry function is closed, switched away from and put on the list of dead
  threads; the next clean-up of the idle thread ends, leaves the list empty, and frees the stack and the
  object of the thread exactly once, or detaches the object exactly once if it is a static one.
\<close>

theorem exit_frees_once:
  assumes "kernel_ok k" "current k = Some t" "tstate k t = RT_THREAD_RUNNING"
    and "\<forall>t f k. cleanup t = Some f \<longrightarrow> klist (f k) LDefunct = klist k LDefunct"
  shows "kernel_ok (thread_exit k) \<and> tstate (thread_exit k) t = RT_THREAD_CLOSE
    \<and> (\<exists>log k'. rt_defunct_execute is_systemobject cleanup (thread_exit k) = Some (log, k') \<and> klist k' LDefunct = []
        \<and> count_list log (Free_stack t) = (if is_systemobject t then 0 else 1)
        \<and> count_list log (Object_delete t) = (if is_systemobject t then 0 else 1)
        \<and> count_list log (Object_detach t) = (if is_systemobject t then 1 else 0))"
proof -
  have ni: "tstate k t \<noteq> RT_THREAD_INIT" using assms(3) by (simp add: rt_const)
  note e = exit_ok [OF assms(1,2) ni]
  have d: "distinct (klist (thread_exit k) LDefunct)"
    using e(1) base_lists [of "thread_exit k"] by (simp add: kernel_ok_base lists_ok_def)
  obtain k' where "rt_defunct_execute is_systemobject cleanup (thread_exit k)
      = Some (concat (map (defunct_calls is_systemobject (\<lambda>t. cleanup t \<noteq> None)) (klist (thread_exit k) LDefunct)), k')"
    "klist k' LDefunct = []"
    using defunct_execute_log [where cleanup = cleanup, OF assms(4) d] by blast
  then show ?thesis using e count_distinct [OF d, of t] by (simp add: count_calls)
qed

theorem exit_frees_once_witness: "tstate (thread_exit demo_kernel) 0 = RT_THREAD_CLOSE"
  using exit_frees_once [OF demo_kernel_kernel_ok demo_kernel_facts(1,3), of "\<lambda>_. None" "\<lambda>_. False"] by simp

end
