(* ===== verification/Waiting.thy ===== *)
theory Waiting
  imports Ipc
begin

text \<open>
  What the blocking calls of mailboxes and message queues share: the body of their waiting loop up to the
  switch to another thread, the time that is left when the thread runs again, and the end of a call that
  wakes the first waiting thread. Each of these pieces of code stands several times in src/ipc.c.
\<close>

definition wait_on :: "lid \<Rightarrow> u8 \<Rightarrow> suspend_flag \<Rightarrow> int \<Rightarrow> kernel \<Rightarrow> blocking \<times> kernel" where
  "wait_on l flag sf timeout k =
     (let t = the (rt_thread_self k);
          k1 = upd_thread t (\<lambda>r. r\<lparr>error := - RT_EINTR\<rparr>) k;
          (ret, k2) = ipc_list_suspend l t flag sf k1
      in if ret \<noteq> RT_EOK then (Done ret, k2)
         else let k3 = (if timeout > 0 then arm_timer t (word_of_int timeout) k2 else k2)
              in (Waits, rt_schedule k3))"

text \<open>
  After the wait: \<open>timeout -= rt_tick_get() - tick_delta\<close> in 32 bits, a negative rest becoming 0. A
  negative timeout, waiting forever, stays.
\<close>

definition time_left :: "int \<Rightarrow> u32 \<Rightarrow> u32 \<Rightarrow> int" where
  "time_left timeout start now =
     (if timeout > 0 then
        let rest = sint (word_of_int timeout - (now - start) :: u32) in if rest < 0 then 0 else rest
      else timeout)"

definition wake_first :: "lid \<Rightarrow> kernel \<Rightarrow> kernel" where
  "wake_first l k = (if klist k l \<noteq> [] then rt_schedule (snd (ipc_list_resume l k)) else k)"

lemma wait_on_ok:
  fixes l flag sf timeout k t
  assumes k: "kernel_ok k" and l: "wait_list l"
    and f: "flag = RT_IPC_FLAG_FIFO \<or> flag = RT_IPC_FLAG_PRIO"
    and t: "current k = Some t" "tstate k t = RT_THREAD_RUNNING"
  defines "k' \<equiv> snd (wait_on l flag sf timeout k)"
  shows "fst (wait_on l flag sf timeout k) = Waits" "kernel_ok k'" "is_suspended k' t"
    "klist k' l = queued flag (prio k) t (klist k l)" "wait_list m \<Longrightarrow> m \<noteq> l \<Longrightarrow> klist k' m = klist k m"
    "error (threads k' t) = - RT_EINTR"
    "timeout > 0 \<Longrightarrow> TThread t \<in> set (timer_list k') \<and> timeout_tick (timers k' (TThread t)) = rt_tick k + word_of_int timeout"
    "timeout \<le> 0 \<Longrightarrow> timer_list k' = timer_list k"
    "sems k' = sems k" "mutexes k' = mutexes k" "events k' = events k" "rt_tick k' = rt_tick k" "prio k' = prio k"
proof -
  let ?k1 = "upd_thread t (\<lambda>r. r\<lparr>error := - RT_EINTR\<rparr>) k"
  let ?k2 = "snd (ipc_list_suspend l t flag sf ?k1)"
  let ?k3 = "if timeout > (0 :: int) then arm_timer t (word_of_int timeout) ?k2 else ?k2"
  have b: "base_ok ?k1" using k by (simp add: kernel_ok_base)
  have r: "tstate ?k1 t = RT_THREAD_READY \<or> tstate ?k1 t = RT_THREAD_RUNNING" using t by simp
  note s = list_suspend_ok [OF b r l f, where sf = sf]
  have k2: "kernel_ok ?k2" using s(1,6) t by (simp add: kernel_ok_base)
  have st: "is_suspended ?k2 t" using s(3) by blast
  note bl = block_ok [OF k2 st, where timeout = timeout and n = "word_of_int timeout"]
  have pp: "prio ?k1 = prio k" by (simp add: fun_eq_iff)
  have e: "wait_on l flag sf timeout k = (Waits, rt_schedule ?k3)"
    using t s(2) by (simp add: wait_on_def rt_thread_self_def split_beta Let_def)
  show "fst (wait_on l flag sf timeout k) = Waits" by (simp add: e)
  show "kernel_ok k'" unfolding k'_def e snd_conv by (rule bl(1))
  show "is_suspended k' t" using bl(2) st by (simp add: k'_def e)
  show "klist k' l = queued flag (prio k) t (klist k l)"
    unfolding k'_def e snd_conv bl(3) [OF l] s(4) pp by simp
  show "wait_list m \<Longrightarrow> m \<noteq> l \<Longrightarrow> klist k' m = klist k m"
    unfolding k'_def e snd_conv using bl(3) s(5) by simp
  show "error (threads k' t) = - RT_EINTR" unfolding k'_def e snd_conv bl(7) s(13) by simp
  show "timeout > 0 \<Longrightarrow> TThread t \<in> set (timer_list k') \<and> timeout_tick (timers k' (TThread t)) = rt_tick k + word_of_int timeout"
    using bl(10) s(7) unfolding k'_def e snd_conv by simp
  show "timeout \<le> 0 \<Longrightarrow> timer_list k' = timer_list k" using bl(11) s(9) unfolding k'_def e snd_conv by simp
  show "sems k' = sems k" "mutexes k' = mutexes k" "events k' = events k" "rt_tick k' = rt_tick k"
    unfolding k'_def e snd_conv bl(4-6,12) s(7,10-12) by simp_all
  show "prio k' = prio k" unfolding k'_def e snd_conv bl(14) s(14) by (rule pp)
qed

lemma wake_first_ok:
  fixes l k
  assumes k: "kernel_ok k" and l: "wait_list l"
  defines "k' \<equiv> wake_first l k"
  shows "kernel_ok k'" "klist k' l = tl (klist k l)" "wait_list m \<Longrightarrow> m \<noteq> l \<Longrightarrow> klist k' m = klist k m"
    "klist k l = t # ts \<Longrightarrow> \<not> is_suspended k' t \<and> error (threads k' t) = RT_EOK"
    "klist k l = [] \<Longrightarrow> k' = k"
    "sems k' = sems k" "mutexes k' = mutexes k" "events k' = events k" "advances k k'" "rt_tick k' = rt_tick k"
proof -
  have all: "kernel_ok k' \<and> klist k' l = tl (klist k l) \<and> (\<forall>m. wait_list m \<longrightarrow> m \<noteq> l \<longrightarrow> klist k' m = klist k m)
    \<and> (\<forall>t ts. klist k l = t # ts \<longrightarrow> \<not> is_suspended k' t \<and> error (threads k' t) = RT_EOK)
    \<and> sems k' = sems k \<and> mutexes k' = mutexes k \<and> events k' = events k \<and> advances k k' \<and> rt_tick k' = rt_tick k"
  proof (cases "klist k l")
    case Nil
    then show ?thesis using k by (simp add: k'_def wake_first_def advances_def filter_same)
  next
    case (Cons t ts)
    let ?k1 = "snd (rt_thread_resume t (upd_thread t (\<lambda>r. r\<lparr>error := RT_EOK\<rparr>) k))"
    have b: "base_ok k" using k by (simp add: kernel_ok_base)
    note r = resume_head_ok [OF b l Cons, where x = RT_EOK]
    have k1: "kernel_ok ?k1" using r(1,6) k by (simp add: kernel_ok_base)
    have e: "k' = rt_schedule ?k1" using Cons by (simp add: k'_def wake_first_def ipc_list_resume_def Let_def)
    note sc = advances_schedule [OF k1]
    have "klist k' l = ts" unfolding e using schedule_wait_lists [OF k1 l] r(3) by simp
    moreover have "klist k' m = klist k m" if "wait_list m" "m \<noteq> l" for m
      unfolding e schedule_wait_lists [OF k1 that(1)] by (rule r(9) [OF that])
    moreover have "\<not> is_suspended k' t \<and> error (threads k' t) = RT_EOK"
      using sc(1) r(4,5) by (auto simp: e advances_def)
    ultimately show ?thesis using Cons sc r(7,10-12) advances_trans [OF r(2) sc(1)] by (simp add: e)
  qed
  show "kernel_ok k'" "klist k' l = tl (klist k l)" "wait_list m \<Longrightarrow> m \<noteq> l \<Longrightarrow> klist k' m = klist k m"
    "klist k l = t # ts \<Longrightarrow> \<not> is_suspended k' t \<and> error (threads k' t) = RT_EOK"
    "sems k' = sems k" "mutexes k' = mutexes k" "events k' = events k" "advances k k'" "rt_tick k' = rt_tick k"
    using all by blast+
  show "klist k l = [] \<Longrightarrow> k' = k" by (simp add: k'_def wake_first_def)
qed

text \<open>
  Pools, data queues and completions do the same without the functions of ipc.c: \<open>ins\<close> is the insertion into
  the wait list, and a thread is woken without a new error number.
\<close>

definition plain_wait :: "(lid \<Rightarrow> nat \<Rightarrow> kernel \<Rightarrow> kernel) \<Rightarrow> lid \<Rightarrow> int \<Rightarrow> kernel \<Rightarrow> kernel" where
  "plain_wait ins l timeout k =
     (let t = the (rt_thread_self k);
          k1 = upd_thread t (\<lambda>r. r\<lparr>error := RT_EOK\<rparr>) k;
          k2 = snd (rt_thread_suspend_with_flag t RT_UNINTERRUPTIBLE k1);
          k3 = ins l t k2;
          k4 = (if timeout > 0 then arm_timer t (word_of_int timeout) k3 else k3)
      in rt_schedule k4)"

definition resume_first :: "lid \<Rightarrow> kernel \<Rightarrow> kernel" where
  "resume_first l k = (if klist k l \<noteq> [] then rt_schedule (snd (rt_thread_resume (hd (klist k l)) k)) else k)"

lemma plain_wait_ok:
  fixes l ins timeout k t place
  assumes k: "kernel_ok k" and t: "current k = Some t" "tstate k t = RT_THREAD_RUNNING" and l: "wait_list l"
    and ins: "\<And>k. ins l t k = k\<lparr>klist := (klist k)(l := place (klist k l))\<rparr>"
    and place: "\<And>xs. set (place xs) = insert t (set xs)" "\<And>xs. t \<notin> set xs \<Longrightarrow> distinct xs \<Longrightarrow> distinct (place xs)"
  defines "k' \<equiv> plain_wait ins l timeout k"
  shows "kernel_ok k'" "is_suspended k' t" "klist k' l = place (klist k l)"
    "wait_list m \<Longrightarrow> m \<noteq> l \<Longrightarrow> klist k' m = klist k m" "error (threads k' t) = RT_EOK"
    "timeout > 0 \<Longrightarrow> TThread t \<in> set (timer_list k') \<and> timeout_tick (timers k' (TThread t)) = rt_tick k + word_of_int timeout"
    "timeout \<le> 0 \<Longrightarrow> timer_list k' = timer_list k"
proof -
  let ?k1 = "upd_thread t (\<lambda>r. r\<lparr>error := RT_EOK\<rparr>) k"
  let ?k2 = "snd (rt_thread_suspend_with_flag t RT_UNINTERRUPTIBLE ?k1)"
  let ?k3 = "?k2\<lparr>klist := (klist ?k2)(l := place (klist ?k2 l))\<rparr>"
  let ?k4 = "if timeout > (0 :: int) then arm_timer t (word_of_int timeout) ?k3 else ?k3"
  have b: "base_ok ?k1" using k by (simp add: kernel_ok_base)
  have r: "tstate ?k1 t = RT_THREAD_READY \<or> tstate ?k1 t = RT_THREAD_RUNNING" using t by simp
  note s = suspend_ok [OF b r, where flag = RT_UNINTERRUPTIBLE]
  have ns: "\<not> is_suspended k t" using t by (auto simp: is_suspended_iff rt_const)
  have w: "klist ?k2 m = klist k m" if "wait_list m" for m
  proof -
    have "t \<notin> set (klist k m)" using listed_suspended [OF b that, of t] ns by (auto simp: is_suspended_def)
    then show ?thesis using s(4) by (simp add: removeAll_id)
  qed
  have st: "is_suspended ?k2 t" using s(3) by blast
  have d: "distinct (klist ?k2 l)" using s(1) by (simp add: base_ok_def sched_ex_def lists_ok_def)
  have b3: "base_ok ?k3" by (rule enter_list_ok [OF s(1) st s(5) l]) (use s(5) d place in auto)
  have k3: "kernel_ok ?k3" using b3 s(7) t by (simp add: kernel_ok_base)
  have st3: "is_suspended ?k3 t" using st by (simp add: is_suspended_def)
  note bl = block_ok [OF k3 st3, where timeout = timeout and n = "word_of_int timeout"]
  have e: "k' = rt_schedule ?k4"
    by (simp add: k'_def plain_wait_def Let_def rt_thread_self_def t(1) ins)
  show "kernel_ok k'" unfolding e by (rule bl(1))
  show "is_suspended k' t" unfolding e using bl(2) st3 by blast
  show "klist k' l = place (klist k l)" unfolding e bl(3) [OF l] using w [OF l] by simp
  show "wait_list m \<Longrightarrow> m \<noteq> l \<Longrightarrow> klist k' m = klist k m" unfolding e using bl(3) w by simp
  show "error (threads k' t) = RT_EOK" unfolding e bl(7) using s(18) [of t] by simp
  show "timeout > 0 \<Longrightarrow> TThread t \<in> set (timer_list k') \<and> timeout_tick (timers k' (TThread t)) = rt_tick k + word_of_int timeout"
    unfolding e using bl(10) s(8) by simp
  show "timeout \<le> 0 \<Longrightarrow> timer_list k' = timer_list k" unfolding e using bl(11) s(6) by simp
qed

lemma wait_behind:
  assumes "kernel_ok k" "current k = Some t" "tstate k t = RT_THREAD_RUNNING" "wait_list l"
  shows "kernel_ok (plain_wait tlist_insert_before l timeout k)" "is_suspended (plain_wait tlist_insert_before l timeout k) t"
    "klist (plain_wait tlist_insert_before l timeout k) l = klist k l @ [t]"
    "wait_list m \<Longrightarrow> m \<noteq> l \<Longrightarrow> klist (plain_wait tlist_insert_before l timeout k) m = klist k m"
    "error (threads (plain_wait tlist_insert_before l timeout k) t) = RT_EOK"
    "timeout > 0 \<Longrightarrow> TThread t \<in> set (timer_list (plain_wait tlist_insert_before l timeout k))
       \<and> timeout_tick (timers (plain_wait tlist_insert_before l timeout k) (TThread t)) = rt_tick k + word_of_int timeout"
    "timeout \<le> 0 \<Longrightarrow> timer_list (plain_wait tlist_insert_before l timeout k) = timer_list k"
proof -
  note p = plain_wait_ok [OF assms, where ins = tlist_insert_before and place = "\<lambda>xs. xs @ [t]" and timeout = timeout]
  show "kernel_ok (plain_wait tlist_insert_before l timeout k)" "is_suspended (plain_wait tlist_insert_before l timeout k) t"
    "klist (plain_wait tlist_insert_before l timeout k) l = klist k l @ [t]"
    "wait_list m \<Longrightarrow> m \<noteq> l \<Longrightarrow> klist (plain_wait tlist_insert_before l timeout k) m = klist k m"
    "error (threads (plain_wait tlist_insert_before l timeout k) t) = RT_EOK"
    "timeout > 0 \<Longrightarrow> TThread t \<in> set (timer_list (plain_wait tlist_insert_before l timeout k))
       \<and> timeout_tick (timers (plain_wait tlist_insert_before l timeout k) (TThread t)) = rt_tick k + word_of_int timeout"
    "timeout \<le> 0 \<Longrightarrow> timer_list (plain_wait tlist_insert_before l timeout k) = timer_list k"
    by (rule p; simp add: tlist_insert_before_def)+
qed

lemma wait_in_front:
  assumes "kernel_ok k" "current k = Some t" "tstate k t = RT_THREAD_RUNNING" "wait_list l"
  shows "kernel_ok (plain_wait tlist_insert_after l timeout k)" "is_suspended (plain_wait tlist_insert_after l timeout k) t"
    "klist (plain_wait tlist_insert_after l timeout k) l = t # klist k l"
    "wait_list m \<Longrightarrow> m \<noteq> l \<Longrightarrow> klist (plain_wait tlist_insert_after l timeout k) m = klist k m"
    "error (threads (plain_wait tlist_insert_after l timeout k) t) = RT_EOK"
    "timeout > 0 \<Longrightarrow> TThread t \<in> set (timer_list (plain_wait tlist_insert_after l timeout k))
       \<and> timeout_tick (timers (plain_wait tlist_insert_after l timeout k) (TThread t)) = rt_tick k + word_of_int timeout"
    "timeout \<le> 0 \<Longrightarrow> timer_list (plain_wait tlist_insert_after l timeout k) = timer_list k"
proof -
  note p = plain_wait_ok [OF assms, where ins = tlist_insert_after and place = "\<lambda>xs. t # xs" and timeout = timeout]
  show "kernel_ok (plain_wait tlist_insert_after l timeout k)" "is_suspended (plain_wait tlist_insert_after l timeout k) t"
    "klist (plain_wait tlist_insert_after l timeout k) l = t # klist k l"
    "wait_list m \<Longrightarrow> m \<noteq> l \<Longrightarrow> klist (plain_wait tlist_insert_after l timeout k) m = klist k m"
    "error (threads (plain_wait tlist_insert_after l timeout k) t) = RT_EOK"
    "timeout > 0 \<Longrightarrow> TThread t \<in> set (timer_list (plain_wait tlist_insert_after l timeout k))
       \<and> timeout_tick (timers (plain_wait tlist_insert_after l timeout k) (TThread t)) = rt_tick k + word_of_int timeout"
    "timeout \<le> 0 \<Longrightarrow> timer_list (plain_wait tlist_insert_after l timeout k) = timer_list k"
    by (rule p; simp add: tlist_insert_after_def)+
qed

lemma resume_first_ok:
  fixes l k
  assumes k: "kernel_ok k" and l: "wait_list l"
  defines "k' \<equiv> resume_first l k"
  shows "kernel_ok k'" "klist k' l = tl (klist k l)" "wait_list m \<Longrightarrow> m \<noteq> l \<Longrightarrow> klist k' m = klist k m"
    "klist k l = t # ts \<Longrightarrow> \<not> is_suspended k' t \<and> error (threads k' t) = error (threads k t)"
    "klist k l = [] \<Longrightarrow> k' = k"
proof -
  have all: "kernel_ok k' \<and> klist k' l = tl (klist k l) \<and> (\<forall>m. wait_list m \<longrightarrow> m \<noteq> l \<longrightarrow> klist k' m = klist k m)
    \<and> (\<forall>t ts. klist k l = t # ts \<longrightarrow> \<not> is_suspended k' t \<and> error (threads k' t) = error (threads k t))"
  proof (cases "klist k l")
    case Nil
    then show ?thesis using k by (simp add: k'_def resume_first_def)
  next
    case (Cons t ts)
    have id: "upd_thread t (\<lambda>r. r\<lparr>error := error (threads k t)\<rparr>) k = k" by (simp add: upd_thread_def)
    let ?k1 = "snd (rt_thread_resume t k)"
    have b: "base_ok k" using k by (simp add: kernel_ok_base)
    note r = resume_head_ok [OF b l Cons, where x = "error (threads k t)", unfolded id]
    have k1: "kernel_ok ?k1" using r(1,6) k by (simp add: kernel_ok_base)
    have e: "k' = rt_schedule ?k1" using Cons by (simp add: k'_def resume_first_def)
    note sc = advances_schedule [OF k1]
    have "klist k' l = ts" unfolding e using schedule_wait_lists [OF k1 l] r(3) by simp
    moreover have "klist k' m = klist k m" if "wait_list m" "m \<noteq> l" for m
      unfolding e schedule_wait_lists [OF k1 that(1)] by (rule r(9) [OF that])
    moreover have "\<not> is_suspended k' t \<and> error (threads k' t) = error (threads k t)"
      using sc(1) r(4,5) by (auto simp: e advances_def)
    ultimately show ?thesis using Cons sc by (simp add: e)
  qed
  show "kernel_ok k'" "klist k' l = tl (klist k l)" "wait_list m \<Longrightarrow> m \<noteq> l \<Longrightarrow> klist k' m = klist k m"
    "klist k l = t # ts \<Longrightarrow> \<not> is_suspended k' t \<and> error (threads k' t) = error (threads k t)"
    using all by blast+
  show "klist k l = [] \<Longrightarrow> k' = k" by (simp add: k'_def resume_first_def)
qed

text \<open>While the tick count has not gone round, the rest is what one expects.\<close>

lemma time_left_eq:
  assumes "0 < timeout" "timeout < 2 ^ 31" "now = start + of_nat d" "d < 2 ^ 31"
  shows "time_left timeout start now = max 0 (timeout - int d)"
proof -
  have "(word_of_int timeout - (now - start) :: u32) = word_of_int (timeout - int d)"
    by (simp add: assms(3))
  then have "sint (word_of_int timeout - (now - start) :: u32) = timeout - int d"
    using assms(1,2,4) by (simp only:) (subst signed_of_int, simp add: signed_take_bit_int_eq_self)
  then show ?thesis unfolding time_left_def Let_def using assms(1) by simp
qed

lemma time_left_forever: "timeout < 0 \<Longrightarrow> time_left timeout start now = timeout"
  by (simp add: time_left_def)

lemma time_left_le: "0 < timeout \<Longrightarrow> timeout < 2 ^ 31 \<Longrightarrow> 0 \<le> time_left timeout start now"
  by (simp add: time_left_def Let_def)

lemma demo_wait_lists: "wait_list l \<Longrightarrow> klist demo_kernel l = []"
  by (auto simp: wait_list_def demo_kernel_def demo_ready_def rt_system_scheduler_start_def split_beta demo_threads_def
      insert_klist blank_kernel_def)

end
