(* ===== verification/MessagePort.thy ===== *)
theory MessagePort
  imports Main "HOL-Library.Multiset"
begin

text \<open>
  What mailboxes and message queues promise their users: a bounded queue of messages, with urgent messages
  put in front. The interface is a locale; its specification is a list, and every conversation with a
  provider gives the replies the specification gives.
\<close>

datatype 'a port_op = Send 'a | Urgent 'a | Recv

datatype 'a port_reply = Accepted bool | Got "'a option"

section \<open>The specification\<close>

fun spec_step :: "nat \<Rightarrow> ('a \<Rightarrow> bool) \<Rightarrow> 'a port_op \<Rightarrow> 'a list \<Rightarrow> 'a port_reply \<times> 'a list" where
  "spec_step cap fits (Send x) q = (if fits x \<and> length q < cap then (Accepted True, q @ [x]) else (Accepted False, q))"
| "spec_step cap fits (Urgent x) q = (if fits x \<and> length q < cap then (Accepted True, x # q) else (Accepted False, q))"
| "spec_step cap fits Recv q = (case q of [] \<Rightarrow> (Got None, []) | x # q' \<Rightarrow> (Got (Some x), q'))"

primrec spec_run :: "nat \<Rightarrow> ('a \<Rightarrow> bool) \<Rightarrow> 'a port_op list \<Rightarrow> 'a list \<Rightarrow> 'a port_reply list \<times> 'a list" where
  "spec_run cap fits [] q = ([], q)"
| "spec_run cap fits (x # xs) q =
     (let (r, q1) = spec_step cap fits x q; (rs, q2) = spec_run cap fits xs q1 in (r # rs, q2))"

text \<open>The messages a conversation put in and took out.\<close>

fun accepted :: "'a port_op list \<Rightarrow> 'a port_reply list \<Rightarrow> 'a list" where
  "accepted (Send x # xs) (Accepted True # rs) = x # accepted xs rs"
| "accepted (Urgent x # xs) (Accepted True # rs) = x # accepted xs rs"
| "accepted (_ # xs) (_ # rs) = accepted xs rs"
| "accepted _ _ = []"

primrec got :: "'a port_reply list \<Rightarrow> 'a list" where
  "got [] = []"
| "got (r # rs) = (case r of Got (Some x) \<Rightarrow> x # got rs | _ \<Rightarrow> got rs)"

primrec ordinary :: "'a port_op list \<Rightarrow> bool" where
  "ordinary [] = True"
| "ordinary (x # xs) = ((\<forall>y. x \<noteq> Urgent y) \<and> ordinary xs)"

lemma spec_conserves:
  "spec_run cap fits xs q = (rs, q') \<Longrightarrow> mset q + mset (accepted xs rs) = mset (got rs) + mset q'"
proof (induction xs arbitrary: q rs q')
  case (Cons x xs)
  obtain r q1 where 1: "spec_step cap fits x q = (r, q1)" by force
  obtain rs1 q2 where 2: "spec_run cap fits xs q1 = (rs1, q2)" by force
  have e: "rs = r # rs1" "q' = q2" using Cons.prems 1 2 by simp_all
  have h: "mset q1 + mset (accepted xs rs1) = mset (got rs1) + mset q2" by (rule Cons.IH [OF 2])
  show ?case
    using 1 h unfolding e by (cases x) (auto split: if_splits list.splits)
qed simp

lemma spec_order:
  "spec_run cap fits xs q = (rs, q') \<Longrightarrow> ordinary xs \<Longrightarrow> q @ accepted xs rs = got rs @ q'"
proof (induction xs arbitrary: q rs q')
  case (Cons x xs)
  obtain r q1 where 1: "spec_step cap fits x q = (r, q1)" by force
  obtain rs1 q2 where 2: "spec_run cap fits xs q1 = (rs1, q2)" by force
  have e: "rs = r # rs1" "q' = q2" using Cons.prems 1 2 by simp_all
  have h: "q1 @ accepted xs rs1 = got rs1 @ q2" using Cons.IH [OF 2] Cons.prems(2) by simp
  show ?case
    using 1 h Cons.prems(2) unfolding e by (cases x) (auto split: if_splits list.splits)
qed simp

lemma spec_bounded: "spec_run cap fits xs q = (rs, q') \<Longrightarrow> length q \<le> cap \<Longrightarrow> length q' \<le> cap"
proof (induction xs arbitrary: q rs q')
  case (Cons x xs)
  obtain r q1 where 1: "spec_step cap fits x q = (r, q1)" by force
  have "length q1 \<le> cap" using 1 Cons.prems(2) by (cases x) (auto split: if_splits list.splits)
  then show ?case using Cons.IH [of q1] Cons.prems(1) 1 by (auto split: prod.splits)
qed simp

section \<open>The interface\<close>

primrec port_run :: "('a \<Rightarrow> 's \<Rightarrow> bool \<times> 's) \<Rightarrow> ('a \<Rightarrow> 's \<Rightarrow> bool \<times> 's) \<Rightarrow> ('s \<Rightarrow> 'a option \<times> 's)
    \<Rightarrow> 'a port_op list \<Rightarrow> 's \<Rightarrow> 'a port_reply list \<times> 's" where
  "port_run send urgent recv [] s = ([], s)"
| "port_run send urgent recv (x # xs) s =
     (let (r, s1) = (case x of Send y \<Rightarrow> apfst Accepted (send y s) | Urgent y \<Rightarrow> apfst Accepted (urgent y s)
                             | Recv \<Rightarrow> apfst Got (recv s));
          (rs, s2) = port_run send urgent recv xs s1
      in (r # rs, s2))"

text \<open>A port without urgent messages: its conversations are those that hold none.\<close>

locale fifo_port =
  fixes ok :: "'s \<Rightarrow> bool" and content :: "'s \<Rightarrow> 'a list" and cap :: "'s \<Rightarrow> nat" and fits :: "'s \<Rightarrow> 'a \<Rightarrow> bool"
    and send :: "'a \<Rightarrow> 's \<Rightarrow> bool \<times> 's" and recv :: "'s \<Rightarrow> 'a option \<times> 's"
  assumes bounded: "ok s \<Longrightarrow> length (content s) \<le> cap s"
    and send_law: "ok s \<Longrightarrow> send x s = (a, s') \<Longrightarrow> ok s' \<and> cap s' = cap s \<and> fits s' = fits s
      \<and> spec_step (cap s) (fits s) (Send x) (content s) = (Accepted a, content s')"
    and recv_law: "ok s \<Longrightarrow> recv s = (g, s') \<Longrightarrow> ok s' \<and> cap s' = cap s \<and> fits s' = fits s
      \<and> spec_step (cap s) (fits s) Recv (content s) = (Got g, content s')"
begin

text \<open>One step of a conversation, given the law for urgent messages where there is one.\<close>

lemma step_refines:
  assumes "ok s"
    and "(case x of Send y \<Rightarrow> apfst Accepted (send y s) | Urgent y \<Rightarrow> apfst Accepted (urgent y s) | Recv \<Rightarrow> apfst Got (recv s)) = (r, s1)"
    and u: "\<And>y a. x = Urgent y \<Longrightarrow> urgent y s = (a, s1) \<Longrightarrow> ok s1 \<and> cap s1 = cap s \<and> fits s1 = fits s
      \<and> spec_step (cap s) (fits s) (Urgent y) (content s) = (Accepted a, content s1)"
  shows "ok s1 \<and> cap s1 = cap s \<and> fits s1 = fits s \<and> spec_step (cap s) (fits s) x (content s) = (r, content s1)"
proof (cases x)
  case (Send y)
  then show ?thesis using assms(2) send_law [OF assms(1), of y] by (cases "send y s") auto
next
  case (Urgent y)
  then show ?thesis using assms(2) u [of y] by (cases "urgent y s") auto
next
  case Recv
  then show ?thesis using assms(2) recv_law [OF assms(1)] by (cases "recv s") auto
qed

lemma run_by_steps:
  assumes "\<And>x s r s1. ok s \<Longrightarrow> P x \<Longrightarrow> (case x of Send y \<Rightarrow> apfst Accepted (send y s) | Urgent y \<Rightarrow> apfst Accepted (urgent y s)
        | Recv \<Rightarrow> apfst Got (recv s)) = (r, s1)
      \<Longrightarrow> ok s1 \<and> cap s1 = cap s \<and> fits s1 = fits s \<and> spec_step (cap s) (fits s) x (content s) = (r, content s1)"
  shows "ok s \<Longrightarrow> list_all P xs \<Longrightarrow> port_run send urgent recv xs s = (rs, s')
     \<Longrightarrow> ok s' \<and> cap s' = cap s \<and> spec_run (cap s) (fits s) xs (content s) = (rs, content s')"
proof (induction xs arbitrary: s rs)
  case (Cons x xs)
  obtain r s1 where 1: "(case x of Send y \<Rightarrow> apfst Accepted (send y s) | Urgent y \<Rightarrow> apfst Accepted (urgent y s)
      | Recv \<Rightarrow> apfst Got (recv s)) = (r, s1)" by force
  obtain rs1 where 2: "port_run send urgent recv xs s1 = (rs1, s')" "rs = r # rs1"
    using Cons.prems(3) 1 by (auto split: prod.splits)
  have "ok s1 \<and> cap s1 = cap s \<and> fits s1 = fits s \<and> spec_step (cap s) (fits s) x (content s) = (r, content s1)"
    using assms [OF Cons.prems(1) _ 1] Cons.prems(2) by simp
  then show ?case using Cons.IH [OF _ _ 2(1)] Cons.prems(2) 2(2) by simp
qed simp

lemma ordinary_all: "ordinary xs \<longleftrightarrow> list_all (\<lambda>x. \<forall>y. x \<noteq> Urgent y) xs"
  by (induction xs) auto

lemma ordinary_refines:
  assumes "ok s" "port_run send urgent recv xs s = (rs, s')" "ordinary xs"
  shows "ok s' \<and> cap s' = cap s \<and> spec_run (cap s) (fits s) xs (content s) = (rs, content s')"
  by (rule run_by_steps [OF step_refines assms(1) _ assms(2)]) (use assms(3) in \<open>auto simp: ordinary_all\<close>)

lemma ordinary_in_order:
  assumes "ok s" "port_run send urgent recv xs s = (rs, s')" "ordinary xs"
  shows "content s @ accepted xs rs = got rs @ content s'"
  using ordinary_refines [OF assms] spec_order assms(3) by blast

end

locale message_port = fifo_port ok content cap fits send recv
  for ok :: "'s \<Rightarrow> bool" and content :: "'s \<Rightarrow> 'a list" and cap fits and send urgent :: "'a \<Rightarrow> 's \<Rightarrow> bool \<times> 's" and recv +
  assumes urgent_law: "ok s \<Longrightarrow> urgent x s = (a, s') \<Longrightarrow> ok s' \<and> cap s' = cap s \<and> fits s' = fits s
      \<and> spec_step (cap s) (fits s) (Urgent x) (content s) = (Accepted a, content s')"
begin

theorem run_refines:
  assumes "ok s" "port_run send urgent recv xs s = (rs, s')"
  shows "ok s' \<and> cap s' = cap s \<and> spec_run (cap s) (fits s) xs (content s) = (rs, content s')"
  by (rule run_by_steps [where P = "\<lambda>_. True", OF step_refines [OF _ _ urgent_law] assms(1) _ assms(2)])
    (auto simp: list_all_iff)

lemma run_conserves:
  assumes "ok s" "port_run send urgent recv xs s = (rs, s')"
  shows "mset (content s) + mset (accepted xs rs) = mset (got rs) + mset (content s')"
  using run_refines [OF assms] spec_conserves by blast

lemma run_in_order:
  assumes "ok s" "port_run send urgent recv xs s = (rs, s')" "ordinary xs"
  shows "content s @ accepted xs rs = got rs @ content s'"
  using run_refines [OF assms(1,2)] spec_order assms(3) by blast

end

end
