(* ===== verification/Mailbox.thy ===== *)
theory Mailbox
  imports Waiting MessagePort
begin

text \<open>
  The mailboxes of src/ipc.c: a ring of words with a list of receivers and a list of senders that wait.
  The state of a mailbox stands beside the kernel; \<open>n\<close> names its two wait lists. As for semaphores, a
  blocking call ends at rt_schedule with \<open>Waits\<close>, and a second definition continues it when the thread
  runs again. rt_mb_create and rt_mb_delete add the allocation of the object and of the ring.
\<close>

record rt_mailbox =
  msg_pool :: "nat \<Rightarrow> u32"
  mb_size :: u16
  mb_entry :: u16
  in_offset :: u16
  out_offset :: u16
  mb_flag :: u8

definition RT_MB_ENTRY_MAX :: u16 where [rt_const]: "RT_MB_ENTRY_MAX = 0xFFFF"

definition rt_mb_init :: "nat \<Rightarrow> (nat \<Rightarrow> u32) \<Rightarrow> u32 \<Rightarrow> u8 \<Rightarrow> kernel \<Rightarrow> rt_err_t \<times> rt_mailbox \<times> kernel" where
  "rt_mb_init n msgpool size0 flag k =
     (RT_EOK, \<lparr>msg_pool = msgpool, mb_size = ucast size0, mb_entry = 0, in_offset = 0, out_offset = 0, mb_flag = flag\<rparr>,
      ipc_object_init (LMailSend n) (ipc_object_init (LMail n) k))"

definition rt_mb_detach :: "nat \<Rightarrow> kernel \<Rightarrow> (rt_err_t \<times> kernel) option" where
  "rt_mb_detach n k = (case ipc_list_resume_all (LMail n) k of
     None \<Rightarrow> None | Some k1 \<Rightarrow> map_option (\<lambda>k2. (RT_EOK, k2)) (ipc_list_resume_all (LMailSend n) k1))"

text \<open>\<open>++off; if (off >= size) off = 0\<close>\<close>

definition next_offset :: "u16 \<Rightarrow> u16 \<Rightarrow> u16" where
  "next_offset off sz = (if off + 1 \<ge> sz then 0 else off + 1)"

text \<open>The end of a send, once there is room.\<close>

definition mb_accept :: "nat \<Rightarrow> u32 \<Rightarrow> rt_mailbox \<Rightarrow> kernel \<Rightarrow> blocking \<times> rt_mailbox \<times> kernel" where
  "mb_accept n v b k =
     (let b1 = b\<lparr>msg_pool := (msg_pool b)(unat (in_offset b) := v), in_offset := next_offset (in_offset b) (mb_size b)\<rparr>
      in if mb_entry b < RT_MB_ENTRY_MAX
         then (Done RT_EOK, b1\<lparr>mb_entry := mb_entry b + 1\<rparr>, wake_first (LMail n) k)
         else (Done (- RT_EFULL), b1, k))"

definition mb_send_loop :: "nat \<Rightarrow> u32 \<Rightarrow> int \<Rightarrow> suspend_flag \<Rightarrow> rt_mailbox \<Rightarrow> kernel \<Rightarrow> blocking \<times> rt_mailbox \<times> kernel" where
  "mb_send_loop n v timeout sf b k =
     (if mb_entry b = mb_size b then
        if timeout = 0
        then (Done (- RT_EFULL), b, upd_thread (the (rt_thread_self k)) (\<lambda>r. r\<lparr>error := - RT_EINTR\<rparr>) k)
        else let (r, k1) = wait_on (LMailSend n) (mb_flag b) sf timeout k in (r, b, k1)
      else mb_accept n v b k)"

definition rt_mb_send_wait :: "nat \<Rightarrow> u32 \<Rightarrow> int \<Rightarrow> suspend_flag \<Rightarrow> rt_mailbox \<Rightarrow> kernel \<Rightarrow> blocking \<times> rt_mailbox \<times> kernel" where
  "rt_mb_send_wait n v timeout sf b k =
     (if mb_entry b = mb_size b \<and> timeout = 0 then (Done (- RT_EFULL), b, k) else mb_send_loop n v timeout sf b k)"

definition rt_mb_send_resume ::
  "nat \<Rightarrow> u32 \<Rightarrow> int \<Rightarrow> u32 \<Rightarrow> suspend_flag \<Rightarrow> nat \<Rightarrow> rt_mailbox \<Rightarrow> kernel \<Rightarrow> blocking \<times> rt_mailbox \<times> kernel" where
  "rt_mb_send_resume n v timeout start sf t b k =
     (if error (threads k t) \<noteq> RT_EOK then (Done (error (threads k t)), b, k)
      else mb_send_loop n v (time_left timeout start (rt_tick_get k)) sf b k)"

definition rt_mb_send :: "nat \<Rightarrow> u32 \<Rightarrow> rt_mailbox \<Rightarrow> kernel \<Rightarrow> blocking \<times> rt_mailbox \<times> kernel" where
  "rt_mb_send n v b k = rt_mb_send_wait n v 0 RT_UNINTERRUPTIBLE b k"

definition rt_mb_urgent :: "nat \<Rightarrow> u32 \<Rightarrow> rt_mailbox \<Rightarrow> kernel \<Rightarrow> rt_err_t \<times> rt_mailbox \<times> kernel" where
  "rt_mb_urgent n v b k =
     (if mb_entry b = mb_size b then (- RT_EFULL, b, k)
      else let out = (if out_offset b > 0 then out_offset b - 1 else mb_size b - 1)
           in (RT_EOK, b\<lparr>out_offset := out, msg_pool := (msg_pool b)(unat out := v), mb_entry := mb_entry b + 1\<rparr>,
               wake_first (LMail n) k))"

text \<open>The end of a receive, once there is a mail, with the word stored through \<open>value\<close>.\<close>

definition mb_deliver :: "nat \<Rightarrow> rt_mailbox \<Rightarrow> kernel \<Rightarrow> blocking \<times> u32 option \<times> rt_mailbox \<times> kernel" where
  "mb_deliver n b k =
     (Done RT_EOK, Some (msg_pool b (unat (out_offset b))),
      b\<lparr>out_offset := next_offset (out_offset b) (mb_size b),
        mb_entry := (if mb_entry b > 0 then mb_entry b - 1 else mb_entry b)\<rparr>,
      wake_first (LMailSend n) k)"

definition mb_recv_loop :: "nat \<Rightarrow> int \<Rightarrow> suspend_flag \<Rightarrow> rt_mailbox \<Rightarrow> kernel \<Rightarrow> blocking \<times> u32 option \<times> rt_mailbox \<times> kernel" where
  "mb_recv_loop n timeout sf b k =
     (if mb_entry b = 0 then
        if timeout = 0
        then (Done (- RT_ETIMEOUT), None, b, upd_thread (the (rt_thread_self k)) (\<lambda>r. r\<lparr>error := - RT_ETIMEOUT\<rparr>) k)
        else let (r, k1) = wait_on (LMail n) (mb_flag b) sf timeout k in (r, None, b, k1)
      else mb_deliver n b k)"

definition rt_mb_recv :: "nat \<Rightarrow> int \<Rightarrow> suspend_flag \<Rightarrow> rt_mailbox \<Rightarrow> kernel \<Rightarrow> blocking \<times> u32 option \<times> rt_mailbox \<times> kernel" where
  "rt_mb_recv n timeout sf b k =
     (if mb_entry b = 0 \<and> timeout = 0 then (Done (- RT_ETIMEOUT), None, b, k) else mb_recv_loop n timeout sf b k)"

definition rt_mb_recv_resume ::
  "nat \<Rightarrow> int \<Rightarrow> u32 \<Rightarrow> suspend_flag \<Rightarrow> nat \<Rightarrow> rt_mailbox \<Rightarrow> kernel \<Rightarrow> blocking \<times> u32 option \<times> rt_mailbox \<times> kernel" where
  "rt_mb_recv_resume n timeout start sf t b k =
     (if error (threads k t) \<noteq> RT_EOK then (Done (error (threads k t)), None, b, k)
      else mb_recv_loop n (time_left timeout start (rt_tick_get k)) sf b k)"

definition rt_mb_control :: "nat \<Rightarrow> ipc_cmd \<Rightarrow> rt_mailbox \<Rightarrow> kernel \<Rightarrow> (rt_err_t \<times> rt_mailbox \<times> kernel) option" where
  "rt_mb_control n cmd b k = (case cmd of
     RT_IPC_CMD_RESET _ \<Rightarrow> (case ipc_list_resume_all (LMail n) k of None \<Rightarrow> None
       | Some k1 \<Rightarrow> (case ipc_list_resume_all (LMailSend n) k1 of None \<Rightarrow> None
         | Some k2 \<Rightarrow> Some (RT_EOK, b\<lparr>mb_entry := 0, in_offset := 0, out_offset := 0\<rparr>, rt_schedule k2)))
   | RT_IPC_CMD_OTHER \<Rightarrow> Some (- RT_ERROR, b, k))"

section \<open>The ring holds a list of mails\<close>

definition mb_ok :: "rt_mailbox \<Rightarrow> bool" where
  "mb_ok b \<longleftrightarrow> mb_entry b \<le> mb_size b \<and> in_offset b < mb_size b \<and> out_offset b < mb_size b
     \<and> unat (in_offset b) = (unat (out_offset b) + unat (mb_entry b)) mod unat (mb_size b)"

definition mails :: "rt_mailbox \<Rightarrow> u32 list" where
  "mails b = map (\<lambda>i. msg_pool b ((unat (out_offset b) + i) mod unat (mb_size b))) [0..<unat (mb_entry b)]"

lemma length_mails [simp]: "length (mails b) = unat (mb_entry b)"
  by (simp add: mails_def)

lemma unat_next_offset: "off < sz \<Longrightarrow> unat (next_offset off sz) = (unat off + 1) mod unat sz"
proof -
  assume o: "off < sz"
  then have l: "unat off < unat sz" "unat sz < 2 ^ 16" using unsigned_less [of sz, where ?'a = nat] by (simp_all add: word_less_nat_alt)
  then have u: "unat (off + 1) = unat off + 1" by (simp add: unat_word_ariths)
  show ?thesis
  proof (cases "unat off + 1 = unat sz")
    case True
    then show ?thesis by (simp add: next_offset_def word_le_nat_alt u)
  next
    case False
    then show ?thesis using l by (simp add: next_offset_def word_le_nat_alt u)
  qed
qed

lemma next_offset_less: "off < sz \<Longrightarrow> next_offset off sz < sz"
  using unat_next_offset [of off sz] by (simp add: word_less_nat_alt)

lemma mod_add_less_neq:
  assumes "a < (z :: nat)" "i < n" "n < z"
  shows "(a + i) mod z \<noteq> (a + n) mod z"
proof
  assume "(a + i) mod z = (a + n) mod z"
  then have "z dvd (a + n) - (a + i)" using assms(2) mod_eq_dvd_iff_nat [of "a + i" "a + n" z] by simp
  then show False using assms dvd_imp_le [of z "n - i"] by simp
qed

lemma upt_0_Suc: "[0..<Suc n] = 0 # map Suc [0..<n]"
  by (simp add: upt_conv_Cons map_Suc_upt del: upt_Suc)

text \<open>What accepting and delivering a mail do to the mailbox.\<close>

lemma accept_ok:
  assumes b: "mb_ok b" and room: "mb_entry b \<noteq> mb_size b"
  shows "\<exists>b'. mb_accept n v b k = (Done RT_EOK, b', wake_first (LMail n) k) \<and> mb_ok b' \<and> mails b' = mails b @ [v]
    \<and> mb_size b' = mb_size b \<and> mb_flag b' = mb_flag b"
proof -
  let ?z = "unat (mb_size b)" and ?o = "unat (out_offset b)" and ?n = "unat (mb_entry b)"
  have l: "?n < ?z" "?o < ?z" "?z < 2 ^ 16" and i: "unat (in_offset b) = (?o + ?n) mod ?z"
    using b room unsigned_less [of "mb_size b", where ?'a = nat]
    by (simp_all add: mb_ok_def word_less_nat_alt word_le_nat_alt le_less word_unat_eq_iff)
  have e: "mb_entry b < RT_MB_ENTRY_MAX" "unat (mb_entry b + 1) = ?n + 1"
    using l by (simp_all add: rt_const word_less_nat_alt unat_word_ariths)
  define b' where "b' = b\<lparr>msg_pool := (msg_pool b)(unat (in_offset b) := v),
      in_offset := next_offset (in_offset b) (mb_size b), mb_entry := mb_entry b + 1\<rparr>"
  have "mb_accept n v b k = (Done RT_EOK, b', wake_first (LMail n) k)"
    using e by (simp add: mb_accept_def b'_def)
  moreover have "mb_ok b'"
    using b l e(2) unat_next_offset [of "in_offset b" "mb_size b"] i next_offset_less [of "in_offset b" "mb_size b"]
    by (simp add: mb_ok_def b'_def word_le_nat_alt mod_simps)
  moreover have "mails b' = mails b @ [v]"
    using mod_add_less_neq [OF l(2) _ l(1)] by (simp add: mails_def b'_def e(2) i)
  ultimately show ?thesis by (simp add: b'_def)
qed

lemma deliver_ok:
  assumes b: "mb_ok b" and m: "mails b = v # vs"
  shows "\<exists>b'. mb_deliver n b k = (Done RT_EOK, Some v, b', wake_first (LMailSend n) k) \<and> mb_ok b' \<and> mails b' = vs
    \<and> mb_size b' = mb_size b \<and> mb_flag b' = mb_flag b"
proof -
  let ?z = "unat (mb_size b)" and ?o = "unat (out_offset b)" and ?n = "unat (mb_entry b)"
  have n: "?n = Suc (length vs)" using arg_cong [OF m, of length] by simp
  have l: "?n \<le> ?z" "?o < ?z" and i: "unat (in_offset b) = (?o + ?n) mod ?z"
    using b by (simp_all add: mb_ok_def word_less_nat_alt word_le_nat_alt)
  have pos: "mb_entry b > 0" "unat (mb_entry b - 1) = length vs"
    using n by (auto simp: word_less_nat_alt unat_sub_if_size word_le_nat_alt)
  define b' where "b' = b\<lparr>out_offset := next_offset (out_offset b) (mb_size b), mb_entry := mb_entry b - 1\<rparr>"
  have o': "unat (out_offset b') = (?o + 1) mod ?z"
    using unat_next_offset [of "out_offset b" "mb_size b"] l by (simp add: b'_def word_less_nat_alt)
  have v: "v = msg_pool b ?o" and vs: "vs = map (\<lambda>i. msg_pool b ((?o + Suc i) mod ?z)) [0..<length vs]"
    using m l(2) unfolding mails_def n upt_0_Suc by (simp_all add: comp_def)
  have "mails b' = vs"
    by (subst vs) (simp add: mails_def o' pos(2), simp add: b'_def pos(2) mod_simps)
  moreover have "mb_ok b'"
    using b l i n pos(2) next_offset_less [of "out_offset b" "mb_size b"] o'
    by (simp add: mb_ok_def word_le_nat_alt mod_simps) (simp add: b'_def mod_simps)
  moreover have "mb_deliver n b k = (Done RT_EOK, Some v, b', wake_first (LMailSend n) k)"
    using pos(1) by (simp add: mb_deliver_def b'_def v)
  ultimately show ?thesis by (simp add: b'_def)
qed

lemma urgent_ok:
  assumes b: "mb_ok b" and room: "mb_entry b \<noteq> mb_size b"
  shows "\<exists>b'. rt_mb_urgent n v b k = (RT_EOK, b', wake_first (LMail n) k) \<and> mb_ok b' \<and> mails b' = v # mails b
    \<and> mb_size b' = mb_size b \<and> mb_flag b' = mb_flag b"
proof -
  let ?z = "unat (mb_size b)" and ?o = "unat (out_offset b)" and ?n = "unat (mb_entry b)"
  let ?out = "if out_offset b > 0 then out_offset b - 1 else mb_size b - 1"
  have l: "?n < ?z" "?o < ?z" "?z < 2 ^ 16" and i: "unat (in_offset b) = (?o + ?n) mod ?z"
    using b room unsigned_less [of "mb_size b", where ?'a = nat]
    by (simp_all add: mb_ok_def word_less_nat_alt word_le_nat_alt le_less word_unat_eq_iff)
  have e: "unat (mb_entry b + 1) = ?n + 1" using l by (simp add: unat_word_ariths)
  have o': "unat ?out < ?z" "(unat ?out + 1) mod ?z = ?o"
    using l by (auto simp: word_less_nat_alt unat_sub_if_size word_le_nat_alt)
  define b' where "b' = b\<lparr>out_offset := ?out, msg_pool := (msg_pool b)(unat ?out := v), mb_entry := mb_entry b + 1\<rparr>"
  have step: "(unat ?out + Suc j) mod ?z = (?o + j) mod ?z" for j
    using o'(2) by (metis add.assoc mod_add_left_eq plus_1_eq_Suc)
  have "mails b' = v # map (\<lambda>j. msg_pool b' ((unat ?out + Suc j) mod ?z)) [0..<?n]"
    using o' unfolding mails_def by (simp add: b'_def e upt_0_Suc comp_def del: upt_Suc)
  also have "map (\<lambda>j. msg_pool b' ((unat ?out + Suc j) mod ?z)) [0..<?n] = mails b"
  proof -
    have "(unat ?out + Suc j) mod ?z \<noteq> unat ?out" if "j < ?n" for j
      using mod_add_less_neq [OF o'(1), of 0 "Suc j"] that l o'(1) by simp
    then show ?thesis unfolding mails_def by (intro map_cong) (simp_all add: b'_def step [symmetric])
  qed
  finally have "mails b' = v # mails b" .
  moreover have "mb_ok b'"
    using b l i e o' step [of ?n] by (simp add: mb_ok_def b'_def word_le_nat_alt word_less_nat_alt)
  moreover have "rt_mb_urgent n v b k = (RT_EOK, b', wake_first (LMail n) k)"
    using room by (simp add: rt_mb_urgent_def b'_def Let_def)
  ultimately show ?thesis by (simp add: b'_def)
qed

section \<open>The contract of a mailbox\<close>

text \<open>Calls that do not wait, as the interface of the theory MessagePort has them.\<close>

definition mb_send_op :: "nat \<Rightarrow> u32 \<Rightarrow> rt_mailbox \<times> kernel \<Rightarrow> bool \<times> (rt_mailbox \<times> kernel)" where
  "mb_send_op n v s = (case rt_mb_send n v (fst s) (snd s) of (r, s') \<Rightarrow> (r = Done RT_EOK, s'))"

definition mb_urgent_op :: "nat \<Rightarrow> u32 \<Rightarrow> rt_mailbox \<times> kernel \<Rightarrow> bool \<times> (rt_mailbox \<times> kernel)" where
  "mb_urgent_op n v s = (case rt_mb_urgent n v (fst s) (snd s) of (r, s') \<Rightarrow> (r = RT_EOK, s'))"

definition mb_recv_op :: "nat \<Rightarrow> rt_mailbox \<times> kernel \<Rightarrow> u32 option \<times> (rt_mailbox \<times> kernel)" where
  "mb_recv_op n s = (case rt_mb_recv n 0 RT_UNINTERRUPTIBLE (fst s) (snd s) of (r, v, s') \<Rightarrow> (v, s'))"

definition mb_valid :: "rt_mailbox \<times> kernel \<Rightarrow> bool" where
  "mb_valid s \<longleftrightarrow> mb_ok (fst s) \<and> kernel_ok (snd s)"

lemma mb_full: "mb_ok b \<Longrightarrow> mb_entry b = mb_size b \<longleftrightarrow> \<not> length (mails b) < unat (mb_size b)"
  by (auto simp: mb_ok_def word_le_nat_alt le_less word_unat_eq_iff)

lemma mb_empty: "mb_entry b = 0 \<longleftrightarrow> mails b = []"
  by (simp add: mails_def unat_eq_0)

interpretation mailbox: message_port mb_valid "\<lambda>s. mails (fst s)" "\<lambda>s. unat (mb_size (fst s))" "\<lambda>_ _. True"
  "mb_send_op n" "mb_urgent_op n" "mb_recv_op n" for n
proof (unfold_locales, goal_cases)
  case (1 s)
  then show ?case by (simp add: mb_valid_def mb_ok_def word_le_nat_alt)
next
  case (2 s v a s')
  then have b: "mb_ok (fst s)" and k: "kernel_ok (snd s)" by (simp_all add: mb_valid_def)
  show ?case
  proof (cases "mb_entry (fst s) = mb_size (fst s)")
    case True
    then show ?thesis using 2 b mb_full [OF b] by (simp add: mb_send_op_def rt_mb_send_def rt_mb_send_wait_def rt_const)
  next
    case False
    then show ?thesis using 2 k accept_ok [OF b False, of n v "snd s"] mb_full [OF b] wake_first_ok(1) [OF k, of "LMail n"]
      by (auto simp: mb_send_op_def rt_mb_send_def rt_mb_send_wait_def mb_send_loop_def mb_valid_def)
  qed
next
  case (4 s v a s')
  then have b: "mb_ok (fst s)" and k: "kernel_ok (snd s)" by (simp_all add: mb_valid_def)
  show ?case
  proof (cases "mb_entry (fst s) = mb_size (fst s)")
    case True
    then show ?thesis using 4 b mb_full [OF b] by (simp add: mb_urgent_op_def rt_mb_urgent_def rt_const)
  next
    case False
    then show ?thesis using 4 k urgent_ok [OF b False, of n v "snd s"] mb_full [OF b] wake_first_ok(1) [OF k, of "LMail n"]
      by (auto simp: mb_urgent_op_def mb_valid_def)
  qed
next
  case (3 s v s')
  then have b: "mb_ok (fst s)" and k: "kernel_ok (snd s)" by (simp_all add: mb_valid_def)
  show ?case
  proof (cases "mails (fst s)")
    case Nil
    then show ?thesis using 3 mb_empty [of "fst s"] by (simp add: mb_recv_op_def rt_mb_recv_def)
  next
    case (Cons w ws)
    then have "mb_entry (fst s) \<noteq> 0" using mb_empty [of "fst s"] by simp
    then show ?thesis using 3 k Cons deliver_ok [OF b Cons, of n "snd s"] wake_first_ok(1) [OF k, of "LMailSend n"]
      by (auto simp: mb_recv_op_def rt_mb_recv_def mb_recv_loop_def mb_valid_def)
  qed
qed

section \<open>What a mailbox promises\<close>

definition demo_mailbox :: rt_mailbox where
  "demo_mailbox = fst (snd (rt_mb_init 2 (\<lambda>_. 0) 2 RT_IPC_FLAG_FIFO demo_kernel))"

lemma demo_mailbox_ok: "mb_ok demo_mailbox" "mails demo_mailbox = []" "mb_flag demo_mailbox = RT_IPC_FLAG_FIFO"
  by (simp_all add: demo_mailbox_def rt_mb_init_def mb_ok_def mails_def)

text \<open>C15. A mailbox answers any sequence of calls that do not wait exactly as a list of at most \<open>size\<close> words
  does to which mails are appended and urgent mails put in front: the same calls succeed, the same mails
  come out. So no mail is lost, doubled or made up, and ordinary mails come out in the order they went in.\<close>

theorem mailbox_conversation:
  assumes "mb_ok b" "kernel_ok k"
    and "port_run (mb_send_op n) (mb_urgent_op n) (mb_recv_op n) xs (b, k) = (rs, (b', k'))"
  shows "spec_run (unat (mb_size b)) (\<lambda>_. True) xs (mails b) = (rs, mails b') \<and> mb_ok b' \<and> kernel_ok k'
    \<and> mset (mails b) + mset (accepted xs rs) = mset (got rs) + mset (mails b')
    \<and> (ordinary xs \<longrightarrow> mails b @ accepted xs rs = got rs @ mails b')"
proof -
  have v: "mb_valid (b, k)" using assms(1,2) by (simp add: mb_valid_def)
  show ?thesis
    using mailbox.run_refines [OF v assms(3)] mailbox.run_conserves [OF v assms(3)] mailbox.run_in_order [OF v assms(3)]
    by (auto simp: mb_valid_def)
qed

theorem mailbox_conversation_witness:
  "\<exists>b' k'. port_run (mb_send_op 2) (mb_urgent_op 2) (mb_recv_op 2) [Send 7, Urgent 8, Send 9, Recv] (demo_mailbox, demo_kernel)
    = ([Accepted True, Accepted True, Accepted False, Got (Some 8)], (b', k')) \<and> mails b' = [7]"
proof -
  obtain rs b' k' where r: "port_run (mb_send_op 2) (mb_urgent_op 2) (mb_recv_op 2) [Send 7, Urgent 8, Send 9, Recv]
      (demo_mailbox, demo_kernel) = (rs, (b', k'))" by (metis prod_cases3)
  show ?thesis
    using mailbox_conversation [OF demo_mailbox_ok(1) demo_kernel_kernel_ok r] r demo_mailbox_ok(2)
    by (auto simp: demo_mailbox_def rt_mb_init_def)
qed

text \<open>A thread that waits for mail in an empty mailbox gets the very mail that is sent next: the send puts
  it out of the list and awake, and its own call, when it runs again, returns that mail.\<close>

theorem mailbox_handover:
  assumes "mb_ok b" "kernel_ok k" "mails b = []" "klist k (LMail n) = t # ts"
  shows "let (r, b1, k1) = rt_mb_send n v b k;
             (r', w, b2, k2) = rt_mb_recv_resume n timeout start sf t b1 k1
    in r = Done RT_EOK \<and> \<not> is_suspended k1 t \<and> klist k1 (LMail n) = ts
       \<and> r' = Done RT_EOK \<and> w = Some v \<and> mails b2 = [] \<and> mb_ok b2 \<and> kernel_ok k2"
proof -
  have "unat (mb_size b) \<noteq> 0" using assms(1) by (auto simp: mb_ok_def word_less_nat_alt)
  then have room: "mb_entry b \<noteq> mb_size b" using mb_full [OF assms(1)] assms(3) by simp
  obtain b1 where b1: "mb_accept n v b k = (Done RT_EOK, b1, wake_first (LMail n) k)" "mb_ok b1" "mails b1 = [v]"
    using accept_ok [OF assms(1) room, of n v k] assms(3) by auto
  note w = wake_first_ok [OF assms(2) wait_list_simps(5) [of n]]
  obtain b2 where b2: "mb_deliver n b1 (wake_first (LMail n) k)
      = (Done RT_EOK, Some v, b2, wake_first (LMailSend n) (wake_first (LMail n) k))" "mb_ok b2" "mails b2 = []"
    using deliver_ok [OF b1(2,3)] by blast
  have ne: "mb_entry b1 \<noteq> 0" using mb_empty [of b1] b1(3) by simp
  have t: "\<not> is_suspended (wake_first (LMail n) k) t \<and> error (threads (wake_first (LMail n) k) t) = RT_EOK"
    using w(4) assms(4) by blast
  show ?thesis
    using room b1(1) b2 ne t w(2) assms(4) wake_first_ok(1) [OF w(1) wait_list_simps(6)]
    by (simp add: rt_mb_send_def rt_mb_send_wait_def mb_send_loop_def rt_mb_recv_resume_def mb_recv_loop_def)
qed

theorem mailbox_handover_witness:
  "let k0 = snd (snd (snd (rt_mb_recv 2 (-1) RT_UNINTERRUPTIBLE demo_mailbox demo_kernel)));
       (r, b1, k1) = rt_mb_send 2 42 demo_mailbox k0
   in fst (snd (rt_mb_recv_resume 2 (-1) 0 RT_UNINTERRUPTIBLE 0 b1 k1)) = Some 42"
proof -
  let ?k0 = "snd (wait_on (LMail 2) RT_IPC_FLAG_FIFO RT_UNINTERRUPTIBLE (-1) demo_kernel)"
  note w = wait_on_ok [OF demo_kernel_kernel_ok wait_list_simps(5) [of 2] disjI1 [OF refl] demo_kernel_facts(1,3),
      where timeout = "-1" and sf = RT_UNINTERRUPTIBLE]
  have "klist ?k0 (LMail 2) = [0]" using w(4) by (simp add: queued_def demo_wait_lists)
  moreover have "snd (snd (snd (rt_mb_recv 2 (-1) RT_UNINTERRUPTIBLE demo_mailbox demo_kernel))) = ?k0"
    using demo_mailbox_ok mb_empty [of demo_mailbox] by (simp add: rt_mb_recv_def mb_recv_loop_def split_beta)
  ultimately show ?thesis
    using mailbox_handover [OF demo_mailbox_ok(1) w(2) demo_mailbox_ok(2), of 2 0 "[]" 42 "-1" 0 RT_UNINTERRUPTIBLE]
    by (auto simp: Let_def split_beta)
qed

text \<open>A thread that waits to send into a full mailbox: the next receive makes room and wakes it, and its mail
  goes behind those that are left.\<close>

theorem mailbox_sender_served:
  assumes "mb_ok b" "kernel_ok k" "mails b = v # vs" "klist k (LMailSend n) = t # ts"
  shows "let (r, x, b1, k1) = rt_mb_recv n 0 sf b k; (r', b2, k2) = rt_mb_send_resume n w timeout start sf' t b1 k1
    in r = Done RT_EOK \<and> x = Some v \<and> \<not> is_suspended k1 t \<and> klist k1 (LMailSend n) = ts
       \<and> r' = Done RT_EOK \<and> mails b2 = vs @ [w] \<and> mb_ok b2 \<and> kernel_ok k2"
proof -
  have ne: "mb_entry b \<noteq> 0" using mb_empty [of b] assms(3) by simp
  obtain b1 where b1: "mb_deliver n b k = (Done RT_EOK, Some v, b1, wake_first (LMailSend n) k)" "mb_ok b1" "mails b1 = vs"
      "mb_size b1 = mb_size b"
    using deliver_ok [OF assms(1,3)] by blast
  have "length (mails b) \<le> unat (mb_size b)" using assms(1) by (simp add: mb_ok_def word_le_nat_alt)
  then have room: "mb_entry b1 \<noteq> mb_size b1" using mb_full [OF b1(2)] b1(3,4) assms(3) by simp
  note w = wake_first_ok [OF assms(2) wait_list_simps(6) [of n]]
  obtain b2 where b2: "mb_accept n w b1 (wake_first (LMailSend n) k)
      = (Done RT_EOK, b2, wake_first (LMail n) (wake_first (LMailSend n) k))" "mb_ok b2" "mails b2 = vs @ [w]"
    using accept_ok [OF b1(2) room] b1(3) by blast
  have t: "\<not> is_suspended (wake_first (LMailSend n) k) t \<and> error (threads (wake_first (LMailSend n) k) t) = RT_EOK"
    using w(4) assms(4) by blast
  show ?thesis
    using ne b1(1) b2 room t w(2) assms(4) wake_first_ok(1) [OF w(1) wait_list_simps(5)]
    by (simp add: rt_mb_recv_def mb_recv_loop_def rt_mb_send_resume_def mb_send_loop_def)
qed

theorem mailbox_sender_served_witness:
  "let b = fst (snd (rt_mb_send 2 6 (fst (snd (rt_mb_send 2 5 demo_mailbox demo_kernel))) demo_kernel));
       k = snd (wait_on (LMailSend 2) RT_IPC_FLAG_FIFO RT_UNINTERRUPTIBLE (-1) demo_kernel);
       (r, x, b1, k1) = rt_mb_recv 2 0 RT_UNINTERRUPTIBLE b k
   in mails (fst (snd (rt_mb_send_resume 2 7 (-1) 0 RT_UNINTERRUPTIBLE 0 b1 k1))) = [6, 7]"
proof -
  let ?k0 = "snd (wait_on (LMailSend 2) RT_IPC_FLAG_FIFO RT_UNINTERRUPTIBLE (-1) demo_kernel)"
  let ?b = "fst (snd (rt_mb_send 2 6 (fst (snd (rt_mb_send 2 5 demo_mailbox demo_kernel))) demo_kernel))"
  note w = wait_on_ok [OF demo_kernel_kernel_ok wait_list_simps(6) [of 2] disjI1 [OF refl] demo_kernel_facts(1,3),
      where timeout = "-1" and sf = RT_UNINTERRUPTIBLE]
  have q: "klist ?k0 (LMailSend 2) = [0]" using w(4) by (simp add: queued_def demo_wait_lists)
  have b: "mb_ok ?b" "mails ?b = [5, 6]"
    by (simp_all add: rt_mb_send_def rt_mb_send_wait_def mb_send_loop_def mb_accept_def demo_mailbox_def rt_mb_init_def
        mb_ok_def mails_def next_offset_def rt_const word_le_nat_alt word_less_nat_alt upt_rec [of _ 2])
  show ?thesis
    using mailbox_sender_served [OF b(1) w(2) b(2) q, of RT_UNINTERRUPTIBLE 7 "-1" 0 RT_UNINTERRUPTIBLE]
    by (auto simp: Let_def split_beta)
qed

text \<open>However often its mail is taken by another thread before it runs, a thread that waits for mail for a
  given time waits until the tick it asked for at the start and no longer: every new wait sets its timer to
  the same tick, and at that tick or later its call returns -RT_ETIMEOUT instead of waiting again.\<close>

theorem mailbox_deadline:
  assumes "mb_ok b" "kernel_ok k" "mails b = []" "mb_flag b = RT_IPC_FLAG_FIFO \<or> mb_flag b = RT_IPC_FLAG_PRIO"
    and "current k = Some t" "tstate k t = RT_THREAD_RUNNING" "error (threads k t) = RT_EOK"
    and "0 < timeout" "timeout < 2 ^ 31" "rt_tick k = start + of_nat d" "d < 2 ^ 31"
  shows "let (r, v, b', k') = rt_mb_recv_resume n timeout start sf t b k in b' = b \<and> v = None \<and> kernel_ok k' \<and>
    (if int d < timeout then r = Waits \<and> TThread t \<in> set (timer_list k')
       \<and> timeout_tick (timers k' (TThread t)) = start + word_of_int timeout
     else r = Done (- RT_ETIMEOUT) \<and> klist k' = klist k)"
proof -
  have e: "mb_entry b = 0" using mb_empty [of b] assms(3) by simp
  have l: "time_left timeout start (rt_tick k) = max 0 (timeout - int d)" by (rule time_left_eq [OF assms(8-11)])
  show ?thesis
  proof (cases "int d < timeout")
    case True
    then have p: "0 < max 0 (timeout - int d)" by simp
    note w = wait_on_ok [OF assms(2) wait_list_simps(5) [of n] assms(4-6), where timeout = "max 0 (timeout - int d)" and sf = sf]
    have "rt_tick k + word_of_int (max 0 (timeout - int d)) = start + word_of_int timeout"
      using True by (simp add: assms(10))
    then show ?thesis using True w(1,2) w(7) [OF p] e assms(7) l
      by (simp add: rt_mb_recv_resume_def mb_recv_loop_def rt_tick_get_def split_beta)
  next
    case False
    then have "max 0 (timeout - int d) = 0" by simp
    then show ?thesis using False e assms(2,5,7) l
      by (simp add: rt_mb_recv_resume_def mb_recv_loop_def rt_tick_get_def)
  qed
qed

theorem mailbox_deadline_witness:
  "let (r, v, b', k') = rt_mb_recv_resume 2 9 (rt_tick demo_kernel - 4) RT_UNINTERRUPTIBLE 0 demo_mailbox demo_kernel
   in r = Waits \<and> timeout_tick (timers k' (TThread 0)) = rt_tick demo_kernel + 5"
proof -
  have e: "error (threads demo_kernel 0) = RT_EOK" by code_simp
  show ?thesis
    using mailbox_deadline [OF demo_mailbox_ok(1) demo_kernel_kernel_ok demo_mailbox_ok(2) disjI1 [OF demo_mailbox_ok(3)]
        demo_kernel_facts(1,3) e, of 9 "rt_tick demo_kernel - 4" 4 2 RT_UNINTERRUPTIBLE]
    by (auto simp: Let_def split_beta)
qed

text \<open>Resetting or detaching a mailbox returns, empties both wait lists and makes every thread of them return
  -RT_ERROR.\<close>

theorem mailbox_reset:
  assumes "kernel_ok k"
  shows "\<exists>b' k'. rt_mb_control n (RT_IPC_CMD_RESET x) b k = Some (RT_EOK, b', k') \<and> kernel_ok k' \<and> mails b' = []
    \<and> klist k' (LMail n) = [] \<and> klist k' (LMailSend n) = []
    \<and> (\<forall>t \<in> set (klist k (LMail n)). fst (rt_mb_recv_resume n timeout start sf t b' k') = Done (- RT_ERROR))
    \<and> (\<forall>t \<in> set (klist k (LMailSend n)). fst (rt_mb_send_resume n v timeout start sf t b' k') = Done (- RT_ERROR))"
proof -
  have b: "base_ok k" using assms by (simp add: kernel_ok_base)
  obtain k1 where 1: "ipc_list_resume_all (LMail n) k = Some k1" "base_ok k1" "klist k1 (LMail n) = []" "current k1 = current k"
    "\<forall>t \<in> set (klist k (LMail n)). error (threads k1 t) = - RT_ERROR" "klist k1 (LMailSend n) = klist k (LMailSend n)"
    using resume_all_ok [OF b wait_list_simps(5), of n] by force
  obtain k2 where 2: "ipc_list_resume_all (LMailSend n) k1 = Some k2" "base_ok k2" "klist k2 (LMailSend n) = []" "current k2 = current k1"
    "\<forall>t \<in> set (klist k1 (LMailSend n)). error (threads k2 t) = - RT_ERROR" "klist k2 (LMail n) = []"
    "\<forall>t. t \<notin> set (klist k1 (LMailSend n)) \<longrightarrow> threads k2 t = threads k1 t"
    using resume_all_ok [OF 1(2) wait_list_simps(6), of n] 1(3) by force
  have k2: "kernel_ok k2" using 2(2,4) 1(4) assms by (simp add: kernel_ok_base)
  have one: "t \<notin> set (klist k1 (LMailSend n))" if "t \<in> set (klist k (LMail n))" for t
    using that b 1(6) by (auto simp: base_ok_def sched_ex_def lists_ok_def)
  have e: "error (threads k2 t) = - RT_ERROR" if "t \<in> set (klist k (LMail n)) \<union> set (klist k (LMailSend n))" for t
    using that 1(5,6) 2(5,7) one by auto
  show ?thesis using 1(1) 2(1,3,6) k2 e advances_schedule(2) [OF k2] schedule_wait_lists [OF k2]
    by (simp add: rt_mb_control_def rt_mb_recv_resume_def rt_mb_send_resume_def mails_def rt_const)
qed

end
