(* ===== verification/MsgQueue.thy ===== *)
theory MsgQueue
  imports Waiting MessagePort LibUtil
begin

text \<open>
  The message queues of src/ipc.c (RT_USING_MESSAGEQUEUE_PRIORITY is off). The pool is divided into
  messages of one size, linked into the queue or into the list of free ones. A send takes a free message,
  fills it with interrupts enabled and links it; a receive unlinks the first message, copies it with
  interrupts enabled and returns it to the free list. Each of these pieces is a definition of its own, so
  that the interleavings of calls can be stated. The record holds the fields of the queue, the messages
  in memory and the kernel; \<open>n\<close> names the wait lists. rt_mq_create and rt_mq_delete add the allocation.
\<close>

record mq_state =
  mq_pool :: nat
  msg_size :: u16
  max_msgs :: u16
  mq_entry :: u16
  queue_head :: "nat option"
  queue_tail :: "nat option"
  queue_free :: "nat option"
  mq_flag :: u8
  m_next :: "nat \<Rightarrow> nat option"    \<comment> \<open>\<open>next\<close> of the message at an address\<close>
  m_length :: "nat \<Rightarrow> nat"          \<comment> \<open>\<open>length\<close>\<close>
  m_bytes :: mem
  mq_kern :: kernel

definition SIZEOF_MQ_MESSAGE :: nat where [rt_const]: "SIZEOF_MQ_MESSAGE = 8"

definition RT_MQ_ENTRY_MAX :: u16 where [rt_const]: "RT_MQ_ENTRY_MAX = 0xFFFF"

definition GET_MESSAGEBYTE_ADDR :: "nat \<Rightarrow> nat" where "GET_MESSAGEBYTE_ADDR m = m + SIZEOF_MQ_MESSAGE"

primrec mq_free_loop :: "nat \<Rightarrow> nat \<Rightarrow> mq_state \<Rightarrow> mq_state" where
  "mq_free_loop step 0 s = s"
| "mq_free_loop step (Suc i) s =
     (let s1 = mq_free_loop step i s; h = mq_pool s1 + i * step
      in s1\<lparr>m_next := (m_next s1)(h := queue_free s1), queue_free := Some h\<rparr>)"

definition rt_mq_init :: "nat \<Rightarrow> nat \<Rightarrow> u32 \<Rightarrow> u32 \<Rightarrow> u8 \<Rightarrow> mq_state \<Rightarrow> rt_err_t \<times> mq_state" where
  "rt_mq_init n msgpool size0 pool_size flag s =
     (let s1 = s\<lparr>mq_flag := flag, mq_kern := ipc_object_init (LMq n) (mq_kern s), mq_pool := msgpool\<rparr>;
          step = RT_ALIGN size0 RT_ALIGN_SIZE + of_nat SIZEOF_MQ_MESSAGE;
          s2 = s1\<lparr>msg_size := ucast size0, max_msgs := ucast (pool_size div step)\<rparr>
      in if max_msgs s2 = 0 then (- RT_EINVAL, s2)
         else let s3 = s2\<lparr>queue_head := None, queue_tail := None, queue_free := None\<rparr>;
                  s4 = mq_free_loop (unat step) (unat (max_msgs s3)) s3
              in (RT_EOK, s4\<lparr>mq_entry := 0, mq_kern := ipc_object_init (LMqSend n) (mq_kern s4)\<rparr>))"

section \<open>The pieces of a send\<close>

definition mq_reserve :: "mq_state \<Rightarrow> (nat \<times> mq_state) option" where
  "mq_reserve s = map_option (\<lambda>m. (m, s\<lparr>queue_free := m_next s m\<rparr>)) (queue_free s)"

definition mq_store :: "nat \<Rightarrow> nat \<Rightarrow> nat \<Rightarrow> mq_state \<Rightarrow> mq_state" where
  "mq_store m buffer sz s =
     s\<lparr>m_length := (m_length s)(m := sz), m_bytes := snd (memcpy (m_bytes s) (GET_MESSAGEBYTE_ADDR m) buffer sz)\<rparr>"

definition mq_fill :: "nat \<Rightarrow> nat \<Rightarrow> nat \<Rightarrow> mq_state \<Rightarrow> mq_state" where
  "mq_fill m buffer sz s = mq_store m buffer sz (s\<lparr>m_next := (m_next s)(m := None)\<rparr>)"

text \<open>The count of messages and the wake-up at the end of rt_mq_send_wait and rt_mq_urgent.\<close>

definition mq_counted :: "nat \<Rightarrow> mq_state \<Rightarrow> rt_err_t \<times> mq_state" where
  "mq_counted n s =
     (if mq_entry s < RT_MQ_ENTRY_MAX
      then (RT_EOK, s\<lparr>mq_entry := mq_entry s + 1, mq_kern := wake_first (LMq n) (mq_kern s)\<rparr>)
      else (- RT_EFULL, s))"

definition mq_link :: "nat \<Rightarrow> nat \<Rightarrow> mq_state \<Rightarrow> rt_err_t \<times> mq_state" where
  "mq_link n m s =
     (let s1 = (case queue_tail s of Some t \<Rightarrow> s\<lparr>m_next := (m_next s)(t := Some m)\<rparr> | None \<Rightarrow> s);
          s2 = s1\<lparr>queue_tail := Some m\<rparr>;
          s3 = (if queue_head s2 = None then s2\<lparr>queue_head := Some m\<rparr> else s2)
      in mq_counted n s3)"

definition mq_push :: "nat \<Rightarrow> nat \<Rightarrow> mq_state \<Rightarrow> rt_err_t \<times> mq_state" where
  "mq_push n m s =
     (let s1 = s\<lparr>m_next := (m_next s)(m := queue_head s), queue_head := Some m\<rparr>;
          s2 = (if queue_tail s1 = None then s1\<lparr>queue_tail := Some m\<rparr> else s1)
      in mq_counted n s2)"

section \<open>The pieces of a receive\<close>

definition mq_take :: "mq_state \<Rightarrow> nat \<times> mq_state" where
  "mq_take s =
     (let m = the (queue_head s); s1 = s\<lparr>queue_head := m_next s m\<rparr>;
          s2 = (if queue_tail s1 = Some m then s1\<lparr>queue_tail := None\<rparr> else s1)
      in (m, s2\<lparr>mq_entry := (if mq_entry s2 > 0 then mq_entry s2 - 1 else mq_entry s2)\<rparr>))"

definition mq_copy :: "nat \<Rightarrow> nat \<Rightarrow> nat \<Rightarrow> mq_state \<Rightarrow> nat \<times> mq_state" where
  "mq_copy m buffer sz s =
     (let len = (if m_length s m > sz then sz else m_length s m)
      in (len, s\<lparr>m_bytes := snd (memcpy (m_bytes s) buffer (GET_MESSAGEBYTE_ADDR m) len)\<rparr>))"

definition mq_return :: "nat \<Rightarrow> nat \<Rightarrow> mq_state \<Rightarrow> mq_state" where
  "mq_return n m s =
     s\<lparr>m_next := (m_next s)(m := queue_free s), queue_free := Some m, mq_kern := wake_first (LMqSend n) (mq_kern s)\<rparr>"

section \<open>The calls\<close>

definition mq_error :: "rt_err_t \<Rightarrow> mq_state \<Rightarrow> mq_state" where
  "mq_error e s = s\<lparr>mq_kern := upd_thread (the (rt_thread_self (mq_kern s))) (\<lambda>r. r\<lparr>error := e\<rparr>) (mq_kern s)\<rparr>"

definition mq_wait :: "lid \<Rightarrow> suspend_flag \<Rightarrow> int \<Rightarrow> mq_state \<Rightarrow> blocking \<times> mq_state" where
  "mq_wait l sf timeout s =
     (let (r, k1) = wait_on l (mq_flag s) sf timeout (mq_kern s) in (r, s\<lparr>mq_kern := k1\<rparr>))"

definition mq_send_loop :: "nat \<Rightarrow> nat \<Rightarrow> nat \<Rightarrow> int \<Rightarrow> suspend_flag \<Rightarrow> mq_state \<Rightarrow> blocking \<times> mq_state" where
  "mq_send_loop n buffer sz timeout sf s = (case mq_reserve s of
     None \<Rightarrow> if timeout = 0 then (Done (- RT_EFULL), mq_error (- RT_EINTR) s) else mq_wait (LMqSend n) sf timeout s
   | Some (m, s1) \<Rightarrow> apfst Done (mq_link n m (mq_fill m buffer sz s1)))"

definition rt_mq_send_wait :: "nat \<Rightarrow> nat \<Rightarrow> nat \<Rightarrow> int \<Rightarrow> suspend_flag \<Rightarrow> mq_state \<Rightarrow> blocking \<times> mq_state" where
  "rt_mq_send_wait n buffer sz timeout sf s =
     (if sz > unat (msg_size s) then (Done (- RT_ERROR), s)
      else if queue_free s = None \<and> timeout = 0 then (Done (- RT_EFULL), s)
      else mq_send_loop n buffer sz timeout sf s)"

definition rt_mq_send_resume ::
  "nat \<Rightarrow> nat \<Rightarrow> nat \<Rightarrow> int \<Rightarrow> u32 \<Rightarrow> suspend_flag \<Rightarrow> nat \<Rightarrow> mq_state \<Rightarrow> blocking \<times> mq_state" where
  "rt_mq_send_resume n buffer sz timeout start sf t s =
     (if error (threads (mq_kern s) t) \<noteq> RT_EOK then (Done (error (threads (mq_kern s) t)), s)
      else mq_send_loop n buffer sz (time_left timeout start (rt_tick_get (mq_kern s))) sf s)"

definition rt_mq_send :: "nat \<Rightarrow> nat \<Rightarrow> nat \<Rightarrow> mq_state \<Rightarrow> blocking \<times> mq_state" where
  "rt_mq_send n buffer sz s = rt_mq_send_wait n buffer sz 0 RT_UNINTERRUPTIBLE s"

definition rt_mq_urgent :: "nat \<Rightarrow> nat \<Rightarrow> nat \<Rightarrow> mq_state \<Rightarrow> rt_err_t \<times> mq_state" where
  "rt_mq_urgent n buffer sz s =
     (if sz > unat (msg_size s) then (- RT_ERROR, s)
      else case mq_reserve s of
        None \<Rightarrow> (- RT_EFULL, s)
      | Some (m, s1) \<Rightarrow> mq_push n m (mq_store m buffer sz s1))"

text \<open>rt_mq_recv returns the number of bytes copied, or an error.\<close>

definition mq_recv_loop :: "nat \<Rightarrow> nat \<Rightarrow> nat \<Rightarrow> int \<Rightarrow> suspend_flag \<Rightarrow> mq_state \<Rightarrow> blocking \<times> mq_state" where
  "mq_recv_loop n buffer sz timeout sf s =
     (if mq_entry s = 0 then
        if timeout = 0 then (Done (- RT_ETIMEOUT), mq_error (- RT_ETIMEOUT) s) else mq_wait (LMq n) sf timeout s
      else let (m, s1) = mq_take s; (len, s2) = mq_copy m buffer sz s1
           in (Done (int len), mq_return n m s2))"

definition rt_mq_recv :: "nat \<Rightarrow> nat \<Rightarrow> nat \<Rightarrow> int \<Rightarrow> suspend_flag \<Rightarrow> mq_state \<Rightarrow> blocking \<times> mq_state" where
  "rt_mq_recv n buffer sz timeout sf s =
     (if mq_entry s = 0 \<and> timeout = 0 then (Done (- RT_ETIMEOUT), s) else mq_recv_loop n buffer sz timeout sf s)"

definition rt_mq_recv_resume ::
  "nat \<Rightarrow> nat \<Rightarrow> nat \<Rightarrow> int \<Rightarrow> u32 \<Rightarrow> suspend_flag \<Rightarrow> nat \<Rightarrow> mq_state \<Rightarrow> blocking \<times> mq_state" where
  "rt_mq_recv_resume n buffer sz timeout start sf t s =
     (if error (threads (mq_kern s) t) \<noteq> RT_EOK then (Done (error (threads (mq_kern s) t)), s)
      else mq_recv_loop n buffer sz (time_left timeout start (rt_tick_get (mq_kern s))) sf s)"

text \<open>The loop of rt_mq_control that empties the queue.\<close>

partial_function (option) mq_drain :: "mq_state \<Rightarrow> mq_state option" where
  "mq_drain s = (case queue_head s of None \<Rightarrow> Some s
     | Some m \<Rightarrow> (let s1 = s\<lparr>queue_head := m_next s m\<rparr>;
           s2 = (if queue_tail s1 = Some m then s1\<lparr>queue_tail := None\<rparr> else s1)
         in mq_drain (s2\<lparr>m_next := (m_next s2)(m := queue_free s2), queue_free := Some m\<rparr>)))"

definition mq_resume_both :: "nat \<Rightarrow> mq_state \<Rightarrow> mq_state option" where
  "mq_resume_both n s = (case ipc_list_resume_all (LMq n) (mq_kern s) of None \<Rightarrow> None
     | Some k1 \<Rightarrow> map_option (\<lambda>k2. s\<lparr>mq_kern := k2\<rparr>) (ipc_list_resume_all (LMqSend n) k1))"

definition rt_mq_detach :: "nat \<Rightarrow> mq_state \<Rightarrow> (rt_err_t \<times> mq_state) option" where
  "rt_mq_detach n s = map_option (\<lambda>s'. (RT_EOK, s')) (mq_resume_both n s)"

definition rt_mq_control :: "nat \<Rightarrow> ipc_cmd \<Rightarrow> mq_state \<Rightarrow> (rt_err_t \<times> mq_state) option" where
  "rt_mq_control n cmd s = (case cmd of
     RT_IPC_CMD_RESET _ \<Rightarrow> (case mq_resume_both n s of None \<Rightarrow> None
       | Some s1 \<Rightarrow> map_option (\<lambda>s2. (RT_EOK, s2\<lparr>mq_entry := 0, mq_kern := rt_schedule (mq_kern s2)\<rparr>)) (mq_drain s1))
   | RT_IPC_CMD_OTHER \<Rightarrow> Some (- RT_ERROR, s))"

section \<open>The invariant\<close>

fun chain :: "(nat \<Rightarrow> nat option) \<Rightarrow> nat option \<Rightarrow> nat list \<Rightarrow> bool" where
  "chain nx p [] \<longleftrightarrow> p = None"
| "chain nx p (a # as) \<longleftrightarrow> p = Some a \<and> chain nx (nx a) as"

lemma chain_upd [simp]: "m \<notin> set as \<Longrightarrow> chain (nx(m := v)) p as = chain nx p as"
  by (induction as arbitrary: p) auto

lemma chain_None [simp]: "chain nx None as \<longleftrightarrow> as = []"
  by (cases as) auto

lemma chain_snoc:
  "chain nx p as \<Longrightarrow> as \<noteq> [] \<Longrightarrow> distinct (as @ [m]) \<Longrightarrow> nx m = None \<Longrightarrow> chain (nx(last as := Some m)) p (as @ [m])"
proof (induction as arbitrary: p)
  case (Cons a as)
  show ?case
  proof (cases "as = []")
    case True
    then show ?thesis using Cons.prems by simp
  next
    case False
    then have "last as \<noteq> a" using Cons.prems(3) by auto
    then show ?thesis using Cons False by simp
  qed
qed simp

text \<open>The addresses of the messages of a queue whose messages lie \<open>z\<close> bytes apart.\<close>

definition msg_blocks :: "nat \<Rightarrow> mq_state \<Rightarrow> nat set" where
  "msg_blocks z s = (\<lambda>i. mq_pool s + i * z) ` {..<unat (max_msgs s)}"

text \<open>\<open>Q\<close> is the queue, \<open>F\<close> the free list, \<open>P\<close> the messages calls in progress have taken out of either.\<close>

definition mq_inv :: "nat \<Rightarrow> mq_state \<Rightarrow> nat list \<Rightarrow> nat list \<Rightarrow> nat set \<Rightarrow> bool" where
  "mq_inv z s Q F P \<longleftrightarrow> chain (m_next s) (queue_head s) Q \<and> chain (m_next s) (queue_free s) F
     \<and> queue_tail s = (if Q = [] then None else Some (last Q)) \<and> unat (mq_entry s) = length Q
     \<and> distinct (Q @ F) \<and> P \<inter> set (Q @ F) = {} \<and> set (Q @ F) \<union> P = msg_blocks z s
     \<and> SIZEOF_MQ_MESSAGE + unat (msg_size s) \<le> z \<and> (\<forall>m \<in> set Q. m_length s m \<le> unat (msg_size s))"

definition payload :: "mq_state \<Rightarrow> nat \<Rightarrow> u8 list" where
  "payload s m = bytes_at (m_bytes s) (GET_MESSAGEBYTE_ADDR m) (m_length s m)"

text \<open>A buffer of the application lies outside the pool.\<close>

definition clear :: "nat \<Rightarrow> mq_state \<Rightarrow> nat \<Rightarrow> nat \<Rightarrow> bool" where
  "clear z s b sz \<longleftrightarrow> (\<forall>m \<in> msg_blocks z s. b + sz \<le> m \<or> m + z \<le> b)"

text \<open>What stays the same in every piece.\<close>

definition same_pool :: "mq_state \<Rightarrow> mq_state \<Rightarrow> bool" where
  "same_pool s s' \<longleftrightarrow> mq_pool s' = mq_pool s \<and> msg_size s' = msg_size s \<and> max_msgs s' = max_msgs s \<and> mq_flag s' = mq_flag s"

lemma same_pool_refl [simp]: "same_pool s s" by (simp add: same_pool_def)

lemma same_pool_trans: "same_pool s s1 \<Longrightarrow> same_pool s1 s2 \<Longrightarrow> same_pool s s2"
  by (simp add: same_pool_def)

lemma same_pool_sizes:
  assumes "same_pool s s'"
  shows "msg_blocks z s' = msg_blocks z s" "clear z s' b n = clear z s b n" "msg_size s' = msg_size s"
  using assms by (simp_all add: same_pool_def msg_blocks_def clear_def)

lemma blocks_apart:
  assumes "a \<in> msg_blocks z s" "b \<in> msg_blocks z s" "a \<noteq> b"
  shows "a + z \<le> b \<or> b + z \<le> a"
proof -
  obtain i j where ij: "a = mq_pool s + i * z" "b = mq_pool s + j * z" using assms(1,2) by (auto simp: msg_blocks_def)
  have "i < j \<or> j < i" using assms(3) ij by (metis linorder_neqE_nat)
  then show ?thesis
  proof
    assume "i < j"
    then have "Suc i * z \<le> j * z" by (intro mult_le_mono1) simp
    then show ?thesis by (simp add: ij)
  next
    assume "j < i"
    then have "Suc j * z \<le> i * z" by (intro mult_le_mono1) simp
    then show ?thesis by (simp add: ij)
  qed
qed

lemma card_blocks: "0 < z \<Longrightarrow> card (msg_blocks z s) = unat (max_msgs s)" "finite (msg_blocks z s)"
  by (auto simp: msg_blocks_def card_image inj_on_def)

text \<open>With a message in progress the queue is not full, so the count never overflows.\<close>

lemma entry_room:
  assumes "mq_inv z s Q F P" "m \<in> P"
  shows "mq_entry s < RT_MQ_ENTRY_MAX" "unat (mq_entry s + 1) = length Q + 1"
proof -
  have z: "0 < z" using assms(1) by (simp add: mq_inv_def rt_const)
  have "insert m (set Q) \<subseteq> msg_blocks z s" using assms by (auto simp: mq_inv_def)
  then have "card (insert m (set Q)) \<le> unat (max_msgs s)" using card_blocks(1) [OF z, of s] card_mono [OF card_blocks(2)] by metis
  moreover have "card (insert m (set Q)) = length Q + 1"
    using assms by (subst card_insert_disjoint) (auto simp: mq_inv_def distinct_card)
  ultimately have "length Q < 65535" using unsigned_less [of "max_msgs s", where ?'a = nat] by simp
  then show "mq_entry s < RT_MQ_ENTRY_MAX" "unat (mq_entry s + 1) = length Q + 1"
    using assms(1) by (simp_all add: mq_inv_def rt_const word_less_nat_alt unat_word_ariths)
qed

section \<open>What the pieces do\<close>

lemma mq_invD:
  assumes "mq_inv z s Q F P"
  shows "chain (m_next s) (queue_head s) Q" "chain (m_next s) (queue_free s) F"
    "queue_tail s = (if Q = [] then None else Some (last Q))" "unat (mq_entry s) = length Q" "distinct (Q @ F)"
    "m \<in> P \<Longrightarrow> m \<notin> set Q \<and> m \<notin> set F" "set (Q @ F) \<union> P = msg_blocks z s" "SIZEOF_MQ_MESSAGE + unat (msg_size s) \<le> z"
    "m \<in> set Q \<Longrightarrow> m_length s m \<le> unat (msg_size s)" "m \<in> P \<Longrightarrow> m \<in> msg_blocks z s"
proof -
  show "chain (m_next s) (queue_head s) Q" "chain (m_next s) (queue_free s) F"
    "queue_tail s = (if Q = [] then None else Some (last Q))" "unat (mq_entry s) = length Q" "distinct (Q @ F)"
    "SIZEOF_MQ_MESSAGE + unat (msg_size s) \<le> z" "m \<in> set Q \<Longrightarrow> m_length s m \<le> unat (msg_size s)"
    using assms by (simp_all add: mq_inv_def)
  show u: "set (Q @ F) \<union> P = msg_blocks z s" using assms unfolding mq_inv_def by (elim conjE)
  then show "m \<in> P \<Longrightarrow> m \<in> msg_blocks z s" by blast
  have "P \<inter> set (Q @ F) = {}" using assms unfolding mq_inv_def by (elim conjE)
  then show "m \<in> P \<Longrightarrow> m \<notin> set Q \<and> m \<notin> set F" by auto
qed

lemma reserve_ok:
  assumes i: "mq_inv z s Q F P"
  shows "F = [] \<Longrightarrow> mq_reserve s = None"
    "F = m # F' \<Longrightarrow> mq_reserve s = Some (m, s\<lparr>queue_free := m_next s m\<rparr>)
       \<and> mq_inv z (s\<lparr>queue_free := m_next s m\<rparr>) Q F' (insert m P)"
  using i by (auto simp: mq_inv_def mq_reserve_def msg_blocks_def)

lemma store_ok:
  assumes i: "mq_inv z s Q F P" and m: "m \<in> P" and sz: "sz \<le> unat (msg_size s)" and b: "clear z s buf sz"
  shows "mq_inv z (mq_store m buf sz s) Q F P" "payload (mq_store m buf sz s) m = bytes_at (m_bytes s) buf sz"
    "m' \<in> msg_blocks z s \<Longrightarrow> m' \<noteq> m \<Longrightarrow> m_length s m' \<le> unat (msg_size s) \<Longrightarrow> payload (mq_store m buf sz s) m' = payload s m'"
    "m_next (mq_store m buf sz s) = m_next s" "m_length (mq_store m buf sz s) = (m_length s)(m := sz)"
    "same_pool s (mq_store m buf sz s)" "mq_kern (mq_store m buf sz s) = mq_kern s"
proof -
  have mb: "m \<in> msg_blocks z s" and ne: "m \<notin> set Q" "m \<notin> set F" and z: "8 + unat (msg_size s) \<le> z"
    using mq_invD(6,8,10) [OF i] m by (auto simp: rt_const)
  have nl: "GET_MESSAGEBYTE_ADDR m \<le> buf \<or> buf + sz \<le> GET_MESSAGEBYTE_ADDR m"
    using b mb sz z by (fastforce simp: clear_def GET_MESSAGEBYTE_ADDR_def rt_const)
  have by': "m_bytes (mq_store m buf sz s) = blit (m_bytes s) (GET_MESSAGEBYTE_ADDR m) buf sz"
    by (simp add: mq_store_def memcpy_def memcpy_loop_eq [OF nl])
  show "mq_inv z (mq_store m buf sz s) Q F P"
    using i ne by (auto simp: mq_inv_def mq_store_def msg_blocks_def)
  show "payload (mq_store m buf sz s) m = bytes_at (m_bytes s) buf sz"
    by (simp add: payload_def by' bytes_at_def blit_def) (simp add: mq_store_def)
  show "payload (mq_store m buf sz s) m' = payload s m'"
    if m': "m' \<in> msg_blocks z s" "m' \<noteq> m" "m_length s m' \<le> unat (msg_size s)"
  proof -
    have l: "m_length (mq_store m buf sz s) m' = m_length s m'" using m'(2) by (simp add: mq_store_def)
    have "m' + z \<le> m \<or> m + z \<le> m'" by (rule blocks_apart [OF m'(1) mb m'(2)])
    then show ?thesis using m'(3) sz z unfolding payload_def l by' bytes_at_def
      by (intro map_cong) (auto simp: blit_def GET_MESSAGEBYTE_ADDR_def rt_const)
  qed
  show "m_next (mq_store m buf sz s) = m_next s" "m_length (mq_store m buf sz s) = (m_length s)(m := sz)"
    "same_pool s (mq_store m buf sz s)" "mq_kern (mq_store m buf sz s) = mq_kern s"
    by (simp_all add: mq_store_def same_pool_def)
qed

lemma fill_ok:
  assumes i: "mq_inv z s Q F P" and m: "m \<in> P" and sz: "sz \<le> unat (msg_size s)" and b: "clear z s buf sz"
  shows "mq_inv z (mq_fill m buf sz s) Q F P" "payload (mq_fill m buf sz s) m = bytes_at (m_bytes s) buf sz"
    "m' \<in> msg_blocks z s \<Longrightarrow> m' \<noteq> m \<Longrightarrow> m_length s m' \<le> unat (msg_size s) \<Longrightarrow> payload (mq_fill m buf sz s) m' = payload s m'"
    "m_next (mq_fill m buf sz s) = (m_next s)(m := None)" "m_length (mq_fill m buf sz s) = (m_length s)(m := sz)"
    "same_pool s (mq_fill m buf sz s)" "mq_kern (mq_fill m buf sz s) = mq_kern s"
proof -
  let ?s = "s\<lparr>m_next := (m_next s)(m := None)\<rparr>"
  have i1: "mq_inv z ?s Q F P" using i mq_invD(6) [OF i m] by (simp add: mq_inv_def msg_blocks_def)
  have b1: "sz \<le> unat (msg_size ?s)" "clear z ?s buf sz" using sz b by (simp_all add: clear_def msg_blocks_def)
  note st = store_ok [OF i1 m b1, folded mq_fill_def]
  show "mq_inv z (mq_fill m buf sz s) Q F P" "payload (mq_fill m buf sz s) m = bytes_at (m_bytes s) buf sz"
    "m_next (mq_fill m buf sz s) = (m_next s)(m := None)" "m_length (mq_fill m buf sz s) = (m_length s)(m := sz)"
    "same_pool s (mq_fill m buf sz s)" "mq_kern (mq_fill m buf sz s) = mq_kern s"
    using st(1,2,4-7) by (simp_all add: same_pool_def)
  show "m' \<in> msg_blocks z s \<Longrightarrow> m' \<noteq> m \<Longrightarrow> m_length s m' \<le> unat (msg_size s) \<Longrightarrow> payload (mq_fill m buf sz s) m' = payload s m'"
    using st(3) [of m'] by (simp add: msg_blocks_def payload_def)
qed

lemma mq_link_ok:
  assumes i: "mq_inv z s Q F P" and m: "m \<in> P" and n: "m_next s m = None" and l: "m_length s m \<le> unat (msg_size s)"
  shows "\<exists>s'. mq_link n m s = (RT_EOK, s') \<and> mq_inv z s' (Q @ [m]) F (P - {m}) \<and> payload s' = payload s
    \<and> m_length s' = m_length s \<and> (\<forall>x \<in> P - {m}. m_next s' x = m_next s x)
    \<and> same_pool s s' \<and> mq_kern s' = wake_first (LMq n) (mq_kern s) \<and> m_bytes s' = m_bytes s"
proof -
  have ne: "m \<notin> set Q" "m \<notin> set F" using mq_invD(6) [OF i m] by auto
  define nx where "nx = (if Q = [] then m_next s else (m_next s)(last Q := Some m))"
  define s' where "s' = s\<lparr>m_next := nx, queue_tail := Some m, queue_head := (if Q = [] then Some m else queue_head s),
     mq_entry := mq_entry s + 1, mq_kern := wake_first (LMq n) (mq_kern s)\<rparr>"
  have hd: "queue_head s = None \<longleftrightarrow> Q = []" using mq_invD(1) [OF i] by (cases Q) auto
  have e: "mq_link n m s = (RT_EOK, s')"
    using hd mq_invD(3) [OF i] entry_room(1) [OF i m] by (simp add: mq_link_def mq_counted_def s'_def nx_def)
  have lq: "Q \<noteq> [] \<Longrightarrow> last Q \<notin> set F \<and> last Q \<in> set Q" using mq_invD(5) [OF i] by (auto simp: disjoint_iff)
  have q: "chain nx (queue_head s') (Q @ [m])"
    using mq_invD(1,5) [OF i] ne n chain_snoc [of "m_next s" "queue_head s" Q m] by (auto simp: s'_def nx_def)
  have f: "chain nx (queue_free s) F" using mq_invD(2) [OF i] lq by (simp add: nx_def)
  have "mq_inv z s' (Q @ [m]) F (P - {m})"
    using i m ne q f l entry_room(2) [OF i m] by (auto simp: mq_inv_def s'_def msg_blocks_def)
  moreover have "m_next s' x = m_next s x" if "x \<in> P" for x
    using lq mq_invD(6) [OF i that] by (cases "Q = []") (auto simp: s'_def nx_def)
  ultimately show ?thesis using e by (simp add: s'_def payload_def [abs_def] same_pool_def)
qed

lemma push_ok:
  assumes i: "mq_inv z s Q F P" and m: "m \<in> P" and l: "m_length s m \<le> unat (msg_size s)"
  shows "\<exists>s'. mq_push n m s = (RT_EOK, s') \<and> mq_inv z s' (m # Q) F (P - {m}) \<and> payload s' = payload s
    \<and> m_length s' = m_length s \<and> (\<forall>x \<in> P - {m}. m_next s' x = m_next s x)
    \<and> same_pool s s' \<and> mq_kern s' = wake_first (LMq n) (mq_kern s) \<and> m_bytes s' = m_bytes s"
proof -
  have ne: "m \<notin> set Q" "m \<notin> set F" using mq_invD(6) [OF i m] by auto
  define s' where "s' = s\<lparr>m_next := (m_next s)(m := queue_head s), queue_head := Some m,
     queue_tail := (if Q = [] then Some m else queue_tail s),
     mq_entry := mq_entry s + 1, mq_kern := wake_first (LMq n) (mq_kern s)\<rparr>"
  have e: "mq_push n m s = (RT_EOK, s')"
    using mq_invD(3) [OF i] entry_room(1) [OF i m] by (simp add: mq_push_def mq_counted_def s'_def)
  have "mq_inv z s' (m # Q) F (P - {m})"
    using i m ne l entry_room(2) [OF i m] by (auto simp: mq_inv_def s'_def msg_blocks_def)
  then show ?thesis using e by (simp add: s'_def payload_def [abs_def] same_pool_def)
qed

lemma mq_take_ok:
  assumes i: "mq_inv z s (m # Q) F P"
  shows "\<exists>s'. mq_take s = (m, s') \<and> mq_inv z s' Q F (insert m P) \<and> payload s' = payload s \<and> m_length s' = m_length s
    \<and> m_next s' = m_next s \<and> same_pool s s' \<and> mq_kern s' = mq_kern s \<and> m_bytes s' = m_bytes s"
proof -
  define s' where "s' = s\<lparr>queue_head := m_next s m, queue_tail := (if Q = [] then None else queue_tail s),
     mq_entry := mq_entry s - 1\<rparr>"
  have pos: "mq_entry s > 0" "unat (mq_entry s - 1) = length Q"
    using mq_invD(4) [OF i] by (auto simp: word_less_nat_alt unat_sub_if_size word_le_nat_alt)
  have hd: "queue_head s = Some m" using mq_invD(1) [OF i] by simp
  have nl: "Q \<noteq> [] \<Longrightarrow> last Q \<noteq> m" using mq_invD(5) [OF i] by auto
  have e: "mq_take s = (m, s')" using hd pos(1) nl mq_invD(3) [OF i] by (simp add: mq_take_def s'_def Let_def)
  have "mq_inv z s' Q F (insert m P)"
    using i pos(2) by (auto simp: mq_inv_def s'_def msg_blocks_def)
  then show ?thesis using e by (simp add: s'_def payload_def [abs_def] same_pool_def)
qed

lemma copy_ok:
  assumes i: "mq_inv z s Q F P" and m: "m \<in> P" and l: "m_length s m \<le> unat (msg_size s)"
    and b: "clear z s buf (min sz (m_length s m))"
  shows "fst (mq_copy m buf sz s) = min sz (m_length s m)" "mq_inv z (snd (mq_copy m buf sz s)) Q F P"
    "bytes_at (m_bytes (snd (mq_copy m buf sz s))) buf (min sz (m_length s m)) = take sz (payload s m)"
    "m' \<in> msg_blocks z s \<Longrightarrow> m_length s m' \<le> unat (msg_size s) \<Longrightarrow> payload (snd (mq_copy m buf sz s)) m' = payload s m'"
    "m_next (snd (mq_copy m buf sz s)) = m_next s" "m_length (snd (mq_copy m buf sz s)) = m_length s"
    "same_pool s (snd (mq_copy m buf sz s))" "mq_kern (snd (mq_copy m buf sz s)) = mq_kern s"
proof -
  define len where "len = min sz (m_length s m)"
  have mb: "m \<in> msg_blocks z s" and z: "8 + unat (msg_size s) \<le> z" using mq_invD(8,10) [OF i] m by (auto simp: rt_const)
  have nl: "buf \<le> GET_MESSAGEBYTE_ADDR m \<or> GET_MESSAGEBYTE_ADDR m + len \<le> buf"
    using b mb z l by (fastforce simp: clear_def GET_MESSAGEBYTE_ADDR_def rt_const len_def)
  have e: "mq_copy m buf sz s = (len, s\<lparr>m_bytes := blit (m_bytes s) buf (GET_MESSAGEBYTE_ADDR m) len\<rparr>)"
  proof -
    have "(if m_length s m > sz then sz else m_length s m) = len" by (simp add: len_def)
    then show ?thesis by (simp only: mq_copy_def Let_def memcpy_def snd_conv memcpy_loop_eq [OF nl])
  qed
  show "fst (mq_copy m buf sz s) = min sz (m_length s m)" by (simp add: e len_def)
  show "mq_inv z (snd (mq_copy m buf sz s)) Q F P" using i by (simp add: e mq_inv_def msg_blocks_def)
  show "bytes_at (m_bytes (snd (mq_copy m buf sz s))) buf (min sz (m_length s m)) = take sz (payload s m)"
    unfolding len_def [symmetric] e snd_conv payload_def bytes_at_def
    by (rule nth_equalityI) (auto simp: blit_def len_def)
  show "payload (snd (mq_copy m buf sz s)) m' = payload s m'"
    if m': "m' \<in> msg_blocks z s" "m_length s m' \<le> unat (msg_size s)"
  proof -
    have "buf + len \<le> m' \<or> m' + z \<le> buf" using b m'(1) by (simp add: clear_def len_def)
    then show ?thesis using m'(2) z unfolding payload_def e bytes_at_def
      by (intro map_cong) (auto simp: blit_def GET_MESSAGEBYTE_ADDR_def rt_const)
  qed
  show "m_next (snd (mq_copy m buf sz s)) = m_next s" "m_length (snd (mq_copy m buf sz s)) = m_length s"
    "same_pool s (snd (mq_copy m buf sz s))" "mq_kern (snd (mq_copy m buf sz s)) = mq_kern s"
    by (simp_all add: e same_pool_def)
qed

lemma return_ok:
  assumes i: "mq_inv z s Q F P" and m: "m \<in> P"
  shows "mq_inv z (mq_return n m s) Q (m # F) (P - {m})" "payload (mq_return n m s) = payload s"
    "m_length (mq_return n m s) = m_length s" "x \<noteq> m \<Longrightarrow> m_next (mq_return n m s) x = m_next s x"
    "same_pool s (mq_return n m s)" "mq_kern (mq_return n m s) = wake_first (LMqSend n) (mq_kern s)"
    "m_bytes (mq_return n m s) = m_bytes s"
proof -
  have ne: "m \<notin> set Q" "m \<notin> set F" using mq_invD(6) [OF i m] by auto
  then show "mq_inv z (mq_return n m s) Q (m # F) (P - {m})"
    using i m by (auto simp: mq_inv_def mq_return_def msg_blocks_def)
qed (simp_all add: mq_return_def payload_def [abs_def] same_pool_def)

section \<open>Whole calls\<close>

primrec walk :: "(nat \<Rightarrow> nat option) \<Rightarrow> nat \<Rightarrow> nat option \<Rightarrow> nat list" where
  "walk nx 0 p = []"
| "walk nx (Suc k) p = (case p of None \<Rightarrow> [] | Some a \<Rightarrow> a # walk nx k (nx a))"

lemma mq_walk_chain: "chain nx p as \<Longrightarrow> walk nx (length as) p = as"
  by (induction as arbitrary: p) auto

text \<open>The messages in the queue, in order.\<close>

definition messages :: "mq_state \<Rightarrow> u8 list list" where
  "messages s = map (payload s) (walk (m_next s) (unat (mq_entry s)) (queue_head s))"

lemma messages_eq: "mq_inv z s Q F P \<Longrightarrow> messages s = map (payload s) Q"
  using mq_invD(1,4) [of z s Q F P] mq_walk_chain by (fastforce simp: messages_def)

text \<open>A queue no call is in the middle of.\<close>

definition mq_ok :: "nat \<Rightarrow> mq_state \<Rightarrow> bool" where
  "mq_ok z s \<longleftrightarrow> (\<exists>Q F. mq_inv z s Q F {})"

lemma mq_ok_len:
  assumes "mq_inv z s Q F {}"
  shows "length Q + length F = unat (max_msgs s)" "length (messages s) = length Q"
proof -
  have "card (set (Q @ F)) = unat (max_msgs s)"
    using mq_invD(7,8) [OF assms] card_blocks(1) [of z s] by (simp add: rt_const)
  then show "length Q + length F = unat (max_msgs s)" using mq_invD(5) [OF assms] distinct_card by fastforce
  show "length (messages s) = length Q" by (simp add: messages_eq [OF assms])
qed

lemma send_room:
  assumes i: "mq_inv z s Q (m # F) {}" and sz: "sz \<le> unat (msg_size s)" and b: "clear z s buf sz"
  shows "\<exists>s'. mq_send_loop n buf sz timeout sf s = (Done RT_EOK, s') \<and> mq_inv z s' (Q @ [m]) F {}
    \<and> messages s' = messages s @ [bytes_at (m_bytes s) buf sz] \<and> same_pool s s' \<and> mq_kern s' = wake_first (LMq n) (mq_kern s)"
proof -
  let ?s1 = "s\<lparr>queue_free := m_next s m\<rparr>"
  have r: "mq_reserve s = Some (m, ?s1)" "mq_inv z ?s1 Q F {m}" using reserve_ok(2) [OF i refl] by auto
  have c: "sz \<le> unat (msg_size ?s1)" "clear z ?s1 buf sz" using sz b by (simp_all add: clear_def msg_blocks_def)
  note f = fill_ok [OF r(2) _ c, of m, simplified]
  have ms: "msg_size (mq_fill m buf sz ?s1) = msg_size s" using f(6) by (simp add: same_pool_def)
  obtain s' where s': "mq_link n m (mq_fill m buf sz ?s1) = (RT_EOK, s')" "mq_inv z s' (Q @ [m]) F {}"
    "payload s' = payload (mq_fill m buf sz ?s1)" "same_pool (mq_fill m buf sz ?s1) s'" "mq_kern s' = wake_first (LMq n) (mq_kern s)"
    using mq_link_ok [OF f(1), of m n] f(4,5) sz by (auto simp: ms f(7))
  have p: "payload (mq_fill m buf sz ?s1) a = payload s a" if "a \<in> set Q" for a
  proof -
    have "a \<noteq> m" "a \<in> msg_blocks z ?s1" using that mq_invD(5,7) [OF i] by (auto simp: msg_blocks_def)
    moreover have "m_length s a \<le> unat (msg_size s)" using mq_invD(9) [OF i that] .
    ultimately have "payload (mq_fill m buf sz ?s1) a = payload ?s1 a" using f(3) [of a] by simp
    then show ?thesis by (simp add: payload_def)
  qed
  have "messages s' = messages s @ [bytes_at (m_bytes s) buf sz]"
    unfolding messages_eq [OF s'(2)] messages_eq [OF i] s'(3) using p f(2) by simp
  moreover have "same_pool s s'" using f(6) s'(4) by (simp add: same_pool_def)
  moreover have "mq_send_loop n buf sz timeout sf s = (Done RT_EOK, s')" using r(1) s'(1) by (simp add: mq_send_loop_def)
  ultimately show ?thesis using s'(2,5) by blast
qed

lemma urgent_room:
  assumes i: "mq_inv z s Q (m # F) {}" and sz: "sz \<le> unat (msg_size s)" and b: "clear z s buf sz"
  shows "\<exists>s'. rt_mq_urgent n buf sz s = (RT_EOK, s') \<and> mq_inv z s' (m # Q) F {}
    \<and> messages s' = bytes_at (m_bytes s) buf sz # messages s \<and> same_pool s s' \<and> mq_kern s' = wake_first (LMq n) (mq_kern s)"
proof -
  let ?s1 = "s\<lparr>queue_free := m_next s m\<rparr>"
  define g where "g = mq_store m buf sz ?s1"
  have r: "mq_reserve s = Some (m, ?s1)" "mq_inv z ?s1 Q F {m}" using reserve_ok(2) [OF i refl] by auto
  have c: "sz \<le> unat (msg_size ?s1)" "clear z ?s1 buf sz" using sz b by (simp_all add: clear_def msg_blocks_def)
  note g = store_ok [OF r(2) _ c, of m, folded g_def, simplified]
  obtain s' where s': "mq_push n m g = (RT_EOK, s')" "mq_inv z s' (m # Q) F {}"
    "payload s' = payload g" "same_pool g s'" "mq_kern s' = wake_first (LMq n) (mq_kern s)"
    using push_ok [OF g(1), of m n] sz g(5-7) by (auto simp: same_pool_def)
  have p: "payload g a = payload s a" if "a \<in> set Q" for a
  proof -
    have "a \<noteq> m" "a \<in> msg_blocks z ?s1" using that mq_invD(5,7) [OF i] by (auto simp: msg_blocks_def)
    moreover have "m_length s a \<le> unat (msg_size s)" using mq_invD(9) [OF i that] .
    ultimately have "payload g a = payload ?s1 a" using g(3) [of a] by simp
    then show ?thesis by (simp add: payload_def)
  qed
  have "messages s' = bytes_at (m_bytes s) buf sz # messages s"
    unfolding messages_eq [OF s'(2)] messages_eq [OF i] s'(3) using p g(2) by simp
  moreover have "rt_mq_urgent n buf sz s = (RT_EOK, s')" using r(1) s'(1) sz by (simp add: rt_mq_urgent_def g_def)
  ultimately show ?thesis using s'(2,4,5) g(6) by (auto simp: same_pool_def)
qed

lemma recv_message:
  assumes i: "mq_inv z s (m # Q) F {}" and b: "clear z s buf (min sz (m_length s m))"
  shows "\<exists>s'. mq_recv_loop n buf sz timeout sf s = (Done (int (min sz (m_length s m))), s') \<and> mq_inv z s' Q (m # F) {}
    \<and> bytes_at (m_bytes s') buf (min sz (m_length s m)) = take sz (hd (messages s)) \<and> messages s' = tl (messages s)
    \<and> same_pool s s' \<and> mq_kern s' = wake_first (LMqSend n) (mq_kern s)"
proof -
  obtain s1 where s1: "mq_take s = (m, s1)" "mq_inv z s1 Q F {m}" "payload s1 = payload s" "m_length s1 = m_length s"
    "same_pool s s1" "mq_kern s1 = mq_kern s" "m_bytes s1 = m_bytes s"
    using mq_take_ok [OF i] by blast
  have l: "m_length s1 m \<le> unat (msg_size s1)" using mq_invD(9) [OF i, of m] s1(4,5) by (simp add: same_pool_def)
  have c: "clear z s1 buf (min sz (m_length s1 m))" using b s1(4) same_pool_sizes(2) [OF s1(5)] by simp
  define s2 where "s2 = snd (mq_copy m buf sz s1)"
  note cp = copy_ok [OF s1(2) insertI1 l c, folded s2_def]
  define s' where "s' = mq_return n m s2"
  note rt = return_ok [OF cp(2) insertI1, of n, folded s'_def]
  have i': "mq_inv z s' Q (m # F) {}" using rt(1) by simp
  have "payload s' a = payload s a" if "a \<in> set Q" for a
  proof -
    have "a \<in> msg_blocks z s1" using mq_invD(7) [OF s1(2)] that by auto
    moreover have "m_length s1 a \<le> unat (msg_size s1)" using mq_invD(9) [OF s1(2) that] .
    ultimately show ?thesis using cp(4) [of a] rt(2) s1(3) by simp
  qed
  then have "messages s' = tl (messages s)" unfolding messages_eq [OF i'] messages_eq [OF i] by simp
  moreover have "bytes_at (m_bytes s') buf (min sz (m_length s m)) = take sz (hd (messages s))"
    using cp(3) rt(7) s1(3,4) unfolding messages_eq [OF i] by simp
  moreover have "mq_entry s \<noteq> 0" using mq_invD(4) [OF i] by (auto simp: unat_eq_0 [symmetric])
  then have "mq_recv_loop n buf sz timeout sf s = (Done (int (min sz (m_length s m))), s')"
    using s1(1,4) cp(1) by (simp add: mq_recv_loop_def split_beta s2_def [symmetric] s'_def)
  moreover have "same_pool s s'" using same_pool_trans [OF same_pool_trans [OF s1(5) cp(7)] rt(5)] .
  ultimately show ?thesis using i' rt(6) cp(8) s1(6) by auto
qed

lemma free_loop_ok:
  assumes "0 < z" "queue_free s = None"
  shows "\<exists>nx fr. mq_free_loop z i s = s\<lparr>m_next := nx, queue_free := fr\<rparr>
    \<and> chain nx fr (rev (map (\<lambda>j. mq_pool s + j * z) [0..<i]))"
proof (induction i)
  case 0
  show ?case using assms(2) by (intro exI [of _ "m_next s"] exI [of _ None]) simp
next
  case (Suc i)
  then obtain nx fr where h: "mq_free_loop z i s = s\<lparr>m_next := nx, queue_free := fr\<rparr>"
    "chain nx fr (rev (map (\<lambda>j. mq_pool s + j * z) [0..<i]))" by blast
  let ?a = "mq_pool s + i * z"
  have "?a \<notin> set (rev (map (\<lambda>j. mq_pool s + j * z) [0..<i]))" using assms(1) by auto
  then have "chain (nx(?a := fr)) (Some ?a) (rev (map (\<lambda>j. mq_pool s + j * z) [0..<Suc i]))" using h(2) by simp
  moreover have "mq_free_loop z (Suc i) s = s\<lparr>m_next := nx(?a := fr), queue_free := Some ?a\<rparr>"
    using h(1) by (simp add: Let_def)
  ultimately show ?case by blast
qed

text \<open>Initialisation of a pool with room for at least one message.\<close>

lemma mq_init_ok:
  fixes size0 pool_size :: u32
  defines "z \<equiv> unat (RT_ALIGN size0 RT_ALIGN_SIZE) + 8"
  assumes sz: "unat size0 < 2 ^ 16" and room: "0 < unat pool_size div z" "unat pool_size div z < 2 ^ 16"
  shows "\<exists>s'. rt_mq_init n msgpool size0 pool_size flag s = (RT_EOK, s') \<and> mq_ok z s' \<and> messages s' = []
    \<and> unat (max_msgs s') = unat pool_size div z \<and> unat (msg_size s') = unat size0 \<and> mq_pool s' = msgpool \<and> mq_flag s' = flag
    \<and> mq_kern s' = ipc_object_init (LMqSend n) (ipc_object_init (LMq n) (mq_kern s))"
proof -
  have ra: "unat (RT_ALIGN size0 8) = (unat size0 + 7) div 8 * 8" using sz by (simp add: unat_RT_ALIGN)
  have zb: "unat size0 + 8 \<le> z" "z < 2 ^ 17" "0 < z" using sz by (simp_all add: z_def rt_const ra)
  have st: "unat (RT_ALIGN size0 RT_ALIGN_SIZE + of_nat SIZEOF_MQ_MESSAGE) = z"
    using sz by (simp add: z_def rt_const unat_word_ariths ra)
  have mx: "unat (ucast (pool_size div (RT_ALIGN size0 RT_ALIGN_SIZE + of_nat SIZEOF_MQ_MESSAGE)) :: u16) = unat pool_size div z"
    using room(2) by (simp add: unsigned_ucast_eq unat_div st take_bit_nat_eq_self)
  have ms: "unat (ucast size0 :: u16) = unat size0" using sz by (simp add: unsigned_ucast_eq take_bit_nat_eq_self)
  let ?N = "unat pool_size div z"
  define s3 where "s3 = s\<lparr>mq_flag := flag, mq_kern := ipc_object_init (LMq n) (mq_kern s), mq_pool := msgpool,
     msg_size := ucast size0, max_msgs := ucast (pool_size div (RT_ALIGN size0 RT_ALIGN_SIZE + of_nat SIZEOF_MQ_MESSAGE)),
     queue_head := None, queue_tail := None, queue_free := None\<rparr>"
  obtain nx fr where l: "mq_free_loop z ?N s3 = s3\<lparr>m_next := nx, queue_free := fr\<rparr>"
    "chain nx fr (rev (map (\<lambda>j. mq_pool s3 + j * z) [0..<?N]))"
    using free_loop_ok [OF zb(3), of s3 ?N] by (auto simp: s3_def)
  define s' where "s' = s3\<lparr>m_next := nx, queue_free := fr, mq_entry := 0, mq_kern := ipc_object_init (LMqSend n) (mq_kern s3)\<rparr>"
  have nz: "(ucast (pool_size div (RT_ALIGN size0 RT_ALIGN_SIZE + of_nat SIZEOF_MQ_MESSAGE)) :: u16) \<noteq> 0"
    using room(1) mx by (metis unsigned_0 less_irrefl)
  have "rt_mq_init n msgpool size0 pool_size flag s = (RT_EOK, s')"
    using nz l(1) unfolding rt_mq_init_def Let_def s'_def by (simp add: st mx s3_def)
  moreover have "mq_inv z s' [] (rev (map (\<lambda>j. msgpool + j * z) [0..<?N])) {}"
    using l(2) mx ms zb by (auto simp: mq_inv_def s'_def s3_def msg_blocks_def rt_const distinct_map inj_on_def)
  ultimately show ?thesis using mx ms
    by (auto simp: mq_ok_def messages_def) (auto simp: s'_def s3_def)
qed

section \<open>The contract of a message queue\<close>

text \<open>
  The interface of the theory MessagePort with messages as lists of bytes: the caller has them in a buffer
  of its own of msg_size bytes, outside the pool.
\<close>

definition poke :: "nat \<Rightarrow> u8 list \<Rightarrow> mq_state \<Rightarrow> mq_state" where
  "poke buf xs s = s\<lparr>m_bytes := (\<lambda>a. if buf \<le> a \<and> a < buf + length xs then xs ! (a - buf) else m_bytes s a)\<rparr>"

definition mq_send_op :: "nat \<Rightarrow> nat \<Rightarrow> u8 list \<Rightarrow> mq_state \<Rightarrow> bool \<times> mq_state" where
  "mq_send_op n buf x s =
     (case rt_mq_send n buf (length x) (poke buf (take (unat (msg_size s)) x) s) of (r, s') \<Rightarrow> (r = Done RT_EOK, s'))"

definition mq_urgent_op :: "nat \<Rightarrow> nat \<Rightarrow> u8 list \<Rightarrow> mq_state \<Rightarrow> bool \<times> mq_state" where
  "mq_urgent_op n buf x s =
     (case rt_mq_urgent n buf (length x) (poke buf (take (unat (msg_size s)) x) s) of (r, s') \<Rightarrow> (r = RT_EOK, s'))"

definition mq_recv_op :: "nat \<Rightarrow> nat \<Rightarrow> mq_state \<Rightarrow> u8 list option \<times> mq_state" where
  "mq_recv_op n buf s = (case rt_mq_recv n buf (unat (msg_size s)) 0 RT_UNINTERRUPTIBLE s of
     (Done r, s') \<Rightarrow> (if r \<ge> 0 then Some (bytes_at (m_bytes s') buf (nat r)) else None, s') | (Waits, s') \<Rightarrow> (None, s'))"

definition mq_valid :: "nat \<Rightarrow> nat \<Rightarrow> mq_state \<Rightarrow> bool" where
  "mq_valid z buf s \<longleftrightarrow> mq_ok z s \<and> kernel_ok (mq_kern s) \<and> clear z s buf (unat (msg_size s))"

lemma poke_ok:
  assumes i: "mq_inv z s Q F {}" and c: "clear z s buf (unat (msg_size s))"
  shows "mq_inv z (poke buf (take (unat (msg_size s)) x) s) Q F {}"
    "messages (poke buf (take (unat (msg_size s)) x) s) = messages s"
    "length x \<le> unat (msg_size s) \<Longrightarrow> bytes_at (m_bytes (poke buf (take (unat (msg_size s)) x) s)) buf (length x) = x"
    "same_pool s (poke buf (take (unat (msg_size s)) x) s)" "mq_kern (poke buf (take (unat (msg_size s)) x) s) = mq_kern s"
proof -
  define s' where "s' = poke buf (take (unat (msg_size s)) x) s"
  show i': "mq_inv z (poke buf (take (unat (msg_size s)) x) s) Q F {}" using i by (simp add: poke_def mq_inv_def msg_blocks_def)
  have "payload s' m = payload s m" if "m \<in> set Q" for m
  proof -
    have m: "m \<in> msg_blocks z s" "m_length s m \<le> unat (msg_size s)" "SIZEOF_MQ_MESSAGE + unat (msg_size s) \<le> z"
      using mq_invD(7-9) [OF i] that by auto
    have "buf + unat (msg_size s) \<le> m \<or> m + z \<le> buf" using c m(1) by (simp add: clear_def)
    then show ?thesis using m(2,3) unfolding payload_def s'_def poke_def bytes_at_def
      by (intro map_cong) (auto simp: GET_MESSAGEBYTE_ADDR_def rt_const)
  qed
  then show "messages (poke buf (take (unat (msg_size s)) x) s) = messages s"
    unfolding messages_eq [OF i'] messages_eq [OF i] by (simp add: s'_def)
  show "length x \<le> unat (msg_size s) \<Longrightarrow> bytes_at (m_bytes (poke buf (take (unat (msg_size s)) x) s)) buf (length x) = x"
    by (rule nth_equalityI) (simp_all add: bytes_at_def poke_def)
  show "same_pool s (poke buf (take (unat (msg_size s)) x) s)" "mq_kern (poke buf (take (unat (msg_size s)) x) s) = mq_kern s"
    by (simp_all add: poke_def same_pool_def)
qed

lemma mq_send_op_ok:
  assumes v: "mq_valid z buf s" and e: "mq_send_op n buf x s = (a, s')"
  shows "mq_valid z buf s' \<and> same_pool s s'
    \<and> spec_step (unat (max_msgs s)) (\<lambda>x. length x \<le> unat (msg_size s)) (Send x) (messages s) = (Accepted a, messages s')"
proof -
  obtain Q F where i: "mq_inv z s Q F {}" and k: "kernel_ok (mq_kern s)" and c: "clear z s buf (unat (msg_size s))"
    using v by (auto simp: mq_valid_def mq_ok_def)
  let ?p = "poke buf (take (unat (msg_size s)) x) s"
  note p = poke_ok [OF i c, of x]
  have sz: "unat (msg_size ?p) = unat (msg_size s)" using p(4) by (simp add: same_pool_def)
  have vp: "mq_valid z buf ?p" using p k c same_pool_sizes(2) [OF p(4)] by (auto simp: mq_valid_def mq_ok_def sz)
  show ?thesis
  proof (cases "length x \<le> unat (msg_size s)")
    case False
    then show ?thesis using e p vp sz
      by (auto simp: mq_send_op_def rt_mq_send_def rt_mq_send_wait_def rt_const)
  next
    case True
    show ?thesis
    proof (cases F)
      case Nil
      have "queue_free ?p = None" using mq_invD(2) [OF p(1)] Nil by simp
      then show ?thesis using e p vp sz True mq_ok_len [OF i] Nil
        by (auto simp: mq_send_op_def rt_mq_send_def rt_mq_send_wait_def rt_const)
    next
      case (Cons m F')
      have cl: "clear z ?p buf (length x)" using c True same_pool_sizes(2) [OF p(4)] by (fastforce simp: clear_def)
      obtain s2 where s2: "mq_send_loop n buf (length x) 0 RT_UNINTERRUPTIBLE ?p = (Done RT_EOK, s2)" "mq_inv z s2 (Q @ [m]) F' {}"
        "messages s2 = messages s @ [x]" "same_pool ?p s2" "mq_kern s2 = wake_first (LMq n) (mq_kern s)"
        using send_room [OF p(1) [unfolded Cons] _ cl, of n 0 RT_UNINTERRUPTIBLE] True p sz by auto
      have fr: "queue_free ?p \<noteq> None" using mq_invD(2) [OF p(1)] Cons by simp
      have sp: "same_pool s s2" by (rule same_pool_trans [OF p(4) s2(4)])
      have "kernel_ok (mq_kern s2)" unfolding s2(5) by (rule wake_first_ok(1) [OF k]) simp
      then have "mq_valid z buf s2" using s2(2) c same_pool_sizes(2,3) [OF sp] by (auto simp: mq_valid_def mq_ok_def)
      then show ?thesis using e s2(1,3) fr True sz sp mq_ok_len [OF i] Cons
        by (auto simp: mq_send_op_def rt_mq_send_def rt_mq_send_wait_def)
    qed
  qed
qed

lemma mq_urgent_op_ok:
  assumes v: "mq_valid z buf s" and e: "mq_urgent_op n buf x s = (a, s')"
  shows "mq_valid z buf s' \<and> same_pool s s'
    \<and> spec_step (unat (max_msgs s)) (\<lambda>x. length x \<le> unat (msg_size s)) (Urgent x) (messages s) = (Accepted a, messages s')"
proof -
  obtain Q F where i: "mq_inv z s Q F {}" and k: "kernel_ok (mq_kern s)" and c: "clear z s buf (unat (msg_size s))"
    using v by (auto simp: mq_valid_def mq_ok_def)
  define p where "p = poke buf (take (unat (msg_size s)) x) s"
  note pk = poke_ok [OF i c, of x, folded p_def]
  have sz: "unat (msg_size p) = unat (msg_size s)" using pk(4) by (simp add: same_pool_def)
  have vp: "mq_valid z buf p" using pk k c same_pool_sizes(2) [OF pk(4)] by (auto simp: mq_valid_def mq_ok_def sz)
  show ?thesis
  proof (cases "length x \<le> unat (msg_size s) \<and> F \<noteq> []")
    case False
    then have "(\<not> length x \<le> unat (msg_size s)) \<or> mq_reserve p = None" using reserve_ok(1) [OF pk(1)] by (cases "F = []") auto
    then show ?thesis using e [unfolded mq_urgent_op_def, folded p_def] pk vp sz False mq_ok_len [OF i] by (auto simp: rt_mq_urgent_def rt_const split: if_splits)
  next
    case True
    then obtain m F' where F: "F = m # F'" by (cases F) auto
    have cl: "clear z p buf (length x)" using c True same_pool_sizes(2) [OF pk(4)] by (fastforce simp: clear_def)
    obtain s2 where s2: "rt_mq_urgent n buf (length x) p = (RT_EOK, s2)" "mq_inv z s2 (m # Q) F' {}"
      "messages s2 = x # messages s" "same_pool p s2" "mq_kern s2 = wake_first (LMq n) (mq_kern s)"
      using urgent_room [OF pk(1) [unfolded F] _ cl, of n] True pk sz by auto
    have sp: "same_pool s s2" by (rule same_pool_trans [OF pk(4) s2(4)])
    have "kernel_ok (mq_kern s2)" unfolding s2(5) by (rule wake_first_ok(1) [OF k]) simp
    then have "mq_valid z buf s2" using s2(2) c same_pool_sizes(2,3) [OF sp] by (auto simp: mq_valid_def mq_ok_def)
    then show ?thesis using e [unfolded mq_urgent_op_def, folded p_def] s2(1,3) True sp mq_ok_len [OF i] F by auto
  qed
qed

lemma mq_recv_op_ok:
  assumes v: "mq_valid z buf s" and e: "mq_recv_op n buf s = (g, s')"
  shows "mq_valid z buf s' \<and> same_pool s s'
    \<and> spec_step (unat (max_msgs s)) (\<lambda>x. length x \<le> unat (msg_size s)) Recv (messages s) = (Got g, messages s')"
proof -
  obtain Q F where i: "mq_inv z s Q F {}" and k: "kernel_ok (mq_kern s)" and c: "clear z s buf (unat (msg_size s))"
    using v by (auto simp: mq_valid_def mq_ok_def)
  show ?thesis
  proof (cases Q)
    case Nil
    then have "mq_entry s = 0" "messages s = []" using mq_invD(4) [OF i] messages_eq [OF i] by (simp_all add: unat_eq_0)
    then show ?thesis using e v by (auto simp: mq_recv_op_def rt_mq_recv_def rt_const)
  next
    case (Cons m Q')
    have l: "m_length s m \<le> unat (msg_size s)" using mq_invD(9) [OF i] Cons by simp
    then have mn: "min (unat (msg_size s)) (m_length s m) = m_length s m" by simp
    have cl: "clear z s buf (min (unat (msg_size s)) (m_length s m))" using c l by (fastforce simp: clear_def)
    obtain s2 where s2: "mq_recv_loop n buf (unat (msg_size s)) 0 RT_UNINTERRUPTIBLE s = (Done (int (m_length s m)), s2)"
      "mq_inv z s2 Q' (m # F) {}" "bytes_at (m_bytes s2) buf (m_length s m) = take (unat (msg_size s)) (hd (messages s))"
      "messages s2 = tl (messages s)" "same_pool s s2" "mq_kern s2 = wake_first (LMqSend n) (mq_kern s)"
      using recv_message [OF i [unfolded Cons] cl, of n 0 RT_UNINTERRUPTIBLE] by (auto simp: mn)
    have ms: "messages s = payload s m # map (payload s) Q'" using messages_eq [OF i] Cons by simp
    have "take (unat (msg_size s)) (hd (messages s)) = payload s m" using l ms by (simp add: payload_def bytes_at_def)
    moreover have "mq_entry s \<noteq> 0" using mq_invD(4) [OF i] Cons by (auto simp: unat_eq_0 [symmetric])
    moreover have "kernel_ok (mq_kern s2)" unfolding s2(6) by (rule wake_first_ok(1) [OF k]) simp
    then have "mq_valid z buf s2" using s2(2) c same_pool_sizes(2,3) [OF s2(5)] by (auto simp: mq_valid_def mq_ok_def)
    ultimately show ?thesis using e s2(1,3,4,5) ms by (auto simp: mq_recv_op_def rt_mq_recv_def)
  qed
qed

interpretation msgqueue: message_port "mq_valid z buf" messages "\<lambda>s. unat (max_msgs s)"
  "\<lambda>s x. length x \<le> unat (msg_size s)" "mq_send_op n buf" "mq_urgent_op n buf" "mq_recv_op n buf" for z buf n
proof (unfold_locales, goal_cases)
  case (1 s)
  then obtain Q F where "mq_inv z s Q F {}" by (auto simp: mq_valid_def mq_ok_def)
  then show ?case using mq_ok_len by fastforce
next
  case (2 s x a s')
  then show ?case using mq_send_op_ok [OF 2] by (simp add: same_pool_def)
next
  case (4 s x a s')
  then show ?case using mq_urgent_op_ok [OF 4] by (simp add: same_pool_def)
next
  case (3 s g s')
  then show ?case using mq_recv_op_ok [OF 3] by (simp add: same_pool_def)
qed

section \<open>Emptying a queue\<close>

text \<open>The loop leaves the count alone, so it is carried beside the state the invariant is about.\<close>

lemma drain_ok:
  "mq_inv z s Q F P \<Longrightarrow> \<exists>s'. mq_drain (s\<lparr>mq_entry := e\<rparr>) = Some (s'\<lparr>mq_entry := e\<rparr>) \<and> mq_inv z s' [] (rev Q @ F) P
     \<and> same_pool s s' \<and> mq_kern s' = mq_kern s \<and> m_length s' = m_length s \<and> m_bytes s' = m_bytes s
     \<and> (\<forall>x \<in> P. m_next s' x = m_next s x)"
proof (induction Q arbitrary: s F)
  case Nil
  then have "queue_head s = None" by (simp add: mq_inv_def)
  then show ?case using Nil by (intro exI [of _ s]) (subst mq_drain.simps, simp)
next
  case (Cons m Q)
  define s1 where "s1 = s\<lparr>queue_head := m_next s m, queue_tail := (if Q = [] then None else queue_tail s),
     m_next := (m_next s)(m := queue_free s), queue_free := Some m, mq_entry := mq_entry s - 1\<rparr>"
  have hd: "queue_head s = Some m" using mq_invD(1) [OF Cons.prems] by simp
  have nl: "Q \<noteq> [] \<Longrightarrow> last Q \<noteq> m" using mq_invD(5) [OF Cons.prems] by auto
  have "unat (mq_entry s - 1) = length Q"
    using mq_invD(4) [OF Cons.prems] by (auto simp: word_less_nat_alt unat_sub_if_size word_le_nat_alt)
  then have i1: "mq_inv z s1 Q (m # F) P"
    using Cons.prems by (auto simp: mq_inv_def s1_def msg_blocks_def)
  obtain s' where s': "mq_drain (s1\<lparr>mq_entry := e\<rparr>) = Some (s'\<lparr>mq_entry := e\<rparr>)" "mq_inv z s' [] (rev Q @ m # F) P"
    "same_pool s1 s'" "mq_kern s' = mq_kern s1" "m_length s' = m_length s1" "m_bytes s' = m_bytes s1"
    "\<forall>x \<in> P. m_next s' x = m_next s1 x"
    using Cons.IH [OF i1] by blast
  have np: "m \<notin> P" using mq_invD(6) [OF Cons.prems, of m] by auto
  have "mq_drain (s\<lparr>mq_entry := e\<rparr>) = mq_drain (s1\<lparr>mq_entry := e\<rparr>)"
    using hd nl mq_invD(3) [OF Cons.prems] by (subst mq_drain.simps)
      (cases "Q = []", simp_all add: s1_def Let_def, (rule arg_cong [of _ _ mq_drain], simp)+)
  then show ?case using s' np by (intro exI [of _ s']) (auto simp: s1_def same_pool_def)
qed

lemma resume_both_ok:
  assumes "kernel_ok (mq_kern s)"
  shows "\<exists>k2. mq_resume_both n s = Some (s\<lparr>mq_kern := k2\<rparr>) \<and> kernel_ok k2 \<and> klist k2 (LMq n) = [] \<and> klist k2 (LMqSend n) = []
    \<and> (\<forall>t \<in> set (klist (mq_kern s) (LMq n)) \<union> set (klist (mq_kern s) (LMqSend n)). error (threads k2 t) = - RT_ERROR)"
proof -
  let ?k = "mq_kern s"
  have b: "base_ok ?k" using assms by (simp add: kernel_ok_base)
  obtain k1 where 1: "ipc_list_resume_all (LMq n) ?k = Some k1" "base_ok k1" "klist k1 (LMq n) = []" "current k1 = current ?k"
    "\<forall>t \<in> set (klist ?k (LMq n)). error (threads k1 t) = - RT_ERROR" "klist k1 (LMqSend n) = klist ?k (LMqSend n)"
    using resume_all_ok [OF b wait_list_simps(7), of n] by force
  obtain k2 where 2: "ipc_list_resume_all (LMqSend n) k1 = Some k2" "base_ok k2" "klist k2 (LMqSend n) = []" "current k2 = current k1"
    "\<forall>t \<in> set (klist k1 (LMqSend n)). error (threads k2 t) = - RT_ERROR" "klist k2 (LMq n) = []"
    "\<forall>t. t \<notin> set (klist k1 (LMqSend n)) \<longrightarrow> threads k2 t = threads k1 t"
    using resume_all_ok [OF 1(2) wait_list_simps(8), of n] 1(3) by force
  have one: "t \<notin> set (klist k1 (LMqSend n))" if "t \<in> set (klist ?k (LMq n))" for t
    using that b 1(6) by (auto simp: base_ok_def sched_ex_def lists_ok_def)
  have "error (threads k2 t) = - RT_ERROR" if "t \<in> set (klist ?k (LMq n)) \<union> set (klist ?k (LMqSend n))" for t
    using that 1(5,6) 2(5,7) one by auto
  moreover have "kernel_ok k2" using 2(2,4) 1(4) assms by (simp add: kernel_ok_base)
  ultimately show ?thesis using 1(1) 2(1,3,6) by (auto simp: mq_resume_both_def)
qed

lemma control_reset_ok:
  assumes i: "mq_inv z s Q F P" and k: "kernel_ok (mq_kern s)"
  shows "\<exists>s'. rt_mq_control n (RT_IPC_CMD_RESET x) s = Some (RT_EOK, s') \<and> mq_inv z s' [] (rev Q @ F) P
    \<and> same_pool s s' \<and> m_length s' = m_length s \<and> m_bytes s' = m_bytes s \<and> (\<forall>x \<in> P. m_next s' x = m_next s x)
    \<and> kernel_ok (mq_kern s') \<and> klist (mq_kern s') (LMq n) = [] \<and> klist (mq_kern s') (LMqSend n) = []
    \<and> (\<forall>t \<in> set (klist (mq_kern s) (LMq n)) \<union> set (klist (mq_kern s) (LMqSend n)). error (threads (mq_kern s') t) = - RT_ERROR)"
proof -
  obtain k2 where k2: "mq_resume_both n s = Some (s\<lparr>mq_kern := k2\<rparr>)" "kernel_ok k2" "klist k2 (LMq n) = []" "klist k2 (LMqSend n) = []"
    "\<forall>t \<in> set (klist (mq_kern s) (LMq n)) \<union> set (klist (mq_kern s) (LMqSend n)). error (threads k2 t) = - RT_ERROR"
    using resume_both_ok [OF k] by blast
  have i2: "mq_inv z (s\<lparr>mq_kern := k2\<rparr>) Q F P" using i by (simp add: mq_inv_def msg_blocks_def)
  obtain s2 where s2: "mq_drain (s\<lparr>mq_kern := k2\<rparr>) = Some (s2\<lparr>mq_entry := mq_entry s\<rparr>)" "mq_inv z s2 [] (rev Q @ F) P"
    "same_pool s s2" "mq_kern s2 = k2" "m_length s2 = m_length s" "m_bytes s2 = m_bytes s" "\<forall>x \<in> P. m_next s2 x = m_next s x"
    using drain_ok [OF i2, of "mq_entry s"] by (auto simp: same_pool_def)
  define s' where "s' = s2\<lparr>mq_entry := 0, mq_kern := rt_schedule k2\<rparr>"
  have "rt_mq_control n (RT_IPC_CMD_RESET x) s = Some (RT_EOK, s')"
    using k2(1) s2(1,4) by (simp add: rt_mq_control_def s'_def)
  moreover have "mq_inv z s' [] (rev Q @ F) P" using s2(2) by (simp add: s'_def mq_inv_def msg_blocks_def)
  moreover have "kernel_ok (mq_kern s')" "klist (mq_kern s') (LMq n) = []" "klist (mq_kern s') (LMqSend n) = []"
    "error (threads (mq_kern s') t) = error (threads k2 t)" for t
    using advances_schedule(2) [OF k2(2)] schedule_wait_lists [OF k2(2)] k2(3,4) by (simp_all add: s'_def)
  moreover have "same_pool s s'" "m_length s' = m_length s" "m_bytes s' = m_bytes s" "\<forall>x \<in> P. m_next s' x = m_next s x"
    using s2 by (simp_all add: s'_def same_pool_def)
  ultimately show ?thesis using k2(5) by (intro exI [of _ s']) simp
qed

section \<open>What a message queue promises\<close>

text \<open>C6. A message queue answers any sequence of calls that do not wait exactly as a list of at most max_msgs
  byte strings of at most msg_size bytes does, urgent ones put in front: the same calls succeed, and what a
  receiver finds in its buffer is byte for byte what a sender had in its own. So no message is lost, doubled
  or made up, and ordinary ones come out in the order they went in.\<close>

theorem msgqueue_conversation:
  assumes "mq_ok z s" "kernel_ok (mq_kern s)" "clear z s buf (unat (msg_size s))"
    and "port_run (mq_send_op n buf) (mq_urgent_op n buf) (mq_recv_op n buf) xs s = (rs, s')"
  shows "spec_run (unat (max_msgs s)) (\<lambda>x. length x \<le> unat (msg_size s)) xs (messages s) = (rs, messages s') \<and> mq_ok z s'
    \<and> mset (messages s) + mset (accepted xs rs) = mset (got rs) + mset (messages s')
    \<and> (ordinary xs \<longrightarrow> messages s @ accepted xs rs = got rs @ messages s')"
proof -
  have v: "mq_valid z buf s" using assms(1-3) by (simp add: mq_valid_def)
  show ?thesis
    using msgqueue.run_refines [OF v assms(4)] msgqueue.run_conserves [OF v assms(4)] msgqueue.run_in_order [OF v assms(4)]
    by (auto simp: mq_valid_def)
qed

text \<open>A queue of two messages of at most 5 bytes, 16 bytes apart, for the demonstration.\<close>

definition demo_mq0 :: mq_state where
  "demo_mq0 = \<lparr>mq_pool = 0, msg_size = 0, max_msgs = 0, mq_entry = 0, queue_head = None, queue_tail = None, queue_free = None,
     mq_flag = 0, m_next = \<lambda>_. None, m_length = \<lambda>_. 0, m_bytes = \<lambda>_. 0, mq_kern = demo_kernel\<rparr>"

definition demo_mq :: mq_state where
  "demo_mq = snd (rt_mq_init 3 1000 5 40 RT_IPC_FLAG_FIFO demo_mq0)"

lemma demo_mq_facts: "mq_ok 16 demo_mq" "messages demo_mq = []" "unat (max_msgs demo_mq) = 2" "unat (msg_size demo_mq) = 5"
  "mq_kern demo_mq = demo_kernel" "clear 16 demo_mq 2000 5" "mq_flag demo_mq = RT_IPC_FLAG_FIFO"
proof -
  have a: "unat (RT_ALIGN 5 RT_ALIGN_SIZE :: u32) + 8 = 16" by (simp add: rt_const unat_RT_ALIGN)
  have l: "ipc_object_init (LMqSend 3) (ipc_object_init (LMq 3) demo_kernel) = demo_kernel"
  proof -
    have "klist demo_kernel (LMq 3) = []" "klist demo_kernel (LMqSend 3) = []"
      by (simp_all add: demo_kernel_def demo_ready_def rt_system_scheduler_start_def split_beta demo_threads_def
          insert_klist blank_kernel_def)
    then show ?thesis by (simp add: ipc_object_init_def fun_upd_idem)
  qed
  obtain s' where s': "rt_mq_init 3 1000 5 40 RT_IPC_FLAG_FIFO demo_mq0 = (RT_EOK, s')" "mq_ok 16 s'" "messages s' = []"
    "unat (max_msgs s') = 2" "unat (msg_size s') = 5" "mq_pool s' = 1000" "mq_flag s' = RT_IPC_FLAG_FIFO" "mq_kern s' = demo_kernel"
    using mq_init_ok [of 5 40 3 1000 RT_IPC_FLAG_FIFO demo_mq0] unfolding a by (auto simp: l demo_mq0_def)
  then show "mq_ok 16 demo_mq" "messages demo_mq = []" "unat (max_msgs demo_mq) = 2" "unat (msg_size demo_mq) = 5"
    "mq_kern demo_mq = demo_kernel" "clear 16 demo_mq 2000 5" "mq_flag demo_mq = RT_IPC_FLAG_FIFO"
    by (auto simp: demo_mq_def clear_def msg_blocks_def)
qed

theorem msgqueue_conversation_witness:
  "\<exists>s'. port_run (mq_send_op 3 2000) (mq_urgent_op 3 2000) (mq_recv_op 3 2000)
      [Send [1, 2], Send [1, 2, 3, 4, 5, 6], Urgent [3], Send [4], Recv, Recv] demo_mq
    = ([Accepted True, Accepted False, Accepted True, Accepted False, Got (Some [3]), Got (Some [1, 2])], s') \<and> messages s' = []"
proof -
  obtain rs s' where r: "port_run (mq_send_op 3 2000) (mq_urgent_op 3 2000) (mq_recv_op 3 2000)
      [Send [1, 2], Send [1, 2, 3, 4, 5, 6], Urgent [3], Send [4], Recv, Recv] demo_mq = (rs, s')" by (metis surj_pair)
  show ?thesis
    using msgqueue_conversation [of 16 demo_mq 2000, OF _ _ _ r] r demo_mq_facts demo_kernel_kernel_ok by auto
qed

text \<open>Resetting a message queue returns: the loop over its messages ends, with all of them on the free list,
  the count 0, nobody waiting, and every thread that waited about to return -RT_ERROR.\<close>

theorem msgqueue_reset:
  assumes "mq_ok z s" "kernel_ok (mq_kern s)"
  shows "\<exists>s'. rt_mq_control n (RT_IPC_CMD_RESET x) s = Some (RT_EOK, s') \<and> mq_ok z s' \<and> messages s' = []
    \<and> (\<exists>F. mq_inv z s' [] F {} \<and> length F = unat (max_msgs s)) \<and> kernel_ok (mq_kern s')
    \<and> klist (mq_kern s') (LMq n) = [] \<and> klist (mq_kern s') (LMqSend n) = []
    \<and> (\<forall>t \<in> set (klist (mq_kern s) (LMq n)). fst (rt_mq_recv_resume n buf sz timeout start sf t s') = Done (- RT_ERROR))"
proof -
  obtain Q F where i: "mq_inv z s Q F {}" using assms(1) by (auto simp: mq_ok_def)
  obtain s' where s': "rt_mq_control n (RT_IPC_CMD_RESET x) s = Some (RT_EOK, s')" "mq_inv z s' [] (rev Q @ F) {}"
    "kernel_ok (mq_kern s')" "klist (mq_kern s') (LMq n) = []" "klist (mq_kern s') (LMqSend n) = []"
    "\<forall>t \<in> set (klist (mq_kern s) (LMq n)). error (threads (mq_kern s') t) = - RT_ERROR"
    using control_reset_ok [OF i assms(2), of n x] by blast
  have "length (rev Q @ F) = unat (max_msgs s)" using mq_ok_len(1) [OF i] by simp
  moreover have "messages s' = []" using messages_eq [OF s'(2)] by simp
  ultimately show ?thesis using s' by (auto simp: mq_ok_def rt_mq_recv_resume_def rt_const)
qed

theorem msgqueue_reset_witness: "\<exists>s'. rt_mq_control 3 (RT_IPC_CMD_RESET 0) demo_mq = Some (RT_EOK, s') \<and> messages s' = []"
  using msgqueue_reset [OF demo_mq_facts(1), where n = 3 and x = 0 and buf = 2000 and sz = 5 and timeout = 0 and start = 0
      and sf = RT_UNINTERRUPTIBLE] demo_mq_facts(5) demo_kernel_kernel_ok by auto

end
