(* ===== verification/MsgQueueSteps.thy ===== *)
theory MsgQueueSteps
  imports MsgQueue
begin

text \<open>
  Message queue calls that interrupt each other. rt_mq_send_wait, rt_mq_urgent and rt_mq_recv enable
  interrupts while they copy a message, so other threads and interrupt handlers may run whole calls, or
  the first pieces of them, in between. A step is one piece of one call; the state remembers which message
  each thread has in hand, and logs what was sent, what receivers found in their buffers and what a reset
  threw away.
\<close>

datatype holding =
    Idle
  | Reserved nat      \<comment> \<open>taken from the free list, not yet filled\<close>
  | Filled nat        \<comment> \<open>filled by rt_mq_send_wait\<close>
  | Stored nat        \<comment> \<open>filled by rt_mq_urgent\<close>
  | Taken nat         \<comment> \<open>unlinked by rt_mq_recv, not yet copied\<close>
  | Copied nat

fun in_hand :: "holding \<Rightarrow> nat option" where
  "in_hand Idle = None"
| "in_hand (Reserved m) = Some m"
| "in_hand (Filled m) = Some m"
| "in_hand (Stored m) = Some m"
| "in_hand (Taken m) = Some m"
| "in_hand (Copied m) = Some m"

record mq_config =
  queue :: mq_state
  held :: "nat \<Rightarrow> holding"
  sent :: "u8 list list"
  received :: "u8 list list"
  dropped :: "u8 list list"

definition busy :: "mq_config \<Rightarrow> nat set" where
  "busy c = {m. \<exists>t. in_hand (held c t) = Some m}"

definition underway :: "mq_config \<Rightarrow> nat set" where
  "underway c = {m. \<exists>t. held c t = Taken m}"

text \<open>\<open>put t h s c\<close>: thread \<open>t\<close> now holds \<open>h\<close> and the queue is \<open>s\<close>.\<close>

definition put :: "nat \<Rightarrow> holding \<Rightarrow> mq_state \<Rightarrow> mq_config \<Rightarrow> mq_config" where
  "put t h s c = c\<lparr>queue := s, held := (held c)(t := h)\<rparr>"

inductive mq_step :: "nat \<Rightarrow> nat \<Rightarrow> mq_config \<Rightarrow> mq_config \<Rightarrow> bool" for n z where
  reserve: "held c t = Idle \<Longrightarrow> mq_reserve (queue c) = Some (m, s) \<Longrightarrow> mq_step n z c (put t (Reserved m) s c)"
| fill: "held c t = Reserved m \<Longrightarrow> sz \<le> unat (msg_size (queue c)) \<Longrightarrow> clear z (queue c) buf sz
    \<Longrightarrow> mq_step n z c (put t (Filled m) (mq_fill m buf sz (queue c)) c)"
| store: "held c t = Reserved m \<Longrightarrow> sz \<le> unat (msg_size (queue c)) \<Longrightarrow> clear z (queue c) buf sz
    \<Longrightarrow> mq_step n z c (put t (Stored m) (mq_store m buf sz (queue c)) c)"
| link: "held c t = Filled m \<Longrightarrow> mq_link n m (queue c) = (r, s)
    \<Longrightarrow> mq_step n z c (put t Idle s c\<lparr>sent := sent c @ [payload (queue c) m]\<rparr>)"
| push: "held c t = Stored m \<Longrightarrow> mq_push n m (queue c) = (r, s)
    \<Longrightarrow> mq_step n z c (put t Idle s c\<lparr>sent := sent c @ [payload (queue c) m]\<rparr>)"
| take: "held c t = Idle \<Longrightarrow> mq_entry (queue c) \<noteq> 0 \<Longrightarrow> mq_take (queue c) = (m, s)
    \<Longrightarrow> mq_step n z c (put t (Taken m) s c)"
| copy: "held c t = Taken m \<Longrightarrow> unat (msg_size (queue c)) \<le> sz \<Longrightarrow> clear z (queue c) buf sz
    \<Longrightarrow> mq_copy m buf sz (queue c) = (len, s)
    \<Longrightarrow> mq_step n z c (put t (Copied m) s c\<lparr>received := received c @ [bytes_at (m_bytes s) buf len]\<rparr>)"
| return: "held c t = Copied m \<Longrightarrow> mq_step n z c (put t Idle (mq_return n m (queue c)) c)"
| reset: "rt_mq_control n (RT_IPC_CMD_RESET x) (queue c) = Some (r, s) \<Longrightarrow> kernel_ok (mq_kern (queue c))
    \<Longrightarrow> mq_step n z c (c\<lparr>queue := s, dropped := dropped c @ messages (queue c)\<rparr>)"
| application: "(\<forall>m \<in> msg_blocks z (queue c). \<forall>a. m \<le> a \<and> a < m + z \<longrightarrow> f a = m_bytes (queue c) a)
    \<Longrightarrow> mq_step n z c (c\<lparr>queue := (queue c)\<lparr>m_bytes := f, mq_kern := k\<rparr>\<rparr>)"

inductive_cases mq_stepE: "mq_step n z c c'"

definition config_ok :: "nat \<Rightarrow> mq_config \<Rightarrow> bool" where
  "config_ok z c \<longleftrightarrow> (\<exists>Q F. mq_inv z (queue c) Q F (busy c)
       \<and> mset (sent c) = mset (received c) + mset (dropped c) + mset (map (payload (queue c)) Q)
           + image_mset (payload (queue c)) (mset_set (underway c)))
     \<and> (\<forall>t u m. in_hand (held c t) = Some m \<longrightarrow> in_hand (held c u) = Some m \<longrightarrow> t = u)
     \<and> (\<forall>t m. held c t = Filled m \<longrightarrow> m_next (queue c) m = None)
     \<and> (\<forall>t m. held c t \<in> {Filled m, Stored m, Taken m} \<longrightarrow> m_length (queue c) m \<le> unat (msg_size (queue c)))"

section \<open>Which messages are in hand\<close>

lemma put_sel [simp]:
  "queue (put t h s c) = s" "held (put t h s c) = (held c)(t := h)" "sent (put t h s c) = sent c"
  "received (put t h s c) = received c" "dropped (put t h s c) = dropped c"
  by (simp_all add: put_def)

lemma busy_log [simp]:
  "busy (c\<lparr>sent := a\<rparr>) = busy c" "busy (c\<lparr>received := a\<rparr>) = busy c" "busy (c\<lparr>queue := s, dropped := a\<rparr>) = busy c"
  "underway (c\<lparr>sent := a\<rparr>) = underway c" "underway (c\<lparr>received := a\<rparr>) = underway c"
  "underway (c\<lparr>queue := s, dropped := a\<rparr>) = underway c" "busy (c\<lparr>queue := s\<rparr>) = busy c" "underway (c\<lparr>queue := s\<rparr>) = underway c"
  by (simp_all add: busy_def underway_def)

lemma busy_take:
  "in_hand (held c t) = None \<Longrightarrow> in_hand h = Some m \<Longrightarrow> busy (put t h s c) = insert m (busy c)"
proof -
  assume a: "in_hand (held c t) = None" "in_hand h = Some m"
  have "x \<in> busy (put t h s c) \<longleftrightarrow> x = m \<or> x \<in> busy c" for x
    using a unfolding busy_def by (auto split: if_splits) (metis option.distinct(1))
  then show ?thesis by blast
qed

lemma busy_keep:
  "in_hand (held c t) = in_hand h \<Longrightarrow> busy (put t h s c) = busy c"
proof -
  assume a: "in_hand (held c t) = in_hand h"
  have "in_hand (((held c)(t := h)) u) = in_hand (held c u)" for u using a by simp
  then show ?thesis by (simp add: busy_def)
qed

lemma busy_drop:
  assumes "\<forall>t u m. in_hand (held c t) = Some m \<longrightarrow> in_hand (held c u) = Some m \<longrightarrow> t = u" "in_hand (held c t) = Some m"
  shows "busy (put t Idle s c) = busy c - {m}"
proof -
  have "x \<in> busy (put t Idle s c) \<longleftrightarrow> x \<in> busy c \<and> x \<noteq> m" for x
    using assms unfolding busy_def by (auto split: if_splits) (metis option.inject)
  then show ?thesis by blast
qed

lemma underway_keep:
  assumes "\<forall>m. held c t \<noteq> Taken m" "\<forall>m. h \<noteq> Taken m"
  shows "underway (put t h s c) = underway c"
  using assms unfolding underway_def by (auto split: if_splits)

lemma underway_drop:
  assumes one: "\<forall>t u m. in_hand (held c t) = Some m \<longrightarrow> in_hand (held c u) = Some m \<longrightarrow> t = u"
    and t: "held c t = Taken m" and h: "\<forall>x. h \<noteq> Taken x"
  shows "underway (put t h s c) = underway c - {m}"
proof (intro set_eqI iffI)
  fix x
  assume "x \<in> underway (put t h s c)"
  then obtain v where v: "v \<noteq> t" "held c v = Taken x" using h by (auto simp: underway_def split: if_splits)
  moreover have "x \<noteq> m" using v t one by (metis in_hand.simps(5))
  ultimately show "x \<in> underway c - {m}" by (auto simp: underway_def)
next
  fix x
  assume "x \<in> underway c - {m}"
  then obtain v where v: "held c v = Taken x" "x \<noteq> m" by (auto simp: underway_def)
  then have "v \<noteq> t" using t by auto
  then show "x \<in> underway (put t h s c)" using v(1) by (auto simp: underway_def intro!: exI [of _ v])
qed

lemma underway_busy: "underway c \<subseteq> busy c"
  unfolding underway_def busy_def by (auto intro: exI [of _ "_ :: nat"]) (metis in_hand.simps(5))

lemma busyI: "in_hand (held c t) = Some m \<Longrightarrow> m \<in> busy c"
  by (auto simp: busy_def)

section \<open>Every step keeps the invariant\<close>

lemma config_okD:
  assumes "config_ok z c"
  obtains Q F where "mq_inv z (queue c) Q F (busy c)"
    "mset (sent c) = mset (received c) + mset (dropped c) + mset (map (payload (queue c)) Q)
       + image_mset (payload (queue c)) (mset_set (underway c))"
  using assms unfolding config_ok_def by blast

lemma config_one:
  "config_ok z c \<Longrightarrow> \<forall>t u m. in_hand (held c t) = Some m \<longrightarrow> in_hand (held c u) = Some m \<longrightarrow> t = u"
  by (simp add: config_ok_def)

lemma finite_underway:
  assumes "mq_inv z (queue c) Q F (busy c)"
  shows "finite (underway c)"
proof -
  have "underway c \<subseteq> msg_blocks z (queue c)" using mq_invD(10) [OF assms] underway_busy by blast
  then show ?thesis using card_blocks(2) finite_subset by blast
qed

text \<open>A step by which a thread exchanges what it holds, with the queue and the log as they are.\<close>

lemma exchange_ok:
  assumes c: "config_ok z c" and i: "mq_inv z (queue c) Q F (busy c)"
    and m: "in_hand (held c t) = Some m" "in_hand h = Some m"
    and i': "mq_inv z s Q F (busy c)" and sp: "same_pool (queue c) s"
    and pay: "\<And>x. x \<in> msg_blocks z (queue c) \<Longrightarrow> x \<noteq> m \<Longrightarrow> m_length (queue c) x \<le> unat (msg_size (queue c)) \<Longrightarrow> payload s x = payload (queue c) x"
    and nx: "\<And>x. x \<noteq> m \<Longrightarrow> m_next s x = m_next (queue c) x" and ln: "\<And>x. x \<noteq> m \<Longrightarrow> m_length s x = m_length (queue c) x"
    and nt: "\<forall>x. held c t \<noteq> Taken x" "\<forall>x. h \<noteq> Taken x"
    and own: "h = Filled m \<Longrightarrow> m_next s m = None" "h \<in> {Filled m, Stored m} \<Longrightarrow> m_length s m \<le> unat (msg_size (queue c))"
  shows "config_ok z (put t h s c)"
proof -
  have b: "busy (put t h s c) = busy c" by (rule busy_keep) (simp add: m)
  have u: "underway (put t h s c) = underway c" by (rule underway_keep [OF nt])
  have mq: "m \<notin> set Q" using mq_invD(6) [OF i busyI [OF m(1)]] by blast
  have one: "u = t" if "in_hand (held c u) = Some m" for u using config_one [OF c] that m(1) by blast
  have other: "x \<noteq> m" if "u \<noteq> t" "in_hand (held c u) = Some x" for u x using that one by blast
  have len: "m_length (queue c) x \<le> unat (msg_size (queue c))" if "x \<in> underway c" for x
    using c that unfolding config_ok_def underway_def by blast
  have "payload s x = payload (queue c) x" if "x \<in> set Q \<union> underway c" for x
  proof (rule pay)
    show "x \<in> msg_blocks z (queue c)" using that mq_invD(7) [OF i] underway_busy by auto
    show "x \<noteq> m" using that mq one nt(1) unfolding underway_def by auto (metis in_hand.simps(5))
    show "m_length (queue c) x \<le> unat (msg_size (queue c))" using that mq_invD(9) [OF i] len by blast
  qed
  then have q: "map (payload s) Q = map (payload (queue c)) Q"
    and w: "image_mset (payload s) (mset_set (underway c)) = image_mset (payload (queue c)) (mset_set (underway c))"
    using finite_underway [OF i] by (auto intro!: image_mset_cong)
  have ms: "msg_size s = msg_size (queue c)" using sp by (simp add: same_pool_def)
  obtain Q0 F0 where l: "mq_inv z (queue c) Q0 F0 (busy c)"
    "mset (sent c) = mset (received c) + mset (dropped c) + mset (map (payload (queue c)) Q0)
       + image_mset (payload (queue c)) (mset_set (underway c))"
    using config_okD [OF c] by blast
  have QQ: "Q0 = Q" using mq_walk_chain [OF mq_invD(1) [OF l(1)]] mq_walk_chain [OF mq_invD(1) [OF i]] mq_invD(4) [OF l(1)] mq_invD(4) [OF i] by simp
  have "mset (sent c) = mset (received c) + mset (dropped c) + mset (map (payload s) Q) + image_mset (payload s) (mset_set (underway c))"
    using l(2) unfolding QQ q w .
  moreover have "v = w" if "in_hand (((held c)(t := h)) v) = Some x" "in_hand (((held c)(t := h)) w) = Some x" for v w x
  proof -
    have e: "in_hand (((held c)(t := h)) y) = in_hand (held c y)" for y using m by simp
    show ?thesis using that [unfolded e] config_one [OF c] by blast
  qed
  moreover have "m_next s x = None" if "((held c)(t := h)) v = Filled x" for v x
  proof (cases "v = t")
    case True
    then show ?thesis using that m(2) own(1) by auto
  next
    case False
    then have f: "held c v = Filled x" using that by simp
    then have "x \<noteq> m" using other [OF False] by simp
    moreover have "m_next (queue c) x = None" using c f by (simp add: config_ok_def)
    ultimately show ?thesis using nx by simp
  qed
  moreover have "m_length s x \<le> unat (msg_size s)" if "((held c)(t := h)) v \<in> {Filled x, Stored x, Taken x}" for v x
  proof (cases "v = t")
    case True
    then show ?thesis using that m(2) own(2) nt(2) ms by auto
  next
    case False
    then have f: "held c v \<in> {Filled x, Stored x, Taken x}" using that by simp
    then have "x \<noteq> m" using other [OF False] by auto
    moreover have "m_length (queue c) x \<le> unat (msg_size (queue c))" using c f unfolding config_ok_def by blast
    ultimately show ?thesis using ln ms by simp
  qed
  ultimately show ?thesis using i' unfolding config_ok_def put_sel b u by blast
qed

lemma held_ok:
  assumes "config_ok z c"
  shows "held c t = Filled m \<Longrightarrow> m_next (queue c) m = None"
    "held c t \<in> {Filled m, Stored m, Taken m} \<Longrightarrow> m_length (queue c) m \<le> unat (msg_size (queue c))"
  using assms unfolding config_ok_def by blast+

text \<open>A step that changes the lists but neither the contents of messages nor the links of those in hand.\<close>

lemma lists_ok_step:
  assumes c: "config_ok z c" and i': "mq_inv z s Q F (busy c')" and q: "queue c' = s"
    and pay: "payload s = payload (queue c)" "m_length s = m_length (queue c)" "msg_size s = msg_size (queue c)"
    and one: "\<And>v w x. in_hand (held c' v) = Some x \<Longrightarrow> in_hand (held c' w) = Some x \<Longrightarrow> v = w"
    and keep: "\<And>v x. held c' v \<in> {Filled x, Stored x} \<Longrightarrow> held c v = held c' v \<and> m_next s x = m_next (queue c) x"
    and tk: "\<And>v x. held c' v = Taken x \<Longrightarrow> m_length s x \<le> unat (msg_size s)"
    and log: "mset (sent c') = mset (received c') + mset (dropped c') + mset (map (payload s) Q)
      + image_mset (payload s) (mset_set (underway c'))"
  shows "config_ok z c'"
proof -
  have "m_next s x = None" if "held c' v = Filled x" for v x
    using keep [of v x] that held_ok(1) [OF c, of v x] by simp
  moreover have "m_length s x \<le> unat (msg_size s)" if "held c' v \<in> {Filled x, Stored x, Taken x}" for v x
    using that keep [of v x] held_ok(2) [OF c, of v x] tk [of v x] pay by auto
  ultimately show ?thesis using i' log one unfolding config_ok_def q by blast
qed

lemma step_ok:
  assumes c: "config_ok z c" and st: "mq_step n z c c'"
  shows "config_ok z c'"
proof -
  obtain Q F where i: "mq_inv z (queue c) Q F (busy c)"
    and log: "mset (sent c) = mset (received c) + mset (dropped c) + mset (map (payload (queue c)) Q)
       + image_mset (payload (queue c)) (mset_set (underway c))"
    using config_okD [OF c] by blast
  note one = config_one [OF c]
  have fu: "finite (underway c)" by (rule finite_underway [OF i])
  have nx_same: "x \<noteq> m" if "in_hand (held c v) = Some x" "in_hand (held c t) = Some m" "v \<noteq> t" for v t x m
    using that one by blast
  show ?thesis
    using st
  proof cases
    case (reserve t m s)
    then obtain F' where F: "F = m # F'" using reserve_ok(1) [OF i] mq_invD(2) [OF i]
      by (cases F) (auto simp: mq_reserve_def)
    have s: "s = queue c\<lparr>queue_free := m_next (queue c) m\<rparr>" "mq_inv z s Q F' (insert m (busy c))"
      using reserve_ok(2) [OF i F] reserve(3) by auto
    have mb: "m \<notin> busy c" using i F by (auto simp: mq_inv_def)
    have b: "busy c' = insert m (busy c)" unfolding reserve(1) by (rule busy_take) (simp_all add: reserve(2))
    have u: "underway c' = underway c" unfolding reserve(1) by (rule underway_keep) (simp_all add: reserve(2))
    show ?thesis
    proof (rule lists_ok_step [OF c, of s Q F'])
      show "mq_inv z s Q F' (busy c')" using s b by simp
      show "v = w" if "in_hand (held c' v) = Some x" "in_hand (held c' w) = Some x" for v w x
        using that one mb busyI by (auto simp: reserve(1) split: if_splits)
      show "held c v = held c' v \<and> m_next s x = m_next (queue c) x" if "held c' v \<in> {Filled x, Stored x}" for v x
        using that by (auto simp: reserve(1) s(1) split: if_splits)
      show "m_length s x \<le> unat (msg_size s)" if "held c' v = Taken x" for v x
        using that held_ok(2) [OF c, of v x] by (auto simp: reserve(1) s(1) split: if_splits)
      show "mset (sent c') = mset (received c') + mset (dropped c') + mset (map (payload s) Q)
          + image_mset (payload s) (mset_set (underway c'))"
        using log u by (simp add: reserve(1) s(1) payload_def [abs_def])
    qed (simp_all add: reserve(1) s(1) payload_def [abs_def])
  next
    case (fill t m sz buf)
    have m: "m \<in> busy c" by (rule busyI [of _ t]) (simp add: fill(2))
    note f = fill_ok [OF i m fill(3,4)]
    show ?thesis unfolding fill(1)
      by (rule exchange_ok [OF c i, of _ m]) (use fill f in \<open>simp_all\<close>)
  next
    case (store t m sz buf)
    have m: "m \<in> busy c" by (rule busyI [of _ t]) (simp add: store(2))
    note f = store_ok [OF i m store(3,4)]
    show ?thesis unfolding store(1)
      by (rule exchange_ok [OF c i, of _ m]) (use store f in \<open>simp_all\<close>)
  next
    case (link t m r s)
    have m: "m \<in> busy c" by (rule busyI [of _ t]) (simp add: link(2))
    have l: "mq_inv z s (Q @ [m]) F (busy c - {m})" "payload s = payload (queue c)" "m_length s = m_length (queue c)"
      "\<forall>x \<in> busy c - {m}. m_next s x = m_next (queue c) x" "same_pool (queue c) s"
      using mq_link_ok [OF i m held_ok(1) [OF c link(2)], of n] held_ok(2) [OF c, of t m] link(2,3) by auto
    have b: "busy c' = busy c - {m}" unfolding link(1) using busy_drop [OF one, of t m] link(2) by simp
    have u: "underway c' = underway c" unfolding link(1) using underway_keep [of c t Idle s] link(2) by simp
    show ?thesis
    proof (rule lists_ok_step [OF c, of s "Q @ [m]" F])
      show "mq_inv z s (Q @ [m]) F (busy c')" using l b by simp
      show "v = w" if "in_hand (held c' v) = Some x" "in_hand (held c' w) = Some x" for v w x
        using that one by (auto simp: link(1) split: if_splits)
      show "held c v = held c' v \<and> m_next s x = m_next (queue c) x" if "held c' v \<in> {Filled x, Stored x}" for v x
        using that l(4) busyI [of c v x] nx_same [of v x t m] link(2) by (auto simp: link(1) split: if_splits)
      show "m_length s x \<le> unat (msg_size s)" if "held c' v = Taken x" for v x
        using that held_ok(2) [OF c, of v x] l(3,5) by (auto simp: link(1) same_pool_def split: if_splits)
      show "mset (sent c') = mset (received c') + mset (dropped c') + mset (map (payload s) (Q @ [m]))
          + image_mset (payload s) (mset_set (underway c'))"
        using log l(2) u by (simp add: link(1))
    qed (use l in \<open>simp_all add: link(1) same_pool_def\<close>)
  next
    case (push t m r s)
    have m: "m \<in> busy c" by (rule busyI [of _ t]) (simp add: push(2))
    have l: "mq_inv z s (m # Q) F (busy c - {m})" "payload s = payload (queue c)" "m_length s = m_length (queue c)"
      "\<forall>x \<in> busy c - {m}. m_next s x = m_next (queue c) x" "same_pool (queue c) s"
      using push_ok [OF i m, of n] held_ok(2) [OF c, of t m] push(2,3) by auto
    have b: "busy c' = busy c - {m}" unfolding push(1) using busy_drop [OF one, of t m] push(2) by simp
    have u: "underway c' = underway c" unfolding push(1) using underway_keep [of c t Idle s] push(2) by simp
    show ?thesis
    proof (rule lists_ok_step [OF c, of s "m # Q" F])
      show "mq_inv z s (m # Q) F (busy c')" using l b by simp
      show "v = w" if "in_hand (held c' v) = Some x" "in_hand (held c' w) = Some x" for v w x
        using that one by (auto simp: push(1) split: if_splits)
      show "held c v = held c' v \<and> m_next s x = m_next (queue c) x" if "held c' v \<in> {Filled x, Stored x}" for v x
        using that l(4) busyI [of c v x] nx_same [of v x t m] push(2) by (auto simp: push(1) split: if_splits)
      show "m_length s x \<le> unat (msg_size s)" if "held c' v = Taken x" for v x
        using that held_ok(2) [OF c, of v x] l(3,5) by (auto simp: push(1) same_pool_def split: if_splits)
      show "mset (sent c') = mset (received c') + mset (dropped c') + mset (map (payload s) (m # Q))
          + image_mset (payload s) (mset_set (underway c'))"
        using log l(2) u by (simp add: push(1))
    qed (use l in \<open>simp_all add: push(1) same_pool_def\<close>)
  next
    case (take t m s)
    then obtain Q' where Q: "Q = m # Q'"
      using mq_invD(1,4) [OF i] by (cases Q) (auto simp: mq_take_def Let_def unat_eq_0 [symmetric])
    have l: "mq_inv z s Q' F (insert m (busy c))" "payload s = payload (queue c)" "m_length s = m_length (queue c)"
      "m_next s = m_next (queue c)" "same_pool (queue c) s"
      using mq_take_ok [OF i [unfolded Q]] take(4) by auto
    have mb: "m \<notin> busy c" using i Q by (auto simp: mq_inv_def)
    have b: "busy c' = insert m (busy c)" unfolding take(1) by (rule busy_take) (simp_all add: take(2))
    have u: "underway c' = insert m (underway c)" using take(2) unfolding take(1) underway_def by (auto split: if_splits) (metis holding.distinct(7))
    have mu: "m \<notin> underway c" using mb underway_busy by blast
    have lm: "m_length (queue c) m \<le> unat (msg_size (queue c))" using mq_invD(9) [OF i] Q by simp
    show ?thesis
    proof (rule lists_ok_step [OF c, of s Q' F])
      show "mq_inv z s Q' F (busy c')" using l b by simp
      show "v = w" if "in_hand (held c' v) = Some x" "in_hand (held c' w) = Some x" for v w x
        using that one mb busyI by (auto simp: take(1) split: if_splits)
      show "held c v = held c' v \<and> m_next s x = m_next (queue c) x" if "held c' v \<in> {Filled x, Stored x}" for v x
        using that l(4) by (auto simp: take(1) split: if_splits)
      show "m_length s x \<le> unat (msg_size s)" if "held c' v = Taken x" for v x
        using that held_ok(2) [OF c, of v x] l(3,5) lm by (auto simp: take(1) same_pool_def split: if_splits)
      show "mset (sent c') = mset (received c') + mset (dropped c') + mset (map (payload s) Q')
          + image_mset (payload s) (mset_set (underway c'))"
        using log l(2) u mu fu Q by (simp add: take(1))
    qed (use l in \<open>simp_all add: take(1) same_pool_def\<close>)
  next
    case (copy t m sz buf len s)
    have m: "m \<in> busy c" by (rule busyI [of _ t]) (simp add: copy(2))
    have lm: "m_length (queue c) m \<le> unat (msg_size (queue c))" using held_ok(2) [OF c, of t m] copy(2) by simp
    then have mn: "min sz (m_length (queue c) m) = m_length (queue c) m" using copy(3) by simp
    have cl: "clear z (queue c) buf (min sz (m_length (queue c) m))" using copy(3,4) lm by (fastforce simp: clear_def)
    note f = copy_ok [OF i m lm cl, unfolded mn copy(5) fst_conv snd_conv]
    have pm: "take sz (payload (queue c) m) = payload (queue c) m" using copy(3) lm by (simp add: payload_def bytes_at_def)
    have u: "underway c' = underway c - {m}" unfolding copy(1) using underway_drop [OF one copy(2), of "Copied m" s] by simp
    have mu: "m \<in> underway c" using copy(2) by (auto simp: underway_def)
    have b: "busy c' = busy c" unfolding copy(1) using busy_keep [of c t "Copied m" s] copy(2) by simp
    have len: "m_length (queue c) x \<le> unat (msg_size (queue c))" if "x \<in> underway c" for x
      using that held_ok(2) [OF c] by (auto simp: underway_def)
    have pay: "payload s x = payload (queue c) x" if "x \<in> set Q \<union> underway c" for x
    proof (rule f(4))
      have "x \<in> set (Q @ F) \<union> busy c" using that underway_busy by auto
      then show "x \<in> msg_blocks z (queue c)" unfolding mq_invD(7) [OF i] .
      show "m_length (queue c) x \<le> unat (msg_size (queue c))" using that mq_invD(9) [OF i] len by blast
    qed
    have w: "mset_set (underway c) = add_mset m (mset_set (underway c - {m}))"
      by (rule mset_set.remove [OF fu mu])
    have "mset (sent c') = mset (received c') + mset (dropped c') + mset (map (payload s) Q)
        + image_mset (payload s) (mset_set (underway c'))"
    proof -
      have "image_mset (payload s) (mset Q) = image_mset (payload (queue c)) (mset Q)"
        using pay by (auto intro!: image_mset_cong)
      moreover have "image_mset (payload s) (mset_set (underway c - {m})) = image_mset (payload (queue c)) (mset_set (underway c - {m}))"
        using pay fu by (auto intro!: image_mset_cong)
      ultimately show ?thesis using log f(1,3) pm unfolding u by (simp add: copy(1) w)
    qed
    moreover have "v = w" if "in_hand (held c' v) = Some x" "in_hand (held c' w) = Some x" for v w x
      using that one copy(2) by (auto simp: copy(1) split: if_splits)
    moreover have "m_next s x = None" if "held c' v = Filled x" for v x
      using that f(5) held_ok(1) [OF c, of v x] by (auto simp: copy(1) split: if_splits)
    moreover have "m_length s x \<le> unat (msg_size s)" if "held c' v \<in> {Filled x, Stored x, Taken x}" for v x
      using that f(6,7) held_ok(2) [OF c, of v x] by (auto simp: copy(1) same_pool_def split: if_splits)
    moreover have q: "queue c' = s" by (simp add: copy(1))
    ultimately show ?thesis using f(2) unfolding config_ok_def q b by blast
  next
    case (return t m)
    have m: "m \<in> busy c" by (rule busyI [of _ t]) (simp add: return(2))
    note f = return_ok [OF i m, where n = n]
    have b: "busy c' = busy c - {m}" unfolding return(1) using busy_drop [OF one, of t m] return(2) by simp
    have u: "underway c' = underway c" unfolding return(1) using underway_keep [of c t Idle] return(2) by simp
    show ?thesis
    proof (rule lists_ok_step [OF c, of "mq_return n m (queue c)" Q "m # F"])
      show "mq_inv z (mq_return n m (queue c)) Q (m # F) (busy c')" using f b by simp
      show "v = w" if "in_hand (held c' v) = Some x" "in_hand (held c' w) = Some x" for v w x
        using that one by (auto simp: return(1) split: if_splits)
      show "held c v = held c' v \<and> m_next (mq_return n m (queue c)) x = m_next (queue c) x"
        if "held c' v \<in> {Filled x, Stored x}" for v x
        using that f(4) [of x] nx_same [of v x t m] return(2) by (auto simp: return(1) split: if_splits)
      show "m_length (mq_return n m (queue c)) x \<le> unat (msg_size (mq_return n m (queue c)))" if "held c' v = Taken x" for v x
        using that held_ok(2) [OF c, of v x] f(3,5) by (auto simp: return(1) same_pool_def split: if_splits)
      show "mset (sent c') = mset (received c') + mset (dropped c') + mset (map (payload (mq_return n m (queue c))) Q)
          + image_mset (payload (mq_return n m (queue c))) (mset_set (underway c'))"
        using log f(2) u by (simp add: return(1))
    qed (use f in \<open>simp_all add: return(1) same_pool_def\<close>)
  next
    case (reset x r s)
    have l: "mq_inv z s [] (rev Q @ F) (busy c)" "same_pool (queue c) s" "m_length s = m_length (queue c)"
      "m_bytes s = m_bytes (queue c)" "\<forall>x \<in> busy c. m_next s x = m_next (queue c) x"
      using control_reset_ok [OF i reset(3), of n x] reset(2) by auto
    show ?thesis
    proof (rule lists_ok_step [OF c, of s "[]" "rev Q @ F"])
      show "mq_inv z s [] (rev Q @ F) (busy c')" using l by (simp add: reset(1))
      show "v = w" if "in_hand (held c' v) = Some x" "in_hand (held c' w) = Some x" for v w x
        using that one by (auto simp: reset(1))
      show "held c v = held c' v \<and> m_next s x = m_next (queue c) x" if "held c' v \<in> {Filled x, Stored x}" for v x
        using that l(5) busyI [of c v x] by (auto simp: reset(1))
      show "m_length s x \<le> unat (msg_size s)" if "held c' v = Taken x" for v x
        using that held_ok(2) [OF c, of v x] l(2,3) by (auto simp: reset(1) same_pool_def)
      show "mset (sent c') = mset (received c') + mset (dropped c') + mset (map (payload s) [])
          + image_mset (payload s) (mset_set (underway c'))"
        using log l(3,4) messages_eq [OF i] by (simp add: reset(1) payload_def [abs_def])
    qed (use l in \<open>simp_all add: reset(1) same_pool_def payload_def [abs_def]\<close>)
  next
    case (application f k)
    let ?s = "(queue c)\<lparr>m_bytes := f, mq_kern := k\<rparr>"
    have z: "8 + unat (msg_size (queue c)) \<le> z" using mq_invD(8) [OF i] by (simp add: rt_const)
    have pay: "payload ?s x = payload (queue c) x" if "x \<in> set Q \<union> underway c" for x
    proof -
      have "x \<in> set (Q @ F) \<union> busy c" using that underway_busy by auto
      then have xb: "x \<in> msg_blocks z (queue c)" unfolding mq_invD(7) [OF i] .
      have "m_length (queue c) x \<le> unat (msg_size (queue c))"
        using that mq_invD(9) [OF i] held_ok(2) [OF c, of _ x] by (auto simp: underway_def)
      then show ?thesis using application(2) xb z
        by (auto simp: payload_def bytes_at_def GET_MESSAGEBYTE_ADDR_def rt_const intro!: map_cong)
    qed
    have "image_mset (payload ?s) (mset Q) = image_mset (payload (queue c)) (mset Q)"
      "image_mset (payload ?s) (mset_set (underway c)) = image_mset (payload (queue c)) (mset_set (underway c))"
      using pay fu by (auto intro!: image_mset_cong)
    then have "mset (sent c') = mset (received c') + mset (dropped c') + mset (map (payload ?s) Q)
        + image_mset (payload ?s) (mset_set (underway c'))"
      using log by (simp add: application(1))
    moreover have "mq_inv z ?s Q F (busy c')" using i by (simp add: application(1) mq_inv_def msg_blocks_def)
    moreover have h: "held c' = held c" "queue c' = ?s" by (simp_all add: application(1))
    moreover have "m_next ?s x = None" if "held c v = Filled x" for v x using held_ok(1) [OF c that] by simp
    moreover have "m_length ?s x \<le> unat (msg_size ?s)" if "held c v \<in> {Filled x, Stored x, Taken x}" for v x
      using held_ok(2) [OF c that] by simp
    ultimately show ?thesis using one unfolding config_ok_def h by blast
  qed
qed

section \<open>What holds whatever interrupts what\<close>

definition config_start :: "mq_state \<Rightarrow> mq_config" where
  "config_start s = \<lparr>queue = s, held = \<lambda>_. Idle, sent = [], received = [], dropped = []\<rparr>"

lemma config_start_ok:
  assumes "mq_ok z s" "messages s = []"
  shows "config_ok z (config_start s)"
proof -
  obtain Q F where i: "mq_inv z s Q F {}" using assms(1) by (auto simp: mq_ok_def)
  have "busy (config_start s) = {}" "underway (config_start s) = {}" by (simp_all add: busy_def underway_def config_start_def)
  moreover have "Q = []" using messages_eq [OF i] assms(2) by simp
  ultimately show ?thesis using i by (auto simp: config_ok_def config_start_def)
qed

lemma steps_ok: "(mq_step n z)\<^sup>*\<^sup>* c c' \<Longrightarrow> config_ok z c \<Longrightarrow> config_ok z c'"
  by (induction rule: rtranclp_induct) (auto intro: step_ok)

text \<open>C5. However sends, urgent sends, receives and resets of a message queue interrupt each other between
  their pieces, and whatever the application writes outside the pool: every message that was linked has been
  received unchanged, thrown away by a reset, is in the queue, or is in the hand of a receiver that has not
  copied it yet; nothing else is ever received. No message is in two hands, and the count is the length of
  the queue, so between calls the queue is sound.\<close>

theorem msgqueue_interleaving:
  assumes "mq_ok z s" "messages s = []" "(mq_step n z)\<^sup>*\<^sup>* (config_start s) c"
  shows "mset (sent c) = mset (received c) + mset (dropped c) + mset (messages (queue c))
      + image_mset (payload (queue c)) (mset_set (underway c))
    \<and> unat (mq_entry (queue c)) = length (messages (queue c))
    \<and> (in_hand (held c t) = Some m \<longrightarrow> in_hand (held c u) = Some m \<longrightarrow> t = u)
    \<and> ((\<forall>t. held c t = Idle) \<longrightarrow> mq_ok z (queue c))"
proof -
  have c: "config_ok z c" using steps_ok [OF assms(3)] config_start_ok [OF assms(1,2)] by blast
  obtain Q F where i: "mq_inv z (queue c) Q F (busy c)"
    and l: "mset (sent c) = mset (received c) + mset (dropped c) + mset (map (payload (queue c)) Q)
       + image_mset (payload (queue c)) (mset_set (underway c))"
    using config_okD [OF c] by blast
  have "(\<forall>t. held c t = Idle) \<Longrightarrow> busy c = {}" by (simp add: busy_def)
  then have "(\<forall>t. held c t = Idle) \<longrightarrow> mq_ok z (queue c)" using i unfolding mq_ok_def by metis
  then show ?thesis using l mq_invD(4) [OF i] config_one [OF c] unfolding messages_eq [OF i] by simp
qed

text \<open>Two senders take a message each before either has filled its own; the second one is done first.\<close>

theorem msgqueue_interleaving_witness:
  "\<exists>c. (mq_step 3 16)\<^sup>*\<^sup>* (config_start demo_mq) c \<and> length (sent c) = 1 \<and> in_hand (held c 0) \<noteq> None
     \<and> mset (sent c) = mset (messages (queue c))"
proof -
  obtain Q F where i: "mq_inv 16 demo_mq Q F {}" using demo_mq_facts(1) by (auto simp: mq_ok_def)
  have Q: "Q = []" using messages_eq [OF i] demo_mq_facts(2) by simp
  have "length F = 2" using mq_ok_len(1) [OF i] Q demo_mq_facts(3) by simp
  then obtain a b where F: "F = [a, b]" by (auto simp: length_Suc_conv numeral_2_eq_2)
  obtain s1 where r1: "mq_reserve demo_mq = Some (a, s1)" "mq_inv 16 s1 [] [b] {a}" "m_bytes s1 = m_bytes demo_mq" "same_pool demo_mq s1"
    using reserve_ok(2) [OF i F] Q by (simp add: same_pool_def)
  obtain s2 where r2: "mq_reserve s1 = Some (b, s2)" "mq_inv 16 s2 [] [] {b, a}" "same_pool s1 s2"
    using reserve_ok(2) [OF r1(2)] by (simp add: same_pool_def)
  have sp: "same_pool demo_mq s2" by (rule same_pool_trans [OF r1(4) r2(3)])
  then have cl: "1 \<le> unat (msg_size s2)" "clear 16 s2 2000 1"
    using demo_mq_facts(4,6) same_pool_sizes [OF sp] by (auto simp: clear_def)
  note f = fill_ok [OF r2(2) insertI1 cl]
  let ?s3 = "mq_fill b 2000 1 s2"
  obtain s4 where l: "mq_link 3 b ?s3 = (RT_EOK, s4)" "mq_inv 16 s4 ([] @ [b]) [] ({b, a} - {b})"
    using mq_link_ok [OF f(1) insertI1, of 3] f(4-6) cl(1) by (auto simp: same_pool_def)
  let ?c0 = "config_start demo_mq"
  let ?c1 = "put 0 (Reserved a) s1 ?c0"
  let ?c2 = "put 1 (Reserved b) s2 ?c1"
  let ?c3 = "put 1 (Filled b) ?s3 ?c2"
  let ?c4 = "put 1 Idle s4 ?c3\<lparr>sent := sent ?c3 @ [payload (queue ?c3) b]\<rparr>"
  have "mq_step 3 16 ?c0 ?c1" by (rule mq_step.reserve) (simp_all add: config_start_def r1(1))
  moreover have "mq_step 3 16 ?c1 ?c2" by (rule mq_step.reserve) (simp_all add: config_start_def r2(1))
  moreover have "mq_step 3 16 ?c2 ?c3" 
    using mq_step.fill [where c = ?c2 and t = 1 and m = b and sz = 1 and buf = 2000 and z = 16 and n = 3] cl by simp
  moreover have "mq_step 3 16 ?c3 ?c4" by (rule mq_step.link [where r = RT_EOK]) (simp_all add: l(1) del: One_nat_def)
  ultimately have st: "(mq_step 3 16)\<^sup>*\<^sup>* ?c0 ?c4" by (meson rtranclp.rtrancl_into_rtrancl rtranclp.rtrancl_refl)
  have "underway ?c4 = {}" by (auto simp: underway_def config_start_def)
  then have "mset (sent ?c4) = mset (messages (queue ?c4))"
    using msgqueue_interleaving [OF demo_mq_facts(1,2) st] by (simp add: config_start_def)
  moreover have "length (sent ?c4) = 1" "in_hand (held ?c4 0) \<noteq> None" by (simp_all add: config_start_def)
  ultimately show ?thesis using st by blast
qed

end
