(* ===== verification/MemPool.thy ===== *)
theory MemPool
  imports Waiting Object
begin

text \<open>
  Memory pools (src/mempool.c): a region divided into blocks of one size, each with a pointer in front that
  links the free blocks and names the pool while the block is in use. The pointers are kept in a map from
  addresses to words; \<open>NULL\<close> is 0, a pool is the address of its control block, and threads that wait for a
  block of the pool \<open>m\<close> are in the list \<open>LPool m\<close>. Sizes and addresses are naturals below \<open>2 ^ 32\<close> with the
  wrap-around written out.
\<close>

record rt_mempool =
  start_address :: nat
  mp_size :: nat
  block_size :: nat
  block_list :: nat
  block_total_count :: nat
  block_free_count :: nat

record mp_state =
  mp_words :: "nat \<Rightarrow> nat"
  pools :: "nat \<Rightarrow> rt_mempool"
  mp_kern :: kernel

definition SIZEOF_PTR :: nat where [rt_const]: "SIZEOF_PTR = 4"

text \<open>\<open>block_ptr + offset * (block_size + sizeof(rt_uint8_t *))\<close>\<close>

definition mp_block :: "nat \<Rightarrow> nat \<Rightarrow> nat \<Rightarrow> nat" where
  "mp_block start bs i = add32 start (i * add32 bs SIZEOF_PTR mod 2 ^ 32)"

primrec mp_link_loop :: "nat \<Rightarrow> nat \<Rightarrow> nat \<Rightarrow> (nat \<Rightarrow> nat) \<Rightarrow> nat \<Rightarrow> nat" where
  "mp_link_loop start bs 0 w = w"
| "mp_link_loop start bs (Suc i) w = (mp_link_loop start bs i w)(mp_block start bs i := mp_block start bs (i + 1))"

text \<open>The initialisation of the free list, the same in rt_mp_init and rt_mp_create.\<close>

definition mp_link :: "nat \<Rightarrow> nat \<Rightarrow> nat \<Rightarrow> (nat \<Rightarrow> nat) \<Rightarrow> nat \<Rightarrow> nat" where
  "mp_link start bs cnt w = (mp_link_loop start bs cnt w)(mp_block start bs (sub32 cnt 1) := 0)"

definition rt_mp_init :: "nat \<Rightarrow> nat \<Rightarrow> nat \<Rightarrow> nat \<Rightarrow> mp_state \<Rightarrow> rt_err_t \<times> mp_state" where
  "rt_mp_init m start sz0 bs0 s =
     (let sz = unat (RT_ALIGN_DOWN (of_nat sz0) RT_ALIGN_SIZE); bs = unat (RT_ALIGN (of_nat bs0) RT_ALIGN_SIZE);
          cnt = sz div add32 bs SIZEOF_PTR
      in (RT_EOK, s\<lparr>pools := (pools s)(m := \<lparr>start_address = start, mp_size = sz, block_size = bs, block_list = start,
              block_total_count = cnt, block_free_count = cnt\<rparr>),
           mp_words := mp_link start bs cnt (mp_words s), mp_kern := ipc_object_init (LPool m) (mp_kern s)\<rparr>))"

definition rt_mp_detach :: "nat \<Rightarrow> mp_state \<Rightarrow> (rt_err_t \<times> mp_state) option" where
  "rt_mp_detach m s = map_option (\<lambda>k. (RT_EOK, s\<lparr>mp_kern := k\<rparr>)) (ipc_list_resume_all (LPool m) (mp_kern s))"

text \<open>\<open>rt_set_errno\<close> of src/kservice.c: the error number of the running thread, in an interrupt a global that
  nothing in the kernel reads.\<close>

definition rt_set_errno :: "rt_err_t \<Rightarrow> kernel \<Rightarrow> kernel" where
  "rt_set_errno e k =
     (if interrupt_nest k \<noteq> 0 then k
      else case rt_thread_self k of None \<Rightarrow> k | Some t \<Rightarrow> upd_thread t (\<lambda>r. r\<lparr>error := e\<rparr>) k)"

datatype mp_result = Allocated nat | No_block | Block_waits

definition upd_pool :: "nat \<Rightarrow> (rt_mempool \<Rightarrow> rt_mempool) \<Rightarrow> mp_state \<Rightarrow> mp_state" where
  "upd_pool m f s = s\<lparr>pools := (pools s)(m := f (pools s m))\<rparr>"

definition mp_take :: "nat \<Rightarrow> mp_state \<Rightarrow> mp_result \<times> mp_state" where
  "mp_take m s =
     (let b = block_list (pools s m);
          s1 = upd_pool m (\<lambda>p. p\<lparr>block_free_count := block_free_count p - 1, block_list := mp_words s b\<rparr>) s
      in (Allocated (add32 b SIZEOF_PTR), s1\<lparr>mp_words := (mp_words s1)(b := m)\<rparr>))"

text \<open>A round of the waiting loop up to rt_schedule: the thread goes to the front of the list.\<close>

definition mp_wait :: "nat \<Rightarrow> int \<Rightarrow> kernel \<Rightarrow> kernel" where
  "mp_wait m time k = plain_wait tlist_insert_after (LPool m) time k"

definition rt_mp_alloc :: "nat \<Rightarrow> int \<Rightarrow> mp_state \<Rightarrow> mp_result \<times> mp_state" where
  "rt_mp_alloc m time s =
     (if block_free_count (pools s m) = 0 then
        if time = 0 then (No_block, s\<lparr>mp_kern := rt_set_errno (- RT_ETIMEOUT) (mp_kern s)\<rparr>)
        else (Block_waits, s\<lparr>mp_kern := mp_wait m time (mp_kern s)\<rparr>)
      else mp_take m s)"

text \<open>The rest of the loop when the thread \<open>t\<close>, which began to wait at \<open>before_sleep\<close>, runs again.\<close>

definition rt_mp_alloc_resume :: "nat \<Rightarrow> nat \<Rightarrow> int \<Rightarrow> u32 \<Rightarrow> mp_state \<Rightarrow> mp_result \<times> mp_state" where
  "rt_mp_alloc_resume m t time before_sleep s =
     (if error (threads (mp_kern s) t) \<noteq> RT_EOK then (No_block, s)
      else rt_mp_alloc m (time_left time before_sleep (rt_tick_get (mp_kern s))) s)"

definition rt_mp_free :: "nat \<Rightarrow> mp_state \<Rightarrow> mp_state" where
  "rt_mp_free block s =
     (if block = 0 then s
      else let b = sub32 block SIZEOF_PTR; m = mp_words s b;
               s1 = upd_pool m (\<lambda>p. p\<lparr>block_free_count := block_free_count p + 1, block_list := b\<rparr>) s
           in s1\<lparr>mp_words := (mp_words s1)(b := block_list (pools s m)), mp_kern := wake_first (LPool m) (mp_kern s1)\<rparr>)"

section \<open>The invariant\<close>

fun mp_chain :: "(nat \<Rightarrow> nat) \<Rightarrow> nat \<Rightarrow> nat list \<Rightarrow> bool" where
  "mp_chain w p [] \<longleftrightarrow> p = 0"
| "mp_chain w p (a # as) \<longleftrightarrow> p = a \<and> a \<noteq> 0 \<and> mp_chain w (w a) as"

lemma mp_chain_upd [simp]: "b \<notin> set as \<Longrightarrow> mp_chain (w(b := v)) p as = mp_chain w p as"
  by (induction as arbitrary: p) auto

definition pool_blocks :: "rt_mempool \<Rightarrow> nat set" where
  "pool_blocks p = (\<lambda>i. start_address p + i * (block_size p + SIZEOF_PTR)) ` {..<block_total_count p}"

text \<open>\<open>F\<close> is the free list of the pool; the blocks in use name the pool.\<close>

definition pool_ok :: "nat \<Rightarrow> mp_state \<Rightarrow> nat list \<Rightarrow> bool" where
  "pool_ok m s F \<longleftrightarrow> (let p = pools s m in
     mp_chain (mp_words s) (block_list p) F \<and> distinct F \<and> set F \<subseteq> pool_blocks p \<and> block_free_count p = length F
     \<and> (\<forall>b \<in> pool_blocks p - set F. mp_words s b = m)
     \<and> 0 < block_size p \<and> 0 < start_address p \<and> start_address p + mp_size p \<le> 2 ^ 32
     \<and> block_total_count p * (block_size p + SIZEOF_PTR) \<le> mp_size p)"

text \<open>The blocks handed out and not yet given back, by the addresses their users have.\<close>

definition in_use :: "nat \<Rightarrow> mp_state \<Rightarrow> nat list \<Rightarrow> nat set" where
  "in_use m s F = (\<lambda>b. b + SIZEOF_PTR) ` (pool_blocks (pools s m) - set F)"

lemma pool_okD:
  assumes "pool_ok m s F"
  shows "mp_chain (mp_words s) (block_list (pools s m)) F" "distinct F" "set F \<subseteq> pool_blocks (pools s m)"
    "block_free_count (pools s m) = length F" "b \<in> pool_blocks (pools s m) \<Longrightarrow> b \<notin> set F \<Longrightarrow> mp_words s b = m"
    "0 < start_address (pools s m)" "start_address (pools s m) + mp_size (pools s m) \<le> 2 ^ 32"
    "block_total_count (pools s m) * (block_size (pools s m) + SIZEOF_PTR) \<le> mp_size (pools s m)"
    "0 < block_size (pools s m)"
  using assms by (simp_all add: pool_ok_def Let_def)

lemma block_range:
  assumes p: "pool_ok m s F" and b: "b \<in> pool_blocks (pools s m)"
  shows "start_address (pools s m) \<le> b"
    "b + SIZEOF_PTR + block_size (pools s m) \<le> start_address (pools s m) + mp_size (pools s m)"
    "0 < b" "b + SIZEOF_PTR < 2 ^ 32"
proof -
  let ?p = "pools s m" and ?z = "block_size (pools s m) + SIZEOF_PTR"
  obtain i where i: "i < block_total_count ?p" "b = start_address ?p + i * ?z" using b by (auto simp: pool_blocks_def)
  have "Suc i * ?z \<le> block_total_count ?p * ?z" using i(1) by (intro mult_le_mono1) simp
  then have "Suc i * ?z \<le> mp_size ?p" using pool_okD(8) [OF p] by simp
  then show 1: "b + SIZEOF_PTR + block_size ?p \<le> start_address ?p + mp_size ?p" by (simp add: i(2))
  show "start_address ?p \<le> b" by (simp add: i(2))
  then show "0 < b" using pool_okD(6) [OF p] by simp
  show "b + SIZEOF_PTR < 2 ^ 32" using 1 pool_okD(7,9) [OF p] by linarith
qed

lemma blocks_disjoint:
  assumes "a \<in> pool_blocks p" "b \<in> pool_blocks p" "a \<noteq> b"
  shows "a + SIZEOF_PTR + block_size p \<le> b \<or> b + SIZEOF_PTR + block_size p \<le> a"
proof -
  let ?z = "block_size p + SIZEOF_PTR"
  obtain i j where ij: "a = start_address p + i * ?z" "b = start_address p + j * ?z" using assms(1,2) by (auto simp: pool_blocks_def)
  have "i < j \<or> j < i" using assms(3) ij by (metis linorder_neqE_nat)
  then show ?thesis
  proof
    assume "i < j"
    then have "Suc i * ?z \<le> j * ?z" by (intro mult_le_mono1) simp
    then show ?thesis by (simp add: ij)
  next
    assume "j < i"
    then have "Suc j * ?z \<le> i * ?z" by (intro mult_le_mono1) simp
    then show ?thesis by (simp add: ij)
  qed
qed

section \<open>What the operations do\<close>

lemma link_loop_words:
  assumes "inj_on f {..<n}" "\<And>i. i \<le> n \<Longrightarrow> mp_block start bs i = f i"
  shows "j < n \<Longrightarrow> mp_link_loop start bs n w (f j) = f (j + 1)" "(\<forall>i<n. a \<noteq> f i) \<Longrightarrow> mp_link_loop start bs n w a = w a"
proof -
  have "(\<forall>j<k. mp_link_loop start bs k w (f j) = f (j + 1)) \<and> (\<forall>a. (\<forall>i<k. a \<noteq> f i) \<longrightarrow> mp_link_loop start bs k w a = w a)"
    if "k \<le> n" for k using that
  proof (induction k)
    case (Suc k)
    have "f j \<noteq> f k" if "j < k" for j using that assms(1) Suc.prems inj_onD [OF assms(1), of j k] by auto
    then show ?case using Suc.IH Suc.prems assms(2) by (auto simp: less_Suc_eq)
  qed simp
  then show "j < n \<Longrightarrow> mp_link_loop start bs n w (f j) = f (j + 1)" "(\<forall>i<n. a \<noteq> f i) \<Longrightarrow> mp_link_loop start bs n w a = w a"
    by blast+
qed

lemma chain_of_links:
  assumes "\<And>j. j < n \<Longrightarrow> f j \<noteq> 0" "\<And>j. Suc j < n \<Longrightarrow> w (f j) = f (Suc j)" "0 < n \<Longrightarrow> w (f (n - 1)) = 0" "k \<le> n" "0 < n"
  shows "mp_chain w (if k = n then 0 else f k) (map f [k..<n])"
  using assms(4)
proof (induction "n - k" arbitrary: k)
  case (Suc d)
  then have k: "k < n" by simp
  have IH: "mp_chain w (if Suc k = n then 0 else f (Suc k)) (map f [Suc k..<n])" using Suc.hyps(1) [of "Suc k"] Suc.hyps(2) k by simp
  have "w (f k) = (if Suc k = n then 0 else f (Suc k))" using assms(2) [of k] assms(3,5) k by auto
  then show ?case using IH k assms(1) by (simp add: upt_conv_Cons)
qed simp

text \<open>Linking the blocks of a pool that lies within its region: afterwards all of them are free.\<close>

lemma pool_link_ok:
  assumes z: "0 < start" "0 < b" "0 < n" "n * (b + 4) \<le> sz" "start + sz \<le> 2 ^ 32"
    and p: "pools s' m = \<lparr>start_address = start, mp_size = sz, block_size = b, block_list = start, block_total_count = n, block_free_count = n\<rparr>"
    and w: "mp_words s' = mp_link start b n w0"
  shows "\<exists>F. pool_ok m s' F \<and> set F = pool_blocks (pools s' m) \<and> (\<forall>a. a \<notin> pool_blocks (pools s' m) \<longrightarrow> mp_words s' a = w0 a)"
proof -
  define f where "f = (\<lambda>i. start + i * (b + 4))"
  have nz': "i * (b + 4) \<le> sz" if "i \<le> n" for i
    using mult_le_mono1 [OF that, of "b + 4"] z(4) by linarith
  have "1 * (b + 4) \<le> sz" by (rule nz') (use z(3) in simp)
  then have a4: "add32 b SIZEOF_PTR = b + 4" using z(1,5) by (simp add: add32_def rt_const)
  have bl: "mp_block start b i = f i" if "i < n" for i
  proof -
    have "Suc i * (b + 4) \<le> sz" using nz' [of "Suc i"] that by simp
    then have "i * (b + 4) < 2 ^ 32" "f i < 2 ^ 32" using z(2,5) by (simp_all add: f_def)
    then show ?thesis unfolding mp_block_def a4 by (simp add: f_def add32_def)
  qed
  have inj: "inj_on f {..<n}" by (simp add: inj_on_def f_def)
  obtain k where k: "n = Suc k" using z(3) by (cases n) auto
  have wl: "mp_link_loop start b k w' (f j) = f (j + 1)" if "j < k" for w' j
    using link_loop_words(1) [of f k start b] inj bl k that by (auto simp: inj_on_def)
  have "n * 1 \<le> n * (b + 4)" by (rule mult_le_mono2) simp
  then have "n < 2 ^ 32" using z(1,4,5) by linarith
  then have s1: "sub32 n 1 = k" using sub32_eq [of 1 n] k by simp
  have fk: "mp_block start b k = f k" using bl [of k] k by simp
  have we: "mp_words s' = (mp_link_loop start b k w0)(f k := 0)"
    unfolding w mp_link_def s1 fk using fk k by simp
  have ch: "mp_chain (mp_words s') (if 0 = n then 0 else f 0) (map f [0..<n])"
  proof (rule chain_of_links)
    show "f j \<noteq> 0" for j using z(1) by (simp add: f_def)
    show "mp_words s' (f j) = f (Suc j)" if "Suc j < n" for j
    proof -
      have "f j \<noteq> f k" using that k by (simp add: f_def)
      then show ?thesis using that k wl [of j] by (simp add: we)
    qed
    show "mp_words s' (f (n - 1)) = 0" using k by (simp add: we)
  qed (use z(3) in auto)
  have frame: "mp_words s' a = w0 a" if "\<forall>i<n. a \<noteq> f i" for a
  proof -
    have "mp_link_loop start b k w0 a = w0 a"
      using link_loop_words(2) [of f k start b a] inj bl k that by (auto simp: inj_on_def)
    then show ?thesis using that k by (simp add: we)
  qed
  have pb: "pool_blocks (pools s' m) = f ` {..<n}" by (simp add: pool_blocks_def p f_def rt_const)
  have fl: "set (map f [0..<n]) = f ` {..<n}" by (simp add: atLeast0LessThan)
  have "pool_ok m s' (map f [0..<n])"
    unfolding pool_ok_def Let_def fl pb
    using ch z inj by (auto simp: p distinct_map rt_const f_def inj_on_def)
  then show ?thesis using frame pb fl by blast
qed

text \<open>A pool with room for a block.\<close>

lemma pool_init_ok:
  fixes start sz0 bs0 :: nat
  assumes st: "0 < start" "start + sz0 \<le> 2 ^ 32" and bs: "0 < bs0" "bs0 < 2 ^ 31"
    and room: "(bs0 + 7) div 8 * 8 + 4 \<le> sz0 div 8 * 8"
  shows "\<exists>s' F. rt_mp_init m start sz0 bs0 s = (RT_EOK, s') \<and> pool_ok m s' F \<and> set F = pool_blocks (pools s' m)
    \<and> block_total_count (pools s' m) = (sz0 div 8 * 8) div ((bs0 + 7) div 8 * 8 + 4)
    \<and> bs0 \<le> block_size (pools s' m) \<and> start_address (pools s' m) = start \<and> mp_size (pools s' m) \<le> sz0
    \<and> mp_kern s' = ipc_object_init (LPool m) (mp_kern s)
    \<and> (\<forall>a. a \<notin> pool_blocks (pools s' m) \<longrightarrow> mp_words s' a = mp_words s a)"
proof -
  define b where "b = (bs0 + 7) div 8 * 8"
  define n where "n = (sz0 div 8 * 8) div (b + 4)"
  have szlt: "sz0 < 2 ^ 32" using st by simp
  have b: "unat (RT_ALIGN (of_nat bs0) RT_ALIGN_SIZE) = b" "b < 2 ^ 31 + 8" "bs0 \<le> b"
    using bs by (simp_all add: rt_const unat_RT_ALIGN b_def unat_of_nat)
  have sz: "unat (RT_ALIGN_DOWN (of_nat sz0) RT_ALIGN_SIZE) = sz0 div 8 * 8"
    using szlt by (simp add: rt_const unat_RT_ALIGN_DOWN unat_of_nat)
  have a4: "add32 b SIZEOF_PTR = b + 4" using b(2) by (simp add: add32_def rt_const)
  have n0: "0 < n" using room by (simp add: n_def b_def div_greater_zero_iff)
  have nz: "n * (b + 4) \<le> sz0 div 8 * 8" unfolding n_def by (rule div_times_less_eq_dividend)
  define p where "p = \<lparr>start_address = start, mp_size = sz0 div 8 * 8, block_size = b, block_list = start,
    block_total_count = n, block_free_count = n\<rparr>"
  define s' where "s' = s\<lparr>pools := (pools s)(m := p), mp_words := mp_link start b n (mp_words s), mp_kern := ipc_object_init (LPool m) (mp_kern s)\<rparr>"
  have e: "rt_mp_init m start sz0 bs0 s = (RT_EOK, s')"
    by (simp add: rt_mp_init_def Let_def sz b(1) a4 n_def [symmetric] s'_def p_def)
  have pp: "pools s' m = p" "mp_kern s' = ipc_object_init (LPool m) (mp_kern s)" by (simp_all add: s'_def)
  have "start + sz0 div 8 * 8 \<le> 2 ^ 32" using st by simp
  moreover have "0 < b" using bs(1) b(3) by simp
  ultimately obtain F where "pool_ok m s' F" "set F = pool_blocks (pools s' m)"
      "\<forall>a. a \<notin> pool_blocks (pools s' m) \<longrightarrow> mp_words s' a = mp_words s a"
    using pool_link_ok [OF st(1) _ n0 nz, of s' m "mp_words s"] by (auto simp: s'_def p_def)
  moreover have "block_total_count p = (sz0 div 8 * 8) div ((bs0 + 7) div 8 * 8 + 4)" "bs0 \<le> block_size p"
    "start_address p = start" "mp_size p \<le> sz0"
    using b(3) by (simp_all add: p_def n_def b_def)
  ultimately show ?thesis using e pp by metis
qed

text \<open>Taking a block that is free.\<close>

lemma pool_take_ok:
  assumes p: "pool_ok m s (b # F)"
  shows "\<exists>s'. mp_take m s = (Allocated (b + SIZEOF_PTR), s') \<and> pool_ok m s' F \<and> in_use m s' F = insert (b + SIZEOF_PTR) (in_use m s (b # F))
    \<and> b + SIZEOF_PTR \<notin> in_use m s (b # F) \<and> mp_kern s' = mp_kern s \<and> (\<forall>n. n \<noteq> m \<longrightarrow> pools s' n = pools s n)
    \<and> start_address (pools s' m) = start_address (pools s m) \<and> mp_size (pools s' m) = mp_size (pools s m)
    \<and> block_size (pools s' m) = block_size (pools s m) \<and> block_total_count (pools s' m) = block_total_count (pools s m) \<and> (\<forall>a. a \<noteq> b \<longrightarrow> mp_words s' a = mp_words s a)
    \<and> pool_blocks (pools s' m) = pool_blocks (pools s m)"
proof -
  have bb: "block_list (pools s m) = b" and bm: "b \<in> pool_blocks (pools s m)" and nb: "b \<notin> set F"
    using pool_okD(1-3) [OF p] by simp_all
  have lt: "b + SIZEOF_PTR < 2 ^ 32" by (rule block_range(4) [OF p bm])
  let ?p = "pools s m"
  define s' where "s' = s\<lparr>pools := (pools s)(m := ?p\<lparr>block_free_count := block_free_count ?p - 1, block_list := mp_words s b\<rparr>),
     mp_words := (mp_words s)(b := m)\<rparr>"
  have e: "mp_take m s = (Allocated (b + SIZEOF_PTR), s')"
    using lt bb by (simp add: mp_take_def upd_pool_def s'_def add32_eq)
  have pb: "pool_blocks (pools s' m) = pool_blocks ?p" by (simp add: s'_def pool_blocks_def)
  have "mp_chain (mp_words s') (mp_words s b) F" using pool_okD(1) [OF p] nb by (simp add: s'_def)
  moreover have "\<forall>x \<in> pool_blocks ?p - set F. mp_words s' x = m" using pool_okD(5) [OF p] by (simp add: s'_def)
  ultimately have "pool_ok m s' F"
    using p pb unfolding pool_ok_def Let_def by (simp add: s'_def)
  moreover have "in_use m s' F = insert (b + SIZEOF_PTR) (in_use m s (b # F))"
    using bm nb unfolding in_use_def pb by auto
  moreover have "b + SIZEOF_PTR \<notin> in_use m s (b # F)" by (auto simp: in_use_def)
  ultimately show ?thesis using e pb by (simp add: s'_def)
qed

text \<open>Giving back a block that is in use.\<close>

lemma pool_free_ok:
  assumes p: "pool_ok m s F" and u: "blk \<in> in_use m s F"
  shows "\<exists>s'. rt_mp_free blk s = s' \<and> pool_ok m s' ((blk - SIZEOF_PTR) # F) \<and> in_use m s' ((blk - SIZEOF_PTR) # F) = in_use m s F - {blk}
    \<and> mp_kern s' = wake_first (LPool m) (mp_kern s) \<and> (\<forall>n. n \<noteq> m \<longrightarrow> pools s' n = pools s n)
    \<and> start_address (pools s' m) = start_address (pools s m) \<and> mp_size (pools s' m) = mp_size (pools s m)
    \<and> block_size (pools s' m) = block_size (pools s m) \<and> block_total_count (pools s' m) = block_total_count (pools s m)
    \<and> pool_blocks (pools s' m) = pool_blocks (pools s m)"
proof -
  let ?p = "pools s m"
  obtain b where b: "b \<in> pool_blocks ?p" "b \<notin> set F" "blk = b + SIZEOF_PTR" using u by (auto simp: in_use_def)
  have lt: "b + SIZEOF_PTR < 2 ^ 32" "0 < b" using block_range(3,4) [OF p b(1)] by simp_all
  have sb: "sub32 blk SIZEOF_PTR = b" using lt by (simp add: b(3) sub32_eq)
  have w: "mp_words s b = m" by (rule pool_okD(5) [OF p b(1,2)])
  define s' where "s' = s\<lparr>pools := (pools s)(m := ?p\<lparr>block_free_count := block_free_count ?p + 1, block_list := b\<rparr>),
     mp_words := (mp_words s)(b := block_list ?p), mp_kern := wake_first (LPool m) (mp_kern s)\<rparr>"
  have nz: "blk \<noteq> 0" using lt(2) by (simp add: b(3))
  have e: "rt_mp_free blk s = s'"
    using nz by (simp add: rt_mp_free_def Let_def sb w upd_pool_def s'_def)
  have pb: "pool_blocks (pools s' m) = pool_blocks ?p" by (simp add: s'_def pool_blocks_def)
  have "mp_chain (mp_words s') b (b # F)" using pool_okD(1) [OF p] b(2) lt by (simp add: s'_def)
  moreover have "\<forall>x \<in> pool_blocks ?p - set (b # F). mp_words s' x = m" using pool_okD(5) [OF p] by (simp add: s'_def)
  ultimately have "pool_ok m s' (b # F)"
    using p pb b(1,2) unfolding pool_ok_def Let_def by (simp add: s'_def)
  moreover have "in_use m s' (b # F) = in_use m s F - {blk}"
    using b unfolding in_use_def pb by auto
  moreover have "blk - SIZEOF_PTR = b" by (simp add: b(3))
  ultimately show ?thesis using e pb by (simp add: s'_def)
qed

text \<open>What the user of a block writes into it does not touch the pool.\<close>

lemma user_write_ok:
  assumes p: "pool_ok m s F" and u: "blk \<in> in_use m s F" and a: "blk \<le> a" "a < blk + block_size (pools s m)"
  shows "pool_ok m (s\<lparr>mp_words := (mp_words s)(a := v)\<rparr>) F"
proof -
  obtain b where b: "b \<in> pool_blocks (pools s m)" "blk = b + SIZEOF_PTR" using u by (auto simp: in_use_def)
  have na: "a \<notin> pool_blocks (pools s m)"
  proof
    assume "a \<in> pool_blocks (pools s m)"
    then show False using blocks_disjoint [OF _ b(1)] a b(2) by (force simp: rt_const)
  qed
  then have "a \<notin> set F" using pool_okD(3) [OF p] by blast
  then show ?thesis using p na unfolding pool_ok_def Let_def by auto
qed

section \<open>The pool as its users see it\<close>

primrec mp_walk :: "(nat \<Rightarrow> nat) \<Rightarrow> nat \<Rightarrow> nat \<Rightarrow> nat list" where
  "mp_walk w p 0 = []"
| "mp_walk w p (Suc n) = p # mp_walk w (w p) n"

lemma mp_walk_chain: "mp_chain w p F \<Longrightarrow> mp_walk w p (length F) = F"
  by (induction F arbitrary: p) auto

definition free_list :: "nat \<Rightarrow> mp_state \<Rightarrow> nat list" where
  "free_list m s = mp_walk (mp_words s) (block_list (pools s m)) (block_free_count (pools s m))"

definition handed_out :: "nat \<Rightarrow> mp_state \<Rightarrow> nat set" where
  "handed_out m s = in_use m s (free_list m s)"

definition pool_valid :: "nat \<Rightarrow> mp_state \<Rightarrow> bool" where
  "pool_valid m s \<longleftrightarrow> pool_ok m s (free_list m s) \<and> kernel_ok (mp_kern s)"

lemma free_list_eq: "pool_ok m s F \<Longrightarrow> free_list m s = F"
  using mp_walk_chain [OF pool_okD(1)] by (simp add: free_list_def pool_okD(4))

lemma pool_validI: "pool_ok m s F \<Longrightarrow> kernel_ok (mp_kern s) \<Longrightarrow> pool_valid m s \<and> handed_out m s = in_use m s F"
  by (simp add: pool_valid_def handed_out_def free_list_eq)

lemma card_in_use:
  assumes "pool_ok m s F"
  shows "card (in_use m s F) + block_free_count (pools s m) = block_total_count (pools s m)" "finite (in_use m s F)"
proof -
  let ?p = "pools s m"
  have i: "inj_on (\<lambda>i. start_address ?p + i * (block_size ?p + SIZEOF_PTR)) {..<block_total_count ?p}"
    by (simp add: inj_on_def rt_const)
  have f: "finite (pool_blocks ?p)" "card (pool_blocks ?p) = block_total_count ?p"
    by (simp_all add: pool_blocks_def card_image [OF i])
  have "card (in_use m s F) = card (pool_blocks ?p - set F)" unfolding in_use_def by (rule card_image) (simp add: inj_on_def)
  also have "\<dots> = block_total_count ?p - length F"
    using pool_okD(2,3) [OF assms] f by (simp add: card_Diff_subset distinct_card)
  finally show "card (in_use m s F) + block_free_count ?p = block_total_count ?p"
    using pool_okD(2-4) [OF assms] card_mono [OF f(1) pool_okD(3) [OF assms]] f(2) by (simp add: distinct_card)
  show "finite (in_use m s F)" using f(1) by (simp add: in_use_def)
qed

text \<open>What a user sees of a pool: its bounds, and the capacity.\<close>

definition frame :: "nat \<Rightarrow> mp_state \<Rightarrow> nat \<times> nat \<times> nat \<times> nat" where
  "frame m s = (start_address (pools s m), mp_size (pools s m), block_size (pools s m), block_total_count (pools s m))"

text \<open>A call that does not wait, as the user of the pool sees it.\<close>

definition mp_get :: "nat \<Rightarrow> mp_state \<Rightarrow> nat option \<times> mp_state" where
  "mp_get m s = (case rt_mp_alloc m 0 s of (Allocated b, s') \<Rightarrow> (Some b, s') | (_, s') \<Rightarrow> (None, s'))"

definition mp_store :: "nat \<Rightarrow> nat \<Rightarrow> mp_state \<Rightarrow> mp_state" where
  "mp_store a v s = s\<lparr>mp_words := (mp_words s)(a := v)\<rparr>"

text \<open>
  The interface of a pool of blocks: \<open>used\<close> are the blocks handed out, \<open>size\<close> is what the user of a block may
  write.
\<close>

datatype pool_call = Get | Give nat | Store nat nat

primrec pool_play :: "('s \<Rightarrow> nat option \<times> 's) \<Rightarrow> (nat \<Rightarrow> 's \<Rightarrow> 's) \<Rightarrow> (nat \<Rightarrow> nat \<Rightarrow> 's \<Rightarrow> 's) \<Rightarrow> nat
    \<Rightarrow> pool_call list \<Rightarrow> nat set \<Rightarrow> 's \<Rightarrow> (nat option list \<times> nat set \<times> 's) option" where
  "pool_play get give store z [] U s = Some ([], U, s)"
| "pool_play get give store z (x # xs) U s = (case x of
     Get \<Rightarrow> (let (r, s1) = get s
             in map_option (apfst (Cons r)) (pool_play get give store z xs (case r of None \<Rightarrow> U | Some b \<Rightarrow> insert b U) s1))
   | Give b \<Rightarrow> if b \<in> U then pool_play get give store z xs (U - {b}) (give b s) else None
   | Store a v \<Rightarrow> if \<exists>b\<in>U. b \<le> a \<and> a < b + z then pool_play get give store z xs U (store a v s) else None)"

locale block_pool =
  fixes ok :: "'s \<Rightarrow> bool" and used :: "'s \<Rightarrow> nat set" and limit :: "'s \<Rightarrow> 'f" and cap :: "'f \<Rightarrow> nat" and bsize :: "'f \<Rightarrow> nat"
    and get :: "'s \<Rightarrow> nat option \<times> 's" and give :: "nat \<Rightarrow> 's \<Rightarrow> 's" and store :: "nat \<Rightarrow> nat \<Rightarrow> 's \<Rightarrow> 's"
  assumes bounded: "ok s \<Longrightarrow> finite (used s) \<and> card (used s) \<le> cap (limit s)"
    and get_law: "ok s \<Longrightarrow> get s = (r, s') \<Longrightarrow> ok s' \<and> limit s' = limit s
      \<and> (case r of None \<Rightarrow> card (used s) = cap (limit s) \<and> used s' = used s
         | Some b \<Rightarrow> b \<notin> used s \<and> used s' = insert b (used s))"
    and give_law: "ok s \<Longrightarrow> b \<in> used s \<Longrightarrow> ok (give b s) \<and> limit (give b s) = limit s \<and> used (give b s) = used s - {b}"
    and store_law: "ok s \<Longrightarrow> b \<in> used s \<Longrightarrow> b \<le> a \<Longrightarrow> a < b + bsize (limit s)
      \<Longrightarrow> ok (store a v s) \<and> limit (store a v s) = limit s \<and> used (store a v s) = used s"
begin

text \<open>The users' own account of the blocks they hold is right, whatever they do within the rules.\<close>

lemma play_used:
  "ok s \<Longrightarrow> pool_play get give store (bsize (limit s)) xs (used s) s = Some (rs, U, s')
   \<Longrightarrow> ok s' \<and> limit s' = limit s \<and> used s' = U"
proof (induction xs arbitrary: s rs)
  case (Cons x xs)
  show ?case
  proof (cases x)
    case Get
    obtain r s1 where g: "get s = (r, s1)" by force
    note l = get_law [OF Cons.prems(1) g]
    have "(case r of None \<Rightarrow> used s | Some b \<Rightarrow> insert b (used s)) = used s1" using l by (auto split: option.splits)
    then show ?thesis using Cons.IH [of s1] Cons.prems(2) l g Get by (auto simp: Let_def)
  next
    case (Give b)
    then show ?thesis using Cons.IH [of "give b s"] Cons.prems give_law [OF Cons.prems(1), of b] by (auto split: if_splits)
  next
    case (Store a v)
    obtain b where b: "b \<in> used s" "b \<le> a" "a < b + bsize (limit s)" using Cons.prems(2) Store by (auto split: if_splits)
    then show ?thesis
      using Cons.IH [of "store a v s"] Cons.prems store_law [OF Cons.prems(1) b, of v] Store by (auto split: if_splits)
  qed
qed simp

text \<open>So a block is never handed out to two users at once, and one is refused only when all are in use.\<close>

lemma play_get:
  assumes "ok s" "pool_play get give store (bsize (limit s)) xs (used s) s = Some (rs, U, s')"
  shows "case fst (get s') of None \<Rightarrow> card U = cap (limit s) | Some b \<Rightarrow> b \<notin> U \<and> card U < cap (limit s)"
proof -
  have p: "ok s' \<and> limit s' = limit s \<and> used s' = U" by (rule play_used [OF assms])
  obtain r s2 where g: "get s' = (r, s2)" by force
  have l: "ok s2 \<and> limit s2 = limit s'
      \<and> (case r of None \<Rightarrow> card (used s') = cap (limit s') \<and> used s2 = used s' | Some b \<Rightarrow> b \<notin> used s' \<and> used s2 = insert b (used s'))"
    using p by (intro get_law g) simp
  show ?thesis using l p bounded [of s2] bounded [of s'] g by (auto split: option.splits)
qed

end

section \<open>The interpretation, and what a pool promises\<close>

lemma set_errno_ok: "kernel_ok k \<Longrightarrow> kernel_ok (rt_set_errno e k)"
  by (auto simp: rt_set_errno_def split: option.splits)

lemma alloc_valid:
  assumes v: "pool_valid m s" and g: "mp_get m s = (r, s')"
  shows "pool_valid m s' \<and> frame m s' = frame m s
      \<and> (case r of None \<Rightarrow> card (handed_out m s) = block_total_count (pools s m) \<and> handed_out m s' = handed_out m s
         | Some b \<Rightarrow> b \<notin> handed_out m s \<and> handed_out m s' = insert b (handed_out m s))"
proof -
  let ?F = "free_list m s"
  have p: "pool_ok m s ?F" and k: "kernel_ok (mp_kern s)" using v by (simp_all add: pool_valid_def)
  show ?thesis
  proof (cases ?F)
    case Nil
    then have c: "block_free_count (pools s m) = 0" using pool_okD(4) [OF p] by simp
    have e: "r = None" "s' = s\<lparr>mp_kern := rt_set_errno (- RT_ETIMEOUT) (mp_kern s)\<rparr>"
      using g c by (auto simp: mp_get_def rt_mp_alloc_def)
    have "pool_ok m s' ?F" using p unfolding e(2) by (simp add: pool_ok_def)
    then have "pool_valid m s' \<and> handed_out m s' = in_use m s' ?F"
      by (rule pool_validI) (simp add: e(2) set_errno_ok k)
    moreover have "in_use m s' ?F = handed_out m s" by (simp add: e(2) in_use_def handed_out_def)
    ultimately show ?thesis using card_in_use(1) [OF p] c by (simp add: e frame_def handed_out_def)
  next
    case (Cons b F)
    then have c: "block_free_count (pools s m) \<noteq> 0" using pool_okD(4) [OF p] by simp
    obtain s1 where s1: "mp_take m s = (Allocated (b + SIZEOF_PTR), s1)" "pool_ok m s1 F"
        "in_use m s1 F = insert (b + SIZEOF_PTR) (in_use m s (b # F))" "b + SIZEOF_PTR \<notin> in_use m s (b # F)" "mp_kern s1 = mp_kern s"
        "start_address (pools s1 m) = start_address (pools s m)" "mp_size (pools s1 m) = mp_size (pools s m)"
        "block_size (pools s1 m) = block_size (pools s m)" "block_total_count (pools s1 m) = block_total_count (pools s m)"
      using pool_take_ok [OF p [unfolded Cons]] by blast
    have e: "r = Some (b + SIZEOF_PTR)" "s' = s1" using g c s1(1) by (auto simp: mp_get_def rt_mp_alloc_def)
    have "pool_valid m s1 \<and> handed_out m s1 = in_use m s1 F"
      using s1(2,5) k by (intro pool_validI) auto
    then show ?thesis using s1(3,4,6-9) Cons by (simp add: e frame_def handed_out_def)
  qed
qed

lemma free_valid:
  assumes v: "pool_valid m s" and b: "b \<in> handed_out m s"
  shows "pool_valid m (rt_mp_free b s) \<and> frame m (rt_mp_free b s) = frame m s \<and> handed_out m (rt_mp_free b s) = handed_out m s - {b}"
proof -
  let ?F = "free_list m s"
  have p: "pool_ok m s ?F" and k: "kernel_ok (mp_kern s)" using v by (simp_all add: pool_valid_def)
  let ?s = "rt_mp_free b s"
  have f: "pool_ok m ?s ((b - SIZEOF_PTR) # ?F)" "in_use m ?s ((b - SIZEOF_PTR) # ?F) = in_use m s ?F - {b}"
    "mp_kern ?s = wake_first (LPool m) (mp_kern s)" "start_address (pools ?s m) = start_address (pools s m)"
    "mp_size (pools ?s m) = mp_size (pools s m)" "block_size (pools ?s m) = block_size (pools s m)"
    "block_total_count (pools ?s m) = block_total_count (pools s m)"
    using pool_free_ok [OF p b [unfolded handed_out_def]] by blast+
  have "pool_valid m ?s \<and> handed_out m ?s = in_use m ?s ((b - SIZEOF_PTR) # ?F)"
    using f(1) by (rule pool_validI) (simp add: f(3) wake_first_ok(1) [OF k wait_list_simps(4)])
  then show ?thesis using f by (simp add: frame_def handed_out_def)
qed

lemma store_valid:
  assumes v: "pool_valid m s" and b: "b \<in> handed_out m s" and a: "b \<le> a" "a < b + block_size (pools s m)"
  shows "pool_valid m (mp_store a v s) \<and> frame m (mp_store a v s) = frame m s \<and> handed_out m (mp_store a v s) = handed_out m s"
proof -
  have p: "pool_ok m s (free_list m s)" and k: "kernel_ok (mp_kern s)" using v by (simp_all add: pool_valid_def)
  have "pool_ok m (mp_store a v s) (free_list m s)"
    unfolding mp_store_def by (rule user_write_ok [OF p b [unfolded handed_out_def] a])
  then have "pool_valid m (mp_store a v s) \<and> handed_out m (mp_store a v s) = in_use m (mp_store a v s) (free_list m s)"
    by (rule pool_validI) (simp add: mp_store_def k)
  then show ?thesis by (simp add: frame_def mp_store_def handed_out_def in_use_def)
qed

interpretation mempool: block_pool "pool_valid m" "handed_out m" "frame m" "\<lambda>(_, _, _, n). n" "\<lambda>(_, _, b, _). b"
  "mp_get m" rt_mp_free mp_store for m
proof
  fix s :: mp_state and r s' b a v
  show "pool_valid m s \<Longrightarrow> finite (handed_out m s) \<and> card (handed_out m s) \<le> (case frame m s of (_, _, _, n) \<Rightarrow> n)"
    using card_in_use [of m s "free_list m s"] by (simp add: pool_valid_def handed_out_def frame_def)
  show "pool_valid m s' \<and> frame m s' = frame m s
      \<and> (case r of None \<Rightarrow> card (handed_out m s) = (case frame m s of (_, _, _, n) \<Rightarrow> n) \<and> handed_out m s' = handed_out m s
         | Some b \<Rightarrow> b \<notin> handed_out m s \<and> handed_out m s' = insert b (handed_out m s))"
    if "pool_valid m s" "mp_get m s = (r, s')"
    using alloc_valid [OF that] by (auto simp: frame_def split: option.splits)
  show "pool_valid m s \<Longrightarrow> b \<in> handed_out m s \<Longrightarrow> pool_valid m (rt_mp_free b s) \<and> frame m (rt_mp_free b s) = frame m s
      \<and> handed_out m (rt_mp_free b s) = handed_out m s - {b}"
    by (rule free_valid)
  show "pool_valid m s \<Longrightarrow> b \<in> handed_out m s \<Longrightarrow> b \<le> a \<Longrightarrow> a < b + (case frame m s of (_, _, b, _) \<Rightarrow> b)
      \<Longrightarrow> pool_valid m (mp_store a v s) \<and> frame m (mp_store a v s) = frame m s \<and> handed_out m (mp_store a v s) = handed_out m s"
    by (rule store_valid) (simp_all add: frame_def)
qed

text \<open>A thread that has to wait.\<close>

lemma mp_wait_ok:
  assumes "kernel_ok k" "current k = Some t" "tstate k t = RT_THREAD_RUNNING"
  shows "kernel_ok (mp_wait m time k)" "is_suspended (mp_wait m time k) t" "klist (mp_wait m time k) (LPool m) = t # klist k (LPool m)"
  using wait_in_front [OF assms wait_list_simps(4)] by (simp_all add: mp_wait_def)

text \<open>A pool of two blocks of eight bytes at address 1024 on the demonstration kernel.\<close>

definition demo_pool :: mp_state where
  "demo_pool = snd (rt_mp_init 1 1024 24 8 \<lparr>mp_words = (\<lambda>_. 0), pools = (\<lambda>_. \<lparr>start_address = 0, mp_size = 0, block_size = 0,
     block_list = 0, block_total_count = 0, block_free_count = 0\<rparr>), mp_kern = demo_kernel\<rparr>)"

lemma demo_pool_ok: "pool_valid 1 demo_pool" "handed_out 1 demo_pool = {}" "frame 1 demo_pool = (1024, 24, 8, 2)"
  "mp_kern demo_pool = ipc_object_init (LPool 1) demo_kernel"
proof -
  obtain s' F where i: "demo_pool = s'" "pool_ok 1 s' F" "set F = pool_blocks (pools s' 1)"
    "mp_kern s' = ipc_object_init (LPool 1) demo_kernel"
    using pool_init_ok [of 1024 24 8 1 "\<lparr>mp_words = (\<lambda>_. 0), pools = (\<lambda>_. \<lparr>start_address = 0, mp_size = 0, block_size = 0,
     block_list = 0, block_total_count = 0, block_free_count = 0\<rparr>), mp_kern = demo_kernel\<rparr>"]
    by (auto simp: demo_pool_def)
  have "klist demo_kernel (LPool 1) = []" by (rule demo_wait_lists) simp
  then have e: "ipc_object_init (LPool 1) demo_kernel = demo_kernel" by (simp add: ipc_object_init_def fun_upd_idem)
  have "pool_valid 1 s' \<and> handed_out 1 s' = in_use 1 s' F"
    by (rule pool_validI [OF i(2)]) (simp add: i(4) e [unfolded One_nat_def] demo_kernel_kernel_ok)
  then show "pool_valid 1 demo_pool" "handed_out 1 demo_pool = {}" using i(1,3) by (simp_all add: in_use_def)
  show "mp_kern demo_pool = ipc_object_init (LPool 1) demo_kernel" using i(1,4) by simp
  show "frame 1 demo_pool = (1024, 24, 8, 2)"
    by (simp add: frame_def demo_pool_def rt_mp_init_def rt_const unat_RT_ALIGN unat_RT_ALIGN_DOWN add32_def)
qed



text \<open>A thread that has to wait for a block stands in front of those that waited before it. The next block
  given back wakes it, the latest, and its call returns that very block.\<close>

theorem mempool_handover:
  assumes "pool_valid m s" "current (mp_kern s) = Some t" "tstate (mp_kern s) t = RT_THREAD_RUNNING"
    and "card (handed_out m s) = block_total_count (pools s m)" "b \<in> handed_out m s" "time \<noteq> 0"
  shows "let (r, s1) = rt_mp_alloc m time s; s2 = rt_mp_free b s1; (r', s3) = rt_mp_alloc_resume m t time start s2
    in r = Block_waits \<and> is_suspended (mp_kern s1) t \<and> klist (mp_kern s1) (LPool m) = t # klist (mp_kern s) (LPool m)
      \<and> \<not> is_suspended (mp_kern s2) t \<and> klist (mp_kern s2) (LPool m) = klist (mp_kern s) (LPool m)
      \<and> r' = Allocated b \<and> pool_valid m s3 \<and> handed_out m s3 = handed_out m s"
proof -
  let ?F = "free_list m s"
  have p: "pool_ok m s ?F" and k: "kernel_ok (mp_kern s)" using assms(1) by (simp_all add: pool_valid_def)
  have c: "block_free_count (pools s m) = 0" using card_in_use(1) [OF p] assms(4) by (simp add: handed_out_def)
  define s1 where "s1 = s\<lparr>mp_kern := mp_wait m time (mp_kern s)\<rparr>"
  have 1: "rt_mp_alloc m time s = (Block_waits, s1)" using c assms(6) by (simp add: rt_mp_alloc_def s1_def)
  note w = mp_wait_ok [OF k assms(2,3), where m = m and time = time]
  have p1: "pool_ok m s1 ?F" using p by (simp add: s1_def pool_ok_def)
  have u1: "in_use m s1 ?F = handed_out m s" by (simp add: s1_def in_use_def handed_out_def)
  define s2 where "s2 = rt_mp_free b s1"
  have 2: "pool_ok m s2 ((b - SIZEOF_PTR) # ?F)" "in_use m s2 ((b - SIZEOF_PTR) # ?F) = handed_out m s - {b}"
    "mp_kern s2 = wake_first (LPool m) (mp_kern s1)"
    using pool_free_ok [OF p1, of b] assms(5) u1 by (auto simp: s2_def)
  have k1: "kernel_ok (mp_kern s1)" "klist (mp_kern s1) (LPool m) = t # klist (mp_kern s) (LPool m)" using w(1,3) by (simp_all add: s1_def)
  note f = wake_first_ok [OF k1(1) wait_list_simps(4) [of m]]
  have e2: "error (threads (mp_kern s2) t) = RT_EOK" "\<not> is_suspended (mp_kern s2) t" "klist (mp_kern s2) (LPool m) = klist (mp_kern s) (LPool m)"
    using f(2) f(4) [OF k1(2)] k1(2) by (simp_all add: 2(3))
  have c2: "block_free_count (pools s2 m) \<noteq> 0" using pool_okD(4) [OF 2(1)] by simp
  obtain s3 where 3: "mp_take m s2 = (Allocated (b - SIZEOF_PTR + SIZEOF_PTR), s3)" "pool_ok m s3 ?F"
      "in_use m s3 ?F = insert (b - SIZEOF_PTR + SIZEOF_PTR) (in_use m s2 ((b - SIZEOF_PTR) # ?F))" "mp_kern s3 = mp_kern s2"
    using pool_take_ok [OF 2(1)] by blast
  have bb: "b - SIZEOF_PTR + SIZEOF_PTR = b" using assms(5) by (auto simp: handed_out_def in_use_def)
  have "pool_valid m s3 \<and> handed_out m s3 = in_use m s3 ?F"
    by (rule pool_validI [OF 3(2)]) (simp add: 3(4) 2(3) f(1))
  moreover have "in_use m s3 ?F = handed_out m s" using 3(3) 2(2) assms(5) by (auto simp: bb)
  moreover have "rt_mp_alloc_resume m t time start s2 = (Allocated b, s3)"
    using e2(1) c2 3(1) bb by (simp add: rt_mp_alloc_resume_def rt_mp_alloc_def)
  ultimately show ?thesis using 1 w(2) k1(2) e2(2,3) by (simp add: s2_def [symmetric]) (simp add: s1_def)
qed

theorem mempool_handover_witness:
  "\<exists>b1 b2 s. handed_out 1 s = {b1, b2} \<and> fst (rt_mp_alloc_resume 1 0 (-1) 0 (rt_mp_free b2 (snd (rt_mp_alloc 1 (-1) s)))) = Allocated b2"
proof -
  obtain r1 s1 where 1: "mp_get 1 demo_pool = (r1, s1)" by force
  note v1 = alloc_valid [OF demo_pool_ok(1) 1, unfolded demo_pool_ok(2)]
  have t: "block_total_count (pools demo_pool 1) = 2" using demo_pool_ok(3) by (simp add: frame_def)
  obtain b1 where b1: "pool_valid 1 s1" "handed_out 1 s1 = {b1}" "frame 1 s1 = (1024, 24, 8, 2)"
    using v1 t demo_pool_ok(3) by (cases r1) auto
  obtain r2 s2 where 2: "mp_get 1 s1 = (r2, s2)" by force
  note v2 = alloc_valid [OF b1(1) 2, unfolded b1(2)]
  have t1: "block_total_count (pools s1 1) = 2" using b1(3) by (simp add: frame_def)
  obtain b2 where b2: "pool_valid 1 s2" "handed_out 1 s2 = {b2, b1}" "b2 \<noteq> b1" "frame 1 s2 = (1024, 24, 8, 2)"
    using v2 t1 b1(3) by (cases r2) auto
  have "klist demo_kernel (LPool 1) = []" by (rule demo_wait_lists) simp
  then have e: "ipc_object_init (LPool 1) demo_kernel = demo_kernel" by (simp add: ipc_object_init_def fun_upd_idem)
  have k: "mp_kern s1 = demo_kernel" "mp_kern s2 = demo_kernel"
    using 1 2 v1 v2 b1(2) b2(2,3) demo_pool_ok(4) e
    by (auto simp: mp_get_def rt_mp_alloc_def mp_take_def upd_pool_def Let_def split: if_splits option.splits)
  have "card (handed_out 1 s2) = block_total_count (pools s2 1)" using b2(2-4) by (simp add: frame_def)
  then have "fst (rt_mp_alloc_resume 1 0 (-1) 0 (rt_mp_free b2 (snd (rt_mp_alloc 1 (-1) s2)))) = Allocated b2"
    using mempool_handover [OF b2(1), of 0 b2 "-1" 0] demo_kernel_facts(1,3) k(2) b2(2) by (simp add: split_beta Let_def)
  then show ?thesis using b2(2) by (metis insert_commute)
qed

section \<open>Pools from the heap\<close>

definition rt_mp_create :: "(nat \<Rightarrow> nat) \<Rightarrow> nat \<Rightarrow> nat \<Rightarrow> nat \<Rightarrow> objects \<Rightarrow> mp_state \<Rightarrow> (nat option \<times> objects \<times> mp_state) option" where
  "rt_mp_create osize name block_count block_size0 obs s =
     do { (r, o1) \<leftarrow> rt_object_allocate osize RT_Object_Class_MemPool name obs;
          case r of
            None \<Rightarrow> Some (None, o1, s)
          | Some m \<Rightarrow>
              do { let bs = unat (RT_ALIGN (of_nat block_size0) RT_ALIGN_SIZE);
                   let sz = add32 bs SIZEOF_PTR * block_count mod 2 ^ 32;
                   (a, h) \<leftarrow> rt_malloc (omem o1) sz;
                   let o2 = o1\<lparr>omem := h\<rparr>;
                   case a of
                     None \<Rightarrow> Some (None, rt_object_delete m o2, s)
                   | Some start \<Rightarrow>
                       Some (Some m, o2, s\<lparr>pools := (pools s)(m := \<lparr>start_address = start, mp_size = sz, block_size = bs,
                              block_list = start, block_total_count = block_count, block_free_count = block_count\<rparr>),
                            mp_words := mp_link start bs block_count (mp_words s), mp_kern := ipc_object_init (LPool m) (mp_kern s)\<rparr>) } }"

definition rt_mp_delete :: "nat \<Rightarrow> objects \<Rightarrow> mp_state \<Rightarrow> (rt_err_t \<times> objects \<times> mp_state) option" where
  "rt_mp_delete m obs s =
     do { k \<leftarrow> ipc_list_resume_all (LPool m) (mp_kern s);
          let o1 = obs\<lparr>omem := rt_free (omem obs) (Some (start_address (pools s m)))\<rparr>;
          Some (RT_EOK, rt_object_delete m o1, s\<lparr>mp_kern := k\<rparr>) }"

lemma live_range: "heap_live h L \<Longrightarrow> (p, n) \<in> L \<Longrightarrow> 16 \<le> p \<and> p + n < 2 ^ 32"
  using blive_bounds [of p n 0] by (fastforce simp: heap_live_def hinv_def hrep_def hcore_def)

lemma pool_delete_ok:
  assumes "dir_ok ob" "heap_live (omem ob) (insert (start, len2) (insert (m, len1) L))" "(start, len2) \<notin> insert (m, len1) L"
    and "(m, len1) \<notin> L" "m \<in> members ob" "m \<notin> members obs" "olists obs 4 = Some xs"
    and "dir ob = (dir obs)(4 := Some ((m, cs) # the (dir obs 4)))" "kernel_ok (mp_kern s)" "start_address (pools s m) = start"
  shows "\<exists>obs2 s2. rt_mp_delete m ob s = Some (RT_EOK, obs2, s2) \<and> dir obs2 = dir obs \<and> heap_live (omem obs2) L
          \<and> klist (mp_kern s2) (LPool m) = []"
proof -
  have "base_ok (mp_kern s)" using assms(9) by (simp add: kernel_ok_base)
  then obtain k' where k': "ipc_list_resume_all (LPool m) (mp_kern s) = Some k'" "klist k' (LPool m) = []"
    using resume_all_ok [OF _ wait_list_simps(4), of "mp_kern s" m] by blast
  let ?h = "rt_smem_free (omem ob) (Some start)"
  let ?o3 = "ob\<lparr>omem := ?h\<rparr>"
  have "insert (start, len2) (insert (m, len1) L) - {(start, len2)} = insert (m, len1) L" using assms(3) by auto
  then have f: "heap_live (omem ?o3) (insert (m, len1) L)" "bytes ?h = obytes ob"
    using heap_live_free [OF assms(2), of start len2] by simp_all
  have d3: "dir_ok ?o3" "dir ?o3 = dir ob" "m \<in> members ?o3"
    using assms(1,5) f(2) by (simp_all add: dir_ok_heap dir_heap members_def)
  note dd = delete_ok [OF d3(1,3) f(1), of len1]
  have "insert (m, len1) L - {(m, len1)} = L" using assms(4) by auto
  then have "heap_live (omem (rt_object_delete m ?o3)) L" using dd(3) by simp
  moreover have "dir (rt_object_delete m ?o3) = dir obs"
    using dd(2) filter_out [OF assms(6,7), of cs] by (simp add: d3(2) assms(8))
  moreover have "rt_mp_delete m ob s = Some (RT_EOK, rt_object_delete m ?o3, s\<lparr>mp_kern := k'\<rparr>)"
    using assms(10) by (simp add: rt_mp_delete_def k'(1) rt_free_def)
  ultimately show ?thesis using k'(2) by auto
qed

text \<open>Creating a pool returns and is all or nothing. When its size fits in 32 bits, success means a new object
  in the directory and a pool, all its blocks free, inside a block of its own of the heap, and deleting
  the pool gives back object and region; when either allocation fails, heap and directory are as before.\<close>

theorem mempool_create:
  assumes "dir_ok obs" "heap_live (omem obs) L" "olists obs 4 = Some xs" "20 \<le> osize 4" "osize 4 < 2 ^ 32 - 7"
    and "\<forall>a \<in> members obs. placed L (omem obs) a 20"
    and "cstr (obytes obs) name cs" "length cs < RT_NAME_MAX" "placed L (omem obs) name (length cs + 1)"
    and "kernel_ok (mp_kern s)" "0 < n" "0 < bs" "bs < 2 ^ 31" "((bs + 7) div 8 * 8 + 4) * n < 2 ^ 32 - 7"
  shows "\<exists>r obs' s'. rt_mp_create osize name n bs obs s = Some (r, obs', s') \<and> (case r of
      None \<Rightarrow> s' = s \<and> dir obs' = dir obs \<and> heap_live (omem obs') L
    | Some m \<Rightarrow> \<exists>F len1 len2. pool_ok m s' F \<and> set F = pool_blocks (pools s' m)
        \<and> block_total_count (pools s' m) = n \<and> bs \<le> block_size (pools s' m) \<and> mp_size (pools s' m) \<le> len2
        \<and> heap_live (omem obs') (insert (start_address (pools s' m), len2) (insert (m, len1) L))
        \<and> dir_ok obs' \<and> dir obs' = (dir obs)(4 := Some ((m, cs) # the (dir obs 4)))
        \<and> (\<forall>s1. kernel_ok (mp_kern s1) \<longrightarrow> pools s1 m = pools s' m \<longrightarrow>
             (\<exists>obs2 s2. rt_mp_delete m obs' s1 = Some (RT_EOK, obs2, s2) \<and> dir obs2 = dir obs \<and> heap_live (omem obs2) L
                \<and> klist (mp_kern s2) (LPool m) = [])))"
proof -
  define b where "b = (bs + 7) div 8 * 8"
  have b: "unat (RT_ALIGN (of_nat bs) RT_ALIGN_SIZE) = b" "b < 2 ^ 31 + 8" "bs \<le> b"
    using assms(12,13) by (simp_all add: rt_const unat_RT_ALIGN b_def unat_of_nat)
  have a4: "add32 b SIZEOF_PTR = b + 4" using b(2) by (simp add: add32_def rt_const)
  have "(b + 4) * n < 2 ^ 32 - 7" using assms(14) by (simp add: b_def)
  then have sz: "add32 b SIZEOF_PTR * n mod 2 ^ 32 = (b + 4) * n" unfolding a4 by simp
  have sz0: "0 < (b + 4) * n" "(b + 4) * n < 2 ^ 32 - 7" using assms(11,14) by (simp_all add: b_def)
  have i: "rt_object_get_information RT_Object_Class_MemPool = Some 4" by code_simp
  obtain r o1 where 1: "rt_object_allocate osize RT_Object_Class_MemPool name obs = Some (r, o1)" "case r of
      None \<Rightarrow> o1 = obs
    | Some obj \<Rightarrow> (\<exists>len. osize 4 \<le> len \<and> (obj, len) \<notin> L \<and> heap_live (omem o1) (insert (obj, len) L)
          \<and> heap_live (omem (rt_object_delete obj o1)) L)
        \<and> dir_ok o1 \<and> members o1 = insert obj (members obs) \<and> obj \<notin> members obs
        \<and> dir o1 = (dir obs)(4 := Some ((obj, cs) # the (dir obs 4)))
        \<and> dir (rt_object_delete obj o1) = dir obs"
    using object_allocate_delete [OF assms(1,2) i assms(3), where osize = osize, OF assms(4-9)]
    by (elim exE conjE) (auto split: option.splits)
  show ?thesis
  proof (cases r)
    case None
    then show ?thesis using 1 assms(2) by (simp add: rt_mp_create_def)
  next
    case (Some m)
    then obtain len1 where m: "(m, len1) \<notin> L" "heap_live (omem o1) (insert (m, len1) L)"
        "heap_live (omem (rt_object_delete m o1)) L" "dir_ok o1" "members o1 = insert m (members obs)" "m \<notin> members obs"
        "dir o1 = (dir obs)(4 := Some ((m, cs) # the (dir obs 4)))" "dir (rt_object_delete m o1) = dir obs"
      using 1(2) by auto
    obtain a h where 2: "rt_smem_alloc (omem o1) ((b + 4) * n) = Some (a, h)" "bytes h = obytes o1" "case a of None \<Rightarrow> h = omem o1
       | Some p \<Rightarrow> \<exists>len. (b + 4) * n \<le> len \<and> (p, len) \<notin> insert (m, len1) L \<and> heap_live h (insert (p, len) (insert (m, len1) L))"
      using heap_live_alloc [OF m(2) sz0] by auto
    show ?thesis
    proof (cases a)
      case None
      then have "rt_mp_create osize name n bs obs s = Some (None, rt_object_delete m o1, s)"
        using 1(1) 2 Some by (simp add: rt_mp_create_def b(1) sz [simplified] rt_malloc_def)
      then show ?thesis using m(3,8) by auto
    next
      case (Some start)
      then obtain len2 where l: "(b + 4) * n \<le> len2" "(start, len2) \<notin> insert (m, len1) L"
          "heap_live h (insert (start, len2) (insert (m, len1) L))" using 2(3) by auto
      note lr = live_range [OF l(3), of start len2]
      define p where "p = \<lparr>start_address = start, mp_size = (b + 4) * n, block_size = b, block_list = start,
        block_total_count = n, block_free_count = n\<rparr>"
      define s' where "s' = s\<lparr>pools := (pools s)(m := p), mp_words := mp_link start b n (mp_words s),
        mp_kern := ipc_object_init (LPool m) (mp_kern s)\<rparr>"
      let ?o2 = "o1\<lparr>omem := h\<rparr>"
      have e: "rt_mp_create osize name n bs obs s = Some (Some m, ?o2, s')"
        using 1(1) 2(1) Some \<open>r = Some m\<close> by (simp add: rt_mp_create_def b(1) sz [simplified] rt_malloc_def s'_def p_def)
      have pp: "pools s' m = p" "mp_words s' = mp_link start b n (mp_words s)" by (simp_all add: s'_def)
      obtain F where F: "pool_ok m s' F" "set F = pool_blocks (pools s' m)"
        using pool_link_ok [of start b n "(b + 4) * n" s' m "mp_words s"] lr l(1) assms(11,12) b(3) pp
        by (auto simp: p_def mult.commute)
      have d2: "dir_ok ?o2" "dir ?o2 = dir o1" "members ?o2 = members o1"
        using 2(2) m(4) by (simp_all add: dir_ok_heap dir_heap members_def)
      have del: "\<exists>obs2 s2. rt_mp_delete m ?o2 s1 = Some (RT_EOK, obs2, s2) \<and> dir obs2 = dir obs \<and> heap_live (omem obs2) L
          \<and> klist (mp_kern s2) (LPool m) = []"
        if k: "kernel_ok (mp_kern s1)" "pools s1 m = pools s' m" for s1
        using pool_delete_ok [OF d2(1) _ _ m(1) _ m(6) assms(3) _ k(1), where start = start and ?len2.0 = len2 and cs = cs] l(2,3) d2(2,3) m(5,7) k(2) pp(1)
        by (simp add: p_def)
      have z: "block_total_count p = n" "bs \<le> block_size p" "mp_size p \<le> len2" "start_address p = start"
        using b(3) l(1) by (simp_all add: p_def)
      show ?thesis
        using e F z l(3) d2(1,2) m(7) del unfolding pp(1)
        by (intro exI [of _ "Some m"] exI [of _ ?o2] exI [of _ s']) (auto simp: pp(1))
    qed
  qed
qed

theorem mempool_create_witness:
  "\<exists>r obs' s'. rt_mp_create (\<lambda>_. 52) 2100 2 8 demo_objects demo_pool = Some (r, obs', s')
     \<and> (r = None \<longrightarrow> dir obs' = dir demo_objects)"
proof -
  have h: "heap_live (omem demo_objects) {}" using heap_live_bytes [OF demo_live] by (simp add: demo_objects_def)
  have e: "heap_end (omem demo_objects) = 184"
    using demo_inv by (simp add: demo_objects_def hinv_def hrep_def hcore_def)
  have "olists demo_objects 4 = Some []" by (simp add: demo_olists)
  moreover have "\<forall>a \<in> members demo_objects. placed {} (omem demo_objects) a 20" by (simp add: demo_members placed_def e)
  moreover have "placed {} (omem demo_objects) 2100 (length [107, 101, 121, 95, 115, 99, 97 :: u8] + 1)" by (simp add: placed_def e)
  moreover have "length [107, 101, 121, 95, 115, 99, 97 :: u8] < RT_NAME_MAX" by (simp add: rt_const)
  moreover have "kernel_ok (mp_kern demo_pool)" using demo_pool_ok(1) by (simp add: pool_valid_def)
  ultimately show ?thesis
    using mempool_create [OF demo_objects_ok h, of "[]" "\<lambda>_. 52" 2100 "[107, 101, 121, 95, 115, 99, 97]" demo_pool 2 8] demo_names(4)
    by (auto split: option.splits)
qed

text \<open>When the size does not fit in 32 bits the pool is created all the same, with more blocks than its region
  holds: 357913942 blocks of eight bytes in a region of eight bytes.\<close>

lemma mempool_create_wraps:
  assumes "rt_mp_create osize name 357913942 8 obs s = Some (Some m, obs', s')"
  shows "mp_size (pools s' m) = 8 \<and> block_total_count (pools s' m) * (block_size (pools s' m) + SIZEOF_PTR) = 2 ^ 32 + 8"
  using assms
  by (auto simp: rt_mp_create_def unat_RT_ALIGN rt_const add32_def Let_def split: bind_splits option.splits)

text \<open>A region too small for one block: rt_mp_init reports success and clears a word in front of the region.\<close>

lemma mempool_init_too_small:
  fixes start sz0 bs0 :: nat
  assumes "sz0 < 2 ^ 32" "0 < bs0" "bs0 < 2 ^ 31" "sz0 div 8 * 8 < (bs0 + 7) div 8 * 8 + 4" "(bs0 + 7) div 8 * 8 + 4 \<le> start" "start < 2 ^ 32"
  shows "\<exists>s'. rt_mp_init m start sz0 bs0 s = (RT_EOK, s') \<and> block_total_count (pools s' m) = 0
    \<and> mp_words s' = (mp_words s)(start - ((bs0 + 7) div 8 * 8 + 4) := 0)"
proof -
  define b where "b = (bs0 + 7) div 8 * 8"
  have b: "unat (RT_ALIGN (of_nat bs0) RT_ALIGN_SIZE) = b" "b < 2 ^ 31 + 8"
    using assms(2,3) by (simp_all add: rt_const unat_RT_ALIGN b_def unat_of_nat)
  have sz: "unat (RT_ALIGN_DOWN (of_nat sz0) RT_ALIGN_SIZE) = sz0 div 8 * 8"
    using assms(1) by (simp add: rt_const unat_RT_ALIGN_DOWN unat_of_nat)
  have a4: "add32 b SIZEOF_PTR = b + 4" using b(2) by (simp add: add32_def rt_const)
  have c: "(sz0 div 8 * 8) div (b + 4) = 0" using assms(4) unfolding b_def by (rule div_less)
  have "(2 ^ 32 - 1) * (b + 4) = (2 ^ 32 - (b + 4)) + (b + 3) * 2 ^ 32" using b(2) by (simp add: algebra_simps)
  then have m: "(2 ^ 32 - 1) * (b + 4) mod 2 ^ 32 = 2 ^ 32 - (b + 4)" by (simp only: mod_mult_self1) simp
  have w: "start + (2 ^ 32 - (b + 4)) = (start - (b + 4)) + 2 ^ 32" using assms(5) b(2) by (simp add: b_def)
  have "mp_block start b (2 ^ 32 - 1) = start - (b + 4)"
    unfolding mp_block_def a4 m unfolding add32_def w mod_add_self2 using assms(6) by simp
  then have "mp_link start b 0 (mp_words s) = (mp_words s)(start - (b + 4) := 0)"
    by (simp add: mp_link_def sub32_def)
  then show ?thesis by (simp add: rt_mp_init_def Let_def sz b(1) a4 c) (simp add: b_def)
qed

end
