(* ===== verification/DataQueue.thy ===== *)
theory DataQueue
  imports Waiting MessagePort SmallMem
begin

text \<open>
  The data queues of components/drivers/ipc/dataqueue.c: a ring of items, each a pointer with a size, between
  threads that push and threads that pop. The state of a queue stands beside the kernel; \<open>n\<close> names its two
  wait lists. The calls of the notification function of the application are recorded, the latest last. The
  indices are bit fields of 15 bits.
\<close>

section \<open>State and operations\<close>

datatype dq_event = RT_DATAQUEUE_EVENT_POP | RT_DATAQUEUE_EVENT_PUSH | RT_DATAQUEUE_EVENT_LWM

type_synonym item = "nat \<times> nat"   \<comment> \<open>data_ptr, data_size\<close>

record rt_data_queue =
  dq_magic :: u32
  dq_size :: u16
  lwm :: u16
  get_index :: "15 word"
  is_empty :: bool
  put_index :: "15 word"
  is_full :: bool
  dq_items :: "nat \<Rightarrow> item"
  evt_notify :: bool
  notified :: "dq_event list"

definition DATAQUEUE_MAGIC :: u32 where [rt_const]: "DATAQUEUE_MAGIC = 0xbead0e0e"

text \<open>The item array is a block of the heap of eight bytes per item; its contents are \<open>dq_items\<close>.\<close>

definition rt_data_queue_init :: "nat \<Rightarrow> u16 \<Rightarrow> u16 \<Rightarrow> bool \<Rightarrow> (nat \<Rightarrow> item) \<Rightarrow> rt_small_mem \<Rightarrow> kernel
    \<Rightarrow> (rt_err_t \<times> nat option \<times> rt_data_queue \<times> rt_small_mem \<times> kernel) option" where
  "rt_data_queue_init n sz low notify garbage h k =
     (let q = \<lparr>dq_magic = DATAQUEUE_MAGIC, dq_size = sz, lwm = low, get_index = 0, is_empty = True, put_index = 0, is_full = False,
            dq_items = garbage, evt_notify = notify, notified = []\<rparr>;
          k1 = ipc_object_init (LDqPop n) (ipc_object_init (LDqPush n) k)
      in do { (p, h1) \<leftarrow> rt_malloc h (8 * unat sz);
              Some (if p = None then - RT_ENOMEM else RT_EOK, p, q, h1, k1) })"

definition dq_notify :: "dq_event \<Rightarrow> rt_data_queue \<Rightarrow> rt_data_queue" where
  "dq_notify e q = (if evt_notify q then q\<lparr>notified := notified q @ [e]\<rparr> else q)"

text \<open>\<open>index += 1; if (index == size) index = 0\<close>\<close>

definition dq_next :: "15 word \<Rightarrow> u16 \<Rightarrow> 15 word" where
  "dq_next i sz = (if (ucast (i + 1) :: u16) = sz then 0 else i + 1)"

definition rt_data_queue_len :: "rt_data_queue \<Rightarrow> u16" where
  "rt_data_queue_len q =
     (if is_empty q then 0
      else if put_index q > get_index q then ucast (put_index q) - ucast (get_index q)
      else dq_size q + ucast (put_index q) - ucast (get_index q))"

text \<open>The end of a push, once there is room.\<close>

definition dq_put :: "nat \<Rightarrow> item \<Rightarrow> rt_data_queue \<Rightarrow> kernel \<Rightarrow> rt_data_queue \<times> kernel" where
  "dq_put n x q k =
     (let q1 = q\<lparr>dq_items := (dq_items q)(unat (put_index q) := x), put_index := dq_next (put_index q) (dq_size q), is_empty := False\<rparr>;
          q2 = (if put_index q1 = get_index q1 then q1\<lparr>is_full := True\<rparr> else q1)
      in if klist k (LDqPop n) \<noteq> [] then (q2, resume_first (LDqPop n) k)
         else (dq_notify RT_DATAQUEUE_EVENT_PUSH q2, k))"

definition rt_data_queue_push :: "nat \<Rightarrow> item \<Rightarrow> int \<Rightarrow> rt_data_queue \<Rightarrow> kernel \<Rightarrow> blocking \<times> rt_data_queue \<times> kernel" where
  "rt_data_queue_push n x timeout q k =
     (if is_full q then
        if timeout = 0 then (Done (- RT_ETIMEOUT), q, k)
        else (Waits, q, plain_wait tlist_insert_before (LDqPush n) timeout k)
      else let (q1, k1) = dq_put n x q k in (Done RT_EOK, q1, k1))"

text \<open>The rest of the loop when the waiting thread \<open>t\<close> runs again: the whole time once more.\<close>

definition rt_data_queue_push_resume ::
  "nat \<Rightarrow> item \<Rightarrow> int \<Rightarrow> nat \<Rightarrow> rt_data_queue \<Rightarrow> kernel \<Rightarrow> blocking \<times> rt_data_queue \<times> kernel" where
  "rt_data_queue_push_resume n x timeout t q k =
     (if error (threads k t) \<noteq> RT_EOK then (Done (error (threads k t)), q, k)
      else rt_data_queue_push n x timeout q k)"

definition dq_get :: "nat \<Rightarrow> rt_data_queue \<Rightarrow> kernel \<Rightarrow> item \<times> rt_data_queue \<times> kernel" where
  "dq_get n q k =
     (let x = dq_items q (unat (get_index q));
          q1 = q\<lparr>get_index := dq_next (get_index q) (dq_size q), is_full := False\<rparr>;
          q2 = (if put_index q1 = get_index q1 then q1\<lparr>is_empty := True\<rparr> else q1)
      in if rt_data_queue_len q2 \<le> lwm q2 then (x, dq_notify RT_DATAQUEUE_EVENT_LWM q2, resume_first (LDqPush n) k)
         else (x, dq_notify RT_DATAQUEUE_EVENT_POP q2, k))"

definition rt_data_queue_pop :: "nat \<Rightarrow> int \<Rightarrow> rt_data_queue \<Rightarrow> kernel \<Rightarrow> blocking \<times> item option \<times> rt_data_queue \<times> kernel" where
  "rt_data_queue_pop n timeout q k =
     (if is_empty q then
        if timeout = 0 then (Done (- RT_ETIMEOUT), None, q, k)
        else (Waits, None, q, plain_wait tlist_insert_before (LDqPop n) timeout k)
      else let (x, q1, k1) = dq_get n q k in (Done RT_EOK, Some x, q1, k1))"

definition rt_data_queue_pop_resume ::
  "nat \<Rightarrow> int \<Rightarrow> nat \<Rightarrow> rt_data_queue \<Rightarrow> kernel \<Rightarrow> blocking \<times> item option \<times> rt_data_queue \<times> kernel" where
  "rt_data_queue_pop_resume n timeout t q k =
     (if error (threads k t) \<noteq> RT_EOK then (Done (error (threads k t)), None, q, k)
      else rt_data_queue_pop n timeout q k)"

definition rt_data_queue_peek :: "rt_data_queue \<Rightarrow> rt_err_t \<times> item option" where
  "rt_data_queue_peek q = (if is_empty q then (- RT_EEMPTY, None) else (RT_EOK, Some (dq_items q (unat (get_index q)))))"

definition rt_data_queue_reset :: "nat \<Rightarrow> rt_data_queue \<Rightarrow> kernel \<Rightarrow> (rt_data_queue \<times> kernel) option" where
  "rt_data_queue_reset n q k =
     do { let q1 = q\<lparr>get_index := 0, put_index := 0, is_empty := True, is_full := False\<rparr>;
          let k0 = rt_enter_critical k;
          k1 \<leftarrow> ipc_list_resume_all (LDqPop n) k0;
          k2 \<leftarrow> ipc_list_resume_all (LDqPush n) k1;
          Some (q1, rt_schedule (rt_exit_critical k2)) }"

definition rt_data_queue_deinit :: "nat \<Rightarrow> nat option \<Rightarrow> rt_data_queue \<Rightarrow> rt_small_mem \<Rightarrow> kernel
    \<Rightarrow> (rt_err_t \<times> rt_data_queue \<times> rt_small_mem \<times> kernel) option" where
  "rt_data_queue_deinit n p q h k =
     do { (q1, k1) \<leftarrow> rt_data_queue_reset n q k;
          Some (RT_EOK, q1\<lparr>dq_magic := 0\<rparr>, rt_free h p, k1) }"

section \<open>The ring holds a list of items\<close>

definition dq_count :: "rt_data_queue \<Rightarrow> nat" where
  "dq_count q =
     (if is_empty q then 0
      else if unat (get_index q) < unat (put_index q) then unat (put_index q) - unat (get_index q)
      else unat (dq_size q) + unat (put_index q) - unat (get_index q))"

definition dq_ok :: "rt_data_queue \<Rightarrow> bool" where
  "dq_ok q \<longleftrightarrow> unat (dq_size q) \<le> 2 ^ 15 \<and> unat (get_index q) < unat (dq_size q) \<and> unat (put_index q) < unat (dq_size q)
     \<and> (is_empty q \<longrightarrow> put_index q = get_index q \<and> \<not> is_full q) \<and> (is_full q \<longleftrightarrow> \<not> is_empty q \<and> put_index q = get_index q)"

definition items_of :: "rt_data_queue \<Rightarrow> item list" where
  "items_of q = map (\<lambda>i. dq_items q ((unat (get_index q) + i) mod unat (dq_size q))) [0..<dq_count q]"

lemma unat_dq_next:
  assumes "unat (sz :: u16) \<le> 2 ^ 15" "unat i < unat sz"
  shows "unat (dq_next i sz) = (unat i + 1) mod unat sz"
proof -
  have u: "unat (i + 1) = (if unat i + 1 = 2 ^ 15 then 0 else unat i + 1)"
    using unsigned_less [of i, where ?'a = nat] by (auto simp: unat_word_ariths)
  have c: "(ucast (i + 1) :: u16) = sz \<longleftrightarrow> unat (i + 1) = unat sz"
    using unsigned_less [of "i + 1", where ?'a = nat] by (simp add: word_unat_eq_iff unsigned_ucast_eq take_bit_nat_eq_self)
  show ?thesis using assms unfolding dq_next_def c u by (cases "unat sz = 2 ^ 15") (auto simp: u)
qed

lemma dq_put_index: "dq_ok q \<Longrightarrow> unat (put_index q) = (unat (get_index q) + dq_count q) mod unat (dq_size q)"
  by (auto simp: dq_ok_def dq_count_def mod_if)

lemma dq_count_le: "dq_ok q \<Longrightarrow> dq_count q \<le> unat (dq_size q)"
  by (auto simp: dq_ok_def dq_count_def)

lemma dq_full: "dq_ok q \<Longrightarrow> is_full q \<longleftrightarrow> dq_count q = unat (dq_size q)"
  by (auto simp: dq_ok_def dq_count_def word_unat_eq_iff)

lemma dq_empty: "dq_ok q \<Longrightarrow> is_empty q \<longleftrightarrow> dq_count q = 0"
  by (auto simp: dq_ok_def dq_count_def)

lemma dq_len: "dq_ok q \<Longrightarrow> unat (rt_data_queue_len q) = dq_count q"
  by (auto simp: dq_ok_def dq_count_def rt_data_queue_len_def word_less_nat_alt unat_sub_if_size unsigned_ucast_eq take_bit_nat_eq_self
      unat_word_ariths word_le_nat_alt)

lemma dq_notify_same [simp]:
  "dq_ok (dq_notify e q) = dq_ok q" "items_of (dq_notify e q) = items_of q" "dq_size (dq_notify e q) = dq_size q"
  "lwm (dq_notify e q) = lwm q"
  by (simp_all add: dq_notify_def dq_ok_def items_of_def dq_count_def)

lemma dq_countI:
  assumes "unat (get_index q) < unat (dq_size q)" "c \<le> unat (dq_size q)"
    and "unat (put_index q) = (unat (get_index q) + c) mod unat (dq_size q)" "is_empty q \<longleftrightarrow> c = 0"
  shows "dq_count q = c"
proof (cases "unat (get_index q) + c < unat (dq_size q)")
  case True
  then show ?thesis using assms by (auto simp: dq_count_def)
next
  case False
  then have "unat (put_index q) = unat (get_index q) + c - unat (dq_size q)" using assms(1-3) by (simp add: le_mod_geq)
  then show ?thesis using assms False by (auto simp: dq_count_def)
qed

lemma dq_next_neq: "dq_ok q \<Longrightarrow> dq_next i (dq_size q) = j \<longleftrightarrow> unat (dq_next i (dq_size q)) = unat j"
  by (simp add: word_unat_eq_iff)

text \<open>Storing an item and taking one.\<close>

lemma dq_put_ok:
  assumes q: "dq_ok q" and nf: "\<not> is_full q" and d: "dq_put n x q k = (q', k')"
  shows "dq_ok q'" "items_of q' = items_of q @ [x]" "dq_size q' = dq_size q" "lwm q' = lwm q"
    "k' = (if klist k (LDqPop n) \<noteq> [] then resume_first (LDqPop n) k else k)"
proof -
  let ?z = "unat (dq_size q)" and ?g = "unat (get_index q)" and ?c = "dq_count q"
  have z: "?z \<le> 2 ^ 15" "?g < ?z" "unat (put_index q) < ?z" using q by (simp_all add: dq_ok_def)
  have c: "?c < ?z" using dq_count_le [OF q] dq_full [OF q] nf by simp
  have p: "unat (put_index q) = (?g + ?c) mod ?z" by (rule dq_put_index [OF q])
  have np: "unat (dq_next (put_index q) (dq_size q)) = (?g + (?c + 1)) mod ?z"
    unfolding unat_dq_next [OF z(1,3)] p by (simp add: mod_Suc_eq)
  have eq: "dq_next (put_index q) (dq_size q) = get_index q \<longleftrightarrow> ?c + 1 = ?z"
    unfolding word_unat_eq_iff np using z(2) c by (auto simp: mod_if)
  define q0 where "q0 = q\<lparr>dq_items := (dq_items q)(unat (put_index q) := x), put_index := dq_next (put_index q) (dq_size q),
     is_empty := False\<rparr>"
  define q1 where "q1 = (if ?c + 1 = ?z then q0\<lparr>is_full := True\<rparr> else q0)"
  have q': "q' = q1 \<or> q' = dq_notify RT_DATAQUEUE_EVENT_PUSH q1"
    and k': "k' = (if klist k (LDqPop n) \<noteq> [] then resume_first (LDqPop n) k else k)"
  proof -
    have "dq_put n x q k = (if klist k (LDqPop n) \<noteq> [] then (q1, resume_first (LDqPop n) k) else (dq_notify RT_DATAQUEUE_EVENT_PUSH q1, k))"
      by (simp add: dq_put_def Let_def q1_def q0_def eq)
    then show "q' = q1 \<or> q' = dq_notify RT_DATAQUEUE_EVENT_PUSH q1"
      "k' = (if klist k (LDqPop n) \<noteq> [] then resume_first (LDqPop n) k else k)" using d by (simp_all split: if_splits)
  qed
  have ok1: "dq_ok q1" using q z eq np nf by (auto simp: dq_ok_def q1_def q0_def)
  have c1: "dq_count q1 = ?c + 1"
    by (rule dq_countI) (use z(2) c np in \<open>auto simp: q1_def q0_def\<close>)
  have "items_of q1 = items_of q @ [x]"
  proof -
    have "(?g + i) mod ?z \<noteq> (?g + ?c) mod ?z" if "i < ?c" for i using that c z(2) by (auto simp: mod_if)
    then show ?thesis unfolding items_of_def c1 by (simp add: q1_def q0_def p)
  qed
  moreover have sel: "dq_size q1 = dq_size q" "lwm q1 = lwm q" by (simp_all add: q1_def q0_def)
  ultimately show "dq_ok q'" "items_of q' = items_of q @ [x]" "dq_size q' = dq_size q" "lwm q' = lwm q"
    using q' ok1 sel by auto
  show "k' = (if klist k (LDqPop n) \<noteq> [] then resume_first (LDqPop n) k else k)" by (rule k')
qed

lemma dq_get_ok:
  assumes q: "dq_ok q" and ne: "items_of q = x # xs" and d: "dq_get n q k = (y, q', k')"
  shows "y = x" "dq_ok q'" "items_of q' = xs" "dq_size q' = dq_size q" "lwm q' = lwm q"
    "k' = (if length xs \<le> unat (lwm q) then resume_first (LDqPush n) k else k)"
proof -
  let ?z = "unat (dq_size q)" and ?g = "unat (get_index q)" and ?c = "dq_count q"
  have z: "?z \<le> 2 ^ 15" "?g < ?z" "unat (put_index q) < ?z" using q by (simp_all add: dq_ok_def)
  have len: "?c = Suc (length xs)" using arg_cong [OF ne, of length] by (simp add: items_of_def)
  have c: "?c \<le> ?z" by (rule dq_count_le [OF q])
  have p: "unat (put_index q) = (?g + ?c) mod ?z" by (rule dq_put_index [OF q])
  have c0: "0 < ?c" using len by simp
  have nem: "\<not> is_empty q" using dq_empty [OF q] len by simp
  have ng: "unat (dq_next (get_index q) (dq_size q)) = (?g + 1) mod ?z" by (rule unat_dq_next [OF z(1,2)])
  have eq: "put_index q = dq_next (get_index q) (dq_size q) \<longleftrightarrow> ?c = 1"
  proof -
    have "unat (put_index q) = (if ?g + ?c < ?z then ?g + ?c else ?g + ?c - ?z)" unfolding p using z(2) c by (simp add: le_mod_geq)
    moreover have "unat (dq_next (get_index q) (dq_size q)) = (if ?g + 1 < ?z then ?g + 1 else 0)"
      unfolding ng using z(2) by (auto simp: not_less le_Suc_eq)
    ultimately show ?thesis unfolding word_unat_eq_iff using z(2) c c0 by (auto split: if_splits)
  qed
  have it: "items_of q = dq_items q ?g # map (\<lambda>i. dq_items q ((?g + Suc i) mod ?z)) [0..<length xs]"
    unfolding items_of_def len map_upt_Suc using z(2) by simp
  define q0 where "q0 = q\<lparr>get_index := dq_next (get_index q) (dq_size q), is_full := False\<rparr>"
  define q1 where "q1 = (if ?c = 1 then q0\<lparr>is_empty := True\<rparr> else q0)"
  have ok1: "dq_ok q1" using q z eq ng nem by (auto simp: dq_ok_def q1_def q0_def)
  have c1: "dq_count q1 = length xs"
  proof (rule dq_countI)
    have "unat (put_index q) = (?g + (1 + length xs)) mod ?z" unfolding p by (simp add: len)
    then show "unat (put_index q1) = (unat (get_index q1) + length xs) mod unat (dq_size q1)"
      by (simp add: q1_def q0_def ng mod_simps)
  qed (use z(2) c ng len nem in \<open>auto simp: q1_def q0_def\<close>)
  have ge: "dq_get n q k = (if rt_data_queue_len q1 \<le> lwm q1 then (dq_items q ?g, dq_notify RT_DATAQUEUE_EVENT_LWM q1, resume_first (LDqPush n) k)
      else (dq_items q ?g, dq_notify RT_DATAQUEUE_EVENT_POP q1, k))"
    using eq nem by (simp add: dq_get_def Let_def q1_def q0_def cong: if_cong)
  have l1: "rt_data_queue_len q1 \<le> lwm q1 \<longleftrightarrow> length xs \<le> unat (lwm q)"
    using dq_len [OF ok1] c1 by (simp add: word_le_nat_alt q1_def q0_def)
  have i1: "items_of q1 = xs"
  proof -
    have sel: "dq_size q1 = dq_size q" "dq_items q1 = dq_items q" by (simp_all add: q1_def q0_def)
    have gi: "(unat (get_index q1) + i) mod ?z = (?g + Suc i) mod ?z" for i
      by (simp add: q1_def q0_def ng mod_simps)
    have "items_of q1 = map (\<lambda>i. dq_items q ((?g + Suc i) mod ?z)) [0..<length xs]"
      unfolding items_of_def c1 sel gi ..
    also have "\<dots> = xs" using it ne by (metis list.inject)
    finally show ?thesis .
  qed
  have "q' = dq_notify RT_DATAQUEUE_EVENT_LWM q1 \<or> q' = dq_notify RT_DATAQUEUE_EVENT_POP q1"
    using d ge by (auto split: if_splits)
  moreover have sel: "dq_size q1 = dq_size q" "lwm q1 = lwm q" by (simp_all add: q1_def q0_def)
  ultimately show "dq_ok q'" "items_of q' = xs" "dq_size q' = dq_size q" "lwm q' = lwm q"
    using ok1 i1 sel by auto
  have "dq_items q ?g = x" using it ne by (metis list.inject)
  then show "y = x" using d ge by (simp split: if_splits)
  show "k' = (if length xs \<le> unat (lwm q) then resume_first (LDqPush n) k else k)" using d ge l1 by (auto split: if_splits)
qed

section \<open>The contract\<close>

definition dq_push_op :: "nat \<Rightarrow> item \<Rightarrow> rt_data_queue \<times> kernel \<Rightarrow> bool \<times> (rt_data_queue \<times> kernel)" where
  "dq_push_op n x s = (case rt_data_queue_push n x 0 (fst s) (snd s) of (r, s') \<Rightarrow> (r = Done RT_EOK, s'))"

definition dq_pop_op :: "nat \<Rightarrow> rt_data_queue \<times> kernel \<Rightarrow> item option \<times> (rt_data_queue \<times> kernel)" where
  "dq_pop_op n s = (case rt_data_queue_pop n 0 (fst s) (snd s) of (r, x, s') \<Rightarrow> (x, s'))"

definition dq_valid :: "rt_data_queue \<times> kernel \<Rightarrow> bool" where
  "dq_valid s \<longleftrightarrow> dq_ok (fst s) \<and> kernel_ok (snd s)"

lemma length_items [simp]: "length (items_of q) = dq_count q"
  by (simp add: items_of_def)

lemma count_Cons: "items_of q = x # xs \<Longrightarrow> dq_count q = Suc (length xs)"
  by (metis length_items length_Cons)

interpretation dataqueue: fifo_port dq_valid "\<lambda>s. items_of (fst s)" "\<lambda>s. unat (dq_size (fst s))" "\<lambda>_ _. True"
  "dq_push_op n" "dq_pop_op n" for n
proof (unfold_locales, goal_cases)
  case (1 s)
  then show ?case by (simp add: dq_valid_def dq_count_le)
next
  case (2 s x a s')
  obtain q k where s: "s = (q, k)" by force
  have q: "dq_ok q" and k: "kernel_ok k" using 2(1) by (simp_all add: dq_valid_def s)
  show ?case
  proof (cases "is_full q")
    case True
    then show ?thesis using 2 dq_full [OF q] by (auto simp: dq_push_op_def rt_data_queue_push_def s rt_const)
  next
    case False
    obtain q1 k1 where d: "dq_put n x q k = (q1, k1)" by force
    have "dq_count q < unat (dq_size q)" using dq_full [OF q] dq_count_le [OF q] False by simp
    moreover note pp = dq_put_ok [OF q False d]
    moreover have "kernel_ok k1" using resume_first_ok(1) [OF k wait_list_simps(10)] k by (simp add: pp(5))
    moreover have "a \<and> s' = (q1, k1)" using 2(2) False d by (simp add: dq_push_op_def rt_data_queue_push_def s)
    ultimately show ?thesis by (simp add: s dq_valid_def)
  qed
next
  case (3 s g s')
  obtain q k where s: "s = (q, k)" by force
  have q: "dq_ok q" and k: "kernel_ok k" using 3(1) by (simp_all add: dq_valid_def s)
  show ?case
  proof (cases "items_of q")
    case Nil
    then have "is_empty q" using dq_empty [OF q] by (simp add: items_of_def)
    then show ?thesis using 3 Nil by (auto simp: dq_pop_op_def rt_data_queue_pop_def s)
  next
    case (Cons x xs)
    then have ne: "\<not> is_empty q" using dq_empty [OF q] count_Cons [OF Cons] by simp
    obtain y q1 k1 where d: "dq_get n q k = (y, q1, k1)" by (metis prod_cases3)
    note g = dq_get_ok [OF q Cons d]
    moreover have "kernel_ok k1" using resume_first_ok(1) [OF k wait_list_simps(9)] k by (simp add: g(6))
    moreover have "g = Some y \<and> s' = (q1, k1)" using 3(2) ne d by (simp add: dq_pop_op_def rt_data_queue_pop_def s)
    ultimately show ?thesis using Cons by (simp add: s dq_valid_def)
  qed
qed

section \<open>What a data queue promises\<close>

definition demo_queue :: rt_data_queue where
  "demo_queue = \<lparr>dq_magic = DATAQUEUE_MAGIC, dq_size = 3, lwm = 1, get_index = 2, is_empty = False, put_index = 2, is_full = True,
     dq_items = (\<lambda>i. (100 + i, i)), evt_notify = True, notified = []\<rparr>"

lemma demo_queue_ok: "dq_ok demo_queue" "items_of demo_queue = [(102, 2), (100, 0), (101, 1)]"
  by (simp_all add: demo_queue_def dq_ok_def items_of_def dq_count_def upt_rec)

text \<open>C22. A data queue answers pushes and pops that do not wait exactly as a list of at most \<open>size\<close> items does, for
  all sizes up to \<open>2 ^ 15\<close>: the same calls succeed and the same items come out, in the order they went in.\<close>

theorem dataqueue_conversation:
  assumes "dq_ok q" "kernel_ok k" "ordinary xs"
    and "port_run (dq_push_op n) u (dq_pop_op n) xs (q, k) = (rs, (q', k'))"
  shows "spec_run (unat (dq_size q)) (\<lambda>_. True) xs (items_of q) = (rs, items_of q') \<and> dq_ok q' \<and> kernel_ok k'
    \<and> items_of q @ accepted xs rs = got rs @ items_of q'"
proof -
  have v: "dq_valid (q, k)" using assms(1,2) by (simp add: dq_valid_def)
  show ?thesis
    using dataqueue.ordinary_refines [OF v assms(4,3)] dataqueue.ordinary_in_order [OF v assms(4,3)]
    by (auto simp: dq_valid_def)
qed

theorem dataqueue_conversation_witness:
  "\<exists>q' k'. port_run (dq_push_op 1) (\<lambda>_ s. (False, s)) (dq_pop_op 1) [Send (7, 7), Recv, Send (8, 8)] (demo_queue, demo_kernel)
    = ([Accepted False, Got (Some (102, 2)), Accepted True], (q', k')) \<and> items_of q' = [(100, 0), (101, 1), (8, 8)]"
proof -
  obtain rs q' k' where r: "port_run (dq_push_op 1) (\<lambda>_ s. (False, s)) (dq_pop_op 1) [Send (7, 7), Recv, Send (8, 8)]
      (demo_queue, demo_kernel) = (rs, (q', k'))" by (metis prod_cases3)
  have "unat (dq_size demo_queue) = 3" by (simp add: demo_queue_def)
  then show ?thesis
    using dataqueue_conversation [OF demo_queue_ok(1) demo_kernel_kernel_ok _ r] r demo_queue_ok(2) by auto
qed

text \<open>The low-water mark. While threads wait to push, a pop wakes one of them, the first, exactly when it leaves
  at most \<open>lwm\<close> items; the woken thread's own call then puts its item behind those that are left.\<close>

theorem dataqueue_low_water:
  assumes "dq_ok q" "kernel_ok k" "items_of q = x # xs" "klist k (LDqPush n) = t # ts" "error (threads k t) = RT_EOK"
  shows "let (r, y, q1, k1) = rt_data_queue_pop n timeout q k; (r', q2, k2) = rt_data_queue_push_resume n z timeout' t q1 k1
    in r = Done RT_EOK \<and> y = Some x \<and> items_of q1 = xs \<and> kernel_ok k1
      \<and> (if length xs \<le> unat (lwm q)
         then klist k1 (LDqPush n) = ts \<and> \<not> is_suspended k1 t \<and> r' = Done RT_EOK \<and> items_of q2 = xs @ [z] \<and> dq_ok q2
         else k1 = k)"
proof -
  have ne: "\<not> is_empty q" using dq_empty [OF assms(1)] count_Cons [OF assms(3)] by simp
  obtain y q1 k1 where d: "dq_get n q k = (y, q1, k1)" by (metis prod_cases3)
  note g = dq_get_ok [OF assms(1,3) d]
  note f = resume_first_ok [OF assms(2) wait_list_simps(9) [of n]]
  have "dq_count q1 = length xs" using length_items [of q1] by (simp add: g(3))
  moreover have "Suc (length xs) \<le> unat (dq_size q)" using dq_count_le [OF assms(1)] count_Cons [OF assms(3)] by simp
  ultimately have nf: "\<not> is_full q1" using dq_full [OF g(2)] g(4) by simp
  obtain q2 k2 where p: "dq_put n z q1 k1 = (q2, k2)" by force
  note pp = dq_put_ok [OF g(2) nf p]
  have w: "length xs \<le> unat (lwm q) \<Longrightarrow> klist k1 (LDqPush n) = ts \<and> \<not> is_suspended k1 t \<and> error (threads k1 t) = RT_EOK"
    using g(6) f(2) f(4) [OF assms(4)] assms(4,5) by simp
  show ?thesis
    using ne d g(1,3,6) w nf p pp(1,2) f(1) assms(2)
    by (auto simp: rt_data_queue_pop_def rt_data_queue_push_resume_def rt_data_queue_push_def)
qed

theorem dataqueue_low_water_witness:
  "let k = plain_wait tlist_insert_before (LDqPush 1) (-1) demo_kernel;
       q = fst (snd (snd (rt_data_queue_pop 1 0 demo_queue k)));
       (r, y, q1, k1) = rt_data_queue_pop 1 0 q k
   in y = Some (100, 0) \<and> items_of (fst (snd (rt_data_queue_push_resume 1 (9, 9) (-1) 0 q1 k1))) = [(101, 1), (9, 9)]"
proof -
  let ?k = "plain_wait tlist_insert_before (LDqPush 1) (-1) demo_kernel"
  let ?q = "fst (snd (snd (rt_data_queue_pop 1 0 demo_queue ?k)))"
  note w = wait_behind [OF demo_kernel_kernel_ok demo_kernel_facts(1,3) wait_list_simps(9) [of 1], where timeout = "-1"]
  have k: "klist ?k (LDqPush 1) = 0 # []" using w(3) demo_wait_lists [OF wait_list_simps(9)] by simp
  obtain y q1 k1 where d: "dq_get 1 demo_queue ?k = (y, q1, k1)" by (metis prod_cases3)
  note g = dq_get_ok [OF demo_queue_ok d]
  have q: "?q = q1" using d by (simp add: rt_data_queue_pop_def demo_queue_def)
  have "length [(100, 0), (101, 1) :: item] = 2" "lwm q1 = 1" using g(5) by (simp_all add: demo_queue_def)
  then show ?thesis
    using dataqueue_low_water [OF g(2) w(1) g(3) k w(5), of 0 "(9, 9)" "-1"] unfolding Let_def q by (simp add: split_beta)
qed

text \<open>A reset returns, empties the queue and both wait lists and makes every waiting call return -RT_ERROR.\<close>

lemma exit_critical_ok:
  assumes "kernel_ok k"
  shows "kernel_ok (rt_exit_critical k)" "wait_list l \<Longrightarrow> klist (rt_exit_critical k) l = klist k l"
    "error (threads (rt_exit_critical k) u) = error (threads k u)"
proof -
  have l: "kernel_ok (k\<lparr>lock_nest := z\<rparr>)" for z
    using assms by (simp add: kernel_ok_def sched_ok_def timers_ok_def timer_set_def tstate_def is_suspended_def)
  show "kernel_ok (rt_exit_critical k)" using l advances_schedule(2) [OF l] by (simp add: rt_exit_critical_def Let_def)
  show "wait_list l \<Longrightarrow> klist (rt_exit_critical k) l = klist k l"
    using schedule_wait_lists [OF l] by (simp add: rt_exit_critical_def Let_def)
  show "error (threads (rt_exit_critical k) u) = error (threads k u)" by (simp add: rt_exit_critical_def Let_def)
qed

theorem dataqueue_reset:
  assumes "dq_ok q" "kernel_ok k"
  shows "\<exists>q' k'. rt_data_queue_reset n q k = Some (q', k') \<and> dq_ok q' \<and> items_of q' = [] \<and> kernel_ok k'
    \<and> klist k' (LDqPop n) = [] \<and> klist k' (LDqPush n) = []
    \<and> (\<forall>t \<in> set (klist k (LDqPop n)). fst (rt_data_queue_pop_resume n timeout t q' k') = Done (- RT_ERROR))
    \<and> (\<forall>t \<in> set (klist k (LDqPush n)). fst (rt_data_queue_push_resume n x timeout t q' k') = Done (- RT_ERROR))"
proof -
  let ?k = "rt_enter_critical k"
  have k0: "kernel_ok ?k"
    using assms(2) by (simp add: rt_enter_critical_def kernel_ok_def sched_ok_def timers_ok_def timer_set_def tstate_def is_suspended_def)
  then have b: "base_ok ?k" and kl: "klist ?k = klist k" by (simp_all add: kernel_ok_base rt_enter_critical_def)
  obtain k1 where 1: "ipc_list_resume_all (LDqPop n) ?k = Some k1" "base_ok k1" "klist k1 (LDqPop n) = []" "current k1 = current ?k"
    "\<forall>t \<in> set (klist ?k (LDqPop n)). error (threads k1 t) = - RT_ERROR" "klist k1 (LDqPush n) = klist ?k (LDqPush n)"
    using resume_all_ok [OF b wait_list_simps(10), of n] by force
  obtain k2 where 2: "ipc_list_resume_all (LDqPush n) k1 = Some k2" "base_ok k2" "klist k2 (LDqPush n) = []" "current k2 = current k1"
    "\<forall>t \<in> set (klist k1 (LDqPush n)). error (threads k2 t) = - RT_ERROR" "klist k2 (LDqPop n) = []"
    "\<forall>t. t \<notin> set (klist k1 (LDqPush n)) \<longrightarrow> threads k2 t = threads k1 t"
    using resume_all_ok [OF 1(2) wait_list_simps(9), of n] 1(3) by force
  have k2: "kernel_ok k2" using 2(2,4) 1(4) k0 by (simp add: kernel_ok_base)
  have one: "t \<notin> set (klist k1 (LDqPush n))" if "t \<in> set (klist k (LDqPop n))" for t
    using that b 1(6) kl by (auto simp: base_ok_def sched_ex_def lists_ok_def)
  let ?k' = "rt_schedule (rt_exit_critical k2)"
  note x = exit_critical_ok [OF k2]
  have e: "error (threads ?k' t) = - RT_ERROR" if "t \<in> set (klist k (LDqPop n)) \<union> set (klist k (LDqPush n))" for t
    using that 1(5,6) 2(5,7) one x(3) kl by auto
  define q' where "q' = q\<lparr>get_index := 0, put_index := 0, is_empty := True, is_full := False\<rparr>"
  have "rt_data_queue_reset n q k = Some (q', ?k')" using 1(1) 2(1) by (simp add: rt_data_queue_reset_def q'_def)
  moreover have "dq_ok q' \<and> items_of q' = []" using assms(1) by (simp add: dq_ok_def q'_def items_of_def dq_count_def)
  moreover have "kernel_ok ?k' \<and> klist ?k' (LDqPop n) = [] \<and> klist ?k' (LDqPush n) = []"
    using advances_schedule(2) [OF x(1)] schedule_wait_lists [OF x(1)] x(2) 2(3,6) by simp
  ultimately show ?thesis
    using e by (auto simp: rt_data_queue_pop_resume_def rt_data_queue_push_resume_def rt_const)
qed

text \<open>Beyond \<open>2 ^ 15\<close> the index fields are too narrow: in a queue of 40000 items the index wraps at 32768, and a queue
  with a single item has the length 7233.\<close>

lemma dataqueue_large_size:
  "dq_next 32767 40000 = 0"
  "\<not> is_empty q \<Longrightarrow> dq_size q = 40000 \<Longrightarrow> get_index q = 32767 \<Longrightarrow> put_index q = 0 \<Longrightarrow> rt_data_queue_len q = 7233"
  by (simp_all add: dq_next_def rt_data_queue_len_def)

end
