(* ===== verification/Completion.thy ===== *)
theory Completion
  imports Waiting
begin

text \<open>
  Completions (components/drivers/ipc/completion.c): a flag that one thread waits for and another thread or an
  interrupt sets. \<open>n\<close> names the wait list; the flag stands beside the kernel.
\<close>

definition rt_completion_init :: "nat \<Rightarrow> kernel \<Rightarrow> bool \<times> kernel" where
  "rt_completion_init n k = (False, ipc_object_init (LCompletion n) k)"

definition rt_completion_wait :: "nat \<Rightarrow> int \<Rightarrow> bool \<Rightarrow> kernel \<Rightarrow> blocking \<times> bool \<times> kernel" where
  "rt_completion_wait n timeout completed k =
     (if \<not> completed then
        if timeout = 0 then (Done (- RT_ETIMEOUT), completed, k)
        else (Waits, completed, plain_wait tlist_insert_before (LCompletion n) timeout k)
      else (Done RT_EOK, False, k))"

text \<open>The rest of the call when the waiting thread \<open>t\<close> runs again.\<close>

definition rt_completion_wait_resume :: "nat \<Rightarrow> bool \<Rightarrow> kernel \<Rightarrow> rt_err_t \<times> bool" where
  "rt_completion_wait_resume t completed k = (error (threads k t), False)"

definition rt_completion_done :: "nat \<Rightarrow> bool \<Rightarrow> kernel \<Rightarrow> bool \<times> kernel" where
  "rt_completion_done n completed k = (if completed then (completed, k) else (True, resume_first (LCompletion n) k))"

lemma demo_completion_waits:
  "kernel_ok (plain_wait tlist_insert_before (LCompletion 3) (-1) demo_kernel)"
  "klist (plain_wait tlist_insert_before (LCompletion 3) (-1) demo_kernel) (LCompletion 3) = [0]"
  using wait_behind [OF demo_kernel_kernel_ok demo_kernel_facts(1,3) wait_list_simps(11) [of 3], where timeout = "-1"]
    demo_wait_lists [OF wait_list_simps(11)] by simp_all

text \<open>A completion done before the wait is not lost: the wait returns at once and takes it. One done during the
  wait wakes the waiting thread, whose call returns RT_EOK; either way the completion is used up.\<close>

theorem completion_handshake:
  assumes "kernel_ok k" "klist k (LCompletion n) = []" "current k = Some t" "tstate k t = RT_THREAD_RUNNING" "timeout \<noteq> 0"
  shows "(let (c1, k1) = rt_completion_done n False k in rt_completion_wait n timeout c1 k1 = (Done RT_EOK, False, k))
    \<and> (let (r, c1, k1) = rt_completion_wait n timeout False k; (c2, k2) = rt_completion_done n c1 k1
      in r = Waits \<and> is_suspended k1 t \<and> klist k1 (LCompletion n) = [t] \<and> \<not> is_suspended k2 t \<and> kernel_ok k2
         \<and> klist k2 (LCompletion n) = [] \<and> rt_completion_wait_resume t c2 k2 = (RT_EOK, False))"
proof -
  let ?k1 = "plain_wait tlist_insert_before (LCompletion n) timeout k"
  note w = wait_behind [OF assms(1,3,4) wait_list_simps(11) [of n], where timeout = timeout]
  have l: "klist ?k1 (LCompletion n) = t # []" using w(3) assms(2) by simp
  note f = resume_first_ok [OF w(1) wait_list_simps(11) [of n]]
  show ?thesis
    using assms(2,5) w(2,5) l f(1,2) f(4) [OF l]
    by (simp add: rt_completion_wait_def rt_completion_done_def rt_completion_wait_resume_def resume_first_def [of _ k])
qed

theorem completion_handshake_witness:
  "fst (rt_completion_wait 3 10 (fst (rt_completion_done 3 False demo_kernel)) demo_kernel) = Done RT_EOK"
proof -
  have l: "klist demo_kernel (LCompletion 3) = []" by (rule demo_wait_lists) simp
  then show ?thesis
    using completion_handshake [OF demo_kernel_kernel_ok l demo_kernel_facts(1,3), of 10]
    by (simp add: split_beta rt_completion_done_def rt_completion_wait_def)
qed

text \<open>A completion done after the timeout of the waiting thread, before that thread runs again, is lost: the call
  of the thread returns -RT_ETIMEOUT and clears the flag all the same, so the next wait does not find it.\<close>

theorem completion_lost:
  assumes "kernel_ok k" "klist k (LCompletion n) = [t]" "TThread t \<notin> set (timer_list k)"
  shows "let k1 = thread_timeout t k; (c2, k2) = rt_completion_done n False k1; (r, c3) = rt_completion_wait_resume t c2 k2
    in \<not> is_suspended k1 t \<and> c2 = True \<and> kernel_ok k2 \<and> r = - RT_ETIMEOUT \<and> fst (rt_completion_wait n 0 c3 k2) = Done (- RT_ETIMEOUT)"
proof -
  have b: "base_ok k" using assms(1) by (simp add: kernel_ok_base)
  have s: "is_suspended k t" by (rule listed_suspended [OF b wait_list_simps(11) [of n]]) (simp add: assms(2))
  note w = thread_timeout_wait [OF assms(1) s assms(3) wait_list_simps(11) [of n]]
  note o = thread_timeout_ok [OF assms(1) s assms(3)]
  have l: "klist (thread_timeout t k) (LCompletion n) = []" using w assms(2) by simp
  then have d: "rt_completion_done n False (thread_timeout t k) = (True, thread_timeout t k)"
    by (simp add: rt_completion_done_def resume_first_def)
  show ?thesis using w o by (simp add: d rt_completion_wait_resume_def rt_completion_wait_def rt_const)
qed

theorem completion_lost_witness:
  "let k = plain_wait tlist_insert_before (LCompletion 3) (-1) demo_kernel; k1 = thread_timeout 0 k;
       (c2, k2) = rt_completion_done 3 False k1
   in rt_completion_wait_resume 0 c2 k2 = (- RT_ETIMEOUT, False)"
proof -
  let ?k = "plain_wait tlist_insert_before (LCompletion 3) (-1) demo_kernel"
  have "TThread 0 \<notin> set (timer_list ?k)"
    using wait_behind(7) [OF demo_kernel_kernel_ok demo_kernel_facts(1,3) wait_list_simps(11) [of 3], where timeout = "-1"]
    by (simp add: demo_kernel_timers)
  then show ?thesis
    using completion_lost [OF demo_completion_waits] by (simp add: Let_def split_beta rt_completion_wait_resume_def)
qed

end
