(* ===== verification/KService.thy ===== *)
theory KService
  imports MemPool
begin

text \<open>
  Kernel services (os_rtt/src/kservice.c) beside formatted output: the memory functions that work word by word, the
  error number, the copy of a string into the heap and blocks with an alignment. A word in memory is four bytes,
  the least significant first.
\<close>

section \<open>Words in memory\<close>

definition store_word :: "mem \<Rightarrow> nat \<Rightarrow> u32 \<Rightarrow> mem" where
  "store_word m a w = m(a := ucast w, a + 1 := ucast (drop_bit 8 w), a + 2 := ucast (drop_bit 16 w), a + 3 := ucast (drop_bit 24 w))"

definition load_word :: "mem \<Rightarrow> nat \<Rightarrow> u32" where
  "load_word m a = ucast (m a) OR push_bit 8 (ucast (m (a + 1))) OR push_bit 16 (ucast (m (a + 2))) OR push_bit 24 (ucast (m (a + 3)))"

lemma load_word_bytes:
  "ucast (load_word m a) = m a" "ucast (drop_bit 8 (load_word m a)) = m (a + 1)"
  "ucast (drop_bit 16 (load_word m a)) = m (a + 2)" "ucast (drop_bit 24 (load_word m a)) = m (a + 3)"
  unfolding load_word_def by (rule bit_word_eqI; auto simp: bit_simps dest: bit_imp_le_length)+

lemma store_load: "store_word m d (load_word m' s) = m(d := m' s, d + 1 := m' (s + 1), d + 2 := m' (s + 2), d + 3 := m' (s + 3))"
  by (simp add: store_word_def load_word_bytes)

lemma load_store: "load_word (store_word m a w) a = w"
proof (rule bit_word_eqI)
  fix n
  assume "n < LENGTH(32)"
  then consider "n < 8" | "8 \<le> n" "n < 16" | "16 \<le> n" "n < 24" | "24 \<le> n" "n < 32" by fastforce
  then show "bit (load_word (store_word m a w) a) n = bit w n"
    by cases (auto simp: load_word_def store_word_def bit_simps)
qed

section \<open>rt_memset and rt_memcpy\<close>

definition TOO_SMALL :: "nat \<Rightarrow> nat \<Rightarrow> bool" where "TOO_SMALL blocksize n \<longleftrightarrow> n < blocksize"
definition UNALIGNED :: "nat \<Rightarrow> bool" where "UNALIGNED a \<longleftrightarrow> a mod 4 \<noteq> 0"

text \<open>The loops over words: the memory, the pointers and the count they leave.\<close>

function set_quads :: "u32 \<Rightarrow> mem \<Rightarrow> nat \<Rightarrow> nat \<Rightarrow> mem \<times> nat \<times> nat" where
  "set_quads w m p n =
     (if n \<ge> 16 then set_quads w (store_word (store_word (store_word (store_word m p w) (p + 4) w) (p + 8) w) (p + 12) w) (p + 16) (n - 16)
      else (m, p, n))"
  by pat_completeness auto
termination by (relation "measure (\<lambda>(w, m, p, n). n)") auto

function set_words :: "u32 \<Rightarrow> mem \<Rightarrow> nat \<Rightarrow> nat \<Rightarrow> mem \<times> nat \<times> nat" where
  "set_words w m p n = (if n \<ge> 4 then set_words w (store_word m p w) (p + 4) (n - 4) else (m, p, n))"
  by pat_completeness auto
termination by (relation "measure (\<lambda>(w, m, p, n). n)") auto

text \<open>\<open>buffer\<close> is filled byte by byte, so its value is the word whose bytes are all \<open>d\<close>.\<close>

definition rt_memset :: "mem \<Rightarrow> nat \<Rightarrow> int \<Rightarrow> nat \<Rightarrow> nat \<times> mem" where
  "rt_memset m s c n =
     (let d = word_of_int c :: u8;
          (m1, p1, n1) = (if \<not> TOO_SMALL 4 n \<and> \<not> UNALIGNED s
                          then let buffer = load_word (\<lambda>_. d) 0; (m', p', n') = set_quads buffer m s n in set_words buffer m' p' n'
                          else (m, s, n))
      in (s, memset_loop n1 m1 p1 d))"

definition copy_word :: "mem \<Rightarrow> nat \<Rightarrow> nat \<Rightarrow> mem" where
  "copy_word m d s = store_word m d (load_word m s)"

function copy_quads :: "mem \<Rightarrow> nat \<Rightarrow> nat \<Rightarrow> nat \<Rightarrow> mem \<times> nat \<times> nat \<times> nat" where
  "copy_quads m d s n =
     (if n \<ge> 16 then copy_quads (copy_word (copy_word (copy_word (copy_word m d s) (d + 4) (s + 4)) (d + 8) (s + 8)) (d + 12) (s + 12))
                       (d + 16) (s + 16) (n - 16)
      else (m, d, s, n))"
  by pat_completeness auto
termination by (relation "measure (\<lambda>(m, d, s, n). n)") auto

function copy_words :: "mem \<Rightarrow> nat \<Rightarrow> nat \<Rightarrow> nat \<Rightarrow> mem \<times> nat \<times> nat \<times> nat" where
  "copy_words m d s n = (if n \<ge> 4 then copy_words (copy_word m d s) (d + 4) (s + 4) (n - 4) else (m, d, s, n))"
  by pat_completeness auto
termination by (relation "measure (\<lambda>(m, d, s, n). n)") auto

definition rt_memcpy :: "mem \<Rightarrow> nat \<Rightarrow> nat \<Rightarrow> nat \<Rightarrow> nat \<times> mem" where
  "rt_memcpy m dst src n =
     (let (m1, d1, s1, n1) = (if \<not> TOO_SMALL 16 n \<and> \<not> (UNALIGNED src \<or> UNALIGNED dst)
                              then let (m', d', s', n') = copy_quads m dst src n in copy_words m' d' s' n'
                              else (m, dst, src, n))
      in (dst, memcpy_loop n1 m1 d1 s1))"

definition rt_memmove :: "mem \<Rightarrow> nat \<Rightarrow> nat \<Rightarrow> nat \<Rightarrow> nat \<times> mem" where
  "rt_memmove m dest src n =
     (dest, if src < dest \<and> dest < src + n then memmove_down n m (dest + n) (src + n) else memcpy_loop n m dest src)"

fun rt_memcmp :: "mem \<Rightarrow> nat \<Rightarrow> nat \<Rightarrow> nat \<Rightarrow> int" where
  "rt_memcmp m cs ct 0 = 0"
| "rt_memcmp m cs ct (Suc n) =
     (let res = uint (m cs) - uint (m ct) in if res \<noteq> 0 then res else rt_memcmp m (cs + 1) (ct + 1) n)"

declare set_quads.simps [simp del] set_words.simps [simp del] copy_quads.simps [simp del] copy_words.simps [simp del]

section \<open>They are the byte loops\<close>

definition fill :: "mem \<Rightarrow> nat \<Rightarrow> nat \<Rightarrow> u8 \<Rightarrow> mem" where
  "fill m p n d = (\<lambda>a. if p \<le> a \<and> a < p + n then d else m a)"

lemma fill_fill: "fill (fill m p k d) (p + k) l d = fill m p (k + l) d"
  by (auto simp: fill_def fun_eq_iff)

lemma fill_0 [simp]: "fill m p 0 d = m"
  by (rule ext) (auto simp: fill_def)

lemma memset_loop_fill: "memset_loop n m p d = fill m p n d"
  by (simp add: memset_loop_eq fill_def)

lemma store_fill: "store_word m p (load_word (\<lambda>_. d) 0) = fill m p 4 d"
  by (auto simp: store_load fill_def fun_eq_iff)

lemma set_words_fill: "set_words (load_word (\<lambda>_. d) 0) m p n = (fill m p (4 * (n div 4)) d, p + 4 * (n div 4), n mod 4)"
proof (induction n arbitrary: m p rule: less_induct)
  case (less n)
  show ?case
  proof (cases "n \<ge> 4")
    case True
    then have e: "n div 4 = Suc ((n - 4) div 4)" "n mod 4 = (n - 4) mod 4" by (simp_all add: le_div_geq le_mod_geq)
    have "n - 4 < n" using True by simp
    from less.IH [OF this, of "store_word m p (load_word (\<lambda>_. d) 0)" "p + 4"] show ?thesis
      using True by (subst set_words.simps) (simp add: e store_fill fill_fill algebra_simps)
  qed (subst set_words.simps, simp)
qed

lemma set_quads_fill: "set_quads (load_word (\<lambda>_. d) 0) m p n = (fill m p (16 * (n div 16)) d, p + 16 * (n div 16), n mod 16)"
proof (induction n arbitrary: m p rule: less_induct)
  case (less n)
  show ?case
  proof (cases "n \<ge> 16")
    case True
    then have e: "n div 16 = Suc ((n - 16) div 16)" "n mod 16 = (n - 16) mod 16" by (simp_all add: le_div_geq le_mod_geq)
    have q: "fill (fill (fill (fill m p 4 d) (p + 4) 4 d) (p + 8) 4 d) (p + 12) 4 d = fill m p 16 d" by (auto simp: fill_def fun_eq_iff)
    have "n - 16 < n" using True by simp
    from less.IH [OF this, of "fill m p 16 d" "p + 16"] show ?thesis
      using True by (subst set_quads.simps) (simp add: e store_fill q fill_fill algebra_simps)
  qed (subst set_quads.simps, simp)
qed

lemma rt_memset_fill: "rt_memset m s c n = (s, fill m s n (word_of_int c))"
proof (cases "\<not> TOO_SMALL 4 n \<and> \<not> UNALIGNED s")
  case True
  let ?d = "word_of_int c :: u8" and ?k = "16 * (n div 16) + 4 * (n mod 16 div 4)"
  have "?k + n mod 16 mod 4 = n" by simp
  then have "fill (fill m s ?k ?d) (s + ?k) (n mod 16 mod 4) ?d = fill m s n ?d" unfolding fill_fill by simp
  then show ?thesis using True
    by (simp add: rt_memset_def set_quads_fill set_words_fill memset_loop_fill fill_fill Let_def add.assoc)
next
  case False
  then show ?thesis by (auto simp: rt_memset_def memset_loop_fill)
qed

lemma copy_word_blit: "copy_word m d s = blit m d s 4"
  by (auto simp: copy_word_def store_load blit_def fun_eq_iff numeral_eq_Suc less_Suc_eq Suc_diff_le le_Suc_eq)

lemma blit_blit: "d \<le> s \<or> s + (k + l) \<le> d \<Longrightarrow> blit (blit m d s k) (d + k) (s + k) l = blit m d s (k + l)"
  by (auto simp: blit_def fun_eq_iff)

lemma copy_quad_blit:
  assumes "d \<le> s \<or> s + 16 \<le> d"
  shows "copy_word (copy_word (copy_word (copy_word m d s) (d + 4) (s + 4)) (d + 8) (s + 8)) (d + 12) (s + 12) = blit m d s 16"
  using assms blit_blit [of d s 4 4 m] blit_blit [of d s 8 4 m] blit_blit [of d s 12 4 m] by (auto simp: copy_word_blit)

lemma copy_words_blit:
  assumes "d \<le> s \<or> s + n \<le> d"
  shows "copy_words m d s n = (blit m d s (4 * (n div 4)), d + 4 * (n div 4), s + 4 * (n div 4), n mod 4)"
  using assms
proof (induction n arbitrary: m d s rule: less_induct)
  case (less n)
  show ?case
  proof (cases "n \<ge> 4")
    case True
    then have e: "n div 4 = Suc ((n - 4) div 4)" "n mod 4 = (n - 4) mod 4" by (simp_all add: le_div_geq le_mod_geq)
    have n: "n - 4 < n" "d + 4 \<le> s + 4 \<or> s + 4 + (n - 4) \<le> d + 4" using True less.prems by auto
    have "d \<le> s \<or> s + (4 + 4 * ((n - 4) div 4)) \<le> d" using less.prems True by auto
    from less.IH [OF n, of "blit m d s 4"] blit_blit [OF this, of m] show ?thesis
      using True by (subst copy_words.simps) (simp add: e copy_word_blit algebra_simps)
  qed (subst copy_words.simps, simp add: blit_0)
qed

lemma copy_quads_blit:
  assumes "d \<le> s \<or> s + n \<le> d"
  shows "copy_quads m d s n = (blit m d s (16 * (n div 16)), d + 16 * (n div 16), s + 16 * (n div 16), n mod 16)"
  using assms
proof (induction n arbitrary: m d s rule: less_induct)
  case (less n)
  show ?case
  proof (cases "n \<ge> 16")
    case True
    then have e: "n div 16 = Suc ((n - 16) div 16)" "n mod 16 = (n - 16) mod 16" by (simp_all add: le_div_geq le_mod_geq)
    have n: "n - 16 < n" "d + 16 \<le> s + 16 \<or> s + 16 + (n - 16) \<le> d + 16" using True less.prems by auto
    have "d \<le> s \<or> s + (16 + 16 * ((n - 16) div 16)) \<le> d" using less.prems True by auto
    from less.IH [OF n, of "blit m d s 16"] blit_blit [OF this, of m] copy_quad_blit [of d s m] show ?thesis
      using True less.prems by (subst copy_quads.simps) (auto simp: e algebra_simps)
  qed (subst copy_quads.simps, simp add: blit_0)
qed

lemma rt_memcpy_blit:
  assumes "dst \<le> src \<or> src + n \<le> dst"
  shows "rt_memcpy m dst src n = (dst, blit m dst src n)"
proof -
  let ?a = "16 * (n div 16)" and ?b = "4 * (n mod 16 div 4)"
  have e: "?a + n mod 16 = n" "?b + n mod 16 mod 4 = n mod 16" by simp_all
  have "copy_words (blit m dst src ?a) (dst + ?a) (src + ?a) (n mod 16)
      = (blit (blit m dst src ?a) (dst + ?a) (src + ?a) ?b, dst + ?a + ?b, src + ?a + ?b, n mod 16 mod 4)"
    using assms by (intro copy_words_blit) auto
  moreover have "blit (blit m dst src ?a) (dst + ?a) (src + ?a) ?b = blit m dst src (?a + ?b)"
    using assms e by (intro blit_blit) linarith
  moreover have "memcpy_loop (n mod 16 mod 4) (blit m dst src (?a + ?b)) (dst + ?a + ?b) (src + ?a + ?b)
      = blit (blit m dst src (?a + ?b)) (dst + (?a + ?b)) (src + (?a + ?b)) (n mod 16 mod 4)"
    using assms e by (subst memcpy_loop_eq) (auto simp: add.assoc)
  moreover have "\<dots> = blit m dst src n"
    using assms e blit_blit [of dst src "?a + ?b" "n mod 16 mod 4" m] by (simp add: add.assoc)
  ultimately show ?thesis
    using copy_quads_blit [OF assms, of m] memcpy_loop_eq [OF assms, of m] by (simp add: rt_memcpy_def)
qed

lemma rt_memmove_blit: "rt_memmove m d s n = (d, blit m d s n)"
  by (auto simp: rt_memmove_def blk)

lemma rt_memcmp_eq: "rt_memcmp m a b n = memcmp m a b n"
  by (induction n arbitrary: a b) (auto simp: Let_def word_uint_eq_iff)

section \<open>Errors and strings\<close>

definition rt_errno_strs :: "string list" where
  "rt_errno_strs = [''OK'', ''ERROR'', ''ETIMOUT'', ''ERSFULL'', ''ERSEPTY'', ''ENOMEM'', ''ENOSYS'', ''EBUSY'', ''EIO'',
     ''EINTRPT'', ''EINVAL'', ''EUNKNOW'']"

definition rt_strerror :: "rt_err_t \<Rightarrow> string" where
  "rt_strerror e0 =
     (let e = (if e0 < 0 then - e0 else e0)
      in if e > RT_EINVAL + 1 then rt_errno_strs ! nat (RT_EINVAL + 1) else rt_errno_strs ! nat e)"

text \<open>\<open>glob\<close> is __rt_errno, which stands for the error number in interrupts and before the first thread.\<close>

definition rt_get_errno :: "rt_err_t \<Rightarrow> kernel \<Rightarrow> rt_err_t" where
  "rt_get_errno glob k =
     (if interrupt_nest k \<noteq> 0 then glob else case rt_thread_self k of None \<Rightarrow> glob | Some t \<Rightarrow> error (threads k t))"

fun strnlen_loop :: "mem \<Rightarrow> nat \<Rightarrow> nat \<Rightarrow> nat \<Rightarrow> nat" where
  "strnlen_loop m s k 0 = k"
| "strnlen_loop m s k (Suc n) = (if m (s + k) \<noteq> 0 then strnlen_loop m s (k + 1) n else k)"

definition rt_strnlen :: "mem \<Rightarrow> nat \<Rightarrow> nat \<Rightarrow> nat" where
  "rt_strnlen m s maxlen = strnlen_loop m s 0 maxlen"

definition rt_strdup :: "rt_small_mem \<Rightarrow> nat \<Rightarrow> (nat option \<times> rt_small_mem) option" where
  "rt_strdup h s =
     do { n \<leftarrow> strlen (bytes h) s;
          let len = add32 n 1;
          (p, h1) \<leftarrow> rt_malloc h len;
          Some (case p of None \<Rightarrow> (None, h1) | Some tmp \<Rightarrow> (Some tmp, h1\<lparr>bytes := snd (rt_memcpy (bytes h1) tmp s len)\<rparr>)) }"

lemma errno_set_get:
  assumes "interrupt_nest k = 0" "rt_thread_self k = Some t"
  shows "rt_get_errno glob (rt_set_errno e k) = e"
  using assms by (simp add: rt_get_errno_def rt_set_errno_def rt_thread_self_def upd_thread_def)

lemma strnlen_cstr: "cstr m s cs \<Longrightarrow> rt_strnlen m s maxlen = min (length cs) maxlen"
proof -
  assume c: "cstr m s cs"
  have "k \<le> length cs \<Longrightarrow> strnlen_loop m s k n = min (length cs) (k + n)" for k n
  proof (induction n arbitrary: k)
    case (Suc n)
    show ?case
    proof (cases "k = length cs")
      case True
      then show ?thesis using c by (simp add: cstr_iff)
    next
      case False
      then have "k < length cs" using Suc.prems by simp
      then show ?thesis using Suc.IH [of "k + 1"] c by (simp add: cstr_iff)
    qed
  qed simp
  from this [of 0 maxlen] show ?thesis by (simp add: rt_strnlen_def)
qed

section \<open>Blocks with an alignment\<close>

text \<open>\<open>hb\<close> is the address of the heap: addresses in the heap are offsets from it.\<close>

definition align_up :: "u32 \<Rightarrow> u32 \<Rightarrow> u32" where
  "align_up x align = (x + (align - 1)) AND NOT (align - 1)"

definition rt_malloc_align :: "u32 \<Rightarrow> rt_small_mem \<Rightarrow> u32 \<Rightarrow> u32 \<Rightarrow> (nat option \<times> rt_small_mem) option" where
  "rt_malloc_align hb h sz align0 =
     (let align = align_up align0 4;
          align_size = align_up sz 4 + align
      in do { (p, h1) \<leftarrow> rt_malloc h (unat align_size);
              Some (case p of None \<Rightarrow> (None, h1)
                | Some off \<Rightarrow>
                    let ptr = hb + of_nat off;
                        align_ptr = (if ptr AND (align - 1) = 0 then ptr + align else align_up ptr align);
                        a = unat (align_ptr - hb)
                    in (Some a, h1\<lparr>bytes := store_word (bytes h1) (a - 4) ptr\<rparr>)) })"

definition rt_free_align :: "u32 \<Rightarrow> rt_small_mem \<Rightarrow> nat option \<Rightarrow> rt_small_mem" where
  "rt_free_align hb h ptr =
     (case ptr of None \<Rightarrow> h | Some a \<Rightarrow> rt_free h (Some (unat (load_word (bytes h) (a - 4) - hb))))"

lemma unat_pow: "k < 32 \<Longrightarrow> unat (2 ^ k :: u32) = 2 ^ k"
proof -
  assume "k < 32"
  then have "(2::nat) ^ k < 2 ^ 32" by (rule power_strict_increasing) simp
  then have "take_bit LENGTH(32) ((2::nat) ^ k) = 2 ^ k" by (intro take_bit_nat_eq_self) (use \<open>k < 32\<close> in simp)
  moreover have "(2 ^ k :: u32) = of_nat (2 ^ k)" by simp
  ultimately show ?thesis by (simp only: unsigned_of_nat of_nat_id)
qed

lemma align_up_pow:
  assumes "k < 32" "unat x + 2 ^ k \<le> 2 ^ 32"
  shows "unat (align_up x (2 ^ k)) = (unat x + (2 ^ k - 1)) div 2 ^ k * 2 ^ k"
proof -
  have m: "(2 ^ k :: u32) - 1 = mask k" by (simp add: mask_eq_exp_minus_1)
  have "(mask k :: u32) = of_nat (mask k)" by (rule of_nat_mask_eq [symmetric])
  then have "unat (mask k :: u32) = take_bit 32 (mask k)" by (simp only: unsigned_of_nat of_nat_id) simp
  also have "take_bit 32 (mask k :: nat) = mask k" using assms(1) by (simp add: take_bit_of_mask min_def)
  finally have u: "unat (mask k :: u32) = 2 ^ k - 1" by (simp only: mask_eq_exp_minus_1)
  have s: "unat (x + mask k) = unat x + (2 ^ k - 1)" using assms u by (simp add: unat_word_ariths)
  have "align_up x (2 ^ k) = push_bit k (drop_bit k (x + mask k))" by (simp add: align_up_def m and_not_mask_eq)
  also have "unat \<dots> = unat (x + mask k) div 2 ^ k * 2 ^ k"
  proof -
    have d: "unat (drop_bit k (x + mask k)) = unat (x + mask k) div 2 ^ k" by (subst unat_drop_bit_eq) (simp add: drop_bit_eq_div)
    have "unat (x + mask k) < 2 ^ 32" using unsigned_less [of "x + mask k", where ?'a = nat] by simp
    then have "unat (x + mask k) div 2 ^ k * 2 ^ k < 2 ^ 32"
      by (rule order.strict_trans1 [OF div_times_less_eq_dividend])
    then show ?thesis by (simp only: push_bit_eq_mult unat_word_ariths unat_pow [OF assms(1)] d) simp
  qed
  finally show ?thesis using s by simp
qed

lemma live_block: "heap_live h L \<Longrightarrow> (p, len) \<in> L \<Longrightarrow> 8 dvd p \<and> p + len \<le> heap_end h"
proof -
  assume "heap_live h L" "(p, len) \<in> L"
  then obtain bs where "(p, len) \<in> blive 0 bs" "bwf bs" "heap_end h = blen bs"
    unfolding heap_live_def hinv_def hrep_def hcore_def by blast
  then show ?thesis using blive_bounds [of p len 0 bs] blive_aligned [of p len 0 bs] by simp
qed

lemma set_heap_end [simp]:
  "heap_end (set_pool p v m) = heap_end m" "heap_end (set_next p n m) = heap_end m" "heap_end (set_prev p n m) = heap_end m"
  "heap_end (smem_note_max m) = heap_end m"
  by (simp_all add: set_pool_def set_next_def set_prev_def smem_note_max_def)

lemma alloc_heap_end: "rt_smem_alloc h n = Some (r, h') \<Longrightarrow> heap_end h' = heap_end h"
  by (auto simp: rt_smem_alloc_def smem_take_def smem_split_def Let_def split: if_splits bind_splits option.splits)

lemma four_dvd_8: "(4::nat) dvd 8"
  by simp

lemma and_pow: "k < 32 \<Longrightarrow> unat (x AND ((2 ^ k :: u32) - 1)) = unat x mod 2 ^ k"
  by (simp only: take_bit_eq_mask [symmetric] mask_eq_exp_minus_1 [symmetric]) (simp add: take_bit_eq_mod unat_mod unat_pow)

text \<open>The next multiple of the alignment, at least four bytes above a multiple of four.\<close>

lemma align_above:
  assumes "2 \<le> k" "k < 32" "unat x + 2 ^ k < 2 ^ 32" "4 dvd unat x"
  shows "2 ^ k dvd unat (if x AND (2 ^ k - 1) = 0 then x + 2 ^ k else align_up x (2 ^ k))
    \<and> unat x + 4 \<le> unat (if x AND (2 ^ k - 1) = 0 then x + 2 ^ k else align_up x (2 ^ k))
    \<and> unat (if x AND (2 ^ k - 1) = 0 then x + 2 ^ k else align_up x (2 ^ k)) \<le> unat x + 2 ^ k"
proof -
  obtain j where j: "k = 2 + j" using assms(1) le_iff_add by blast
  then have four: "4 dvd (2::nat) ^ k" "4 \<le> (2::nat) ^ k" by (simp_all add: power_add)
  have z: "x AND (2 ^ k - 1) = 0 \<longleftrightarrow> 2 ^ k dvd unat x"
    using and_pow [OF assms(2), of x] by (metis mod_eq_0_iff_dvd unat_eq_0)
  show ?thesis
  proof (cases "x AND (2 ^ k - 1) = 0")
    case True
    then show ?thesis using z four assms(2,3) by (simp add: unat_word_ariths unat_pow)
  next
    case False
    let ?u = "unat (align_up x (2 ^ k))"
    have u: "?u = (unat x + (2 ^ k - 1)) div 2 ^ k * 2 ^ k" using align_up_pow [OF assms(2), of x] assms(3) by simp
    have d: "2 ^ k dvd ?u" using u by simp
    have "(unat x + (2 ^ k - 1)) mod 2 ^ k + ?u = unat x + (2 ^ k - 1)" unfolding u by (rule mod_div_mult_eq)
    moreover have "(unat x + (2 ^ k - 1)) mod 2 ^ k < 2 ^ k" by simp
    ultimately have r: "unat x \<le> ?u" "?u \<le> unat x + 2 ^ k" by linarith+
    have "unat x \<noteq> ?u" using False z d by metis
    moreover have "4 dvd ?u" using four(1) d by (rule dvd_trans)
    ultimately have "unat x + 4 \<le> ?u" using r(1) assms(4) by (metis dvd_diff_nat dvd_imp_le le_add_diff_inverse nat_add_left_cancel_le zero_less_diff order_le_less)
    then show ?thesis using False d r(2) by simp
  qed
qed

lemma malloc_align_block:
  assumes "heap_live h L" "2 \<le> k" "k < 32" "unat sz + 2 ^ k + 11 \<le> 2 ^ 32" "8 dvd unat hb" "unat hb + heap_end h < 2 ^ 32"
  shows "\<exists>r h'. rt_malloc_align hb h sz (2 ^ k) = Some (r, h') \<and> (case r of None \<Rightarrow> h' = h
    | Some a \<Rightarrow> \<exists>p len. (p, len) \<notin> L \<and> heap_live h' (insert (p, len) L) \<and> p + 4 \<le> a \<and> a + unat sz \<le> p + len
        \<and> 2 ^ k dvd unat hb + a \<and> rt_free_align hb h' (Some a) = rt_free h' (Some p))"
proof -
  let ?al = "2 ^ k :: u32"
  note p2 = unat_pow [OF assms(3)]
  obtain j where j: "k = 2 + j" using assms(2) le_iff_add by blast
  have k31: "(2::nat) ^ k \<le> 2 ^ 31" using assms(3) by (intro power_increasing) simp_all
  have up4: "unat (align_up x 4) = (unat x + 3) div 4 * 4" if "unat x + 4 \<le> 2 ^ 32" for x
    using align_up_pow [of 2 x] that by simp
  have "unat (align_up ?al 4) = unat ?al" using up4 [of ?al] k31 unfolding p2 by (simp add: j power_add)
  then have al: "align_up ?al 4 = ?al" by (rule unsigned_word_eqI)
  define asz where "asz = align_up sz 4 + ?al"
  have sz4: "unat sz \<le> unat (align_up sz 4)" "unat (align_up sz 4) \<le> unat sz + 3"
    using up4 [of sz] assms(4) by simp_all
  have asz: "unat asz = unat (align_up sz 4) + 2 ^ k" "0 < unat asz" "unat asz < 2 ^ 32 - 7"
    using sz4 assms(4) p2 by (simp_all add: asz_def unat_word_ariths)
  obtain r h1 where r: "rt_smem_alloc h (unat asz) = Some (r, h1)" "bytes h1 = bytes h" "case r of None \<Rightarrow> h1 = h
      | Some p \<Rightarrow> \<exists>len. unat asz \<le> len \<and> (p, len) \<notin> L \<and> heap_live h1 (insert (p, len) L)"
    using heap_live_alloc [OF assms(1) asz(2,3)] by blast
  show ?thesis
  proof (cases r)
    case None
    then show ?thesis using r by (simp add: rt_malloc_align_def rt_malloc_def al asz_def)
  next
    case (Some p)
    then obtain len where p: "unat asz \<le> len" "(p, len) \<notin> L" "heap_live h1 (insert (p, len) L)" using r(3) by auto
    have b: "8 dvd p" "p + len \<le> heap_end h" using live_block [OF p(3), of p len] alloc_heap_end [OF r(1)] by simp_all
    define ptr where "ptr = hb + of_nat p"
    have lt: "unat hb + p + 2 ^ k < 2 ^ 32" using b(2) p(1) asz(1) assms(6) by linarith
    then have ptr: "unat ptr = unat hb + p" "4 dvd unat ptr"
      using b(1) assms(5) by (simp_all add: ptr_def unat_word_ariths unsigned_of_nat take_bit_nat_eq_self) (meson dvd_add dvd_trans four_dvd_8)
    define ap where "ap = (if ptr AND (?al - 1) = 0 then ptr + ?al else align_up ptr ?al)"
    have ap: "2 ^ k dvd unat ap" "unat ptr + 4 \<le> unat ap" "unat ap \<le> unat ptr + 2 ^ k"
      using align_above [OF assms(2,3), of ptr] lt ptr by (simp_all add: ap_def)
    define a where "a = unat (ap - hb)"
    have a: "a = unat ap - unat hb" using ap(2) ptr(1) by (simp add: a_def unat_sub word_le_nat_alt)
    have a': "unat hb + a = unat ap" using a ap(2) ptr(1) by simp
    let ?h' = "h1\<lparr>bytes := store_word (bytes h1) (a - 4) ptr\<rparr>"
    have m: "rt_malloc_align hb h sz ?al = Some (Some a, ?h')"
      using r(1) by (simp add: rt_malloc_align_def rt_malloc_def al asz_def [symmetric] Some ptr_def [symmetric] ap_def [symmetric] a_def Let_def)
    have "ptr - hb = of_nat p" by (simp add: ptr_def)
    moreover have "p < 2 ^ 32" using lt by simp
    ultimately have "rt_free_align hb ?h' (Some a) = rt_free ?h' (Some p)"
      by (simp add: rt_free_align_def load_store unsigned_of_nat take_bit_nat_eq_self)
    moreover have "heap_live ?h' (insert (p, len) L)" by (rule heap_live_bytes [OF p(3)])
    moreover have "p + 4 \<le> a" "a + unat sz \<le> p + len" "2 ^ k dvd unat hb + a"
      using a' ap ptr(1) p(1) asz(1) sz4(1) by simp_all
    ultimately show ?thesis using m p(2) by (intro exI [of _ "Some a"] exI [of _ ?h']) auto
  qed
qed

section \<open>What the services promise\<close>

text \<open>The word-wise rt_memcpy copies exactly as the byte loop does whenever the destination is not above an
  overlapping source, whatever the alignment and the length.\<close>

theorem memcpy_by_words:
  assumes "dst \<le> src \<or> src + n \<le> dst"
  shows "rt_memcpy m dst src n = memcpy m dst src n"
  using rt_memcpy_blit [OF assms, of m] memcpy_loop_eq [OF assms, of m] by (simp add: memcpy_def)

theorem memcpy_by_words_witness:
  "bytes_at (snd (rt_memcpy (\<lambda>a. of_nat a) 100 200 23)) 100 23 = map of_nat [200..<223]"
  using memcpy_by_words [of 100 200 23 "\<lambda>a. of_nat a"] by (simp add: memcpy_def memcpy_loop_eq bytes_at_def blit_def upt_rec)

text \<open>So does the word-wise rt_memset, for every destination and length.\<close>

theorem memset_by_words: "rt_memset m s c n = memset m s c n"
  by (simp add: rt_memset_fill memset_def memset_loop_fill)

text \<open>The copy of a string is a new block of the heap that holds the string, and the string it was made from is
  still there.\<close>

theorem strdup_copies:
  assumes "heap_live h L" "cstr (bytes h) s cs" "length cs < 2 ^ 32 - 8"
    and "heap_end h \<le> s \<or> (\<exists>q n. (q, n) \<in> L \<and> q \<le> s \<and> s + length cs < q + n)"
  shows "\<exists>r h'. rt_strdup h s = Some (r, h') \<and> (case r of None \<Rightarrow> h' = h
    | Some p \<Rightarrow> cstr (bytes h') p cs \<and> cstr (bytes h') s cs
        \<and> (\<exists>len. length cs < len \<and> (p, len) \<notin> L \<and> heap_live h' (insert (p, len) L)))"
proof -
  let ?n = "length cs + 1"
  have n: "0 < ?n" "?n < 2 ^ 32 - 7" "add32 (length cs) 1 = ?n" using assms(3) by (simp_all add: add32_eq)
  have l: "strlen (bytes h) s = Some (length cs)" using strlen_cstr [OF assms(2)] assms(3) by simp
  obtain r h1 where r: "rt_smem_alloc h ?n = Some (r, h1)" "bytes h1 = bytes h" "case r of None \<Rightarrow> h1 = h
      | Some p \<Rightarrow> \<exists>len. ?n \<le> len \<and> (p, len) \<notin> L \<and> heap_live h1 (insert (p, len) L)"
    using heap_live_alloc [OF assms(1) n(1,2)] by blast
  show ?thesis
  proof (cases r)
    case None
    then show ?thesis using r l n(3) by (simp add: rt_strdup_def rt_malloc_def)
  next
    case (Some p)
    then obtain len where p: "?n \<le> len" "(p, len) \<notin> L" "heap_live h1 (insert (p, len) L)" using r(3) by auto
    have "p + len \<le> s \<or> s + ?n \<le> p"
      using assms(4)
    proof
      assume "heap_end h \<le> s"
      then show ?thesis using live_block [OF p(3), of p len] alloc_heap_end [OF r(1)] by simp
    next
      assume "\<exists>q n. (q, n) \<in> L \<and> q \<le> s \<and> s + length cs < q + n"
      then obtain q k where q: "(q, k) \<in> L" "q \<le> s" "s + length cs < q + k" by blast
      moreover have "(p, len) \<noteq> (q, k)" using q(1) p(2) by blast
      ultimately have "p + len \<le> q \<or> q + k \<le> p" using heap_live_disjoint [OF p(3), of p len q k] by simp
      then show ?thesis using q(2,3) by linarith
    qed
    then have ap: "p + ?n \<le> s \<or> s + ?n \<le> p" using p(1) by linarith
    let ?h' = "h1\<lparr>bytes := blit (bytes h) p s ?n\<rparr>"
    have d: "rt_strdup h s = Some (Some p, ?h')"
      using r l n(3) Some rt_memcpy_blit [of p s ?n "bytes h"] ap by (auto simp: rt_strdup_def rt_malloc_def)
    have "cstr (bytes ?h') p cs \<and> cstr (bytes ?h') s cs" using assms(2) ap by (auto simp: cstr_iff blit_def)
    moreover have "heap_live ?h' (insert (p, len) L)" by (rule heap_live_bytes [OF p(3)])
    moreover have "length cs < len" using p(1) by simp
    ultimately show ?thesis using d p(2) by (intro exI [of _ "Some p"] exI [of _ ?h']) auto
  qed
qed

lemma demo_heap_end: "heap_end demo_heap = 184"
  using demo_inv by (simp add: hinv_def hrep_def hcore_def blen_def)

theorem strdup_copies_witness:
  "\<exists>r h'. rt_strdup (demo_heap\<lparr>bytes := (\<lambda>a. if a = 300 then 75 else 0)\<rparr>) 300 = Some (r, h')
    \<and> (\<forall>p. r = Some p \<longrightarrow> cstr (bytes h') p [75])"
proof -
  have l: "heap_live (demo_heap\<lparr>bytes := (\<lambda>a. if a = 300 then 75 else 0)\<rparr>) {}" by (rule heap_live_bytes [OF demo_live])
  have "heap_end (demo_heap\<lparr>bytes := (\<lambda>a. if a = 300 then 75 else 0)\<rparr>) \<le> 300" by (simp add: demo_heap_end)
  then show ?thesis using strdup_copies [OF l, of 300 "[75]"] by (fastforce split: option.splits)
qed

text \<open>C34. rt_malloc_align gives an address with the alignment asked for, inside a new block with room for the size
  asked for and for the word before it, and rt_free_align finds the block again and frees it.\<close>

theorem malloc_align_sound:
  assumes "heap_live h L" "2 \<le> k" "k < 32" "unat sz + 2 ^ k + 11 \<le> 2 ^ 32" "8 dvd unat hb" "unat hb + heap_end h < 2 ^ 32"
  shows "\<exists>r h'. rt_malloc_align hb h sz (2 ^ k) = Some (r, h') \<and> (case r of None \<Rightarrow> h' = h
    | Some a \<Rightarrow> \<exists>p len. (p, len) \<notin> L \<and> heap_live h' (insert (p, len) L) \<and> p + 4 \<le> a \<and> a + unat sz \<le> p + len
        \<and> 2 ^ k dvd unat hb + a \<and> heap_live (rt_free_align hb h' (Some a)) L)"
proof -
  obtain r h' where r: "rt_malloc_align hb h sz (2 ^ k) = Some (r, h')" "case r of None \<Rightarrow> h' = h
    | Some a \<Rightarrow> \<exists>p len. (p, len) \<notin> L \<and> heap_live h' (insert (p, len) L) \<and> p + 4 \<le> a \<and> a + unat sz \<le> p + len
        \<and> 2 ^ k dvd unat hb + a \<and> rt_free_align hb h' (Some a) = rt_free h' (Some p)"
    using malloc_align_block [OF assms] by blast
  have "heap_live (rt_free h' (Some p)) L" if "(p, len) \<notin> L" "heap_live h' (insert (p, len) L)" for p len
    using heap_live_free(1) [OF that(2), of p len] that(1) by (simp add: rt_free_def)
  then show ?thesis using r by (intro exI [of _ r] exI [of _ h']) (fastforce split: option.splits)
qed

theorem malloc_align_sound_witness:
  "\<exists>r h'. rt_malloc_align 0x10000038 demo_heap 20 (2 ^ 5) = Some (r, h') \<and> (\<forall>a. r = Some a \<longrightarrow> 32 dvd 0x10000038 + a)"
proof -
  have "8 dvd unat (0x10000038 :: u32)" "unat (0x10000038 :: u32) + heap_end demo_heap < 2 ^ 32" by (simp_all add: demo_heap_end)
  from malloc_align_sound [OF demo_live _ _ _ this, of 5 20] show ?thesis by (fastforce split: option.splits)
qed

end
