(* ===== verification/Device.thy ===== *)
theory Device
  imports MemPool
begin

text \<open>
  The device framework (components/drivers/core/device.c). A device is an object with flags, a count of the
  users that have it open and the functions of its driver. The header of the object lives in the object lists
  (Object), at the address of the device; the other fields are the record below, whose last field stands for the
  struct of the driver that the device is the head of. The functions of the driver are a parameter: what the
  framework needs of them, and what it gives in return, is the locale device_driver.
\<close>

definition RT_DEVICE_FLAG_STANDALONE :: u16 where [rt_const]: "RT_DEVICE_FLAG_STANDALONE = 0x008"
definition RT_DEVICE_FLAG_ACTIVATED :: u16 where [rt_const]: "RT_DEVICE_FLAG_ACTIVATED = 0x010"
definition RT_DEVICE_FLAG_STREAM :: u16 where [rt_const]: "RT_DEVICE_FLAG_STREAM = 0x040"
definition RT_DEVICE_FLAG_INT_RX :: u16 where [rt_const]: "RT_DEVICE_FLAG_INT_RX = 0x100"
definition RT_DEVICE_FLAG_RDWR :: u16 where [rt_const]: "RT_DEVICE_FLAG_RDWR = 0x003"
definition RT_DEVICE_OFLAG_CLOSE :: u16 where [rt_const]: "RT_DEVICE_OFLAG_CLOSE = 0x000"
definition RT_DEVICE_OFLAG_OPEN :: u16 where [rt_const]: "RT_DEVICE_OFLAG_OPEN = 0x008"
definition RT_DEVICE_OFLAG_MASK :: u16 where [rt_const]: "RT_DEVICE_OFLAG_MASK = 0xf0f"

record 'p rt_device =
  dflag :: u16
  open_flag :: u16
  ref_count :: u8
  rx_indicate :: "nat option"
  tx_complete :: "nat option"
  driver :: 'p

text \<open>
  The functions of a driver. A read also gives the bytes it stores in the buffer; a write that waits for the
  hardware may not return.
\<close>

record 'p dev_ops =
  op_init :: "('p rt_device \<Rightarrow> rt_err_t \<times> 'p rt_device) option"
  op_open :: "('p rt_device \<Rightarrow> u16 \<Rightarrow> rt_err_t \<times> 'p rt_device) option"
  op_close :: "('p rt_device \<Rightarrow> rt_err_t \<times> 'p rt_device) option"
  op_read :: "('p rt_device \<Rightarrow> int \<Rightarrow> nat \<Rightarrow> (int \<times> u8 list) \<times> 'p rt_device) option"
  op_write :: "('p rt_device \<Rightarrow> int \<Rightarrow> u8 list \<Rightarrow> (int \<times> 'p rt_device) option) option"
  op_control :: "('p rt_device \<Rightarrow> int \<Rightarrow> nat \<Rightarrow> rt_err_t \<times> 'p rt_device) option"

section \<open>Registration\<close>

definition rt_device_find :: "nat \<Rightarrow> objects \<Rightarrow> nat option option" where
  "rt_device_find name obs = rt_object_find (Some name) RT_Object_Class_Device obs"

definition rt_device_register ::
  "nat option \<Rightarrow> nat \<Rightarrow> u16 \<Rightarrow> objects \<Rightarrow> (nat \<Rightarrow> 'p rt_device) \<Rightarrow> (rt_err_t \<times> objects \<times> (nat \<Rightarrow> 'p rt_device)) option" where
  "rt_device_register dev name flags obs devs =
     (case dev of None \<Rightarrow> Some (- RT_ERROR, obs, devs)
      | Some a \<Rightarrow>
          do { found \<leftarrow> rt_device_find name obs;
               if found \<noteq> None then Some (- RT_ERROR, obs, devs)
               else do { obs1 \<leftarrow> rt_object_init a RT_Object_Class_Device name obs;
                         Some (RT_EOK, obs1, devs(a := (devs a)\<lparr>dflag := flags, ref_count := 0, open_flag := 0\<rparr>)) } })"

definition rt_device_unregister :: "nat \<Rightarrow> objects \<Rightarrow> rt_err_t \<times> objects" where
  "rt_device_unregister a obs = (RT_EOK, rt_object_detach a obs)"

text \<open>
  Devices from the heap; \<open>dsize\<close> is the size of struct rt_device. The list node of a device that is not
  registered is null, so destroying it follows a null pointer.
\<close>

definition rt_device_create :: "u32 \<Rightarrow> u32 \<Rightarrow> objects \<Rightarrow> (nat option \<times> objects) option" where
  "rt_device_create dsize attach_size obs =
     (let sz = RT_ALIGN dsize RT_ALIGN_SIZE + RT_ALIGN attach_size RT_ALIGN_SIZE
      in map_option (\<lambda>(r, h). case r of
             None \<Rightarrow> (None, obs\<lparr>omem := h\<rparr>)
           | Some a \<Rightarrow> (Some a, with_bytes (snd (memset (bytes h) a 0 (unat dsize))) (obs\<lparr>omem := h\<rparr>)))
         (rt_malloc (omem obs) (unat sz)))"

definition rt_device_destroy :: "nat \<Rightarrow> objects \<Rightarrow> objects option" where
  "rt_device_destroy a obs =
     (if \<exists>i < 8. \<exists>xs. olists obs i = Some xs \<and> a \<in> set xs
      then let o1 = rt_object_detach a obs in Some (o1\<lparr>omem := rt_free (omem o1) (Some a)\<rparr>)
      else None)"

section \<open>Use\<close>

text \<open>The initialisation at the beginning of rt_device_open; rt_device_init does the same, but sets the flag only
  when the driver has a function for it.\<close>

definition device_activate :: "'p dev_ops \<Rightarrow> 'p rt_device \<Rightarrow> rt_err_t \<times> 'p rt_device" where
  "device_activate ops d =
     (if dflag d AND RT_DEVICE_FLAG_ACTIVATED = 0 then
        (case op_init ops of
           None \<Rightarrow> (RT_EOK, d\<lparr>dflag := dflag d OR RT_DEVICE_FLAG_ACTIVATED\<rparr>)
         | Some f \<Rightarrow> let (e, d1) = f d
                    in if e \<noteq> RT_EOK then (e, d1) else (RT_EOK, d1\<lparr>dflag := dflag d1 OR RT_DEVICE_FLAG_ACTIVATED\<rparr>))
      else (RT_EOK, d))"

definition rt_device_init :: "'p dev_ops \<Rightarrow> 'p rt_device \<Rightarrow> rt_err_t \<times> 'p rt_device" where
  "rt_device_init ops d = (if op_init ops \<noteq> None then device_activate ops d else (RT_EOK, d))"

definition rt_device_open :: "'p dev_ops \<Rightarrow> u16 \<Rightarrow> 'p rt_device \<Rightarrow> rt_err_t \<times> 'p rt_device" where
  "rt_device_open ops oflag d =
     (let (r, d1) = device_activate ops d in
      if r \<noteq> RT_EOK then (r, d1)
      else if dflag d1 AND RT_DEVICE_FLAG_STANDALONE \<noteq> 0 \<and> open_flag d1 AND RT_DEVICE_OFLAG_OPEN \<noteq> 0 then (- RT_EBUSY, d1)
      else let (r2, d2) =
             (if open_flag d1 AND RT_DEVICE_OFLAG_OPEN = 0
                 \<or> open_flag d1 AND RT_DEVICE_OFLAG_MASK \<noteq> oflag AND RT_DEVICE_OFLAG_MASK
              then (case op_open ops of Some f \<Rightarrow> f d1 oflag
                    | None \<Rightarrow> (RT_EOK, d1\<lparr>open_flag := oflag AND RT_DEVICE_OFLAG_MASK\<rparr>))
              else (RT_EOK, d1))
        in if r2 = RT_EOK \<or> r2 = - RT_ENOSYS
           then (r2, d2\<lparr>open_flag := open_flag d2 OR RT_DEVICE_OFLAG_OPEN, ref_count := ref_count d2 + 1\<rparr>)
           else (r2, d2))"

definition rt_device_close :: "'p dev_ops \<Rightarrow> 'p rt_device \<Rightarrow> rt_err_t \<times> 'p rt_device" where
  "rt_device_close ops d =
     (if ref_count d = 0 then (- RT_ERROR, d)
      else let d1 = d\<lparr>ref_count := ref_count d - 1\<rparr>
        in if ref_count d1 \<noteq> 0 then (RT_EOK, d1)
           else let (r, d2) = (case op_close ops of Some f \<Rightarrow> f d1 | None \<Rightarrow> (RT_EOK, d1))
             in if r = RT_EOK \<or> r = - RT_ENOSYS then (r, d2\<lparr>open_flag := RT_DEVICE_OFLAG_CLOSE\<rparr>) else (r, d2))"

definition rt_device_read :: "'p dev_ops \<Rightarrow> int \<Rightarrow> nat \<Rightarrow> 'p rt_device \<Rightarrow> kernel \<Rightarrow> (int \<times> u8 list) \<times> 'p rt_device \<times> kernel" where
  "rt_device_read ops pos n d k =
     (if ref_count d = 0 then ((0, []), d, rt_set_errno (- RT_ERROR) k)
      else case op_read ops of
        Some f \<Rightarrow> let (r, d1) = f d pos n in (r, d1, k)
      | None \<Rightarrow> ((0, []), d, rt_set_errno (- RT_ENOSYS) k))"

definition rt_device_write :: "'p dev_ops \<Rightarrow> int \<Rightarrow> u8 list \<Rightarrow> 'p rt_device \<Rightarrow> kernel \<Rightarrow> (int \<times> 'p rt_device \<times> kernel) option" where
  "rt_device_write ops pos xs d k =
     (if ref_count d = 0 then Some (0, d, rt_set_errno (- RT_ERROR) k)
      else case op_write ops of
        Some f \<Rightarrow> map_option (\<lambda>(r, d1). (r, d1, k)) (f d pos xs)
      | None \<Rightarrow> Some (0, d, rt_set_errno (- RT_ENOSYS) k))"

definition rt_device_control :: "'p dev_ops \<Rightarrow> int \<Rightarrow> nat \<Rightarrow> 'p rt_device \<Rightarrow> rt_err_t \<times> 'p rt_device" where
  "rt_device_control ops cmd arg d = (case op_control ops of Some f \<Rightarrow> f d cmd arg | None \<Rightarrow> (- RT_ENOSYS, d))"

definition rt_device_set_rx_indicate :: "nat option \<Rightarrow> 'p rt_device \<Rightarrow> rt_err_t \<times> 'p rt_device" where
  "rt_device_set_rx_indicate f d = (RT_EOK, d\<lparr>rx_indicate := f\<rparr>)"

definition rt_device_set_tx_complete :: "nat option \<Rightarrow> 'p rt_device \<Rightarrow> rt_err_t \<times> 'p rt_device" where
  "rt_device_set_tx_complete f d = (RT_EOK, d\<lparr>tx_complete := f\<rparr>)"

section \<open>The interface between the framework and a driver\<close>

text \<open>
  A driver has a state before it is initialised (\<open>fresh\<close>), one in which it is initialised but not in use (\<open>ready\<close>)
  and one in which it is in use (\<open>opened\<close>). Its functions leave the header of the device alone and move between
  these states as their results say; \<open>flags\<close> is what the device was registered with.
\<close>

definition opened_by :: "rt_err_t \<Rightarrow> bool" where
  "opened_by e \<longleftrightarrow> e = RT_EOK \<or> e = - RT_ENOSYS"

definition header_kept :: "'p rt_device \<Rightarrow> 'p rt_device \<Rightarrow> bool" where
  "header_kept d d' \<longleftrightarrow> d' = d\<lparr>driver := driver d'\<rparr>"

definition flags_ok :: "u16 \<Rightarrow> 'p rt_device \<Rightarrow> bool" where
  "flags_ok flags d \<longleftrightarrow> dflag d OR RT_DEVICE_FLAG_ACTIVATED = flags OR RT_DEVICE_FLAG_ACTIVATED"

lemma header_keptD:
  "header_kept d d' \<Longrightarrow> dflag d' = dflag d" "header_kept d d' \<Longrightarrow> open_flag d' = open_flag d"
  "header_kept d d' \<Longrightarrow> ref_count d' = ref_count d" "header_kept d d' \<Longrightarrow> rx_indicate d' = rx_indicate d"
  unfolding header_kept_def by (metis rt_device.select_convs(1-4) rt_device.surjective rt_device.update_convs(6))+

lemma header_keptI [simp]: "header_kept d (d\<lparr>driver := p\<rparr>)" "header_kept d d"
  by (simp_all add: header_kept_def)

lemma flags_okI [simp]:
  "flags_ok flags d \<Longrightarrow> header_kept d d' \<Longrightarrow> flags_ok flags d'"
  "flags_ok flags (d\<lparr>open_flag := x\<rparr>) = flags_ok flags d" "flags_ok flags (d\<lparr>ref_count := y\<rparr>) = flags_ok flags d"
  "flags_ok flags (d\<lparr>dflag := dflag d OR RT_DEVICE_FLAG_ACTIVATED\<rparr>) = flags_ok flags d"
  by (simp_all add: flags_ok_def header_keptD word_bw_assocs)

lemma set_bits [simp]:
  "RT_DEVICE_OFLAG_OPEN \<noteq> 0" "RT_DEVICE_FLAG_ACTIVATED \<noteq> 0"
  "(w OR RT_DEVICE_FLAG_ACTIVATED) AND RT_DEVICE_FLAG_ACTIVATED \<noteq> 0" "(w OR RT_DEVICE_OFLAG_OPEN) AND RT_DEVICE_OFLAG_OPEN \<noteq> 0"
  by (simp_all add: rt_const word_ao_dist)

locale device_driver =
  fixes ops :: "'p dev_ops" and flags :: u16 and fresh ready opened :: "'p \<Rightarrow> bool"
  assumes init_law: "op_init ops = Some f \<Longrightarrow> fresh (driver d) \<Longrightarrow> f d = (e, d')
      \<Longrightarrow> header_kept d d' \<and> (if e = RT_EOK then ready (driver d') else fresh (driver d'))"
    and no_init: "op_init ops = None \<Longrightarrow> fresh p \<Longrightarrow> ready p"
    and open_law: "op_open ops = Some g \<Longrightarrow> flags_ok flags d \<Longrightarrow> ready (driver d) \<or> opened (driver d) \<Longrightarrow> g d oflag = (e, d')
      \<Longrightarrow> header_kept d d' \<and> (if opened_by e then opened (driver d') else driver d' = driver d)"
    and no_open: "op_open ops = None \<Longrightarrow> ready p \<Longrightarrow> opened p"
    and close_law: "op_close ops = Some f \<Longrightarrow> flags_ok flags d \<Longrightarrow> opened (driver d) \<Longrightarrow> f d = (e, d')
      \<Longrightarrow> header_kept d d' \<and> (if opened_by e then ready (driver d') else opened (driver d'))"
    and no_close: "op_close ops = None \<Longrightarrow> opened p \<Longrightarrow> ready p"
    and read_law: "op_read ops = Some h \<Longrightarrow> opened (driver d) \<Longrightarrow> h d pos n = (r, d') \<Longrightarrow> header_kept d d' \<and> opened (driver d')"
    and write_law: "op_write ops = Some u \<Longrightarrow> opened (driver d) \<Longrightarrow> u d pos xs = Some (w, d') \<Longrightarrow> header_kept d d' \<and> opened (driver d')"
begin

definition dev_inv :: "'p rt_device \<Rightarrow> bool" where
  "dev_inv d \<longleftrightarrow> flags_ok flags d \<and>
     (if dflag d AND RT_DEVICE_FLAG_ACTIVATED = 0 then fresh (driver d) \<and> open_flag d = 0 \<and> ref_count d = 0
      else if open_flag d AND RT_DEVICE_OFLAG_OPEN = 0 then ready (driver d) \<and> ref_count d = 0
      else opened (driver d))"

lemma activate_inv:
  assumes "dev_inv d" "device_activate ops d = (e, d1)"
  shows "dev_inv d1" "ref_count d1 = ref_count d" "open_flag d1 = open_flag d" "rx_indicate d1 = rx_indicate d"
    "e = RT_EOK \<longrightarrow> dflag d1 AND RT_DEVICE_FLAG_ACTIVATED \<noteq> 0"
proof -
  have "dev_inv d1 \<and> ref_count d1 = ref_count d \<and> open_flag d1 = open_flag d \<and> rx_indicate d1 = rx_indicate d
    \<and> (e = RT_EOK \<longrightarrow> dflag d1 AND RT_DEVICE_FLAG_ACTIVATED \<noteq> 0)"
  proof (cases "dflag d AND RT_DEVICE_FLAG_ACTIVATED = 0")
    case False
    then show ?thesis using assms by (simp add: device_activate_def)
  next
    case True
    then have f: "flags_ok flags d" "fresh (driver d)" "open_flag d = 0" "ref_count d = 0" using assms(1) by (simp_all add: dev_inv_def)
    show ?thesis
    proof (cases "op_init ops")
      case None
      then show ?thesis using True f assms(2) no_init [OF None f(2)] by (auto simp: device_activate_def dev_inv_def)
    next
      case (Some g)
      obtain e1 d' where g: "g d = (e1, d')" by force
      note l = init_law [OF Some f(2) g]
      have h: "header_kept d d'" using l by simp
      show ?thesis using True f assms(2) l g Some header_keptD [OF h]
        by (auto simp: device_activate_def dev_inv_def flags_ok_def word_bw_assocs split: if_splits)
    qed
  qed
  then show "dev_inv d1" "ref_count d1 = ref_count d" "open_flag d1 = open_flag d" "rx_indicate d1 = rx_indicate d"
    "e = RT_EOK \<longrightarrow> dflag d1 AND RT_DEVICE_FLAG_ACTIVATED \<noteq> 0" by simp_all
qed

lemma activated_cases:
  assumes "dev_inv d" "dflag d AND RT_DEVICE_FLAG_ACTIVATED \<noteq> 0"
  shows "if open_flag d AND RT_DEVICE_OFLAG_OPEN = 0 then ready (driver d) \<and> ref_count d = 0 else opened (driver d)"
  using assms by (simp add: dev_inv_def split: if_splits)

lemma open_inv:
  assumes "dev_inv d" "rt_device_open ops oflag d = (e, d')"
  shows "dev_inv d' \<and> rx_indicate d' = rx_indicate d
    \<and> (opened_by e \<and> ref_count d' = ref_count d + 1 \<or> e \<noteq> RT_EOK \<and> ref_count d' = ref_count d)"
proof -
  obtain r d1 where a: "device_activate ops d = (r, d1)" by force
  note i = activate_inv [OF assms(1) a]
  consider (no) "r \<noteq> RT_EOK"
    | (busy) "r = RT_EOK" "dflag d1 AND RT_DEVICE_FLAG_STANDALONE \<noteq> 0 \<and> open_flag d1 AND RT_DEVICE_OFLAG_OPEN \<noteq> 0"
    | (go) "r = RT_EOK" "\<not> (dflag d1 AND RT_DEVICE_FLAG_STANDALONE \<noteq> 0 \<and> open_flag d1 AND RT_DEVICE_OFLAG_OPEN \<noteq> 0)" by blast
  then show ?thesis
  proof cases
    case no
    then show ?thesis using i assms(2) a by (simp add: rt_device_open_def)
  next
    case busy
    then show ?thesis using i assms(2) a by (auto simp: rt_device_open_def rt_const)
  next
    case go
    have act: "dflag d1 AND RT_DEVICE_FLAG_ACTIVATED \<noteq> 0" using i(5) go(1) by simp
    have f1: "flags_ok flags d1" using i(1) by (simp add: dev_inv_def)
    have ro: "ready (driver d1) \<or> opened (driver d1)" using activated_cases [OF i(1) act] by (simp split: if_splits)
    obtain r2 d2 where 2: "(if open_flag d1 AND RT_DEVICE_OFLAG_OPEN = 0
        \<or> open_flag d1 AND RT_DEVICE_OFLAG_MASK \<noteq> oflag AND RT_DEVICE_OFLAG_MASK
        then (case op_open ops of Some f \<Rightarrow> f d1 oflag | None \<Rightarrow> (RT_EOK, d1\<lparr>open_flag := oflag AND RT_DEVICE_OFLAG_MASK\<rparr>))
        else (RT_EOK, d1)) = (r2, d2)" by force
    have e: "(e, d') = (if opened_by r2
        then (r2, d2\<lparr>open_flag := open_flag d2 OR RT_DEVICE_OFLAG_OPEN, ref_count := ref_count d2 + 1\<rparr>) else (r2, d2))"
      using assms(2) a go 2 by (simp add: rt_device_open_def opened_by_def)
    have d2: "flags_ok flags d2" "dflag d2 = dflag d1" "ref_count d2 = ref_count d1" "rx_indicate d2 = rx_indicate d1"
      "if opened_by r2 then opened (driver d2) else driver d2 = driver d1 \<and> open_flag d2 = open_flag d1"
    proof -
      have "flags_ok flags d2 \<and> dflag d2 = dflag d1 \<and> ref_count d2 = ref_count d1 \<and> rx_indicate d2 = rx_indicate d1
        \<and> (if opened_by r2 then opened (driver d2) else driver d2 = driver d1 \<and> open_flag d2 = open_flag d1)"
      proof (cases "open_flag d1 AND RT_DEVICE_OFLAG_OPEN = 0 \<or> open_flag d1 AND RT_DEVICE_OFLAG_MASK \<noteq> oflag AND RT_DEVICE_OFLAG_MASK")
        case False
        then have "opened (driver d1)" using activated_cases [OF i(1) act] by simp
        then show ?thesis using False 2 f1 by (auto simp: opened_by_def)
      next
        case True
        show ?thesis
        proof (cases "op_open ops")
          case None
          then have d2: "d2 = d1\<lparr>open_flag := oflag AND RT_DEVICE_OFLAG_MASK\<rparr>" "r2 = RT_EOK" using 2 True by simp_all
          have "opened (driver d1)" using no_open [OF None] ro by blast
          then show ?thesis using f1 by (simp add: d2 opened_by_def)
        next
          case (Some g)
          then have g: "g d1 oflag = (r2, d2)" using 2 True by simp
          note l = open_law [OF Some f1 ro g]
          then show ?thesis using header_keptD [of d1 d2] f1 by auto
        qed
      qed
      then show "flags_ok flags d2" "dflag d2 = dflag d1" "ref_count d2 = ref_count d1" "rx_indicate d2 = rx_indicate d1"
        "if opened_by r2 then opened (driver d2) else driver d2 = driver d1 \<and> open_flag d2 = open_flag d1" by simp_all
    qed
    show ?thesis
    proof (cases "opened_by r2")
      case True
      then show ?thesis using e d2 act i(2,4) by (simp add: dev_inv_def)
    next
      case False
      then have "dev_inv d2 = dev_inv d1" using d2 f1 by (simp add: dev_inv_def)
      then show ?thesis using False e d2 i by (auto simp: opened_by_def)
    qed
  qed
qed

lemma close_inv:
  assumes "dev_inv d" "rt_device_close ops d = (e, d')"
  shows "dev_inv d' \<and> rx_indicate d' = rx_indicate d \<and> ref_count d' = (if ref_count d = 0 then 0 else ref_count d - 1)
    \<and> (ref_count d = 0 \<longrightarrow> e = - RT_ERROR \<and> d' = d) \<and> (1 < ref_count d \<longrightarrow> e = RT_EOK)"
proof (cases "ref_count d = 0")
  case True
  then show ?thesis using assms by (simp add: rt_device_close_def)
next
  case nz: False
  have o: "opened (driver d)" "open_flag d AND RT_DEVICE_OFLAG_OPEN \<noteq> 0" "dflag d AND RT_DEVICE_FLAG_ACTIVATED \<noteq> 0"
    "flags_ok flags d" using assms(1) nz by (auto simp: dev_inv_def split: if_splits)
  define d1 where "d1 = d\<lparr>ref_count := ref_count d - 1\<rparr>"
  have d1: "driver d1 = driver d" "open_flag d1 = open_flag d" "dflag d1 = dflag d" "ref_count d1 = ref_count d - 1"
    "rx_indicate d1 = rx_indicate d" "flags_ok flags d1" using o by (simp_all add: d1_def)
  show ?thesis
  proof (cases "ref_count d1 = 0")
    case False
    then have "e = RT_EOK" "d' = d1" using assms(2) nz by (simp_all add: rt_device_close_def d1_def)
    then show ?thesis using o d1 nz by (simp add: dev_inv_def)
  next
    case True
    then have one: "\<not> 1 < ref_count d" using d1(4) by simp
    obtain r d2 where 2: "(case op_close ops of Some f \<Rightarrow> f d1 | None \<Rightarrow> (RT_EOK, d1)) = (r, d2)" by force
    have e: "(e, d') = (if opened_by r then (r, d2\<lparr>open_flag := RT_DEVICE_OFLAG_CLOSE\<rparr>) else (r, d2))"
      using assms(2) nz True 2 unfolding rt_device_close_def d1_def by (simp add: opened_by_def Let_def split: if_splits)
    have h: "header_kept d1 d2 \<and> (if opened_by r then ready (driver d2) else opened (driver d2))"
    proof (cases "op_close ops")
      case None
      then show ?thesis using 2 no_close o(1) d1(1) by (auto simp: opened_by_def)
    next
      case (Some f)
      then show ?thesis using 2 close_law [OF Some d1(6) _, of r d2] o(1) d1(1) by simp
    qed
    then show ?thesis using e o d1 header_keptD [of d1 d2] flags_okI(1) [OF d1(6), of d2] True nz one
      by (auto simp: dev_inv_def rt_const split: if_splits)
  qed
qed

lemma in_use: "dev_inv d \<Longrightarrow> ref_count d \<noteq> 0 \<Longrightarrow> opened (driver d) \<and> flags_ok flags d \<and> dflag d AND RT_DEVICE_FLAG_ACTIVATED \<noteq> 0"
  by (auto simp: dev_inv_def split: if_splits)

lemma driver_step:
  assumes "dev_inv d" "header_kept d d'" "ref_count d \<noteq> 0" "opened (driver d')"
  shows "dev_inv d' \<and> ref_count d' = ref_count d \<and> rx_indicate d' = rx_indicate d"
  using assms header_keptD [OF assms(2)] flags_okI(1) [of flags d d'] by (auto simp: dev_inv_def split: if_splits)

lemma read_inv:
  assumes "dev_inv d" "rt_device_read ops pos n d k = (r, d', k')"
  shows "dev_inv d' \<and> ref_count d' = ref_count d \<and> rx_indicate d' = rx_indicate d"
proof (cases "ref_count d = 0 \<or> op_read ops = None")
  case True
  then show ?thesis using assms by (auto simp: rt_device_read_def split: if_splits)
next
  case False
  then obtain h where h: "op_read ops = Some h" by blast
  obtain r1 d1 where 1: "h d pos n = (r1, d1)" by (metis surj_pair)
  have "d' = d1" using assms(2) False h 1 by (simp add: rt_device_read_def)
  then show ?thesis
    using read_law [OF h _ 1] in_use [OF assms(1)] driver_step [OF assms(1), of d1] False by simp
qed

lemma write_inv:
  assumes "dev_inv d" "rt_device_write ops pos xs d k = Some (r, d', k')"
  shows "dev_inv d' \<and> ref_count d' = ref_count d \<and> rx_indicate d' = rx_indicate d"
proof (cases "ref_count d = 0 \<or> op_write ops = None")
  case True
  then show ?thesis using assms by (auto simp: rt_device_write_def split: if_splits)
next
  case False
  then obtain h where h: "op_write ops = Some h" by blast
  obtain r1 d1 where 1: "h d pos xs = Some (r1, d1)" "d' = d1" using assms(2) False h by (auto simp: rt_device_write_def)
  then show ?thesis
    using write_law [OF h _ 1(1)] in_use [OF assms(1)] driver_step [OF assms(1), of d1] False by simp
qed

text \<open>A device that is unused can be neither read nor written: the driver is not called.\<close>

lemma closed_silent:
  assumes "ref_count d = 0"
  shows "rt_device_read ops pos n d k = ((0, []), d, rt_set_errno (- RT_ERROR) k)"
    "rt_device_write ops pos xs d k = Some (0, d, rt_set_errno (- RT_ERROR) k)"
    "rt_device_close ops d = (- RT_ERROR, d)"
  using assms by (simp_all add: rt_device_read_def rt_device_write_def rt_device_close_def)

end

section \<open>Registration\<close>

definition demo_device :: "unit rt_device" where
  "demo_device = \<lparr>dflag = 0, open_flag = 0, ref_count = 0, rx_indicate = None, tx_complete = None, driver = ()\<rparr>"

text \<open>A device registered under a new name is found under it from then on, and under no other name than before,
  until it is unregistered, which restores the directory; while it is registered, a second registration under
  its name fails and changes nothing. As for all objects, a name counts up to its seventh character.\<close>

theorem device_registration:
  assumes "dir_ok obs" "olists obs 5 = Some xs" "\<forall>b \<in> members obs. apart b a"
    and "cstr (obytes obs) name cs" "length cs < RT_NAME_MAX" "name + length cs < a \<or> a + 20 \<le> name"
    and "rt_device_find name obs = Some None"
  shows "\<exists>obs'. rt_device_register (Some a) name flags obs devs
      = Some (RT_EOK, obs', devs(a := (devs a)\<lparr>dflag := flags, ref_count := 0, open_flag := 0\<rparr>))
    \<and> dir_ok obs' \<and> dir (snd (rt_device_unregister a obs')) = dir obs
    \<and> (\<forall>b ds. cstr (obytes obs) b ds \<longrightarrow> b + length ds < a \<or> a + 20 \<le> b \<longrightarrow>
         rt_device_find b obs' = (if take 7 ds = cs then Some (Some a) else rt_device_find b obs)
         \<and> (take 7 ds = cs \<longrightarrow> (\<forall>c f devs'. rt_device_register (Some c) b f obs' devs' = Some (- RT_ERROR, obs', devs'))))"
proof -
  have i: "rt_object_get_information RT_Object_Class_Device = Some 5" by code_simp
  obtain obs' where o: "rt_object_init a RT_Object_Class_Device name obs = Some obs'" "dir_ok obs'"
      "dir (rt_object_detach a obs') = dir obs" "\<forall>b ds. cstr (obytes obs) b ds \<longrightarrow> b + length ds < a \<or> a + 20 \<le> b \<longrightarrow>
         rt_object_find (Some b) RT_Object_Class_Device obs'
         = (if take 7 ds = cs then Some (Some a) else rt_object_find (Some b) RT_Object_Class_Device obs)"
    using directory_laws [OF assms(1) i assms(2-6)] by blast
  have "rt_device_register (Some a) name flags obs devs
      = Some (RT_EOK, obs', devs(a := (devs a)\<lparr>dflag := flags, ref_count := 0, open_flag := 0\<rparr>))"
    using assms(7) o(1) by (simp add: rt_device_register_def)
  moreover have f: "rt_device_find b obs' = (if take 7 ds = cs then Some (Some a) else rt_device_find b obs)"
    if "cstr (obytes obs) b ds" "b + length ds < a \<or> a + 20 \<le> b" for b ds
    using o(4) that unfolding rt_device_find_def by blast
  moreover have "rt_device_register (Some c) b f obs' devs' = Some (- RT_ERROR, obs', devs')"
    if "cstr (obytes obs) b ds" "b + length ds < a \<or> a + 20 \<le> b" "take 7 ds = cs" for b ds c f devs'
    using f [OF that(1,2)] that(3) by (simp add: rt_device_register_def)
  ultimately show ?thesis using o(2,3) unfolding rt_device_unregister_def snd_conv by blast
qed

theorem device_registration_witness:
  "\<exists>obs'. rt_device_register (Some 1100) 2100 RT_DEVICE_FLAG_RDWR demo_objects (\<lambda>_. demo_device)
      = Some (RT_EOK, obs', (\<lambda>_. demo_device)(1100 := demo_device\<lparr>dflag := RT_DEVICE_FLAG_RDWR, ref_count := 0, open_flag := 0\<rparr>))
    \<and> dir (snd (rt_device_unregister 1100 obs')) = dir demo_objects"
proof -
  have i: "rt_object_get_information RT_Object_Class_Device = Some 5" by code_simp
  have l: "olists demo_objects 5 = Some []" by (simp add: demo_olists)
  have "\<forall>a \<in> members demo_objects. apart a 1100" by (simp add: demo_members apart_def)
  moreover have "length [107, 101, 121, 95, 115, 99, 97 :: u8] < RT_NAME_MAX" by (simp add: rt_const)
  moreover have "rt_device_find 2100 demo_objects = Some None" using i l by (simp add: rt_device_find_def rt_object_find_def)
  ultimately show ?thesis
    using device_registration [OF demo_objects_ok l _ demo_names(4), of 1100 RT_DEVICE_FLAG_RDWR "\<lambda>_. demo_device"] by fastforce
qed

end
