(* ===== verification/Board.thy ===== *)
theory Board
  imports ThreadEnd
begin

text \<open>
  The parts of bsp/drivers/board.c with state: the tick interrupt and the choice of a power mode. What the
  functions of the chip library do to the processor is the value they are called with.
\<close>

datatype power_mode_t = POWER_MODE_SLEEP | POWER_MODE_DEEP_SLEEP | POWER_MODE_POWER_DOWN | POWER_MODE_DEEP_POWERDOWN

text \<open>\<open>Chip_PMU_SleepState\<close> and the three like it.\<close>

datatype pmu_call = PMU_Sleep | PMU_DeepSleep | PMU_PowerDown | PMU_DeepPowerDown

definition board_enter_sleep :: pmu_call where "board_enter_sleep = PMU_Sleep"
definition board_enter_deep_sleep :: pmu_call where "board_enter_deep_sleep = PMU_DeepSleep"
definition board_enter_power_down :: pmu_call where "board_enter_power_down = PMU_PowerDown"
definition board_enter_deep_powerdown :: pmu_call where "board_enter_deep_powerdown = PMU_DeepPowerDown"

text \<open>A value outside the enumeration is \<open>None\<close>.\<close>

fun board_enter_power_mode :: "power_mode_t option \<Rightarrow> pmu_call" where
  "board_enter_power_mode (Some POWER_MODE_SLEEP) = board_enter_sleep"
| "board_enter_power_mode (Some POWER_MODE_DEEP_SLEEP) = board_enter_deep_sleep"
| "board_enter_power_mode (Some POWER_MODE_POWER_DOWN) = board_enter_power_down"
| "board_enter_power_mode (Some POWER_MODE_DEEP_POWERDOWN) = board_enter_deep_powerdown"
| "board_enter_power_mode None = board_enter_deep_sleep"

definition SysTick_Handler :: "callbacks \<Rightarrow> kernel \<Rightarrow> kernel option" where
  "SysTick_Handler cb k = map_option rt_interrupt_leave (rt_tick_increase cb (rt_interrupt_enter k))"

definition Error_Handler :: "kernel \<Rightarrow> kernel" where
  "Error_Handler k = rt_enter_critical k"

text \<open>Interrupt nesting is no part of the invariant.\<close>

lemma interrupt_nest_kernel_ok [simp]:
  "kernel_ok (rt_interrupt_enter k) = kernel_ok k" "kernel_ok (rt_interrupt_leave k) = kernel_ok k"
  by (simp_all add: kernel_ok_def sched_ok_def timers_ok_def timer_set_def tstate_def is_suspended_def
      rt_interrupt_enter_def rt_interrupt_leave_def)

end
