(* ===== verification/Usart.thy ===== *)
theory Usart
  imports Device Board RingBuffer
begin

text \<open>
  The UART driver of the board (bsp/drivers/usart.c). The first half is the command line: characters from the
  receive interrupt are edited into a line, and a finished line is compared with the commands. The second is the
  driver proper: the functions it gives to the device framework, its interrupt handler and its ring buffer of
  received bytes. Registers are inputs: the handler gets the status and the byte it reads, and the readings of
  the status while a byte is sent are the sequence \<open>status\<close>. Pins and baud rate are set up through the chip
  library; the field \<open>set_up\<close> says that it was done.
\<close>

section \<open>The command line\<close>

text \<open>What the code does outside its own state: a call of rt_kprintf with the text of its argument, a call of the
  chip library, a call of the callback of the device.\<close>

datatype uart_event = Printf string "u8 list" | Enter pmu_call | Rx_indicate nat nat

record uart_sys =
  umem :: mem
  uart_cmd_pos :: nat
  uart_log :: "uart_event list"
  ukern :: kernel

definition UART_CMD_BUFFER_SIZE :: nat where [rt_const]: "UART_CMD_BUFFER_SIZE = 64"

definition crlf :: string where "crlf = [CHR 0x0D, CHR 0x0A]"

definition uart_event :: "uart_event \<Rightarrow> uart_sys \<Rightarrow> uart_sys" where
  "uart_event e s = s\<lparr>uart_log := uart_log s @ [e]\<rparr>"

text \<open>rt_thread_mdelay in an interrupt: the call goes on after rt_schedule without waiting.\<close>

definition isr_mdelay :: "int \<Rightarrow> kernel \<Rightarrow> kernel" where
  "isr_mdelay ms k = (case rt_thread_mdelay ms k of
     (Waits, k1) \<Rightarrow> snd (rt_thread_sleep_resume (the (rt_thread_self k)) k1)
   | (Done e, k1) \<Rightarrow> k1)"

definition power_command :: "string \<Rightarrow> pmu_call \<Rightarrow> uart_sys \<Rightarrow> uart_sys" where
  "power_command msg mode s =
     (let s1 = uart_event (Printf msg []) s;
          s2 = s1\<lparr>ukern := isr_mdelay 100 (ukern s1)\<rparr>
      in uart_event (Enter mode) s2)"

definition help_text :: "string list" where
  "help_text = map (\<lambda>t. t @ crlf) [''Available commands:'', ''  sleep          - Enter sleep mode'',
     ''  deep_sleep     - Enter deep sleep mode'', ''  power_down     - Enter power down mode'',
     ''  deep_powerdown - Enter deep power down mode'', ''  help           - Show this help message'']"

text \<open>\<open>lit w\<close> is the address of the string literal \<open>w\<close>.\<close>

definition uart_process_command :: "(string \<Rightarrow> nat) \<Rightarrow> nat \<Rightarrow> uart_sys \<Rightarrow> uart_sys option" where
  "uart_process_command lit cmd s =
     do { n \<leftarrow> strlen (umem s) cmd;
          let text = bytes_at (umem s) cmd n;
          let same = (\<lambda>w l. strncmp (umem s) cmd (lit w) l = 0);
          let s0 = uart_event (Printf (crlf @ ''[CMD] %s'' @ crlf) text) s;
          Some (if same ''sleep'' 5 then power_command (''Entering sleep mode...'' @ crlf) board_enter_sleep s0
                else if same ''deep_sleep'' 10 then power_command (''Entering deep sleep mode...'' @ crlf) board_enter_deep_sleep s0
                else if same ''power_down'' 10 then power_command (''Entering power down mode...'' @ crlf) board_enter_power_down s0
                else if same ''deep_powerdown'' 14
                  then power_command (''Entering deep power down mode...'' @ crlf) board_enter_deep_powerdown s0
                else if same ''help'' 4 then fold (\<lambda>t. uart_event (Printf t [])) help_text s0
                else if n > 0 then uart_event (Printf (''Unknown command: %s'' @ crlf) text) s0
                else s0) }"

text \<open>\<open>cb\<close> is the address of uart_cmd_buffer.\<close>

definition uart_handle_char :: "(string \<Rightarrow> nat) \<Rightarrow> nat \<Rightarrow> u8 \<Rightarrow> uart_sys \<Rightarrow> uart_sys option" where
  "uart_handle_char lit cb ch s =
     (if ch = 13 \<or> ch = 10 then
        (if uart_cmd_pos s > 0
         then map_option (\<lambda>s1. s1\<lparr>uart_cmd_pos := 0\<rparr>)
                (uart_process_command lit cb (s\<lparr>umem := (umem s)(cb + uart_cmd_pos s := 0)\<rparr>))
         else Some s)
      else if ch = 8 \<or> ch = 0x7F then
        Some (if uart_cmd_pos s > 0
              then uart_event (Printf [CHR 0x08, CHR 0x20, CHR 0x08] []) (s\<lparr>uart_cmd_pos := uart_cmd_pos s - 1\<rparr>) else s)
      else if uart_cmd_pos s < UART_CMD_BUFFER_SIZE - 1 then
        Some (uart_event (Printf ''%c'' [ch])
               (s\<lparr>umem := (umem s)(cb + uart_cmd_pos s := ch), uart_cmd_pos := uart_cmd_pos s + 1\<rparr>))
      else Some s)"

section \<open>The driver\<close>

record lpc8xx_uart =
  rx_rb :: rt_ringbuffer
  irq_on :: bool
  set_up :: bool
  tx :: "u8 list"
  polls :: nat

definition UART_STAT_RXRDY :: u32 where [rt_const]: "UART_STAT_RXRDY = 1"
definition UART_STAT_TXRDY :: u32 where [rt_const]: "UART_STAT_TXRDY = 4"
definition UART_RX_BUFSZ :: nat where [rt_const]: "UART_RX_BUFSZ = 8"

definition upd_uart :: "(lpc8xx_uart \<Rightarrow> lpc8xx_uart) \<Rightarrow> lpc8xx_uart rt_device \<Rightarrow> lpc8xx_uart rt_device" where
  "upd_uart f d = d\<lparr>driver := f (driver d)\<rparr>"

definition uart_irq_handler ::
  "(string \<Rightarrow> nat) \<Rightarrow> nat \<Rightarrow> nat \<Rightarrow> u32 \<Rightarrow> u8 \<Rightarrow> lpc8xx_uart rt_device \<Rightarrow> uart_sys \<Rightarrow> (lpc8xx_uart rt_device \<times> uart_sys) option" where
  "uart_irq_handler lit cb dev status ch d s =
     do { let s1 = s\<lparr>ukern := rt_interrupt_enter (ukern s)\<rparr>;
          (d2, s2) \<leftarrow> (if status AND UART_STAT_RXRDY \<noteq> 0 then
              do { let d1 = upd_uart (\<lambda>u. u\<lparr>rx_rb := snd (rt_ringbuffer_putchar_force (rx_rb u) ch)\<rparr>) d;
                   s' \<leftarrow> uart_handle_char lit cb ch s1;
                   Some (d1, case rx_indicate d1 of None \<Rightarrow> s'
                     | Some f \<Rightarrow> uart_event (Rx_indicate dev (rt_ringbuffer_data_len (rx_rb (driver d1)))) s') }
            else Some (d, s1));
          Some (d2, s2\<lparr>ukern := rt_interrupt_leave (ukern s2)\<rparr>) }"

definition rt_uart_init :: "lpc8xx_uart rt_device \<Rightarrow> rt_err_t \<times> lpc8xx_uart rt_device" where
  "rt_uart_init d = (RT_EOK, upd_uart (\<lambda>u. u\<lparr>set_up := True\<rparr>) d)"

definition rt_uart_open :: "lpc8xx_uart rt_device \<Rightarrow> u16 \<Rightarrow> rt_err_t \<times> lpc8xx_uart rt_device" where
  "rt_uart_open d oflag =
     (RT_EOK, if dflag d AND RT_DEVICE_FLAG_INT_RX \<noteq> 0 then upd_uart (\<lambda>u. u\<lparr>irq_on := True\<rparr>) d else d)"

definition rt_uart_close :: "lpc8xx_uart rt_device \<Rightarrow> rt_err_t \<times> lpc8xx_uart rt_device" where
  "rt_uart_close d =
     (RT_EOK, if dflag d AND RT_DEVICE_FLAG_INT_RX \<noteq> 0 then upd_uart (\<lambda>u. u\<lparr>irq_on := False\<rparr>) d else d)"

definition rt_uart_read :: "lpc8xx_uart rt_device \<Rightarrow> int \<Rightarrow> nat \<Rightarrow> (int \<times> u8 list) \<times> lpc8xx_uart rt_device" where
  "rt_uart_read d pos len =
     (let (xs, rb) = rt_ringbuffer_get (rx_rb (driver d)) len
      in ((int (length xs), xs), upd_uart (\<lambda>u. u\<lparr>rx_rb := rb\<rparr>) d))"

text \<open>\<open>while (!(Chip_UART_GetStatus(uart_base) & UART_STAT_TXRDY));\<close>: the next reading after the loop.\<close>

partial_function (option) wait_txrdy :: "(nat \<Rightarrow> u32) \<Rightarrow> nat \<Rightarrow> nat option" where
  "wait_txrdy status i = (if status i AND UART_STAT_TXRDY = 0 then wait_txrdy status (i + 1) else Some (i + 1))"

definition uart_send :: "(nat \<Rightarrow> u32) \<Rightarrow> u8 \<Rightarrow> lpc8xx_uart \<Rightarrow> lpc8xx_uart option" where
  "uart_send status c u = map_option (\<lambda>i. u\<lparr>polls := i, tx := tx u @ [c]\<rparr>) (wait_txrdy status (polls u))"

fun uart_send_loop :: "(nat \<Rightarrow> u32) \<Rightarrow> bool \<Rightarrow> u8 list \<Rightarrow> lpc8xx_uart \<Rightarrow> lpc8xx_uart option" where
  "uart_send_loop status stream [] u = Some u"
| "uart_send_loop status stream (c # cs) u =
     do { u1 \<leftarrow> (if stream \<and> c = 10 then uart_send status 13 u else Some u);
          u2 \<leftarrow> uart_send status c u1;
          uart_send_loop status stream cs u2 }"

definition rt_uart_write :: "(nat \<Rightarrow> u32) \<Rightarrow> lpc8xx_uart rt_device \<Rightarrow> int \<Rightarrow> u8 list \<Rightarrow> (int \<times> lpc8xx_uart rt_device) option" where
  "rt_uart_write status d pos xs =
     map_option (\<lambda>u. (int (length xs), d\<lparr>driver := u\<rparr>))
       (uart_send_loop status (open_flag d AND RT_DEVICE_FLAG_STREAM \<noteq> 0) xs (driver d))"

definition uart_ops :: "(nat \<Rightarrow> u32) \<Rightarrow> lpc8xx_uart dev_ops" where
  "uart_ops status = \<lparr>op_init = Some rt_uart_init, op_open = Some rt_uart_open, op_close = Some rt_uart_close,
     op_read = Some rt_uart_read, op_write = Some (rt_uart_write status), op_control = None\<rparr>"

text \<open>The registration of uart1, at address \<open>a\<close>; the static struct is all zeros before.\<close>

definition uart1_static :: "lpc8xx_uart rt_device" where
  "uart1_static = \<lparr>dflag = 0, open_flag = 0, ref_count = 0, rx_indicate = None, tx_complete = None,
     driver = \<lparr>rx_rb = rt_ringbuffer_init (replicate UART_RX_BUFSZ 0) UART_RX_BUFSZ, irq_on = False, set_up = False,
       tx = [], polls = 0\<rparr>\<rparr>"

definition rt_hw_usart_init :: "(string \<Rightarrow> nat) \<Rightarrow> nat \<Rightarrow> objects \<Rightarrow> (nat \<Rightarrow> lpc8xx_uart rt_device)
    \<Rightarrow> (rt_err_t \<times> objects \<times> (nat \<Rightarrow> lpc8xx_uart rt_device)) option" where
  "rt_hw_usart_init lit a obs devs =
     map_option (\<lambda>(e, r). (0, r))
       (rt_device_register (Some a) (lit ''uart1'') (RT_DEVICE_FLAG_RDWR OR RT_DEVICE_FLAG_INT_RX) obs (devs(a := uart1_static)))"

section \<open>Which command a line is taken for\<close>

text \<open>
  The faulty strncmp (LibUtil) gives 0 for a line and a command of \<open>n\<close> characters when they are equal, and when they
  first differ at the last of the \<open>n\<close> characters.
\<close>

definition taken_for :: "u8 list \<Rightarrow> u8 list \<Rightarrow> bool" where
  "taken_for line w \<longleftrightarrow> line = w
     \<or> length w \<le> length line + 1 \<and> take (length w - 1) line = butlast w
        \<and> (length line + 1 = length w \<or> line ! (length w - 1) \<noteq> last w)"

lemma strncmp_taken_for:
  assumes a: "cstr m a cs" and b: "cstr m b w" and w: "w \<noteq> []"
  shows "strncmp m a b (length w) = 0 \<longleftrightarrow> taken_for cs w"
proof -
  let ?n = "length w"
  have A: "m (a + i) = (if i < length cs then cs ! i else 0)" "i < length cs \<Longrightarrow> cs ! i \<noteq> 0" if "i \<le> length cs" for i
    using a that by (auto simp: cstr_iff)
  have B: "m (b + i) = (if i < ?n then w ! i else 0)" "i < ?n \<Longrightarrow> w ! i \<noteq> 0" if "i \<le> ?n" for i
    using b that by (auto simp: cstr_iff)
  show ?thesis
  proof (cases "\<exists>i<?n. m (a + i) \<noteq> m (b + i)")
    case False
    then have eq: "\<forall>i<?n. m (a + i) \<noteq> 0 \<and> m (a + i) = m (b + i)" using B by (metis less_imp_le_nat)
    have len: "?n \<le> length cs"
    proof (rule ccontr)
      assume "\<not> ?n \<le> length cs"
      then show False using eq [rule_format, of "length cs"] A(1) [of "length cs"] by simp
    qed
    have nth: "\<forall>i<?n. cs ! i = w ! i" using eq A(1) B(1) len by (metis le_trans less_imp_le_nat less_le_trans)
    have "strncmp m a b ?n = uint (m (a + ?n)) - uint (m (b + ?n))"
      using strncmp_loop_common [OF eq, of ?n] by (simp add: strncmp_def)
    also have "\<dots> = 0 \<longleftrightarrow> m (a + ?n) = 0" using B(1) [of ?n] by (simp add: word_uint_eq_iff)
    also have "\<dots> \<longleftrightarrow> length cs = ?n" using A [OF len] len by (auto simp: le_less)
    also have "\<dots> \<longleftrightarrow> taken_for cs w"
    proof
      assume "length cs = ?n"
      then show "taken_for cs w" using nth by (auto simp: taken_for_def intro: nth_equalityI)
    next
      assume t: "taken_for cs w"
      show "length cs = ?n"
      proof (rule ccontr)
        assume "length cs \<noteq> ?n"
        then show False using t nth len w by (auto simp: taken_for_def last_conv_nth)
      qed
    qed
    finally show ?thesis .
  next
    case True
    define k where "k = (LEAST i. m (a + i) \<noteq> m (b + i))"
    have k: "m (a + k) \<noteq> m (b + k)" "k < ?n" "\<forall>i<k. m (a + i) = m (b + i)"
      using True LeastI [of "\<lambda>i. m (a + i) \<noteq> m (b + i)"] not_less_Least [of _ "\<lambda>i. m (a + i) \<noteq> m (b + i)"]
        Least_le [of "\<lambda>i. m (a + i) \<noteq> m (b + i)"] unfolding k_def by (blast, meson order_le_less_trans, blast)
    have nz: "\<forall>i<k. m (a + i) \<noteq> 0 \<and> m (a + i) = m (b + i)"
      using k(2,3) B by (metis less_imp_le_nat less_trans)
    have kc: "k \<le> length cs"
    proof (rule ccontr)
      assume "\<not> k \<le> length cs"
      then show False using nz [rule_format, of "length cs"] A(1) [of "length cs"] by simp
    qed
    have pre: "\<forall>i<k. cs ! i = w ! i" using k(2) kc A(1) B(1) nz by (metis less_imp_le_nat less_le_trans order_less_trans)
    have dif: "k = length cs \<or> cs ! k \<noteq> w ! k" using k(1,2) kc A(1) [OF kc] B(1) [of k] by auto
    have "strncmp m a b ?n = 0 \<longleftrightarrow> k = ?n - 1"
      using strncmp_first_difference [OF nz k(1,2)] k(1) by (simp add: word_uint_eq_iff)
    also have "\<dots> \<longleftrightarrow> taken_for cs w"
    proof
      assume e: "k = ?n - 1"
      have "take k cs = butlast w" using pre e kc k(2) by (auto simp: butlast_conv_take intro!: nth_equalityI)
      moreover have "length w \<le> length cs + 1" "length cs + 1 = length w \<or> cs ! (length w - 1) \<noteq> last w"
        using e kc dif w k(2) by (linarith, metis last_conv_nth Suc_eq_plus1 Suc_pred length_greater_0_conv diff_Suc_1)
      ultimately show "taken_for cs w" using e by (simp add: taken_for_def)
    next
      assume t: "taken_for cs w"
      show "k = ?n - 1"
      proof (rule ccontr)
        assume "k \<noteq> ?n - 1"
        then have k1: "k < ?n - 1" using k(2) by simp
        have "cs ! k = w ! k \<and> k < length cs"
        proof (cases "cs = w")
          case True
          then show ?thesis using k(2) by simp
        next
          case False
          then have t1: "?n \<le> length cs + 1" "take (?n - 1) cs = butlast w" using t by (simp_all add: taken_for_def)
          have "cs ! k = take (?n - 1) cs ! k" using k1 by simp
          also have "\<dots> = w ! k" unfolding t1(2) using k1 by (simp add: nth_butlast)
          finally show ?thesis using t1(1) k1 by simp
        qed
        then show False using dif by simp
      qed
    qed
    finally show ?thesis .
  qed
qed

section \<open>The command line edits and answers lines\<close>

definition command_reply :: "u8 list \<Rightarrow> uart_event list" where
  "command_reply line = Printf (crlf @ ''[CMD] %s'' @ crlf) line #
     (if taken_for line (str ''sleep'') then [Printf (''Entering sleep mode...'' @ crlf) [], Enter PMU_Sleep]
      else if taken_for line (str ''deep_sleep'') then [Printf (''Entering deep sleep mode...'' @ crlf) [], Enter PMU_DeepSleep]
      else if taken_for line (str ''power_down'') then [Printf (''Entering power down mode...'' @ crlf) [], Enter PMU_PowerDown]
      else if taken_for line (str ''deep_powerdown'')
        then [Printf (''Entering deep power down mode...'' @ crlf) [], Enter PMU_DeepPowerDown]
      else if taken_for line (str ''help'') then map (\<lambda>t. Printf t []) help_text
      else if line \<noteq> [] then [Printf (''Unknown command: %s'' @ crlf) line]
      else [])"

definition edit_char :: "u8 \<Rightarrow> u8 list \<Rightarrow> u8 list \<times> uart_event list" where
  "edit_char ch line =
     (if ch = 13 \<or> ch = 10 then (if line \<noteq> [] then ([], command_reply (takeWhile (\<lambda>c. c \<noteq> 0) line)) else (line, []))
      else if ch = 8 \<or> ch = 0x7F then
        (if line \<noteq> [] then (butlast line, [Printf [CHR 0x08, CHR 0x20, CHR 0x08] []]) else (line, []))
      else if length line < 63 then (line @ [ch], [Printf ''%c'' [ch]])
      else (line, []))"

primrec edit_chars :: "u8 list \<Rightarrow> u8 list \<Rightarrow> u8 list \<times> uart_event list" where
  "edit_chars [] line = (line, [])"
| "edit_chars (c # cs) line = (let (l1, e1) = edit_char c line; (l2, e2) = edit_chars cs l1 in (l2, e1 @ e2))"

primrec uart_chars :: "(string \<Rightarrow> nat) \<Rightarrow> nat \<Rightarrow> u8 list \<Rightarrow> uart_sys \<Rightarrow> uart_sys option" where
  "uart_chars lit cb [] s = Some s"
| "uart_chars lit cb (c # cs) s = do { s1 \<leftarrow> uart_handle_char lit cb c s; uart_chars lit cb cs s1 }"

primrec is_enter :: "uart_event \<Rightarrow> bool" where
  "is_enter (Printf f xs) = False" | "is_enter (Enter m) = True" | "is_enter (Rx_indicate d n) = False"

abbreviation enters :: "uart_event list \<Rightarrow> nat" where "enters es \<equiv> length (filter is_enter es)"

definition command_words :: "string list" where
  "command_words = [''sleep'', ''deep_sleep'', ''power_down'', ''deep_powerdown'', ''help'']"

text \<open>The literals of the program are in memory, outside the buffer of the line.\<close>

definition literals_ok :: "(string \<Rightarrow> nat) \<Rightarrow> nat \<Rightarrow> mem \<Rightarrow> bool" where
  "literals_ok lit cb m \<longleftrightarrow> (\<forall>w \<in> set command_words. cstr m (lit w) (str w)
     \<and> (lit w + length w < cb \<or> cb + UART_CMD_BUFFER_SIZE \<le> lit w))"

definition line_ok :: "(string \<Rightarrow> nat) \<Rightarrow> nat \<Rightarrow> uart_sys \<Rightarrow> u8 list \<Rightarrow> bool" where
  "line_ok lit cb s line \<longleftrightarrow> literals_ok lit cb (umem s) \<and> uart_cmd_pos s = length line \<and> length line < UART_CMD_BUFFER_SIZE
     \<and> (\<forall>i<length line. umem s (cb + i) = line ! i)"

lemma uart_event_sel [simp]:
  "umem (uart_event e s) = umem s" "uart_cmd_pos (uart_event e s) = uart_cmd_pos s" "ukern (uart_event e s) = ukern s"
  "uart_log (uart_event e s) = uart_log s @ [e]"
  by (simp_all add: uart_event_def)

lemma power_command_sel [simp]:
  "umem (power_command t m s) = umem s" "uart_cmd_pos (power_command t m s) = uart_cmd_pos s"
  "ukern (power_command t m s) = isr_mdelay 100 (ukern s)" "uart_log (power_command t m s) = uart_log s @ [Printf t [], Enter m]"
  by (simp_all add: power_command_def Let_def)

lemma fold_printf_sel [simp]:
  "umem (fold (\<lambda>t. uart_event (Printf t [])) ts s) = umem s" "uart_cmd_pos (fold (\<lambda>t. uart_event (Printf t [])) ts s) = uart_cmd_pos s"
  "ukern (fold (\<lambda>t. uart_event (Printf t [])) ts s) = ukern s"
  "uart_log (fold (\<lambda>t. uart_event (Printf t [])) ts s) = uart_log s @ map (\<lambda>t. Printf t []) ts"
  by (induction ts arbitrary: s) simp_all

lemma no_enter_printf [simp]: "filter is_enter (map (\<lambda>t. Printf t []) ts) = []"
  by (induction ts) simp_all

lemma bytes_at_0 [simp]: "bytes_at m a 0 = []"
  by (simp add: bytes_at_def)

lemma bytes_at_cstr: "cstr m a cs \<Longrightarrow> bytes_at m a (length cs) = cs"
  by (auto simp: bytes_at_def cstr_iff intro: nth_equalityI)

lemma process_ok:
  assumes "literals_ok lit cb (umem s)" "cstr (umem s) cb cs" "length cs < UART_CMD_BUFFER_SIZE"
  shows "\<exists>s'. uart_process_command lit cb s = Some s' \<and> umem s' = umem s \<and> uart_cmd_pos s' = uart_cmd_pos s
    \<and> uart_log s' = uart_log s @ command_reply cs \<and> ukern s' = (isr_mdelay 100 ^^ enters (command_reply cs)) (ukern s)"
proof -
  have n: "strlen (umem s) cb = Some (length cs)" using strlen_cstr [OF assms(2)] assms(3) by (simp add: rt_const)
  have e: "strncmp (umem s) cb (lit w) n = 0 \<longleftrightarrow> taken_for cs (str w)" if "w \<in> set command_words" "n = length w" "w \<noteq> []" for w n
  proof -
    have "cstr (umem s) (lit w) (str w)" using assms(1) that(1) by (simp add: literals_ok_def)
    from strncmp_taken_for [OF assms(2) this] that(2,3) show ?thesis by (simp add: str_def)
  qed
  have w: "strncmp (umem s) cb (lit ''sleep'') 5 = 0 \<longleftrightarrow> taken_for cs (str ''sleep'')"
    "strncmp (umem s) cb (lit ''deep_sleep'') 10 = 0 \<longleftrightarrow> taken_for cs (str ''deep_sleep'')"
    "strncmp (umem s) cb (lit ''power_down'') 10 = 0 \<longleftrightarrow> taken_for cs (str ''power_down'')"
    "strncmp (umem s) cb (lit ''deep_powerdown'') 14 = 0 \<longleftrightarrow> taken_for cs (str ''deep_powerdown'')"
    "strncmp (umem s) cb (lit ''help'') 4 = 0 \<longleftrightarrow> taken_for cs (str ''help'')"
    by (intro e; simp add: command_words_def)+
  show ?thesis
    by (simp add: uart_process_command_def n w bytes_at_cstr [OF assms(2)] command_reply_def Let_def
        board_enter_sleep_def board_enter_deep_sleep_def board_enter_power_down_def board_enter_deep_powerdown_def)
qed

lemma literals_upd: "literals_ok lit cb m \<Longrightarrow> i < UART_CMD_BUFFER_SIZE \<Longrightarrow> literals_ok lit cb (m(cb + i := x))"
  unfolding literals_ok_def by (auto intro!: cstr_upd simp: str_def)

lemma cstr_prefix:
  assumes "\<forall>i<length line. m (a + i) = line ! i"
  shows "cstr (m(a + length line := 0)) a (takeWhile (\<lambda>c. c \<noteq> 0) line)"
proof -
  let ?t = "takeWhile (\<lambda>c. c \<noteq> 0) line"
  have t: "?t ! i = line ! i" "line ! i \<noteq> 0" if "i < length ?t" for i
    using that takeWhile_nth [of i "\<lambda>c. c \<noteq> 0" line] nth_mem [OF that] by (auto dest: set_takeWhileD)
  have l: "length ?t \<le> length line" by (rule length_takeWhile_le)
  have "(m(a + length line := 0)) (a + length ?t) = 0"
    using nth_length_takeWhile [of "\<lambda>c. c \<noteq> 0" line] l assms by (cases "length ?t = length line") auto
  moreover have "\<forall>i<length ?t. ?t ! i \<noteq> 0 \<and> (m(a + length line := 0)) (a + i) = ?t ! i"
    using t l assms by auto
  ultimately show ?thesis by (simp add: cstr_iff)
qed

lemma handle_char_ok:
  assumes "line_ok lit cb s line"
  shows "\<exists>s'. uart_handle_char lit cb ch s = Some s' \<and> line_ok lit cb s' (fst (edit_char ch line))
    \<and> uart_log s' = uart_log s @ snd (edit_char ch line) \<and> ukern s' = (isr_mdelay 100 ^^ enters (snd (edit_char ch line))) (ukern s)"
proof -
  have l: "literals_ok lit cb (umem s)" "uart_cmd_pos s = length line" "length line < 64"
      "\<forall>i<length line. umem s (cb + i) = line ! i" using assms by (simp_all add: line_ok_def rt_const)
  have sk: "edit_char ch line = (line, []) \<and> uart_handle_char lit cb ch s = Some s"
    if "\<not> ((ch = 13 \<or> ch = 10) \<and> line \<noteq> [])" "\<not> ((ch = 8 \<or> ch = 0x7F) \<and> line \<noteq> [])"
      "\<not> (\<not> (ch = 13 \<or> ch = 10) \<and> \<not> (ch = 8 \<or> ch = 0x7F) \<and> length line < 63)"
    unfolding edit_char_def uart_handle_char_def using l(2,3) that by (auto simp: rt_const)
  consider (cr) "ch = 13 \<or> ch = 10" "line \<noteq> []" | (bs) "ch = 8 \<or> ch = 0x7F" "line \<noteq> []"
    | (new) "\<not> (ch = 13 \<or> ch = 10)" "\<not> (ch = 8 \<or> ch = 0x7F)" "length line < 63"
    | (skip) "edit_char ch line = (line, [])" "uart_handle_char lit cb ch s = Some s"
    using sk by blast
  then show ?thesis
  proof cases
    case cr
    let ?s = "s\<lparr>umem := (umem s)(cb + length line := 0)\<rparr>"
    let ?t = "takeWhile (\<lambda>c. c \<noteq> 0) line"
    have "literals_ok lit cb (umem ?s)" using literals_upd [OF l(1)] l(3) by (simp add: rt_const)
    moreover have "cstr (umem ?s) cb ?t" using cstr_prefix [OF l(4)] by simp
    moreover have "length ?t < UART_CMD_BUFFER_SIZE" using length_takeWhile_le [of "\<lambda>c. c \<noteq> 0" line] l(3) by (simp add: rt_const)
    ultimately obtain s' where s': "uart_process_command lit cb ?s = Some s'" "umem s' = umem ?s" "uart_log s' = uart_log s @ command_reply ?t"
        "ukern s' = (isr_mdelay 100 ^^ enters (command_reply ?t)) (ukern s)" "literals_ok lit cb (umem s')"
      using process_ok [of lit cb ?s ?t] by auto
    then show ?thesis using cr l(2) by (auto simp: uart_handle_char_def edit_char_def line_ok_def rt_const)
  next
    case bs
    then show ?thesis
      using l by (auto simp: uart_handle_char_def edit_char_def line_ok_def rt_const nth_butlast)
  next
    case new
    then show ?thesis
      using l literals_upd [OF l(1), of "length line" ch]
      by (auto simp: uart_handle_char_def edit_char_def line_ok_def rt_const nth_append less_Suc_eq)
  next
    case skip
    then show ?thesis using assms by simp
  qed
qed

lemma edit_chars_ok:
  assumes "line_ok lit cb s line"
  shows "\<exists>s'. uart_chars lit cb cs s = Some s' \<and> line_ok lit cb s' (fst (edit_chars cs line))
    \<and> uart_log s' = uart_log s @ snd (edit_chars cs line)
    \<and> ukern s' = (isr_mdelay 100 ^^ enters (snd (edit_chars cs line))) (ukern s)"
  using assms
proof (induction cs arbitrary: s line)
  case (Cons c cs)
  obtain s1 where 1: "uart_handle_char lit cb c s = Some s1" "line_ok lit cb s1 (fst (edit_char c line))"
      "uart_log s1 = uart_log s @ snd (edit_char c line)" "ukern s1 = (isr_mdelay 100 ^^ enters (snd (edit_char c line))) (ukern s)"
    using handle_char_ok [OF Cons.prems] by blast
  from Cons.IH [OF 1(2)] show ?case
    by (auto simp: 1 split_beta funpow_add [symmetric, THEN fun_cong, simplified] add.commute)
qed simp

definition demo_lits :: "string \<Rightarrow> nat" where
  "demo_lits w = (if w = ''sleep'' then 200 else if w = ''deep_sleep'' then 206 else if w = ''power_down'' then 217
     else if w = ''deep_powerdown'' then 228 else 243)"

definition demo_literals :: "u8 list" where
  "demo_literals = str ''sleep'' @ [0] @ str ''deep_sleep'' @ [0] @ str ''power_down'' @ [0] @ str ''deep_powerdown'' @ [0]
     @ str ''help'' @ [0]"

definition demo_uart_sys :: uart_sys where
  "demo_uart_sys = \<lparr>umem = (\<lambda>a. if 200 \<le> a \<and> a < 248 then demo_literals ! (a - 200) else 0), uart_cmd_pos = 0,
     uart_log = [], ukern = demo_kernel\<rparr>"

lemma demo_literals_ok: "literals_ok demo_lits 100 (umem demo_uart_sys)"
proof -
  have "\<forall>w \<in> set command_words. cstr (umem demo_uart_sys) (demo_lits w) (str w)" by code_simp
  moreover have "\<forall>w \<in> set command_words. 164 \<le> demo_lits w" by code_simp
  ultimately show ?thesis by (simp add: literals_ok_def rt_const)
qed

text \<open>C13. The command line answers any sequence of received characters as the reference editor does: it collects
  at most 63 characters, takes back the last one on backspace or delete, answers a line at its end with the reply
  of the command it is taken for, and delays the interrupted thread once for every power command. The buffer never
  overflows, and no character makes the handler fail to return.\<close>

theorem uart_command_line:
  assumes "literals_ok lit cb (umem s)" "uart_cmd_pos s = 0"
  shows "\<exists>s'. uart_chars lit cb cs s = Some s' \<and> line_ok lit cb s' (fst (edit_chars cs []))
    \<and> uart_log s' = uart_log s @ snd (edit_chars cs [])
    \<and> ukern s' = (isr_mdelay 100 ^^ enters (snd (edit_chars cs []))) (ukern s)"
  using edit_chars_ok [of lit cb s "[]"] assms by (simp add: line_ok_def rt_const)

theorem uart_command_line_witness:
  "\<exists>s'. uart_chars demo_lits 100 (str ''slx'' @ [8] @ str ''ee'' @ [13]) demo_uart_sys = Some s'
     \<and> last (uart_log s') = Enter PMU_Sleep"
proof -
  have "snd (edit_chars (str ''slx'' @ [8] @ str ''ee'' @ [13]) []) \<noteq> []
      \<and> last (snd (edit_chars (str ''slx'' @ [8] @ str ''ee'' @ [13]) [])) = Enter PMU_Sleep" by code_simp
  moreover have "uart_cmd_pos demo_uart_sys = 0" by (simp add: demo_uart_sys_def)
  ultimately show ?thesis
    using uart_command_line [OF demo_literals_ok, of "str ''slx'' @ [8] @ str ''ee'' @ [13]"] by fastforce
qed

section \<open>A power command in the interrupt\<close>

lemma isr_mdelay_ok:
  assumes "kernel_ok k" "current k = Some t" "tstate k t = RT_THREAD_RUNNING" "unat j < half"
  shows "kernel_ok (isr_mdelay 100 k) \<and> is_suspended (isr_mdelay 100 k) t
    \<and> (timer_due (isr_mdelay 100 k) (rt_tick k + j) (TThread t) \<longleftrightarrow> 10 \<le> j)"
proof -
  have n: "rt_tick_from_millisecond 100 = 10" by code_simp
  obtain r k1 where r: "rt_thread_sleep 10 k = (r, k1)" by force
  then have 1: "rt_thread_sleep 10 k = (Waits, k1)" "kernel_ok k1" "is_suspended k1 t"
      "timer_due k1 (rt_tick k + j) (TThread t) \<longleftrightarrow> 10 \<le> j"
    using sleep_until_due [OF assms(1-3), of 10 j] assms(4) by (simp_all add: half_def)
  have "isr_mdelay 100 k = snd (rt_thread_sleep_resume t k1)"
    using assms(2) by (simp add: isr_mdelay_def rt_thread_mdelay_def n 1 rt_thread_self_def)
  then show ?thesis using 1 by (simp add: rt_thread_sleep_resume_def timer_due_def)
qed

text \<open>C23. A power command acts inside the receive interrupt: the thread that happened to run when the end of the line
  arrived is suspended for ten ticks, and the processor is sent to sleep in the same interrupt, without the delay
  that was to let the message go out.\<close>

theorem uart_sleep_in_interrupt:
  assumes "line_ok lit cb s line" "taken_for (takeWhile (\<lambda>c. c \<noteq> 0) line) (str ''sleep'')" "line \<noteq> []"
    and "kernel_ok (ukern s)" "current (ukern s) = Some t" "tstate (ukern s) t = RT_THREAD_RUNNING"
    and "rx_indicate d = None" "unat j < half"
  shows "\<exists>d' s'. uart_irq_handler lit cb dev UART_STAT_RXRDY 13 d s = Some (d', s') \<and> last (uart_log s') = Enter PMU_Sleep
    \<and> kernel_ok (ukern s') \<and> is_suspended (ukern s') t
    \<and> (timer_due (ukern s') (rt_tick (ukern s) + j) (TThread t) \<longleftrightarrow> 10 \<le> j)"
proof -
  let ?k = "rt_interrupt_enter (ukern s)"
  let ?s = "s\<lparr>ukern := ?k\<rparr>"
  have l: "line_ok lit cb ?s line" using assms(1) by (simp add: line_ok_def)
  obtain s' where s': "uart_handle_char lit cb 13 ?s = Some s'" "uart_log s' = uart_log s @ snd (edit_char 13 line)"
      "ukern s' = (isr_mdelay 100 ^^ enters (snd (edit_char 13 line))) ?k"
    using handle_char_ok [OF l, of 13] by auto
  have e: "snd (edit_char 13 line) \<noteq> []" "last (snd (edit_char 13 line)) = Enter PMU_Sleep" "enters (snd (edit_char 13 line)) = 1"
    using assms(2,3) by (simp_all add: edit_char_def command_reply_def)
  have k: "kernel_ok ?k" "current ?k = Some t" "tstate ?k t = RT_THREAD_RUNNING" "rt_tick ?k = rt_tick (ukern s)"
    using assms(4-6) by (simp, simp_all add: rt_interrupt_enter_def tstate_def)
  note i = isr_mdelay_ok [OF k(1-3) assms(8)]
  have k': "ukern s' = isr_mdelay 100 ?k" using s'(3) unfolding e(3) by simp
  have "UART_STAT_RXRDY AND UART_STAT_RXRDY \<noteq> 0" by (simp add: rt_const)
  then show ?thesis
    using s'(1,2) e(1,2) i assms(7) k(4)
    by (simp add: uart_irq_handler_def k' upd_uart_def)
      (simp add: rt_interrupt_leave_def timer_due_def is_suspended_def)
qed

text \<open>The line ''sleep'' typed on the demo system, and the interrupt that ends it.\<close>

theorem uart_sleep_in_interrupt_witness:
  "\<exists>s d' s'. uart_chars demo_lits 100 (str ''sleep'') demo_uart_sys = Some s
     \<and> uart_irq_handler demo_lits 100 0 UART_STAT_RXRDY 13 uart1_static s = Some (d', s') \<and> is_suspended (ukern s') 0"
proof -
  let ?w = "str ''sleep''"
  have l: "line_ok demo_lits 100 demo_uart_sys []"
    using demo_literals_ok by (simp add: line_ok_def rt_const demo_uart_sys_def)
  have e: "fst (edit_chars ?w []) = ?w" "enters (snd (edit_chars ?w [])) = 0" "takeWhile (\<lambda>c. c \<noteq> 0) ?w = ?w" "?w \<noteq> []"
    by code_simp+
  obtain s where s: "uart_chars demo_lits 100 ?w demo_uart_sys = Some s" "line_ok demo_lits 100 s ?w" "ukern s = demo_kernel"
    using edit_chars_ok [OF l, of ?w] unfolding e(1,2) by (auto simp: demo_uart_sys_def)
  have "taken_for (takeWhile (\<lambda>c. c \<noteq> 0) ?w) (str ''sleep'')" unfolding e(3) by (simp add: taken_for_def)
  moreover have "kernel_ok (ukern s)" "current (ukern s) = Some 0" "tstate (ukern s) 0 = RT_THREAD_RUNNING"
    using demo_kernel_kernel_ok demo_kernel_facts(1,3) by (simp_all add: s(3))
  moreover have "rx_indicate uart1_static = None" by (simp add: uart1_static_def)
  ultimately show ?thesis
    using uart_sleep_in_interrupt [OF s(2) _ e(4), of 0 uart1_static 0 0] s(1) by (auto simp: half_def)
qed

section \<open>The driver as a device\<close>

abbreviation uart_flags :: u16 where
  "uart_flags \<equiv> RT_DEVICE_FLAG_RDWR OR RT_DEVICE_FLAG_INT_RX"

definition rx_ok :: "lpc8xx_uart \<Rightarrow> bool" where
  "rx_ok u \<longleftrightarrow> rb_inv (rx_rb u) \<and> buffer_size (rx_rb u) = UART_RX_BUFSZ"

definition uart_fresh :: "lpc8xx_uart \<Rightarrow> bool" where "uart_fresh u \<longleftrightarrow> rx_ok u \<and> \<not> irq_on u"
definition uart_ready :: "lpc8xx_uart \<Rightarrow> bool" where "uart_ready u \<longleftrightarrow> rx_ok u \<and> \<not> irq_on u \<and> set_up u"
definition uart_opened :: "lpc8xx_uart \<Rightarrow> bool" where "uart_opened u \<longleftrightarrow> rx_ok u \<and> irq_on u \<and> set_up u"

lemma int_rx: "flags_ok uart_flags d \<Longrightarrow> dflag d AND RT_DEVICE_FLAG_INT_RX \<noteq> 0"
proof -
  assume "flags_ok uart_flags d"
  then have "(dflag d OR RT_DEVICE_FLAG_ACTIVATED) AND RT_DEVICE_FLAG_INT_RX = (uart_flags OR RT_DEVICE_FLAG_ACTIVATED) AND RT_DEVICE_FLAG_INT_RX"
    by (simp add: flags_ok_def)
  then show ?thesis by (simp add: rt_const word_ao_dist)
qed

lemma send_loop_frame:
  "uart_send_loop status st xs u = Some u' \<Longrightarrow> rx_rb u' = rx_rb u \<and> irq_on u' = irq_on u \<and> set_up u' = set_up u
     \<and> tx u' = tx u @ concat (map (\<lambda>c. if st \<and> c = 10 then [13, 10] else [c]) xs)"
proof (induction xs arbitrary: u)
  case (Cons c xs)
  then show ?case by (fastforce simp: uart_send_def split: if_splits bind_splits)
qed simp

interpretation uart: device_driver "uart_ops status" uart_flags uart_fresh uart_ready uart_opened for status
proof (unfold_locales, goal_cases)
  case (1 f d e d')
  then show ?case
    by (auto simp: uart_ops_def rt_uart_init_def upd_uart_def uart_fresh_def uart_ready_def rx_ok_def)
next
  case (2 p)
  then show ?case by (simp add: uart_ops_def)
next
  case (3 g d oflag e d')
  then show ?case
    using int_rx [OF 3(2)] by (auto simp: uart_ops_def rt_uart_open_def upd_uart_def uart_opened_def uart_ready_def rx_ok_def opened_by_def)
next
  case (4 p)
  then show ?case by (simp add: uart_ops_def)
next
  case (5 f d e d')
  then show ?case
    using int_rx [OF 5(2)] by (auto simp: uart_ops_def rt_uart_close_def upd_uart_def uart_opened_def uart_ready_def rx_ok_def opened_by_def)
next
  case (6 p)
  then show ?case by (simp add: uart_ops_def)
next
  case (7 h d pos n r d')
  then show ?case
    using ringbuffer.get_law [of "rx_rb (driver d)" n]
    by (auto simp: uart_ops_def rt_uart_read_def upd_uart_def uart_opened_def rx_ok_def Let_def split: prod.splits)
next
  case (8 u d pos xs w d')
  then show ?case
    using send_loop_frame by (fastforce simp: uart_ops_def rt_uart_write_def uart_opened_def rx_ok_def)
qed

section \<open>A conversation with the device\<close>

text \<open>What the users of the device and the line do; an interrupt occurs only while it is enabled.\<close>

datatype uart_call = UOpen u16 | UClose | URead nat | UWrite "u8 list" | URecv u8

datatype uart_reply = Code int | Bytes int "u8 list" | Quiet

fun uart_step :: "(nat \<Rightarrow> u32) \<Rightarrow> (string \<Rightarrow> nat) \<Rightarrow> nat \<Rightarrow> nat \<Rightarrow> uart_call \<Rightarrow> lpc8xx_uart rt_device \<times> uart_sys
    \<Rightarrow> (uart_reply \<times> lpc8xx_uart rt_device \<times> uart_sys) option" where
  "uart_step status lit cb dev (UOpen oflag) (d, s) =
     (let (e, d') = rt_device_open (uart_ops status) oflag d in Some (Code e, d', s))"
| "uart_step status lit cb dev UClose (d, s) = (let (e, d') = rt_device_close (uart_ops status) d in Some (Code e, d', s))"
| "uart_step status lit cb dev (URead n) (d, s) =
     (let (r, d', k) = rt_device_read (uart_ops status) 0 n d (ukern s) in Some (Bytes (fst r) (snd r), d', s\<lparr>ukern := k\<rparr>))"
| "uart_step status lit cb dev (UWrite xs) (d, s) =
     map_option (\<lambda>(r, d', k). (Code r, d', s\<lparr>ukern := k\<rparr>)) (rt_device_write (uart_ops status) 0 xs d (ukern s))"
| "uart_step status lit cb dev (URecv b) (d, s) =
     (if irq_on (driver d) then map_option (\<lambda>p. (Quiet, p)) (uart_irq_handler lit cb dev UART_STAT_RXRDY b d s)
      else Some (Quiet, d, s))"

primrec uart_run :: "(nat \<Rightarrow> u32) \<Rightarrow> (string \<Rightarrow> nat) \<Rightarrow> nat \<Rightarrow> nat \<Rightarrow> uart_call list \<Rightarrow> lpc8xx_uart rt_device \<times> uart_sys
    \<Rightarrow> (uart_reply list \<times> lpc8xx_uart rt_device \<times> uart_sys) option" where
  "uart_run status lit cb dev [] p = Some ([], p)"
| "uart_run status lit cb dev (c # cs) p =
     do { (r, p1) \<leftarrow> uart_step status lit cb dev c p; (rs, p2) \<leftarrow> uart_run status lit cb dev cs p1; Some (r # rs, p2) }"

text \<open>The specification: the number of users, the bytes received and not yet read, the bytes sent.\<close>

type_synonym uart_spec = "nat \<times> u8 list \<times> u8 list"

fun spec_uart :: "uart_call \<Rightarrow> uart_spec \<Rightarrow> uart_reply \<times> uart_spec" where
  "spec_uart (UOpen oflag) (n, rx, t) = (Code RT_EOK, (n + 1, rx, t))"
| "spec_uart UClose (n, rx, t) = (if n = 0 then (Code (- RT_ERROR), (n, rx, t)) else (Code RT_EOK, (n - 1, rx, t)))"
| "spec_uart (URead m) (n, rx, t) =
     (if n = 0 then (Bytes 0 [], (n, rx, t)) else (Bytes (int (length (take m rx))) (take m rx), (n, drop m rx, t)))"
| "spec_uart (UWrite xs) (n, rx, t) = (if n = 0 then (Code 0, (n, rx, t)) else (Code (int (length xs)), (n, rx, t @ xs)))"
| "spec_uart (URecv b) (n, rx, t) = (Quiet, if n = 0 then (n, rx, t) else (n, newest 8 (rx @ [b]), t))"

primrec spec_uart_run :: "uart_call list \<Rightarrow> uart_spec \<Rightarrow> uart_reply list \<times> uart_spec" where
  "spec_uart_run [] a = ([], a)"
| "spec_uart_run (c # cs) a = (let (r, a1) = spec_uart c a; (rs, a2) = spec_uart_run cs a1 in (r # rs, a2))"

fun is_open :: "uart_call \<Rightarrow> bool" where "is_open (UOpen oflag) = True" | "is_open c = False"

definition uart_rep :: "lpc8xx_uart rt_device \<times> uart_sys \<Rightarrow> uart_spec \<Rightarrow> bool" where
  "uart_rep p a = (case (p, a) of ((d, s), (n, rx, t)) \<Rightarrow>
     uart.dev_inv d \<and> unat (ref_count d) = n \<and> open_flag d = (if n = 0 then 0 else RT_DEVICE_OFLAG_OPEN)
     \<and> rb_data (rx_rb (driver d)) = rx \<and> tx (driver d) = t)"

lemma wait_txrdy_returns:
  assumes "status j AND UART_STAT_TXRDY \<noteq> 0" "i \<le> j"
  shows "\<exists>i'. wait_txrdy status i = Some i'"
  using assms
proof (induction "j - i" arbitrary: i)
  case (Suc d)
  then have "\<exists>i'. wait_txrdy status (i + 1) = Some i'" by (intro Suc.hyps(1)) auto
  then show ?case by (subst wait_txrdy.simps) simp
next
  case 0
  then show ?case by (subst wait_txrdy.simps) simp
qed

lemma send_loop_returns:
  assumes "\<forall>i. \<exists>j\<ge>i. status j AND UART_STAT_TXRDY \<noteq> 0"
  shows "\<exists>u'. uart_send_loop status st xs u = Some u'"
proof (induction xs arbitrary: u)
  case (Cons c xs)
  have w: "\<exists>u'. uart_send status b u = Some u'" for b u
    using assms wait_txrdy_returns [of status] unfolding uart_send_def by (metis option.simps(9))
  obtain u1 where 1: "(if st \<and> c = 10 then uart_send status 13 u else Some u) = Some u1" using w by (cases "st \<and> c = 10") auto
  obtain u2 where 2: "uart_send status c u1 = Some u2" using w by blast
  show ?case using Cons.IH [of u2] by (simp add: 1 2)
qed simp

lemma rep_opened:
  assumes "uart_rep (d, s) (n, rx, t)"
  shows "rx_ok (driver d)" "irq_on (driver d) \<longleftrightarrow> n \<noteq> 0" "n \<noteq> 0 \<Longrightarrow> uart_opened (driver d)"
proof -
  have i: "uart.dev_inv d" "unat (ref_count d) = n" "n = 0 \<longrightarrow> open_flag d = 0" using assms by (simp_all add: uart_rep_def)
  have o: "uart_opened (driver d)" if "n \<noteq> 0"
    using uart.in_use [OF i(1)] i(2) that by (metis unsigned_0)
  have z: "uart_fresh (driver d) \<or> uart_ready (driver d)" if "n = 0"
    using i that unfolding uart.dev_inv_def by (auto split: if_splits)
  show "rx_ok (driver d)" "irq_on (driver d) \<longleftrightarrow> n \<noteq> 0" "n \<noteq> 0 \<Longrightarrow> uart_opened (driver d)"
    using o z unfolding uart_opened_def uart_fresh_def uart_ready_def by blast+
qed

lemma no_standalone:
  assumes "flags_ok uart_flags d"
  shows "dflag d AND RT_DEVICE_FLAG_STANDALONE = 0"
proof -
  have "(dflag d OR RT_DEVICE_FLAG_ACTIVATED) AND RT_DEVICE_FLAG_STANDALONE
      = (uart_flags OR RT_DEVICE_FLAG_ACTIVATED) AND RT_DEVICE_FLAG_STANDALONE"
    using assms by (simp add: flags_ok_def)
  then show ?thesis by (simp add: rt_const word_ao_dist)
qed

lemma uart_open_frame:
  assumes "flags_ok uart_flags d" "rt_device_open (uart_ops status) oflag d = (e, d')"
  shows "e = RT_EOK \<and> open_flag d' = open_flag d OR RT_DEVICE_OFLAG_OPEN \<and> rx_rb (driver d') = rx_rb (driver d)
    \<and> tx (driver d') = tx (driver d)"
proof -
  obtain d1 where d1: "device_activate (uart_ops status) d = (RT_EOK, d1)" "open_flag d1 = open_flag d" "flags_ok uart_flags d1"
      "rx_rb (driver d1) = rx_rb (driver d)" "tx (driver d1) = tx (driver d)"
    using assms(1) by (cases "dflag d AND RT_DEVICE_FLAG_ACTIVATED = 0")
      (simp_all add: device_activate_def uart_ops_def rt_uart_init_def upd_uart_def flags_ok_def word_bw_assocs)
  show ?thesis
    using assms(2) d1 no_standalone [OF d1(3)]
    by (auto simp: rt_device_open_def uart_ops_def rt_uart_open_def upd_uart_def split: if_splits)
qed

lemma uart_close_frame:
  assumes "rt_device_close (uart_ops status) d = (e, d')"
  shows "e = (if ref_count d = 0 then - RT_ERROR else RT_EOK) \<and> rx_rb (driver d') = rx_rb (driver d)
    \<and> tx (driver d') = tx (driver d) \<and> (ref_count d \<noteq> 0 \<longrightarrow> open_flag d' = (if ref_count d = 1 then 0 else open_flag d))
    \<and> (ref_count d = 0 \<longrightarrow> d' = d)"
  using assms by (auto simp: rt_device_close_def uart_ops_def rt_uart_close_def upd_uart_def RT_DEVICE_OFLAG_CLOSE_def Let_def split: if_splits)

lemma newest_is_force:
  assumes "rx_ok u"
  shows "rx_ok (u\<lparr>rx_rb := snd (rt_ringbuffer_putchar_force (rx_rb u) b)\<rparr>)
    \<and> rb_data (snd (rt_ringbuffer_putchar_force (rx_rb u) b)) = newest 8 (rb_data (rx_rb u) @ [b])"
proof -
  have r: "rb_inv (rx_rb u)" "buffer_size (rx_rb u) = 8" using assms by (simp_all add: rx_ok_def rt_const)
  obtain n rb where p: "rt_ringbuffer_put_force (rx_rb u) [b] = (n, rb)" by force
  show ?thesis
    using ringbuffer.put_force_law [OF r(1) p] r p putchar_force_eq_put_force [OF r(1), of b] by (simp add: rx_ok_def rt_const)
qed

lemma line_ok_kern [simp]: "line_ok lit cb (s\<lparr>ukern := k\<rparr>) line = line_ok lit cb s line"
  "line_ok lit cb (uart_event e s) line = line_ok lit cb s line"
  by (simp_all add: line_ok_def)

lemma uart_repI:
  "uart.dev_inv d \<Longrightarrow> unat (ref_count d) = n \<Longrightarrow> open_flag d = (if n = 0 then 0 else RT_DEVICE_OFLAG_OPEN)
    \<Longrightarrow> rb_data (rx_rb (driver d)) = rx \<Longrightarrow> tx (driver d) = t \<Longrightarrow> uart_rep (d, s) (n, rx, t)"
  by (simp add: uart_rep_def)

lemma step_open:
  assumes "uart_rep (d, s) (n, rx, t)" "n < 255"
  shows "\<exists>d'. uart_step status lit cb dev (UOpen oflag) (d, s) = Some (Code RT_EOK, d', s) \<and> uart_rep (d', s) (n + 1, rx, t)"
proof -
  have i: "uart.dev_inv d" "unat (ref_count d) = n" "open_flag d = (if n = 0 then 0 else RT_DEVICE_OFLAG_OPEN)"
    "rb_data (rx_rb (driver d)) = rx" "tx (driver d) = t" using assms(1) by (simp_all add: uart_rep_def)
  obtain e d' where o: "rt_device_open (uart_ops status) oflag d = (e, d')" by force
  have "flags_ok uart_flags d" using i(1) unfolding uart.dev_inv_def by blast
  note f = uart_open_frame [OF this o]
  have v: "uart.dev_inv d'" "ref_count d' = ref_count d + 1" using uart.open_inv [OF i(1) o] f by auto
  have "unat (ref_count d') = n + 1" using v(2) i(2) assms(2) by (simp add: unat_plus_if')
  then have "uart_rep (d', s) (n + 1, rx, t)" using v(1) f i by (intro uart_repI) (simp_all split: if_splits)
  then show ?thesis using o f by simp
qed

lemma step_close:
  assumes "uart_rep (d, s) (n, rx, t)"
  shows "\<exists>d'. uart_step status lit cb dev UClose (d, s) = Some (fst (spec_uart UClose (n, rx, t)), d', s)
    \<and> uart_rep (d', s) (snd (spec_uart UClose (n, rx, t)))"
proof -
  have i: "uart.dev_inv d" "unat (ref_count d) = n" "open_flag d = (if n = 0 then 0 else RT_DEVICE_OFLAG_OPEN)"
    "rb_data (rx_rb (driver d)) = rx" "tx (driver d) = t" using assms by (simp_all add: uart_rep_def)
  obtain e d' where o: "rt_device_close (uart_ops status) d = (e, d')" by force
  note f = uart_close_frame [OF o] and v = uart.close_inv [OF i(1) o]
  show ?thesis
  proof (cases "n = 0")
    case True
    then have "ref_count d = 0" using i(2) by (simp add: unat_eq_0)
    then show ?thesis using assms o f True by simp
  next
    case False
    then have nz: "ref_count d \<noteq> 0" using i(2) by auto
    have c: "unat (ref_count d') = n - 1" using v nz i(2) by (simp add: unat_minus_one)
    have one: "ref_count d = 1 \<longleftrightarrow> n = 1" using i(2) by (metis unsigned_1 word_unat_eq_iff)
    have "uart_rep (d', s) (n - 1, rx, t)" using v f c i nz one False by (intro uart_repI) auto
    then show ?thesis using o f nz False by simp
  qed
qed

lemma step_read:
  assumes "uart_rep (d, s) (n, rx, t)"
  shows "\<exists>d' s'. uart_step status lit cb dev (URead m) (d, s) = Some (fst (spec_uart (URead m) (n, rx, t)), d', s')
    \<and> uart_rep (d', s') (snd (spec_uart (URead m) (n, rx, t))) \<and> (\<forall>line. line_ok lit cb s line \<longrightarrow> line_ok lit cb s' line)"
proof -
  have i: "uart.dev_inv d" "unat (ref_count d) = n" "open_flag d = (if n = 0 then 0 else RT_DEVICE_OFLAG_OPEN)"
    "rb_data (rx_rb (driver d)) = rx" "tx (driver d) = t" using assms by (simp_all add: uart_rep_def)
  obtain r d' k where o: "rt_device_read (uart_ops status) 0 m d (ukern s) = (r, d', k)" by (metis surj_pair)
  note v = uart.read_inv [OF i(1) o]
  show ?thesis
  proof (cases "n = 0")
    case True
    then have "ref_count d = 0" using i(2) by (simp add: unat_eq_0)
    then have "r = (0, [])" "d' = d" using o by (simp_all add: rt_device_read_def)
    then show ?thesis using o i True by (auto simp: uart_rep_def)
  next
    case False
    then have nz: "ref_count d \<noteq> 0" using i(2) by auto
    obtain ys rb where g: "rt_ringbuffer_get (rx_rb (driver d)) m = (ys, rb)" by force
    have "rb_inv (rx_rb (driver d))" using rep_opened(1) [OF assms] by (simp add: rx_ok_def)
    from ringbuffer.get_law [OF this g] have y: "ys = take m rx" "rb_data rb = drop m rx" using i(4) by simp_all
    have d': "r = (int (length ys), ys)" "d' = upd_uart (\<lambda>u. u\<lparr>rx_rb := rb\<rparr>) d"
      using o nz g by (simp_all add: rt_device_read_def uart_ops_def rt_uart_read_def)
    have "uart_rep (d', s\<lparr>ukern := k\<rparr>) (n, drop m rx, t)"
      using v i y by (intro uart_repI) (simp_all add: d'(2) upd_uart_def)
    then show ?thesis using o False y by (simp add: d'(1))
  qed
qed

lemma no_stream: "open_flag d = RT_DEVICE_OFLAG_OPEN \<Longrightarrow> open_flag d AND RT_DEVICE_FLAG_STREAM = 0"
  by (simp add: rt_const)

lemma uart_write_rep:
  assumes "uart_rep (d, s) (n, rx, t)" "n \<noteq> 0" "\<forall>i. \<exists>j\<ge>i. status j AND UART_STAT_TXRDY \<noteq> 0"
  shows "\<exists>d'. rt_device_write (uart_ops status) 0 xs d k = Some (int (length xs), d', k) \<and> uart_rep (d', s) (n, rx, t @ xs)"
proof -
  have i: "uart.dev_inv d" "unat (ref_count d) = n" "open_flag d = (if n = 0 then 0 else RT_DEVICE_OFLAG_OPEN)"
    "rb_data (rx_rb (driver d)) = rx" "tx (driver d) = t" using assms(1) by (simp_all add: uart_rep_def)
  have nz: "ref_count d \<noteq> 0" using i(2) assms(2) by auto
  have st: "open_flag d AND RT_DEVICE_FLAG_STREAM = 0" by (rule no_stream) (simp add: i(3) assms(2))
  obtain u where u: "uart_send_loop status False xs (driver d) = Some u" using send_loop_returns [OF assms(3)] by blast
  have w: "rt_device_write (uart_ops status) 0 xs d k = Some (int (length xs), d\<lparr>driver := u\<rparr>, k)"
    using nz u by (simp add: rt_device_write_def uart_ops_def rt_uart_write_def st)
  note v = uart.write_inv [OF i(1) w]
  have "rx_rb u = rx_rb (driver d)" "tx u = tx (driver d) @ xs" using send_loop_frame [OF u] by simp_all
  then have "uart_rep (d\<lparr>driver := u\<rparr>, s) (n, rx, t @ xs)" using v i by (intro uart_repI) simp_all
  then show ?thesis using w by blast
qed

lemma step_write:
  assumes "uart_rep (d, s) (n, rx, t)" "\<forall>i. \<exists>j\<ge>i. status j AND UART_STAT_TXRDY \<noteq> 0"
  shows "\<exists>d' s'. uart_step status lit cb dev (UWrite xs) (d, s) = Some (fst (spec_uart (UWrite xs) (n, rx, t)), d', s')
    \<and> uart_rep (d', s') (snd (spec_uart (UWrite xs) (n, rx, t))) \<and> (\<forall>line. line_ok lit cb s line \<longrightarrow> line_ok lit cb s' line)"
proof (cases "n = 0")
  case True
  then have "ref_count d = 0" using assms(1) by (simp add: uart_rep_def unat_eq_0)
  then show ?thesis using assms(1) True by (auto simp: rt_device_write_def uart_rep_def)
next
  case False
  from uart_write_rep [OF assms(1) False assms(2), of xs "ukern s"] show ?thesis using False by auto
qed

lemma step_recv:
  assumes "uart_rep (d, s) (n, rx, t)" "line_ok lit cb s line"
  shows "\<exists>d' s'. uart_step status lit cb dev (URecv b) (d, s) = Some (Quiet, d', s')
    \<and> uart_rep (d', s') (snd (spec_uart (URecv b) (n, rx, t))) \<and> (\<exists>line'. line_ok lit cb s' line')"
proof (cases "n = 0")
  case True
  then show ?thesis using assms rep_opened(2) [OF assms(1)] by auto
next
  case False
  have i: "uart.dev_inv d" "unat (ref_count d) = n" "open_flag d = (if n = 0 then 0 else RT_DEVICE_OFLAG_OPEN)"
    "rb_data (rx_rb (driver d)) = rx" "tx (driver d) = t" using assms(1) by (simp_all add: uart_rep_def)
  have nz: "ref_count d \<noteq> 0" using i(2) False by auto
  have op: "uart_opened (driver d)" "rx_ok (driver d)" using rep_opened [OF assms(1)] False by simp_all
  let ?s = "s\<lparr>ukern := rt_interrupt_enter (ukern s)\<rparr>"
  let ?rb = "snd (rt_ringbuffer_putchar_force (rx_rb (driver d)) b)"
  define d' where "d' = upd_uart (\<lambda>u. u\<lparr>rx_rb := ?rb\<rparr>) d"
  have "line_ok lit cb ?s line" using assms(2) by (simp add: line_ok_def)
  from handle_char_ok [OF this, of b] obtain s1 where s1: "uart_handle_char lit cb b ?s = Some s1" "line_ok lit cb s1 (fst (edit_char b line))"
    by blast
  note r = newest_is_force [OF op(2), of b]
  have "uart_opened (driver d')" using op(1) r by (simp add: d'_def upd_uart_def uart_opened_def)
  then have v: "uart.dev_inv d' \<and> ref_count d' = ref_count d"
    using uart.driver_step [OF i(1) _ nz, of d'] by (simp add: d'_def upd_uart_def)
  have "uart_rep (d', s') (n, newest 8 (rx @ [b]), t)" for s'
    using v i r False by (intro uart_repI) (simp_all add: d'_def upd_uart_def)
  moreover have "UART_STAT_RXRDY AND UART_STAT_RXRDY \<noteq> 0" by (simp add: rt_const)
  moreover have "upd_uart (\<lambda>u. u\<lparr>rx_rb := snd (rt_ringbuffer_putchar_force (rx_rb u) b)\<rparr>) d = d'"
    by (simp add: d'_def upd_uart_def)
  moreover have "\<exists>line'. line_ok lit cb (s1\<lparr>ukern := k\<rparr>) line'"
      "\<exists>line'. line_ok lit cb ((uart_event e s1)\<lparr>ukern := k\<rparr>) line'" for k e
    using s1(2) by auto
  ultimately show ?thesis
    using rep_opened(2) [OF assms(1)] False s1(1)
    by (cases "rx_indicate d'") (auto simp: uart_irq_handler_def Let_def)
qed

lemma uart_step_ok:
  assumes "uart_rep p a" "line_ok lit cb (snd p) line" "is_open c \<longrightarrow> fst a < 255"
    and "\<forall>i. \<exists>j\<ge>i. status j AND UART_STAT_TXRDY \<noteq> 0"
  shows "\<exists>p'. uart_step status lit cb dev c p = Some (fst (spec_uart c a), p') \<and> uart_rep p' (snd (spec_uart c a))
    \<and> (\<exists>line'. line_ok lit cb (snd p') line')"
proof -
  obtain d s where p: "p = (d, s)" by force
  obtain n rx t where a: "a = (n, rx, t)" by (metis surj_pair)
  have r: "uart_rep (d, s) (n, rx, t)" "line_ok lit cb s line" using assms(1,2) by (simp_all add: p a)
  show ?thesis
  proof (cases c)
    case (UOpen oflag)
    then have "n < 255" using assms(3) by (simp add: a)
    then show ?thesis using step_open [OF r(1), of status lit cb dev oflag] r(2) unfolding UOpen p a by auto
  next
    case UClose
    show ?thesis using step_close [OF r(1), of status lit cb dev] r(2) unfolding UClose p a by (metis snd_conv)
  next
    case (URead m)
    show ?thesis using step_read [OF r(1), of status lit cb dev m] r(2) unfolding URead p a by (metis snd_conv)
  next
    case (UWrite xs)
    show ?thesis using step_write [OF r(1) assms(4), of lit cb dev xs] r(2) unfolding UWrite p a by (metis snd_conv)
  next
    case (URecv b)
    have "fst (spec_uart (URecv b) (n, rx, t)) = Quiet" by simp
    then show ?thesis using step_recv [OF r, of status dev b] unfolding URecv p a by (metis snd_conv)
  qed
qed

lemma spec_uart_users: "fst (snd (spec_uart c a)) \<le> fst a + (if is_open c then 1 else 0)"
  by (cases "(c, a)" rule: spec_uart.cases) auto

lemma uart_run_ok:
  assumes "uart_rep p a" "line_ok lit cb (snd p) line" "fst a + length (filter is_open cs) < 256"
    and "\<forall>i. \<exists>j\<ge>i. status j AND UART_STAT_TXRDY \<noteq> 0"
  shows "\<exists>p'. uart_run status lit cb dev cs p = Some (fst (spec_uart_run cs a), p') \<and> uart_rep p' (snd (spec_uart_run cs a))"
  using assms(1-3)
proof (induction cs arbitrary: p a line)
  case (Cons c cs)
  have o: "is_open c \<longrightarrow> fst a < 255" using Cons.prems(3) by auto
  obtain p1 line1 where 1: "uart_step status lit cb dev c p = Some (fst (spec_uart c a), p1)" "uart_rep p1 (snd (spec_uart c a))"
      "line_ok lit cb (snd p1) line1"
    using uart_step_ok [OF Cons.prems(1,2) o assms(4)] by blast
  have b: "fst (snd (spec_uart c a)) + length (filter is_open cs) < 256"
    using Cons.prems(3) spec_uart_users [of c a] by (auto split: if_splits)
  from Cons.IH [OF 1(2,3) b] show ?case by (auto simp: 1(1) split_beta)
qed simp

lemma uart1_rep: "uart_rep (uart1_static\<lparr>dflag := uart_flags\<rparr>, s) (0, [], [])"
proof -
  let ?d = "uart1_static\<lparr>dflag := uart_flags\<rparr>"
  have r: "rx_ok (driver ?d)" "rb_data (rx_rb (driver ?d)) = []"
    using init_ok [of UART_RX_BUFSZ "replicate UART_RX_BUFSZ 0"] by (simp_all add: uart1_static_def rx_ok_def rt_const rt_ringbuffer_init_def)
  have "uart.dev_inv ?d" using r(1) unfolding uart.dev_inv_def flags_ok_def uart_fresh_def by (simp add: uart1_static_def) (simp add: rt_const)
  then show ?thesis using r(2) by (intro uart_repI) (simp_all add: uart1_static_def)
qed

text \<open>C8. Seen through the device framework, the driver is a line with a count of its users, a first-in first-out
  buffer of the last eight bytes received and an unlimited output: whatever the order of openings, closings,
  reads, writes and receive interrupts, every call returns and answers as this specification does. Unread bytes
  survive the closing, nothing is received while the device is closed, and bytes are written as they are, since
  an opening never sets the mode that would put a carriage return before a line feed. The transmitter has to
  become ready again and again, and at most 255 openings may be counted. The text that the command line prints,
  which the console may send over the same wires, is recorded apart.\<close>

theorem uart_conversation:
  assumes "\<forall>i. \<exists>j\<ge>i. status j AND UART_STAT_TXRDY \<noteq> 0" "line_ok lit cb s line" "length (filter is_open cs) < 256"
  shows "\<exists>d' s'. uart_run status lit cb dev cs (uart1_static\<lparr>dflag := uart_flags\<rparr>, s) = Some (fst (spec_uart_run cs (0, [], [])), d', s')
    \<and> uart_rep (d', s') (snd (spec_uart_run cs (0, [], [])))"
  using uart_run_ok [OF uart1_rep _ _ assms(1), of lit cb s line cs dev] assms(2,3) by auto

text \<open>Nine bytes arrive, and the oldest is lost; the line is closed and opened again before it is read.\<close>

theorem uart_conversation_witness:
  "\<exists>d' s'. uart_run (\<lambda>i. if i mod 3 = 0 then UART_STAT_TXRDY else 0) demo_lits 100 0
      ([UOpen RT_DEVICE_FLAG_INT_RX] @ map URecv [49, 50, 51, 52, 53, 54, 55, 56, 57] @ [UClose, URecv 65, URead 4, UOpen 0, UWrite [10], URead 4])
      (uart1_static\<lparr>dflag := uart_flags\<rparr>, demo_uart_sys)
    = Some ([Code 0] @ replicate 9 Quiet @ [Code 0, Quiet, Bytes 0 [], Code 0, Code 1, Bytes 4 [50, 51, 52, 53]], d', s')
    \<and> tx (driver d') = [10]"
proof -
  let ?cs = "[UOpen RT_DEVICE_FLAG_INT_RX] @ map URecv [49, 50, 51, 52, 53, 54, 55, 56, 57] @ [UClose, URecv 65, URead 4, UOpen 0, UWrite [10], URead 4]"
  have e: "spec_uart_run ?cs (0, [], [])
      = ([Code 0] @ replicate 9 Quiet @ [Code 0, Quiet, Bytes 0 [], Code 0, Code 1, Bytes 4 [50, 51, 52, 53]], 1, [54, 55, 56, 57], [10])"
    by code_simp
  have st: "\<forall>i::nat. \<exists>j\<ge>i. (if j mod 3 = 0 then UART_STAT_TXRDY else 0) AND UART_STAT_TXRDY \<noteq> 0"
  proof
    fix i :: nat
    have "i \<le> 3 * i \<and> (if 3 * i mod 3 = 0 then UART_STAT_TXRDY else 0) AND UART_STAT_TXRDY \<noteq> 0" by (simp add: rt_const)
    then show "\<exists>j\<ge>i. (if j mod 3 = 0 then UART_STAT_TXRDY else 0) AND UART_STAT_TXRDY \<noteq> 0" by blast
  qed
  have l: "line_ok demo_lits 100 demo_uart_sys []" using demo_literals_ok by (simp add: line_ok_def rt_const demo_uart_sys_def)
  have n: "length (filter is_open ?cs) < 256" by code_simp
  from uart_conversation [OF st l n, of 0] show ?thesis unfolding e by (auto simp: uart_rep_def)
qed

section \<open>The count of users\<close>

text \<open>The count has eight bits: the opening number 256 leaves a device that is open and has no users, so that it can
  no longer be closed.\<close>

lemma uart_open_wraps:
  assumes "flags_ok uart_flags d" "ref_count d = 255" "rt_device_open (uart_ops status) oflag d = (e, d')"
  shows "e = RT_EOK \<and> ref_count d' = 0 \<and> open_flag d' AND RT_DEVICE_OFLAG_OPEN \<noteq> 0
    \<and> rt_device_close (uart_ops status) d' = (- RT_ERROR, d')"
proof -
  note f = uart_open_frame [OF assms(1,3)]
  have "ref_count d' = ref_count d + 1"
  proof -
    obtain d1 where d1: "device_activate (uart_ops status) d = (RT_EOK, d1)" "ref_count d1 = ref_count d" "flags_ok uart_flags d1"
      using assms(1) by (cases "dflag d AND RT_DEVICE_FLAG_ACTIVATED = 0")
        (simp_all add: device_activate_def uart_ops_def rt_uart_init_def upd_uart_def flags_ok_def word_bw_assocs)
    show ?thesis using assms(3) d1 no_standalone [OF d1(3)]
      by (auto simp: rt_device_open_def uart_ops_def rt_uart_open_def upd_uart_def split: if_splits)
  qed
  then have "ref_count d' = 0" using assms(2) by simp
  then show ?thesis using f by (simp add: rt_device_close_def)
qed

end
