(* ===== verification/KPrintf.thy ===== *)
theory KPrintf
  imports LibUtil
begin

text \<open>
  Formatted output (os_rtt/src/kservice.c): print_number, rt_vsnprintf and the functions around it, as built with
  RT_PRINTF_PRECISION and RT_PRINTF_SPECIAL and without long long. The format, the string arguments and the
  output are in memory; arguments are 32-bit words, and reading more arguments than there are is \<open>None\<close>. The
  signed ints of the code (widths, precisions) are integers: a width that overflows an int is outside the
  language, and outside the model. Loops over the format and over strings may not end, as in LibUtil.
\<close>

abbreviation ascii :: "char \<Rightarrow> u8" where "ascii c \<equiv> of_char c"

definition ZEROPAD :: u8 where [rt_const]: "ZEROPAD = 1"
definition SIGN :: u8 where [rt_const]: "SIGN = 2"
definition PLUS :: u8 where [rt_const]: "PLUS = 4"
definition SPACE :: u8 where [rt_const]: "SPACE = 8"
definition LEFT :: u8 where [rt_const]: "LEFT = 16"
definition SPECIAL :: u8 where [rt_const]: "SPECIAL = 32"
definition LARGE :: u8 where [rt_const]: "LARGE = 64"

section \<open>Output\<close>

text \<open>\<open>if (buf < end) *buf = c; ++buf;\<close>, on the memory and the pointer.\<close>

type_synonym out = "mem \<times> nat"

definition out_char :: "nat \<Rightarrow> u8 \<Rightarrow> out \<Rightarrow> out" where
  "out_char lim c b = ((if snd b < lim then (fst b)(snd b := c) else fst b), snd b + 1)"

text \<open>\<open>while (size-- > 0)\<close> and \<open>while (--field_width > 0)\<close>, with the counter as the loop leaves it.\<close>

function out_pad :: "nat \<Rightarrow> u8 \<Rightarrow> int \<Rightarrow> out \<Rightarrow> int \<times> out" where
  "out_pad lim c n b = (if n > 0 then out_pad lim c (n - 1) (out_char lim c b) else (n - 1, b))"
  by pat_completeness auto
termination by (relation "measure (\<lambda>(lim, c, n, b). nat n)") auto

function out_pad_pre :: "nat \<Rightarrow> u8 \<Rightarrow> int \<Rightarrow> out \<Rightarrow> int \<times> out" where
  "out_pad_pre lim c w b = (if w - 1 > 0 then out_pad_pre lim c (w - 1) (out_char lim c b) else (w - 1, b))"
  by pat_completeness auto
termination by (relation "measure (\<lambda>(lim, c, w, b). nat w)") auto

text \<open>\<open>while (len < field_width--)\<close>.\<close>

function out_pad_to :: "nat \<Rightarrow> int \<Rightarrow> int \<Rightarrow> out \<Rightarrow> int \<times> out" where
  "out_pad_to lim len w b = (if len < w then out_pad_to lim len (w - 1) (out_char lim 32 b) else (w - 1, b))"
  by pat_completeness auto
termination by (relation "measure (\<lambda>(lim, len, w, b). nat (w - len))") auto

section \<open>Numbers\<close>

definition divide :: "u32 \<Rightarrow> u32 \<Rightarrow> u32 \<times> u32" where
  "divide n base = (n mod base, n div base)"

definition small_digits :: "u8 list" where "small_digits = str ''0123456789abcdef''"
definition large_digits :: "u8 list" where "large_digits = str ''0123456789ABCDEF''"

partial_function (option) num_digits :: "u8 list \<Rightarrow> u32 \<Rightarrow> u32 \<Rightarrow> u8 list \<Rightarrow> u8 list option" where
  [code]: "num_digits digits base num tmp =
     (if num \<noteq> 0 then num_digits digits base (snd (divide num base)) (tmp @ [digits ! unat (fst (divide num base))])
      else Some tmp)"

definition get_sign :: "u8 \<Rightarrow> u8 \<Rightarrow> u32 \<Rightarrow> u8 \<times> u32" where
  "get_sign qualifier ty num =
     (if ty AND SIGN \<noteq> 0 then
        (let (neg, num1) = (if qualifier = ascii (CHR ''h'')
                            then (sint (ucast num :: 16 word) < 0, ucast (ucast (- num) :: 16 word))
                            else (sint num < 0, - num))
         in if neg then (ascii (CHR ''-''), num1)
            else (if ty AND PLUS \<noteq> 0 then ascii (CHR ''+'') else if ty AND SPACE \<noteq> 0 then 32 else 0, num))
      else (0, num))"

definition special_size :: "u8 \<Rightarrow> u32 \<Rightarrow> int \<Rightarrow> int" where
  "special_size ty base sz =
     (if ty AND SPECIAL \<noteq> 0 then if base = 2 \<or> base = 16 then sz - 2 else if base = 8 then sz - 1 else sz else sz)"

definition out_prefix :: "nat \<Rightarrow> u8 \<Rightarrow> u32 \<Rightarrow> out \<Rightarrow> out" where
  "out_prefix lim ty base b =
     (if ty AND SPECIAL \<noteq> 0 then
        if base = 2 then out_char lim (ascii (CHR ''b'')) (out_char lim 48 b)
        else if base = 8 then out_char lim 48 b
        else if base = 16 then out_char lim (if ty AND LARGE \<noteq> 0 then ascii (CHR ''X'') else ascii (CHR ''x'')) (out_char lim 48 b)
        else b
      else b)"

function out_prec :: "nat \<Rightarrow> int \<Rightarrow> int \<Rightarrow> out \<Rightarrow> out" where
  "out_prec lim i precision b = (if i < precision then out_prec lim i (precision - 1) (out_char lim 48 b) else b)"
  by pat_completeness auto
termination by (relation "measure (\<lambda>(lim, i, p, b). nat (p - i))") auto

fun out_digits :: "nat \<Rightarrow> u8 list \<Rightarrow> nat \<Rightarrow> int \<Rightarrow> out \<Rightarrow> out" where
  "out_digits lim tmp 0 precision_bak b = b"
| "out_digits lim tmp (Suc i) precision_bak b =
     (if precision_bak \<noteq> 0 then out_digits lim tmp i precision_bak (out_char lim (tmp ! i) b) else b)"

text \<open>The second half of print_number, from the digits in \<open>tmp\<close> to the output.\<close>

definition number_out :: "nat \<Rightarrow> u8 \<Rightarrow> u32 \<Rightarrow> u8 \<Rightarrow> u8 list \<Rightarrow> int \<Rightarrow> int \<Rightarrow> out \<Rightarrow> out" where
  "number_out lim ty base sg tmp size0 precision b =
     (let i = length tmp;
          prec = (if int i > precision then int i else precision);
          size1 = size0 - prec;
          (size2, b1) = (if ty AND (ZEROPAD OR LEFT) = 0
                         then out_pad lim 32 (if sg \<noteq> 0 \<and> size1 > 0 then size1 - 1 else size1) b else (size1, b));
          (size3, b2) = (if sg \<noteq> 0 then (size2 - 1, out_char lim sg b1) else (size2, b1));
          b3 = out_prefix lim ty base b2;
          (size4, b4) = (if ty AND LEFT = 0 then out_pad lim (if ty AND ZEROPAD \<noteq> 0 then 48 else 32) size3 b3 else (size3, b3));
          b5 = out_prec lim (int i) prec b4;
          b6 = out_digits lim tmp i precision b5
      in snd (out_pad lim 32 size4 b6))"

definition print_number :: "nat \<Rightarrow> u32 \<Rightarrow> u32 \<Rightarrow> u8 \<Rightarrow> int \<Rightarrow> int \<Rightarrow> u8 \<Rightarrow> out \<Rightarrow> out option" where
  "print_number lim num base qualifier s precision ty0 b =
     (let digits = (if ty0 AND LARGE \<noteq> 0 then large_digits else small_digits);
          ty = (if ty0 AND LEFT \<noteq> 0 then ty0 AND NOT ZEROPAD else ty0);
          (sg, num1) = get_sign qualifier ty num
      in map_option (\<lambda>tmp. number_out lim ty base sg tmp (special_size ty base s) precision b)
           (if num1 = 0 then Some [48] else num_digits digits base num1 []))"

section \<open>Reading the format\<close>

definition ISDIGIT :: "u8 \<Rightarrow> bool" where "ISDIGIT c \<longleftrightarrow> (ucast c - 48 :: u32) < 10"

partial_function (option) skip_atoi :: "mem \<Rightarrow> nat \<Rightarrow> int \<Rightarrow> (int \<times> nat) option" where
  [code]: "skip_atoi m s i = (if ISDIGIT (m s) then skip_atoi m (s + 1) (i * 10 + uint (m s) - 48) else Some (i, s))"

partial_function (option) flags_loop :: "mem \<Rightarrow> nat \<Rightarrow> u8 \<Rightarrow> (nat \<times> u8) option" where
  [code]: "flags_loop m fmt flags =
     (let f = fmt + 1 in
      if m f = ascii (CHR ''-'') then flags_loop m f (flags OR LEFT)
      else if m f = ascii (CHR ''+'') then flags_loop m f (flags OR PLUS)
      else if m f = 32 then flags_loop m f (flags OR SPACE)
      else if m f = ascii (CHR ''#'') then flags_loop m f (flags OR SPECIAL)
      else if m f = 48 then flags_loop m f (flags OR ZEROPAD)
      else Some (f, flags))"

definition get_width :: "mem \<Rightarrow> nat \<Rightarrow> u8 \<Rightarrow> u32 list \<Rightarrow> (int \<times> u8 \<times> nat \<times> u32 list) option" where
  "get_width m fmt flags args =
     (if ISDIGIT (m fmt) then map_option (\<lambda>(w, f). (w, flags, f, args)) (skip_atoi m fmt 0)
      else if m fmt = ascii (CHR ''*'') then
        (case args of [] \<Rightarrow> None
         | a # as \<Rightarrow> Some (if sint a < 0 then (- sint a, flags OR LEFT, fmt + 1, as) else (sint a, flags, fmt + 1, as)))
      else Some (-1, flags, fmt, args))"

definition get_precision :: "mem \<Rightarrow> nat \<Rightarrow> u32 list \<Rightarrow> (int \<times> nat \<times> u32 list) option" where
  "get_precision m fmt args =
     (if m fmt = ascii (CHR ''.'') then
        do { (p, f, as) \<leftarrow>
               (if ISDIGIT (m (fmt + 1)) then map_option (\<lambda>(p, f). (p, f, args)) (skip_atoi m (fmt + 1) 0)
                else if m (fmt + 1) = ascii (CHR ''*'') then
                  (case args of [] \<Rightarrow> None | a # as \<Rightarrow> Some (sint a, fmt + 2, as))
                else Some (-1, fmt + 1, args));
             Some (if p < 0 then 0 else p, f, as) }
      else Some (-1, fmt, args))"

definition get_qualifier :: "mem \<Rightarrow> nat \<Rightarrow> u8 \<times> nat" where
  "get_qualifier m fmt = (if m fmt = ascii (CHR ''h'') \<or> m fmt = ascii (CHR ''l'') then (m fmt, fmt + 1) else (0, fmt))"

section \<open>Conversions\<close>

definition conv_c :: "nat \<Rightarrow> u8 \<Rightarrow> int \<Rightarrow> u32 \<Rightarrow> out \<Rightarrow> out" where
  "conv_c lim flags w a b =
     (let (w1, b1) = (if flags AND LEFT = 0 then out_pad_pre lim 32 w b else (w, b))
      in snd (out_pad_pre lim 32 w1 (out_char lim (ucast a) b1)))"

partial_function (option) str_len :: "mem \<Rightarrow> nat \<Rightarrow> int \<Rightarrow> nat \<Rightarrow> nat option" where
  [code]: "str_len m s w len = (if int len \<noteq> w \<and> m (s + len) \<noteq> 0 then str_len m s w (len + 1) else Some len)"

fun str_copy :: "nat \<Rightarrow> nat \<Rightarrow> nat \<Rightarrow> out \<Rightarrow> out" where
  "str_copy lim 0 s b = b"
| "str_copy lim (Suc n) s b = str_copy lim n (s + 1) (out_char lim (fst b s) b)"

text \<open>\<open>nul\<close> is the address of the literal for a null pointer.\<close>

definition conv_s :: "nat \<Rightarrow> nat \<Rightarrow> u8 \<Rightarrow> int \<Rightarrow> int \<Rightarrow> u32 \<Rightarrow> out \<Rightarrow> out option" where
  "conv_s nul lim flags w precision a b =
     (let s = (if a = 0 then nul else unat a) in
      do { len0 \<leftarrow> str_len (fst b) s w 0;
           let len = (if precision > 0 \<and> int len0 > precision then nat precision else len0);
           let (w1, b1) = (if flags AND LEFT = 0 then out_pad_to lim (int len) w b else (w, b));
           Some (snd (out_pad_to lim (int len) w1 (str_copy lim len s b1))) })"

definition conv_p :: "nat \<Rightarrow> u8 \<Rightarrow> int \<Rightarrow> int \<Rightarrow> u8 \<Rightarrow> u32 \<Rightarrow> out \<Rightarrow> out option" where
  "conv_p lim flags w precision qualifier a b =
     (let (w1, fl) = (if w = -1 then (4 * 2 + 2, flags OR SPECIAL OR ZEROPAD) else (w, flags))
      in print_number lim a 16 qualifier w1 precision fl b)"

definition arg_num :: "u8 \<Rightarrow> u8 \<Rightarrow> u32 \<Rightarrow> u32" where
  "arg_num qualifier flags a =
     (if qualifier = ascii (CHR ''l'') then a
      else if qualifier = ascii (CHR ''h'') then (if flags AND SIGN \<noteq> 0 then scast (ucast a :: 16 word) else ucast (ucast a :: 16 word))
      else a)"

text \<open>The base and the flags of an integer conversion.\<close>

definition int_conv :: "u8 \<Rightarrow> u8 \<Rightarrow> (u32 \<times> u8) option" where
  "int_conv c flags =
     (if c = ascii (CHR ''b'') then Some (2, flags) else if c = ascii (CHR ''o'') then Some (8, flags)
      else if c = ascii (CHR ''X'') then Some (16, flags OR LARGE) else if c = ascii (CHR ''x'') then Some (16, flags)
      else if c = ascii (CHR ''d'') \<or> c = ascii (CHR ''i'') then Some (10, flags OR SIGN)
      else if c = ascii (CHR ''u'') then Some (10, flags) else None)"

definition vsn_convert :: "nat \<Rightarrow> nat \<Rightarrow> u8 \<Rightarrow> int \<Rightarrow> int \<Rightarrow> u8 \<Rightarrow> nat \<Rightarrow> u32 list \<Rightarrow> out \<Rightarrow> (out \<times> nat \<times> u32 list) option" where
  "vsn_convert nul lim flags w precision qualifier fmt args b =
     (let c = fst b fmt in
      if c = ascii (CHR ''c'') then (case args of [] \<Rightarrow> None | a # as \<Rightarrow> Some (conv_c lim flags w a b, fmt, as))
      else if c = ascii (CHR ''s'') then
        (case args of [] \<Rightarrow> None | a # as \<Rightarrow> map_option (\<lambda>b'. (b', fmt, as)) (conv_s nul lim flags w precision a b))
      else if c = ascii (CHR ''p'') then
        (case args of [] \<Rightarrow> None | a # as \<Rightarrow> map_option (\<lambda>b'. (b', fmt, as)) (conv_p lim flags w precision qualifier a b))
      else if c = ascii (CHR ''%'') then Some (out_char lim (ascii (CHR ''%'')) b, fmt, args)
      else case int_conv c flags of
        Some (base, fl) \<Rightarrow>
          (case args of [] \<Rightarrow> None
           | a # as \<Rightarrow> map_option (\<lambda>b'. (b', fmt, as)) (print_number lim (arg_num qualifier fl a) base qualifier w precision fl b))
      | None \<Rightarrow>
          (let b1 = out_char lim (ascii (CHR ''%'')) b
           in Some (if c \<noteq> 0 then (out_char lim c b1, fmt, args) else (b1, fmt - 1, args))))"

definition vsn_directive :: "nat \<Rightarrow> nat \<Rightarrow> nat \<Rightarrow> u32 list \<Rightarrow> out \<Rightarrow> (out \<times> nat \<times> u32 list) option" where
  "vsn_directive nul lim fmt args b =
     do { (f1, fl1) \<leftarrow> flags_loop (fst b) fmt 0;
          (w, fl2, f2, as2) \<leftarrow> get_width (fst b) f1 fl1 args;
          (p, f3, as3) \<leftarrow> get_precision (fst b) f2 as2;
          let (q, f4) = get_qualifier (fst b) f3;
          vsn_convert nul lim fl2 w p q f4 as3 b }"

partial_function (option) vsn_loop :: "nat \<Rightarrow> nat \<Rightarrow> nat \<Rightarrow> u32 list \<Rightarrow> out \<Rightarrow> out option" where
  [code]: "vsn_loop nul lim fmt args b =
     (if fst b fmt = 0 then Some b
      else if fst b fmt \<noteq> ascii (CHR ''%'') then vsn_loop nul lim (fmt + 1) args (out_char lim (fst b fmt) b)
      else do { (b', f, as) \<leftarrow> vsn_directive nul lim fmt args b; vsn_loop nul lim (f + 1) as b' })"

definition rt_vsnprintf :: "nat \<Rightarrow> mem \<Rightarrow> nat \<Rightarrow> nat \<Rightarrow> nat \<Rightarrow> u32 list \<Rightarrow> (nat \<times> mem) option" where
  "rt_vsnprintf nul m buf sz fmt args =
     (let lim0 = add32 buf sz;
          (lim, sz1) = (if lim0 < buf then (2 ^ 32 - 1, 2 ^ 32 - 1 - buf) else (lim0, sz))
      in do { (m1, p) \<leftarrow> vsn_loop nul lim fmt args (m, buf);
              Some (p - buf, if sz1 > 0 then (if p < lim then m1(p := 0) else m1(lim - 1 := 0)) else m1) })"

definition rt_snprintf :: "nat \<Rightarrow> mem \<Rightarrow> nat \<Rightarrow> nat \<Rightarrow> nat \<Rightarrow> u32 list \<Rightarrow> (nat \<times> mem) option" where
  "rt_snprintf nul m buf sz fmt args = rt_vsnprintf nul m buf sz fmt args"

definition rt_vsprintf :: "nat \<Rightarrow> mem \<Rightarrow> nat \<Rightarrow> nat \<Rightarrow> u32 list \<Rightarrow> (nat \<times> mem) option" where
  "rt_vsprintf nul m buf fmt args = rt_vsnprintf nul m buf (2 ^ 32 - 1) fmt args"

definition rt_sprintf :: "nat \<Rightarrow> mem \<Rightarrow> nat \<Rightarrow> nat \<Rightarrow> u32 list \<Rightarrow> (nat \<times> mem) option" where
  "rt_sprintf nul m buf fmt args = rt_vsprintf nul m buf fmt args"

section \<open>What a format means\<close>

text \<open>
  The reference: the text of a number from its sign and its digits, the text of a directive from its parts, and the
  text of a format from its directives. \<open>strs a\<close> is the string at address \<open>a\<close>.
\<close>

function digits_of :: "nat \<Rightarrow> nat \<Rightarrow> nat list" where
  "digits_of b n = (if n < b \<or> b < 2 then [n] else digits_of b (n div b) @ [n mod b])"
  by pat_completeness auto
termination by (relation "measure snd") (auto intro: div_less_dividend)

definition digit_char :: "bool \<Rightarrow> nat \<Rightarrow> u8" where
  "digit_char large d = of_nat (if d < 10 then 48 + d else if large then 55 + d else 87 + d)"

definition number_text :: "u8 \<Rightarrow> nat \<Rightarrow> int \<Rightarrow> int \<Rightarrow> u8 list \<Rightarrow> nat \<Rightarrow> u8 list" where
  "number_text fl base w p sg n =
     (let ds = map (digit_char (fl AND LARGE \<noteq> 0)) (digits_of base n);
          body = (if p = 0 then [] else replicate (nat p - length ds) 48 @ ds);
          pre = (if fl AND SPECIAL = 0 then [] else if base = 2 then [48, 98] else if base = 8 then [48]
                 else if base = 16 then [48, if fl AND LARGE \<noteq> 0 then 88 else 120] else []);
          pad = nat (w - int (length pre) - int (max (length ds) (nat p)) - int (length sg))
      in if fl AND LEFT \<noteq> 0 then sg @ pre @ body @ replicate pad 32
         else if fl AND ZEROPAD \<noteq> 0 then sg @ pre @ replicate pad 48 @ body
         else replicate pad 32 @ sg @ pre @ body)"

definition number_value :: "u8 \<Rightarrow> u8 \<Rightarrow> u32 \<Rightarrow> int" where
  "number_value q fl a =
     (if fl AND SIGN \<noteq> 0 then (if q = ascii (CHR ''h'') then sint (ucast a :: 16 word) else sint a)
      else if q = ascii (CHR ''h'') then uint (ucast a :: 16 word) else uint a)"

definition sign_text :: "u8 \<Rightarrow> int \<Rightarrow> u8 list" where
  "sign_text fl v = (if fl AND SIGN = 0 then [] else if v < 0 then [45] else if fl AND PLUS \<noteq> 0 then [43]
     else if fl AND SPACE \<noteq> 0 then [32] else [])"

definition char_text :: "u8 \<Rightarrow> int \<Rightarrow> u32 \<Rightarrow> u8 list" where
  "char_text fl w a = (let pad = replicate (nat (w - 1)) 32 in if fl AND LEFT \<noteq> 0 then ucast a # pad else pad @ [ucast a])"

definition string_text :: "u8 \<Rightarrow> int \<Rightarrow> int \<Rightarrow> u8 list \<Rightarrow> u8 list" where
  "string_text fl w p s =
     (let n0 = (if w < 0 then length s else min (length s) (nat w));
          t = take (if p > 0 \<and> int n0 > p then nat p else n0) s;
          pad = replicate (nat (w - int (length t))) 32
      in if fl AND LEFT \<noteq> 0 then t @ pad else pad @ t)"

definition flag_bit :: "u8 \<Rightarrow> u8" where
  "flag_bit c = (if c = 45 then LEFT else if c = 43 then PLUS else if c = 32 then SPACE else if c = 35 then SPECIAL
     else if c = 48 then ZEROPAD else 0)"

abbreviation is_flag :: "u8 \<Rightarrow> bool" where "is_flag c \<equiv> flag_bit c \<noteq> 0"

definition spec_flags :: "u8 \<Rightarrow> u8 list \<Rightarrow> u8" where
  "spec_flags fl cs = fold (\<lambda>c f. f OR flag_bit c) (takeWhile is_flag cs) fl"

definition spec_atoi :: "int \<Rightarrow> u8 list \<Rightarrow> int" where
  "spec_atoi i cs = fold (\<lambda>c i. i * 10 + uint c - 48) (takeWhile ISDIGIT cs) i"

text \<open>A number in the format, a star that takes it from the arguments, or nothing.\<close>

definition spec_field :: "u8 list \<Rightarrow> u32 list \<Rightarrow> (int option \<times> u8 list \<times> u32 list) option" where
  "spec_field cs args =
     (case cs of [] \<Rightarrow> Some (None, [], args)
      | c # cs' \<Rightarrow> if ISDIGIT c then Some (Some (spec_atoi 0 cs), dropWhile ISDIGIT cs, args)
                  else if c = 42 then (case args of [] \<Rightarrow> None | a # as \<Rightarrow> Some (Some (sint a), cs', as))
                  else Some (None, cs, args))"

definition spec_width :: "u8 \<Rightarrow> u8 list \<Rightarrow> u32 list \<Rightarrow> (int \<times> u8 \<times> u8 list \<times> u32 list) option" where
  "spec_width fl cs args =
     map_option (\<lambda>(w, cs', as). case w of None \<Rightarrow> (-1, fl, cs', as) | Some n \<Rightarrow> (\<bar>n\<bar>, if n < 0 then fl OR LEFT else fl, cs', as))
       (spec_field cs args)"

definition spec_precision :: "u8 list \<Rightarrow> u32 list \<Rightarrow> (int \<times> u8 list \<times> u32 list) option" where
  "spec_precision cs args =
     (case cs of [] \<Rightarrow> Some (-1, [], args)
      | c # cs' \<Rightarrow> if c = 46 then map_option (\<lambda>(p, r). (case p of None \<Rightarrow> 0 | Some n \<Rightarrow> max n 0, r)) (spec_field cs' args)
                  else Some (-1, cs, args))"

definition spec_qualifier :: "u8 list \<Rightarrow> u8 \<times> u8 list" where
  "spec_qualifier cs = (case cs of [] \<Rightarrow> (0, []) | c # cs' \<Rightarrow> if c = 104 \<or> c = 108 then (c, cs') else (0, cs))"

definition spec_convert :: "(u32 \<Rightarrow> u8 list option) \<Rightarrow> u8 \<Rightarrow> int \<Rightarrow> int \<Rightarrow> u8 \<Rightarrow> u8 list \<Rightarrow> u32 list
    \<Rightarrow> (u8 list \<times> u8 list \<times> u32 list) option" where
  "spec_convert strs fl w p q cs args =
     (case cs of [] \<Rightarrow> Some ([37], [], args)
      | c # cs' \<Rightarrow>
        if c = 37 then Some ([37], cs', args)
        else if c \<notin> set (str ''cspboXxdiu'') then Some ([37, c], cs', args)
        else case args of [] \<Rightarrow> None
          | a # as \<Rightarrow>
            if c = 99 then Some (char_text fl w a, cs', as)
            else if c = 115 then
              map_option (\<lambda>s. (string_text fl w p s, cs', as)) (if a = 0 then Some (str ''(NULL)'') else strs a)
            else if c = 112 then
              Some (if w = -1 then number_text (fl OR SPECIAL OR ZEROPAD) 16 10 p [] (unat a) else number_text fl 16 w p [] (unat a), cs', as)
            else case int_conv c fl of None \<Rightarrow> None
              | Some (base, fl1) \<Rightarrow>
                  let v = number_value q fl1 a in Some (number_text fl1 (unat base) w p (sign_text fl1 v) (nat \<bar>v\<bar>), cs', as))"

definition spec_directive :: "(u32 \<Rightarrow> u8 list option) \<Rightarrow> u8 list \<Rightarrow> u32 list \<Rightarrow> (u8 list \<times> u8 list \<times> u32 list) option" where
  "spec_directive strs cs args =
     do { (w, fl, cs2, as2) \<leftarrow> spec_width (spec_flags 0 cs) (dropWhile is_flag cs) args;
          (p, cs3, as3) \<leftarrow> spec_precision cs2 as2;
          let (q, cs4) = spec_qualifier cs3;
          spec_convert strs fl w p q cs4 as3 }"

lemma length_spec_field: "spec_field cs args = Some (w, cs', as) \<Longrightarrow> length cs' \<le> length cs"
  by (auto simp: spec_field_def length_dropWhile_le le_SucI split: list.splits if_splits)

lemma length_spec_precision: "spec_precision cs args = Some (p, cs', as) \<Longrightarrow> length cs' \<le> length cs"
  by (auto simp: spec_precision_def dest: length_spec_field split: list.splits if_splits)

lemma length_spec_convert: "spec_convert strs fl w p q cs args = Some (out, cs', as) \<Longrightarrow> length cs' \<le> length cs"
  by (auto simp: spec_convert_def Let_def split: list.splits if_splits option.splits)

lemma length_spec_parse:
  assumes "spec_width fl0 (dropWhile is_flag cs) args = Some (w, fl, cs2, as2)" "spec_precision cs2 as2 = Some (p, cs3, as3)"
    and "spec_qualifier cs3 = (q, cs4)"
  shows "length cs4 \<le> length cs"
proof -
  have "length cs2 \<le> length (dropWhile is_flag cs)"
    using assms(1) by (auto simp: spec_width_def dest: length_spec_field split: option.splits)
  also have "\<dots> \<le> length cs" by (rule length_dropWhile_le)
  finally have "length cs2 \<le> length cs" .
  moreover have "length cs4 \<le> length cs3" using assms(3) by (auto simp: spec_qualifier_def split: list.splits if_splits)
  ultimately show ?thesis using length_spec_precision [OF assms(2)] by linarith
qed

lemma spec_directiveE:
  assumes "spec_directive strs cs args = Some (out, cs', as)"
  obtains w fl cs2 as2 p cs3 as3 q cs4
  where "spec_width (spec_flags 0 cs) (dropWhile is_flag cs) args = Some (w, fl, cs2, as2)"
    "spec_precision cs2 as2 = Some (p, cs3, as3)" "spec_qualifier cs3 = (q, cs4)"
    "spec_convert strs fl w p q cs4 as3 = Some (out, cs', as)" "length cs4 \<le> length cs"
  using assms length_spec_parse by (auto simp: spec_directive_def split: bind_splits prod.splits)

lemma length_spec_directive: "spec_directive strs cs args = Some (out, cs', as) \<Longrightarrow> length cs' \<le> length cs"
  by (elim spec_directiveE) (auto dest: length_spec_convert)

function spec_format :: "(u32 \<Rightarrow> u8 list option) \<Rightarrow> u8 list \<Rightarrow> u32 list \<Rightarrow> u8 list option" where
  "spec_format strs [] args = Some []"
| "spec_format strs (c # cs) args =
     (if c \<noteq> 37 then map_option ((#) c) (spec_format strs cs args)
      else do { (out, cs', as) \<leftarrow> spec_directive strs cs args; map_option ((@) out) (spec_format strs cs' as) })"
  by pat_completeness auto
termination by (relation "measure (\<lambda>(strs, cs, args). length cs)") (auto simp: less_Suc_eq_le dest: length_spec_directive)

section \<open>Output is emission\<close>

definition emit :: "nat \<Rightarrow> u8 list \<Rightarrow> out \<Rightarrow> out" where
  "emit lim xs b = fold (out_char lim) xs b"

lemma emit_simps [simp]: "emit lim [] b = b" "emit lim (x # xs) b = emit lim xs (out_char lim x b)"
  "emit lim (xs @ ys) b = emit lim ys (emit lim xs b)"
  by (simp_all add: emit_def)

lemma emit_one: "out_char lim c b = emit lim [c] b"
  by simp

lemma snd_out_char [simp]: "snd (out_char lim c b) = snd b + 1"
  by (simp add: out_char_def)

lemma snd_emit [simp]: "snd (emit lim xs b) = snd b + length xs"
  by (induction xs arbitrary: b) simp_all

lemma emit_keeps: "buf \<le> snd b \<Longrightarrow> a < buf \<or> lim \<le> a \<Longrightarrow> fst (emit lim xs b) a = fst b a"
proof (induction xs arbitrary: b)
  case (Cons x xs)
  have "fst (emit lim xs (out_char lim x b)) a = fst (out_char lim x b) a" using Cons by (intro Cons.IH) auto
  also have "\<dots> = fst b a" using Cons.prems by (auto simp: out_char_def)
  finally show ?case by simp
qed simp

lemma emit_content:
  "fst (emit lim xs b) a = (if snd b \<le> a \<and> a < snd b + length xs \<and> a < lim then xs ! (a - snd b) else fst b a)"
proof (induction xs arbitrary: b)
  case (Cons x xs)
  show ?case unfolding emit_simps Cons.IH
    by (cases "a = snd b") (auto simp: out_char_def nth_Cons')
qed auto

text \<open>Strings outside the buffer stay what they are.\<close>

definition outside :: "nat \<Rightarrow> nat \<Rightarrow> nat \<Rightarrow> u8 list \<Rightarrow> bool" where
  "outside buf lim a cs \<longleftrightarrow> a + length cs < buf \<or> lim \<le> a"

lemma cstr_emit: "cstr (fst b) a cs \<Longrightarrow> outside buf lim a cs \<Longrightarrow> buf \<le> snd b \<Longrightarrow> cstr (fst (emit lim xs b)) a cs"
  by (erule cstr_cong) (auto simp: outside_def intro!: emit_keeps)

lemma out_pad_emit: "out_pad lim c n b = (min n 0 - 1, emit lim (replicate (nat n) c) b)"
proof (induction lim c n b rule: out_pad.induct)
  case (1 lim c n b)
  show ?case
  proof (cases "n > 0")
    case True
    then have "nat n = Suc (nat (n - 1))" by simp
    then show ?thesis using 1 True by (subst out_pad.simps) simp
  qed (subst out_pad.simps, simp)
qed

lemma out_pad_pre_emit: "out_pad_pre lim c w b = (min (w - 1) 0, emit lim (replicate (nat (w - 1)) c) b)"
proof (induction lim c w b rule: out_pad_pre.induct)
  case (1 lim c w b)
  show ?case
  proof (cases "w - 1 > 0")
    case True
    then have "nat (w - 1) = Suc (nat (w - 1 - 1))" by simp
    then show ?thesis using 1 True by (subst out_pad_pre.simps) simp
  qed (subst out_pad_pre.simps, simp)
qed

lemma out_pad_to_emit: "out_pad_to lim len w b = (min w len - 1, emit lim (replicate (nat (w - len)) 32) b)"
proof (induction lim len w b rule: out_pad_to.induct)
  case (1 lim len w b)
  show ?case
  proof (cases "len < w")
    case True
    then have "nat (w - len) = Suc (nat (w - 1 - len))" by simp
    then show ?thesis using 1 True by (subst out_pad_to.simps) simp
  qed (subst out_pad_to.simps, simp)
qed

lemma out_prec_emit: "out_prec lim i p b = emit lim (replicate (nat (p - i)) 48) b"
proof (induction lim i p b rule: out_prec.induct)
  case (1 lim i p b)
  show ?case
  proof (cases "i < p")
    case True
    then have "nat (p - i) = Suc (nat (p - 1 - i))" by simp
    then show ?thesis using 1 True by (subst out_prec.simps) simp
  qed (subst out_prec.simps, simp)
qed

declare out_pad.simps [simp del] out_pad_pre.simps [simp del] out_pad_to.simps [simp del] out_prec.simps [simp del]
  digits_of.simps [simp del]

lemma out_digits_emit: "i \<le> length tmp \<Longrightarrow> out_digits lim tmp i p b = (if p = 0 then b else emit lim (rev (take i tmp)) b)"
  by (induction i arbitrary: b) (simp_all add: take_Suc_conv_app_nth)

section \<open>Numbers\<close>

lemma digits_nth: "d < 16 \<Longrightarrow> small_digits ! d = digit_char False d \<and> large_digits ! d = digit_char True d"
proof -
  assume "d < 16"
  moreover have "\<forall>d \<in> set [0..<16]. small_digits ! d = digit_char False d \<and> large_digits ! d = digit_char True d" by code_simp
  ultimately show ?thesis by simp
qed

lemma num_digits_eq:
  assumes "num \<noteq> 0" "2 \<le> unat base" "unat base \<le> 16" "digits = (if large then large_digits else small_digits)"
  shows "num_digits digits base num tmp = Some (tmp @ rev (map (digit_char large) (digits_of (unat base) (unat num))))"
  using assms(1)
proof (induction "unat num" arbitrary: num tmp rule: less_induct)
  case less
  let ?r = "unat num mod unat base" and ?q = "num div base"
  have q: "unat ?q = unat num div unat base" by (simp add: unat_div)
  have "?r < unat base" using assms(2) by simp
  then have "?r < 16" using assms(3) by simp
  then have d: "digits ! ?r = digit_char large ?r" using digits_nth assms(4) by simp
  have step: "num_digits digits base num tmp = num_digits digits base ?q (tmp @ [digit_char large ?r])"
    using less.prems d by (subst num_digits.simps) (simp add: divide_def unat_mod)
  show ?case
  proof (cases "unat num < unat base")
    case True
    then have "?q = 0" using q by (simp add: word_unat_eq_iff)
    then have "num_digits digits base ?q (tmp @ [digit_char large ?r]) = Some (tmp @ [digit_char large ?r])"
      by (subst num_digits.simps) simp
    then show ?thesis using step True by (subst digits_of.simps) simp
  next
    case False
    then have "0 < unat num div unat base" using assms(2) by (simp add: div_greater_zero_iff)
    then have nz: "?q \<noteq> 0" using q by (metis less_irrefl unat_0)
    have "unat ?q < unat num" using q assms(2) less.prems by (simp add: unat_gt_0)
    from less.hyps [OF this nz] step show ?thesis using False assms(2) by (subst digits_of.simps) (simp add: q)
  qed
qed

lemma flag_union: "ty AND (ZEROPAD OR LEFT) = 0 \<longleftrightarrow> ty AND LEFT = 0 \<and> ty AND ZEROPAD = 0"
  unfolding word_ao_dist2 by (metis or_eq_0_iff)

lemma print_number_emit:
  assumes "get_sign q (if ty AND LEFT \<noteq> 0 then ty AND NOT ZEROPAD else ty) num = (sg, num1)"
    and "2 \<le> unat base" "unat base \<le> 16"
  shows "print_number lim num base q w p ty b
    = Some (emit lim (number_text ty (unat base) w p (if sg = 0 then [] else [sg]) (unat num1)) b)"
proof -
  let ?L = "ty AND LARGE \<noteq> 0"
  let ?ty = "if ty AND LEFT \<noteq> 0 then ty AND NOT ZEROPAD else ty"
  define ds where "ds = map (digit_char ?L) (digits_of (unat base) (unat num1))"
  have tmp: "(if num1 = 0 then Some [48] else num_digits (if ?L then large_digits else small_digits) base num1 []) = Some (rev ds)"
  proof (cases "num1 = 0")
    case True
    then show ?thesis using assms(2) by (simp add: ds_def digits_of.simps [of _ 0] digit_char_def)
  next
    case False
    then show ?thesis using num_digits_eq [OF False assms(2,3) refl, of ?L "[]"] by (simp add: ds_def)
  qed
  have bits: "?ty AND LEFT = ty AND LEFT" "?ty AND SPECIAL = ty AND SPECIAL" "?ty AND LARGE = ty AND LARGE"
    "?ty AND ZEROPAD \<noteq> 0 \<longleftrightarrow> ty AND LEFT = 0 \<and> ty AND ZEROPAD \<noteq> 0"
    "?ty AND (ZEROPAD OR LEFT) = 0 \<longleftrightarrow> ty AND LEFT = 0 \<and> ty AND ZEROPAD = 0"
    using flag_union [of ty] by (auto simp: rt_const word_bw_assocs)
  define pre where "pre = (if ty AND SPECIAL = 0 then [] else if unat base = 2 then [48, 98] else if unat base = 8 then [48]
                 else if unat base = 16 then [48, if ?L then 88 else 120] else [] :: u8 list)"
  have b2: "base = 2 \<longleftrightarrow> unat base = 2" "base = 8 \<longleftrightarrow> unat base = 8" "base = 16 \<longleftrightarrow> unat base = 16"
    by (simp_all add: word_unat_eq_iff)
  have px: "out_prefix lim ?ty base x = emit lim pre x" "special_size ?ty base w = w - int (length pre)" for x
    unfolding out_prefix_def special_size_def pre_def bits(2,3) b2 by auto
  define M where "M = max (length ds) (nat p)"
  have "ds \<noteq> []" by (subst ds_def, subst digits_of.simps) simp
  then have prec: "(if int (length (rev ds)) > p then int (length (rev ds)) else p) = int M" by (cases ds) (auto simp: M_def)
  have zs: "nat (int M - int (length (rev ds))) = nat p - length ds" by (auto simp: M_def)
  have dg: "out_digits lim (rev ds) (length (rev ds)) p x = emit lim (if p = 0 then [] else ds) x" for x
    by (simp add: out_digits_emit)
  let ?sg = "if sg = 0 then [] else [sg]"
  have "print_number lim num base q w p ty b = Some (number_out lim ?ty base sg (rev ds) (special_size ?ty base w) p b)"
    unfolding print_number_def Let_def assms(1) prod.case tmp by simp
  also have "number_out lim ?ty base sg (rev ds) (special_size ?ty base w) p b
      = emit lim (number_text ty (unat base) w p ?sg (unat num1)) b"
    unfolding number_out_def number_text_def Let_def ds_def [symmetric] pre_def [symmetric] M_def [symmetric] prec px bits
      out_pad_emit out_prec_emit zs dg
    by (cases "ty AND LEFT = 0"; cases "ty AND ZEROPAD = 0"; cases "sg = 0"; cases "p = 0") (simp_all add: zs)
  finally show ?thesis .
qed

lemma get_sign_left: "get_sign q (if fl AND LEFT \<noteq> 0 then fl AND NOT ZEROPAD else fl) num = get_sign q fl num"
proof -
  have "(fl AND NOT ZEROPAD) AND SIGN = fl AND SIGN" "(fl AND NOT ZEROPAD) AND PLUS = fl AND PLUS"
    "(fl AND NOT ZEROPAD) AND SPACE = fl AND SPACE" by (simp_all add: rt_const word_bw_assocs)
  then show ?thesis by (simp add: get_sign_def)
qed

lemma ucast_minus_scast: "(ucast (- (scast h :: u32)) :: 16 word) = - h" for h :: "16 word"
proof -
  have "- (scast h :: u32) = word_of_int (- sint h)" unfolding scast_eq by (rule of_int_minus [symmetric])
  moreover have "(ucast (word_of_int k :: u32) :: 16 word) = word_of_int k" for k
    by (rule bit_word_eqI) (simp add: bit_simps bit_word_of_int_iff)
  ultimately have "(ucast (- (scast h :: u32)) :: 16 word) = word_of_int (- sint h)" by (simp only:)
  also have "\<dots> = - h" unfolding of_int_minus of_int_sint by simp
  finally show ?thesis .
qed

lemma ucast_scast: "(ucast (scast h :: u32) :: 16 word) = h" for h :: "16 word"
  by (rule bit_word_eqI) (simp add: bit_simps)

lemma unat_ucast_16: "unat (ucast x :: u32) = unat x" for x :: "16 word"
proof -
  have "unat x < 2 ^ 32" using unsigned_less [of x, where ?'a = nat] by simp
  then show ?thesis by (simp add: unsigned_ucast_eq take_bit_nat_eq_self)
qed

lemma sint_bounds: "- (2 ^ LENGTH('a)) < sint x \<and> sint x < 2 ^ LENGTH('a)" for x :: "'a::len word"
proof -
  have "(2::int) ^ (LENGTH('a) - 1) < 2 ^ LENGTH('a)" by (rule power_strict_increasing) simp_all
  then show ?thesis using sint_ge [of x] sint_lt [of x] by linarith
qed

lemma unat_minus_sint: "sint x < 0 \<Longrightarrow> unat (- x) = nat (- sint x)" for x :: "'a::len word"
proof -
  assume n: "sint x < 0"
  have "- x = word_of_int (- sint x)" by simp
  moreover have "0 \<le> - sint x \<and> - sint x < 2 ^ LENGTH('a)" using n sint_bounds [of x] by linarith
  ultimately have "uint (- x) = - sint x" by (simp only: uint_word_of_int_eq take_bit_int_eq_self)
  then show ?thesis by (simp flip: nat_uint_eq)
qed

lemma unat_pos_sint: "0 \<le> sint x \<Longrightarrow> unat x = nat (sint x)" for x :: "'a::len word"
proof -
  assume "0 \<le> sint x"
  then have "uint x = sint x" unfolding uint_sint using sint_bounds [of x] by (intro take_bit_int_eq_self) simp_all
  then show ?thesis by (simp flip: nat_uint_eq)
qed

lemma get_sign_value:
  assumes "get_sign q fl (arg_num q fl a) = (sg, num1)"
  shows "(if sg = 0 then [] else [sg]) = sign_text fl (number_value q fl a) \<and> unat num1 = nat \<bar>number_value q fl a\<bar>"
proof -
  let ?h = "ucast a :: 16 word"
  consider (u) "fl AND SIGN = 0" | (h) "fl AND SIGN \<noteq> 0" "q = 104" | (w) "fl AND SIGN \<noteq> 0" "q \<noteq> 104" by blast
  then show ?thesis
  proof cases
    case u
    then show ?thesis using assms by (auto simp: get_sign_def arg_num_def number_value_def sign_text_def unat_ucast_16)
  next
    case h
    have "unat (scast ?h :: u32) = nat (sint ?h)" if "0 \<le> sint ?h"
    proof -
      have "sint (scast ?h :: u32) = signed_take_bit (LENGTH(32) - 1) (sint ?h)" unfolding scast_eq by (rule sint_sbintrunc')
      also have "\<dots> = sint ?h" using sint_lt [of ?h] sint_ge [of ?h] by (intro signed_take_bit_int_eq_self) simp_all
      finally have "sint (scast ?h :: u32) = sint ?h" .
      then show ?thesis using unat_pos_sint [of "scast ?h :: u32"] that by simp
    qed
    with h show ?thesis using assms unat_minus_sint [of ?h]
      by (auto simp: get_sign_def arg_num_def number_value_def sign_text_def ucast_minus_scast ucast_scast unat_ucast_16
          split: if_splits)
  next
    case w
    then show ?thesis using assms unat_minus_sint [of a] unat_pos_sint [of a]
      by (auto simp: get_sign_def arg_num_def number_value_def sign_text_def split: if_splits)
  qed
qed

section \<open>Reading the format\<close>

lemma cstr_hd: "cstr m a cs \<Longrightarrow> m a = (case cs of [] \<Rightarrow> 0 | c # _ \<Rightarrow> c)"
  by (cases cs) simp_all

lemma cstr_drop: "cstr m a cs \<Longrightarrow> n \<le> length cs \<Longrightarrow> cstr m (a + n) (drop n cs)"
  using cstr_append_drop [of m a "take n cs" "drop n cs"] by simp

lemma drop_takeWhile: "drop (length (takeWhile P cs)) cs = dropWhile P cs"
  by (induction cs) simp_all

lemma digit_nonzero [simp]: "\<not> ISDIGIT 0" "flag_bit 0 = 0"
  by (simp_all add: ISDIGIT_def flag_bit_def)

lemma flags_loop_step:
  "flags_loop m f fl = (if is_flag (m (f + 1)) then flags_loop m (f + 1) (fl OR flag_bit (m (f + 1))) else Some (f + 1, fl))"
  by (subst (1) flags_loop.simps) (simp add: flag_bit_def rt_const Let_def)

lemma flags_loop_eq:
  "cstr m (f + 1) cs \<Longrightarrow> flags_loop m f fl = Some (f + 1 + length (takeWhile is_flag cs), spec_flags fl cs)"
proof (induction cs arbitrary: f fl)
  case Nil
  then show ?case by (subst flags_loop_step) (simp add: spec_flags_def)
next
  case (Cons c cs)
  have "m (f + 1) = c" "cstr m (f + 1 + 1) cs" using Cons.prems by simp_all
  with Cons.IH [OF this(2)] show ?case
    by (subst flags_loop_step) (simp add: spec_flags_def)
qed

lemma skip_atoi_eq:
  "cstr m a cs \<Longrightarrow> skip_atoi m a i = Some (spec_atoi i cs, a + length (takeWhile ISDIGIT cs))"
proof (induction cs arbitrary: a i)
  case Nil
  then show ?case by (subst skip_atoi.simps) (simp add: spec_atoi_def)
next
  case (Cons c cs)
  have "m a = c" "cstr m (a + 1) cs" using Cons.prems by simp_all
  with Cons.IH [OF this(2)] show ?case by (subst skip_atoi.simps) (simp add: spec_atoi_def)
qed

lemma digit_ge: "ISDIGIT c \<Longrightarrow> 48 \<le> uint c"
proof (rule ccontr)
  assume d: "ISDIGIT c" and "\<not> 48 \<le> uint c"
  then have "unat c < 48" by (simp flip: nat_uint_eq)
  moreover have "\<forall>n \<in> set [0..<48]. \<not> ISDIGIT (of_nat n)" by code_simp
  ultimately have "\<not> ISDIGIT (of_nat (unat c))" unfolding set_upt by (metis atLeastLessThan_iff le0)
  then show False using d by simp
qed

lemma spec_atoi_nonneg: "0 \<le> i \<Longrightarrow> 0 \<le> spec_atoi i cs"
proof (induction cs arbitrary: i)
  case (Cons c cs)
  have "48 \<le> uint c" if "ISDIGIT c" using digit_ge [OF that] .
  then have "ISDIGIT c \<Longrightarrow> 0 \<le> i * 10 + uint c - 48" using Cons.prems by auto
  with Cons show ?case by (simp add: spec_atoi_def)
qed (simp add: spec_atoi_def)

text \<open>\<open>cstr\<close> at the place the code has reached, given as a position in the text.\<close>

definition at_text :: "mem \<Rightarrow> nat \<Rightarrow> nat \<Rightarrow> u8 list \<Rightarrow> bool" where
  "at_text m fin f cs \<longleftrightarrow> cstr m f cs \<and> f + length cs = fin"

lemma at_text_dropWhile: "at_text m fin f cs \<Longrightarrow> at_text m fin (f + length (takeWhile P cs)) (dropWhile P cs)"
  unfolding at_text_def
  by (metis add.assoc cstr_drop drop_takeWhile length_append length_takeWhile_le takeWhile_dropWhile_id)

lemma at_text_tl: "at_text m fin f (c # cs) \<Longrightarrow> m f = c \<and> c \<noteq> 0 \<and> at_text m fin (f + 1) cs"
  by (simp add: at_text_def)

lemma spec_field_eq:
  assumes "at_text m fin f cs" "spec_field cs args = Some (w, cs', as)"
  shows "\<exists>f'. at_text m fin f' cs' \<and> (if ISDIGIT (m f) then \<exists>n. w = Some n \<and> 0 \<le> n \<and> skip_atoi m f 0 = Some (n, f') \<and> as = args
      else if m f = 42 then \<exists>a. args = a # as \<and> w = Some (sint a) \<and> f' = f + 1 else w = None \<and> f' = f \<and> as = args)"
proof (cases cs)
  case Nil
  then have "m f = 0" using assms(1) cstr_hd unfolding at_text_def by fastforce
  then show ?thesis using assms Nil by (auto simp: spec_field_def)
next
  case (Cons c ds)
  note t = at_text_tl [OF assms(1) [unfolded Cons]]
  show ?thesis
  proof (cases "ISDIGIT c")
    case True
    have "skip_atoi m f 0 = Some (spec_atoi 0 cs, f + length (takeWhile ISDIGIT cs))"
      using assms(1) skip_atoi_eq by (simp add: at_text_def)
    then show ?thesis using True t assms(2) at_text_dropWhile [OF assms(1), of ISDIGIT] spec_atoi_nonneg [of 0 cs]
      by (auto simp: spec_field_def Cons)
  next
    case False
    then show ?thesis using t assms by (auto simp: spec_field_def Cons split: if_splits list.splits)
  qed
qed

lemma get_width_eq:
  assumes "at_text m fin f cs" "spec_width fl cs args = Some (w, fl', cs', as)"
  shows "\<exists>f'. get_width m f fl args = Some (w, fl', f', as) \<and> at_text m fin f' cs'"
proof -
  obtain w0 where w0: "spec_field cs args = Some (w0, cs', as)"
      "(w, fl') = (case w0 of None \<Rightarrow> (-1, fl) | Some n \<Rightarrow> (\<bar>n\<bar>, if n < 0 then fl OR LEFT else fl))"
    using assms(2) by (auto simp: spec_width_def split: option.splits)
  show ?thesis using spec_field_eq [OF assms(1) w0(1)] w0(2) by (auto simp: get_width_def split: if_splits)
qed

lemma get_precision_eq:
  assumes "at_text m fin f cs" "spec_precision cs args = Some (p, cs', as)"
  shows "\<exists>f'. get_precision m f args = Some (p, f', as) \<and> at_text m fin f' cs'"
proof (cases cs)
  case Nil
  then have "m f = 0" using assms(1) cstr_hd unfolding at_text_def by fastforce
  then show ?thesis using assms Nil by (auto simp: spec_precision_def get_precision_def)
next
  case (Cons c ds)
  note t = at_text_tl [OF assms(1) [unfolded Cons]]
  show ?thesis
  proof (cases "c = 46")
    case False
    then show ?thesis using t assms by (auto simp: spec_precision_def get_precision_def Cons)
  next
    case True
    then obtain p0 where p0: "spec_field ds args = Some (p0, cs', as)" "p = (case p0 of None \<Rightarrow> 0 | Some n \<Rightarrow> max n 0)"
      using assms(2) by (auto simp: spec_precision_def Cons)
    have "at_text m fin (f + 1) ds" using t by blast
    from spec_field_eq [OF this p0(1)] show ?thesis using t True p0(2)
      by (auto simp: get_precision_def max_def split: if_splits)
  qed
qed

lemma get_qualifier_eq:
  assumes "at_text m fin f cs" "spec_qualifier cs = (q, cs')"
  shows "\<exists>f'. get_qualifier m f = (q, f') \<and> at_text m fin f' cs'"
proof (cases cs)
  case Nil
  then have "m f = 0" using assms(1) cstr_hd unfolding at_text_def by fastforce
  then show ?thesis using assms Nil by (auto simp: spec_qualifier_def get_qualifier_def)
next
  case (Cons c ds)
  note t = at_text_tl [OF assms(1) [unfolded Cons]]
  then show ?thesis using assms by (auto simp: spec_qualifier_def get_qualifier_def Cons split: if_splits)
qed

section \<open>Conversions\<close>

definition strings_ok :: "nat \<Rightarrow> nat \<Rightarrow> nat \<Rightarrow> (u32 \<Rightarrow> u8 list option) \<Rightarrow> mem \<Rightarrow> bool" where
  "strings_ok buf lim nul strs m \<longleftrightarrow> cstr m nul (str ''(NULL)'') \<and> outside buf lim nul (str ''(NULL)'')
     \<and> (\<forall>a s. strs a = Some s \<longrightarrow> cstr m (unat a) s \<and> outside buf lim (unat a) s)"

lemma strings_ok_emit: "strings_ok buf lim nul strs (fst b) \<Longrightarrow> buf \<le> snd b \<Longrightarrow> strings_ok buf lim nul strs (fst (emit lim xs b))"
  unfolding strings_ok_def by (auto intro: cstr_emit)

lemma str_len_eq:
  assumes "cstr m s cs" "k \<le> length cs" "w < 0 \<or> int k \<le> w"
  shows "str_len m s w k = Some (if w < 0 then length cs else min (length cs) (nat w))"
  using assms(2,3)
proof (induction "length cs - k" arbitrary: k)
  case 0
  then have "m (s + k) = 0" "k = length cs" using assms(1) by (auto simp: cstr_iff)
  then show ?case using 0(3) by (subst str_len.simps) auto
next
  case (Suc d)
  then have k: "k < length cs" by simp
  then have nz: "m (s + k) \<noteq> 0" using assms(1) by (auto simp: cstr_iff)
  show ?case
  proof (cases "int k = w")
    case True
    then show ?thesis using k by (subst str_len.simps) auto
  next
    case False
    have "str_len m s w (k + 1) = Some (if w < 0 then length cs else min (length cs) (nat w))"
      using Suc.hyps(2) Suc.prems(2) k False by (intro Suc.hyps(1)) auto
    then show ?thesis using False nz by (subst str_len.simps) simp
  qed
qed

lemma str_copy_emit:
  assumes "cstr (fst b) s cs" "outside buf lim s cs" "buf \<le> snd b" "n \<le> length cs"
  shows "str_copy lim n s b = emit lim (take n cs) b"
  using assms
proof (induction n arbitrary: s cs b)
  case (Suc n)
  then obtain c ds where cs: "cs = c # ds" by (cases cs) auto
  have c: "fst b s = c" "cstr (fst b) (s + 1) ds" "outside buf lim (s + 1) ds" using Suc.prems(1,2) by (auto simp: cs outside_def)
  have "cstr (fst (emit lim [c] b)) (s + 1) ds" by (rule cstr_emit [OF c(2,3) Suc.prems(3)])
  then have "str_copy lim n (s + 1) (out_char lim c b) = emit lim (take n ds) (out_char lim c b)"
    using c(3) Suc.prems(3,4) by (intro Suc.IH) (simp_all add: cs)
  then show ?case by (simp add: c(1) cs)
qed simp

lemma conv_s_emit:
  assumes "cstr (fst b) (if a = 0 then nul else unat a) cs" "outside buf lim (if a = 0 then nul else unat a) cs" "buf \<le> snd b"
  shows "conv_s nul lim fl w p a b = Some (emit lim (string_text fl w p cs) b)"
proof -
  let ?s = "if a = 0 then nul else unat a"
  define n0 where "n0 = (if w < 0 then length cs else min (length cs) (nat w))"
  define n where "n = (if p > 0 \<and> int n0 > p then nat p else n0)"
  have len: "str_len (fst b) ?s w 0 = Some n0" using str_len_eq [OF assms(1), of 0 w] by (auto simp: n0_def)
  have n: "n \<le> length cs" by (auto simp: n_def n0_def)
  have cp: "str_copy lim n ?s (emit lim xs b) = emit lim (take n cs) (emit lim xs b)" for xs
    using cstr_emit [OF assms(1,2,3)] assms(2,3) n by (intro str_copy_emit) auto
  have cp0: "str_copy lim n ?s b = emit lim (take n cs) b" using cp [of "[]"] by simp
  have tn: "length (take n cs) = n" using n by simp
  show ?thesis
    unfolding conv_s_def Let_def len bind.bind_lunit n_def [symmetric] string_text_def n0_def [symmetric] tn
    by (simp add: out_pad_to_emit cp cp0)
qed

lemma conv_c_emit: "conv_c lim fl w a b = emit lim (char_text fl w a) b"
  by (simp add: conv_c_def char_text_def out_pad_pre_emit Let_def)

lemma conv_p_emit:
  assumes "fl AND SIGN = 0"
  shows "conv_p lim fl w p q a b
    = Some (emit lim (if w = -1 then number_text (fl OR SPECIAL OR ZEROPAD) 16 10 p [] (unat a) else number_text fl 16 w p [] (unat a)) b)"
proof -
  have s: "(fl OR SPECIAL OR ZEROPAD) AND SIGN = 0" using assms by (simp add: word_ao_dist) (simp add: rt_const)
  have g: "get_sign q (if f AND LEFT \<noteq> 0 then f AND NOT ZEROPAD else f) a = (0, a)" if "f AND SIGN = 0" for f
    unfolding get_sign_left using that by (simp add: get_sign_def)
  show ?thesis
    using print_number_emit [OF g [OF s], of 16 lim 10 p b] print_number_emit [OF g [OF assms], of 16 lim w p b]
    by (simp add: conv_p_def)
qed

lemma int_conv_base: "int_conv c fl = Some (base, fl1) \<Longrightarrow> 2 \<le> unat base \<and> unat base \<le> 16"
  by (auto simp: int_conv_def split: if_splits)

lemma conv_int_emit:
  assumes "int_conv c fl = Some (base, fl1)"
  shows "print_number lim (arg_num q fl1 a) base q w p fl1 b
    = Some (emit lim (number_text fl1 (unat base) w p (sign_text fl1 (number_value q fl1 a)) (nat \<bar>number_value q fl1 a\<bar>)) b)"
proof -
  obtain sg num1 where g: "get_sign q fl1 (arg_num q fl1 a) = (sg, num1)" by force
  then have g': "get_sign q (if fl1 AND LEFT \<noteq> 0 then fl1 AND NOT ZEROPAD else fl1) (arg_num q fl1 a) = (sg, num1)"
    unfolding get_sign_left .
  show ?thesis using print_number_emit [OF g'] int_conv_base [OF assms] get_sign_value [OF g] by simp
qed

lemma conv_chars: "int_conv c fl \<noteq> None \<longleftrightarrow> c \<in> set (str ''boXxdiu'')"
  "c \<in> set (str ''cspboXxdiu'') \<longleftrightarrow> c = 99 \<or> c = 115 \<or> c = 112 \<or> c \<in> set (str ''boXxdiu'')"
  by (auto simp: int_conv_def str_def)

lemma vsn_convert_eq:
  assumes "at_text (fst b) fin f cs" "strings_ok buf lim nul strs (fst b)" "buf \<le> snd b" "fl AND SIGN = 0" "1 \<le> f"
    and "spec_convert strs fl w p q cs args = Some (out, cs', as)"
  shows "\<exists>f'. vsn_convert nul lim fl w p q f args b = Some (emit lim out b, f', as) \<and> at_text (fst b) fin (f' + 1) cs'"
proof (cases cs)
  case Nil
  then have "fst b f = 0" using assms(1) cstr_hd unfolding at_text_def by fastforce
  moreover have "int_conv 0 fl = None" by (simp add: int_conv_def)
  ultimately show ?thesis using assms Nil by (auto simp: vsn_convert_def spec_convert_def intro!: exI [of _ "f - 1"])
next
  case (Cons c ds)
  note t = at_text_tl [OF assms(1) [unfolded Cons]]
  have ic: "int_conv 99 fl = None" "int_conv 115 fl = None" "int_conv 112 fl = None" "int_conv 37 fl = None" by (simp_all add: int_conv_def)
  consider (pct) "c = 37" | (other) "c \<noteq> 37" "c \<notin> set (str ''cspboXxdiu'')" | (arg) "c \<noteq> 37" "c \<in> set (str ''cspboXxdiu'')" by blast
  then show ?thesis
  proof cases
    case pct
    then show ?thesis using t assms(6) by (auto simp: vsn_convert_def spec_convert_def Cons)
  next
    case other
    then have "int_conv c fl = None" "c \<noteq> 99" "c \<noteq> 115" "c \<noteq> 112" using conv_chars(1) [of c fl] conv_chars(2) [of c] by blast+
    then show ?thesis using other t assms(6) by (auto simp: vsn_convert_def spec_convert_def Cons Let_def)
  next
    case arg
    then obtain a as0 where a: "args = a # as0" using assms(6) by (cases args) (auto simp: spec_convert_def Cons)
    consider (ch) "c = 99" | (st) "c = 115" | (pt) "c = 112" | (nm) "c \<noteq> 99" "c \<noteq> 115" "c \<noteq> 112" "int_conv c fl \<noteq> None"
      using arg conv_chars(1) [of c fl] conv_chars(2) [of c] by blast
    then show ?thesis
    proof cases
      case ch
      then show ?thesis using t assms(6) arg by (auto simp: a vsn_convert_def spec_convert_def Cons conv_c_emit)
    next
      case st
      obtain s where s: "(if a = 0 then Some (str ''(NULL)'') else strs a) = Some s" "out = string_text fl w p s" "cs' = ds" "as = as0"
        using assms(6) st arg by (auto simp: a spec_convert_def Cons split: if_splits)
      have "cstr (fst b) (if a = 0 then nul else unat a) s" "outside buf lim (if a = 0 then nul else unat a) s"
        using assms(2) s(1) by (auto simp: strings_ok_def split: if_splits)
      from conv_s_emit [OF this assms(3)] show ?thesis using t st s(2-4) by (auto simp: a vsn_convert_def)
    next
      case pt
      then show ?thesis using t assms(6) arg conv_p_emit [OF assms(4)]
        by (auto simp: a vsn_convert_def spec_convert_def Cons)
    next
      case nm
      then obtain base fl1 where i: "int_conv c fl = Some (base, fl1)" by auto
      have "out = number_text fl1 (unat base) w p (sign_text fl1 (number_value q fl1 a)) (nat \<bar>number_value q fl1 a\<bar>)" "cs' = ds" "as = as0"
        using assms(6) nm arg i by (auto simp: a spec_convert_def Cons Let_def)
      then show ?thesis using t nm arg(1) i conv_int_emit [OF i] by (auto simp: a vsn_convert_def)
    qed
  qed
qed

lemma spec_flags_sign: "fl AND SIGN = 0 \<Longrightarrow> spec_flags fl cs AND SIGN = 0"
proof (induction cs arbitrary: fl)
  case (Cons c cs)
  have "flag_bit c AND SIGN = 0" by (simp add: flag_bit_def) (simp add: rt_const)
  then have "(fl OR flag_bit c) AND SIGN = 0" using Cons.prems by (simp add: word_ao_dist)
  from Cons.IH [OF this] show ?case using Cons.prems by (simp add: spec_flags_def)
qed (simp add: spec_flags_def)

lemma left_no_sign: "LEFT AND SIGN = 0"
  by (simp add: rt_const)

lemma vsn_directive_eq:
  assumes "at_text (fst b) fin (f + 1) cs" "strings_ok buf lim nul strs (fst b)" "buf \<le> snd b"
    and "spec_directive strs cs args = Some (out, cs', as)"
  shows "\<exists>f'. vsn_directive nul lim f args b = Some (emit lim out b, f', as) \<and> at_text (fst b) fin (f' + 1) cs'"
proof -
  from assms(4) obtain w fl cs2 as2 p cs3 as3 q cs4 where d: "spec_width (spec_flags 0 cs) (dropWhile is_flag cs) args = Some (w, fl, cs2, as2)"
      "spec_precision cs2 as2 = Some (p, cs3, as3)" "spec_qualifier cs3 = (q, cs4)" "spec_convert strs fl w p q cs4 as3 = Some (out, cs', as)"
      "length cs4 \<le> length cs" by (rule spec_directiveE)
  have c: "cstr (fst b) (f + 1) cs" using assms(1) by (simp add: at_text_def)
  obtain f1 where 1: "flags_loop (fst b) f 0 = Some (f1, spec_flags 0 cs)" "at_text (fst b) fin f1 (dropWhile is_flag cs)"
    using flags_loop_eq [OF c, of 0] at_text_dropWhile [OF assms(1), of is_flag] by blast
  obtain f2 where 2: "get_width (fst b) f1 (spec_flags 0 cs) args = Some (w, fl, f2, as2)" "at_text (fst b) fin f2 cs2"
    using get_width_eq [OF 1(2) d(1)] by blast
  obtain f3 where 3: "get_precision (fst b) f2 as2 = Some (p, f3, as3)" "at_text (fst b) fin f3 cs3"
    using get_precision_eq [OF 2(2) d(2)] by blast
  obtain f4 where 4: "get_qualifier (fst b) f3 = (q, f4)" "at_text (fst b) fin f4 cs4"
    using get_qualifier_eq [OF 3(2) d(3)] by blast
  have fl: "fl AND SIGN = 0" using d(1) spec_flags_sign [of 0 cs]
      left_no_sign by (cases "spec_field (dropWhile is_flag cs) args") (auto simp: spec_width_def word_ao_dist split: option.splits if_splits)
  have "1 \<le> f4" using 4(2) assms(1) d(5) by (simp add: at_text_def)
  from vsn_convert_eq [OF 4(2) assms(2,3) fl this d(4)] show ?thesis by (simp add: vsn_directive_def 1(1) 2(1) 3(1) 4(1))
qed

text \<open>The loop emits the text of the format.\<close>

lemma vsn_loop_eq:
  assumes "at_text (fst b) fin f cs" "fin < buf \<or> lim \<le> f" "strings_ok buf lim nul strs (fst b)" "buf \<le> snd b"
    and "spec_format strs cs args = Some out"
  shows "vsn_loop nul lim f args b = Some (emit lim out b)"
  using assms
proof (induction strs cs args arbitrary: f b out rule: spec_format.induct)
  case (1 strs args)
  then have "fst b f = 0" using cstr_hd unfolding at_text_def by fastforce
  then show ?case using 1(5) by (subst vsn_loop.simps) simp
next
  case (2 strs c cs args)
  note t = at_text_tl [OF 2(3)]
  have keep: "at_text (fst (emit lim xs b)) fin g ds \<and> (fin < buf \<or> lim \<le> g)" if "at_text (fst b) fin g ds" "f \<le> g" for xs g ds
    using that 2(4,6) cstr_emit [of b g ds buf lim xs] by (auto simp: at_text_def outside_def)
  show ?case
  proof (cases "c = 37")
    case False
    then obtain o1 where o1: "spec_format strs cs args = Some o1" "out = c # o1" using 2(7) by auto
    have "vsn_loop nul lim (f + 1) args (out_char lim c b) = Some (emit lim o1 (out_char lim c b))"
      using 2(1) [OF False _ _ _ _ o1(1), of "out_char lim c b" "f + 1"] keep [of "f + 1" cs "[c]"] t
        strings_ok_emit [OF 2(5,6), of "[c]"] 2(6) by simp
    then show ?thesis using t False o1(2) by (subst vsn_loop.simps) simp
  next
    case True
    then obtain o1 cs' as o2 where d: "spec_directive strs cs args = Some (o1, cs', as)" "spec_format strs cs' as = Some o2" "out = o1 @ o2"
      using 2(7) by (auto split: bind_splits)
    have tc: "at_text (fst b) fin (f + 1) cs" using t by blast
    obtain f' where f': "vsn_directive nul lim f args b = Some (emit lim o1 b, f', as)" "at_text (fst b) fin (f' + 1) cs'"
      using vsn_directive_eq [OF tc 2(5,6) d(1)] by blast
    have "f \<le> f' + 1" using f'(2) 2(3) length_spec_directive [OF d(1)] by (simp add: at_text_def)
    then have "vsn_loop nul lim (f' + 1) as (emit lim o1 b) = Some (emit lim o2 (emit lim o1 b))"
      using 2(2) [OF _ d(1) refl refl _ _ _ _ d(2), of "emit lim o1 b" "f' + 1"] True keep [OF f'(2)] strings_ok_emit [OF 2(5,6)] 2(6) by simp
    then show ?thesis using t True f'(1) d(3) by (subst vsn_loop.simps) simp
  qed
qed

section \<open>The functions\<close>

text \<open>Memory after a text has been put into a buffer of \<open>sz\<close> bytes.\<close>

definition put_text :: "nat \<Rightarrow> nat \<Rightarrow> u8 list \<Rightarrow> mem \<Rightarrow> mem" where
  "put_text buf sz out m = (\<lambda>a.
     if sz = 0 \<or> a < buf \<or> buf + min (length out) (sz - 1) < a then m a
     else if a = buf + min (length out) (sz - 1) then 0 else out ! (a - buf))"

lemma emit_put_text:
  assumes "0 < sz"
  shows "(if buf + length out < buf + sz then (fst (emit (buf + sz) out (m, buf)))(buf + length out := 0)
          else (fst (emit (buf + sz) out (m, buf)))(buf + sz - 1 := 0)) = put_text buf sz out m"
  using assms by (intro ext) (auto simp: put_text_def emit_content)

lemma cstr_put_text: "0 < sz \<Longrightarrow> 0 \<notin> set out \<Longrightarrow> cstr (put_text buf sz out m) buf (take (sz - 1) out)"
  by (auto simp: cstr_iff put_text_def in_set_conv_nth)

lemma vsnprintf_emits:
  assumes "cstr m fmt cs" "outside buf (buf + sz) fmt cs" "strings_ok buf (buf + sz) nul strs m" "buf + sz < 2 ^ 32"
    and "spec_format strs cs args = Some out"
  shows "rt_vsnprintf nul m buf sz fmt args = Some (length out, put_text buf sz out m)"
proof -
  have "vsn_loop nul (buf + sz) fmt args (m, buf) = Some (emit (buf + sz) out (m, buf))"
    using assms by (intro vsn_loop_eq [of _ "fmt + length cs" _ cs]) (auto simp: at_text_def outside_def)
  moreover have "add32 buf sz = buf + sz" using assms(4) by (rule add32_eq)
  moreover have "fst (emit buf out (m, buf)) = put_text buf 0 out m" by (intro ext) (auto simp: put_text_def emit_content)
  ultimately show ?thesis using emit_put_text [of sz buf out m]
    by (cases "sz = 0") (auto simp: rt_vsnprintf_def split_beta Let_def)
qed

text \<open>rt_vsprintf gives no size: the text may reach up to the end of the address space.\<close>

lemma vsprintf_emits:
  assumes "cstr m fmt cs" "outside buf (2 ^ 32 - 1) fmt cs" "strings_ok buf (2 ^ 32 - 1) nul strs m" "0 < buf"
    and "spec_format strs cs args = Some out" "buf + length out < 2 ^ 32 - 1"
  shows "rt_vsprintf nul m buf fmt args = Some (length out, put_text buf (2 ^ 32 - 1 - buf) out m)"
proof -
  have v: "vsn_loop nul (2 ^ 32 - 1) fmt args (m, buf) = Some (emit (2 ^ 32 - 1) out (m, buf))"
    using assms by (intro vsn_loop_eq [of _ "fmt + length cs" _ cs]) (auto simp: at_text_def outside_def)
  have "add32 buf (2 ^ 32 - 1) = buf - 1" using assms(4,6) by (cases buf) (simp_all add: add32_def)
  then have a: "add32 buf (2 ^ 32 - 1) < buf" using assms(4) by simp
  have e: "0 < 2 ^ 32 - 1 - buf" "buf + (2 ^ 32 - 1 - buf) = 2 ^ 32 - 1" using assms(6) by simp_all
  show ?thesis using emit_put_text [OF e(1), of buf out m] v a e assms(6)
    unfolding rt_vsprintf_def rt_vsnprintf_def Let_def e(2) by (simp add: split_beta)
qed

text \<open>C9. rt_vsnprintf puts the text its format means into the buffer, as much of it as fits before the terminating zero,
  and nothing anywhere else, and returns the length of the whole text. It returns for every format that is a
  string outside the buffer and has the arguments it asks for.\<close>

theorem vsnprintf_formats:
  assumes "cstr m fmt cs" "outside buf (buf + sz) fmt cs" "strings_ok buf (buf + sz) nul strs m" "buf + sz < 2 ^ 32"
    and "spec_format strs cs args = Some out"
  shows "rt_vsnprintf nul m buf sz fmt args = Some (length out, put_text buf sz out m)"
  using assms by (rule vsnprintf_emits)

definition demo_text :: mem where
  "demo_text = (\<lambda>a. let t = str ''(NULL)'' @ [0] @ str ''%-5d|%#06x|%s'' @ [0] @ str ''uart1'' @ [0] @ str ''%u'' @ [0]
                    in if 100 \<le> a \<and> a < 100 + length t then t ! (a - 100) else 0)"

theorem vsnprintf_formats_witness:
  "rt_vsnprintf 100 demo_text 200 16 107 [-42, 255, 121] = Some (18, put_text 200 16 (str ''-42  |0x00ff|uart1'') demo_text)"
proof -
  let ?s = "\<lambda>a. if a = 121 then Some (str ''uart1'') else None"
  have c: "cstr demo_text 107 (str ''%-5d|%#06x|%s'')" by code_simp
  have "cstr demo_text 100 (str ''(NULL)'')" "cstr demo_text 121 (str ''uart1'')" by code_simp+
  then have st: "strings_ok 200 (200 + 16) 100 ?s demo_text" by (auto simp: strings_ok_def outside_def str_def)
  have o: "outside 200 (200 + 16) 107 (str ''%-5d|%#06x|%s'')" by (simp add: outside_def str_def)
  have f: "spec_format ?s (str ''%-5d|%#06x|%s'') [-42, 255, 121] = Some (str ''-42  |0x00ff|uart1'')" by code_simp
  show ?thesis using vsnprintf_formats [OF c o st _ f] by (simp add: str_def)
qed

section \<open>Numbers are read back as they were written\<close>

lemma decimal_digits:
  "d < 10 \<Longrightarrow> ISDIGIT (digit_char False d) \<and> uint (digit_char False d) - 48 = int d"
proof -
  assume "d < 10"
  moreover have "\<forall>d \<in> set [0..<10]. ISDIGIT (digit_char False d) \<and> uint (digit_char False d) - 48 = int d" by code_simp
  ultimately show ?thesis by simp
qed

lemma digits_of_10: "\<forall>d \<in> set (digits_of 10 n). d < 10"
proof (induction "10 :: nat" n rule: digits_of.induct)
  case (1 n)
  then show ?case by (subst digits_of.simps) auto
qed

lemma read_digits: "fold (\<lambda>c i. i * 10 + uint c - 48) (map (digit_char False) (digits_of 10 n)) 0 = int n"
proof (induction "10 :: nat" n rule: digits_of.induct)
  case (1 n)
  show ?case
  proof (cases "n < 10")
    case True
    then show ?thesis using decimal_digits [of n] by (subst digits_of.simps) simp
  next
    case False
    have "fold (\<lambda>c i. i * 10 + uint c - 48) (map (digit_char False) (digits_of 10 n)) 0
        = int (n div 10) * 10 + (uint (digit_char False (n mod 10)) - 48)"
      using 1 False by (subst digits_of.simps) simp
    also have "\<dots> = int (n div 10) * 10 + int (n mod 10)" using decimal_digits [of "n mod 10"] by simp
    also have "\<dots> = int n" using div_mult_mod_eq [of n 10] by (metis of_nat_add of_nat_mult of_nat_numeral)
    finally show ?thesis .
  qed
qed

lemma length_digits_of: "n < 10 ^ k \<Longrightarrow> 0 < k \<Longrightarrow> length (digits_of 10 n) \<le> k"
proof (induction k arbitrary: n)
  case (Suc k)
  show ?case
  proof (cases "n < 10")
    case True
    then show ?thesis by (subst digits_of.simps) simp
  next
    case False
    then have "n div 10 < 10 ^ k" "0 < k" using Suc.prems by (auto intro: gr0I simp: less_mult_imp_div_less mult.commute)
    from Suc.IH [OF this] show ?thesis using False by (subst digits_of.simps) simp
  qed
qed simp



section \<open>Peculiarities\<close>

text \<open>A width cuts a string, and a precision of zero prints no digits at all.\<close>

lemma string_width_cuts: "0 \<le> w \<Longrightarrow> p \<le> 0 \<Longrightarrow> length (string_text fl w p s) = nat w"
  by (auto simp: string_text_def Let_def min_def)

lemma precision_zero_prints_no_digits:
  "number_text 0 10 (-1) 0 [] n = []"
  by (simp add: number_text_def Let_def rt_const)

end
