(* ===== verification/Console.thy ===== *)
theory Console
  imports KPrintf Usart
begin

text \<open>
  The console (os_rtt/src/kservice.c): the device that rt_kprintf and rt_kputs write to. The devices are a map from
  addresses, with the functions of the driver of each; \<open>console\<close> is _console_device. Before a device is set, output
  goes to rt_hw_console_output, which is empty.
\<close>

definition RT_CONSOLEBUF_SIZE :: nat where [rt_const]: "RT_CONSOLEBUF_SIZE = 64"

definition rt_console_set_device :: "(nat \<Rightarrow> 'p dev_ops) \<Rightarrow> nat \<Rightarrow> objects \<Rightarrow> nat option \<Rightarrow> (nat \<Rightarrow> 'p rt_device)
    \<Rightarrow> (nat option \<times> nat option \<times> (nat \<Rightarrow> 'p rt_device)) option" where
  "rt_console_set_device ops name obs console devs =
     do { new_device \<leftarrow> rt_device_find name obs;
          Some (if new_device = console then (None, console, devs)
                else case new_device of
                  None \<Rightarrow> (console, console, devs)
                | Some a \<Rightarrow>
                    let devs1 = (case console of None \<Rightarrow> devs | Some c \<Rightarrow> devs(c := snd (rt_device_close (ops c) (devs c))));
                        devs2 = devs1(a := snd (rt_device_open (ops a) (RT_DEVICE_FLAG_RDWR OR RT_DEVICE_FLAG_STREAM) (devs1 a)))
                    in (console, Some a, devs2)) }"

text \<open>A write to the console.\<close>

definition console_write :: "(nat \<Rightarrow> 'p dev_ops) \<Rightarrow> nat option \<Rightarrow> u8 list \<Rightarrow> (nat \<Rightarrow> 'p rt_device) \<Rightarrow> kernel
    \<Rightarrow> ((nat \<Rightarrow> 'p rt_device) \<times> kernel) option" where
  "console_write ops console xs devs k =
     (case console of None \<Rightarrow> Some (devs, k)
      | Some c \<Rightarrow> map_option (\<lambda>(r, d, k1). (devs(c := d), k1)) (rt_device_write (ops c) 0 xs (devs c) k))"

definition rt_kputs :: "(nat \<Rightarrow> 'p dev_ops) \<Rightarrow> nat option \<Rightarrow> nat option \<Rightarrow> mem \<Rightarrow> (nat \<Rightarrow> 'p rt_device) \<Rightarrow> kernel
    \<Rightarrow> ((nat \<Rightarrow> 'p rt_device) \<times> kernel) option" where
  "rt_kputs ops console s m devs k =
     (case s of None \<Rightarrow> Some (devs, k)
      | Some a \<Rightarrow> if console = None then Some (devs, k)
                 else do { n \<leftarrow> strlen m a; console_write ops console (bytes_at m a n) devs k })"

text \<open>\<open>lb\<close> is the address of rt_log_buf.\<close>

definition rt_kprintf :: "nat \<Rightarrow> nat \<Rightarrow> (nat \<Rightarrow> 'p dev_ops) \<Rightarrow> nat option \<Rightarrow> nat \<Rightarrow> u32 list \<Rightarrow> mem \<Rightarrow> (nat \<Rightarrow> 'p rt_device) \<Rightarrow> kernel
    \<Rightarrow> (nat \<times> mem \<times> (nat \<Rightarrow> 'p rt_device) \<times> kernel) option" where
  "rt_kprintf nul lb ops console fmt args m devs k =
     do { (n, m1) \<leftarrow> rt_vsnprintf nul m lb (RT_CONSOLEBUF_SIZE - 1) fmt args;
          let len = (if n > RT_CONSOLEBUF_SIZE - 1 then RT_CONSOLEBUF_SIZE - 1 else n);
          (devs1, k1) \<leftarrow> console_write ops console (bytes_at m1 lb len) devs k;
          Some (len, m1, devs1, k1) }"

section \<open>What is sent\<close>

text \<open>The bytes of a message: the whole text if it has at most 62 characters, otherwise the first 62 and a zero.\<close>

definition console_bytes :: "u8 list \<Rightarrow> u8 list" where
  "console_bytes out = (if length out < 63 then out else take 62 out @ [0])"

lemma log_buf_bytes: "bytes_at (put_text lb 63 out m) lb (min (length out) 63) = console_bytes out"
  by (rule nth_equalityI) (auto simp: bytes_at_def put_text_def console_bytes_def nth_append min_def split: if_splits)

lemma kprintf_on_uart:
  assumes "uart_rep (devs c, s) (n, rx, t)" "n \<noteq> 0" "\<forall>i. \<exists>j\<ge>i. status j AND UART_STAT_TXRDY \<noteq> 0" "ops c = uart_ops status"
    and "cstr m fmt cs" "outside lb (lb + 63) fmt cs" "strings_ok lb (lb + 63) nul strs m" "lb + 63 < 2 ^ 32"
    and "spec_format strs cs args = Some out"
  shows "\<exists>d'. rt_kprintf nul lb ops (Some c) fmt args m devs k = Some (min (length out) 63, put_text lb 63 out m, devs(c := d'), k)
    \<and> uart_rep (d', s) (n, rx, t @ console_bytes out)"
proof -
  have v: "rt_vsnprintf nul m lb 63 fmt args = Some (length out, put_text lb 63 out m)"
    using assms(5-9) by (rule vsnprintf_emits)
  obtain d' where w: "rt_device_write (uart_ops status) 0 (console_bytes out) (devs c) k = Some (int (length (console_bytes out)), d', k)"
      "uart_rep (d', s) (n, rx, t @ console_bytes out)"
    using uart_write_rep [OF assms(1-3)] by blast
  have "rt_kprintf nul lb ops (Some c) fmt args m devs k = Some (min (length out) 63, put_text lb 63 out m, devs(c := d'), k)"
    using v w(1) log_buf_bytes [of lb out m]
    by (cases "63 < length out") (simp_all add: rt_kprintf_def RT_CONSOLEBUF_SIZE_def console_write_def assms(4) Let_def)
  then show ?thesis using w(2) by blast
qed

lemma console_opened:
  assumes "rt_device_find name obs = Some (Some a)" "devs a = uart1_static\<lparr>dflag := uart_flags\<rparr>" "ops a = uart_ops status"
  shows "\<exists>d'. rt_console_set_device ops name obs None devs = Some (None, Some a, devs(a := d')) \<and> uart_rep (d', s) (1, [], [])"
proof -
  let ?d = "uart1_static\<lparr>dflag := uart_flags\<rparr>"
  obtain e d' where o: "rt_device_open (uart_ops status) (RT_DEVICE_FLAG_RDWR OR RT_DEVICE_FLAG_STREAM) ?d = (e, d')" by force
  have "uart_rep (d', s) (1, [], [])"
    using step_open [OF uart1_rep, of status _ _ _ "RT_DEVICE_FLAG_RDWR OR RT_DEVICE_FLAG_STREAM" s] o by simp
  moreover have "rt_console_set_device ops name obs None devs = Some (None, Some a, devs(a := d'))"
    using assms o by (simp add: rt_console_set_device_def)
  ultimately show ?thesis by blast
qed

text \<open>C25. Once the registered UART is the console, a message reaches the line as the text its format means, byte for
  byte, with line feeds as they are although the console is opened in stream mode; a text of more than 62
  characters is cut after 62 and followed by a zero.\<close>

theorem console_prints:
  assumes "rt_device_find name obs = Some (Some a)" "devs a = uart1_static\<lparr>dflag := uart_flags\<rparr>" "ops a = uart_ops status"
    and "\<forall>i. \<exists>j\<ge>i. status j AND UART_STAT_TXRDY \<noteq> 0"
    and "cstr m fmt cs" "outside lb (lb + 63) fmt cs" "strings_ok lb (lb + 63) nul strs m" "lb + 63 < 2 ^ 32"
    and "spec_format strs cs args = Some out"
  shows "\<exists>devs1 devs2. rt_console_set_device ops name obs None devs = Some (None, Some a, devs1)
    \<and> rt_kprintf nul lb ops (Some a) fmt args m devs1 k = Some (min (length out) 63, put_text lb 63 out m, devs2, k)
    \<and> tx (driver (devs2 a)) = console_bytes out"
proof -
  obtain d1 where 1: "rt_console_set_device ops name obs None devs = Some (None, Some a, devs(a := d1))"
      "uart_rep ((devs(a := d1)) a, undefined) (1, [], [])"
    using console_opened [where name = name and obs = obs and a = a and devs = devs and ops = ops and status = status and s = undefined] assms(1-3)
    by auto
  have one: "(1::nat) \<noteq> 0" by simp
  show ?thesis using kprintf_on_uart [where devs = "devs(a := d1)" and c = a and ops = ops and status = status, OF 1(2) one assms(4,3,5-9), of k] 1(1) by (auto simp: uart_rep_def)
qed

theorem console_prints_witness:
  "\<exists>obs devs1 devs2. rt_console_set_device (\<lambda>_. uart_ops (\<lambda>_. UART_STAT_TXRDY)) 2100 obs None (\<lambda>_. uart1_static\<lparr>dflag := uart_flags\<rparr>)
      = Some (None, Some 1100, devs1)
    \<and> rt_kprintf 100 200 (\<lambda>_. uart_ops (\<lambda>_. UART_STAT_TXRDY)) (Some 1100) 107 [-42, 255, 121] demo_text devs1 demo_kernel
      = Some (18, put_text 200 63 (str ''-42  |0x00ff|uart1'') demo_text, devs2, demo_kernel)
    \<and> tx (driver (devs2 1100)) = str ''-42  |0x00ff|uart1''"
proof -
  have i: "rt_object_get_information RT_Object_Class_Device = Some 5" by code_simp
  have l: "olists demo_objects 5 = Some []" by (simp add: demo_olists)
  have ap: "\<forall>a \<in> members demo_objects. apart a 1100" by (simp add: demo_members apart_def)
  have ln: "length [107, 101, 121, 95, 115, 99, 97 :: u8] < RT_NAME_MAX" by (simp add: rt_const)
  obtain obs where f: "\<forall>b ds. cstr (obytes demo_objects) b ds \<longrightarrow> b + length ds < 1100 \<or> 1100 + 20 \<le> b \<longrightarrow>
         rt_object_find (Some b) RT_Object_Class_Device obs
         = (if take 7 ds = [107, 101, 121, 95, 115, 99, 97] then Some (Some 1100) else rt_object_find (Some b) RT_Object_Class_Device demo_objects)"
    using directory_laws [OF demo_objects_ok i l ap demo_names(4) ln] by auto
  have fd: "rt_device_find 2100 obs = Some (Some 1100)" using f [rule_format, OF demo_names(4)] by (simp add: rt_device_find_def)
  let ?s = "\<lambda>a. if a = 121 then Some (str ''uart1'') else None"
  have c: "cstr demo_text 107 (str ''%-5d|%#06x|%s'')" by code_simp
  have "cstr demo_text 100 (str ''(NULL)'')" "cstr demo_text 121 (str ''uart1'')" by code_simp+
  then have st: "strings_ok 200 (200 + 63) 100 ?s demo_text" by (auto simp: strings_ok_def outside_def str_def)
  have o: "outside 200 (200 + 63) 107 (str ''%-5d|%#06x|%s'')" by (simp add: outside_def str_def)
  have e: "spec_format ?s (str ''%-5d|%#06x|%s'') [-42, 255, 121] = Some (str ''-42  |0x00ff|uart1'')" by code_simp
  have "UART_STAT_TXRDY AND UART_STAT_TXRDY \<noteq> 0" by (simp add: rt_const)
  then have r: "\<forall>i::nat. \<exists>j\<ge>i. UART_STAT_TXRDY AND UART_STAT_TXRDY \<noteq> 0" by blast
  have n: "min (length (str ''-42  |0x00ff|uart1'')) 63 = 18" "console_bytes (str ''-42  |0x00ff|uart1'') = str ''-42  |0x00ff|uart1''"
    by code_simp+
  have l: "(200::nat) + 63 < 2 ^ 32" by simp
  note p = console_prints [where devs = "\<lambda>_. uart1_static\<lparr>dflag := uart_flags\<rparr>" and ops = "\<lambda>_. uart_ops (\<lambda>_. UART_STAT_TXRDY)"
        and status = "\<lambda>_. UART_STAT_TXRDY" and k = demo_kernel, OF fd refl refl r c o st l e]
  show ?thesis using p unfolding n by blast
qed

end
