(* ===== verification/I2c.thy ===== *)
theory I2c
  imports KService MutexOps ThreadEnd
begin

text \<open>
  The I2C bus: rt_i2c_transfer of the device layer (components/drivers/i2c/i2c_core.c), the driver of the board
  (bsp/drivers/drv_i2c.c) and the two functions of the chip library that the driver calls
  (bsp/Libraries/peri_driver/i2c/i2c_8xx.c). A message names its buffer by its address. The registers are the
  list of the values written to them; what is read from them is an input.
\<close>

record rt_i2c_msg =
  msg_addr :: u16
  msg_flags :: u16
  msg_len :: u16
  msg_buf :: nat

definition RT_I2C_WR :: u16 where [rt_const]: "RT_I2C_WR = 0x0000"
definition RT_I2C_RD :: u16 where [rt_const]: "RT_I2C_RD = 1"

section \<open>The bus\<close>

text \<open>The function of the driver gives the number of messages it transferred, or an error.\<close>

type_synonym 's i2c_xfer = "rt_i2c_msg list \<Rightarrow> mem \<times> 's \<Rightarrow> int \<times> mem \<times> 's"

definition i2c_locked :: "'s i2c_xfer \<Rightarrow> nat \<Rightarrow> rt_i2c_msg list \<Rightarrow> kernel \<times> mem \<times> 's \<Rightarrow> blocking \<times> kernel \<times> mem \<times> 's" where
  "i2c_locked master_xfer lock msgs = (\<lambda>(k, e).
     (let (ret, e1) = master_xfer msgs e;
          (err, k1) = rt_mutex_release lock k
      in (Done (if err \<noteq> RT_EOK then err else ret), k1, e1)))"

definition rt_i2c_transfer ::
  "'s i2c_xfer option \<Rightarrow> nat \<Rightarrow> rt_i2c_msg list \<Rightarrow> kernel \<times> mem \<times> 's \<Rightarrow> (blocking \<times> kernel \<times> mem \<times> 's) option" where
  "rt_i2c_transfer op lock msgs = (\<lambda>(k, e).
     (case op of None \<Rightarrow> Some (Done (- RT_EINVAL), k, e)
      | Some master_xfer \<Rightarrow>
          do { (b, k1) \<leftarrow> rt_mutex_take lock (-1) RT_UNINTERRUPTIBLE k;
               Some (case b of Waits \<Rightarrow> (Waits, k1, e)
                     | Done err \<Rightarrow> if err \<noteq> RT_EOK then (Done err, k1, e) else i2c_locked master_xfer lock msgs (k1, e)) }))"

text \<open>The end of the call of a thread \<open>t\<close> that waited for the lock.\<close>

definition rt_i2c_transfer_resume ::
  "'s i2c_xfer \<Rightarrow> nat \<Rightarrow> nat \<Rightarrow> rt_i2c_msg list \<Rightarrow> kernel \<times> mem \<times> 's \<Rightarrow> (blocking \<times> kernel \<times> mem \<times> 's) option" where
  "rt_i2c_transfer_resume master_xfer lock t msgs = (\<lambda>(k, e).
     do { (err, k1) \<leftarrow> rt_mutex_take_resume lock t k;
          Some (if err \<noteq> RT_EOK then (Done err, k1, e) else i2c_locked master_xfer lock msgs (k1, e)) })"

section \<open>The chip library\<close>

datatype i2c_write = STAT u32 | MSTDAT u8 | MSTCTL u32

record i2cm_xfer =
  txBuff :: nat
  rxBuff :: nat
  txSz :: u16
  rxSz :: u16
  xfer_status :: u16
  slaveAddr :: u8

definition I2C_STAT_MSTPENDING :: u32 where [rt_const]: "I2C_STAT_MSTPENDING = 1"
definition I2C_STAT_MSTSTATE :: u32 where [rt_const]: "I2C_STAT_MSTSTATE = 0x0E"
definition I2C_STAT_MSTRARBLOSS :: u32 where [rt_const]: "I2C_STAT_MSTRARBLOSS = 0x10"
definition I2C_STAT_MSTSTSTPERR :: u32 where [rt_const]: "I2C_STAT_MSTSTSTPERR = 0x40"
definition I2C_MSTCTL_MSTCONTINUE :: u32 where [rt_const]: "I2C_MSTCTL_MSTCONTINUE = 1"
definition I2C_MSTCTL_MSTSTART :: u32 where [rt_const]: "I2C_MSTCTL_MSTSTART = 2"
definition I2C_MSTCTL_MSTSTOP :: u32 where [rt_const]: "I2C_MSTCTL_MSTSTOP = 4"
definition I2CM_STATUS_OK :: u16 where [rt_const]: "I2CM_STATUS_OK = 0"
definition I2CM_STATUS_ERROR :: u16 where [rt_const]: "I2CM_STATUS_ERROR = 1"
definition I2CM_STATUS_NAK_ADR :: u16 where [rt_const]: "I2CM_STATUS_NAK_ADR = 2"
definition I2CM_STATUS_BUS_ERROR :: u16 where [rt_const]: "I2CM_STATUS_BUS_ERROR = 3"
definition I2CM_STATUS_NAK_DAT :: u16 where [rt_const]: "I2CM_STATUS_NAK_DAT = 4"
definition I2CM_STATUS_ARBLOST :: u16 where [rt_const]: "I2CM_STATUS_ARBLOST = 5"
definition I2CM_STATUS_BUSY :: u16 where [rt_const]: "I2CM_STATUS_BUSY = 0xFF"

definition Chip_I2CM_Xfer :: "i2cm_xfer \<Rightarrow> i2c_write list \<Rightarrow> i2cm_xfer \<times> i2c_write list" where
  "Chip_I2CM_Xfer x regs = (x\<lparr>xfer_status := I2CM_STATUS_BUSY\<rparr>,
     regs @ [STAT (I2C_STAT_MSTRARBLOSS OR I2C_STAT_MSTSTSTPERR),
             MSTDAT (push_bit 1 (slaveAddr x) OR (if txSz x = 0 then 1 else 0)), MSTCTL I2C_MSTCTL_MSTSTART])"

text \<open>
  The handler of a state change: \<open>st\<close> and \<open>dat\<close> are read from STAT and MSTDAT. Storing a byte through a null
  pointer is a fault.
\<close>

definition Chip_I2CM_XferHandler ::
  "u32 \<Rightarrow> u8 \<Rightarrow> i2cm_xfer \<Rightarrow> mem \<Rightarrow> i2c_write list \<Rightarrow> (bool \<times> i2cm_xfer \<times> mem \<times> i2c_write list) option" where
  "Chip_I2CM_XferHandler st dat x m regs =
     (let code = drop_bit 1 (st AND I2C_STAT_MSTSTATE);
          ends = (\<lambda>e w. Some (x\<lparr>xfer_status := e\<rparr>, m, regs @ w))
      in map_option (\<lambda>(x', m', regs'). (xfer_status x' \<noteq> I2CM_STATUS_BUSY, x', m', regs'))
        (if st AND I2C_STAT_MSTRARBLOSS \<noteq> 0 then ends I2CM_STATUS_ARBLOST [STAT I2C_STAT_MSTRARBLOSS]
         else if st AND I2C_STAT_MSTSTSTPERR \<noteq> 0 then ends I2CM_STATUS_BUS_ERROR [STAT I2C_STAT_MSTSTSTPERR]
         else if st AND I2C_STAT_MSTPENDING \<noteq> 0 then
           (if code = 0 then Some (x, m, regs)
            else if code = 1 then
              (if rxBuff x = 0 then None
               else let m1 = m(rxBuff x := dat); x1 = x\<lparr>rxBuff := rxBuff x + 1, rxSz := rxSz x - 1\<rparr>
                    in Some (if rxSz x1 \<noteq> 0 then (x1, m1, regs @ [MSTCTL I2C_MSTCTL_MSTCONTINUE])
                             else (x1\<lparr>xfer_status := I2CM_STATUS_OK\<rparr>, m1, regs @ [MSTCTL I2C_MSTCTL_MSTSTOP])))
            else if code = 2 then
              (if txSz x \<noteq> 0
               then Some (x\<lparr>txBuff := txBuff x + 1, txSz := txSz x - 1\<rparr>, m,
                          regs @ [MSTDAT (m (txBuff x)), MSTCTL I2C_MSTCTL_MSTCONTINUE])
               else if rxSz x \<noteq> 0
               then Some (x, m, regs @ [MSTDAT (push_bit 1 (slaveAddr x) OR 1), MSTCTL I2C_MSTCTL_MSTSTART])
               else ends I2CM_STATUS_OK [MSTCTL I2C_MSTCTL_MSTSTOP])
            else if code = 3 then ends I2CM_STATUS_NAK_ADR [MSTCTL I2C_MSTCTL_MSTSTOP]
            else if code = 4 then ends I2CM_STATUS_NAK_DAT [MSTCTL I2C_MSTCTL_MSTSTOP]
            else ends I2CM_STATUS_ERROR [])
         else ends I2CM_STATUS_ERROR []))"

section \<open>The driver\<close>

text \<open>
  The transfer of message \<open>i\<close> is a local variable whose fields hold what was on the stack, \<open>stk i\<close>, until they
  are assigned.
\<close>

definition msg_xfer :: "i2cm_xfer \<Rightarrow> rt_i2c_msg \<Rightarrow> i2cm_xfer" where
  "msg_xfer stk g =
     (let x = stk\<lparr>slaveAddr := ucast (msg_addr g), rxBuff := msg_buf g, rxSz := msg_len g\<rparr>
      in if msg_flags g AND RT_I2C_WR \<noteq> 0
         then x\<lparr>rxBuff := 0, rxSz := 0, txBuff := msg_buf g, txSz := msg_len g\<rparr> else x)"

fun i2c_msgs :: "(nat \<Rightarrow> i2cm_xfer) \<Rightarrow> nat \<Rightarrow> rt_i2c_msg list \<Rightarrow> i2c_write list \<Rightarrow> i2c_write list" where
  "i2c_msgs stk i [] regs = regs"
| "i2c_msgs stk i (g # gs) regs = i2c_msgs stk (i + 1) gs (snd (Chip_I2CM_Xfer (msg_xfer (stk i) g) regs))"

definition i2c_transfer :: "(nat \<Rightarrow> i2cm_xfer) \<Rightarrow> (i2cm_xfer \<times> i2c_write list) i2c_xfer" where
  "i2c_transfer stk msgs = (\<lambda>(m, x0, regs).
     (if msgs = [] then (- RT_EINVAL, m, x0, regs) else (int (length msgs), m, x0, i2c_msgs stk 0 msgs regs)))"

text \<open>The interrupt handler works on the transfer in the static struct of the driver, which starts as zeros.\<close>

definition I2C0_IRQHandler ::
  "u32 \<Rightarrow> u8 \<Rightarrow> kernel \<times> mem \<times> i2cm_xfer \<times> i2c_write list \<Rightarrow> (kernel \<times> mem \<times> i2cm_xfer \<times> i2c_write list) option" where
  "I2C0_IRQHandler st dat = (\<lambda>(k, m, x0, regs).
     map_option (\<lambda>(_, x1, m1, regs1). (rt_interrupt_leave (rt_interrupt_enter k), m1, x1, regs1))
       (Chip_I2CM_XferHandler st dat x0 m regs))"

definition i2c0_static :: i2cm_xfer where
  "i2c0_static = \<lparr>txBuff = 0, rxBuff = 0, txSz = 0, rxSz = 0, xfer_status = 0, slaveAddr = 0\<rparr>"

primrec i2c_irqs ::
  "(u32 \<times> u8) list \<Rightarrow> kernel \<times> mem \<times> i2cm_xfer \<times> i2c_write list \<Rightarrow> (kernel \<times> mem \<times> i2cm_xfer \<times> i2c_write list) option" where
  "i2c_irqs [] s = Some s"
| "i2c_irqs (r # rs) s = Option.bind (I2C0_IRQHandler (fst r) (snd r) s) (i2c_irqs rs)"

section \<open>The lock\<close>

lemma take_free:
  assumes "mutex_owner (mutexes k m) = None" "ceiling_priority (mutexes k m) = NO_PRIORITY"
  shows "rt_mutex_take m tmo sf k = Some (Done RT_EOK, taken_insert (the (current k)) m
    (upd_mutex m (\<lambda>r. r\<lparr>mutex_owner := Some (the (current k)), mutex_priority := NO_PRIORITY, hold := 1\<rparr>)
      (upd_thread (the (current k)) (\<lambda>r. r\<lparr>error := RT_EOK\<rparr>) k)))"
  using assms by (simp add: rt_mutex_take_def rt_thread_self_def Let_def upd_mutex_def upd_thread_def)

text \<open>With the lock free, a transfer is that of the driver, and the lock is free again.\<close>

lemma transfer_free:
  assumes "mutex_owner (mutexes k lock) = None" "ceiling_priority (mutexes k lock) = NO_PRIORITY" "klist k (LMutex lock) = []"
    and "prio k (the (current k)) \<noteq> NO_PRIORITY" "f msgs e = (ret, e1)"
  shows "\<exists>k1. rt_i2c_transfer (Some f) lock msgs (k, e) = Some (Done ret, k1, e1) \<and> mutex_owner (mutexes k1 lock) = None
    \<and> klist k1 = klist k \<and> current k1 = current k"
  using assms
  by (simp add: rt_i2c_transfer_def take_free i2c_locked_def rt_mutex_release_def Let_def taken_insert_def taken_remove_def
      upd_mutex_def upd_thread_def rt_thread_self_def split_beta)

section \<open>What the driver does on the bus\<close>

text \<open>The bytes written to the data register.\<close>

definition sent_bytes :: "i2c_write list \<Rightarrow> u8 list" where
  "sent_bytes w = concat (map (\<lambda>x. case x of MSTDAT d \<Rightarrow> [d] | _ \<Rightarrow> []) w)"

lemma sent_bytes_simps [simp]:
  "sent_bytes [] = []" "sent_bytes (v @ w) = sent_bytes v @ sent_bytes w" "sent_bytes (MSTDAT d # w) = d # sent_bytes w"
  "sent_bytes (STAT x # w) = sent_bytes w" "sent_bytes (MSTCTL x # w) = sent_bytes w"
  by (simp_all add: sent_bytes_def)

text \<open>The first byte of a transfer. No flag of a message has a bit of RT_I2C_WR, which is zero.\<close>

definition first_byte :: "i2cm_xfer \<Rightarrow> rt_i2c_msg \<Rightarrow> u8" where
  "first_byte stk g = push_bit 1 (ucast (msg_addr g)) OR (if txSz stk = 0 then 1 else 0)"

lemma i2c_msgs_sent:
  "sent_bytes (i2c_msgs stk i gs regs) = sent_bytes regs @ map (\<lambda>j. first_byte (stk (i + j)) (gs ! j)) [0..<length gs]"
proof (induction gs arbitrary: i regs)
  case (Cons g gs)
  have "map (\<lambda>j. first_byte (stk (i + j)) ((g # gs) ! j)) [0..<length (g # gs)]
      = first_byte (stk i) g # map (\<lambda>j. first_byte (stk (i + 1 + j)) (gs ! j)) [0..<length gs]"
    by (simp add: upt_conv_Cons map_Suc_upt [symmetric] del: upt_Suc) 
  then show ?case
    by (simp add: Cons.IH Chip_I2CM_Xfer_def msg_xfer_def first_byte_def RT_I2C_WR_def Let_def del: upt_Suc)
qed simp

text \<open>The static transfer of the interrupt handler stays empty, so the handler moves no byte.\<close>

definition idle_xfer :: "i2cm_xfer \<Rightarrow> bool" where
  "idle_xfer x \<longleftrightarrow> rxBuff x = 0 \<and> txSz x = 0 \<and> rxSz x = 0"

lemma irq_idle:
  assumes "I2C0_IRQHandler st dat (k, m, x, regs) = Some (k1, m1, x1, regs1)" "idle_xfer x"
  shows "m1 = m \<and> idle_xfer x1 \<and> sent_bytes regs1 = sent_bytes regs"
  using assms
  by (auto simp: I2C0_IRQHandler_def Chip_I2CM_XferHandler_def idle_xfer_def Let_def split: if_splits)

lemma irqs_idle:
  "i2c_irqs rs (k, m, x, regs) = Some (k1, m1, x1, regs1) \<Longrightarrow> idle_xfer x \<Longrightarrow> m1 = m \<and> sent_bytes regs1 = sent_bytes regs"
proof (induction rs arbitrary: k m x regs)
  case (Cons r rs)
  then obtain k2 m2 x2 regs2 where s: "I2C0_IRQHandler (fst r) (snd r) (k, m, x, regs) = Some (k2, m2, x2, regs2)"
      "i2c_irqs rs (k2, m2, x2, regs2) = Some (k1, m1, x1, regs1)"
    by (auto split: bind_splits)
  show ?case using irq_idle [OF s(1) Cons.prems(2)] Cons.IH [OF s(2)] by simp
qed simp

text \<open>C27. The I2C driver of the board moves no data. Whatever the messages say, all that it puts on the bus is one
address byte for each, whose direction bit comes from an uninitialised variable; no byte of a message is sent, no
byte arrives in memory, whatever interrupts follow (those in which
the handler does not fault), and the driver reports that every message was transferred.\<close>

theorem i2c_moves_no_data:
  assumes "gs \<noteq> []" "i2c_transfer stk gs (m, i2c0_static, []) = (ret, m1, x1, w1)"
    and "i2c_irqs rs (k, m1, x1, w1) = Some (k2, m2, x2, w2)"
  shows "ret = int (length gs) \<and> m2 = m \<and> sent_bytes w2 = map (\<lambda>i. first_byte (stk i) (gs ! i)) [0..<length gs]"
proof -
  have t: "ret = int (length gs)" "m1 = m" "x1 = i2c0_static" "w1 = i2c_msgs stk 0 gs []"
    using assms(1,2) by (simp_all add: i2c_transfer_def)
  have "idle_xfer x1" by (simp add: t(3) i2c0_static_def idle_xfer_def)
  from irqs_idle [OF assms(3) this] show ?thesis by (simp add: t i2c_msgs_sent)
qed

text \<open>A message of three bytes to a device at address 0x50: one byte, 0xA1, goes out, which asks the device to send.\<close>

definition demo_i2c_msg :: rt_i2c_msg where
  "demo_i2c_msg = \<lparr>msg_addr = 0x50, msg_flags = RT_I2C_WR, msg_len = 3, msg_buf = 0x10001000\<rparr>"

theorem i2c_moves_no_data_witness:
  "\<exists>x w. i2c_irqs [(0x05, 0)] (demo_kernel, snd (i2c_transfer (\<lambda>_. i2c0_static) [demo_i2c_msg] (\<lambda>_. 7, i2c0_static, [])))
      = Some (rt_interrupt_leave (rt_interrupt_enter demo_kernel), \<lambda>_. 7, x, w) \<and> sent_bytes w = [0xA1]"
proof -
  let ?t = "i2c_transfer (\<lambda>_. i2c0_static) [demo_i2c_msg] (\<lambda>_. 7, i2c0_static, [])"
  obtain m1 x1 w1 where t: "?t = (1, m1, x1, w1)" by (simp add: i2c_transfer_def)
  obtain k2 m2 x2 w2 where i: "i2c_irqs [(0x05, 0)] (demo_kernel, m1, x1, w1) = Some (k2, m2, x2, w2)"
      "k2 = rt_interrupt_leave (rt_interrupt_enter demo_kernel)"
    using t by (auto simp: i2c_transfer_def I2C0_IRQHandler_def Chip_I2CM_XferHandler_def i2c0_static_def rt_const Let_def)
  show ?thesis using i2c_moves_no_data [OF _ t i(1)] i t
    by (simp add: first_byte_def demo_i2c_msg_def i2c0_static_def)
qed

end
