(* ===== verification/Eeprom.thy ===== *)
theory Eeprom
  imports I2c Device
begin

text \<open>
  The EEPROM driver of the board (bsp/drivers/drv_at24c02.c). Its calls of rt_i2c_transfer and rt_thread_mdelay are
  parameters: the first gives, for the address of a bus, what a transfer does to memory and to the state of the
  bus, the second what a wait of some milliseconds does to the latter. What the memory chip does with the messages
  is the predicate at24c02_bus. Local arrays are at the addresses \<open>ab\<close>, \<open>tb\<close> and \<open>wb\<close>. Messages to the console
  are left out.
\<close>

definition AT24C02_I2C_ADDR :: u16 where [rt_const]: "AT24C02_I2C_ADDR = 0x50"
definition AT24C02_SIZE :: u32 where [rt_const]: "AT24C02_SIZE = 256"
definition AT24C02_PAGE_SIZE :: u32 where [rt_const]: "AT24C02_PAGE_SIZE = 8"
definition AT24C02_WRITE_TIME :: int where [rt_const]: "AT24C02_WRITE_TIME = 6"

text \<open>The value of RT_ENODEV, which no header defines, is the parameter \<open>enodev\<close>.\<close>

definition at24c02_init :: "(nat \<Rightarrow> 's i2c_xfer) \<Rightarrow> rt_err_t \<Rightarrow> nat \<Rightarrow> nat \<Rightarrow> objects \<Rightarrow> mem \<times> 's
    \<Rightarrow> (rt_err_t \<times> nat option \<times> mem \<times> 's) option" where
  "at24c02_init transfer enodev tb name obs = (\<lambda>(m, s).
     map_option (\<lambda>i2c_bus. case i2c_bus of
         None \<Rightarrow> (- RT_ENOSYS, i2c_bus, m, s)
       | Some b \<Rightarrow>
           (let (ret, m1, s1) = transfer b [\<lparr>msg_addr = AT24C02_I2C_ADDR, msg_flags = RT_I2C_RD, msg_len = 1, msg_buf = tb\<rparr>] (m(tb := 0), s)
            in (if ret \<noteq> 1 then - enodev else RT_EOK, i2c_bus, m1, s1)))
       (rt_device_find name obs))"

definition at24c02_read :: "(nat \<Rightarrow> 's i2c_xfer) \<Rightarrow> nat option \<Rightarrow> nat \<Rightarrow> u16 \<Rightarrow> nat \<Rightarrow> u32 \<Rightarrow> mem \<times> 's \<Rightarrow> rt_err_t \<times> mem \<times> 's" where
  "at24c02_read transfer i2c_bus ab addr buf sz = (\<lambda>(m, s).
     (case i2c_bus of None \<Rightarrow> (- RT_ENOSYS, m, s)
      | Some b \<Rightarrow>
          if ucast addr \<ge> AT24C02_SIZE \<or> ucast addr + sz > AT24C02_SIZE then (- RT_EINVAL, m, s)
          else
            (let (ret, m1, s1) = transfer b
                   [\<lparr>msg_addr = AT24C02_I2C_ADDR, msg_flags = RT_I2C_WR, msg_len = 1, msg_buf = ab\<rparr>,
                    \<lparr>msg_addr = AT24C02_I2C_ADDR, msg_flags = RT_I2C_RD, msg_len = ucast sz, msg_buf = buf\<rparr>]
                   (m(ab := ucast addr), s)
             in (if ret \<noteq> 2 then - RT_EIO else RT_EOK, m1, s1))))"

text \<open>The number of bytes of the next write, which stays within a page.\<close>

definition at24c02_page_bytes :: "u16 \<Rightarrow> u32 \<Rightarrow> u32 \<Rightarrow> u32" where
  "at24c02_page_bytes addr sz bytes_written =
     (let page_offset = (ucast addr + bytes_written) AND (AT24C02_PAGE_SIZE - 1);
          bytes_in_page = AT24C02_PAGE_SIZE - page_offset
      in if sz - bytes_written > bytes_in_page then bytes_in_page else sz - bytes_written)"

definition at24c02_write_page :: "'s i2c_xfer \<Rightarrow> nat \<Rightarrow> u16 \<Rightarrow> nat \<Rightarrow> u32 \<Rightarrow> u32 \<Rightarrow> mem \<times> 's \<Rightarrow> int \<times> mem \<times> 's" where
  "at24c02_write_page transfer wb addr buf bytes_written n = (\<lambda>(m, s).
     (let m1 = m(wb := ucast (ucast addr + bytes_written));
          m2 = snd (rt_memcpy m1 (wb + 1) (buf + unat bytes_written) (unat n))
      in transfer [\<lparr>msg_addr = AT24C02_I2C_ADDR, msg_flags = RT_I2C_WR, msg_len = ucast (n + 1), msg_buf = wb\<rparr>] (m2, s)))"

lemma unat_and_7: "unat (x AND (7 :: u32)) = unat x mod 8"
  using unat_and_mask [of x 3] by (simp add: mask_eq_exp_minus_1)

lemma unat_page_bytes:
  assumes "bw \<le> sz"
  shows "unat (at24c02_page_bytes addr sz bw) = min (8 - unat (ucast addr + bw) mod 8) (unat sz - unat bw)"
proof -
  have "unat (8 - ((ucast addr + bw) AND 7)) = 8 - unat (ucast addr + bw) mod 8"
    by (subst unat_sub) (simp_all add: word_le_nat_alt unat_and_7)
  moreover have "unat (sz - bw) = unat sz - unat bw" using assms by (rule unat_sub)
  ultimately show ?thesis by (simp add: at24c02_page_bytes_def rt_const Let_def word_less_nat_alt min_def not_less)
qed

lemma page_bytes_pos:
  assumes "bw < sz"
  shows "0 < unat (at24c02_page_bytes addr sz bw)" "unat bw + unat (at24c02_page_bytes addr sz bw) \<le> unat sz"
  using assms by (auto simp: unat_page_bytes word_less_nat_alt less_imp_le)

function at24c02_write_loop :: "'s i2c_xfer \<Rightarrow> (int \<Rightarrow> 's \<Rightarrow> 's) \<Rightarrow> nat \<Rightarrow> u16 \<Rightarrow> nat \<Rightarrow> u32 \<Rightarrow> u32 \<Rightarrow> mem \<times> 's
    \<Rightarrow> rt_err_t \<times> mem \<times> 's" where
  "at24c02_write_loop transfer wait wb addr buf sz bytes_written (m, s) =
     (if bytes_written < sz then
        let bytes_to_write = at24c02_page_bytes addr sz bytes_written;
            (ret, m1, s1) = at24c02_write_page transfer wb addr buf bytes_written bytes_to_write (m, s)
        in if ret \<noteq> 1 then (- RT_EIO, m1, s1)
           else at24c02_write_loop transfer wait wb addr buf sz (bytes_written + bytes_to_write) (m1, wait AT24C02_WRITE_TIME s1)
      else (RT_EOK, m, s))"
  by pat_completeness auto
termination
proof (relation "measure (\<lambda>(_, _, _, _, _, sz, bw, _). unat sz - unat bw)", goal_cases)
  case (2 transfer wait wb addr buf sz bw m s n x ret y m1 s1)
  have "unat (bw + n) = unat bw + unat n"
    using page_bytes_pos(2) [OF 2(1), of addr] unsigned_less [of sz, where ?'a = nat] by (simp add: 2(2) unat_word_ariths)
  then show ?case using page_bytes_pos [OF 2(1), of addr] 2(1) by (simp add: 2(2) word_less_nat_alt)
qed simp

declare at24c02_write_loop.simps [simp del]

definition at24c02_write :: "(nat \<Rightarrow> 's i2c_xfer) \<Rightarrow> (int \<Rightarrow> 's \<Rightarrow> 's) \<Rightarrow> nat option \<Rightarrow> nat \<Rightarrow> u16 \<Rightarrow> nat \<Rightarrow> u32 \<Rightarrow> mem \<times> 's
    \<Rightarrow> rt_err_t \<times> mem \<times> 's" where
  "at24c02_write transfer wait i2c_bus wb addr buf sz = (\<lambda>(m, s).
     (case i2c_bus of None \<Rightarrow> (- RT_ENOSYS, m, s)
      | Some b \<Rightarrow>
          if ucast addr \<ge> AT24C02_SIZE \<or> ucast addr + sz > AT24C02_SIZE then (- RT_EINVAL, m, s)
          else at24c02_write_loop (transfer b) wait wb addr buf sz 0 (m, s)))"

section \<open>The memory chip\<close>

text \<open>
  A write of at most a page: the address counter wraps at the end of the page, as the data sheet says.
\<close>

definition page_write :: "nat \<Rightarrow> u8 list \<Rightarrow> (nat \<Rightarrow> u8) \<Rightarrow> nat \<Rightarrow> u8" where
  "page_write a ds c = fold (\<lambda>i c. c(a div 8 * 8 + (a + i) mod 8 := ds ! i)) [0..<length ds] c"

text \<open>
  What the driver relies on: a chip that is not busy takes a write of an address and up to 8 bytes, is busy until
  the write cycle is over, and answers a write of an address followed by a read with the bytes stored from that
  address on. \<open>contents\<close> is what the chip holds.
\<close>

definition takes_write :: "'s i2c_xfer \<Rightarrow> (int \<Rightarrow> 's \<Rightarrow> 's) \<Rightarrow> ('s \<Rightarrow> bool) \<Rightarrow> ('s \<Rightarrow> nat \<Rightarrow> u8) \<Rightarrow> bool" where
  "takes_write transfer wait ready contents \<longleftrightarrow>
     (\<forall>m s b n. ready s \<and> 0 < n \<and> n \<le> 8 \<longrightarrow>
        (\<exists>s1. transfer [\<lparr>msg_addr = 0x50, msg_flags = RT_I2C_WR, msg_len = of_nat (n + 1), msg_buf = b\<rparr>] (m, s) = (1, m, s1)
           \<and> ready (wait 6 s1) \<and> contents (wait 6 s1) = page_write (unat (m b)) (bytes_at m (b + 1) n) (contents s)))"

definition takes_read :: "'s i2c_xfer \<Rightarrow> ('s \<Rightarrow> bool) \<Rightarrow> ('s \<Rightarrow> nat \<Rightarrow> u8) \<Rightarrow> bool" where
  "takes_read transfer ready contents \<longleftrightarrow>
     (\<forall>m s b buf n. ready s \<and> unat (m b) + n \<le> 256 \<longrightarrow>
        (\<exists>s1. transfer [\<lparr>msg_addr = 0x50, msg_flags = RT_I2C_WR, msg_len = 1, msg_buf = b\<rparr>,
                        \<lparr>msg_addr = 0x50, msg_flags = RT_I2C_RD, msg_len = of_nat n, msg_buf = buf\<rparr>] (m, s)
              = (2, \<lambda>a. if buf \<le> a \<and> a < buf + n then contents s (unat (m b) + (a - buf)) else m a, s1)
           \<and> ready s1 \<and> contents s1 = contents s))"

lemma page_write_within:
  assumes "a mod 8 + length ds \<le> 8"
  shows "page_write a ds c = (\<lambda>i. if a \<le> i \<and> i < a + length ds then ds ! (i - a) else c i)"
proof -
  have w: "a div 8 * 8 + (a + i) mod 8 = a + i" if "i < length ds" for i
    using that assms by (intro page_offset) simp
  have f: "fold (\<lambda>i c. c(a div 8 * 8 + (a + i) mod 8 := ds ! i)) [0..<n] c = fold (\<lambda>i c. c(a + i := ds ! i)) [0..<n] c"
    if "n \<le> length ds" for n
  proof (rule fold_cong)
    fix i assume "i \<in> set [0..<n]"
    then have "i < length ds" using that by simp
    from w [OF this] show "(\<lambda>c. c(a div 8 * 8 + (a + i) mod 8 := ds ! i)) = (\<lambda>c. c(a + i := ds ! i))" by (simp only: )
  qed simp_all
  have "fold (\<lambda>i c. c(a + i := ds ! i)) [0..<n] c = (\<lambda>i. if a \<le> i \<and> i < a + n then ds ! (i - a) else c i)" for n
    by (induction n) (auto simp: fun_eq_iff less_Suc_eq)
  then show ?thesis by (simp add: page_write_def f)
qed

lemma unat_small: "unat (ucast (addr :: u16) :: u32) = unat addr"
proof -
  have "unat addr < 2 ^ 32" using unsigned_less [of addr, where ?'a = nat] by simp
  then show ?thesis by (simp only: unsigned_ucast_eq) (simp add: take_bit_nat_eq_self)
qed

lemma page_address:
  assumes "unat addr + unat (bw :: u32) < 256"
  shows "unat (ucast (addr :: u16) + bw) = unat addr + unat bw" "unat (ucast (ucast addr + bw) :: u8) = unat addr + unat bw"
proof -
  show a: "unat (ucast addr + bw) = unat addr + unat bw"
    using assms by (simp add: unat_word_ariths unat_small)
  show "unat (ucast (ucast addr + bw) :: u8) = unat addr + unat bw"
    using assms a by (simp only: unsigned_ucast_eq) (simp add: take_bit_nat_eq_self)
qed

text \<open>One turn of the loop stores the bytes of one page.\<close>

lemma write_page_stores:
  fixes n :: u32
  assumes "takes_write transfer wait ready contents" "ready s" "unat addr + unat bw < 256"
    and n: "0 < unat n" "(unat addr + unat bw) mod 8 + unat n \<le> 8" and sep: "wb + 9 \<le> buf \<or> buf + unat bw + unat n \<le> wb"
  shows "\<exists>m1 s1. at24c02_write_page transfer wb addr buf bw n (m, s) = (1, m1, s1) \<and> ready (wait 6 s1)
    \<and> contents (wait 6 s1) = (\<lambda>i. if unat addr + unat bw \<le> i \<and> i < unat addr + unat bw + unat n
         then m (buf + (i - unat addr)) else contents s i)
    \<and> (\<forall>a. a < wb \<or> wb + 9 \<le> a \<longrightarrow> m1 a = m a)"
proof -
  let ?m1 = "m(wb := ucast (ucast addr + bw))"
  define m2 where "m2 = blit ?m1 (wb + 1) (buf + unat bw) (unat n)"
  have cp: "rt_memcpy ?m1 (wb + 1) (buf + unat bw) (unat n) = (wb + 1, m2)"
    unfolding m2_def using sep by (intro rt_memcpy_blit) auto
  have n8: "unat n \<le> 8" using n by simp
  have len: "ucast (n + 1) = (of_nat (unat n + 1) :: u16)"
    using n8 by (intro word_unat_eq_iff [THEN iffD2])
      (simp only: unsigned_ucast_eq unsigned_of_nat, simp add: take_bit_nat_eq_self unat_word_ariths)
  have fr: "m2 a = m a" if "a < wb \<or> wb + 9 \<le> a" for a using that n8 by (auto simp: m2_def blit_def)
  have "m2 wb = ucast (ucast addr + bw)" by (simp add: m2_def blit_def)
  then have ad: "unat (m2 wb) = unat addr + unat bw" using page_address(2) [OF assms(3)] by simp
  have ds: "bytes_at m2 (wb + 1) (unat n) = bytes_at m (buf + unat bw) (unat n)"
    using sep by (auto simp: bytes_at_def m2_def blit_def)
  obtain s1 where t: "transfer [\<lparr>msg_addr = 0x50, msg_flags = RT_I2C_WR, msg_len = of_nat (unat n + 1), msg_buf = wb\<rparr>] (m2, s) = (1, m2, s1)"
      "ready (wait 6 s1)" "contents (wait 6 s1) = page_write (unat (m2 wb)) (bytes_at m2 (wb + 1) (unat n)) (contents s)"
    using assms(1,2) n(1) n8 unfolding takes_write_def by blast
  have pw: "page_write (unat (m2 wb)) (bytes_at m2 (wb + 1) (unat n)) (contents s)
      = (\<lambda>i. if unat addr + unat bw \<le> i \<and> i < unat addr + unat bw + unat n then m (buf + (i - unat addr)) else contents s i)"
    unfolding ad ds using n(2) by (subst page_write_within) (auto simp: bytes_at_def fun_eq_iff add.assoc)
  have "at24c02_write_page transfer wb addr buf bw n (m, s) = (1, m2, s1)"
    unfolding at24c02_write_page_def AT24C02_I2C_ADDR_def by (simp only: prod.case Let_def cp snd_conv len t(1))
  then show ?thesis using t(2,3) fr unfolding pw by blast
qed

lemma write_loop_stores:
  assumes tw: "takes_write transfer wait ready contents" and r: "unat addr + unat sz \<le> 256"
    and sep: "wb + 9 \<le> buf \<or> buf + unat sz \<le> wb"
  shows "bw \<le> sz \<Longrightarrow> ready s \<Longrightarrow> \<exists>m1 s1. at24c02_write_loop transfer wait wb addr buf sz bw (m, s) = (RT_EOK, m1, s1) \<and> ready s1
    \<and> contents s1 = (\<lambda>i. if unat addr + unat bw \<le> i \<and> i < unat addr + unat sz then m (buf + (i - unat addr)) else contents s i)
    \<and> (\<forall>a. a < wb \<or> wb + 9 \<le> a \<longrightarrow> m1 a = m a)"
proof (induction "unat sz - unat bw" arbitrary: bw m s rule: less_induct)
  case less
  show ?case
  proof (cases "bw < sz")
    case False
    then have "bw = sz" using less.prems(1) by simp
    then have "at24c02_write_loop transfer wait wb addr buf sz bw (m, s) = (RT_EOK, m, s)"
      by (simp add: at24c02_write_loop.simps)
    moreover have "contents s = (\<lambda>i. if unat addr + unat bw \<le> i \<and> i < unat addr + unat sz then m (buf + (i - unat addr)) else contents s i)"
      using \<open>bw = sz\<close> by (auto simp: fun_eq_iff)
    ultimately show ?thesis using less.prems(2) by blast
  next
    case True
    define n where "n = at24c02_page_bytes addr sz bw"
    have b: "unat bw < unat sz" using True by (simp add: word_less_nat_alt)
    then have a: "unat addr + unat bw < 256" using r by simp
    have n: "unat n = min (8 - (unat addr + unat bw) mod 8) (unat sz - unat bw)"
      using less.prems(1) by (simp add: n_def unat_page_bytes page_address(1) [OF a])
    then have pos: "0 < unat n" "(unat addr + unat bw) mod 8 + unat n \<le> 8" "unat bw + unat n \<le> unat sz"
      using b pos_mod_bound by auto
    have bn: "unat (bw + n) = unat bw + unat n"
      using pos(3) unsigned_less [of sz, where ?'a = nat] by (simp add: unat_word_ariths)
    have sep': "wb + 9 \<le> buf \<or> buf + unat bw + unat n \<le> wb" using sep pos(3) by auto
    obtain m1 s1 where p: "at24c02_write_page transfer wb addr buf bw n (m, s) = (1, m1, s1)" "ready (wait 6 s1)"
        "contents (wait 6 s1) = (\<lambda>i. if unat addr + unat bw \<le> i \<and> i < unat addr + unat bw + unat n
           then m (buf + (i - unat addr)) else contents s i)"
        "\<forall>a. a < wb \<or> wb + 9 \<le> a \<longrightarrow> m1 a = m a"
      using write_page_stores [OF tw less.prems(2) a pos(1,2) sep', of m] by blast
    have "unat sz - unat (bw + n) < unat sz - unat bw" "bw + n \<le> sz"
      using b pos bn by (simp_all add: word_le_nat_alt)
    from less.hyps [OF this p(2), of m1] obtain m2 s2 where
      q: "at24c02_write_loop transfer wait wb addr buf sz (bw + n) (m1, wait 6 s1) = (RT_EOK, m2, s2)" "ready s2"
        "contents s2 = (\<lambda>i. if unat addr + unat (bw + n) \<le> i \<and> i < unat addr + unat sz then m1 (buf + (i - unat addr))
           else contents (wait 6 s1) i)"
        "\<forall>a. a < wb \<or> wb + 9 \<le> a \<longrightarrow> m2 a = m1 a" by blast
    have "contents s2 = (\<lambda>i. if unat addr + unat bw \<le> i \<and> i < unat addr + unat sz then m (buf + (i - unat addr)) else contents s i)"
    proof
      fix i
      have "m1 (buf + (i - unat addr)) = m (buf + (i - unat addr))" if "unat addr \<le> i" "i < unat addr + unat sz"
        using that sep p(4) by auto
      then show "contents s2 i = (if unat addr + unat bw \<le> i \<and> i < unat addr + unat sz then m (buf + (i - unat addr)) else contents s i)"
        using pos(3) by (auto simp: q(3) p(3) bn)
    qed
    moreover have "at24c02_write_loop transfer wait wb addr buf sz bw (m, s) = (RT_EOK, m2, s2)"
      using True p(1) q(1) by (simp add: at24c02_write_loop.simps [of _ _ _ _ _ _ bw] n_def [symmetric] Let_def AT24C02_WRITE_TIME_def)
    ultimately show ?thesis using q(2,4) p(4) by auto
  qed
qed

lemma range_check:
  assumes "unat addr < 256" "unat (addr :: u16) + unat (sz :: u32) \<le> 256"
  shows "\<not> (ucast addr \<ge> AT24C02_SIZE \<or> ucast addr + sz > AT24C02_SIZE)"
  using assms by (simp add: AT24C02_SIZE_def word_le_nat_alt word_less_nat_alt unat_word_ariths unat_small not_less)

lemma read_stored:
  assumes "takes_read (transfer b) ready contents" "ready s" "unat addr < 256" "unat addr + unat sz \<le> 256"
  shows "\<exists>m1 s1. at24c02_read transfer (Some b) ab addr buf sz (m, s) = (RT_EOK, m1, s1) \<and> ready s1 \<and> contents s1 = contents s
    \<and> bytes_at m1 buf (unat sz) = map (\<lambda>i. contents s (unat addr + i)) [0..<unat sz]"
proof -
  let ?m = "m(ab := ucast addr)"
  have ad: "unat (?m ab) = unat addr"
    using assms(3) by (simp only: fun_upd_same unsigned_ucast_eq) (simp add: take_bit_nat_eq_self)
  have len: "(ucast sz :: u16) = of_nat (unat sz)" by simp
  have "unat (?m ab) + unat sz \<le> 256" using assms(4) by (simp only: ad)
  then obtain s1 where t: "transfer b [\<lparr>msg_addr = 0x50, msg_flags = RT_I2C_WR, msg_len = 1, msg_buf = ab\<rparr>,
                        \<lparr>msg_addr = 0x50, msg_flags = RT_I2C_RD, msg_len = of_nat (unat sz), msg_buf = buf\<rparr>] (?m, s)
              = (2, \<lambda>a. if buf \<le> a \<and> a < buf + unat sz then contents s (unat (?m ab) + (a - buf)) else ?m a, s1)"
      "ready s1" "contents s1 = contents s"
    using assms(1,2) unfolding takes_read_def by blast
  have "at24c02_read transfer (Some b) ab addr buf sz (m, s)
      = (RT_EOK, \<lambda>a. if buf \<le> a \<and> a < buf + unat sz then contents s (unat (?m ab) + (a - buf)) else ?m a, s1)"
    unfolding at24c02_read_def AT24C02_I2C_ADDR_def using range_check [OF assms(3,4)]
    by (simp only: prod.case option.case if_False Let_def len t(1)) simp
  then show ?thesis using t(2,3) ad by (auto simp: bytes_at_def)
qed


text \<open>A chip that is busy after a write until the driver has waited 5 milliseconds, on a bus that obeys the flags.\<close>

record eeprom_chip =
  cells :: "nat \<Rightarrow> u8"
  busy :: bool

fun chip_transfer :: "nat \<Rightarrow> eeprom_chip i2c_xfer" where
  "chip_transfer b [g] (m, c) =
     (if busy c \<or> msg_flags g \<noteq> RT_I2C_WR then (0, m, c)
      else (1, m, c\<lparr>cells := page_write (unat (m (msg_buf g))) (bytes_at m (msg_buf g + 1) (unat (msg_len g) - 1)) (cells c),
                    busy := True\<rparr>))"
| "chip_transfer b [g, h] (m, c) =
     (if busy c then (0, m, c)
      else (2, \<lambda>a. if msg_buf h \<le> a \<and> a < msg_buf h + unat (msg_len h) then cells c (unat (m (msg_buf g)) + (a - msg_buf h)) else m a, c))"
| "chip_transfer b gs (m, c) = (0, m, c)"

definition chip_wait :: "int \<Rightarrow> eeprom_chip \<Rightarrow> eeprom_chip" where
  "chip_wait ms c = (if 5 \<le> ms then c\<lparr>busy := False\<rparr> else c)"

lemma chip_takes:
  "takes_write (chip_transfer b) chip_wait (\<lambda>c. \<not> busy c) cells" "takes_read (chip_transfer b) (\<lambda>c. \<not> busy c) cells"
proof -
  have u: "unat (of_nat n :: u16) = n" if "n \<le> 256" for n
    using that by (simp only: unsigned_of_nat) (simp add: take_bit_nat_eq_self)
  show "takes_write (chip_transfer b) chip_wait (\<lambda>c. \<not> busy c) cells"
    unfolding takes_write_def by (simp add: chip_wait_def u del: of_nat_Suc of_nat_add)
  show "takes_read (chip_transfer b) (\<lambda>c. \<not> busy c) cells"
    unfolding takes_read_def by (auto simp: u)
qed


section \<open>On the bus of the board\<close>

text \<open>On the bus as drv_i2c.c drives it, a read reports success and leaves the buffer as it was.\<close>

lemma at24c02_read_on_board:
  assumes "unat addr < 256" "unat addr + unat sz \<le> 256"
  shows "\<exists>w. at24c02_read (\<lambda>_. i2c_transfer stk) (Some b) ab addr buf sz (m, x0, regs) = (RT_EOK, m(ab := ucast addr), x0, w)"
  using range_check [OF assms] by (auto simp: at24c02_read_def i2c_transfer_def)

text \<open>The range check wraps: a size of 2^32 - 1 passes for address 1, and 65535 bytes are read.\<close>

lemma at24c02_check_wraps:
  "at24c02_read transfer (Some b) ab 1 buf (-1) (m, s) =
     (let (ret, m1, s1) = transfer b
            [\<lparr>msg_addr = 0x50, msg_flags = RT_I2C_WR, msg_len = 1, msg_buf = ab\<rparr>,
             \<lparr>msg_addr = 0x50, msg_flags = RT_I2C_RD, msg_len = 0xFFFF, msg_buf = buf\<rparr>] (m(ab := 1), s)
      in (if ret \<noteq> 2 then - RT_EIO else RT_EOK, m1, s1))"
proof -
  have "\<not> (ucast (1 :: u16) \<ge> AT24C02_SIZE \<or> ucast (1 :: u16) + (-1) > AT24C02_SIZE)" "ucast (-1 :: u32) = (0xFFFF :: u16)"
    by code_simp+
  then show ?thesis by (simp add: at24c02_read_def AT24C02_I2C_ADDR_def)
qed

text \<open>The wait for the write cycle, 6 milliseconds, is one tick of 10 milliseconds, which ends with the next tick
  interrupt.\<close>

lemma write_wait_is_one_tick: "rt_tick_from_millisecond AT24C02_WRITE_TIME = 1"
  by (simp add: rt_tick_from_millisecond_def rt_const)

end
