(* ===== verification/Flash.thy ===== *)
theory Flash
  imports KService Device
begin

text \<open>
  The SPI flash driver of the board (bsp/drivers/drv_w24q32.c). Its calls of rt_spi_transfer_message and
  rt_thread_mdelay are parameters, as in Eeprom; what the flash does is the predicate w25q32_chip. The local
  variables are laid out from \<open>sp\<close>: cmd_buf, then cmd, status and the buffer of w25q32_send_cmd. A message is
  followed by what its field next points at, \<open>nx\<close>, which the driver never assigns.
\<close>

record spi_message =
  send_buf :: nat
  recv_buf :: nat
  slength :: u32
  cs_take :: bool
  cs_release :: bool

type_synonym 's spi_transfer = "spi_message list \<Rightarrow> mem \<times> 's \<Rightarrow> mem \<times> 's"

definition W25Q32_SIZE :: u32 where [rt_const]: "W25Q32_SIZE = 4 * 1024 * 1024"
definition W25Q32_PAGE_SIZE :: u32 where [rt_const]: "W25Q32_PAGE_SIZE = 256"
definition W25Q32_CMD_READ :: u8 where [rt_const]: "W25Q32_CMD_READ = 0x03"
definition W25Q32_CMD_PAGE_PROGRAM :: u8 where [rt_const]: "W25Q32_CMD_PAGE_PROGRAM = 0x02"
definition W25Q32_CMD_SECTOR_ERASE :: u8 where [rt_const]: "W25Q32_CMD_SECTOR_ERASE = 0x20"
definition W25Q32_CMD_READ_STATUS :: u8 where [rt_const]: "W25Q32_CMD_READ_STATUS = 0x05"
definition W25Q32_CMD_WRITE_ENABLE :: u8 where [rt_const]: "W25Q32_CMD_WRITE_ENABLE = 0x06"

definition w25q32_send_cmd :: "'s spi_transfer \<Rightarrow> spi_message list \<Rightarrow> nat \<Rightarrow> u8 \<Rightarrow> nat \<Rightarrow> u32 \<Rightarrow> mem \<times> 's \<Rightarrow> mem \<times> 's" where
  "w25q32_send_cmd message nx sb cmd data len = (\<lambda>(m, s).
     (let m1 = m(sb := cmd);
          m2 = (if data \<noteq> 0 \<and> len > 0 then snd (rt_memcpy m1 (sb + 1) data (unat len)) else m1);
          (m3, s1) = message (\<lparr>send_buf = sb, recv_buf = sb, slength = len + 1, cs_take = True, cs_release = True\<rparr> # nx) (m2, s);
          m4 = (if data \<noteq> 0 \<and> len > 0 then snd (rt_memcpy m3 data (sb + 1) (unat len)) else m3)
      in (m4, s1)))"

definition w25q32_read_status :: "'s spi_transfer \<Rightarrow> spi_message list \<Rightarrow> nat \<Rightarrow> mem \<times> 's \<Rightarrow> u8 \<times> mem \<times> 's" where
  "w25q32_read_status message nx sp = (\<lambda>(m, s).
     (let (m1, s1) = w25q32_send_cmd message nx (sp + 268) W25Q32_CMD_READ_STATUS (sp + 264) 1 (m(sp + 264 := 0), s)
      in (m1 (sp + 264), m1, s1)))"

partial_function (option) w25q32_wait_ready ::
  "'s spi_transfer \<Rightarrow> spi_message list \<Rightarrow> (int \<Rightarrow> 's \<Rightarrow> 's) \<Rightarrow> nat \<Rightarrow> mem \<times> 's \<Rightarrow> (mem \<times> 's) option" where
  "w25q32_wait_ready message nx wait sp e =
     (let (status, m1, s1) = w25q32_read_status message nx sp e
      in if status AND 0x01 \<noteq> 0 then w25q32_wait_ready message nx wait sp (m1, wait 1 s1) else Some (m1, s1))"

definition w25q32_init :: "(nat \<Rightarrow> 's \<Rightarrow> 's) \<Rightarrow> nat \<Rightarrow> objects \<Rightarrow> 's \<Rightarrow> (rt_err_t \<times> nat option \<times> 's) option" where
  "w25q32_init spi_configure name obs s =
     map_option (\<lambda>spi_device. case spi_device of
         None \<Rightarrow> (- RT_ENOSYS, spi_device, s)
       | Some d \<Rightarrow> (RT_EOK, spi_device, spi_configure d s))
       (rt_device_find name obs)"

text \<open>A command with the three bytes of an address, highest first.\<close>

definition w25q32_command :: "nat \<Rightarrow> u8 \<Rightarrow> u32 \<Rightarrow> mem \<Rightarrow> mem" where
  "w25q32_command cb cmd addr m =
     m(cb := cmd, cb + 1 := ucast (drop_bit 16 addr), cb + 2 := ucast (drop_bit 8 addr), cb + 3 := ucast addr)"

definition w25q32_read :: "(nat \<Rightarrow> 's spi_transfer) \<Rightarrow> spi_message list \<Rightarrow> nat option \<Rightarrow> nat \<Rightarrow> u32 \<Rightarrow> nat \<Rightarrow> u32 \<Rightarrow> mem \<times> 's
    \<Rightarrow> rt_err_t \<times> mem \<times> 's" where
  "w25q32_read message nx spi_device sp addr buf sz = (\<lambda>(m, s).
     (case spi_device of None \<Rightarrow> (- RT_ENOSYS, m, s)
      | Some d \<Rightarrow>
          if addr + sz > W25Q32_SIZE then (- RT_EINVAL, m, s)
          else
            (let m1 = w25q32_command sp W25Q32_CMD_READ addr m;
                 e1 = message d (\<lparr>send_buf = sp, recv_buf = sp + 4, slength = 4, cs_take = True, cs_release = False\<rparr> # nx) (m1, s);
                 e2 = message d (\<lparr>send_buf = 0, recv_buf = buf, slength = sz, cs_take = False, cs_release = True\<rparr> # nx) e1
             in (RT_EOK, e2))))"

definition w25q32_write_enable :: "'s spi_transfer \<Rightarrow> spi_message list \<Rightarrow> nat \<Rightarrow> mem \<times> 's \<Rightarrow> mem \<times> 's" where
  "w25q32_write_enable message nx sp = (\<lambda>(m, s).
     message (\<lparr>send_buf = sp + 260, recv_buf = 0, slength = 1, cs_take = True, cs_release = True\<rparr> # nx)
       (m(sp + 260 := W25Q32_CMD_WRITE_ENABLE), s))"

text \<open>The number of bytes of the next write, which stays within a page.\<close>

definition w25q32_page_bytes :: "u32 \<Rightarrow> u32 \<Rightarrow> u32 \<Rightarrow> u32" where
  "w25q32_page_bytes addr sz offset =
     (let page_offset = (addr + offset) AND (W25Q32_PAGE_SIZE - 1);
          bytes_in_page = W25Q32_PAGE_SIZE - page_offset
      in if sz - offset > bytes_in_page then bytes_in_page else sz - offset)"

definition w25q32_program :: "'s spi_transfer \<Rightarrow> spi_message list \<Rightarrow> nat \<Rightarrow> u32 \<Rightarrow> nat \<Rightarrow> u32 \<Rightarrow> mem \<times> 's \<Rightarrow> mem \<times> 's" where
  "w25q32_program message nx sp addr src n = (\<lambda>(m, s).
     (let m1 = w25q32_command sp W25Q32_CMD_PAGE_PROGRAM addr m;
          m2 = snd (rt_memcpy m1 (sp + 4) src (unat n))
      in message (\<lparr>send_buf = sp, recv_buf = 0, slength = n + 4, cs_take = True, cs_release = True\<rparr> # nx) (m2, s)))"

partial_function (option) w25q32_write_loop ::
  "'s spi_transfer \<Rightarrow> spi_message list \<Rightarrow> (int \<Rightarrow> 's \<Rightarrow> 's) \<Rightarrow> nat \<Rightarrow> u32 \<Rightarrow> nat \<Rightarrow> u32 \<Rightarrow> u32 \<Rightarrow> mem \<times> 's \<Rightarrow> (mem \<times> 's) option" where
  "w25q32_write_loop message nx wait sp addr buf sz offset e =
     (if offset < sz then
        let n = w25q32_page_bytes addr sz offset;
            e1 = w25q32_write_enable message nx sp e;
            e2 = w25q32_program message nx sp (addr + offset) (buf + unat offset) n e1
        in Option.bind (w25q32_wait_ready message nx wait sp e2)
             (\<lambda>e3. w25q32_write_loop message nx wait sp addr buf sz (offset + n) e3)
      else Some e)"

definition w25q32_write :: "(nat \<Rightarrow> 's spi_transfer) \<Rightarrow> spi_message list \<Rightarrow> (int \<Rightarrow> 's \<Rightarrow> 's) \<Rightarrow> nat option \<Rightarrow> nat \<Rightarrow> u32 \<Rightarrow> nat
    \<Rightarrow> u32 \<Rightarrow> mem \<times> 's \<Rightarrow> (rt_err_t \<times> mem \<times> 's) option" where
  "w25q32_write message nx wait spi_device sp addr buf sz = (\<lambda>(m, s).
     (case spi_device of None \<Rightarrow> Some (- RT_ENOSYS, m, s)
      | Some d \<Rightarrow>
          if addr + sz > W25Q32_SIZE then Some (- RT_EINVAL, m, s)
          else map_option (\<lambda>e. (RT_EOK, e)) (w25q32_write_loop (message d) nx wait sp addr buf sz 0 (m, s))))"

definition w25q32_erase_sector :: "(nat \<Rightarrow> 's spi_transfer) \<Rightarrow> spi_message list \<Rightarrow> (int \<Rightarrow> 's \<Rightarrow> 's) \<Rightarrow> nat option \<Rightarrow> nat \<Rightarrow> u32
    \<Rightarrow> mem \<times> 's \<Rightarrow> (rt_err_t \<times> mem \<times> 's) option" where
  "w25q32_erase_sector message nx wait spi_device sp addr = (\<lambda>(m, s).
     (case spi_device of None \<Rightarrow> Some (- RT_ENOSYS, m, s)
      | Some d \<Rightarrow>
          if addr \<ge> W25Q32_SIZE then Some (- RT_EINVAL, m, s)
          else
            (let (m1, s1) = w25q32_write_enable (message d) nx sp (m, s);
                 e2 = message d (\<lparr>send_buf = sp, recv_buf = 0, slength = 4, cs_take = True, cs_release = True\<rparr> # nx)
                        (w25q32_command sp W25Q32_CMD_SECTOR_ERASE addr m1, s1)
             in map_option (\<lambda>e. (RT_EOK, e)) (w25q32_wait_ready (message d) nx wait sp e2))))"

section \<open>The flash\<close>

definition flash_address :: "mem \<Rightarrow> nat \<Rightarrow> nat" where
  "flash_address m b = unat (m (b + 1)) * 65536 + unat (m (b + 2)) * 256 + unat (m (b + 3))"

text \<open>A program can only clear bits, and wraps at the end of the page of 256 bytes.\<close>

definition flash_program :: "nat \<Rightarrow> u8 list \<Rightarrow> (nat \<Rightarrow> u8) \<Rightarrow> nat \<Rightarrow> u8" where
  "flash_program a ds c = fold (\<lambda>i c. let p = a div 256 * 256 + (a + i) mod 256 in c(p := c p AND ds ! i)) [0..<length ds] c"

text \<open>
  What the data sheet says of the commands the driver sends: \<open>polls_left\<close> is the number of readings of the status that
  will still find the flash busy, \<open>enabled\<close> its write enable latch, \<open>contents\<close> what it holds.
\<close>

definition takes_enable :: "'s spi_transfer \<Rightarrow> ('s \<Rightarrow> nat) \<Rightarrow> ('s \<Rightarrow> bool) \<Rightarrow> ('s \<Rightarrow> nat \<Rightarrow> u8) \<Rightarrow> bool" where
  "takes_enable message polls_left enabled contents \<longleftrightarrow>
     (\<forall>m s b. polls_left s = 0 \<and> m b = W25Q32_CMD_WRITE_ENABLE \<longrightarrow>
        (\<exists>s1. message [\<lparr>send_buf = b, recv_buf = 0, slength = 1, cs_take = True, cs_release = True\<rparr>] (m, s) = (m, s1)
           \<and> polls_left s1 = 0 \<and> enabled s1 \<and> contents s1 = contents s))"

definition takes_program :: "'s spi_transfer \<Rightarrow> ('s \<Rightarrow> nat) \<Rightarrow> ('s \<Rightarrow> bool) \<Rightarrow> ('s \<Rightarrow> nat \<Rightarrow> u8) \<Rightarrow> bool" where
  "takes_program message polls_left enabled contents \<longleftrightarrow>
     (\<forall>m s b n. polls_left s = 0 \<and> enabled s \<and> m b = W25Q32_CMD_PAGE_PROGRAM \<and> n \<le> 256 \<longrightarrow>
        (\<exists>s1. message [\<lparr>send_buf = b, recv_buf = 0, slength = of_nat n + 4, cs_take = True, cs_release = True\<rparr>] (m, s) = (m, s1)
           \<and> contents s1 = flash_program (flash_address m b) (bytes_at m (b + 4) n) (contents s)))"

definition takes_erase :: "'s spi_transfer \<Rightarrow> ('s \<Rightarrow> nat) \<Rightarrow> ('s \<Rightarrow> bool) \<Rightarrow> ('s \<Rightarrow> nat \<Rightarrow> u8) \<Rightarrow> bool" where
  "takes_erase message polls_left enabled contents \<longleftrightarrow>
     (\<forall>m s b. polls_left s = 0 \<and> enabled s \<and> m b = W25Q32_CMD_SECTOR_ERASE \<longrightarrow>
        (\<exists>s1. message [\<lparr>send_buf = b, recv_buf = 0, slength = 4, cs_take = True, cs_release = True\<rparr>] (m, s) = (m, s1)
           \<and> contents s1 = (\<lambda>i. if i div 4096 = flash_address m b div 4096 then 0xFF else contents s i)))"

definition takes_status :: "'s spi_transfer \<Rightarrow> (int \<Rightarrow> 's \<Rightarrow> 's) \<Rightarrow> ('s \<Rightarrow> nat) \<Rightarrow> ('s \<Rightarrow> nat \<Rightarrow> u8) \<Rightarrow> bool" where
  "takes_status message wait polls_left contents \<longleftrightarrow>
     (\<forall>m s b. m b = W25Q32_CMD_READ_STATUS \<longrightarrow>
        (\<exists>x y s1. message [\<lparr>send_buf = b, recv_buf = b, slength = 2, cs_take = True, cs_release = True\<rparr>] (m, s)
              = (m(b := x, b + 1 := y), s1)
           \<and> (y AND 1 \<noteq> 0 \<longleftrightarrow> 0 < polls_left s) \<and> polls_left s1 = polls_left s \<and> contents s1 = contents s
           \<and> polls_left (wait 1 s1) = polls_left s - 1 \<and> contents (wait 1 s1) = contents s))"

definition takes_fetch :: "'s spi_transfer \<Rightarrow> ('s \<Rightarrow> nat) \<Rightarrow> ('s \<Rightarrow> nat \<Rightarrow> u8) \<Rightarrow> bool" where
  "takes_fetch message polls_left contents \<longleftrightarrow>
     (\<forall>m s b r buf n. polls_left s = 0 \<and> m b = W25Q32_CMD_READ \<and> flash_address m b + n \<le> 4194304 \<longrightarrow>
        (\<exists>m1 s1 s2. message [\<lparr>send_buf = b, recv_buf = r, slength = 4, cs_take = True, cs_release = False\<rparr>] (m, s) = (m1, s1)
           \<and> (\<forall>a. a < r \<or> r + 4 \<le> a \<longrightarrow> m1 a = m a)
           \<and> message [\<lparr>send_buf = 0, recv_buf = buf, slength = of_nat n, cs_take = False, cs_release = True\<rparr>] (m1, s1)
             = (\<lambda>a. if buf \<le> a \<and> a < buf + n then contents s (flash_address m b + (a - buf)) else m1 a, s2)
           \<and> polls_left s2 = 0 \<and> contents s2 = contents s))"

definition w25q32_chip :: "'s spi_transfer \<Rightarrow> (int \<Rightarrow> 's \<Rightarrow> 's) \<Rightarrow> ('s \<Rightarrow> nat) \<Rightarrow> ('s \<Rightarrow> bool) \<Rightarrow> ('s \<Rightarrow> nat \<Rightarrow> u8) \<Rightarrow> bool" where
  "w25q32_chip message wait polls_left enabled contents \<longleftrightarrow>
     takes_enable message polls_left enabled contents \<and> takes_program message polls_left enabled contents
     \<and> takes_erase message polls_left enabled contents \<and> takes_status message wait polls_left contents
     \<and> takes_fetch message polls_left contents"

lemma flash_program_within:
  assumes "a mod 256 + length ds \<le> 256"
  shows "flash_program a ds c = (\<lambda>i. if a \<le> i \<and> i < a + length ds then c i AND ds ! (i - a) else c i)"
proof -
  have w: "a div 256 * 256 + (a + i) mod 256 = a + i" if "i < length ds" for i
    using that assms by (intro page_offset) simp
  have f: "fold (\<lambda>i c. let p = a div 256 * 256 + (a + i) mod 256 in c(p := c p AND ds ! i)) [0..<n] c
      = fold (\<lambda>i c. c(a + i := c (a + i) AND ds ! i)) [0..<n] c" if "n \<le> length ds" for n
  proof (rule fold_cong)
    fix i assume "i \<in> set [0..<n]"
    then have "i < length ds" using that by simp
    from w [OF this] show "(\<lambda>c. let p = a div 256 * 256 + (a + i) mod 256 in c(p := c p AND ds ! i))
        = (\<lambda>c. c(a + i := c (a + i) AND ds ! i))" by (simp only: Let_def)
  qed simp_all
  have "fold (\<lambda>i c. c(a + i := c (a + i) AND ds ! i)) [0..<n] c
      = (\<lambda>i. if a \<le> i \<and> i < a + n then c i AND ds ! (i - a) else c i)" for n
    by (induction n) (auto simp: fun_eq_iff less_Suc_eq)
  then show ?thesis by (simp add: flash_program_def f)
qed

lemma flash_address_command:
  assumes "unat (addr :: u32) < 2 ^ 24" "\<forall>i<4. m' (cb + i) = w25q32_command cb c addr m (cb + i)"
  shows "m' cb = c" "flash_address m' cb = unat addr"
proof -
  have e: "m' cb = c" "m' (cb + 1) = ucast (drop_bit 16 addr)" "m' (cb + 2) = ucast (drop_bit 8 addr)" "m' (cb + 3) = ucast addr"
    using assms(2) [rule_format, of 0] assms(2) [rule_format, of 1] assms(2) [rule_format, of 2] assms(2) [rule_format, of 3]
    by (simp_all add: w25q32_command_def)
  show "m' cb = c" by (rule e(1))
  define a where "a = unat addr"
  have u: "unat (ucast (drop_bit k addr) :: u8) = (a div 2 ^ k) mod 256" for k
    using assms(1) by (simp only: unsigned_ucast_eq unsigned_drop_bit_eq a_def) (simp add: take_bit_eq_mod drop_bit_eq_div)
  have "a div 65536 < 256" using assms(1) by (simp add: a_def less_mult_imp_div_less)
  moreover have "a div 256 div 256 = a div 65536" by (simp add: div_mult2_eq [symmetric])
  ultimately have "a div 65536 * 65536 + a div 256 mod 256 * 256 + a mod 256 = a"
    using div_mult_mod_eq [of a 256] div_mult_mod_eq [of "a div 256" 256] by linarith
  then show "flash_address m' cb = unat addr"
    using u [of 16] u [of 8] u [of 0] \<open>a div 65536 < 256\<close> unfolding flash_address_def e by (simp add: a_def)
qed

section \<open>The loops of the driver\<close>

lemma read_status_step:
  assumes "takes_status message wait polls_left contents"
  shows "\<exists>m1 s1. w25q32_read_status message [] sp (m, s) = (m1 (sp + 264), m1, s1)
    \<and> (m1 (sp + 264) AND 1 \<noteq> 0 \<longleftrightarrow> 0 < polls_left s) \<and> polls_left s1 = polls_left s \<and> contents s1 = contents s
    \<and> polls_left (wait 1 s1) = polls_left s - 1 \<and> contents (wait 1 s1) = contents s
    \<and> (\<forall>a. a < sp \<or> sp + 270 \<le> a \<longrightarrow> m1 a = m a)"
proof -
  let ?m0 = "m(sp + 264 := 0)" and ?b = "sp + 268"
  define m2 where "m2 = blit (?m0(?b := W25Q32_CMD_READ_STATUS)) (?b + 1) (sp + 264) 1"
  have c1: "rt_memcpy (?m0(?b := W25Q32_CMD_READ_STATUS)) (?b + 1) (sp + 264) 1 = (?b + 1, m2)"
    unfolding m2_def by (rule rt_memcpy_blit) simp
  have st: "m2 ?b = W25Q32_CMD_READ_STATUS" by (simp add: m2_def blit_def)
  obtain x y s1 where t: "message [\<lparr>send_buf = ?b, recv_buf = ?b, slength = 2, cs_take = True, cs_release = True\<rparr>] (m2, s)
        = (m2(?b := x, ?b + 1 := y), s1)"
      "y AND 1 \<noteq> 0 \<longleftrightarrow> 0 < polls_left s" "polls_left s1 = polls_left s" "contents s1 = contents s"
      "polls_left (wait 1 s1) = polls_left s - 1" "contents (wait 1 s1) = contents s"
    using assms [unfolded takes_status_def, rule_format, where m = m2 and b = ?b and s = s, OF st] by (elim exE conjE) (rule that)
  define m3 where "m3 = m2(?b := x, ?b + 1 := y)"
  define m4 where "m4 = blit m3 (sp + 264) (?b + 1) 1"
  have c2: "rt_memcpy m3 (sp + 264) (?b + 1) 1 = (sp + 264, m4)"
    unfolding m4_def by (rule rt_memcpy_blit) simp
  have "w25q32_send_cmd message [] ?b W25Q32_CMD_READ_STATUS (sp + 264) 1 (?m0, s) = (m4, s1)"
    using t(1) c1 c2 by (simp add: w25q32_send_cmd_def Let_def m3_def)
  then have "w25q32_read_status message [] sp (m, s) = (m4 (sp + 264), m4, s1)"
    by (simp add: w25q32_read_status_def Let_def)
  moreover have "m4 (sp + 264) = y" by (simp add: m4_def m3_def blit_def)
  moreover have "m4 a = m a" if "a < sp \<or> sp + 270 \<le> a" for a using that by (auto simp: m4_def m3_def m2_def blit_def)
  ultimately show ?thesis using t(2-6) by (intro exI [of _ m4] exI [of _ s1]) simp
qed

lemma wait_ready_ends:
  assumes "takes_status message wait polls_left contents"
  shows "\<exists>m1 s1. w25q32_wait_ready message [] wait sp (m, s) = Some (m1, s1) \<and> polls_left s1 = 0 \<and> contents s1 = contents s
    \<and> (\<forall>a. a < sp \<or> sp + 270 \<le> a \<longrightarrow> m1 a = m a)"
proof (induction "polls_left s" arbitrary: m s)
  case 0
  obtain m1 s1 where r: "w25q32_read_status message [] sp (m, s) = (m1 (sp + 264), m1, s1)" "m1 (sp + 264) AND 1 = 0"
      "polls_left s1 = 0" "contents s1 = contents s" "\<forall>a. a < sp \<or> sp + 270 \<le> a \<longrightarrow> m1 a = m a"
    using read_status_step [OF assms, of sp m s] 0 by auto
  then show ?case by (subst w25q32_wait_ready.simps) simp
next
  case (Suc n)
  obtain m1 s1 where r: "w25q32_read_status message [] sp (m, s) = (m1 (sp + 264), m1, s1)" "m1 (sp + 264) AND 1 \<noteq> 0"
      "polls_left (wait 1 s1) = polls_left s - 1" "contents (wait 1 s1) = contents s" "\<forall>a. a < sp \<or> sp + 270 \<le> a \<longrightarrow> m1 a = m a"
    using read_status_step [OF assms, of sp m s] Suc(2) by auto
  have "n = polls_left (wait 1 s1)" using Suc(2) r(3) by simp
  from Suc(1) [OF this, of m1] r Suc(2) show ?case by (subst w25q32_wait_ready.simps) auto
qed

lemma unat_and_255: "unat (x AND (255 :: u32)) = unat x mod 256"
  using unat_and_mask [of x 8] by (simp add: mask_eq_exp_minus_1)

lemma unat_flash_page_bytes:
  assumes "offset \<le> sz"
  shows "unat (w25q32_page_bytes addr sz offset) = min (256 - unat (addr + offset) mod 256) (unat sz - unat offset)"
proof -
  have "unat (256 - ((addr + offset) AND 255)) = 256 - unat (addr + offset) mod 256"
    by (subst unat_sub) (simp_all add: word_le_nat_alt unat_and_255)
  moreover have "unat (sz - offset) = unat sz - unat offset" using assms by (rule unat_sub)
  ultimately show ?thesis by (simp add: w25q32_page_bytes_def rt_const Let_def word_less_nat_alt min_def not_less)
qed

text \<open>One turn of the loop programs the bytes of one page.\<close>

lemma write_page_programs:
  fixes n :: u32
  assumes chip: "w25q32_chip message wait polls_left enabled contents" and "polls_left s = 0"
    and a: "unat a < 2 ^ 24" "unat a mod 256 + unat n \<le> 256" and sep: "sp + 272 \<le> src \<or> src + unat n \<le> sp"
  shows "\<exists>m1 s1. Option.bind (w25q32_wait_ready message [] wait sp
        (w25q32_program message [] sp a src n (w25q32_write_enable message [] sp (m, s)))) f = f (m1, s1)
    \<and> polls_left s1 = 0
    \<and> contents s1 = (\<lambda>i. if unat a \<le> i \<and> i < unat a + unat n then contents s i AND m (src + (i - unat a)) else contents s i)
    \<and> (\<forall>a. a < sp \<or> sp + 272 \<le> a \<longrightarrow> m1 a = m a)"
proof -
  note c = chip [unfolded w25q32_chip_def]
  let ?m0 = "m(sp + 260 := W25Q32_CMD_WRITE_ENABLE)"
  obtain s0 where e: "w25q32_write_enable message [] sp (m, s) = (?m0, s0)" "polls_left s0 = 0" "enabled s0" "contents s0 = contents s"
  proof -
    have "\<exists>s1. message [\<lparr>send_buf = sp + 260, recv_buf = 0, slength = 1, cs_take = True, cs_release = True\<rparr>] (?m0, s) = (?m0, s1)
        \<and> polls_left s1 = 0 \<and> enabled s1 \<and> contents s1 = contents s"
      using c assms(2) unfolding takes_enable_def by (simp only: fun_upd_same)
    then show thesis using that by (auto simp: w25q32_write_enable_def)
  qed
  let ?m1 = "w25q32_command sp W25Q32_CMD_PAGE_PROGRAM a ?m0"
  define m2 where "m2 = blit ?m1 (sp + 4) src (unat n)"
  have n: "unat n \<le> 256" using a(2) by simp
  have cp: "rt_memcpy ?m1 (sp + 4) src (unat n) = (sp + 4, m2)"
    unfolding m2_def using sep by (intro rt_memcpy_blit) auto
  have h: "\<forall>i<4. m2 (sp + i) = w25q32_command sp W25Q32_CMD_PAGE_PROGRAM a ?m0 (sp + i)" by (simp add: m2_def blit_def)
  note ad = flash_address_command [OF a(1) h]
  have ds: "bytes_at m2 (sp + 4) (unat n) = bytes_at m src (unat n)"
    using sep n by (auto simp: bytes_at_def m2_def blit_def w25q32_command_def)
  have len: "n + 4 = of_nat (unat n) + 4" by simp
  obtain s1 where t: "message [\<lparr>send_buf = sp, recv_buf = 0, slength = n + 4, cs_take = True, cs_release = True\<rparr>] (m2, s0) = (m2, s1)"
      "contents s1 = flash_program (flash_address m2 sp) (bytes_at m2 (sp + 4) (unat n)) (contents s0)"
    using c e(2,3) ad(1) n unfolding takes_program_def len by blast
  have p: "w25q32_program message [] sp a src n (?m0, s0) = (m2, s1)"
    unfolding w25q32_program_def by (simp only: prod.case Let_def cp snd_conv t(1))
  have st: "takes_status message wait polls_left contents" using c by blast
  obtain m3 s3 where w: "w25q32_wait_ready message [] wait sp (m2, s1) = Some (m3, s3)" "polls_left s3 = 0" "contents s3 = contents s1"
      "\<forall>a. a < sp \<or> sp + 270 \<le> a \<longrightarrow> m3 a = m2 a"
    using wait_ready_ends [OF st, of sp m2 s1] by blast
  have "contents s3 = (\<lambda>i. if unat a \<le> i \<and> i < unat a + unat n then contents s i AND m (src + (i - unat a)) else contents s i)"
    unfolding w(3) t(2) ad ds e(4) using a(2) by (subst flash_program_within) (auto simp: bytes_at_def fun_eq_iff)
  moreover have "m3 x = m x" if "x < sp \<or> sp + 272 \<le> x" for x
    using that n w(4) by (auto simp: m2_def blit_def w25q32_command_def)
  ultimately show ?thesis using w(1,2) by (auto simp: e(1) p)
qed

lemma write_loop_programs:
  assumes chip: "w25q32_chip message wait polls_left enabled contents" and r: "unat addr + unat sz \<le> 4194304"
    and sep: "sp + 272 \<le> buf \<or> buf + unat sz \<le> sp"
  shows "offset \<le> sz \<Longrightarrow> polls_left s = 0 \<Longrightarrow>
    \<exists>m1 s1. w25q32_write_loop message [] wait sp addr buf sz offset (m, s) = Some (m1, s1) \<and> polls_left s1 = 0
    \<and> contents s1 = (\<lambda>i. if unat addr + unat offset \<le> i \<and> i < unat addr + unat sz
         then contents s i AND m (buf + (i - unat addr)) else contents s i)
    \<and> (\<forall>a. a < sp \<or> sp + 272 \<le> a \<longrightarrow> m1 a = m a)"
proof (induction "unat sz - unat offset" arbitrary: offset m s rule: less_induct)
  case less
  show ?case
  proof (cases "offset < sz")
    case False
    then have "offset = sz" using less.prems(1) by simp
    then have "w25q32_write_loop message [] wait sp addr buf sz offset (m, s) = Some (m, s)"
      by (subst w25q32_write_loop.simps) simp
    moreover have "contents s = (\<lambda>i. if unat addr + unat offset \<le> i \<and> i < unat addr + unat sz
        then contents s i AND m (buf + (i - unat addr)) else contents s i)"
      using \<open>offset = sz\<close> by (auto simp: fun_eq_iff)
    ultimately show ?thesis using less.prems(2) by blast
  next
    case True
    define n where "n = w25q32_page_bytes addr sz offset"
    have b: "unat offset < unat sz" using True by (simp add: word_less_nat_alt)
    have a: "unat (addr + offset) = unat addr + unat offset" using b r by (simp add: unat_word_ariths)
    have n: "unat n = min (256 - (unat addr + unat offset) mod 256) (unat sz - unat offset)"
      using less.prems(1) by (simp add: n_def unat_flash_page_bytes a)
    then have pos: "0 < unat n" "unat (addr + offset) mod 256 + unat n \<le> 256" "unat offset + unat n \<le> unat sz"
      using b by (auto simp: a)
    have bn: "unat (offset + n) = unat offset + unat n"
      using pos(3) unsigned_less [of sz, where ?'a = nat] by (simp add: unat_word_ariths)
    have lim: "unat (addr + offset) < 2 ^ 24" using a b r by simp
    have sep': "sp + 272 \<le> buf + unat offset \<or> buf + unat offset + unat n \<le> sp" using sep pos(3) by auto
    let ?rest = "w25q32_write_loop message [] wait sp addr buf sz (offset + n)"
    obtain m1 s1 where p: "Option.bind (w25q32_wait_ready message [] wait sp
          (w25q32_program message [] sp (addr + offset) (buf + unat offset) n (w25q32_write_enable message [] sp (m, s)))) ?rest
          = ?rest (m1, s1)" "polls_left s1 = 0"
        "contents s1 = (\<lambda>i. if unat (addr + offset) \<le> i \<and> i < unat (addr + offset) + unat n
           then contents s i AND m (buf + unat offset + (i - unat (addr + offset))) else contents s i)"
        "\<forall>a. a < sp \<or> sp + 272 \<le> a \<longrightarrow> m1 a = m a"
      using write_page_programs [OF chip less.prems(2) lim pos(2) sep', of m ?rest] by blast
    have "unat sz - unat (offset + n) < unat sz - unat offset" "offset + n \<le> sz"
      using b pos bn by (simp_all add: word_le_nat_alt)
    from less.hyps [OF this p(2), of m1] obtain m2 s2 where
      q: "?rest (m1, s1) = Some (m2, s2)" "polls_left s2 = 0"
        "contents s2 = (\<lambda>i. if unat addr + unat (offset + n) \<le> i \<and> i < unat addr + unat sz
           then contents s1 i AND m1 (buf + (i - unat addr)) else contents s1 i)"
        "\<forall>a. a < sp \<or> sp + 272 \<le> a \<longrightarrow> m2 a = m1 a" by blast
    have "contents s2 = (\<lambda>i. if unat addr + unat offset \<le> i \<and> i < unat addr + unat sz
        then contents s i AND m (buf + (i - unat addr)) else contents s i)"
    proof
      fix i
      have m: "m1 (buf + (i - unat addr)) = m (buf + (i - unat addr))" if "unat addr \<le> i" "i < unat addr + unat sz"
        using that sep p(4) by auto
      have "buf + unat offset + (i - unat (addr + offset)) = buf + (i - unat addr)" if "unat addr + unat offset \<le> i"
        using that a by simp
      then show "contents s2 i = (if unat addr + unat offset \<le> i \<and> i < unat addr + unat sz
          then contents s i AND m (buf + (i - unat addr)) else contents s i)"
        using pos(3) m by (auto simp: q(3) p(3) bn a)
    qed
    moreover have "w25q32_write_loop message [] wait sp addr buf sz offset (m, s) = Some (m2, s2)"
      using True p(1) q(1) by (subst w25q32_write_loop.simps) (simp add: n_def [symmetric] Let_def)
    ultimately show ?thesis using q(2,4) p(4) by auto
  qed
qed

lemma flash_range_check: "unat addr + unat sz \<le> 4194304 \<Longrightarrow> \<not> addr + sz > W25Q32_SIZE"
  by (simp add: W25Q32_SIZE_def word_less_nat_alt unat_word_ariths not_less)

lemma erase_sector_erases:
  assumes chip: "w25q32_chip (message d) wait polls_left enabled contents" and "polls_left s = 0" "unat addr < 4194304"
  shows "\<exists>m1 s1. w25q32_erase_sector message [] wait (Some d) sp addr (m, s) = Some (RT_EOK, m1, s1) \<and> polls_left s1 = 0
    \<and> contents s1 = (\<lambda>i. if i div 4096 = unat addr div 4096 then 0xFF else contents s i)
    \<and> (\<forall>a. a < sp \<or> sp + 272 \<le> a \<longrightarrow> m1 a = m a)"
proof -
  note c = chip [unfolded w25q32_chip_def]
  let ?m0 = "m(sp + 260 := W25Q32_CMD_WRITE_ENABLE)"
  have en: "takes_enable (message d) polls_left enabled contents" and er: "takes_erase (message d) polls_left enabled contents"
    and st: "takes_status (message d) wait polls_left contents" using c by blast+
  obtain s0 where e: "w25q32_write_enable (message d) [] sp (m, s) = (?m0, s0)" "polls_left s0 = 0" "enabled s0" "contents s0 = contents s"
    using en [unfolded takes_enable_def, rule_format, where m = ?m0 and b = "sp + 260" and s = s] assms(2)
    by (auto simp: w25q32_write_enable_def)
  let ?m1 = "w25q32_command sp W25Q32_CMD_SECTOR_ERASE addr ?m0"
  have "unat addr < 2 ^ 24" using assms(3) by simp
  note ad = flash_address_command [OF this, of ?m1 sp W25Q32_CMD_SECTOR_ERASE ?m0, simplified]
  obtain s1 where t: "message d [\<lparr>send_buf = sp, recv_buf = 0, slength = 4, cs_take = True, cs_release = True\<rparr>] (?m1, s0) = (?m1, s1)"
      "contents s1 = (\<lambda>i. if i div 4096 = flash_address ?m1 sp div 4096 then 0xFF else contents s0 i)"
    using er [unfolded takes_erase_def, rule_format, where m = ?m1 and b = sp and s = s0] e(2,3) ad(1) by blast
  obtain m3 s3 where w: "w25q32_wait_ready (message d) [] wait sp (?m1, s1) = Some (m3, s3)" "polls_left s3 = 0" "contents s3 = contents s1"
      "\<forall>a. a < sp \<or> sp + 270 \<le> a \<longrightarrow> m3 a = ?m1 a"
    using wait_ready_ends [OF st, of sp ?m1 s1] by blast
  have "w25q32_erase_sector message [] wait (Some d) sp addr (m, s) = Some (RT_EOK, m3, s3)"
    using assms(3) by (simp add: w25q32_erase_sector_def W25Q32_SIZE_def word_le_nat_alt e(1) t(1) w(1))
  moreover have "contents s3 = (\<lambda>i. if i div 4096 = unat addr div 4096 then 0xFF else contents s i)"
    unfolding w(3) t(2) ad(2) e(4) ..
  moreover have "m3 a = m a" if "a < sp \<or> sp + 272 \<le> a" for a
    using that w(4) by (auto simp: w25q32_command_def)
  ultimately show ?thesis using w(2) by (intro exI [of _ m3] exI [of _ s3]) simp
qed

lemma read_fetches:
  assumes chip: "w25q32_chip (message d) wait polls_left enabled contents" and "polls_left s = 0" "unat addr < 4194304"
    and r: "unat addr + unat sz \<le> 4194304"
  shows "\<exists>m1 s1. w25q32_read message [] (Some d) sp addr buf sz (m, s) = (RT_EOK, m1, s1)
    \<and> bytes_at m1 buf (unat sz) = map (\<lambda>i. contents s (unat addr + i)) [0..<unat sz]"
proof -
  let ?m1 = "w25q32_command sp W25Q32_CMD_READ addr m"
  have "unat addr < 2 ^ 24" using assms(3) by simp
  note ad = flash_address_command [OF this, of ?m1 sp W25Q32_CMD_READ m, simplified]
  have f: "takes_fetch (message d) polls_left contents" using chip by (simp add: w25q32_chip_def)
  have "polls_left s = 0 \<and> ?m1 sp = W25Q32_CMD_READ \<and> flash_address ?m1 sp + unat sz \<le> 4194304"
    using ad r assms(2) by simp
  from f [unfolded takes_fetch_def, rule_format, OF this, of "sp + 4" buf] obtain m2 s2 s3 where
    t: "message d [\<lparr>send_buf = sp, recv_buf = sp + 4, slength = 4, cs_take = True, cs_release = False\<rparr>] (?m1, s) = (m2, s2)"
       "message d [\<lparr>send_buf = 0, recv_buf = buf, slength = of_nat (unat sz), cs_take = False, cs_release = True\<rparr>] (m2, s2)
          = (\<lambda>a. if buf \<le> a \<and> a < buf + unat sz then contents s (flash_address ?m1 sp + (a - buf)) else m2 a, s3)"
    by (elim exE conjE) (rule that)
  have len: "sz = of_nat (unat sz)" by simp
  have "w25q32_read message [] (Some d) sp addr buf sz (m, s)
      = (RT_EOK, \<lambda>a. if buf \<le> a \<and> a < buf + unat sz then contents s (flash_address ?m1 sp + (a - buf)) else m2 a, s3)"
    unfolding w25q32_read_def using flash_range_check [OF r] t by (simp add: Let_def)
  then show ?thesis by (auto simp: bytes_at_def ad(2))
qed

lemma erased_and: "0xFF AND x = (x :: u8)"
proof -
  have "(0xFF :: u8) = - 1" by simp
  then show ?thesis by (simp only: and.left_neutral)
qed


text \<open>A flash that is busy for three readings of its status after each program or erase.\<close>

record flash_chip =
  cells :: "nat \<Rightarrow> u8"
  busy_for :: nat
  wel :: bool
  pointer :: nat

fun flash_message :: "nat \<Rightarrow> flash_chip spi_transfer" where
  "flash_message d [g] (m, c) =
     (if \<not> cs_take g then
        (\<lambda>a. if recv_buf g \<le> a \<and> a < recv_buf g + unat (slength g) then cells c (pointer c + (a - recv_buf g)) else m a, c)
      else let cmd = m (send_buf g); at = flash_address m (send_buf g) in
        if cmd = W25Q32_CMD_WRITE_ENABLE then (m, c\<lparr>wel := True\<rparr>)
        else if cmd = W25Q32_CMD_PAGE_PROGRAM then
          (m, c\<lparr>cells := flash_program at (bytes_at m (send_buf g + 4) (unat (slength g - 4))) (cells c), busy_for := 3, wel := False\<rparr>)
        else if cmd = W25Q32_CMD_SECTOR_ERASE then
          (m, c\<lparr>cells := (\<lambda>i. if i div 4096 = at div 4096 then 0xFF else cells c i), busy_for := 3, wel := False\<rparr>)
        else if cmd = W25Q32_CMD_READ_STATUS then
          (m(recv_buf g := 0, recv_buf g + 1 := (if 0 < busy_for c then 1 else 0)), c)
        else if cmd = W25Q32_CMD_READ then (m, c\<lparr>pointer := at\<rparr>)
        else (m, c))"
| "flash_message d gs e = e"

definition flash_wait :: "int \<Rightarrow> flash_chip \<Rightarrow> flash_chip" where
  "flash_wait ms c = c\<lparr>busy_for := busy_for c - 1\<rparr>"

lemma flash_chip_answers: "w25q32_chip (flash_message d) flash_wait busy_for wel cells"
proof -
  have u: "unat (of_nat n :: u32) = n" if "n \<le> 4194304" for n
    using that by (simp only: unsigned_of_nat) (simp add: take_bit_nat_eq_self)
  have "takes_enable (flash_message d) busy_for wel cells" by (simp add: takes_enable_def)
  moreover have "takes_program (flash_message d) busy_for wel cells"
    by (simp add: takes_program_def rt_const u)
  moreover have "takes_erase (flash_message d) busy_for wel cells" by (simp add: takes_erase_def rt_const)
  moreover have "takes_status (flash_message d) flash_wait busy_for cells"
    by (auto simp: takes_status_def rt_const flash_wait_def intro!: exI)
  moreover have "takes_fetch (flash_message d) busy_for cells"
    by (simp add: takes_fetch_def rt_const u cong: if_cong)
  ultimately show ?thesis by (simp add: w25q32_chip_def)
qed


section \<open>Limits of the driver\<close>

text \<open>The range check wraps: a read of 2^32 - 1 bytes at address 1 is not refused.\<close>

lemma w25q32_check_wraps: "fst (w25q32_read message nx (Some d) sp 1 buf (-1) e) = RT_EOK"
  by (simp add: w25q32_read_def split_beta Let_def)

text \<open>A write does not erase: on a byte that holds zero it leaves zero.\<close>

lemma w25q32_write_keeps_zeros:
  assumes "w25q32_chip (message d) wait polls_left enabled contents" "unat addr + unat sz \<le> 4194304"
    and "sp + 272 \<le> buf \<or> buf + unat sz \<le> sp" "polls_left s = 0" "contents s i = 0"
  shows "\<exists>m1 s1. w25q32_write message [] wait (Some d) sp addr buf sz (m, s) = Some (RT_EOK, m1, s1) \<and> contents s1 i = 0"
  using write_loop_programs [OF assms(1-3) _ assms(4), of 0 m] flash_range_check [OF assms(2)] assms(5)
  by (auto simp: w25q32_write_def)

end
