(* ===== verification/Oled.thy ===== *)
theory Oled
  imports I2c Device
begin

text \<open>
  The display driver of the board (bsp/drivers/drv_oled.c): a buffer of the pixels at the address \<open>ob\<close> and commands
  and data sent over the I2C bus. Local buffers are at \<open>sp\<close>; rt_i2c_transfer and rt_thread_mdelay are parameters, as in
  Eeprom. Messages to the console are left out.
\<close>

definition OLED_WIDTH :: nat where [rt_const]: "OLED_WIDTH = 128"
definition OLED_HEIGHT :: nat where [rt_const]: "OLED_HEIGHT = 64"
definition OLED_I2C_ADDR :: u16 where [rt_const]: "OLED_I2C_ADDR = 0x3C"
definition OLED_CTRL_CMD :: u8 where [rt_const]: "OLED_CTRL_CMD = 0x00"
definition OLED_CTRL_DATA :: u8 where [rt_const]: "OLED_CTRL_DATA = 0x40"

definition oled_send_cmd :: "(nat \<Rightarrow> 's i2c_xfer) \<Rightarrow> nat option \<Rightarrow> nat \<Rightarrow> u8 \<Rightarrow> mem \<times> 's \<Rightarrow> rt_err_t \<times> mem \<times> 's" where
  "oled_send_cmd transfer i2c_bus sp cmd = (\<lambda>(m, s).
     (case i2c_bus of None \<Rightarrow> (- RT_ENOSYS, m, s)
      | Some b \<Rightarrow>
          (let (ret, m1, s1) = transfer b [\<lparr>msg_addr = OLED_I2C_ADDR, msg_flags = RT_I2C_WR, msg_len = 2, msg_buf = sp\<rparr>]
                                 (m(sp := OLED_CTRL_CMD, sp + 1 := cmd), s)
           in (if ret \<noteq> 1 then - RT_EIO else RT_EOK, m1, s1))))"

definition oled_send_data :: "(nat \<Rightarrow> 's i2c_xfer) \<Rightarrow> nat option \<Rightarrow> nat \<Rightarrow> nat \<Rightarrow> nat \<Rightarrow> mem \<times> 's \<Rightarrow> rt_err_t \<times> mem \<times> 's" where
  "oled_send_data transfer i2c_bus sp data len = (\<lambda>(m, s).
     (case i2c_bus of None \<Rightarrow> (- RT_ENOSYS, m, s)
      | Some b \<Rightarrow>
          (let m1 = snd (rt_memcpy (m(sp := OLED_CTRL_DATA)) (sp + 1) data len);
               (ret, m2, s2) = transfer b [\<lparr>msg_addr = OLED_I2C_ADDR, msg_flags = RT_I2C_WR, msg_len = of_nat (len + 1), msg_buf = sp\<rparr>]
                                 (m1, s)
           in (if ret \<noteq> 1 then - RT_EIO else RT_EOK, m2, s2))))"

text \<open>The results of the commands are not looked at.\<close>

definition oled_cmds :: "(nat \<Rightarrow> 's i2c_xfer) \<Rightarrow> nat option \<Rightarrow> nat \<Rightarrow> u8 list \<Rightarrow> mem \<times> 's \<Rightarrow> mem \<times> 's" where
  "oled_cmds transfer i2c_bus sp cmds = fold (\<lambda>c e. snd (oled_send_cmd transfer i2c_bus sp c e)) cmds"

primrec oled_pages :: "(nat \<Rightarrow> 's i2c_xfer) \<Rightarrow> nat option \<Rightarrow> nat \<Rightarrow> nat \<Rightarrow> nat \<Rightarrow> mem \<times> 's \<Rightarrow> mem \<times> 's" where
  "oled_pages transfer i2c_bus sp ob 0 e = e"
| "oled_pages transfer i2c_bus sp ob (Suc i) e =
     (let e1 = oled_pages transfer i2c_bus sp ob i e;
          e2 = oled_cmds transfer i2c_bus sp [0xB0 + of_nat i, 0x00, 0x10] e1
      in snd (oled_send_data transfer i2c_bus sp (ob + i * OLED_WIDTH) OLED_WIDTH e2))"

definition oled_clear :: "(nat \<Rightarrow> 's i2c_xfer) \<Rightarrow> nat option \<Rightarrow> nat \<Rightarrow> nat \<Rightarrow> mem \<times> 's \<Rightarrow> rt_err_t \<times> mem \<times> 's" where
  "oled_clear transfer i2c_bus sp ob = (\<lambda>(m, s).
     (if i2c_bus = None then (- RT_ENOSYS, m, s)
      else (RT_EOK, oled_pages transfer i2c_bus sp ob (OLED_HEIGHT div 8)
                      (snd (rt_memset m ob 0 (OLED_WIDTH * OLED_HEIGHT div 8)), s))))"

definition oled_setup :: "u8 list" where
  "oled_setup = [0xAE, 0xD5, 0x80, 0xA8, 0x3F, 0xD3, 0x00, 0x40, 0x8D, 0x14, 0x20, 0x02, 0xA1, 0xC8, 0xDA, 0x12,
     0x81, 0xCF, 0xD9, 0xF1, 0xDB, 0x40, 0xAF]"

definition oled_init :: "(nat \<Rightarrow> 's i2c_xfer) \<Rightarrow> (int \<Rightarrow> 's \<Rightarrow> 's) \<Rightarrow> nat \<Rightarrow> nat \<Rightarrow> nat \<Rightarrow> objects \<Rightarrow> mem \<times> 's
    \<Rightarrow> (rt_err_t \<times> nat option \<times> mem \<times> 's) option" where
  "oled_init transfer wait sp ob name obs = (\<lambda>(m, s).
     map_option (\<lambda>i2c_bus. if i2c_bus = None then (- RT_ENOSYS, i2c_bus, m, s)
         else (RT_EOK, i2c_bus, snd (oled_clear transfer i2c_bus sp ob (oled_cmds transfer i2c_bus sp oled_setup (m, wait 100 s)))))
       (rt_device_find name obs))"

definition oled_display_on :: "(nat \<Rightarrow> 's i2c_xfer) \<Rightarrow> nat option \<Rightarrow> nat \<Rightarrow> mem \<times> 's \<Rightarrow> rt_err_t \<times> mem \<times> 's" where
  "oled_display_on transfer i2c_bus sp e =
     (if i2c_bus = None then (- RT_ENOSYS, e) else oled_send_cmd transfer i2c_bus sp 0xAF e)"

definition oled_display_off :: "(nat \<Rightarrow> 's i2c_xfer) \<Rightarrow> nat option \<Rightarrow> nat \<Rightarrow> mem \<times> 's \<Rightarrow> rt_err_t \<times> mem \<times> 's" where
  "oled_display_off transfer i2c_bus sp e =
     (if i2c_bus = None then (- RT_ENOSYS, e) else oled_send_cmd transfer i2c_bus sp 0xAE e)"

definition oled_write_pixel :: "nat \<Rightarrow> u8 \<Rightarrow> u8 \<Rightarrow> u8 \<Rightarrow> mem \<Rightarrow> rt_err_t \<times> mem" where
  "oled_write_pixel ob x y pixel m =
     (if unat x \<ge> OLED_WIDTH \<or> unat y \<ge> OLED_HEIGHT then (- RT_EINVAL, m)
      else let a = ob + (unat y div 8 * OLED_WIDTH + unat x); b = push_bit (unat y mod 8) 1
           in (RT_EOK, m(a := (if pixel \<noteq> 0 then m a OR b else m a AND NOT b))))"

text \<open>\<open>text\<close> says whether the string is not null; the string itself is only printed.\<close>

definition oled_write_string :: "(nat \<Rightarrow> 's i2c_xfer) \<Rightarrow> nat option \<Rightarrow> nat \<Rightarrow> u8 \<Rightarrow> u8 \<Rightarrow> bool \<Rightarrow> mem \<times> 's \<Rightarrow> rt_err_t \<times> mem \<times> 's" where
  "oled_write_string transfer i2c_bus sp x y text = (\<lambda>(m, s).
     (if i2c_bus = None \<or> \<not> text then (- RT_ENOSYS, m, s)
      else (RT_EOK, oled_cmds transfer i2c_bus sp [0xB0 + y div 8, x AND 0x0F, drop_bit 4 x OR 0x10] (m, s))))"

section \<open>The buffer\<close>

definition oled_pixel :: "nat \<Rightarrow> mem \<Rightarrow> nat \<Rightarrow> nat \<Rightarrow> bool" where
  "oled_pixel ob m x y = bit (m (ob + (y div 8 * OLED_WIDTH + x))) (y mod 8)"

lemma pixel_address:
  assumes "i < 128" "x < (128 :: nat)"
  shows "j * 128 + i = k * 128 + x \<longleftrightarrow> j = k \<and> i = x"
proof
  assume e: "j * 128 + i = k * 128 + x"
  have "(j * 128 + i) mod 128 = i" "(j * 128 + i) div 128 = j" "(k * 128 + x) mod 128 = x" "(k * 128 + x) div 128 = k"
    using assms by simp_all
  then show "j = k \<and> i = x" using e by metis
qed simp

lemma row_bit: "j div 8 = k div 8 \<and> j mod 8 = k mod 8 \<longleftrightarrow> j = (k :: nat)"
  by (metis div_mult_mod_eq)

lemma write_pixel_in:
  assumes "unat x < 128" "unat y < 64"
  shows "\<exists>v. oled_write_pixel ob x y p m = (RT_EOK, m(ob + (unat y div 8 * 128 + unat x) := v))
    \<and> (\<forall>k<8. bit v k \<longleftrightarrow> (if k = unat y mod 8 then p \<noteq> 0 else bit (m (ob + (unat y div 8 * 128 + unat x))) k))"
  using assms by (simp add: oled_write_pixel_def OLED_WIDTH_def OLED_HEIGHT_def Let_def) (auto simp: bit_simps)

lemma write_pixel_at:
  assumes "unat x < 128" "unat y < 64" "i < 128"
  shows "oled_pixel ob (snd (oled_write_pixel ob x y p m)) i j \<longleftrightarrow> (if i = unat x \<and> j = unat y then p \<noteq> 0 else oled_pixel ob m i j)"
proof -
  obtain v where v: "oled_write_pixel ob x y p m = (RT_EOK, m(ob + (unat y div 8 * 128 + unat x) := v))"
      "\<forall>k<8. bit v k \<longleftrightarrow> (if k = unat y mod 8 then p \<noteq> 0 else bit (m (ob + (unat y div 8 * 128 + unat x))) k)"
    using write_pixel_in [OF assms(1,2)] by blast
  have a: "ob + (j div 8 * 128 + i) = ob + (unat y div 8 * 128 + unat x) \<longleftrightarrow> j div 8 = unat y div 8 \<and> i = unat x"
    using pixel_address [OF assms(3,1)] by simp
  have b: "bit v (j mod 8) \<longleftrightarrow> (if j mod 8 = unat y mod 8 then p \<noteq> 0 else bit (m (ob + (unat y div 8 * 128 + unat x))) (j mod 8))"
    using v(2) by simp
  show ?thesis
  proof (cases "j div 8 = unat y div 8 \<and> i = unat x")
    case True
    then have "oled_pixel ob (snd (oled_write_pixel ob x y p m)) i j \<longleftrightarrow> bit v (j mod 8)" by (simp add: oled_pixel_def OLED_WIDTH_def v(1))
    then show ?thesis using True row_bit [of j "unat y"] unfolding b by (auto simp: oled_pixel_def OLED_WIDTH_def)
  next
    case False
    then have "oled_pixel ob (snd (oled_write_pixel ob x y p m)) i j \<longleftrightarrow> oled_pixel ob m i j"
      using a unfolding oled_pixel_def OLED_WIDTH_def v(1) snd_conv by (simp only: fun_upd_apply if_False)
    then show ?thesis using False by auto
  qed
qed

lemma write_pixel_frame:
  assumes "unat x < 128" "unat y < 64"
  shows "{a. snd (oled_write_pixel ob x y p m) a \<noteq> m a} \<subseteq> {ob..<ob + 1024}"
proof -
  have "unat y div 8 < 8" using assms(2) by (simp add: less_mult_imp_div_less)
  then have "unat y div 8 * 128 + unat x < 1024" using assms(1) by simp
  moreover obtain v where "oled_write_pixel ob x y p m = (RT_EOK, m(ob + (unat y div 8 * 128 + unat x) := v))"
    using write_pixel_in [OF assms] by blast
  ultimately show ?thesis by auto
qed

definition oled_lit :: "nat \<Rightarrow> mem \<Rightarrow> (nat \<times> nat) set" where
  "oled_lit ob m = {(i, j). i < 128 \<and> j < 64 \<and> oled_pixel ob m i j}"

text \<open>C31. The buffer of the display is a grid of 128 by 64 pixels: oled_write_pixel sets one of them and leaves all
others and all other memory, and refuses a position outside the grid without any change.\<close>

theorem oled_pixel_refines:
  "case oled_write_pixel ob x y p m of (r, m1) \<Rightarrow>
     if unat x < 128 \<and> unat y < 64
     then r = RT_EOK \<and> {a. m1 a \<noteq> m a} \<subseteq> {ob..<ob + 1024}
       \<and> oled_lit ob m1 = (if p \<noteq> 0 then insert (unat x, unat y) (oled_lit ob m) else oled_lit ob m - {(unat x, unat y)})
     else r = - RT_EINVAL \<and> m1 = m"
proof (cases "unat x < 128 \<and> unat y < 64")
  case True
  then have t: "unat x < 128" "unat y < 64" by simp_all
  have "oled_lit ob (snd (oled_write_pixel ob x y p m))
      = (if p \<noteq> 0 then insert (unat x, unat y) (oled_lit ob m) else oled_lit ob m - {(unat x, unat y)})"
    using t by (auto simp: oled_lit_def write_pixel_at [OF t] split: if_splits)
  moreover have "fst (oled_write_pixel ob x y p m) = RT_EOK" using write_pixel_in [OF t, of ob p m] by auto
  ultimately show ?thesis using write_pixel_frame [OF t, of ob p m] t by (simp add: split_beta)
qed (auto simp: oled_write_pixel_def OLED_WIDTH_def OLED_HEIGHT_def)

section \<open>What is sent to the display\<close>

text \<open>A bus that records the bytes of each message and answers anything.\<close>

definition recorder :: "(u8 list list \<Rightarrow> int) \<Rightarrow> nat \<Rightarrow> u8 list list i2c_xfer" where
  "recorder rets b gs = (\<lambda>(m, log). (rets log, m, log @ map (\<lambda>g. bytes_at m (msg_buf g) (unat (msg_len g))) gs))"

datatype oled_call = Init | Clear | On | Off | Pixel u8 u8 u8 | Write u8 u8 bool

fun oled_do :: "(nat \<Rightarrow> 's i2c_xfer) \<Rightarrow> (int \<Rightarrow> 's \<Rightarrow> 's) \<Rightarrow> nat \<Rightarrow> nat \<Rightarrow> nat \<Rightarrow> objects \<Rightarrow> oled_call \<Rightarrow> nat option \<times> mem \<times> 's
    \<Rightarrow> (nat option \<times> mem \<times> 's) option" where
  "oled_do tr wait sp ob name obs Init (b, e) = map_option snd (oled_init tr wait sp ob name obs e)"
| "oled_do tr wait sp ob name obs Clear (b, e) = Some (b, snd (oled_clear tr b sp ob e))"
| "oled_do tr wait sp ob name obs On (b, e) = Some (b, snd (oled_display_on tr b sp e))"
| "oled_do tr wait sp ob name obs Off (b, e) = Some (b, snd (oled_display_off tr b sp e))"
| "oled_do tr wait sp ob name obs (Pixel x y p) (b, m, s) = Some (b, snd (oled_write_pixel ob x y p m), s)"
| "oled_do tr wait sp ob name obs (Write x y t) (b, e) = Some (b, snd (oled_write_string tr b sp x y t e))"

primrec oled_run :: "(nat \<Rightarrow> 's i2c_xfer) \<Rightarrow> (int \<Rightarrow> 's \<Rightarrow> 's) \<Rightarrow> nat \<Rightarrow> nat \<Rightarrow> nat \<Rightarrow> objects \<Rightarrow> oled_call list \<Rightarrow> nat option \<times> mem \<times> 's
    \<Rightarrow> (nat option \<times> mem \<times> 's) option" where
  "oled_run tr wait sp ob name obs [] s = Some s"
| "oled_run tr wait sp ob name obs (c # cs) s = Option.bind (oled_do tr wait sp ob name obs c s) (oled_run tr wait sp ob name obs cs)"

text \<open>A message is dark if it is a command or carries zeros.\<close>

definition dark :: "u8 list \<Rightarrow> bool" where
  "dark d \<longleftrightarrow> d \<noteq> [] \<and> (hd d = OLED_CTRL_DATA \<longrightarrow> set (tl d) \<subseteq> {0})"

definition all_dark :: "mem \<times> u8 list list \<Rightarrow> bool" where "all_dark e \<longleftrightarrow> (\<forall>d\<in>set (snd e). dark d)"

definition blank :: "nat \<Rightarrow> mem \<times> u8 list list \<Rightarrow> bool" where "blank ob e \<longleftrightarrow> (\<forall>a. ob \<le> a \<and> a < ob + 1024 \<longrightarrow> fst e a = 0)"

lemma send_cmd_dark:
  assumes "sp + 129 \<le> ob \<or> ob + 1024 \<le> sp"
  shows "all_dark e \<Longrightarrow> all_dark (snd (oled_send_cmd (recorder rets) b sp c e))"
    "blank ob e \<Longrightarrow> blank ob (snd (oled_send_cmd (recorder rets) b sp c e))"
proof -
  have "bytes_at (m(sp := 0, sp + 1 := c)) sp 2 = [0, c]" for m by (simp add: bytes_at_def upt_rec)
  then show "all_dark e \<Longrightarrow> all_dark (snd (oled_send_cmd (recorder rets) b sp c e))"
    by (cases e) (auto simp: oled_send_cmd_def recorder_def all_dark_def dark_def rt_const Let_def split: option.splits)
  show "blank ob e \<Longrightarrow> blank ob (snd (oled_send_cmd (recorder rets) b sp c e))"
    using assms by (cases e) (auto simp: oled_send_cmd_def recorder_def blank_def split: option.splits)
qed

lemma cmds_dark:
  assumes "sp + 129 \<le> ob \<or> ob + 1024 \<le> sp"
  shows "all_dark e \<Longrightarrow> all_dark (oled_cmds (recorder rets) b sp cs e)" "blank ob e \<Longrightarrow> blank ob (oled_cmds (recorder rets) b sp cs e)"
  by (induction cs arbitrary: e) (auto simp: oled_cmds_def send_cmd_dark [OF assms])

lemma send_data_dark:
  assumes sep: "sp + 129 \<le> ob \<or> ob + 1024 \<le> sp" and "i < 8" "blank ob e"
  shows "all_dark e \<Longrightarrow> all_dark (snd (oled_send_data (recorder rets) b sp (ob + i * OLED_WIDTH) OLED_WIDTH e))"
    "blank ob (snd (oled_send_data (recorder rets) b sp (ob + i * OLED_WIDTH) OLED_WIDTH e))"
proof -
  obtain m log where e: "e = (m, log)" by (cases e)
  have lim: "i * 128 + 128 \<le> 1024" using assms(2) by simp
  define m1 where "m1 = blit (m(sp := OLED_CTRL_DATA)) (sp + 1) (ob + i * 128) 128"
  have cp: "rt_memcpy (m(sp := OLED_CTRL_DATA)) (sp + 1) (ob + i * 128) 128 = (sp + 1, m1)"
    unfolding m1_def using sep lim by (intro rt_memcpy_blit) auto
  have z: "m a = 0" if "ob \<le> a" "a < ob + 1024" for a using assms(3) that by (simp add: blank_def e)
  have zero: "m1 (sp + k) = 0" if "0 < k" "k < 129" for k
    using that lim z [of "ob + i * 128 + (k - 1)"] sep by (auto simp: m1_def blit_def)
  have "bytes_at m1 sp (Suc 128) = m1 sp # bytes_at m1 (sp + 1) 128"
    by (simp add: bytes_at_def upt_conv_Cons map_Suc_upt [symmetric] del: upt_Suc)
  moreover have "set (bytes_at m1 (sp + 1) 128) \<subseteq> {0}" using zero [of "k + 1" for k] by (auto simp: bytes_at_def)
  ultimately have "dark (bytes_at m1 sp 129)" by (simp add: dark_def)
  moreover have out: "oled_send_data (recorder rets) b sp (ob + i * OLED_WIDTH) OLED_WIDTH e
      = (case b of None \<Rightarrow> (- RT_ENOSYS, e)
         | Some _ \<Rightarrow> (if rets log \<noteq> 1 then - RT_EIO else RT_EOK, m1, log @ [bytes_at m1 sp 129]))"
    unfolding e oled_send_data_def OLED_WIDTH_def prod.case cp snd_conv Let_def recorder_def by (simp split: option.split)
  ultimately show "all_dark e \<Longrightarrow> all_dark (snd (oled_send_data (recorder rets) b sp (ob + i * OLED_WIDTH) OLED_WIDTH e))"
    unfolding out by (auto simp: e all_dark_def split: option.splits)
  show "blank ob (snd (oled_send_data (recorder rets) b sp (ob + i * OLED_WIDTH) OLED_WIDTH e))"
    unfolding out using sep z by (auto simp: e blank_def m1_def blit_def split: option.splits)
qed

lemma pages_dark:
  assumes sep: "sp + 129 \<le> ob \<or> ob + 1024 \<le> sp"
  shows "i \<le> 8 \<Longrightarrow> all_dark e \<Longrightarrow> blank ob e \<Longrightarrow> all_dark (oled_pages (recorder rets) b sp ob i e) \<and> blank ob (oled_pages (recorder rets) b sp ob i e)"
proof (induction i)
  case (Suc i)
  then have "all_dark (oled_pages (recorder rets) b sp ob i e)" "blank ob (oled_pages (recorder rets) b sp ob i e)" "i < 8" by simp_all
  then show ?case using cmds_dark [OF sep] send_data_dark [OF sep] by (simp add: Let_def)
qed simp

lemma clear_dark:
  assumes sep: "sp + 129 \<le> ob \<or> ob + 1024 \<le> sp" and "all_dark e"
  shows "all_dark (snd (oled_clear (recorder rets) b sp ob e))"
proof -
  obtain m log where e: "e = (m, log)" by (cases e)
  have "blank ob (snd (rt_memset m ob 0 1024), log)" by (simp add: blank_def rt_memset_fill fill_def)
  moreover have "all_dark (snd (rt_memset m ob 0 1024), log)" using assms(2) by (simp add: e all_dark_def)
  ultimately show ?thesis using pages_dark [OF sep, of 8 "(snd (rt_memset m ob 0 1024), log)" rets b] assms(2)
    by (simp add: e oled_clear_def OLED_WIDTH_def OLED_HEIGHT_def)
qed

lemma do_dark:
  assumes sep: "sp + 129 \<le> ob \<or> ob + 1024 \<le> sp" and "oled_do (recorder rets) (\<lambda>_ log. log) sp ob name obs c (b, e) = Some (b1, e1)" "all_dark e"
  shows "all_dark e1"
proof (cases c)
  case Init
  obtain m log where e: "e = (m, log)" by (cases e)
  show ?thesis using assms(2,3) clear_dark [OF sep cmds_dark(1) [OF sep assms(3)]] Init
    by (auto simp: e oled_init_def split: if_splits) metis
next
  case (Pixel x y p)
  then show ?thesis using assms(2,3) by (cases e) (auto simp: all_dark_def)
next
  case (Write x y t)
  then show ?thesis using assms(2,3) cmds_dark(1) [OF sep] by (cases e) (auto simp: oled_write_string_def)
qed (use assms(2,3) clear_dark [OF sep assms(3)] send_cmd_dark(1) [OF sep assms(3)] in
  \<open>auto simp: oled_display_on_def oled_display_off_def split: if_splits\<close>)

text \<open>C29. No pixel ever reaches the display. Whatever is drawn, and whatever calls of the driver follow, every data byte
that it sends to the display is zero: only oled_clear sends the buffer, and it clears the buffer first.\<close>

theorem oled_sends_no_pixel:
  assumes "sp + 129 \<le> ob \<or> ob + 1024 \<le> sp"
    and "oled_run (recorder rets) (\<lambda>_ log. log) sp ob name obs calls (bus, m, []) = Some (bus1, m1, log1)"
  shows "d \<in> set log1 \<Longrightarrow> hd d = OLED_CTRL_DATA \<Longrightarrow> set (tl d) \<subseteq> {0}"
proof -
  have "oled_run (recorder rets) (\<lambda>_ log. log) sp ob name obs calls (b, e) = Some (b1, e1) \<Longrightarrow> all_dark e \<Longrightarrow> all_dark e1" for b e b1 e1
  proof (induction calls arbitrary: b e)
    case (Cons c cs)
    then obtain b2 e2 where s: "oled_do (recorder rets) (\<lambda>_ log. log) sp ob name obs c (b, e) = Some (b2, e2)"
        "oled_run (recorder rets) (\<lambda>_ log. log) sp ob name obs cs (b2, e2) = Some (b1, e1)"
      by (auto split: bind_splits)
    show ?case using Cons.IH [OF s(2)] do_dark [OF assms(1) s(1) Cons.prems(2)] by simp
  qed simp
  from this [OF assms(2)] show "d \<in> set log1 \<Longrightarrow> hd d = OLED_CTRL_DATA \<Longrightarrow> set (tl d) \<subseteq> {0}"
    by (simp add: all_dark_def dark_def)
qed

text \<open>A pixel is drawn and the display cleared, switched on and off: the pages sent are zeros.\<close>

theorem oled_sends_no_pixel_witness:
  "\<exists>b m1 log. oled_run (recorder (\<lambda>_. 1)) (\<lambda>_ log. log) 2000 0 1 demo_objects [Pixel 3 4 1, On, Clear, Off] (Some 7, \<lambda>_. 0xFF, []) = Some (b, m1, log)
    \<and> log \<noteq> [] \<and> (\<forall>d\<in>set log. hd d = OLED_CTRL_DATA \<longrightarrow> set (tl d) \<subseteq> {0})"
proof -
  obtain b m1 log where r: "oled_run (recorder (\<lambda>_. 1)) (\<lambda>_ log. log) 2000 0 1 demo_objects [Pixel 3 4 1, On, Clear, Off] (Some 7, \<lambda>_. 0xFF, []) = Some (b, m1, log)"
    by (simp only: oled_run.simps oled_do.simps bind.simps) (metis prod.exhaust)
  moreover have "log \<noteq> []" using r
    by (auto simp: oled_display_off_def oled_send_cmd_def recorder_def split_beta Let_def)
  ultimately show ?thesis using oled_sends_no_pixel [OF _ r] by auto
qed

end
