(* ===== verification/Key.thy ===== *)
theory Key
  imports Prelude
begin

text \<open>
  The key driver of the board (bsp/drivers/drv_key.c). \<open>pin t p\<close> is the level of pin \<open>p\<close> at time \<open>t\<close>, low when the key
  is pressed, and \<open>wait\<close> what rt_thread_mdelay does to the time. The callback is an address; its calls are the list
  of the codes it was called with. The set-up of the pins is calls of the chip library.
\<close>

definition KEY_UP_PIN :: nat where [rt_const]: "KEY_UP_PIN = 12"
definition KEY_DOWN_PIN :: nat where [rt_const]: "KEY_DOWN_PIN = 13"
definition KEY_LEFT_PIN :: nat where [rt_const]: "KEY_LEFT_PIN = 20"
definition KEY_RIGHT_PIN :: nat where [rt_const]: "KEY_RIGHT_PIN = 19"
definition KEY_CODE_UP :: u8 where [rt_const]: "KEY_CODE_UP = 1"
definition KEY_CODE_DOWN :: u8 where [rt_const]: "KEY_CODE_DOWN = 2"
definition KEY_CODE_LEFT :: u8 where [rt_const]: "KEY_CODE_LEFT = 3"
definition KEY_CODE_RIGHT :: u8 where [rt_const]: "KEY_CODE_RIGHT = 4"
definition KEY_DEBOUNCE_MS :: int where [rt_const]: "KEY_DEBOUNCE_MS = 20"

definition key_check :: "('t \<Rightarrow> nat \<Rightarrow> bool) \<Rightarrow> (int \<Rightarrow> 't \<Rightarrow> 't) \<Rightarrow> nat \<Rightarrow> u8 \<Rightarrow> u8 \<times> 't \<Rightarrow> u8 \<times> 't" where
  "key_check pin wait p code = (\<lambda>(key_code, t).
     (if \<not> pin t p then let t1 = wait KEY_DEBOUNCE_MS t in (if \<not> pin t1 p then code else key_code, t1)
      else (key_code, t)))"

definition key_read :: "('t \<Rightarrow> nat \<Rightarrow> bool) \<Rightarrow> (int \<Rightarrow> 't \<Rightarrow> 't) \<Rightarrow> 't \<Rightarrow> u8 \<times> 't" where
  "key_read pin wait t =
     key_check pin wait KEY_RIGHT_PIN KEY_CODE_RIGHT (key_check pin wait KEY_LEFT_PIN KEY_CODE_LEFT
       (key_check pin wait KEY_DOWN_PIN KEY_CODE_DOWN (key_check pin wait KEY_UP_PIN KEY_CODE_UP (0, t))))"

definition key_register_callback :: "nat option \<Rightarrow> nat option \<Rightarrow> rt_err_t \<times> nat option" where
  "key_register_callback callback key_callback = (if callback = None then (- RT_EINVAL, key_callback) else (RT_EOK, callback))"

text \<open>One round of the endless loop of the thread.\<close>

definition key_thread_round :: "('t \<Rightarrow> nat \<Rightarrow> bool) \<Rightarrow> (int \<Rightarrow> 't \<Rightarrow> 't) \<Rightarrow> nat option \<Rightarrow> (nat \<times> u8) list \<times> 't \<Rightarrow> (nat \<times> u8) list \<times> 't" where
  "key_thread_round pin wait key_callback = (\<lambda>(calls, t).
     (let (key_code, t1) = key_read pin wait t
      in (calls @ (case key_callback of Some f \<Rightarrow> if key_code \<noteq> 0 then [(f, key_code)] else [] | None \<Rightarrow> []), wait 50 t1)))"

section \<open>What is reported\<close>

definition key_pin :: "u8 \<Rightarrow> nat" where
  "key_pin code = (if code = 1 then 12 else if code = 2 then 13 else if code = 3 then 20 else 19)"

lemma key_check_debounces:
  assumes "key_check pin wait p code (c, t) = (c1, t1)"
  shows "c1 = c \<or> c1 = code \<and> (\<exists>t0. \<not> pin t0 p \<and> \<not> pin (wait 20 t0) p)"
  using assms by (auto simp: key_check_def KEY_DEBOUNCE_MS_def Let_def split: if_splits)

text \<open>A code is reported only if its key was pressed at two readings with a wait of 20 milliseconds between them.\<close>

lemma key_read_debounces:
  assumes "key_read pin wait t = (c, t1)" "c \<noteq> 0"
  shows "\<exists>t0. \<not> pin t0 (key_pin c) \<and> \<not> pin (wait 20 t0) (key_pin c)"
proof -
  obtain c2 t2 where 1: "key_check pin wait 12 1 (0, t) = (c2, t2)" by fastforce
  obtain c3 t3 where 2: "key_check pin wait 13 2 (c2, t2) = (c3, t3)" by fastforce
  obtain c4 t4 where 3: "key_check pin wait 20 3 (c3, t3) = (c4, t4)" by fastforce
  have 4: "key_check pin wait 19 4 (c4, t4) = (c, t1)" using assms(1) by (simp add: key_read_def rt_const 1 2 3)
  from key_check_debounces [OF 1] key_check_debounces [OF 2] key_check_debounces [OF 3] key_check_debounces [OF 4] assms(2)
  show ?thesis by (auto simp: key_pin_def)
qed

text \<open>Of several keys that are held down, only the last one checked is reported.\<close>

lemma key_read_held:
  assumes "\<And>t. pin t = held"
  shows "fst (key_read pin wait t)
    = (if \<not> held 19 then 4 else if \<not> held 20 then 3 else if \<not> held 13 then 2 else if \<not> held 12 then 1 else 0)"
  using assms by (simp add: key_read_def key_check_def rt_const Let_def)

text \<open>The key thread calls the callback once in each round in which a key passes the debouncing, with the code of a
key that was down at both readings, and in no other round.\<close>

lemma key_round_reports:
  assumes "key_thread_round pin wait (Some f) (calls, t) = (calls1, t1)"
  shows "calls1 = calls \<and> fst (key_read pin wait t) = 0
    \<or> (\<exists>c t0. calls1 = calls @ [(f, c)] \<and> c \<noteq> 0 \<and> \<not> pin t0 (key_pin c) \<and> \<not> pin (wait 20 t0) (key_pin c))"
proof -
  obtain c t2 where r: "key_read pin wait t = (c, t2)" by fastforce
  show ?thesis
  proof (cases "c = 0")
    case False
    from key_read_debounces [OF r this] show ?thesis using assms False by (auto simp: key_thread_round_def r)
  qed (use assms in \<open>simp add: key_thread_round_def r\<close>)
qed

end
