(* ===== verification/Pwm.thy ===== *)
theory Pwm
  imports Prelude
begin

text \<open>
  The PWM driver of the board (bsp/drivers/drv_pwm.c) and the functions of the chip library it calls for the rate
  (bsp/Libraries/peri_driver/sctimer). The registers of the timer SCT that they set are a record. \<open>clk\<close> is the
  rate of the system clock and \<open>reset\<close> the effect of the reset of the timer. Chip_SCTPWM_SetPulse, which the driver
  calls, is defined nowhere: it is the parameter \<open>set_pulse\<close>. Messages to the console are left out.
\<close>

record sct =
  CTRL_U :: u32
  CONFIG :: u32
  REGMODE_U :: u32
  MATCH0 :: u32
  MATCHREL :: "nat \<Rightarrow> u32"
  EV0_CTRL :: u32
  EV0_STATE :: u32

definition SCT_CTRL_RESERVED :: u32 where [rt_const]: "SCT_CTRL_RESERVED = 0xE000E000"
definition SCT_CTRL_HALT :: u32 where [rt_const]: "SCT_CTRL_HALT = 0x00040004"
definition SCT_CTRL_CLRCTR :: u32 where [rt_const]: "SCT_CTRL_CLRCTR = 0x00080008"
definition SCT_CONFIG_32BIT_COUNTER :: u32 where [rt_const]: "SCT_CONFIG_32BIT_COUNTER = 1"
definition SCT_CONFIG_AUTOLIMIT_L :: u32 where [rt_const]: "SCT_CONFIG_AUTOLIMIT_L = 0x20000"

section \<open>The chip library\<close>

definition Chip_SCT_SetControl :: "u32 \<Rightarrow> sct \<Rightarrow> sct" where
  "Chip_SCT_SetControl v p = p\<lparr>CTRL_U := v OR (CTRL_U p AND NOT SCT_CTRL_RESERVED)\<rparr>"

definition Chip_SCT_ClearControl :: "u32 \<Rightarrow> sct \<Rightarrow> sct" where
  "Chip_SCT_ClearControl v p = p\<lparr>CTRL_U := CTRL_U p AND NOT (v OR SCT_CTRL_RESERVED)\<rparr>"

definition Chip_SCTPWM_Start :: "sct \<Rightarrow> sct" where
  "Chip_SCTPWM_Start p = Chip_SCT_ClearControl SCT_CTRL_HALT p"

definition Chip_SCTPWM_Stop :: "sct \<Rightarrow> sct" where
  "Chip_SCTPWM_Stop p = Chip_SCT_SetControl SCT_CTRL_CLRCTR (Chip_SCT_SetControl SCT_CTRL_HALT p)"

definition Chip_SCTPWM_SetRate :: "u32 \<Rightarrow> u32 \<Rightarrow> sct \<Rightarrow> sct" where
  "Chip_SCTPWM_SetRate clk freq p =
     (let rate = clk div freq; p1 = Chip_SCTPWM_Stop p
      in p1\<lparr>REGMODE_U := 0, MATCH0 := 0, MATCHREL := (MATCHREL p1)(0 := rate), EV0_CTRL := push_bit 12 1, EV0_STATE := 1,
            CONFIG := SCT_CONFIG_32BIT_COUNTER OR SCT_CONFIG_AUTOLIMIT_L\<rparr>)"

definition Chip_SCTPWM_GetTicksPerCycle :: "sct \<Rightarrow> u32" where
  "Chip_SCTPWM_GetTicksPerCycle p = MATCHREL p 0"

definition Chip_SCTPWM_PercentageToTicks :: "sct \<Rightarrow> u8 \<Rightarrow> u32" where
  "Chip_SCTPWM_PercentageToTicks p percent = (Chip_SCTPWM_GetTicksPerCycle p * ucast percent) div 100"

section \<open>The driver\<close>

record pwm_device =
  pwm_name :: nat
  frequency :: u32
  channel :: u8
  duty_cycle :: u8

text \<open>The pins are those the outputs of the timer are assigned to; devices are addressed by their index.\<close>

record pwm_sys =
  SCT :: sct
  out_pin :: "nat \<Rightarrow> nat option"
  pwm_devices :: "nat \<Rightarrow> pwm_device"
  pwm_initialized :: bool

definition PWM_MIN_FREQUENCY :: u32 where [rt_const]: "PWM_MIN_FREQUENCY = 1"
definition PWM_MAX_FREQUENCY :: u32 where [rt_const]: "PWM_MAX_FREQUENCY = 10000"

definition pwm_sct_init :: "(sct \<Rightarrow> sct) \<Rightarrow> u32 \<Rightarrow> u32 \<Rightarrow> pwm_sys \<Rightarrow> rt_err_t \<times> pwm_sys" where
  "pwm_sct_init reset clk freq s =
     (if freq < PWM_MIN_FREQUENCY \<or> freq > PWM_MAX_FREQUENCY then (- RT_EINVAL, s)
      else let sct_tick = clk div freq in (RT_EOK, s\<lparr>SCT := Chip_SCTPWM_SetRate clk sct_tick (reset (SCT s))\<rparr>))"

definition pwm_pin_init :: "u8 \<Rightarrow> pwm_sys \<Rightarrow> rt_err_t \<times> pwm_sys" where
  "pwm_pin_init ch s =
     (let pin_num = (if ch = 0 then Some 13 else if ch = 1 then Some 14 else if ch = 2 then Some 1
                     else if ch = 3 then Some 2 else if ch = 4 then Some 3 else if ch = 5 then Some 4 else None)
      in case pin_num of None \<Rightarrow> (- RT_EINVAL, s)
         | Some p \<Rightarrow> (RT_EOK, s\<lparr>out_pin := (out_pin s)(unat ch := Some p)\<rparr>))"

definition pwm_set_duty_cycle :: "(nat \<Rightarrow> u32 \<Rightarrow> sct \<Rightarrow> sct) \<Rightarrow> nat option \<Rightarrow> u8 \<Rightarrow> pwm_sys \<Rightarrow> rt_err_t \<times> pwm_sys" where
  "pwm_set_duty_cycle set_pulse dev duty s =
     (case dev of None \<Rightarrow> (- RT_EINVAL, s)
      | Some d \<Rightarrow>
          if duty > 100 then (- RT_EINVAL, s)
          else
            let s1 = s\<lparr>pwm_devices := (pwm_devices s)(d := (pwm_devices s d)\<lparr>duty_cycle := duty\<rparr>)\<rparr>;
                pulse_width = Chip_SCTPWM_PercentageToTicks (SCT s1) duty
            in (RT_EOK, s1\<lparr>SCT := set_pulse (unat (channel (pwm_devices s1 d)) + 1) pulse_width (SCT s1)\<rparr>))"

definition pwm_set_frequency :: "(nat \<Rightarrow> u32 \<Rightarrow> sct \<Rightarrow> sct) \<Rightarrow> u32 \<Rightarrow> nat option \<Rightarrow> u32 \<Rightarrow> pwm_sys \<Rightarrow> rt_err_t \<times> pwm_sys" where
  "pwm_set_frequency set_pulse clk dev freq s =
     (case dev of None \<Rightarrow> (- RT_EINVAL, s)
      | Some d \<Rightarrow>
          if freq < PWM_MIN_FREQUENCY \<or> freq > PWM_MAX_FREQUENCY then (- RT_EINVAL, s)
          else
            let s1 = s\<lparr>pwm_devices := (pwm_devices s)(d := (pwm_devices s d)\<lparr>frequency := freq\<rparr>)\<rparr>;
                sct_tick = clk div freq;
                s2 = s1\<lparr>SCT := Chip_SCTPWM_SetRate clk sct_tick (SCT s1)\<rparr>
            in pwm_set_duty_cycle set_pulse dev (duty_cycle (pwm_devices s2 d)) s2)"

definition pwm_enable :: "nat option \<Rightarrow> pwm_sys \<Rightarrow> rt_err_t \<times> pwm_sys" where
  "pwm_enable dev s =
     (case dev of None \<Rightarrow> (- RT_EINVAL, s)
      | Some d \<Rightarrow> if channel (pwm_devices s d) \<ge> 6 then (- RT_EINVAL, s) else (RT_EOK, s\<lparr>SCT := Chip_SCTPWM_Start (SCT s)\<rparr>))"

definition pwm_disable :: "nat option \<Rightarrow> pwm_sys \<Rightarrow> rt_err_t \<times> pwm_sys" where
  "pwm_disable dev s =
     (case dev of None \<Rightarrow> (- RT_EINVAL, s)
      | Some d \<Rightarrow> if channel (pwm_devices s d) \<ge> 6 then (- RT_EINVAL, s) else (RT_EOK, s\<lparr>SCT := Chip_SCTPWM_Stop (SCT s)\<rparr>))"

definition pwm_get_frequency :: "nat option \<Rightarrow> pwm_sys \<Rightarrow> u32" where
  "pwm_get_frequency dev s = (case dev of None \<Rightarrow> 0 | Some d \<Rightarrow> frequency (pwm_devices s d))"

definition pwm_get_duty_cycle :: "nat option \<Rightarrow> pwm_sys \<Rightarrow> u8" where
  "pwm_get_duty_cycle dev s = (case dev of None \<Rightarrow> 0 | Some d \<Rightarrow> duty_cycle (pwm_devices s d))"

definition rt_hw_pwm_init :: "(nat \<Rightarrow> u32 \<Rightarrow> sct \<Rightarrow> sct) \<Rightarrow> (sct \<Rightarrow> sct) \<Rightarrow> u32 \<Rightarrow> nat option \<Rightarrow> u8 \<Rightarrow> u32 \<Rightarrow> u8 \<Rightarrow> pwm_sys
    \<Rightarrow> rt_err_t \<times> pwm_sys" where
  "rt_hw_pwm_init set_pulse reset clk name ch freq duty s =
     (case name of None \<Rightarrow> (- RT_EINVAL, s)
      | Some nm \<Rightarrow>
          if ch \<ge> 6 \<or> freq < PWM_MIN_FREQUENCY \<or> freq > PWM_MAX_FREQUENCY \<or> duty > 100 then (- RT_EINVAL, s)
          else
            let (r0, s0) = (if pwm_initialized s then (RT_EOK, s) else pwm_sct_init reset clk freq s)
            in if r0 \<noteq> RT_EOK then (r0, s0)
               else
                 let (r1, s1) = pwm_pin_init ch (s0\<lparr>pwm_initialized := True\<rparr>)
                 in if r1 \<noteq> RT_EOK then (r1, s1)
                    else
                      let s2 = s1\<lparr>pwm_devices := (pwm_devices s1)(unat ch :=
                                 \<lparr>pwm_name = nm, frequency = freq, channel = ch, duty_cycle = duty\<rparr>)\<rparr>;
                          (r3, s3) = pwm_set_duty_cycle set_pulse (Some (unat ch)) duty s2
                      in if r3 \<noteq> RT_EOK then (r3, s3) else pwm_enable (Some (unat ch)) s3)"

section \<open>The period of the outputs\<close>

text \<open>What is asked of the missing function: a pulse changes the match register of its index and no other register.\<close>

definition sets_pulse :: "(nat \<Rightarrow> u32 \<Rightarrow> sct \<Rightarrow> sct) \<Rightarrow> bool" where
  "sets_pulse f \<longleftrightarrow> (\<forall>i t p. f i t p = p\<lparr>MATCHREL := (MATCHREL p)(i := t)\<rparr>)"

definition sct_halted :: "sct \<Rightarrow> bool" where "sct_halted p \<longleftrightarrow> CTRL_U p AND SCT_CTRL_HALT = SCT_CTRL_HALT"

lemma stop_halts: "sct_halted (Chip_SCTPWM_Stop p)"
proof -
  define c where "c = CTRL_U p"
  have "CTRL_U (Chip_SCTPWM_Stop p) = 0x00080008 OR ((0x00040004 OR (c AND NOT 0xE000E000)) AND NOT 0xE000E000)"
    by (simp add: Chip_SCTPWM_Stop_def Chip_SCT_SetControl_def rt_const c_def)
  moreover have d: "\<not> (bit (0x00040004 :: u32) n \<and> bit (0xE000E000 :: u32) n)" for n
    using bit_and_iff [of "0x00040004 :: u32" "0xE000E000" n] by simp
  have "(0x00080008 OR ((0x00040004 OR (c AND NOT 0xE000E000)) AND NOT 0xE000E000)) AND 0x00040004 = (0x00040004 :: u32)"
    using d by (intro bit_word_eqI) (auto simp: bit_simps)
  ultimately show ?thesis by (simp add: sct_halted_def SCT_CTRL_HALT_def)
qed

lemma pwm_frequency_steps:
  assumes "sets_pulse set_pulse" "freq \<noteq> 0" "freq \<le> 10000" "duty_cycle (pwm_devices s d) \<le> 100"
  shows "\<exists>s1. pwm_set_frequency set_pulse clk (Some d) freq s = (RT_EOK, s1) \<and> sct_halted (SCT s1)
    \<and> MATCHREL (SCT s1) 0 = clk div (clk div freq) \<and> pwm_get_frequency (Some d) s1 = freq
    \<and> MATCHREL (SCT s1) (unat (channel (pwm_devices s d)) + 1)
      = (clk div (clk div freq) * ucast (duty_cycle (pwm_devices s d))) div 100"
  using assms stop_halts [of "SCT s"]
  by (simp add: pwm_set_frequency_def pwm_set_duty_cycle_def sets_pulse_def Let_def Chip_SCTPWM_SetRate_def not_less
      Chip_SCTPWM_PercentageToTicks_def Chip_SCTPWM_GetTicksPerCycle_def pwm_get_frequency_def sct_halted_def rt_const)


text \<open>At 30 MHz a frequency of 1 kHz is set: the period is 1000 ticks instead of 30000, and the timer stands still.\<close>

definition demo_pwm :: pwm_sys where
  "demo_pwm = \<lparr>SCT = \<lparr>CTRL_U = 0, CONFIG = 0, REGMODE_U = 0, MATCH0 = 0, MATCHREL = \<lambda>_. 0, EV0_CTRL = 0, EV0_STATE = 0\<rparr>,
     out_pin = \<lambda>_. None, pwm_devices = \<lambda>_. \<lparr>pwm_name = 1, frequency = 500, channel = 2, duty_cycle = 25\<rparr>, pwm_initialized = True\<rparr>"


text \<open>The timer has one period: opening a second channel with another frequency leaves the period as it was, while the
  driver reports the new one.\<close>

lemma pwm_second_channel:
  assumes "sets_pulse set_pulse" "pwm_initialized s" "ch < 6" "freq \<noteq> 0" "freq \<le> 10000" "duty \<le> 100"
  shows "\<exists>s1. rt_hw_pwm_init set_pulse reset clk (Some nm) ch freq duty s = (RT_EOK, s1)
    \<and> MATCHREL (SCT s1) 0 = MATCHREL (SCT s) 0 \<and> pwm_get_frequency (Some (unat ch)) s1 = freq"
proof -
  have "ch = 0 \<or> ch = 1 \<or> ch = 2 \<or> ch = 3 \<or> ch = 4 \<or> ch = 5"
  proof -
    have "unat ch < 6" using assms(3) by (simp add: word_less_nat_alt)
    then have "unat ch = 0 \<or> unat ch = 1 \<or> unat ch = 2 \<or> unat ch = 3 \<or> unat ch = 4 \<or> unat ch = 5" by auto
    then show ?thesis by (auto simp: word_unat_eq_iff)
  qed
  then have "\<exists>p. pwm_pin_init ch (s\<lparr>pwm_initialized := True\<rparr>) = (RT_EOK, s\<lparr>pwm_initialized := True, out_pin := (out_pin s)(unat ch := Some p)\<rparr>)"
    by (auto simp: pwm_pin_init_def)
  then show ?thesis using assms
    by (auto simp: rt_hw_pwm_init_def not_less not_le pwm_set_duty_cycle_def pwm_enable_def sets_pulse_def Chip_SCTPWM_Start_def
        Chip_SCT_ClearControl_def pwm_get_frequency_def rt_const Let_def)
qed

end
