(* ===== verification/KernelSteps.thy ===== *)
theory KernelSteps
  imports ThreadEnd
begin

text \<open>
  The kernel as a transition system: a step is one call of the running thread, the end of a call it had
  waited in, or the tick interrupt. Every reachable state satisfies the invariant of scheduler and timers.
\<close>

section \<open>The invariant\<close>

definition flag_ok :: "u8 \<Rightarrow> bool" where
  "flag_ok f \<longleftrightarrow> f = RT_IPC_FLAG_FIFO \<or> f = RT_IPC_FLAG_PRIO"

definition kernel_inv :: "kernel \<Rightarrow> bool" where
  "kernel_inv k \<longleftrightarrow> kernel_ok k \<and> (\<forall>t. init_priority (threads k t) < RT_THREAD_PRIORITY_MAX)
     \<and> (\<forall>s. flag_ok (sem_flag (sems k s))) \<and> (\<forall>e. flag_ok (event_flag (events k e)))"

definition same_fixed :: "kernel \<Rightarrow> kernel \<Rightarrow> bool" where
  "same_fixed k k' \<longleftrightarrow> (\<forall>t. init_priority (threads k' t) = init_priority (threads k t))
     \<and> (\<forall>s. sem_flag (sems k' s) = sem_flag (sems k s)) \<and> (\<forall>e. event_flag (events k' e) = event_flag (events k e))"

lemma same_fixed_refl [simp]: "same_fixed k k" by (simp add: same_fixed_def)

lemma same_fixed_trans: "same_fixed k k1 \<Longrightarrow> same_fixed k1 k2 \<Longrightarrow> same_fixed k k2"
  by (simp add: same_fixed_def)

lemma kernel_inv_step: "kernel_inv k \<Longrightarrow> kernel_ok k' \<Longrightarrow> same_fixed k k' \<Longrightarrow> kernel_inv k'"
  by (simp add: kernel_inv_def same_fixed_def)

lemma kernel_invD:
  "kernel_inv k \<Longrightarrow> kernel_ok k" "kernel_inv k \<Longrightarrow> prios_ok k" "kernel_inv k \<Longrightarrow> base_ok k"
  by (simp_all add: kernel_inv_def prios_ok_def kernel_ok_base)

text \<open>The parts of the operations change none of the fixed fields.\<close>

lemma same_fixed_upd [simp]:
  "same_fixed k (upd_thread t (\<lambda>r. r\<lparr>error := e\<rparr>) k')  = same_fixed k k'"
  "same_fixed k (upd_thread t (\<lambda>r. r\<lparr>pending_object := o'\<rparr>) k')  = same_fixed k k'"
  "same_fixed k (upd_thread t (\<lambda>r. r\<lparr>stat := f r\<rparr>) k')  = same_fixed k k'"
  "same_fixed k (upd_thread t (\<lambda>r. r\<lparr>remaining_tick := g r\<rparr>) k')  = same_fixed k k'"
  "same_fixed k (upd_thread t (\<lambda>r. r\<lparr>event_set := v\<rparr>) k')  = same_fixed k k'"
  "same_fixed k (upd_thread t (\<lambda>r. r\<lparr>event_set := v, event_info := i\<rparr>) k')  = same_fixed k k'"
  "same_fixed k (upd_thread t (\<lambda>r. r\<lparr>error := e, event_set := v, event_info := i\<rparr>) k')  = same_fixed k k'"
  "same_fixed k (upd_thread t (\<lambda>r. r\<lparr>number_mask := w r\<rparr>) k')  = same_fixed k k'"
  "same_fixed k (upd_thread t (\<lambda>r. r\<lparr>remaining_tick := g r, stat := f r\<rparr>) k')  = same_fixed k k'"
  "same_fixed k (upd_timer j h k') = same_fixed k k'" "same_fixed k (upd_mutex m x k') = same_fixed k k'"
  "same_fixed k (tlist_remove t k') = same_fixed k k'" "same_fixed k (rt_schedule k') = same_fixed k k'"
  "same_fixed k (rt_schedule_insert_thread t k') = same_fixed k k'"
  "same_fixed k (rt_schedule_remove_thread t k') = same_fixed k k'"
  "same_fixed k (snd (rt_timer_stop j k')) = same_fixed k k'" "same_fixed k (snd (rt_timer_start j k')) = same_fixed k k'"
  "same_fixed k (snd (rt_timer_detach j k')) = same_fixed k k'"
  "same_fixed k (timer_remove j k') = same_fixed k k'" "same_fixed k (mutex_update_priority m k') = same_fixed k k'"
  "same_fixed k (taken_insert t m k') = same_fixed k k'" "same_fixed k (taken_remove m k') = same_fixed k k'"
  "same_fixed k (change_priority t p k') = same_fixed k k'" "same_fixed k (k'\<lparr>rt_tick := n\<rparr>) = same_fixed k k'"
  "same_fixed k (k'\<lparr>lock_nest := z\<rparr>) = same_fixed k k'" "same_fixed k (k'\<lparr>expiring := xs\<rparr>) = same_fixed k k'"
  "same_fixed k (k'\<lparr>interrupt_nest := q\<rparr>) = same_fixed k k'"
  "same_fixed k (rt_thread_defunct_enqueue t k') = same_fixed k k'"
  "same_fixed k (tlist_insert_prio l t k') = same_fixed k k'" "same_fixed k (tlist_insert_before l t k') = same_fixed k k'"
  by (auto simp: same_fixed_def taken_insert_def tlist_insert_prio_def tlist_insert_before_def mutex_update_priority_def
      rt_timer_detach_def rt_thread_defunct_enqueue_def tlist_insert_after_def change_priority_def Let_def)

lemma same_fixed_upd_kernel [simp]:
  "same_fixed k (upd_sem s f k') = same_fixed k k'" if "\<And>r. sem_flag (f r) = sem_flag r"
  using that by (auto simp: same_fixed_def)

lemma same_fixed_upd_event [simp]:
  "same_fixed k (upd_event e f k') = same_fixed k k'" if "\<And>r. event_flag (f r) = event_flag r"
  using that by (auto simp: same_fixed_def)

lemma same_fixed_ops [simp]:
  "same_fixed k (snd (rt_thread_suspend_with_flag t sf k')) = same_fixed k k'"
  "same_fixed k (snd (rt_thread_resume t k')) = same_fixed k k'"
  "same_fixed k (arm_timer t n k') = same_fixed k k'"
  "same_fixed k (thread_timeout t k') = same_fixed k k'"
  "same_fixed k (snd (rt_thread_yield k')) = same_fixed k k'"
  "same_fixed k (snd (rt_thread_startup t k')) = same_fixed k k'"
  by (simp_all add: rt_thread_suspend_with_flag_def rt_thread_resume_def arm_timer_def thread_timeout_def Let_def
      split_beta rt_timer_control_def rt_thread_set_suspend_state_def rt_thread_yield_def rt_thread_startup_def)

lemma same_fixed_suspend [simp]:
  "same_fixed k (snd (ipc_list_suspend l t fl sf k')) = same_fixed k k'"
  by (simp add: ipc_list_suspend_def split_beta Let_def)

lemma same_fixed_sleep [simp]:
  "same_fixed k (snd (rt_thread_sleep n k')) = same_fixed k k'"
  by (simp add: rt_thread_sleep_def split_beta Let_def)

lemma same_fixed_event_wake [simp]: "same_fixed k (event_wake e t k') = same_fixed k k'"
  by (simp add: event_wake_def Let_def)

lemma same_fixed_event_scan [simp]: "same_fixed k (snd (snd (event_scan ts e need k'))) = same_fixed k k'"
  by (induction ts arbitrary: need k') (simp_all add: Let_def)

lemma same_fixed_resume_all:
  assumes "ipc_list_resume_all l k = Some k'"
  shows "same_fixed k k'"
proof (rule ipc_list_resume_all.raw_induct [OF _ assms])
  fix f :: "lid \<Rightarrow> kernel \<Rightarrow> kernel option" and l k k'
  let ?k1 = "\<lambda>t. snd (rt_thread_resume t (upd_thread t (\<lambda>r. r\<lparr>error := - RT_ERROR\<rparr>) k))"
  assume IH: "\<And>l k k'. f l k = Some k' \<Longrightarrow> same_fixed k k'"
  assume "(case klist k l of [] \<Rightarrow> Some k
      | t # _ \<Rightarrow> let k1 = upd_thread t (\<lambda>r. r\<lparr>error := - RT_ERROR\<rparr>) k in f l (snd (rt_thread_resume t k1))) = Some k'"
  then have "k' = k \<or> (\<exists>t. f l (?k1 t) = Some k')" by (auto simp: Let_def split: list.splits)
  then show "same_fixed k k'"
  proof
    assume "\<exists>t. f l (?k1 t) = Some k'"
    then obtain t where "same_fixed (?k1 t) k'" using IH by blast
    then show ?thesis by (rule same_fixed_trans [rotated]) simp
  qed simp
qed

lemma same_fixed_update_priority:
  assumes "thread_update_priority t p sf k = Some k'"
  shows "same_fixed k k'"
proof (rule thread_update_priority.raw_induct [OF _ assms])
  fix f :: "nat \<Rightarrow> nat \<Rightarrow> suspend_flag \<Rightarrow> kernel \<Rightarrow> kernel option" and t p sf k k'
  assume IH: "\<And>t p sf k k'. f t p sf k = Some k' \<Longrightarrow> same_fixed k k'"
  let ?k4 = "\<lambda>m. mutex_update_priority m (snd (ipc_list_suspend (LMutex m) t RT_IPC_FLAG_PRIO sf (tlist_remove t (change_priority t p k))))"
  assume "(let k1 = change_priority t p k
      in if is_suspended k1 t then
           (case pending_object (threads k1 t) of
              None \<Rightarrow> Some k1
            | Some m \<Rightarrow>
                (let k2 = tlist_remove t k1;
                     (ret, k3) = ipc_list_suspend (LMutex m) t RT_IPC_FLAG_PRIO sf k2
                 in if ret \<noteq> RT_EOK then Some k3
                    else let k4 = mutex_update_priority m k3
                         in (case mutex_owner (mutexes k4 m) of
                               None \<Rightarrow> None
                             | Some ow \<Rightarrow>
                                 (let mp = thread_get_mutex_priority ow k4
                                  in if mp \<noteq> prio k4 ow then f ow mp sf k4
                                     else Some k4))))
         else Some k1) = Some k'"
  then have "same_fixed k k' \<or> (\<exists>m ow mp. f ow mp sf (?k4 m) = Some k')"
    by (auto simp: Let_def split_beta split: option.splits if_splits)
  then show "same_fixed k k'"
  proof
    assume "\<exists>m ow mp. f ow mp sf (?k4 m) = Some k'"
    then obtain m where "same_fixed (?k4 m) k'" using IH by blast
    then show ?thesis by (rule same_fixed_trans [rotated]) simp
  qed
qed

lemma same_fixed_waiter_gone:
  assumes "mutex_waiter_gone m t k = Some k'"
  shows "same_fixed k k'"
proof -
  have "same_fixed k k' \<or> (\<exists>ow p. thread_update_priority ow p RT_UNINTERRUPTIBLE (mutex_update_priority m k) = Some k')"
    using assms by (auto simp: mutex_waiter_gone_def Let_def split: option.splits if_splits)
  then show ?thesis using same_fixed_update_priority same_fixed_trans [of k "mutex_update_priority m k" k'] by auto
qed

section \<open>The calls keep the invariant\<close>

definition running :: "kernel \<Rightarrow> nat \<Rightarrow> bool" where
  "running k t \<longleftrightarrow> current k = Some t \<and> tstate k t = RT_THREAD_RUNNING"

lemma enter_wait:
  assumes "kernel_ok k" "running k t" "wait_list l" "flag_ok fl"
  shows "fst (ipc_list_suspend l t fl sf k) = RT_EOK" "kernel_ok (snd (ipc_list_suspend l t fl sf k))"
    "is_suspended (snd (ipc_list_suspend l t fl sf k)) t"
proof -
  have b: "base_ok k" using assms(1) by (simp add: kernel_ok_base)
  have r: "tstate k t = RT_THREAD_READY \<or> tstate k t = RT_THREAD_RUNNING" using assms(2) by (simp add: running_def)
  note s = list_suspend_ok [OF b r assms(3) assms(4) [unfolded flag_ok_def], where sf = sf]
  show "fst (ipc_list_suspend l t fl sf k) = RT_EOK" "is_suspended (snd (ipc_list_suspend l t fl sf k)) t" using s(2,3) by auto
  show "kernel_ok (snd (ipc_list_suspend l t fl sf k))" using s(1,6) assms(2) by (simp add: kernel_ok_base running_def)
qed

lemma running_upd [simp]:
  "running (upd_thread u (\<lambda>r. r\<lparr>error := e\<rparr>) k) t = running k t"
  "running (upd_thread u (\<lambda>r. r\<lparr>event_set := v, event_info := i\<rparr>) k) t = running k t"
  by (simp_all add: running_def)

lemma sem_take_inv:
  assumes k: "kernel_inv k" and t: "running k t"
  shows "kernel_inv (snd (rt_sem_take s timeout sf k))"
proof (rule kernel_inv_step [OF k])
  have ko: "kernel_ok k" and fl: "flag_ok (sem_flag (sems k s))" using k by (simp_all add: kernel_inv_def)
  have tc: "the (rt_thread_self k) = t" using t by (simp add: running_def rt_thread_self_def)
  let ?k1 = "upd_thread t (\<lambda>r. r\<lparr>error := - RT_EINTR\<rparr>) k"
  have k1: "kernel_ok ?k1" "running ?k1 t" using ko t by simp_all
  note w = enter_wait [OF k1 wait_list_simps(1) fl]
  show "kernel_ok (snd (rt_sem_take s timeout sf k))"
    using ko w block_ok(1) [OF w(2,3)] by (auto simp: rt_sem_take_def tc split_beta Let_def)
  show "same_fixed k (snd (rt_sem_take s timeout sf k))" by (simp add: rt_sem_take_def split_beta Let_def)
qed

lemma sem_release_inv:
  assumes "kernel_inv k"
  shows "kernel_inv (snd (rt_sem_release s k))"
proof (rule kernel_inv_step [OF assms])
  show "kernel_ok (snd (rt_sem_release s k))" by (rule sem_release_kernel_ok [OF kernel_invD(1) [OF assms]])
  show "same_fixed k (snd (rt_sem_release s k))"
    by (simp add: rt_sem_release_def ipc_list_resume_def Let_def split: list.split)
qed

lemma resume_all_inv:
  assumes "kernel_inv k" "wait_list l" "ipc_list_resume_all l k = Some k'"
  shows "kernel_inv k'"
proof (rule kernel_inv_step [OF assms(1)])
  show "kernel_ok k'" using resume_all_ok [OF kernel_invD(3) [OF assms(1)] assms(2)] assms(1,3)
    by (auto simp: kernel_ok_base kernel_inv_def)
  show "same_fixed k k'" by (rule same_fixed_resume_all [OF assms(3)])
qed

lemma schedule_inv: "kernel_inv k \<Longrightarrow> kernel_inv (rt_schedule k)"
  by (rule kernel_inv_step, assumption) (simp_all add: kernel_invD advances_schedule)

lemma upd_sem_inv: "kernel_inv k \<Longrightarrow> (\<And>r. sem_flag (f r) = sem_flag r) \<Longrightarrow> kernel_inv (upd_sem s f k)"
  by (rule kernel_inv_step, assumption) (simp_all add: kernel_invD)

lemma upd_event_inv: "kernel_inv k \<Longrightarrow> (\<And>r. event_flag (f r) = event_flag r) \<Longrightarrow> kernel_inv (upd_event s f k)"
  by (rule kernel_inv_step, assumption) (simp_all add: kernel_invD)

lemma sem_control_inv:
  assumes "kernel_inv k"
  shows "rt_sem_detach s k = Some (r, k') \<Longrightarrow> kernel_inv k'" "rt_sem_control s cmd k = Some (r, k') \<Longrightarrow> kernel_inv k'"
  using resume_all_inv [OF assms wait_list_simps(1) [of s]] assms
  by (auto simp: rt_sem_detach_def rt_sem_control_def split: ipc_cmd.splits option.splits
      intro!: schedule_inv upd_sem_inv)

lemma event_scan_base:
  assumes "base_ok k" "\<forall>t \<in> set ts. is_suspended k t" "distinct ts"
  shows "base_ok (snd (snd (event_scan ts e need k))) \<and> current (snd (snd (event_scan ts e need k))) = current k"
  using assms
proof (induction ts arbitrary: k need)
  case (Cons t ts)
  have step: "base_ok (snd (snd (event_scan ts e need (event_wake e t k1)))) \<and>
      current (snd (snd (event_scan ts e need (event_wake e t k1)))) = current k"
    if k1: "base_ok k1" "is_suspended k1 = is_suspended k" "current k1 = current k" for k1 need
  proof -
    have s: "is_suspended k1 t" using Cons.prems(2) k1(2) by simp
    have "is_suspended (event_wake e t k1) u" if "u \<in> set ts" for u
    proof -
      have "u \<noteq> t" using that Cons.prems(3) by auto
      then have "threads (event_wake e t k1) u = threads k1 u" using event_wake_ok(5) [OF k1(1) s] by blast
      then show ?thesis using Cons.prems(2) that k1(2) by (simp add: is_suspended_def fun_eq_iff)
    qed
    then show ?thesis using Cons.IH [of "event_wake e t k1" need] event_wake_ok(1,4) [OF k1(1) s, where e = e] k1(3) Cons.prems(3) by simp
  qed
  show ?case using step Cons by (simp add: Let_def)
qed simp

lemma event_send_inv:
  assumes k: "kernel_inv k"
  shows "kernel_inv (snd (rt_event_send e bits k))"
proof -
  let ?k1 = "upd_event e (\<lambda>r. r\<lparr>event_bits := event_bits r OR bits\<rparr>) k"
  let ?k2 = "snd (snd (event_scan (klist ?k1 (LEvent e)) e False ?k1))"
  have b: "base_ok ?k1" using kernel_invD(3) [OF k] by simp
  have s: "\<forall>t \<in> set (klist ?k1 (LEvent e)). is_suspended ?k1 t"
    using listed_suspended [OF b wait_list_simps(3)] by blast
  have d: "distinct (klist ?k1 (LEvent e))" using base_lists [OF b] by (simp add: lists_ok_def)
  have "kernel_ok ?k2" using event_scan_base [OF b s d, of e False] k by (simp add: kernel_ok_base kernel_inv_def)
  then have "kernel_inv ?k2" by (rule kernel_inv_step [OF k]) simp
  then show ?thesis using k schedule_inv by (simp add: rt_event_send_def split_beta Let_def)
qed

lemma event_recv_inv:
  assumes k: "kernel_inv k" and t: "running k t"
  shows "kernel_inv (snd (snd (rt_event_recv e want opt timeout sf k)))"
proof (rule kernel_inv_step [OF k])
  have ko: "kernel_ok k" and fl: "flag_ok (event_flag (events k e))" using k by (simp_all add: kernel_inv_def)
  have tc: "the (rt_thread_self k) = t" using t by (simp add: running_def rt_thread_self_def)
  let ?k1 = "upd_thread t (\<lambda>r. r\<lparr>event_set := want, event_info := opt\<rparr>) (upd_thread t (\<lambda>r. r\<lparr>error := - RT_EINTR\<rparr>) k)"
  have k1: "kernel_ok ?k1" "running ?k1 t" using ko t by simp_all
  note w = enter_wait [OF k1 wait_list_simps(3) [of e] fl, where sf = sf]
  note bl = block_ok(1) [OF w(2,3), where timeout = timeout and n = "word_of_int timeout"]
  show "kernel_ok (snd (snd (rt_event_recv e want opt timeout sf k)))"
    using ko w(1,2) bl by (auto simp: rt_event_recv_def tc split_beta Let_def split: if_splits)
  show "same_fixed k (snd (snd (rt_event_recv e want opt timeout sf k)))"
    by (simp add: rt_event_recv_def split_beta Let_def)
qed

lemma event_control_inv:
  assumes "kernel_inv k"
  shows "rt_event_detach s k = Some (r, k') \<Longrightarrow> kernel_inv k'" "rt_event_control s cmd k = Some (r, k') \<Longrightarrow> kernel_inv k'"
  using resume_all_inv [OF assms wait_list_simps(3) [of s]] assms
  by (auto simp: rt_event_detach_def rt_event_control_def split: ipc_cmd.splits option.splits
      intro!: schedule_inv upd_event_inv)

lemma fixed_prios: "kernel_inv k \<Longrightarrow> prio k t < RT_THREAD_PRIORITY_MAX"
  using kernel_invD(3) [of k] by (simp add: base_ok_def sched_ex_def prio_ok_def)

lemma inv_of_prios:
  assumes "kernel_inv k" "prios_ok k'" "current k' = current k" "same_fixed k k'"
  shows "kernel_inv k'"
  by (rule kernel_inv_step [OF assms(1)]) (use assms in \<open>auto simp: prios_ok_def kernel_ok_base kernel_inv_def\<close>)

lemma update_priority_inv:
  assumes k: "kernel_inv k" and e: "thread_update_priority t p sf k = Some k'" and p: "p < RT_THREAD_PRIORITY_MAX"
  shows "kernel_inv k'" "is_suspended k' = is_suspended k" "current k' = current k"
proof -
  note u = update_priority_base [OF e kernel_invD(2) [OF k] p]
  show "kernel_inv k'" using u same_fixed_update_priority [OF e] by (intro inv_of_prios [OF k]) (simp_all add: base_frame_def)
  show "is_suspended k' = is_suspended k" "current k' = current k" using u by (simp_all add: base_frame_def)
qed

lemma kernel_inv_cong: "kernel_ok k' = kernel_ok k \<Longrightarrow> same_fixed k k' \<Longrightarrow> kernel_inv k' = kernel_inv k"
  by (simp add: kernel_inv_def same_fixed_def)

lemma upd_inv [simp]:
  "kernel_inv (upd_mutex m f k) = kernel_inv k" "kernel_inv (upd_thread t (\<lambda>r. r\<lparr>error := e\<rparr>) k) = kernel_inv k"
  "kernel_inv (upd_thread t (\<lambda>r. r\<lparr>pending_object := v\<rparr>) k) = kernel_inv k"
  "kernel_inv (taken_insert t m k) = kernel_inv k" "kernel_inv (taken_remove m k) = kernel_inv k"
  "kernel_inv (mutex_update_priority m k) = kernel_inv k"
  by (rule kernel_inv_cong; simp add: kernel_ok_base; simp add: taken_insert_def)+

lemma due_bound_inv: "kernel_inv k \<Longrightarrow> thread_get_mutex_priority t k < RT_THREAD_PRIORITY_MAX"
  by (rule due_bound) (simp add: kernel_inv_def)

lemma change_inv: "kernel_inv k \<Longrightarrow> p < RT_THREAD_PRIORITY_MAX \<Longrightarrow> kernel_inv (change_priority t p k)"
  by (rule inv_of_prios [of k]) (use change_base [of k p t] in \<open>auto simp: kernel_invD base_frame_def\<close>)

lemma take_wait_unfold:
  fixes k t m ow timeout sf
  assumes "current k = Some t" "mutex_owner (mutexes k m) = Some ow" "ow \<noteq> t" "timeout \<noteq> 0"
  defines "k1 \<equiv> upd_thread t (\<lambda>r. r\<lparr>error := RT_EOK\<rparr>) k"
  defines "k3 \<equiv> upd_thread t (\<lambda>r. r\<lparr>pending_object := Some m\<rparr>) (snd (ipc_list_suspend (LMutex m) t RT_IPC_FLAG_PRIO sf k1))"
  defines "k3' \<equiv> upd_mutex m (\<lambda>r. r\<lparr>mutex_priority := prio k1 t\<rparr>) k3"
  assumes "fst (ipc_list_suspend (LMutex m) t RT_IPC_FLAG_PRIO sf k1) = RT_EOK"
  shows "rt_mutex_take m timeout sf k = map_option
      (\<lambda>k5. (Waits, rt_schedule (if timeout > 0 then arm_timer t (word_of_int timeout) k5 else k5)))
      (if prio k1 t < mutex_priority (mutexes k3 m) then
         if prio k1 t < prio k3' ow then thread_update_priority ow (prio k1 t) RT_UNINTERRUPTIBLE k3' else Some k3'
       else Some k3)"
  using assms(1-4,8) by (simp add: rt_mutex_take_def rt_thread_self_def split_beta Let_def k1_def k3_def k3'_def)

lemma mutex_take_inv:
  assumes k: "kernel_inv k" and t: "running k t" and e: "rt_mutex_take m timeout sf k = Some (r, k')"
  shows "kernel_inv k'"
proof -
  have tc: "the (rt_thread_self k) = t" using t by (simp add: running_def rt_thread_self_def)
  define k1 where "k1 = upd_thread t (\<lambda>r. r\<lparr>error := RT_EOK\<rparr>) k"
  have k1: "kernel_inv k1" "running k1 t" using k t by (simp_all add: k1_def)
  show ?thesis
  proof (cases "mutex_owner (mutexes k m)")
    case None
    define k2 where "k2 = upd_mutex m (\<lambda>r. r\<lparr>mutex_owner := Some t, mutex_priority := NO_PRIORITY, hold := 1\<rparr>) k1"
    define c where "c = ceiling_priority (mutexes k2 m)"
    have k2: "kernel_inv k2" using k1 by (simp add: k2_def)
    have ck: "ceiling_priority (mutexes k m) = c" "current_priority (threads k2 u) = current_priority (threads k u)"
      "ceiling_priority (mutexes k2 m) = c" for u by (simp_all add: c_def k2_def k1_def)
    have "map_option (\<lambda>k3. (Done RT_EOK, taken_insert t m k3))
        (if c \<noteq> NO_PRIORITY \<and> c < prio k2 t then thread_update_priority t c sf k2 else Some k2) = Some (r, k')"
      using None e [symmetric] unfolding rt_mutex_take_def tc
      by (simp add: k1_def [symmetric] k2_def [symmetric] Let_def ck)
    then obtain k3 where k3: "k' = taken_insert t m k3" "(if c \<noteq> NO_PRIORITY \<and> c < prio k2 t then thread_update_priority t c sf k2 else Some k2) = Some k3"
      by auto
    have "c < prio k2 t \<Longrightarrow> c < RT_THREAD_PRIORITY_MAX" using fixed_prios [OF k2, of t] by simp
    then have "kernel_inv k3" using k3(2) k2 update_priority_inv(1) [OF k2, of t c sf k3] by (auto split: if_splits)
    then show ?thesis by (simp add: k3(1))
  next
    case (Some ow)
    consider "ow = t \<or> timeout = 0" | "ow \<noteq> t" "timeout \<noteq> 0" by blast
    then show ?thesis
    proof cases
      case 1
      then show ?thesis using e Some k unfolding rt_mutex_take_def tc
        by (auto simp: Let_def kernel_inv_def split: if_splits)
    next
      case 2
      define k2 where "k2 = snd (ipc_list_suspend (LMutex m) t RT_IPC_FLAG_PRIO sf k1)"
      have w: "fst (ipc_list_suspend (LMutex m) t RT_IPC_FLAG_PRIO sf k1) = RT_EOK" "kernel_ok k2" "is_suspended k2 t"
        unfolding k2_def using enter_wait [OF kernel_invD(1) [OF k1(1)] k1(2) wait_list_simps(2)] by (simp_all add: flag_ok_def)
      define k3 where "k3 = upd_thread t (\<lambda>r. r\<lparr>pending_object := Some m\<rparr>) k2"
      define k3' where "k3' = upd_mutex m (\<lambda>r. r\<lparr>mutex_priority := prio k1 t\<rparr>) k3"
      have k3: "kernel_inv k3" unfolding k3_def upd_inv by (rule kernel_inv_step [OF k1(1) w(2)]) (simp add: k2_def)
      have s3: "is_suspended k3 t" using w(3) by (simp add: k3_def)
      obtain k5 where k5: "(if prio k1 t < mutex_priority (mutexes k3 m) then
            if prio k1 t < prio k3' ow then thread_update_priority ow (prio k1 t) RT_UNINTERRUPTIBLE k3' else Some k3'
          else Some k3) = Some k5"
        and k': "k' = rt_schedule (if timeout > 0 then arm_timer t (word_of_int timeout) k5 else k5)"
        using e take_wait_unfold [of k t m ow timeout sf] Some 2 w(1) t
        unfolding running_def k1_def [symmetric] k2_def [symmetric] k3_def [symmetric] k3'_def [symmetric] by auto
      have "kernel_inv k5 \<and> is_suspended k5 t"
        using k5 k3 s3 update_priority_inv [of k3' ow "prio k1 t" RT_UNINTERRUPTIBLE k5] fixed_prios [OF k1(1), of t]
        by (auto simp: k3'_def split: if_splits)
      then have "kernel_ok k'" "same_fixed k5 k'" "kernel_inv k5"
        using block_ok(1) [of k5 t] by (simp_all add: k' kernel_invD)
      then show ?thesis using kernel_inv_step by blast
    qed
  qed
qed

lemma resume_inv:
  assumes "kernel_inv k"
  shows "kernel_inv (snd (rt_thread_resume t k))"
  by (rule kernel_inv_step [OF assms]) (simp_all add: resume_kernel_ok kernel_invD [OF assms])

lemma mutex_release_inv:
  assumes k: "kernel_inv k"
  shows "kernel_inv (snd (rt_mutex_release m k))"
proof -
  let ?t = "the (rt_thread_self k)"
  let ?k1 = "upd_mutex m (\<lambda>r. r\<lparr>hold := hold r - 1\<rparr>) k"
  define k2 where "k2 = taken_remove m ?k1"
  define lower where "lower \<longleftrightarrow> ceiling_priority (mutexes k2 m) \<noteq> NO_PRIORITY \<or> prio k2 ?t = mutex_priority (mutexes k2 m)"
  define k3 where "k3 = (if lower then change_priority ?t (thread_get_mutex_priority ?t k2) k2 else k2)"
  define free where "free = upd_mutex m (\<lambda>r. r\<lparr>mutex_owner := None, mutex_priority := NO_PRIORITY\<rparr>) k3"
  define k7 where "k7 = (\<lambda>n. upd_thread n (\<lambda>r. r\<lparr>pending_object := None\<rparr>) (taken_insert n m
       (upd_mutex m (\<lambda>r. r\<lparr>mutex_owner := Some n, hold := 1\<rparr>) (tlist_remove n k3))))"
  have k2: "kernel_inv k2" using k by (simp add: k2_def)
  then have k3: "kernel_inv k3" using change_inv due_bound_inv by (simp add: k3_def)
  have next_ok: "kernel_inv (snd (rt_thread_resume n (k7 n)))" if "klist k3 (LMutex m) = n # ts" for n ts
  proof -
    have s: "is_suspended k3 n" by (rule listed_suspended [OF kernel_invD(3) [OF k3] wait_list_simps(2) [of m]]) (simp add: that)
    have "kernel_ok (tlist_remove n k3)"
      using tlist_remove_base [OF kernel_invD(3) [OF k3] s] k3 by (simp add: kernel_ok_base kernel_inv_def)
    then have "kernel_inv (tlist_remove n k3)" by (rule kernel_inv_step [OF k3]) simp
    then have "kernel_inv (k7 n)" by (simp add: k7_def)
    then show ?thesis by (rule resume_inv)
  qed
  have "snd (rt_mutex_release m k) \<in> {upd_thread ?t (\<lambda>r. r\<lparr>error := - RT_ERROR\<rparr>) k, ?k1, free, rt_schedule free}
    \<or> (\<exists>n ts. klist k3 (LMutex m) = n # ts
        \<and> snd (rt_mutex_release m k) = rt_schedule (mutex_update_priority m (snd (rt_thread_resume n (k7 n)))))"
    by (cases lower)
      (auto simp: rt_mutex_release_def Let_def k2_def [symmetric] lower_def k3_def free_def k7_def split: list.split)
  moreover have "kernel_inv free" using k3 by (simp add: free_def)
  ultimately show ?thesis using k next_ok schedule_inv by auto
qed

lemma mutex_end_inv:
  assumes k: "kernel_inv k"
  shows "mutex_waiter_gone m t k = Some k' \<Longrightarrow> kernel_inv k'"
    "rt_mutex_take_resume m t k = Some (r, k') \<Longrightarrow> kernel_inv k'"
    "rt_mutex_setprioceiling m p k = Some (q, k') \<Longrightarrow> kernel_inv k'"
    "rt_mutex_detach m k = Some (r, k') \<Longrightarrow> kernel_inv k'"
proof -
  show g: "kernel_inv k'" if "mutex_waiter_gone m t k = Some k'" for k'
    using waiter_gone_base [OF that kernel_invD(2) [OF k]] same_fixed_waiter_gone [OF that]
    by (intro inv_of_prios [OF k]) (simp_all add: base_frame_def)
  show "rt_mutex_take_resume m t k = Some (r, k') \<Longrightarrow> kernel_inv k'"
    using g k by (auto simp: rt_mutex_take_resume_def split: if_splits)
  show "rt_mutex_detach m k = Some (r, k') \<Longrightarrow> kernel_inv k'"
    using resume_all_inv [OF k wait_list_simps(2)] by (auto simp: rt_mutex_detach_def)
  let ?k1 = "upd_mutex m (\<lambda>r. r\<lparr>ceiling_priority := p\<rparr>) k"
  have k1: "kernel_inv ?k1" using k by simp
  show "rt_mutex_setprioceiling m p k = Some (q, k') \<Longrightarrow> kernel_inv k'"
    using k update_priority_inv(1) [OF k1 _ due_bound_inv [OF k1]]
    by (auto simp: rt_mutex_setprioceiling_def Let_def split: if_splits option.splits)
qed

lemma thread_call_inv:
  assumes k: "kernel_inv k"
  shows "kernel_inv (snd (rt_thread_yield k))" "kernel_inv (snd (rt_thread_sleep n k))"
    "kernel_inv (snd (rt_thread_resume t k))"
    "running k t \<Longrightarrow> kernel_inv (snd (rt_thread_suspend t k))"
    "tstate k t = RT_THREAD_INIT \<Longrightarrow> timer_set k t \<Longrightarrow> kernel_inv (snd (rt_thread_startup t k))"
    "running k t \<Longrightarrow> kernel_inv (thread_exit k)"
    "(tstate k t = RT_THREAD_INIT \<Longrightarrow> timer_set k t) \<Longrightarrow> rt_thread_detach t k = Some (r, k') \<Longrightarrow> kernel_inv k'"
proof -
  show "kernel_inv (snd (rt_thread_yield k))"
    by (rule kernel_inv_step [OF k]) (simp_all add: yield_ok kernel_invD [OF k])
  show "kernel_inv (snd (rt_thread_sleep n k))"
    by (rule kernel_inv_step [OF k]) (simp_all add: sleep_ok kernel_invD [OF k])
  show "kernel_inv (snd (rt_thread_resume t k))"
    by (rule resume_inv [OF k])
  show "kernel_inv (snd (rt_thread_suspend t k))" if "running k t"
  proof (rule kernel_inv_step [OF k])
    have r: "tstate k t = RT_THREAD_READY \<or> tstate k t = RT_THREAD_RUNNING" using that by (simp add: running_def)
    show "kernel_ok (snd (rt_thread_suspend t k))"
      using suspend_ok(1,7) [OF kernel_invD(3) [OF k] r, where flag = RT_UNINTERRUPTIBLE] that
      by (simp add: rt_thread_suspend_def kernel_ok_base running_def)
  qed (simp add: rt_thread_suspend_def)
  show "kernel_inv (snd (rt_thread_startup t k))" if "tstate k t = RT_THREAD_INIT" "timer_set k t"
    by (rule kernel_inv_step [OF k])
      (use startup_ok [OF kernel_invD(3) [OF k] that] k in \<open>simp_all add: kernel_ok_base kernel_inv_def\<close>)
  show "kernel_inv (thread_exit k)" if "running k t"
  proof (rule kernel_inv_step [OF k])
    show "kernel_ok (thread_exit k)"
      using exit_ok(1) [OF kernel_invD(1) [OF k], of t] that by (simp add: running_def rt_const)
  qed (simp add: thread_exit_def Let_def)
  show "kernel_inv k'" if i: "tstate k t = RT_THREAD_INIT \<Longrightarrow> timer_set k t" and e: "rt_thread_detach t k = Some (r, k')"
  proof (rule inv_of_prios [OF k])
    show "prios_ok k'" "current k' = current k" using detach_ok [OF kernel_invD(2) [OF k] i e] by blast+
    define k3 where "k3 = upd_thread t (\<lambda>r. r\<lparr>stat := RT_THREAD_CLOSE\<rparr>) (snd (rt_timer_detach (TThread t)
        (if tstate k t \<noteq> RT_THREAD_INIT then rt_schedule_remove_thread t k else k)))"
    have "same_fixed k k3" by (simp add: k3_def)
    moreover from this have "same_fixed k k4" if "mutex_waiter_gone m t (tlist_remove t k3) = Some k4" for m k4
      by (intro same_fixed_trans [OF _ same_fixed_waiter_gone [OF that]]) simp
    ultimately show "same_fixed k k'"
      using e unfolding rt_thread_detach_def k3_def [symmetric] Let_def
      by (auto simp: rt_mutex_drop_thread_def split: if_splits option.splits)
  qed
qed

lemma thread_init_inv:
  assumes k: "kernel_inv k" and t: "tstate k t = RT_THREAD_INIT" and p: "p < RT_THREAD_PRIORITY_MAX"
  shows "kernel_inv (snd (thread_init t p tick k))"
proof -
  let ?f = "\<lambda>_ :: rt_thread. \<lparr>error = RT_EOK, stat = RT_THREAD_INIT, current_priority = p,
            init_priority = p, number_mask = 0, taken_object_list = [], pending_object = None,
            event_set = 0, event_info = 0, init_tick = tick, remaining_tick = tick\<rparr>"
  let ?k1 = "upd_thread t ?f k"
  let ?k = "snd (thread_init t p tick k)"
  have b: "base_ok k" using k by (rule kernel_invD)
  then have x: "sched_ex k {}" and ti: "timers_ok k" by (simp_all add: base_ok_def)
  have n: "t \<notin> set (klist k l)" for l by (rule init_nowhere(1) [OF b t])
  have e: "?k = rt_timer_init (TThread t) Thread_timeout t 0 0 ?k1" by (simp add: thread_init_def)
  have ts: "tstate ?k u = (if u = t then RT_THREAD_INIT else tstate k u)" for u
    by (simp add: e rt_timer_init_def tstate_def rt_const)
  have su: "is_suspended ?k u = (u \<noteq> t \<and> is_suspended k u)" for u
    by (simp add: e rt_timer_init_def is_suspended_def rt_const)
  have fr: "klist ?k = klist k" "current ?k = current k" "ready_group ?k = ready_group k" "timer_list ?k = timer_list k"
    "expiring ?k = expiring k" "prio ?k u = (if u = t then p else prio k u)"
    "number_mask (threads ?k u) = (if u = t then 0 else number_mask (threads k u))" for u
    by (simp_all add: e rt_timer_init_def)
  have nc: "current k \<noteq> Some t" using x t by (auto simp: sched_ex_def thread_ok_def)
  have ns: "\<not> is_suspended k t" using t by (auto simp: is_suspended_iff rt_const)
  have "thread_ok ?k u" for u
  proof (cases "u = t")
    case True
    then show ?thesis using n nc by (simp add: thread_ok_def ts fr) (simp add: rt_const)
  next
    case False
    have "thread_ok k u" using x by (simp add: sched_ex_def)
    then show ?thesis using False by (simp add: thread_ok_def ts su fr)
  qed
  moreover have "prio_ok ?k u" for u
  proof (cases "u = t")
    case True
    then show ?thesis using p by (simp add: prio_ok_def ts fr)
  next
    case False
    have "prio_ok k u" using x by (simp add: sched_ex_def)
    then show ?thesis using False by (simp add: prio_ok_def ts fr)
  qed
  moreover have "u \<noteq> t" if "u \<in> set (klist k (LReady q))" for u q using that n by blast
  ultimately have "sched_ex ?k {}"
    using x unfolding sched_ex_def fr by simp blast
  moreover have "timers_ok ?k"
  proof -
    have nt: "TThread t \<notin> set (timer_list k)" using ti ns by (auto simp: timers_ok_def)
    have tm: "timers ?k i = timers k i" if "i \<noteq> TThread t" for i using that by (simp add: e rt_timer_init_def)
    have "activated (timers ?k i)" if "i \<in> set (timer_list k)" for i
      using that nt ti tm [of i] by (cases "i = TThread t") (auto simp: timers_ok_def)
    moreover have "timer_set ?k u" if "tstate ?k u \<noteq> RT_THREAD_INIT" for u
      using that ti tm [of "TThread u"] ts [of u] by (auto simp: timers_ok_def timer_set_def split: if_splits)
    ultimately show ?thesis using ti nt su tm unfolding timers_ok_def fr by auto
  qed
  ultimately have "kernel_ok ?k" using k by (simp add: kernel_ok_base base_ok_def kernel_inv_def fr)
  then show ?thesis using k p by (simp add: kernel_inv_def) (simp add: e rt_timer_init_def)
qed

lemma timer_call_inv:
  assumes k: "kernel_inv k"
  shows "timeout_func (timers k (TUser n)) \<noteq> Thread_timeout \<Longrightarrow> kernel_inv (snd (rt_timer_start (TUser n) k))"
    "kernel_inv (snd (rt_timer_stop (TUser n) k))"
    "cmd \<noteq> CTRL_SET_FUNC Thread_timeout \<Longrightarrow> kernel_inv (snd (snd (rt_timer_control (TUser n) cmd k)))"
proof -
  have ko: "kernel_ok k" and ti: "timers_ok k" using k kernel_okD by (auto simp: kernel_inv_def)
  show "kernel_inv (snd (rt_timer_start (TUser n) k))" if "timeout_func (timers k (TUser n)) \<noteq> Thread_timeout"
    by (rule kernel_inv_step [OF k start_ok_kernel [OF ko]]) (use that in \<open>simp_all add: startable_def\<close>)
  show "kernel_inv (snd (rt_timer_stop (TUser n) k))"
    by (rule kernel_inv_step [OF k]) (use ko stop_list(4) [OF ti] in \<open>simp_all add: kernel_ok_def sched_ok_def\<close>)
  show "kernel_inv (snd (snd (rt_timer_control (TUser n) cmd k)))" if "cmd \<noteq> CTRL_SET_FUNC Thread_timeout"
  proof (rule kernel_inv_step [OF k])
    have "timers_ok (upd_timer (TUser n) f k)"
      if "\<And>r. activated (f r) = activated r" "\<And>r. timeout_func (f r) = timeout_func r \<or> timeout_func (f r) \<noteq> Thread_timeout" for f
    proof -
      have "timer_set (upd_timer (TUser n) f k) u = timer_set k u" for u by (simp add: timer_set_def)
      then show ?thesis using ti that(1) that(2) [of "timers k (TUser n)"] unfolding timers_ok_def by auto
    qed
    then show "kernel_ok (snd (snd (rt_timer_control (TUser n) cmd k)))"
      using ko that by (cases cmd) (auto simp: rt_timer_control_def kernel_ok_def)
    show "same_fixed k (snd (snd (rt_timer_control (TUser n) cmd k)))"
      by (cases cmd) (simp_all add: rt_timer_control_def)
  qed
qed

lemma critical_inv:
  assumes "kernel_inv k"
  shows "kernel_inv (rt_enter_critical k)" "kernel_inv (rt_exit_critical k)"
    "kernel_inv (rt_interrupt_enter k)" "kernel_inv (rt_interrupt_leave k)"
proof -
  have l: "kernel_ok (k\<lparr>lock_nest := z\<rparr>) = kernel_ok k" "kernel_ok (k\<lparr>interrupt_nest := q\<rparr>) = kernel_ok k" for z q
    by (simp_all add: kernel_ok_def sched_ok_def timers_ok_def timer_set_def tstate_def is_suspended_def)
  have i: "kernel_inv (k\<lparr>lock_nest := z\<rparr>)" "kernel_inv (k\<lparr>interrupt_nest := q\<rparr>)" for z q
    using assms by (simp_all add: kernel_inv_def l)
  show "kernel_inv (rt_enter_critical k)" "kernel_inv (rt_interrupt_enter k)" "kernel_inv (rt_interrupt_leave k)"
    using i by (simp_all add: rt_enter_critical_def rt_interrupt_enter_def rt_interrupt_leave_def)
  show "kernel_inv (rt_exit_critical k)"
    using i schedule_inv [OF i(1)] by (simp add: rt_exit_critical_def Let_def)
qed

lemma object_init_inv:
  assumes k: "kernel_inv k" and l: "klist k l = []"
  shows "l = LSem s \<Longrightarrow> flag_ok fl \<Longrightarrow> kernel_inv (snd (rt_sem_init s v fl k))"
    "l = LEvent s \<Longrightarrow> flag_ok fl \<Longrightarrow> kernel_inv (snd (rt_event_init s fl k))"
    "l = LMutex s \<Longrightarrow> kernel_inv (snd (rt_mutex_init s k))"
proof -
  have e: "ipc_object_init l k = k" using l by (simp add: ipc_object_init_def fun_upd_idem)
  show "kernel_inv (snd (rt_sem_init s v fl k))" if "l = LSem s" "flag_ok fl"
    using e that k by (simp add: rt_sem_init_def kernel_inv_def)
  show "kernel_inv (snd (rt_event_init s fl k))" if "l = LEvent s" "flag_ok fl"
    using e that k by (simp add: rt_event_init_def kernel_inv_def)
  show "kernel_inv (snd (rt_mutex_init s k))" if "l = LMutex s"
    using e that k by (simp add: rt_mutex_init_def)
qed

section \<open>The tick interrupt\<close>

text \<open>The functions of the application's timers, as an interface: they keep the invariant and only wake threads.\<close>

locale isr_client = timer_client +
  assumes cb_fixed: "kernel_ok k \<Longrightarrow> same_fixed k (cb f p k)"
begin

lemma expire_fixed:
  assumes k: "kernel_ok k" and e: "expiring k = []" and l: "timer_list k = i # L"
  shows "same_fixed k (timer_expire cb i k)"
proof -
  define k3 where "k3 = (let k1 = timer_remove i k;
          k2 = (if \<not> periodic (timers k1 i) then upd_timer i (\<lambda>r. r\<lparr>activated := False\<rparr>) k1 else k1)
      in k2\<lparr>expiring := i # expiring k2\<rparr>)"
  have t: "timers_ok k" using k by (simp add: kernel_ok_def)
  have "timers_ok k3"
  proof -
    have "timer_set k3 u = timer_set k u" for u by (simp add: k3_def Let_def timer_set_def)
    moreover have "tstate k3 = tstate k" "is_suspended k3 = is_suspended k"
      by (simp_all add: k3_def Let_def tstate_def is_suspended_def fun_eq_iff)
    ultimately show ?thesis using t l e unfolding timers_ok_def by (auto simp: k3_def Let_def)
  qed
  moreover have "sched_ex k3 {}" using kernel_okD(4) [OF k] by (simp add: k3_def Let_def)
  ultimately have "kernel_ok k3" using k by (simp add: kernel_ok_def sched_ok_def) (simp add: k3_def Let_def)
  then have "same_fixed k3 (timer_call cb i k3)"
    using cb_fixed by (simp add: timer_call_def split: tfunc.split)
  moreover have "same_fixed k k3" by (simp add: k3_def Let_def)
  ultimately have "same_fixed k (timer_call cb i k3)" by (rule same_fixed_trans [rotated])
  then show ?thesis by (simp add: timer_expire_def Let_def k3_def)
qed

lemma loop_inv:
  assumes "timer_check_loop cb now k = Some k'" "kernel_inv k" "expiring k = []"
  shows "kernel_inv k'"
proof -
  have "cb = cb \<longrightarrow> kernel_inv k \<and> expiring k = [] \<longrightarrow> kernel_inv k'"
  proof (rule timer_check_loop.raw_induct [where P = "\<lambda>c now k k'. c = cb \<longrightarrow> kernel_inv k \<and> expiring k = [] \<longrightarrow> kernel_inv k'",
        OF _ assms(1)], intro impI, elim conjE)
    fix g :: "callbacks \<Rightarrow> u32 \<Rightarrow> kernel \<Rightarrow> kernel option" and c now k k'
    assume IH: "\<And>c now k k'. g c now k = Some k' \<Longrightarrow> c = cb \<longrightarrow> kernel_inv k \<and> expiring k = [] \<longrightarrow> kernel_inv k'"
    assume e: "(case timer_list k of [] \<Rightarrow> Some k
      | i # _ \<Rightarrow> if timer_due k now i then let k' = timer_expire c i k in g c (rt_tick k') k' else Some k) = Some k'"
    assume c: "c = cb" and k: "kernel_inv k" "expiring k = []"
    show "kernel_inv k'"
    proof (cases "\<exists>i L. timer_list k = i # L \<and> timer_due k now i")
      case True
      then obtain i L where l: "timer_list k = i # L" "timer_due k now i" by blast
      note x = expire(2,3) [OF kernel_invD(1) [OF k(1)] k(2) l(1)]
      have "kernel_inv (timer_expire cb i k)"
        by (rule kernel_inv_step [OF k(1) x(1) expire_fixed [OF kernel_invD(1) [OF k(1)] k(2) l(1)]])
      then show ?thesis using e l c x(2) IH [of cb _ "timer_expire cb i k" k'] by (simp add: Let_def)
    next
      case False
      then show ?thesis using e k by (auto split: list.splits if_splits)
    qed
  qed
  then show ?thesis using assms(2,3) by blast
qed

lemma tick_inv:
  assumes k: "kernel_inv k" and e: "rt_tick_increase cb k = Some k'"
  shows "kernel_inv k'"
proof -
  let ?k1 = "k\<lparr>rt_tick := rt_tick k + 1\<rparr>"
  let ?t = "the (rt_thread_self ?k1)"
  let ?k2 = "upd_thread ?t (\<lambda>r. r\<lparr>remaining_tick := remaining_tick r - 1\<rparr>) ?k1"
  let ?y = "upd_thread ?t (\<lambda>r. r\<lparr>remaining_tick := init_tick r, stat := stat r OR RT_THREAD_STAT_YIELD\<rparr>) ?k2"
  define k3 where "k3 = (if remaining_tick (threads ?k2 ?t) = 0 then rt_schedule ?y else ?k2)"
  have ko: "kernel_ok k" by (rule kernel_invD(1) [OF k])
  have k2: "kernel_ok ?k2" using ko by simp
  have "kernel_ok ?y" using k2 by simp
  then have "kernel_ok k3" using k2 advances_schedule(2) [of ?y] unfolding k3_def by simp
  moreover have "same_fixed k (rt_schedule ?y)" "same_fixed k ?k2" by (simp_all only: same_fixed_upd same_fixed_refl)
  then have "same_fixed k k3" unfolding k3_def by (rule if_split [where P = "same_fixed k", THEN iffD2, OF conjI, OF impI impI])
  ultimately have k3: "kernel_inv k3" by (rule kernel_inv_step [OF k])
  have "rt_tick_increase cb k = rt_timer_check cb k3" unfolding rt_tick_increase_def Let_def k3_def by simp
  then have "timer_check_loop cb (rt_tick k3) (k3\<lparr>expiring := []\<rparr>) = Some k'" using e by (simp add: rt_timer_check_def)
  moreover have "kernel_inv (k3\<lparr>expiring := []\<rparr>)"
  proof (rule kernel_inv_step [OF k3])
    show "kernel_ok (k3\<lparr>expiring := []\<rparr>)"
      using kernel_invD(1) [OF k3] by (simp add: kernel_ok_def sched_ok_def timers_ok_def timer_set_def tstate_def is_suspended_def)
  qed simp
  ultimately show ?thesis by (rule loop_inv) simp
qed

end

interpretation reschedule_isr: isr_client "\<lambda>f p. rt_schedule"
  by unfold_locales simp

section \<open>Steps\<close>

text \<open>
  One step of the kernel. A call of the running thread needs a thread that runs; objects are initialised
  when they are not in use, a thread when it is in its initial state, and timers of threads are left to
  the kernel.
\<close>

inductive kstep :: "callbacks \<Rightarrow> kernel \<Rightarrow> kernel \<Rightarrow> bool" for cb where
  tick: "rt_tick_increase cb k = Some k' \<Longrightarrow> kstep cb k k'"
| isr_enter: "kstep cb k (rt_interrupt_enter k)"
| isr_leave: "kstep cb k (rt_interrupt_leave k)"
| enter_critical: "kstep cb k (rt_enter_critical k)"
| exit_critical: "kstep cb k (rt_exit_critical k)"
| reschedule: "kstep cb k (rt_schedule k)"
| yield: "kstep cb k (snd (rt_thread_yield k))"
| sleep: "kstep cb k (snd (rt_thread_sleep n k))"
| suspend: "running k t \<Longrightarrow> kstep cb k (snd (rt_thread_suspend t k))"
| resume: "kstep cb k (snd (rt_thread_resume t k))"
| init_thread: "tstate k t = RT_THREAD_INIT \<Longrightarrow> p < RT_THREAD_PRIORITY_MAX \<Longrightarrow> kstep cb k (snd (thread_init t p n k))"
| startup: "tstate k t = RT_THREAD_INIT \<Longrightarrow> timer_set k t \<Longrightarrow> kstep cb k (snd (rt_thread_startup t k))"
| set_priority: "p < RT_THREAD_PRIORITY_MAX \<Longrightarrow> kstep cb k (change_priority t p k)"
| exit_thread: "running k t \<Longrightarrow> kstep cb k (thread_exit k)"
| detach: "(tstate k t = RT_THREAD_INIT \<longrightarrow> timer_set k t) \<Longrightarrow> rt_thread_detach t k = Some (r, k') \<Longrightarrow> kstep cb k k'"
| timer_start: "timeout_func (timers k (TUser i)) \<noteq> Thread_timeout \<Longrightarrow> kstep cb k (snd (rt_timer_start (TUser i) k))"
| timer_stop: "kstep cb k (snd (rt_timer_stop (TUser i) k))"
| timer_control: "cmd \<noteq> CTRL_SET_FUNC Thread_timeout \<Longrightarrow> kstep cb k (snd (snd (rt_timer_control (TUser i) cmd k)))"
| sem_init: "klist k (LSem s) = [] \<Longrightarrow> flag_ok fl \<Longrightarrow> kstep cb k (snd (rt_sem_init s v fl k))"
| sem_take: "running k t \<Longrightarrow> kstep cb k (snd (rt_sem_take s timeout sf k))"
| sem_release: "kstep cb k (snd (rt_sem_release s k))"
| sem_detach: "rt_sem_detach s k = Some (r, k') \<Longrightarrow> kstep cb k k'"
| sem_control: "rt_sem_control s c k = Some (r, k') \<Longrightarrow> kstep cb k k'"
| event_init: "klist k (LEvent e) = [] \<Longrightarrow> flag_ok fl \<Longrightarrow> kstep cb k (snd (rt_event_init e fl k))"
| event_recv: "running k t \<Longrightarrow> kstep cb k (snd (snd (rt_event_recv e want opt timeout sf k)))"
| event_send: "kstep cb k (snd (rt_event_send e bits k))"
| event_detach: "rt_event_detach e k = Some (r, k') \<Longrightarrow> kstep cb k k'"
| event_control: "rt_event_control e c k = Some (r, k') \<Longrightarrow> kstep cb k k'"
| mutex_init: "klist k (LMutex m) = [] \<Longrightarrow> kstep cb k (snd (rt_mutex_init m k))"
| mutex_take: "running k t \<Longrightarrow> rt_mutex_take m timeout sf k = Some (b, k') \<Longrightarrow> kstep cb k k'"
| mutex_resume: "rt_mutex_take_resume m t k = Some (r, k') \<Longrightarrow> kstep cb k k'"
| mutex_release: "kstep cb k (snd (rt_mutex_release m k))"
| mutex_ceiling: "rt_mutex_setprioceiling m p k = Some (q, k') \<Longrightarrow> kstep cb k k'"
| mutex_detach: "rt_mutex_detach m k = Some (r, k') \<Longrightarrow> kstep cb k k'"

inductive_cases kstepE: "kstep cb k k'"

lemma kstep_inv:
  assumes "kstep cb k k'" "isr_client cb" "kernel_inv k"
  shows "kernel_inv k'"
  using assms(1)
proof cases
  case tick
  then show ?thesis by (rule isr_client.tick_inv [OF assms(2,3)])
qed (use assms(3) in \<open>auto intro: critical_inv schedule_inv thread_call_inv thread_init_inv change_inv timer_call_inv
      object_init_inv sem_take_inv sem_release_inv sem_control_inv event_recv_inv event_send_inv event_control_inv
      mutex_take_inv mutex_end_inv mutex_release_inv\<close>)


lemma demo_kernel_inv: "kernel_inv demo_kernel"
proof -
  have "init_priority (threads demo_kernel t) < RT_THREAD_PRIORITY_MAX" for t
    using demo_kernel_mutex_inv by (simp add: mutex_inv_def inherit_ok_def)
  moreover have "flag_ok (sem_flag (sems demo_kernel s))" "flag_ok (event_flag (events demo_kernel e))" for s e
    using demo_sem_value by (simp_all add: flag_ok_def rt_const)
  ultimately show ?thesis using demo_kernel_kernel_ok by (simp add: kernel_inv_def)
qed


end
